(* ===== verification/Prelude.thy ===== *)
theory Prelude
  imports Main "HOL-Library.Word" "HOL-Library.Signed_Division" "HOL-Library.Multiset"
    "HOL-Library.AList"
begin

section \<open>Shared vocabulary\<close>

text \<open>
  What every component of the development uses: the ranges of the machine integers the venue
  stores its numbers in, C's truncating division (the library's \<open>sdiv\<close> on \<open>int\<close>),
  association lists as the model of \<^verbatim>\<open>std::unordered_map\<close> (a list with distinct keys whose
  order stands for the unspecified bucket order), and the sorted traversals the code uses to
  make results independent of that order.

  Conventions of the whole development:
  \<^item> a \<^verbatim>\<open>Price\<close>, \<^verbatim>\<open>Quantity\<close> or \<^verbatim>\<open>Volume\<close> is its raw fixed-point integer, an \<open>int\<close>;
    the arithmetic the source performs on it is the arithmetic of the theory
    \<open>FixedPoint\<close>, where the bit-level routines are modelled on \<open>64 word\<close> and shown to
    compute it;
  \<^item> an \<^verbatim>\<open>Amount\<close> (\<^verbatim>\<open>__int128\<close>) is an \<open>int\<close>;
  \<^item> identifiers (orders, accounts, symbols, assets) are \<open>nat\<close>.
\<close>

named_theorems range_simps \<open>facts about the bounds of machine integers\<close>
named_theorems alist_simps \<open>look-up and update of association lists\<close>
named_theorems event_simps \<open>projections of the outbound event stream\<close>

subsection \<open>Machine integer ranges\<close>

definition i64_min :: int where "i64_min = - (2 ^ 63)"

definition i64_max :: int where "i64_max = 2 ^ 63 - 1"

definition in_i64 :: "int \<Rightarrow> bool" where
  "in_i64 x \<longleftrightarrow> i64_min \<le> x \<and> x \<le> i64_max"

definition sat64 :: "int \<Rightarrow> int" where
  "sat64 x = (if x < i64_min then i64_min else if x > i64_max then i64_max else x)"

lemma i64_min_neg [range_simps]: "i64_min \<le> 0" "i64_min < 0"
  by (simp_all add: i64_min_def)

lemma i64_max_pos [range_simps]: "0 \<le> i64_max" "0 < i64_max"
  by (simp_all add: i64_max_def)

lemma sat64_id [range_simps]: "in_i64 x \<Longrightarrow> sat64 x = x"
  by (simp add: sat64_def in_i64_def)

lemma in_i64_sat64 [simp]: "in_i64 (sat64 x)"
  by (auto simp: sat64_def in_i64_def i64_min_def i64_max_def)

lemma in_i64_between: "in_i64 a \<Longrightarrow> in_i64 b \<Longrightarrow> a \<le> x \<Longrightarrow> x \<le> b \<Longrightarrow> in_i64 x"
  by (simp add: in_i64_def)

lemma in_i64_nonneg: "0 \<le> x \<Longrightarrow> x \<le> i64_max \<Longrightarrow> in_i64 x"
  by (simp add: in_i64_def i64_min_def)

lemma in_i64_zero [simp]: "in_i64 0"
  by (simp add: in_i64_def i64_min_def i64_max_def)

lemma in_i64_le: "in_i64 x \<Longrightarrow> x \<le> i64_max"
  by (simp add: in_i64_def)

lemma sat64_mono: "x \<le> y \<Longrightarrow> sat64 x \<le> sat64 y"
  by (simp add: sat64_def i64_min_def i64_max_def)

subsection \<open>Truncating division\<close>

lemma sdiv_nonneg: "0 \<le> a \<Longrightarrow> 0 < b \<Longrightarrow> a sdiv b = a div b" for a b :: int
  by (auto simp: signed_divide_int_def sgn_if)

lemma sdiv_nonneg_bounds: "0 \<le> a \<Longrightarrow> 0 < b \<Longrightarrow> 0 \<le> a sdiv b \<and> a sdiv b \<le> a" for a b :: int
  by (simp add: sdiv_nonneg pos_imp_zdiv_nonneg_iff) (metis div_by_1 zdiv_mono2 int_one_le_iff_zero_less zero_less_one)

lemma sdiv_abs: "\<bar>a sdiv b\<bar> = \<bar>a\<bar> div \<bar>b\<bar>" for a b :: int
proof (cases "a = 0 \<or> b = 0")
  case False
  then have "0 \<le> \<bar>a\<bar> div \<bar>b\<bar>" by (simp add: pos_imp_zdiv_nonneg_iff)
  with False show ?thesis
    by (auto simp: signed_divide_int_def abs_mult sgn_if)
qed (auto simp: signed_divide_int_def)

lemma sdiv_mult_le: "0 \<le> a \<Longrightarrow> 0 < b \<Longrightarrow> a sdiv b * b \<le> a" for a b :: int
  by (simp add: sdiv_nonneg minus_mod_eq_div_mult [symmetric])

lemma sdiv_neg: "a < 0 \<Longrightarrow> 0 < b \<Longrightarrow> a sdiv b = - (- a div b)" for a b :: int
  by (auto simp: signed_divide_int_def sgn_if)

lemma sdiv_le_pos: "a \<le> b \<Longrightarrow> 0 < c \<Longrightarrow> a sdiv c \<le> b sdiv c" for a b c :: int
proof (cases "0 \<le> a")
  case True
  assume "a \<le> b" "0 < c"
  with True show ?thesis by (simp add: sdiv_nonneg zdiv_mono1)
next
  case False
  assume le: "a \<le> b" and c: "0 < c"
  show ?thesis
  proof (cases "0 \<le> b")
    case True
    with False c have "a sdiv c \<le> 0" "0 \<le> b sdiv c"
      by (simp_all add: sdiv_neg sdiv_nonneg pos_imp_zdiv_nonneg_iff)
    then show ?thesis by simp
  next
    case nonneg: False
    with False le c show ?thesis by (simp add: sdiv_neg zdiv_mono1)
  qed
qed

end
