(* ===== verification/FixedPoint.thy ===== *)
theory FixedPoint
  imports Prelude
begin

unbundle bit_operations_syntax

section \<open>Fixed-point arithmetic\<close>

text \<open>
  Models \<^verbatim>\<open>include/flox/util/base/scale_check.h\<close>, the arithmetic operators of \<^verbatim>\<open>Decimal\<close>
  (\<^verbatim>\<open>include/flox/util/base/decimal.h\<close>) and the mixed \<^verbatim>\<open>Price\<close>/\<^verbatim>\<open>Quantity\<close>/\<^verbatim>\<open>Volume\<close> operators of
  \<^verbatim>\<open>include/flox/common.h\<close>.

  The checked and widening routines are modelled on \<open>64 word\<close>, bit operation by bit
  operation; an \<^verbatim>\<open>int64_t\<close> and a \<^verbatim>\<open>uint64_t\<close> are both \<open>64 word\<close>, read with \<open>sint\<close> or
  \<open>uint\<close>. \<^verbatim>\<open>__int128\<close> intermediates are mathematical integers; \<open>native_product_fits\<close>
  shows the one product they carry stays in range. \<^verbatim>\<open>FLOX_SCALE_CHECK\<close> is the empty macro of
  a release build, and the diagnostic counter of divisions by zero is not modelled.

  The theorems say that each routine computes the saturated mathematical result, and that
  the portable path agrees with the native one on every input. The later theories use the
  \<open>dec_\<close> operations on raw \<open>int\<close>s, which are that saturated result.
\<close>

subsection \<open>Checked operations on 64-bit words\<close>

definition I64_MAX :: "64 word" where "I64_MAX = 0x7FFFFFFFFFFFFFFF"

definition I64_MIN :: "64 word" where "I64_MIN = 0x8000000000000000"

definition saturate_cast_i64 :: "int \<Rightarrow> 64 word" where
  "saturate_cast_i64 v =
     (if v < i64_min then I64_MIN else if v > i64_max then I64_MAX else word_of_int v)"

definition checkedNarrowI64 :: "int \<Rightarrow> 64 word" where
  "checkedNarrowI64 v = saturate_cast_i64 v"

definition dividedByZeroI64 :: "64 word \<Rightarrow> 64 word" where
  "dividedByZeroI64 numerator =
     (if numerator = 0 then 0 else if sint numerator > 0 then I64_MAX else I64_MIN)"

definition checkedAddI64 :: "64 word \<Rightarrow> 64 word \<Rightarrow> 64 word" where
  "checkedAddI64 a b =
     (let usum = a + b;
          overflowed = drop_bit 63 (NOT (a XOR b) AND (a XOR usum)) \<noteq> 0
      in if overflowed then (if sint b \<ge> 0 then I64_MAX else I64_MIN) else usum)"

definition checkedSubI64 :: "64 word \<Rightarrow> 64 word \<Rightarrow> 64 word" where
  "checkedSubI64 a b =
     (let udiff = a - b;
          overflowed = drop_bit 63 ((a XOR b) AND (a XOR udiff)) \<noteq> 0
      in if overflowed then (if sint a \<ge> 0 then I64_MAX else I64_MIN) else udiff)"

subsection \<open>The portable 128-bit path\<close>

definition umul64 :: "64 word \<Rightarrow> 64 word \<Rightarrow> 64 word \<times> 64 word" where
  "umul64 a b =
     (let aLo = a AND 0xFFFFFFFF; aHi = drop_bit 32 a;
          bLo = b AND 0xFFFFFFFF; bHi = drop_bit 32 b;
          p0 = aLo * bLo; p1 = aLo * bHi; p2 = aHi * bLo; p3 = aHi * bHi;
          middle = p1 + drop_bit 32 p0 + (p2 AND 0xFFFFFFFF);
          lo = push_bit 32 middle OR (p0 AND 0xFFFFFFFF);
          hi = p3 + drop_bit 32 p2 + drop_bit 32 middle
      in (hi, lo))"

text \<open>
  One pass of the shift-subtract loop per bit, most significant first; \<open>udiv_loop n\<close> runs
  the passes for the bits \<open>n - 1, \<dots>, 0\<close>.
\<close>

fun udiv_loop :: "nat \<Rightarrow> 64 word \<Rightarrow> 64 word \<Rightarrow> 64 word \<Rightarrow> 64 word \<Rightarrow> 64 word \<Rightarrow> 64 word" where
  "udiv_loop 0 hi lo d q r = q"
| "udiv_loop (Suc i) hi lo d q r =
     (let nextBit = (if i \<ge> 64 then drop_bit (i - 64) hi AND 1 else drop_bit i lo AND 1);
          rem = push_bit 1 r OR nextBit
      in if rem \<ge> d
         then udiv_loop i hi lo d (if i < 64 then q OR push_bit i 1 else q) (rem - d)
         else udiv_loop i hi lo d q rem)"

definition udiv128By64 :: "64 word \<Rightarrow> 64 word \<Rightarrow> 64 word \<Rightarrow> 64 word" where
  "udiv128By64 hi lo d = udiv_loop 128 hi lo d 0 0"

definition absToU64 :: "64 word \<Rightarrow> 64 word" where
  "absToU64 v = (if sint v < 0 then NOT v + 1 else v)"

definition mulDivMagnitude :: "64 word \<Rightarrow> 64 word \<Rightarrow> 64 word \<Rightarrow> bool \<Rightarrow> 64 word" where
  "mulDivMagnitude ua ub ud negative =
     (let (hi, lo) = umul64 ua ub;
          kMax = I64_MAX
      in if hi \<ge> ud then (if negative then I64_MIN else I64_MAX)
         else let q = udiv128By64 hi lo ud
              in if negative
                 then (if q > kMax + 1 then I64_MIN else NOT q + 1)
                 else (if q > kMax then I64_MAX else q))"

definition mulDivI64 :: "64 word \<Rightarrow> 64 word \<Rightarrow> 64 word \<Rightarrow> 64 word" where
  "mulDivI64 a b d =
     (if d = 0
      then let nonZeroProduct = (a \<noteq> 0 \<and> b \<noteq> 0);
               negativeProduct = ((sint a < 0) \<noteq> (sint b < 0))
           in dividedByZeroI64 (if nonZeroProduct then (if negativeProduct then -1 else 1) else 0)
      else checkedNarrowI64 ((sint a * sint b) sdiv sint d))"

definition mulDivI64Portable :: "64 word \<Rightarrow> 64 word \<Rightarrow> 64 word \<Rightarrow> 64 word" where
  "mulDivI64Portable a b d =
     (if d = 0
      then let nonZeroProduct = (a \<noteq> 0 \<and> b \<noteq> 0);
               negativeProduct = ((sint a < 0) \<noteq> (sint b < 0))
           in dividedByZeroI64 (if nonZeroProduct then (if negativeProduct then -1 else 1) else 0)
      else let negative = (((sint a < 0) \<noteq> (sint b < 0)) \<noteq> (sint d < 0))
           in mulDivMagnitude (absToU64 a) (absToU64 b) (absToU64 d) negative)"

definition checkedMulI64 :: "64 word \<Rightarrow> 64 word \<Rightarrow> 64 word" where
  "checkedMulI64 a b =
     (if a = 0 \<or> b = 0 then 0
      else let negative = ((sint a < 0) \<noteq> (sint b < 0));
               (hi, lo) = umul64 (absToU64 a) (absToU64 b);
               limit = (if negative then I64_MAX + 1 else I64_MAX);
               overflowed = (hi \<noteq> 0 \<or> lo > limit)
           in if overflowed then (if negative then I64_MIN else I64_MAX)
              else if negative then NOT lo + 1 else lo)"

definition mulDivI64As :: "bool \<Rightarrow> 64 word \<Rightarrow> 64 word \<Rightarrow> 64 word \<Rightarrow> 64 word" where
  "mulDivI64As Portable a b d = (if Portable then mulDivI64Portable a b d else mulDivI64 a b d)"

subsection \<open>Reading words as integers\<close>

lemma sint64_range: "i64_min \<le> sint w" "sint w \<le> i64_max" for w :: "64 word"
  using sint_range_size [of w] by (simp_all add: i64_min_def i64_max_def word_size)

lemma in_i64_sint [simp]: "in_i64 (sint w)" for w :: "64 word"
  by (simp add: in_i64_def sint64_range)

lemma sint_I64_MAX [simp]: "sint I64_MAX = i64_max"
  by (simp add: I64_MAX_def i64_max_def)

lemma sint_I64_MIN [simp]: "sint I64_MIN = i64_min"
  by (simp add: I64_MIN_def i64_min_def)

lemma sint_word_of_int_i64: "in_i64 v \<Longrightarrow> sint (word_of_int v :: 64 word) = v"
  by (simp add: sint_sbintrunc' signed_take_bit_int_eq_self in_i64_def i64_min_def i64_max_def)

lemma sint_saturate_cast: "sint (saturate_cast_i64 v) = sat64 v"
  by (auto simp: saturate_cast_i64_def sat64_def sint_word_of_int_i64 in_i64_def)

lemma sign_bit: "bit w 63 \<longleftrightarrow> sint w < 0" for w :: "64 word"
  by (simp add: sint_uint signed_take_bit_negative_iff bit_uint_iff)

lemma top_bit: "drop_bit 63 w \<noteq> 0 \<longleftrightarrow> sint w < 0" for w :: "64 word"
proof -
  have "drop_bit 63 w \<noteq> 0 \<longleftrightarrow> bit w 63"
  proof
    assume "drop_bit 63 w \<noteq> 0"
    then obtain n where "bit w (63 + n)"
      by (auto simp: bit_eq_iff bit_drop_bit_eq)
    moreover from bit_imp_le_length [OF this] have "n = 0" by simp
    ultimately show "bit w 63" by simp
  qed (auto simp: bit_eq_iff bit_drop_bit_eq intro!: exI [of _ 0])
  then show ?thesis by (simp add: sign_bit)
qed

lemma sign_and: "sint (x AND y) < 0 \<longleftrightarrow> sint x < 0 \<and> sint y < 0" for x y :: "64 word"
  by (simp flip: sign_bit add: bit_and_iff)

lemma sign_xor: "sint (x XOR y) < 0 \<longleftrightarrow> (sint x < 0) \<noteq> (sint y < 0)" for x y :: "64 word"
  by (simp flip: sign_bit add: bit_xor_iff)

lemma sign_not: "sint (NOT x) < 0 \<longleftrightarrow> \<not> sint x < 0" for x :: "64 word"
  by (simp flip: sign_bit add: bit_not_iff)

lemmas sign_simps = top_bit sign_and sign_xor sign_not

lemma mod_of_range: "(k :: int) mod m = k + m" if "- m \<le> k" "k < 0"
proof -
  have "k mod m = (k + m) mod m" by simp
  also have "\<dots> = k + m" using that by (intro mod_pos_pos_trivial) auto
  finally show ?thesis .
qed

lemma mod_of_range2: "(k :: int) mod m = k - m" if "m \<le> k" "k < 2 * m"
proof -
  have "k mod m = (k - m) mod m" by simp
  also have "\<dots> = k - m" using that by (intro mod_pos_pos_trivial) auto
  finally show ?thesis .
qed

lemma signed_wrap:
  "signed_take_bit 63 k =
     (if k < - (2 ^ 63) then k + 2 ^ 64 else if 2 ^ 63 \<le> k then k - 2 ^ 64 else k)"
  if "- (2 ^ 64) \<le> k" "k < 2 ^ 64" for k :: int
proof -
  have "signed_take_bit 63 k = (k + 2 ^ 63) mod 2 ^ 64 - 2 ^ 63"
    by (simp add: signed_take_bit_eq_take_bit_shift take_bit_eq_mod)
  then show ?thesis
    using that mod_of_range [of "2 ^ 64" "k + 2 ^ 63"] mod_of_range2 [of "2 ^ 64" "k + 2 ^ 63"]
      mod_pos_pos_trivial [of "k + 2 ^ 63" "2 ^ 64"]
    by simp
qed

subsection \<open>Saturating addition and subtraction\<close>

lemma sint_add_wrap:
  "sint (a + b) = (if sint a + sint b < i64_min then sint a + sint b + 2 ^ 64
     else if i64_max < sint a + sint b then sint a + sint b - 2 ^ 64 else sint a + sint b)"
  for a b :: "64 word"
  using signed_wrap [of "sint a + sint b"] sint64_range [of a] sint64_range [of b]
  by (auto simp: sint_word_add i64_min_def i64_max_def)

lemma sint_diff_wrap:
  "sint (a - b) = (if sint a - sint b < i64_min then sint a - sint b + 2 ^ 64
     else if i64_max < sint a - sint b then sint a - sint b - 2 ^ 64 else sint a - sint b)"
  for a b :: "64 word"
  using signed_wrap [of "sint a - sint b"] sint64_range [of a] sint64_range [of b]
  by (auto simp: sint_word_diff i64_min_def i64_max_def)

lemma add_overflow_test:
  "drop_bit 63 (NOT (a XOR b) AND (a XOR (a + b))) \<noteq> 0 \<longleftrightarrow> \<not> in_i64 (sint a + sint b)"
  for a b :: "64 word"
  unfolding sign_simps sint_add_wrap
  using sint64_range [of a] sint64_range [of b]
  by (auto simp: in_i64_def i64_min_def i64_max_def)

lemma sub_overflow_test:
  "drop_bit 63 ((a XOR b) AND (a XOR (a - b))) \<noteq> 0 \<longleftrightarrow> \<not> in_i64 (sint a - sint b)"
  for a b :: "64 word"
  unfolding sign_simps sint_diff_wrap
  using sint64_range [of a] sint64_range [of b]
  by (auto simp: in_i64_def i64_min_def i64_max_def)

lemma sint_checkedAddI64: "sint (checkedAddI64 a b) = sat64 (sint a + sint b)"
  unfolding checkedAddI64_def Let_def add_overflow_test
  using sint64_range [of a] sint64_range [of b]
  by (auto simp: sint_add_wrap in_i64_def sat64_def)

lemma sint_checkedSubI64: "sint (checkedSubI64 a b) = sat64 (sint a - sint b)"
  unfolding checkedSubI64_def Let_def sub_overflow_test
  using sint64_range [of a] sint64_range [of b]
  by (auto simp: sint_diff_wrap in_i64_def sat64_def i64_min_def i64_max_def)

subsection \<open>The widening multiply\<close>

lemma and_low32: "x AND 0xFFFFFFFF = take_bit 32 x" for x :: "64 word"
  using take_bit_eq_mask [of 32 x] by (simp add: mask_eq_exp_minus_1)

lemma unat_low32: "unat (take_bit 32 x) = unat x mod 2 ^ 32" for x :: "64 word"
  by (simp add: take_bit_eq_mod unat_mod)

lemma unat_high32: "unat (drop_bit 32 x) = unat x div 2 ^ 32" for x :: "64 word"
  by (simp add: drop_bit_eq_div unat_div)

lemma unat_add_fits: "unat x + unat y < 2 ^ 64 \<Longrightarrow> unat (x + y) = unat x + unat y" for x y :: "64 word"
  using unat_add_lem [of x y] by simp

lemma unat_mult_fits: "unat x * unat y < 2 ^ 64 \<Longrightarrow> unat (x * y) = unat x * unat y" for x y :: "64 word"
  using unat_mult_lem [of x y] by simp

lemma unat_shift32_or:
  "unat (push_bit 32 m OR take_bit 32 p) = (unat m mod 2 ^ 32) * 2 ^ 32 + unat p mod 2 ^ 32"
  for m p :: "64 word"
proof -
  have "push_bit 32 m OR take_bit 32 p = push_bit 32 m + take_bit 32 p"
    by (rule disjunctive_add [symmetric]) (auto simp: bit_push_bit_iff bit_take_bit_iff)
  moreover have "unat (push_bit 32 m) = (unat m mod 2 ^ 32) * 2 ^ 32"
    using mult_mod_right [of "2 ^ 32" "unat m" "2 ^ 32"]
    by (simp add: push_bit_eq_mult unat_word_ariths(2) mult.commute)
  moreover have "(unat m mod 2 ^ 32) * 2 ^ 32 + unat p mod 2 ^ 32 < 2 ^ 64"
    using mod_less_divisor [of "2 ^ 32" "unat m"] mod_less_divisor [of "2 ^ 32" "unat p"] by simp
  ultimately show ?thesis
    using unat_add_fits [of "push_bit 32 m" "take_bit 32 p"] by (simp add: unat_low32)
qed

lemma halves_product:
  fixes al ah bl bh B :: nat
  defines "m \<equiv> al * bh + al * bl div B + ah * bl mod B"
  shows "(ah * bh + ah * bl div B + m div B) * (B * B) + (m mod B * B + al * bl mod B)
     = (ah * B + al) * (bh * B + bl)"
proof -
  define xd xm yd ym md mm where "xd = al * bl div B" and "xm = al * bl mod B"
    and "yd = ah * bl div B" and "ym = ah * bl mod B" and "md = m div B" and "mm = m mod B"
  have x: "al * bl = xd * B + xm" and y: "ah * bl = yd * B + ym" and m: "m = md * B + mm"
    by (simp_all add: xd_def xm_def yd_def ym_def md_def mm_def)
  have "(ah * bh + yd + md) * (B * B) + (mm * B + xm) = ah * bh * (B * B) + yd * B * B + (md * B + mm) * B + xm"
    by (simp add: algebra_simps)
  also have "(md * B + mm) * B = al * bh * B + xd * B + ym * B"
    unfolding m [symmetric] m_def xd_def ym_def by (simp add: algebra_simps)
  also have "ah * bh * (B * B) + yd * B * B + (al * bh * B + xd * B + ym * B) + xm
      = ah * bh * (B * B) + al * bh * B + (yd * B + ym) * B + (xd * B + xm)"
    by (simp add: algebra_simps)
  also have "\<dots> = (ah * B + al) * (bh * B + bl)"
    unfolding x [symmetric] y [symmetric] by (simp add: algebra_simps)
  finally show ?thesis by (simp add: xd_def xm_def yd_def ym_def md_def mm_def)
qed

lemma umul64_correct:
  "umul64 a b = (hi, lo) \<Longrightarrow> unat hi * 2 ^ 64 + unat lo = unat a * unat b"
proof -
  assume u: "umul64 a b = (hi, lo)"
  define B :: nat where "B = 2 ^ 32"
  define al ah bl bh where "al = unat a mod B" and "ah = unat a div B"
    and "bl = unat b mod B" and "bh = unat b div B"
  have a: "unat a = ah * B + al" and b: "unat b = bh * B + bl"
    by (simp_all add: al_def ah_def bl_def bh_def)
  have "unat a < B * B" "unat b < B * B"
    using unsigned_less [of a] unsigned_less [of b] by (simp_all add: B_def)
  then have lt: "al < B" "ah < B" "bl < B" "bh < B"
    by (simp_all add: al_def ah_def bl_def bh_def less_mult_imp_div_less B_def)
  have bound: "x * y \<le> (B - 1) * (B - 1)" if "x < B" "y < B" for x y
    using that by (intro mult_le_mono) auto
  let ?p0 = "take_bit 32 a * take_bit 32 b" and ?p1 = "take_bit 32 a * drop_bit 32 b"
  let ?p2 = "drop_bit 32 a * take_bit 32 b" and ?p3 = "drop_bit 32 a * drop_bit 32 b"
  have p0: "unat ?p0 = al * bl"
    using bound [OF lt(1,3)] by (subst unat_mult_fits) (simp_all add: unat_low32 al_def bl_def B_def)
  have p1: "unat ?p1 = al * bh"
    using bound [OF lt(1,4)] by (subst unat_mult_fits) (simp_all add: unat_low32 unat_high32 al_def bh_def B_def)
  have p2: "unat ?p2 = ah * bl"
    using bound [OF lt(2,3)] by (subst unat_mult_fits) (simp_all add: unat_low32 unat_high32 ah_def bl_def B_def)
  have p3: "unat ?p3 = ah * bh"
    using bound [OF lt(2,4)] by (subst unat_mult_fits) (simp_all add: unat_high32 ah_def bh_def B_def)
  let ?m = "?p1 + drop_bit 32 ?p0 + take_bit 32 ?p2"
  have small: "al * bl div B < B" "ah * bl div B < B" "ah * bl mod B < B"
    using bound [OF lt(1,3)] bound [OF lt(2,3)] by (auto simp: B_def less_mult_imp_div_less)
  have m1: "unat (?p1 + drop_bit 32 ?p0) = al * bh + al * bl div B"
    using bound [OF lt(1,4)] small
    by (subst unat_add_fits) (simp_all add: p0 p1 unat_high32 B_def)
  have m: "unat ?m = al * bh + al * bl div B + ah * bl mod B"
    using bound [OF lt(1,4)] small
    by (subst unat_add_fits) (simp_all add: m1 p2 unat_low32 B_def)
  have lo: "unat lo = unat ?m mod B * B + al * bl mod B"
    using u by (auto simp: umul64_def Let_def and_low32 unat_shift32_or p0 B_def)
  let ?H = "ah * bh + ah * bl div B + unat ?m div B"
  have total: "?H * (B * B) + unat lo = unat a * unat b"
    unfolding lo a b m by (rule halves_product)
  have "?H * (B * B) \<le> unat a * unat b" using total by linarith
  also have "\<dots> < (B * B) * (B * B)"
    using \<open>unat a < B * B\<close> \<open>unat b < B * B\<close> by (rule mult_strict_mono') auto
  finally have "?H < B * B" by (rule mult_less_cancel2 [THEN iffD1, THEN conjunct2])
  then have H: "?H < 2 ^ 64" by (simp add: B_def)
  have "unat hi = ?H"
    using u H by (auto simp: umul64_def Let_def and_low32 unat_add_fits p2 p3 unat_high32 B_def)
  with total show ?thesis by (simp add: B_def)
qed


subsection \<open>The shift-subtract division\<close>

lemma uint_bit0: "uint (x AND 1) = of_bool (bit x 0)" for x :: "64 word"
  by (simp add: and_one_eq bit_0 odd_iff_mod_2_eq_one uint_and flip: bit_uint_iff)

lemma uint_shift_or:
  fixes r x :: "64 word"
  assumes "uint r < 2 ^ 63" and "x = of_bool c"
  shows "uint (push_bit 1 r OR x) = 2 * uint r + of_bool c"
proof -
  have "push_bit 1 r OR x = push_bit 1 r + x"
    by (rule disjunctive_add [symmetric]) (auto simp: assms bit_1_iff bit_0 intro!: gr0I)
  moreover have "uint (push_bit 1 r + x) = (2 * uint r + of_bool c) mod 2 ^ 64"
    by (simp add: push_bit_eq_mult uint_word_ariths assms mod_simps mult.commute)
  ultimately show ?thesis using assms by (simp add: mod_pos_pos_trivial)
qed

lemma halve_step: "(N :: int) div 2 ^ i = 2 * (N div 2 ^ Suc i) + of_bool (bit N i)"
proof -
  have "N div 2 ^ Suc i = N div 2 ^ i div 2"
    by (simp add: power_Suc2 zdiv_zmult2_eq del: power_Suc)
  then show ?thesis by (simp add: bit_iff_odd of_bool_odd_eq_mod_2)
qed

lemma div_mod_step:
  fixes P d r b :: int
  assumes "0 < d" "r = P mod d" "0 \<le> b" "b \<le> 1"
  shows "(2 * P + b) div d = 2 * (P div d) + (if d \<le> 2 * r + b then 1 else 0)"
    and "(2 * P + b) mod d = (if d \<le> 2 * r + b then 2 * r + b - d else 2 * r + b)"
proof -
  have r: "0 \<le> r" "r < d" using assms by simp_all
  have "P = P div d * d + r" using assms(2) by simp
  then have "2 * P = 2 * (P div d * d + r)" by (rule arg_cong)
  then have P: "2 * P + b = 2 * (P div d) * d + (2 * r + b)" by (simp add: algebra_simps)
  show "(2 * P + b) div d = 2 * (P div d) + (if d \<le> 2 * r + b then 1 else 0)"
  proof (cases "d \<le> 2 * r + b")
    case True
    then have "(2 * r + b) div d = 1" using r assms(3,4)
      by (intro int_div_pos_eq [where r = "2 * r + b - d"]) linarith+
    with True show ?thesis unfolding P using assms(1) by simp
  next
    case False
    then have "(2 * r + b) div d = 0" using r assms(3,4) by (intro div_pos_pos_trivial) linarith+
    with False show ?thesis unfolding P using assms(1) by simp
  qed
  show "(2 * P + b) mod d = (if d \<le> 2 * r + b then 2 * r + b - d else 2 * r + b)"
  proof (cases "d \<le> 2 * r + b")
    case True
    then have "(2 * r + b) mod d = 2 * r + b - d"
      using r assms(3,4) by (intro mod_of_range2) linarith+
    with True show ?thesis unfolding P by simp
  next
    case False
    then have "(2 * r + b) mod d = 2 * r + b" using r assms(3,4) by (intro mod_pos_pos_trivial) linarith+
    with False show ?thesis unfolding P by simp
  qed
qed


lemma wide_bit:
  fixes hi lo :: "64 word"
  shows "bit (uint hi * 2 ^ 64 + uint lo) i \<longleftrightarrow> (if i < 64 then bit lo i else bit hi (i - 64))"
proof -
  have "uint hi * 2 ^ 64 + uint lo = concat_bit 64 (uint lo) (uint hi)"
    using uint_lt2p [of lo] by (simp add: concat_bit_eq push_bit_eq_mult take_bit_eq_mod)
  then show ?thesis by (auto simp: bit_concat_bit_iff bit_uint_iff dest: bit_imp_le_length)
qed

lemma udiv_next_bit:
  fixes hi lo :: "64 word"
  shows "(if i \<ge> 64 then drop_bit (i - 64) hi AND 1 else drop_bit i lo AND 1)
     = of_bool (bit (uint hi * 2 ^ 64 + uint lo) i)"
proof -
  have low: "drop_bit j w AND 1 = of_bool (bit w j)" for w :: "64 word" and j
    by (simp add: and_one_eq bit_iff_odd_drop_bit of_bool_odd_eq_mod_2)
  show ?thesis unfolding low wide_bit by simp
qed

lemma uint_set_low_bit:
  fixes q :: "64 word"
  assumes "uint q = k * 2 ^ Suc i" and "i < 64" and "uint q + 2 ^ i < 2 ^ 64"
  shows "uint (q OR push_bit i 1) = uint q + 2 ^ i"
proof -
  have "\<not> bit (uint q) i"
    by (simp add: assms(1) bit_iff_odd power_Suc mult.left_commute [of _ 2])
  then have "\<not> bit q i" using assms(2) by (simp add: bit_uint_iff)
  then have "q OR push_bit i 1 = q + push_bit i 1"
    by (intro disjunctive_add [symmetric]) (auto simp: bit_exp_iff)
  moreover have "uint (push_bit i 1 :: 64 word) = 2 ^ i"
    using power_strict_increasing [of i 64 "2 :: int"] assms(2)
    by (subst unsigned_push_bit_eq) (simp add: take_bit_eq_mod mod_pos_pos_trivial)
  ultimately show ?thesis
    using assms(3) uint_add_lem [of q "push_bit i 1"] by simp
qed


lemma udiv_loop_correct:
  fixes hi lo d :: "64 word" and N D :: int
  defines "N \<equiv> uint hi * 2 ^ 64 + uint lo" and "D \<equiv> uint d"
  assumes d: "0 < D" "D \<le> 2 ^ 63" and hd: "uint hi < D" and n: "n \<le> 128"
    and r: "uint r = (N div 2 ^ n) mod D" and q: "uint q = (N div 2 ^ n) div D * 2 ^ n"
  shows "uint (udiv_loop n hi lo d q r) = N div D"
  using n r q
proof (induction n arbitrary: q r)
  case 0
  then show ?case by simp
next
  case (Suc i)
  let ?P = "N div 2 ^ Suc i" and ?b = "of_bool (bit N i) :: int"
  let ?rem = "push_bit 1 r OR (of_bool (bit N i) :: 64 word)"
  have P: "N div 2 ^ i = 2 * ?P + ?b" by (rule halve_step)
  have "uint r < 2 ^ 63" using Suc.prems(2) d pos_mod_bound [of D ?P] by linarith
  then have rem: "uint ?rem = 2 * uint r + ?b" by (rule uint_shift_or) simp
  note step = div_mod_step [OF d(1) Suc.prems(2), of ?b, folded P rem]
  have div: "N div 2 ^ i div D = 2 * (?P div D) + (if d \<le> ?rem then 1 else 0)"
    and mod: "N div 2 ^ i mod D = (if d \<le> ?rem then uint ?rem - D else uint ?rem)"
    using step by (simp_all add: word_le_def D_def)
  have q2: "uint q = 2 * (?P div D) * 2 ^ i" using Suc.prems(3) by simp
  have loop: "udiv_loop (Suc i) hi lo d q r =
      (if d \<le> ?rem
       then udiv_loop i hi lo d (if i < 64 then q OR push_bit i 1 else q) (?rem - d)
       else udiv_loop i hi lo d q ?rem)"
    by (simp only: udiv_loop.simps Let_def udiv_next_bit N_def)
  have N0: "0 \<le> N" by (simp add: N_def)
  have fits: "N div 2 ^ i div D * 2 ^ i \<le> N div D"
  proof -
    have "N div 2 ^ i div D = N div D div 2 ^ i"
      using d(1) by (simp add: zdiv_zmult2_eq [symmetric] mult.commute)
    moreover have "N div D div 2 ^ i * 2 ^ i \<le> N div D"
      by (simp add: minus_mod_eq_div_mult [symmetric])
    ultimately show ?thesis by simp
  qed
  have "N < D * 2 ^ 64"
    using hd uint_lt2p [of lo] by (simp add: N_def)
  then have Nlt: "N div D < 2 ^ 64"
    using minus_mod_eq_div_mult [of N D] pos_mod_sign [of D N] d(1)
    by (metis add_diff_cancel_left' div_mult_mod_eq le_add_same_cancel1 linorder_not_le
        mult.commute mult_le_cancel_left_pos order_le_less_trans)
  show ?case
  proof (cases "d \<le> ?rem")
    case True
    have top: "uint q + 2 ^ i = N div 2 ^ i div D * 2 ^ i"
      using True div q2 by (simp add: distrib_right)
    have i: "i < 64"
    proof (rule ccontr)
      assume "\<not> i < 64"
      then have "2 ^ 64 \<le> (2 :: int) ^ i" by (intro power_increasing) auto
      moreover have "0 \<le> uint q" by simp
      ultimately show False using fits Nlt top by linarith
    qed
    have "uint (q OR push_bit i 1) = uint q + 2 ^ i"
      by (rule uint_set_low_bit [OF Suc.prems(3) i]) (use top fits Nlt in linarith)
    moreover have "uint (?rem - d) = uint ?rem - D"
      using True uint_sub_lem [of d ?rem] by (simp add: word_le_def D_def)
    ultimately show ?thesis
      using Suc.IH [of "?rem - d" "q OR push_bit i 1"] Suc.prems(1) True i mod top loop by simp
  next
    case False
    then show ?thesis using Suc.IH [of ?rem q] Suc.prems(1) mod div q2 loop by simp
  qed
qed

lemma udiv128By64_correct:
  assumes "uint hi < uint d" and "uint d \<le> 2 ^ 63"
  shows "uint (udiv128By64 hi lo d) = (uint hi * 2 ^ 64 + uint lo) div uint d"
proof -
  have "uint hi * 2 ^ 64 + uint lo < 2 ^ 128"
    using uint_lt2p [of hi] uint_lt2p [of lo] by simp
  then have "(uint hi * 2 ^ 64 + uint lo) div 2 ^ 128 = 0"
    by (intro div_pos_pos_trivial) auto
  moreover have "0 < uint d" using assms(1) uint_ge_0 [of hi] by linarith
  ultimately show ?thesis
    unfolding udiv128By64_def by (intro udiv_loop_correct) (use assms in simp_all)
qed


subsection \<open>Multiply, then divide\<close>

lemma uint_absToU64: "uint (absToU64 v) = \<bar>sint v\<bar>"
proof -
  have r: "- (2 ^ 63) \<le> sint v" "sint v < 2 ^ 63"
    using sint64_range [of v] by (simp_all add: i64_min_def i64_max_def)
  have v: "v = word_of_int (sint v)" by simp
  show ?thesis
  proof (cases "sint v < 0")
    case True
    have "uint (NOT v + 1) = uint (word_of_int (- sint v) :: 64 word)"
      by (simp add: minus_eq_not_plus_1 [symmetric])
    also have "\<dots> = - sint v"
      using True r by (subst uint_word_of_int) simp
    finally show ?thesis using True by (simp add: absToU64_def)
  next
    case False
    have "uint v = uint (word_of_int (sint v) :: 64 word)" by simp
    also have "\<dots> = sint v"
      using False r by (subst uint_word_of_int) simp
    finally show ?thesis using False by (simp add: absToU64_def)
  qed
qed

lemma sint_of_small: "uint q \<le> i64_max \<Longrightarrow> sint q = uint q" for q :: "64 word"
  using signed_take_bit_int_eq_self [of 63 "uint q"] uint_ge_0 [of q]
  by (simp add: sint_uint i64_max_def)

lemma sint_neg_small: "uint q \<le> 2 ^ 63 \<Longrightarrow> sint (NOT q + 1) = - uint q" for q :: "64 word"
proof -
  assume q: "uint q \<le> 2 ^ 63"
  have "NOT q + 1 = word_of_int (- uint q)"
    by (simp add: minus_eq_not_plus_1 [symmetric])
  moreover have "in_i64 (- uint q)"
  proof -
    have "- uint q \<le> 2 ^ 63 - 1" by (rule order_trans [of _ 0]) simp_all
    with q show ?thesis unfolding in_i64_def i64_min_def i64_max_def by simp
  qed
  ultimately show ?thesis by (simp only: sint_word_of_int_i64)
qed

lemma umul64_uint:
  "umul64 a b = (hi, lo) \<Longrightarrow> uint hi * 2 ^ 64 + uint lo = uint a * uint b"
  by (drule umul64_correct [THEN arg_cong [of _ _ int]]) simp

text \<open>The magnitude routine computes the saturated signed quotient of its operands.\<close>

lemma sint_mulDivMagnitude:
  assumes d: "0 < uint ud" "uint ud \<le> 2 ^ 63"
  shows "sint (mulDivMagnitude ua ub ud neg) =
     sat64 ((if neg then - 1 else 1) * (uint ua * uint ub div uint ud))"
proof -
  obtain hi lo where m: "umul64 ua ub = (hi, lo)" by fastforce
  let ?Q = "uint ua * uint ub div uint ud"
  note prod = umul64_uint [OF m]
  have Q0: "0 \<le> ?Q" using d by (simp add: pos_imp_zdiv_nonneg_iff)
  show ?thesis
  proof (cases "uint ud \<le> uint hi")
    case True
    have "uint ud * 2 ^ 64 \<le> uint ua * uint ub"
    proof -
      have "uint ud * 2 ^ 64 \<le> uint hi * 2 ^ 64" using True by (intro mult_right_mono) auto
      then show ?thesis using prod uint_ge_0 [of lo] by linarith
    qed
    then have "2 ^ 64 \<le> ?Q"
      using zdiv_mono1 [of "uint ud * 2 ^ 64" "uint ua * uint ub" "uint ud"] d by simp
    with True show ?thesis
      by (auto simp: mulDivMagnitude_def m word_le_def sat64_def i64_min_def i64_max_def
          sint_I64_MAX [unfolded i64_max_def] sint_I64_MIN [unfolded i64_min_def])
  next
    case False
    let ?q = "udiv128By64 hi lo ud"
    have q: "uint ?q = ?Q"
      using udiv128By64_correct [of hi ud lo] False d prod by simp
    have lim: "uint I64_MAX = i64_max" "uint (I64_MAX + 1) = 2 ^ 63"
      by (simp_all add: I64_MAX_def i64_max_def)
    have "sint ?q = ?Q" if "?Q \<le> i64_max" using sint_of_small [of ?q] that q by simp
    moreover have "sint (NOT ?q + 1) = - ?Q" if "?Q \<le> 2 ^ 63" using sint_neg_small [of ?q] that q by simp
    ultimately show ?thesis
      using False Q0
      by (auto simp: mulDivMagnitude_def m word_le_def word_less_def lim q Let_def sat64_def
          i64_min_def i64_max_def sint_I64_MAX [unfolded i64_max_def] sint_I64_MIN [unfolded i64_min_def])
  qed
qed


lemma sdiv_magnitude:
  fixes a b d :: int
  assumes "d \<noteq> 0"
  shows "(a * b) sdiv d =
     (if ((a < 0) \<noteq> (b < 0)) \<noteq> (d < 0) then - 1 else 1) * (\<bar>a\<bar> * \<bar>b\<bar> div \<bar>d\<bar>)"
  using assms by (auto simp: signed_divide_int_def abs_mult sgn_if zero_less_mult_iff mult_less_0_iff not_less)

text \<open>The product an \<^verbatim>\<open>__int128\<close> carries on the native path fits it.\<close>

lemma native_product_fits: "\<bar>sint a * sint b\<bar> < 2 ^ 127" for a b :: "64 word"
proof -
  have "\<bar>sint a\<bar> \<le> 2 ^ 63" "\<bar>sint b\<bar> \<le> 2 ^ 63"
    using sint64_range [of a] sint64_range [of b] by (simp_all add: i64_min_def i64_max_def abs_le_iff)
  then have "\<bar>sint a\<bar> * \<bar>sint b\<bar> \<le> 2 ^ 63 * 2 ^ 63" by (intro mult_mono) auto
  then show ?thesis by (simp add: abs_mult)
qed

lemma sint_mulDivI64:
  "d \<noteq> 0 \<Longrightarrow> sint (mulDivI64 a b d) = sat64 ((sint a * sint b) sdiv sint d)"
  by (simp add: mulDivI64_def checkedNarrowI64_def sint_saturate_cast)

lemma sint_nonzero: "d \<noteq> 0 \<Longrightarrow> sint d \<noteq> 0" for d :: "64 word"
  by (simp add: signed_eq_0_iff)

lemma sint_mulDivI64Portable:
  assumes "d \<noteq> 0"
  shows "sint (mulDivI64Portable a b d) = sat64 ((sint a * sint b) sdiv sint d)"
proof -
  have "sint d \<noteq> 0" using assms by (rule sint_nonzero)
  moreover have "\<bar>sint d\<bar> \<le> 2 ^ 63"
    using sint64_range [of d] by (simp add: i64_min_def i64_max_def abs_le_iff)
  ultimately show ?thesis
    using assms by (simp add: mulDivI64Portable_def sint_mulDivMagnitude uint_absToU64 sdiv_magnitude)
qed

lemma sint_checkedMulI64: "sint (checkedMulI64 a b) = sat64 (sint a * sint b)"
proof (cases "a = 0 \<or> b = 0")
  case True
  then show ?thesis by (auto simp: checkedMulI64_def sat64_def i64_min_def i64_max_def)
next
  case False
  obtain hi lo where m: "umul64 (absToU64 a) (absToU64 b) = (hi, lo)" by fastforce
  have prod: "uint hi * 2 ^ 64 + uint lo = \<bar>sint a * sint b\<bar>"
    using umul64_uint [OF m] by (simp add: uint_absToU64 abs_mult)
  have nz: "sint a \<noteq> 0" "sint b \<noteq> 0" using False by (simp_all add: sint_nonzero)
  have sgn: "sint a * sint b < 0 \<longleftrightarrow> (sint a < 0) \<noteq> (sint b < 0)"
    using nz by (auto simp: mult_less_0_iff)
  have lim: "uint I64_MAX = i64_max" "uint (I64_MAX + 1) = 2 ^ 63"
    by (simp_all add: I64_MAX_def i64_max_def)
  show ?thesis
  proof (cases "hi = 0")
    case True
    then have "uint lo = \<bar>sint a * sint b\<bar>" using prod by simp
    with True False sgn sint_of_small [of lo] sint_neg_small [of lo] show ?thesis
      by (auto simp: checkedMulI64_def m Let_def word_less_def lim sat64_def i64_min_def i64_max_def
          sint_I64_MAX [unfolded i64_max_def] sint_I64_MIN [unfolded i64_min_def])
  next
    case big: False
    then have "1 \<le> uint hi" using uint_ge_0 [of hi] by (simp add: int_one_le_iff_zero_less word_neq_0_conv word_less_def)
    then have "1 * 2 ^ 64 \<le> uint hi * 2 ^ 64" by (intro mult_right_mono) auto
    then have "2 ^ 64 \<le> \<bar>sint a * sint b\<bar>" using prod uint_ge_0 [of lo] by linarith
    with big False sgn show ?thesis
      by (auto simp: checkedMulI64_def m Let_def sat64_def i64_min_def i64_max_def
          sint_I64_MAX [unfolded i64_max_def] sint_I64_MIN [unfolded i64_min_def])
  qed
qed


subsection \<open>Decimal operators on raws\<close>

text \<open>
  \<^verbatim>\<open>Decimal\<close> and the mixed operators of \<^verbatim>\<open>common.h\<close>, as functions of the raw values. A raw
  \<^verbatim>\<open>int64_t\<close> is an \<open>int\<close>; every operator returns the saturated result the routines above
  were shown to compute.
\<close>

definition Scale :: int where "Scale = 100000000"

definition dec_add :: "int \<Rightarrow> int \<Rightarrow> int" where "dec_add a b = sat64 (a + b)"

definition dec_sub :: "int \<Rightarrow> int \<Rightarrow> int" where "dec_sub a b = sat64 (a - b)"

definition dec_mul_int :: "int \<Rightarrow> int \<Rightarrow> int" where "dec_mul_int a x = sat64 (a * x)"

definition dec_div_by_zero :: "int \<Rightarrow> int" where
  "dec_div_by_zero n = (if n = 0 then 0 else if n > 0 then i64_max else i64_min)"

definition dec_div_int :: "int \<Rightarrow> int \<Rightarrow> int" where
  "dec_div_int a x =
     (if x = 0 then dec_div_by_zero a else if x = - 1 then dec_sub 0 a else a sdiv x)"

definition mul_div :: "int \<Rightarrow> int \<Rightarrow> int \<Rightarrow> int" where
  "mul_div a b d =
     (if d = 0
      then dec_div_by_zero (if a \<noteq> 0 \<and> b \<noteq> 0 then (if (a < 0) \<noteq> (b < 0) then - 1 else 1) else 0)
      else sat64 ((a * b) sdiv d))"

definition dec_mul :: "int \<Rightarrow> int \<Rightarrow> int" where "dec_mul a b = mul_div a b Scale"

definition dec_div :: "int \<Rightarrow> int \<Rightarrow> int" where
  "dec_div a b = (if b = 0 then dec_div_by_zero a else mul_div a Scale b)"

definition rescale :: "int \<Rightarrow> int \<Rightarrow> int \<Rightarrow> int" where
  "rescale raw fromScale toScale = mul_div raw toScale fromScale"

definition qty_times_price :: "int \<Rightarrow> int \<Rightarrow> int" where
  "qty_times_price qty px = mul_div qty px Scale"

definition volume_div_qty :: "int \<Rightarrow> int \<Rightarrow> int" where
  "volume_div_qty vol qty = (if qty = 0 then dec_div_by_zero vol else mul_div vol Scale qty)"

definition volume_div_price :: "int \<Rightarrow> int \<Rightarrow> int" where
  "volume_div_price vol px = (if px = 0 then dec_div_by_zero vol else mul_div vol Scale px)"

lemma sint_mulDivI64_total: "sint (mulDivI64 a b d) = mul_div (sint a) (sint b) (sint d)"
proof (cases "d = 0")
  case True
  then show ?thesis
    by (auto simp: mulDivI64_def mul_div_def dividedByZeroI64_def dec_div_by_zero_def Let_def
        signed_eq_0_iff)
next
  case False
  then show ?thesis by (simp add: sint_mulDivI64 mul_div_def sint_nonzero)
qed

lemma dec_add_exact [range_simps]: "in_i64 (a + b) \<Longrightarrow> dec_add a b = a + b"
  by (simp add: dec_add_def sat64_id)

lemma dec_sub_exact [range_simps]: "in_i64 (a - b) \<Longrightarrow> dec_sub a b = a - b"
  by (simp add: dec_sub_def sat64_id)

lemma dec_sub_nonneg [range_simps]:
  "0 \<le> b \<Longrightarrow> b \<le> a \<Longrightarrow> a \<le> i64_max \<Longrightarrow> dec_sub a b = a - b"
  by (rule dec_sub_exact) (simp add: in_i64_def i64_min_def)

lemma dec_add_nonneg [range_simps]:
  "0 \<le> a \<Longrightarrow> 0 \<le> b \<Longrightarrow> a + b \<le> i64_max \<Longrightarrow> dec_add a b = a + b"
  by (rule dec_add_exact) (simp add: in_i64_def i64_min_def)

lemma in_i64_dec [simp]: "in_i64 (dec_add a b)" "in_i64 (dec_sub a b)" "in_i64 (dec_mul_int a b)"
  by (simp_all add: dec_add_def dec_sub_def dec_mul_int_def)

text \<open>
  C13. The portable multiply-divide, written out of 32-bit halves and a shift-subtract loop,
  returns on every input the word the native 128-bit path returns, the divisor zero
  included.
\<close>

theorem mulDiv_portable_is_native: "mulDivI64Portable a b d = mulDivI64 a b d"
proof (cases "d = 0")
  case True
  then show ?thesis by (simp add: mulDivI64Portable_def mulDivI64_def)
next
  case False
  then have "sint (mulDivI64Portable a b d) = sint (mulDivI64 a b d)"
    by (simp add: sint_mulDivI64 sint_mulDivI64Portable)
  then show ?thesis by (simp add: signed_word_eqI)
qed

text \<open>
  Every fixed-point operator the engine uses returns the exact mathematical result when
  it is representable and the nearest end of the \<^verbatim>\<open>int64_t\<close> range otherwise; in particular no
  operator wraps.
\<close>

theorem checked_ops_saturate:
  "sint (checkedAddI64 a b) = sat64 (sint a + sint b)
   \<and> sint (checkedSubI64 a b) = sat64 (sint a - sint b)
   \<and> sint (checkedMulI64 a b) = sat64 (sint a * sint b)
   \<and> sint (mulDivI64 a b d) = mul_div (sint a) (sint b) (sint d)"
  by (simp add: sint_checkedAddI64 sint_checkedSubI64 sint_checkedMulI64 sint_mulDivI64_total)

end
