(* ===== verification/Ledger.thy ===== *)
theory Ledger
  imports FixedPoint
begin

unbundle bit_operations_syntax

section \<open>The account ledger\<close>

text \<open>
  Models \<^verbatim>\<open>venue/include/flox-venue/ledger.h\<close>: the money helpers (\<^verbatim>\<open>notionalRaw\<close>,
  \<^verbatim>\<open>rateOnNotional\<close>) and the class \<^verbatim>\<open>Ledger\<close>. The balance table \<^verbatim>\<open>bal_\<close>, an
  \<^verbatim>\<open>unordered_map\<close> from a packed 64-bit key to an available/reserved pair, is an association
  list; every access through \<^verbatim>\<open>bal()\<close> creates the row it names, as \<^verbatim>\<open>operator[]\<close> does, a
  failing \<^verbatim>\<open>reserve\<close> included. \<open>asset_total\<close> sums what \<^verbatim>\<open>forEachBalance\<close> enumerates.

  The locale \<open>double_entry\<close> is what the risk components rely on: a credit moves an asset's
  total by exactly its amount, and moving value inside an account does not move it at all.
\<close>

subsection \<open>Money arithmetic\<close>

definition kMoneyScale :: int where "kMoneyScale = 100000000"

definition kAmountMax :: int where "kAmountMax = 2 ^ 127 - 1"

definition kAmountMin :: int where "kAmountMin = - kAmountMax - 1"

definition scalesValid :: "int \<Rightarrow> int \<Rightarrow> bool" where
  "scalesValid priceScale qtyScale \<longleftrightarrow>
     priceScale > 0 \<and> qtyScale > 0 \<and>
     (if qtyScale \<le> kMoneyScale then kMoneyScale smod qtyScale = 0 else qtyScale smod kMoneyScale = 0)"

definition notionalRaw :: "int \<Rightarrow> int \<Rightarrow> int \<Rightarrow> int \<Rightarrow> int" where
  "notionalRaw priceRaw qtyRaw priceScale qtyScale =
     (let prod = priceRaw * qtyRaw
      in if qtyScale \<le> kMoneyScale
         then let mul = kMoneyScale sdiv qtyScale
              in if prod > kAmountMax sdiv mul \<or> prod < kAmountMin sdiv mul
                 then prod sdiv priceScale * mul
                 else prod * mul sdiv priceScale
         else prod sdiv (priceScale * (qtyScale sdiv kMoneyScale)))"

definition rateOnNotional :: "int \<Rightarrow> int \<Rightarrow> int \<Rightarrow> int" where
  "rateOnNotional notional rateRaw rateScale =
     (if notional \<le> i64_max \<and> notional \<ge> i64_min
      then mul_div notional rateRaw rateScale
      else (notional * rateRaw) sdiv rateScale)"

subsection \<open>State and operations\<close>

record bal =
  avail :: int
  rsvd :: int

type_synonym ledger = "(nat \<times> bal) list"

definition zero_bal :: bal where "zero_bal = \<lparr>avail = 0, rsvd = 0\<rparr>"

definition kMaxAccountId :: nat where "kMaxAccountId = 2 ^ 48 - 1"

definition key :: "nat \<Rightarrow> nat \<Rightarrow> nat" where
  "key account asset = take_bit 64 (push_bit 16 account) OR asset"

definition find_bal :: "ledger \<Rightarrow> nat \<Rightarrow> nat \<Rightarrow> bal option" where
  "find_bal L account asset = map_of L (key account asset)"

definition bal_of :: "ledger \<Rightarrow> nat \<Rightarrow> nat \<Rightarrow> bal" where
  "bal_of L account asset =
     (case find_bal L account asset of None \<Rightarrow> zero_bal | Some b \<Rightarrow> b)"

definition put_bal :: "ledger \<Rightarrow> nat \<Rightarrow> nat \<Rightarrow> bal \<Rightarrow> ledger" where
  "put_bal L account asset b = AList.update (key account asset) b L"

definition deposit :: "ledger \<Rightarrow> nat \<Rightarrow> nat \<Rightarrow> int \<Rightarrow> ledger" where
  "deposit L account asset raw =
     (let b = bal_of L account asset in put_bal L account asset (b\<lparr>avail := avail b + raw\<rparr>))"

definition available :: "ledger \<Rightarrow> nat \<Rightarrow> nat \<Rightarrow> int" where
  "available L account asset =
     (case find_bal L account asset of None \<Rightarrow> 0 | Some b \<Rightarrow> avail b)"

definition reserved :: "ledger \<Rightarrow> nat \<Rightarrow> nat \<Rightarrow> int" where
  "reserved L account asset =
     (case find_bal L account asset of None \<Rightarrow> 0 | Some b \<Rightarrow> rsvd b)"

definition total :: "ledger \<Rightarrow> nat \<Rightarrow> nat \<Rightarrow> int" where
  "total L account asset =
     (case find_bal L account asset of None \<Rightarrow> 0 | Some b \<Rightarrow> avail b + rsvd b)"

definition reserve :: "ledger \<Rightarrow> nat \<Rightarrow> nat \<Rightarrow> int \<Rightarrow> bool \<times> ledger" where
  "reserve L account asset raw =
     (let b = bal_of L account asset
      in if avail b < raw then (False, put_bal L account asset b)
         else (True, put_bal L account asset (b\<lparr>avail := avail b - raw, rsvd := rsvd b + raw\<rparr>)))"

definition release :: "ledger \<Rightarrow> nat \<Rightarrow> nat \<Rightarrow> int \<Rightarrow> ledger" where
  "release L account asset raw =
     (let b = bal_of L account asset; m = (if raw < rsvd b then raw else rsvd b)
      in put_bal L account asset (b\<lparr>rsvd := rsvd b - m, avail := avail b + m\<rparr>))"

definition spendReserved :: "ledger \<Rightarrow> nat \<Rightarrow> nat \<Rightarrow> int \<Rightarrow> ledger" where
  "spendReserved L account asset raw =
     (let b = bal_of L account asset in put_bal L account asset (b\<lparr>rsvd := rsvd b - raw\<rparr>))"

definition credit :: "ledger \<Rightarrow> nat \<Rightarrow> nat \<Rightarrow> int \<Rightarrow> ledger" where
  "credit L account asset raw =
     (let b = bal_of L account asset in put_bal L account asset (b\<lparr>avail := avail b + raw\<rparr>))"

definition restore :: "ledger \<Rightarrow> nat \<Rightarrow> nat \<Rightarrow> int \<Rightarrow> int \<Rightarrow> ledger" where
  "restore L account asset a r = put_bal L account asset \<lparr>avail = a, rsvd = r\<rparr>"

definition debit :: "ledger \<Rightarrow> nat \<Rightarrow> nat \<Rightarrow> int \<Rightarrow> bool \<times> ledger" where
  "debit L account asset raw =
     (let b = bal_of L account asset
      in if avail b < raw then (False, put_bal L account asset b)
         else (True, put_bal L account asset (b\<lparr>avail := avail b - raw\<rparr>)))"

definition forEachBalance :: "ledger \<Rightarrow> (nat \<times> nat \<times> int) list" where
  "forEachBalance L = map (\<lambda>(k, b). (drop_bit 16 k, k AND 0xFFFF, avail b + rsvd b)) L"

definition forEachBalanceSplit :: "ledger \<Rightarrow> (nat \<times> nat \<times> int \<times> int) list" where
  "forEachBalanceSplit L = map (\<lambda>(k, b). (drop_bit 16 k, k AND 0xFFFF, avail b, rsvd b)) L"

definition asset_total :: "ledger \<Rightarrow> nat \<Rightarrow> int" where
  "asset_total L asset =
     sum_list (map (\<lambda>(acct, a, t). if a = asset then t else 0) (forEachBalance L))"

subsection \<open>The key packing\<close>

abbreviation asset_ok :: "nat \<Rightarrow> bool" where "asset_ok a \<equiv> a < 2 ^ 16"

abbreviation account_ok :: "nat \<Rightarrow> bool" where "account_ok a \<equiv> a \<le> kMaxAccountId"

lemma key_low: "asset_ok asset \<Longrightarrow> key account asset AND 0xFFFF = asset"
proof -
  assume a: "asset_ok asset"
  have "key account asset AND 0xFFFF = take_bit 16 (key account asset)"
    by (simp add: take_bit_eq_mask mask_eq_exp_minus_1)
  also have "\<dots> = take_bit 16 asset"
    by (simp add: key_def take_bit_or take_bit_push_bit)
  finally show ?thesis using a by (simp add: take_bit_nat_eq_self)
qed

lemma key_high: "asset_ok asset \<Longrightarrow> account_ok account \<Longrightarrow> drop_bit 16 (key account asset) = account"
proof -
  assume a: "asset_ok asset" and c: "account_ok account"
  have "take_bit 64 (push_bit 16 account) = push_bit 16 account"
    using c by (intro take_bit_nat_eq_self) (simp add: push_bit_eq_mult kMaxAccountId_def)
  moreover have "drop_bit 16 asset = 0" using a by (simp add: drop_bit_eq_div)
  ultimately show ?thesis by (simp add: key_def drop_bit_or drop_bit_push_bit)
qed

lemma key_inject:
  assumes "asset_ok a" "asset_ok a'" "account_ok c" "account_ok c'"
  shows "key c a = key c' a' \<longleftrightarrow> c = c' \<and> a = a'"
  using assms key_low key_high by metis


subsection \<open>Rows and totals\<close>

lemma bal_of_put [alist_simps]:
  "bal_of (put_bal L c a b) c' a' = (if key c a = key c' a' then b else bal_of L c' a')"
  by (simp add: bal_of_def find_bal_def put_bal_def update_conv')

lemma available_bal_of: "available L c a = avail (bal_of L c a)"
  by (simp add: available_def bal_of_def zero_bal_def split: option.split)

lemma reserved_bal_of: "reserved L c a = rsvd (bal_of L c a)"
  by (simp add: reserved_def bal_of_def zero_bal_def split: option.split)

lemma total_bal_of: "total L c a = avail (bal_of L c a) + rsvd (bal_of L c a)"
  by (simp add: total_def bal_of_def zero_bal_def split: option.split)

lemmas balance_views = available_bal_of reserved_bal_of total_bal_of

lemma asset_total_Nil: "asset_total [] x = 0"
  by (simp add: asset_total_def forEachBalance_def)

lemma asset_total_Cons:
  "asset_total ((k, b) # L) x = (if k AND 0xFFFF = x then avail b + rsvd b else 0) + asset_total L x"
  by (simp add: asset_total_def forEachBalance_def)

lemma asset_total_update:
  "asset_total (AList.update k b L) x =
     asset_total L x +
     (if k AND 0xFFFF = x
      then avail b + rsvd b - (case map_of L k of None \<Rightarrow> 0 | Some b' \<Rightarrow> avail b' + rsvd b') else 0)"
  by (induction L) (auto simp: asset_total_Nil asset_total_Cons split: option.splits)

lemma asset_total_put:
  "asset_ok a \<Longrightarrow> asset_total (put_bal L c a b) x =
     asset_total L x + (if x = a then avail b + rsvd b - total L c a else 0)"
  by (auto simp: put_bal_def asset_total_update key_low total_def find_bal_def)

lemmas ledger_ops =
  deposit_def credit_def release_def spendReserved_def restore_def reserve_def debit_def Let_def

subsection \<open>The double-entry contract\<close>

locale double_entry =
  fixes tot :: "'l \<Rightarrow> nat \<Rightarrow> int"
    and cr :: "'l \<Rightarrow> nat \<Rightarrow> nat \<Rightarrow> int \<Rightarrow> 'l"
    and db :: "'l \<Rightarrow> nat \<Rightarrow> nat \<Rightarrow> int \<Rightarrow> bool \<times> 'l"
    and av :: "'l \<Rightarrow> nat \<Rightarrow> nat \<Rightarrow> int"
  assumes tot_credit: "asset_ok a \<Longrightarrow> tot (cr L c a r) x = tot L x + (if x = a then r else 0)"
    and tot_debit: "asset_ok a \<Longrightarrow>
      tot (snd (db L c a r)) x = tot L x - (if x = a \<and> fst (db L c a r) then r else 0)"
    and debit_covers: "fst (db L c a r) \<longleftrightarrow> r \<le> av L c a"
begin

lemma mirrored: "asset_ok a \<Longrightarrow> tot (cr (cr L c a p) v a (- p)) x = tot L x"
  by (simp add: tot_credit)

lemma covered_transfer:
  "asset_ok a \<Longrightarrow> r \<le> av L c a \<Longrightarrow> tot (cr (snd (db L c a r)) v a r) x = tot L x"
  by (simp add: tot_credit tot_debit debit_covers)

lemma fold_conserves:
  assumes "\<And>y L x. y \<in> set ys \<Longrightarrow> tot (f y L) x = tot L x"
  shows "tot (fold f ys L) x = tot L x"
  using assms by (induction ys arbitrary: L) auto

end

interpretation ldg: double_entry asset_total credit debit available
  by unfold_locales
    (auto simp: ledger_ops asset_total_put balance_views split: if_splits)

subsection \<open>Properties\<close>

text \<open>
  C14. Double entry: reserving and releasing never change what an asset totals to over all
  accounts, a credit or deposit adds exactly its amount to that one asset, and a debit either
  removes exactly its amount or changes nothing.
\<close>

theorem ledger_conservation:
  assumes "asset_ok a"
  shows "asset_total (snd (reserve L c a r)) x = asset_total L x
    \<and> asset_total (release L c a r) x = asset_total L x
    \<and> asset_total (credit L c a r) x = asset_total L x + (if x = a then r else 0)
    \<and> asset_total (deposit L c a r) x = asset_total L x + (if x = a then r else 0)
    \<and> asset_total (spendReserved L c a r) x = asset_total L x - (if x = a then r else 0)
    \<and> asset_total (snd (debit L c a r)) x
        = asset_total L x - (if x = a \<and> r \<le> available L c a then r else 0)"
  using assms by (auto simp: ledger_ops asset_total_put balance_views)

theorem ledger_conservation_witness:
  "asset_ok 3 \<and>
   asset_total (snd (reserve (credit [] 7 3 50) 7 3 20)) 3 = asset_total (credit [] 7 3 50) 3"
  using ledger_conservation [of 3 "credit [] 7 3 50" 7 20 3] by simp

text \<open>
  Buying power: a reservation succeeds exactly when the account's available balance
  covers it; then the amount moves from available to reserved, and otherwise every balance
  is unchanged. Releasing any amount after a successful reservation of non-negative balances
  never drives either side negative and returns at most what was reserved.
\<close>

theorem ledger_reserve_release:
  assumes "0 \<le> available L c a" and "0 \<le> reserved L c a" and "0 \<le> r" and "0 \<le> q"
  shows "(fst (reserve L c a r) \<longleftrightarrow> r \<le> available L c a)
    \<and> (\<not> fst (reserve L c a r) \<longrightarrow>
         available (snd (reserve L c a r)) c a = available L c a
         \<and> reserved (snd (reserve L c a r)) c a = reserved L c a)
    \<and> (fst (reserve L c a r) \<longrightarrow>
         available (snd (reserve L c a r)) c a = available L c a - r
         \<and> reserved (snd (reserve L c a r)) c a = reserved L c a + r
         \<and> 0 \<le> available (snd (reserve L c a r)) c a)
    \<and> 0 \<le> reserved (release (snd (reserve L c a r)) c a q) c a
    \<and> available (release (snd (reserve L c a r)) c a q) c a
        = available (snd (reserve L c a r)) c a + min q (reserved (snd (reserve L c a r)) c a)
    \<and> (fst (reserve L c a r) \<longrightarrow>
         available (release (snd (reserve L c a r)) c a r) c a = available L c a)"
  using assms by (auto simp: ledger_ops balance_views bal_of_put)

theorem ledger_reserve_release_witness:
  "available (release (snd (reserve (credit [] 7 3 50) 7 3 20)) 7 3 20) 7 3 = 50"
proof -
  have L: "available (credit [] 7 3 50) 7 3 = 50" "reserved (credit [] 7 3 50) 7 3 = 0"
    by (simp_all add: balance_views ledger_ops bal_of_put) (simp_all add: bal_of_def find_bal_def zero_bal_def)
  then have "fst (reserve (credit [] 7 3 50) 7 3 20)"
    by (simp add: reserve_def Let_def available_bal_of)
  then show ?thesis
    using ledger_reserve_release [of "credit [] 7 3 50" 7 3 20 20] L by simp
qed

text \<open>
  Isolation: as long as account identifiers fit the 48 bits of the packed key, no
  operation on one account and asset changes another account's or another asset's balance,
  and the enumeration hands back the identifiers a row was created under.
\<close>

theorem ledger_rows_isolated:
  assumes "asset_ok a" "asset_ok a'" "account_ok c" "account_ok c'" and "(c, a) \<noteq> (c', a')"
  shows "bal_of (snd (reserve L c a r)) c' a' = bal_of L c' a'
    \<and> bal_of (release L c a r) c' a' = bal_of L c' a'
    \<and> bal_of (credit L c a r) c' a' = bal_of L c' a'
    \<and> bal_of (spendReserved L c a r) c' a' = bal_of L c' a'
    \<and> bal_of (snd (debit L c a r)) c' a' = bal_of L c' a'
    \<and> (drop_bit 16 (key c a), key c a AND 0xFFFF) = (c, a)"
proof -
  have "key c a \<noteq> key c' a'" using assms by (simp add: key_inject)
  with assms show ?thesis by (simp add: ledger_ops bal_of_put key_low key_high)
qed

theorem ledger_rows_isolated_witness:
  "bal_of (credit [] 1 2 50) 2 2 = bal_of [] 2 2"
  using ledger_rows_isolated [of 2 2 1 2 "[]" 50] by (simp add: kMaxAccountId_def)

end
