(* ===== verification/Messages.thy ===== *)
theory Messages
  imports Ledger
begin

section \<open>Orders, resting orders and outbound events\<close>

text \<open>
  The vocabulary of the venue: the enumerations of \<^verbatim>\<open>include/flox/common.h\<close>, the resting
  order of \<^verbatim>\<open>include/flox/book/resting_order.h\<close>, and of
  \<^verbatim>\<open>venue/include/flox-venue/messages.h\<close> the inbound \<^verbatim>\<open>NewOrder\<close> and the alternatives of
  \<^verbatim>\<open>OutboundEvent\<close> the modelled components emit; the reason codes of \<^verbatim>\<open>reject_reason.h\<close>. Alignment padding is left out.
  Fields of \<^verbatim>\<open>RestingOrder\<close> carry the prefix \<open>ro_\<close> and those of \<^verbatim>\<open>NewOrder\<close> the prefix
  \<open>no_\<close>, because the two structs share field names.
\<close>

subsection \<open>Enumerations\<close>

datatype side = BUY | SELL

datatype order_type = LIMIT | MARKET | STOP_MARKET | STOP_LIMIT | TAKE_PROFIT_MARKET
  | TAKE_PROFIT_LIMIT | TRAILING_STOP | ICEBERG

datatype time_in_force = GTC | IOC | FOK | GTD | POST_ONLY

datatype stp_mode = StpNone | CancelNewest | CancelOldest | CancelBoth | Decrement

datatype trigger_ref = TrigLast | TrigMark

datatype peg_ref = PegNone | PegBid | PegAsk | PegMid

datatype match_policy = PriceTimeFifo | ProRata

datatype reject_reason = RejNone | UnknownSymbol | RejHalted | InvalidQuantity | InvalidPrice
  | TickSizeViolation | LotSizeViolation | DuplicateOrderId | UnknownOrder | PostOnlyWouldCross
  | FillOrKillUnfulfillable | OrderTooLarge | InsufficientFunds | LuldBreach
  | RejPositionLimitExceeded | TooManyOpenOrders | NotOrderOwner | DuplicateClientOrderId
  | LastLookUnsupported | NoLedgerBound | RateLimited | MalformedMessage | Unauthenticated
  | SessionSeqGap | MarketClosed | OrderTypeNotPermitted | TimeInForceNotPermitted
  | RestingNotPermitted | AmendNotPermitted | CancelNotPermitted | QuoteNotPermitted
  | InstrumentDelisted | CreditRefused | CreditSourceUnavailable | AdjustmentEmpty
  | AdjustmentNeedsEntry | NewOrderNotPermitted | UnknownOrderType | BookCapacityExceeded
  | PegRequiresTick

datatype cancel_reason = UserRequested | ImmediateOrCancelResidual | MarketResidual
  | SelfTradePrevention | Expired | OcoTriggered | VenueHalt | CancelLiquidation
  | FillOrKillResidual | ReduceOnlyNotReducing | CancelPositionLimitExceeded | BookRefused

datatype book_add_result = Accepted | PriceOutOfBand | PoolExhausted

subsection \<open>Orders\<close>

record resting_order =
  ro_id :: nat
  ro_accountId :: nat
  ro_price :: int
  ro_leaves :: int
  ro_side :: side
  ro_hidden :: int
  ro_peak :: int
  ro_lastLook :: bool
  ro_reduceOnly :: bool
  ro_postOnly :: bool
  ro_clientOrderId :: nat
  ro_cumQty :: int

record new_order =
  no_id :: nat
  no_symbol :: nat
  no_side :: side
  no_type :: order_type
  no_price :: int
  no_quantity :: int
  no_tif :: time_in_force
  no_postOnly :: bool
  no_stp :: stp_mode
  no_accountId :: nat
  no_clientOrderId :: nat
  no_visibleQuantity :: int
  no_triggerPrice :: int
  no_trailingOffset :: int
  no_lastLook :: bool
  no_reduceOnly :: bool
  no_expiryNs :: int
  no_ocoGroup :: nat
  no_peg :: peg_ref
  no_pegOffsetRaw :: int

subsection \<open>Outbound events\<close>

record trade =
  tr_tradeId :: nat
  tr_symbol :: nat
  tr_price :: int
  tr_quantity :: int
  tr_makerId :: nat
  tr_takerId :: nat
  tr_takerSide :: side
  tr_makerAccount :: nat
  tr_takerAccount :: nat

record order_executed =
  ex_id :: nat
  ex_symbol :: nat
  ex_lastQty :: int
  ex_leavesQty :: int
  ex_aggressor :: bool
  ex_complete :: bool
  ex_lastPx :: int
  ex_displayLeaves :: int
  ex_account :: nat
  ex_clientOrderId :: nat
  ex_cumQty :: int

record order_canceled =
  cx_id :: nat
  cx_symbol :: nat
  cx_reason :: cancel_reason
  cx_account :: nat
  cx_clientOrderId :: nat
  cx_leavesQty :: int
  cx_cumQty :: int

record liquidation =
  lq_account :: nat
  lq_symbol :: nat
  lq_qty :: int
  lq_price :: int
  lq_bankrupt :: bool
  lq_adl :: bool

record fee_charged =
  fc_id :: nat
  fc_symbol :: nat
  fc_fee :: int
  fc_maker :: bool
  fc_account :: nat

datatype event =
    Trade trade
  | OrderExecuted order_executed
  | OrderCanceled order_canceled
  | Liquidation liquidation
  | FeeCharged fee_charged

subsection \<open>Small helpers of the source\<close>

definition isConditional :: "order_type \<Rightarrow> bool" where
  "isConditional t \<longleftrightarrow> t = STOP_MARKET \<or> t = STOP_LIMIT \<or> t = TAKE_PROFIT_MARKET
     \<or> t = TAKE_PROFIT_LIMIT \<or> t = TRAILING_STOP"

definition isLimitStop :: "order_type \<Rightarrow> bool" where
  "isLimitStop t \<longleftrightarrow> t = STOP_LIMIT \<or> t = TAKE_PROFIT_LIMIT"

definition isTakeProfit :: "order_type \<Rightarrow> bool" where
  "isTakeProfit t \<longleftrightarrow> t = TAKE_PROFIT_MARKET \<or> t = TAKE_PROFIT_LIMIT"

definition qmin :: "int \<Rightarrow> int \<Rightarrow> int" where
  "qmin a b = (if a < b then a else b)"

fun opposite :: "side \<Rightarrow> side" where
  "opposite BUY = SELL"
| "opposite SELL = BUY"

definition crosses :: "side \<Rightarrow> int \<Rightarrow> order_type \<Rightarrow> int \<Rightarrow> bool" where
  "crosses takerSide takerPrice t restingPrice =
     (if t = MARKET then True
      else case takerSide of BUY \<Rightarrow> takerPrice \<ge> restingPrice | SELL \<Rightarrow> takerPrice \<le> restingPrice)"

lemma qmin_min: "qmin a b = min a b"
  by (simp add: qmin_def)

lemma opposite_opposite [simp]: "opposite (opposite s) = s"
  by (cases s) simp_all

lemma opposite_neq [simp]: "opposite s \<noteq> s" "s \<noteq> opposite s"
  by (cases s; simp)+

subsection \<open>The size of a resting order\<close>

text \<open>
  \<^verbatim>\<open>leaves + hidden\<close>, the expression the books and the matcher use for what an order still
  holds. A well-formed resting order shows something, hides nothing negative, and its total
  is representable.
\<close>

definition total_qty :: "resting_order \<Rightarrow> int" where
  "total_qty r = dec_add (ro_leaves r) (ro_hidden r)"

definition wf_order :: "resting_order \<Rightarrow> bool" where
  "wf_order r \<longleftrightarrow> 0 < ro_leaves r \<and> 0 \<le> ro_hidden r \<and> ro_leaves r + ro_hidden r \<le> i64_max
     \<and> (0 < ro_hidden r \<longrightarrow> 0 < ro_peak r) \<and> 0 \<le> ro_cumQty r
     \<and> ro_cumQty r + ro_leaves r + ro_hidden r \<le> i64_max"

lemma total_qty_exact: "wf_order r \<Longrightarrow> total_qty r = ro_leaves r + ro_hidden r"
  by (simp add: total_qty_def wf_order_def dec_add_nonneg)

lemma total_qty_pos: "wf_order r \<Longrightarrow> 0 < total_qty r"
  by (simp add: total_qty_exact) (simp add: wf_order_def)

end
