(* ===== verification/BookSpec.thy ===== *)
theory BookSpec
  imports Messages
begin

section \<open>What a resting book promises\<close>

text \<open>
  The matcher is a C++ template over its book (\<^verbatim>\<open>template <class Book> class Matcher\<close>), and two
  classes are plugged into it: \<^verbatim>\<open>MatchingBook\<close> and \<^verbatim>\<open>LadderBook\<close>. This theory states the
  interface they share. \<open>book_ops\<close> is the record of the member functions the matcher and the
  engine call; \<open>spec_insert\<close>, \<open>spec_remove\<close>, \<open>spec_replace\<close> and \<open>spec_consume\<close> say what
  the members do to the one abstract view of a book, a list of resting orders per side in
  price-time order; the locale \<open>resting_book\<close> collects the laws a book has to satisfy.

  A visitor passed to \<^verbatim>\<open>availableWithinExcl\<close> may carry state (the all-or-none precheck builds
  its plan there), so the interface hands out the orders visited, in order, and \<open>visit\<close> is
  the accumulation over them.
\<close>

subsection \<open>Price priority\<close>

definition before :: "side \<Rightarrow> int \<Rightarrow> int \<Rightarrow> bool" where
  "before s p q = (case s of BUY \<Rightarrow> q < p | SELL \<Rightarrow> p < q)"

lemma before_trans: "before s p q \<Longrightarrow> before s q r \<Longrightarrow> before s p r"
  by (cases s) (auto simp: before_def)

lemma before_irrefl [simp]: "\<not> before s p p"
  by (cases s) (auto simp: before_def)

lemma before_asym: "before s p q \<Longrightarrow> \<not> before s q p"
  by (cases s) (auto simp: before_def)

lemma before_linear: "p \<noteq> q \<Longrightarrow> \<not> before s q p \<Longrightarrow> before s p q"
  by (cases s) (auto simp: before_def)

lemma not_before_trans: "\<not> before s q p \<Longrightarrow> \<not> before s r q \<Longrightarrow> \<not> before s r p"
  by (cases s) (auto simp: before_def)

lemma before_le_trans: "before s p q \<Longrightarrow> \<not> before s r q \<Longrightarrow> before s p r"
  by (cases s) (auto simp: before_def)

lemma le_before_trans: "\<not> before s q p \<Longrightarrow> before s q r \<Longrightarrow> before s p r"
  by (cases s) (auto simp: before_def)

lemma crosses_mono:
  "crosses (opposite s) limit t q \<Longrightarrow> \<not> before s q p \<Longrightarrow> crosses (opposite s) limit t p"
  by (cases s) (auto simp: before_def crosses_def split: if_splits)

subsection \<open>Effects on one side of a book\<close>

definition hit :: "int \<Rightarrow> resting_order \<Rightarrow> resting_order" where
  "hit q r = r\<lparr>ro_leaves := dec_sub (ro_leaves r) q, ro_cumQty := dec_add (ro_cumQty r) q\<rparr>"

definition refill :: "resting_order \<Rightarrow> resting_order" where
  "refill r = (let newVis = (if ro_peak r < ro_hidden r then ro_peak r else ro_hidden r)
     in r\<lparr>ro_leaves := newVis, ro_hidden := dec_sub (ro_hidden r) newVis\<rparr>)"

definition trim_total :: "int \<Rightarrow> resting_order \<Rightarrow> resting_order" where
  "trim_total newTotal r =
     (if newTotal < ro_leaves r then r\<lparr>ro_leaves := newTotal, ro_hidden := 0\<rparr>
      else r\<lparr>ro_hidden := dec_sub newTotal (ro_leaves r)\<rparr>)"

fun spec_insert :: "side \<Rightarrow> resting_order \<Rightarrow> resting_order list \<Rightarrow> resting_order list" where
  "spec_insert s r [] = [r]"
| "spec_insert s r (x # xs) =
     (if before s (ro_price r) (ro_price x) then r # x # xs else x # spec_insert s r xs)"

definition spec_remove :: "nat \<Rightarrow> resting_order list \<Rightarrow> resting_order list" where
  "spec_remove i = filter (\<lambda>r. ro_id r \<noteq> i)"

definition spec_replace ::
  "nat \<Rightarrow> (resting_order \<Rightarrow> resting_order) \<Rightarrow> resting_order list \<Rightarrow> resting_order list" where
  "spec_replace i f = map (\<lambda>r. if ro_id r = i then f r else r)"

definition spec_find :: "nat \<Rightarrow> resting_order list \<Rightarrow> resting_order option" where
  "spec_find i = find (\<lambda>r. ro_id r = i)"

definition spec_consume :: "side \<Rightarrow> nat \<Rightarrow> int \<Rightarrow> resting_order list \<Rightarrow> resting_order list" where
  "spec_consume s i q rs =
     (case spec_find i rs of
        None \<Rightarrow> rs
      | Some r \<Rightarrow>
          let r' = hit q r
          in if ro_leaves r' \<noteq> 0 then spec_replace i (hit q) rs
             else if ro_hidden r' \<noteq> 0 then spec_insert s (refill r') (spec_remove i rs)
             else spec_remove i rs)"

definition within_limit :: "side \<Rightarrow> int \<Rightarrow> bool \<Rightarrow> int \<Rightarrow> bool" where
  "within_limit takerSide limit isMarket p \<longleftrightarrow>
     isMarket \<or> (case takerSide of BUY \<Rightarrow> \<not> limit < p | SELL \<Rightarrow> \<not> p < limit)"

lemma within_limit_crosses:
  "within_limit (no_side ord) (no_price ord) (no_type ord = MARKET) p
     \<longleftrightarrow> crosses (no_side ord) (no_price ord) (no_type ord) p"
  by (cases "no_side ord") (auto simp: within_limit_def crosses_def)

subsection \<open>Well-formed sides and books\<close>

definition side_ok :: "side \<Rightarrow> resting_order list \<Rightarrow> bool" where
  "side_ok s rs \<longleftrightarrow> sorted_wrt (\<lambda>x y. \<not> before s (ro_price y) (ro_price x)) rs
     \<and> (\<forall>r \<in> set rs. wf_order r \<and> ro_side r = s)"

definition book_ok :: "(side \<Rightarrow> resting_order list) \<Rightarrow> bool" where
  "book_ok ob \<longleftrightarrow> side_ok BUY (ob BUY) \<and> side_ok SELL (ob SELL)
     \<and> distinct (map ro_id (ob BUY @ ob SELL))"

lemma book_ok_side: "book_ok ob \<Longrightarrow> side_ok s (ob s)"
  by (cases s) (auto simp: book_ok_def)

lemma book_ok_distinct: "book_ok ob \<Longrightarrow> distinct (map ro_id (ob s))"
  by (cases s) (auto simp: book_ok_def)

lemma book_ok_disjoint: "book_ok ob \<Longrightarrow> ro_id ` set (ob s) \<inter> ro_id ` set (ob (opposite s)) = {}"
  by (cases s) (auto simp: book_ok_def)

lemma book_okI:
  assumes "side_ok s (ob s)" "side_ok (opposite s) (ob (opposite s))"
    and "distinct (map ro_id (ob s))" "distinct (map ro_id (ob (opposite s)))"
    and "ro_id ` set (ob s) \<inter> ro_id ` set (ob (opposite s)) = {}"
  shows "book_ok ob"
  using assms by (cases s) (auto simp: book_ok_def)

lemma side_ok_wf: "side_ok s rs \<Longrightarrow> r \<in> set rs \<Longrightarrow> wf_order r"
  by (simp add: side_ok_def)

lemma side_ok_Cons:
  "side_ok s (r # rs) \<longleftrightarrow> wf_order r \<and> ro_side r = s \<and> side_ok s rs
     \<and> (\<forall>x \<in> set rs. \<not> before s (ro_price x) (ro_price r))"
  by (auto simp: side_ok_def)

lemma side_ok_Nil [simp]: "side_ok s []"
  by (simp add: side_ok_def)

subsection \<open>Orders under the effects\<close>

lemma hit_sel [simp]:
  "ro_id (hit q r) = ro_id r" "ro_price (hit q r) = ro_price r" "ro_side (hit q r) = ro_side r"
  "ro_hidden (hit q r) = ro_hidden r" "ro_peak (hit q r) = ro_peak r"
  "ro_accountId (hit q r) = ro_accountId r" "ro_lastLook (hit q r) = ro_lastLook r"
  by (simp_all add: hit_def)

lemma refill_sel [simp]:
  "ro_id (refill r) = ro_id r" "ro_price (refill r) = ro_price r" "ro_side (refill r) = ro_side r"
  "ro_accountId (refill r) = ro_accountId r" "ro_lastLook (refill r) = ro_lastLook r"
  "ro_cumQty (refill r) = ro_cumQty r"
  by (simp_all add: refill_def Let_def)

lemma trim_total_sel [simp]:
  "ro_id (trim_total n r) = ro_id r" "ro_price (trim_total n r) = ro_price r"
  "ro_side (trim_total n r) = ro_side r" "ro_accountId (trim_total n r) = ro_accountId r"
  "ro_lastLook (trim_total n r) = ro_lastLook r" "ro_cumQty (trim_total n r) = ro_cumQty r"
  by (simp_all add: trim_total_def)

lemma wf_order_in_i64:
  assumes "wf_order r" "0 \<le> q" "q \<le> ro_leaves r"
  shows "dec_sub (ro_leaves r) q = ro_leaves r - q" "dec_add (ro_cumQty r) q = ro_cumQty r + q"
  using assms by (auto simp: wf_order_def intro!: dec_sub_nonneg dec_add_nonneg)

lemma hit_leaves: "wf_order r \<Longrightarrow> 0 \<le> q \<Longrightarrow> q \<le> ro_leaves r \<Longrightarrow> ro_leaves (hit q r) = ro_leaves r - q"
  and hit_cumQty: "wf_order r \<Longrightarrow> 0 \<le> q \<Longrightarrow> q \<le> ro_leaves r \<Longrightarrow> ro_cumQty (hit q r) = ro_cumQty r + q"
  by (simp_all add: hit_def wf_order_in_i64)

lemma wf_hit: "wf_order r \<Longrightarrow> 0 \<le> q \<Longrightarrow> q < ro_leaves r \<Longrightarrow> wf_order (hit q r)"
  by (simp add: wf_order_def [of "hit q r"] hit_leaves hit_cumQty) (auto simp: wf_order_def)

lemma refill_leaves:
  assumes "0 \<le> ro_hidden r" "ro_hidden r \<le> i64_max" "0 < ro_peak r"
  shows "ro_leaves (refill r) = min (ro_peak r) (ro_hidden r)"
    and "ro_hidden (refill r) = ro_hidden r - min (ro_peak r) (ro_hidden r)"
  using assms by (auto simp: refill_def Let_def dec_sub_nonneg min_def)

lemma wf_hidden_le: "wf_order r \<Longrightarrow> 0 \<le> ro_hidden r \<and> ro_hidden r \<le> i64_max"
  by (auto simp: wf_order_def)

lemma wf_refill:
  assumes "wf_order r" and "ro_hidden r \<noteq> 0"
  shows "wf_order (refill (hit (ro_leaves r) r))"
proof -
  have q: "0 \<le> ro_leaves r" "ro_leaves r \<le> ro_leaves r" using assms by (auto simp: wf_order_def)
  have h: "0 < ro_peak r" "0 \<le> ro_hidden r" "ro_hidden r \<le> i64_max"
    using assms by (auto simp: wf_order_def)
  then have *: "ro_leaves (refill (hit (ro_leaves r) r)) = min (ro_peak r) (ro_hidden r)"
    "ro_hidden (refill (hit (ro_leaves r) r)) = ro_hidden r - min (ro_peak r) (ro_hidden r)"
    using refill_leaves [of "hit (ro_leaves r) r"] by simp_all
  have "ro_peak (refill (hit (ro_leaves r) r)) = ro_peak r" by (simp add: refill_def Let_def)
  with * h assms q show ?thesis
    by (auto simp: wf_order_def [of "refill (hit (ro_leaves r) r)"] hit_cumQty [OF assms(1) q] min_def)
      (auto simp: wf_order_def)
qed

lemma wf_trim_total:
  assumes "wf_order r" "0 < n" "n \<le> total_qty r"
  shows "wf_order (trim_total n r)" and "total_qty (trim_total n r) = n"
proof -
  have n: "n \<le> ro_leaves r + ro_hidden r" using assms by (simp add: total_qty_exact)
  have sub: "\<not> n < ro_leaves r \<Longrightarrow> dec_sub n (ro_leaves r) = n - ro_leaves r"
    using n assms by (intro dec_sub_nonneg) (auto simp: wf_order_def)
  show wf: "wf_order (trim_total n r)"
    using n assms sub by (auto simp: trim_total_def wf_order_def)
  show "total_qty (trim_total n r) = n"
    unfolding total_qty_exact [OF wf] using sub by (auto simp: trim_total_def)
qed

subsection \<open>Sides under the effects\<close>

lemma set_spec_insert [simp]: "set (spec_insert s r rs) = insert r (set rs)"
  by (induction rs) auto

lemma ids_spec_insert: "mset (map ro_id (spec_insert s r rs)) = add_mset (ro_id r) (mset (map ro_id rs))"
  by (induction rs) auto

lemma distinct_spec_insert:
  "distinct (map ro_id (spec_insert s r rs)) \<longleftrightarrow> ro_id r \<notin> ro_id ` set rs \<and> distinct (map ro_id rs)"
  by (induction rs) (auto simp: image_iff)

lemma side_ok_insert:
  assumes "side_ok s rs" "wf_order r" "ro_side r = s"
  shows "side_ok s (spec_insert s r rs)"
  using assms(1)
proof (induction rs)
  case (Cons x xs)
  then show ?case
    using assms(2,3) by (auto simp: side_ok_Cons dest: before_asym before_le_trans)
qed (use assms in \<open>auto simp: side_ok_def\<close>)

lemma side_ok_filter: "side_ok s rs \<Longrightarrow> side_ok s (filter P rs)"
  by (auto simp: side_ok_def sorted_wrt_filter)

lemma side_ok_remove: "side_ok s rs \<Longrightarrow> side_ok s (spec_remove i rs)"
  by (simp add: spec_remove_def side_ok_filter)

lemma side_ok_replace:
  assumes "side_ok s rs"
    and "\<And>r. r \<in> set rs \<Longrightarrow> ro_id r = i \<Longrightarrow> wf_order (f r) \<and> ro_side (f r) = ro_side r \<and> ro_price (f r) = ro_price r"
  shows "side_ok s (spec_replace i f rs)"
  using assms by (induction rs) (auto simp: side_ok_Cons spec_replace_def)

lemma ids_replace:
  "(\<And>r. ro_id (f r) = ro_id r) \<Longrightarrow> map ro_id (spec_replace i f rs) = map ro_id rs"
  by (simp add: spec_replace_def)

lemma set_spec_remove [simp]: "set (spec_remove i rs) = {r \<in> set rs. ro_id r \<noteq> i}"
  by (auto simp: spec_remove_def)

lemma distinct_spec_remove: "distinct (map ro_id rs) \<Longrightarrow> distinct (map ro_id (spec_remove i rs))"
  by (simp add: spec_remove_def distinct_map_filter)

lemma spec_remove_absent: "i \<notin> ro_id ` set rs \<Longrightarrow> spec_remove i rs = rs"
  by (auto simp: spec_remove_def filter_id_conv)

lemma spec_replace_absent: "i \<notin> ro_id ` set rs \<Longrightarrow> spec_replace i f rs = rs"
  unfolding spec_replace_def by (rule map_idI) auto

lemma spec_remove_Cons: "spec_remove i (r # rs) = (if ro_id r = i then spec_remove i rs else r # spec_remove i rs)"
  by (simp add: spec_remove_def)

lemma spec_replace_Cons: "spec_replace i f (r # rs) = (if ro_id r = i then f r else r) # spec_replace i f rs"
  by (simp add: spec_replace_def)

lemma spec_find_Some:
  "distinct (map ro_id rs) \<Longrightarrow> spec_find i rs = Some r \<longleftrightarrow> r \<in> set rs \<and> ro_id r = i"
  by (induction rs) (auto simp: spec_find_def image_iff)

lemma spec_find_None: "spec_find i rs = None \<longleftrightarrow> i \<notin> ro_id ` set rs"
  by (auto simp: spec_find_def find_None_iff)

lemma spec_find_head [simp]: "spec_find (ro_id r) (r # rs) = Some r"
  by (simp add: spec_find_def)

lemma spec_consume_head:
  "distinct (map ro_id (r # rs)) \<Longrightarrow>
   spec_consume s (ro_id r) q (r # rs) =
     (if ro_leaves (hit q r) \<noteq> 0 then hit q r # rs
      else if ro_hidden r \<noteq> 0 then spec_insert s (refill (hit q r)) rs else rs)"
  by (simp add: spec_consume_def spec_remove_Cons spec_replace_Cons spec_remove_absent spec_replace_absent)

lemma spec_consume_cases:
  assumes ok: "side_ok s rs" and d: "distinct (map ro_id rs)"
    and r: "r \<in> set rs" "ro_id r = i" and q: "0 < q" "q \<le> ro_leaves r"
  obtains
    (partial) "q < ro_leaves r" "spec_consume s i q rs = spec_replace i (hit q) rs" "wf_order (hit q r)"
  | (next_peak) "q = ro_leaves r" "0 < ro_hidden r" "wf_order (refill (hit q r))"
      "spec_consume s i q rs = spec_insert s (refill (hit q r)) (spec_remove i rs)"
  | (gone) "q = ro_leaves r" "ro_hidden r = 0" "spec_consume s i q rs = spec_remove i rs"
proof -
  have wf: "wf_order r" using ok r by (simp add: side_ok_def)
  have f: "spec_find i rs = Some r" using d r by (simp add: spec_find_Some)
  have l: "ro_leaves (hit q r) = ro_leaves r - q" using wf q by (simp add: hit_leaves)
  consider "q < ro_leaves r" | "q = ro_leaves r" "ro_hidden r \<noteq> 0" | "q = ro_leaves r" "ro_hidden r = 0"
    using q by linarith
  then show ?thesis
  proof cases
    case 1
    then show ?thesis using that(1) l f wf q by (simp add: spec_consume_def wf_hit)
  next
    case 2
    then show ?thesis using that(2) l f wf wf_refill [OF wf] by (simp add: spec_consume_def wf_order_def)
  next
    case 3
    then show ?thesis using that(3) l f by (simp add: spec_consume_def)
  qed
qed

lemma side_ok_consume:
  assumes "side_ok s rs" "distinct (map ro_id rs)" "r \<in> set rs" "ro_id r = i" "0 < q" "q \<le> ro_leaves r"
  shows "side_ok s (spec_consume s i q rs) \<and> distinct (map ro_id (spec_consume s i q rs))
     \<and> ro_id ` set (spec_consume s i q rs) \<subseteq> ro_id ` set rs"
  using assms
proof (cases rule: spec_consume_cases)
  case partial
  have only: "x \<in> set rs \<Longrightarrow> ro_id x = i \<Longrightarrow> x = r" for x
    using assms(2,3,4) by (metis spec_find_Some option.inject)
  have "side_ok s (spec_replace i (hit q) rs)"
    using assms(1) by (rule side_ok_replace) (use only partial in auto)
  moreover have "ro_id ` set (spec_replace i (hit q) rs) = ro_id ` set rs"
    using ids_replace [of "hit q" i rs] by (metis hit_sel(1) list.set_map)
  ultimately show ?thesis using partial assms(2) by (simp add: ids_replace)
next
  case next_peak
  have "ro_side r = s" using assms(1,3) by (simp add: side_ok_def)
  with next_peak assms show ?thesis
    by (auto simp: distinct_spec_insert distinct_spec_remove intro!: side_ok_insert side_ok_remove)
next
  case gone
  then show ?thesis using assms by (auto simp: distinct_spec_remove side_ok_remove)
qed

subsection \<open>Resting quantity\<close>

definition resting_total :: "resting_order list \<Rightarrow> int" where
  "resting_total rs = sum_list (map total_qty rs)"

lemma total_hit: "wf_order r \<Longrightarrow> 0 \<le> q \<Longrightarrow> q < ro_leaves r \<Longrightarrow> total_qty (hit q r) = total_qty r - q"
  by (simp add: total_qty_exact wf_hit hit_leaves)

lemma total_refill: "wf_order r \<Longrightarrow> ro_hidden r \<noteq> 0 \<Longrightarrow>
    total_qty (refill (hit (ro_leaves r) r)) = total_qty r - ro_leaves r"
  using wf_refill [of r] refill_leaves [of "hit (ro_leaves r) r"]
  by (simp add: total_qty_exact wf_order_def)

lemma resting_total_insert: "resting_total (spec_insert s r rs) = total_qty r + resting_total rs"
  by (induction rs) (auto simp: resting_total_def)

lemma resting_total_filter:
  "\<forall>m \<in> set rs. 0 \<le> total_qty m \<Longrightarrow> resting_total (filter P rs) \<le> resting_total rs"
  by (induction rs) (auto simp: resting_total_def)

lemma resting_total_remove:
  "distinct (map ro_id rs) \<Longrightarrow> r \<in> set rs \<Longrightarrow> resting_total (spec_remove (ro_id r) rs) = resting_total rs - total_qty r"
  by (induction rs) (auto simp: resting_total_def spec_remove_Cons spec_remove_absent image_iff)

lemma resting_total_replace:
  "distinct (map ro_id rs) \<Longrightarrow> r \<in> set rs \<Longrightarrow>
   resting_total (spec_replace (ro_id r) f rs) = resting_total rs - total_qty r + total_qty (f r)"
  by (induction rs) (auto simp: resting_total_def spec_replace_Cons spec_replace_absent image_iff)

lemma resting_total_consume:
  assumes "side_ok s rs" "distinct (map ro_id rs)" "r \<in> set rs" "0 < q" "q \<le> ro_leaves r"
  shows "resting_total (spec_consume s (ro_id r) q rs) = resting_total rs - q"
proof -
  have wf: "wf_order r" using assms by (simp add: side_ok_def)
  from assms(1-3) refl assms(4,5) show ?thesis
  proof (cases rule: spec_consume_cases)
    case partial
    then show ?thesis using assms wf by (simp add: resting_total_replace total_hit)
  next
    case next_peak
    then show ?thesis using assms wf by (simp add: resting_total_insert resting_total_remove total_refill)
  next
    case gone
    then show ?thesis using assms wf by (simp add: resting_total_remove total_qty_exact)
  qed
qed

lemma consume_fields:
  assumes "side_ok s rs" "distinct (map ro_id rs)" "r \<in> set rs" "0 < q" "q \<le> ro_leaves r"
    and "x \<in> set (spec_consume s (ro_id r) q rs)"
  shows "\<exists>y \<in> set rs. ro_id x = ro_id y \<and> ro_price x = ro_price y \<and> ro_accountId x = ro_accountId y
    \<and> ro_lastLook x = ro_lastLook y"
  using assms(1-3) refl assms(4,5)
proof (cases rule: spec_consume_cases)
  case partial
  then show ?thesis using assms(6) by (auto simp: spec_replace_def) metis
next
  case next_peak
  then show ?thesis using assms(3,6) by auto
next
  case gone
  then show ?thesis using assms(6) by auto
qed

lemma consume_members:
  assumes "side_ok s rs" "distinct (map ro_id rs)" "r \<in> set rs" "0 < q" "q \<le> ro_leaves r"
  shows "set (spec_consume s (ro_id r) q rs) =
    {x \<in> set rs. ro_id x \<noteq> ro_id r} \<union> {x \<in> set (spec_consume s (ro_id r) q rs). ro_id x = ro_id r}"
    and "x \<in> set (spec_consume s (ro_id r) q rs) \<Longrightarrow> ro_id x = ro_id r \<Longrightarrow>
      total_qty x = total_qty r - q \<and> ro_price x = ro_price r \<and> ro_accountId x = ro_accountId r \<and> ro_lastLook x = ro_lastLook r"
    and "ro_id r \<in> ro_id ` set (spec_consume s (ro_id r) q rs) \<longleftrightarrow> q < total_qty r"
proof -
  have wf: "wf_order r" using assms by (simp add: side_ok_def)
  have only: "y \<in> set rs \<Longrightarrow> ro_id y = ro_id r \<Longrightarrow> y = r" for y
    using assms(2,3) by (metis spec_find_Some option.inject)
  have tot: "total_qty r = ro_leaves r + ro_hidden r" using wf by (rule total_qty_exact)
  have "set (spec_consume s (ro_id r) q rs) =
      {x \<in> set rs. ro_id x \<noteq> ro_id r} \<union> {x \<in> set (spec_consume s (ro_id r) q rs). ro_id x = ro_id r}
    \<and> (\<forall>x \<in> set (spec_consume s (ro_id r) q rs). ro_id x = ro_id r \<longrightarrow>
      total_qty x = total_qty r - q \<and> ro_price x = ro_price r \<and> ro_accountId x = ro_accountId r \<and> ro_lastLook x = ro_lastLook r)
    \<and> (ro_id r \<in> ro_id ` set (spec_consume s (ro_id r) q rs) \<longleftrightarrow> q < total_qty r)"
    using assms(1-3) refl assms(4,5)
  proof (cases rule: spec_consume_cases)
    case partial
    have "set (spec_replace (ro_id r) (hit q) rs) = insert (hit q r) {x \<in> set rs. ro_id x \<noteq> ro_id r}"
      using only assms(3) by (auto simp: spec_replace_def)
    then show ?thesis using partial wf assms(4) tot by (auto simp: total_hit wf_order_def)
  next
    case next_peak
    then show ?thesis using wf assms(4) tot by (auto simp: total_refill)
  next
    case gone
    then show ?thesis using tot by auto
  qed
  then show "set (spec_consume s (ro_id r) q rs) =
      {x \<in> set rs. ro_id x \<noteq> ro_id r} \<union> {x \<in> set (spec_consume s (ro_id r) q rs). ro_id x = ro_id r}"
    "x \<in> set (spec_consume s (ro_id r) q rs) \<Longrightarrow> ro_id x = ro_id r \<Longrightarrow>
      total_qty x = total_qty r - q \<and> ro_price x = ro_price r \<and> ro_accountId x = ro_accountId r \<and> ro_lastLook x = ro_lastLook r"
    "ro_id r \<in> ro_id ` set (spec_consume s (ro_id r) q rs) \<longleftrightarrow> q < total_qty r" by blast+
qed

subsection \<open>The members of a book\<close>

record 'b book_ops =
  bk_contains :: "'b \<Rightarrow> nat \<Rightarrow> bool"
  bk_full :: "'b \<Rightarrow> bool"
  bk_addResting :: "'b \<Rightarrow> side \<Rightarrow> resting_order \<Rightarrow> book_add_result \<times> 'b"
  bk_canRest :: "'b \<Rightarrow> int \<Rightarrow> bool"
  bk_find :: "'b \<Rightarrow> nat \<Rightarrow> resting_order option"
  bk_reduceTotal :: "'b \<Rightarrow> nat \<Rightarrow> int \<Rightarrow> bool \<times> 'b"
  bk_consumeById :: "'b \<Rightarrow> nat \<Rightarrow> int \<Rightarrow> 'b"
  bk_cancel :: "'b \<Rightarrow> nat \<Rightarrow> resting_order option \<times> 'b"
  bk_forEachOrder :: "'b \<Rightarrow> resting_order list"
  bk_bestLevel :: "'b \<Rightarrow> side \<Rightarrow> resting_order list"
  bk_peekBest :: "'b \<Rightarrow> side \<Rightarrow> resting_order option"
  bk_fillBest :: "'b \<Rightarrow> side \<Rightarrow> int \<Rightarrow> 'b"
  bk_bestBid :: "'b \<Rightarrow> int option"
  bk_bestAsk :: "'b \<Rightarrow> int option"
  bk_within :: "'b \<Rightarrow> side \<Rightarrow> int \<Rightarrow> bool \<Rightarrow> resting_order list"

fun visit :: "(resting_order \<Rightarrow> 's \<Rightarrow> bool \<times> 's) \<Rightarrow> resting_order list \<Rightarrow> int \<times> 's \<Rightarrow> int \<times> 's" where
  "visit skip [] acc = acc"
| "visit skip (r # rs) acc =
     (let (sk, st) = skip r (snd acc)
      in visit skip rs (if sk then fst acc else dec_add (fst acc) (total_qty r), st))"

definition availableWithinExcl ::
  "'b book_ops \<Rightarrow> 'b \<Rightarrow> side \<Rightarrow> int \<Rightarrow> bool \<Rightarrow> (resting_order \<Rightarrow> 's \<Rightarrow> bool \<times> 's) \<Rightarrow> 's \<Rightarrow> int \<times> 's" where
  "availableWithinExcl B b takerSide limit isMarket skip st =
     visit skip (bk_within B b takerSide limit isMarket) (0, st)"

definition availableWithin :: "'b book_ops \<Rightarrow> 'b \<Rightarrow> side \<Rightarrow> int \<Rightarrow> bool \<Rightarrow> int" where
  "availableWithin B b takerSide limit isMarket =
     fst (availableWithinExcl B b takerSide limit isMarket (\<lambda>r u. (False, u)) ())"

subsection \<open>Sequences of mutations\<close>

datatype book_cmd =
    CmdAdd side resting_order
  | CmdFill side int
  | CmdConsume nat int
  | CmdCancel nat
  | CmdTrim nat int

fun bk_exec :: "'b book_ops \<Rightarrow> book_cmd \<Rightarrow> 'b \<Rightarrow> 'b" where
  "bk_exec B (CmdAdd s r) b = snd (bk_addResting B b s r)"
| "bk_exec B (CmdFill s q) b = bk_fillBest B b s q"
| "bk_exec B (CmdConsume i q) b = bk_consumeById B b i q"
| "bk_exec B (CmdCancel i) b = snd (bk_cancel B b i)"
| "bk_exec B (CmdTrim i n) b = snd (bk_reduceTotal B b i n)"

fun spec_exec :: "bool \<Rightarrow> book_cmd \<Rightarrow> (side \<Rightarrow> resting_order list) \<Rightarrow> side \<Rightarrow> resting_order list" where
  "spec_exec ok (CmdAdd s r) ob = (if ok then ob(s := spec_insert s r (ob s)) else ob)"
| "spec_exec ok (CmdFill s q) ob =
     ob(s := (case ob s of [] \<Rightarrow> [] | r # rs \<Rightarrow> spec_consume s (ro_id r) q (r # rs)))"
| "spec_exec ok (CmdConsume i q) ob = (\<lambda>s. spec_consume s i q (ob s))"
| "spec_exec ok (CmdCancel i) ob = (\<lambda>s. spec_remove i (ob s))"
| "spec_exec ok (CmdTrim i n) ob = (\<lambda>s. spec_replace i (trim_total n) (ob s))"

definition book_ids :: "(side \<Rightarrow> resting_order list) \<Rightarrow> nat set" where
  "book_ids ob = ro_id ` (set (ob BUY) \<union> set (ob SELL))"

fun cmd_ok :: "(side \<Rightarrow> resting_order list) \<Rightarrow> book_cmd \<Rightarrow> bool" where
  "cmd_ok ob (CmdAdd s r) \<longleftrightarrow> wf_order r \<and> ro_side r = s \<and> ro_id r \<notin> book_ids ob"
| "cmd_ok ob (CmdFill s q) \<longleftrightarrow> (case ob s of [] \<Rightarrow> False | r # rs \<Rightarrow> 0 < q \<and> q \<le> ro_leaves r)"
| "cmd_ok ob (CmdConsume i q) \<longleftrightarrow>
     (case spec_find i (ob BUY @ ob SELL) of None \<Rightarrow> False | Some r \<Rightarrow> 0 < q \<and> q \<le> ro_leaves r)"
| "cmd_ok ob (CmdCancel i) \<longleftrightarrow> True"
| "cmd_ok ob (CmdTrim i n) \<longleftrightarrow>
     (case spec_find i (ob BUY @ ob SELL) of None \<Rightarrow> False | Some r \<Rightarrow> 0 < n \<and> n \<le> total_qty r)"

fun run_ok :: "(side \<Rightarrow> resting_order list) \<Rightarrow> book_cmd list \<Rightarrow> bool" where
  "run_ok ob [] \<longleftrightarrow> True"
| "run_ok ob (c # cs) \<longleftrightarrow> cmd_ok ob c \<and> run_ok (spec_exec True c ob) cs"

lemma fun_by_sides: "f s = g s \<Longrightarrow> f (opposite s) = g (opposite s) \<Longrightarrow> f = g"
  by (rule ext) (metis opposite.simps side.exhaust)

subsection \<open>The contract\<close>

text \<open>
  \<open>orders b s\<close> is side \<open>s\<close> of the book in price-time order. The laws are those the matcher
  and the engine rely on; each holds under the preconditions the members' comments state
  (\<^verbatim>\<open>0 < by <= leaves\<close>, \<^verbatim>\<open>0 < newTotal <= leaves + hidden\<close>, a fresh identifier). \<open>limit_ok\<close>
  says for which limit prices a side's crossing range is answered exactly, \<open>grid\<close> which prices
  an order may rest at; both are always true of a book without a price grid.
\<close>

locale resting_book =
  fixes B :: "'b book_ops"
    and inv :: "'b \<Rightarrow> bool"
    and orders :: "'b \<Rightarrow> side \<Rightarrow> resting_order list"
    and limit_ok :: "'b \<Rightarrow> side \<Rightarrow> int \<Rightarrow> bool"
    and grid :: "int \<Rightarrow> bool"
  assumes inv_ok: "inv b \<Longrightarrow> book_ok (orders b)"
    and contains: "inv b \<Longrightarrow> bk_contains B b i \<longleftrightarrow> i \<in> ro_id ` (set (orders b BUY) \<union> set (orders b SELL))"
    and found: "inv b \<Longrightarrow> bk_find B b i = spec_find i (orders b BUY @ orders b SELL)"
    and each: "inv b \<Longrightarrow> bk_forEachOrder B b = orders b BUY @ orders b SELL"
    and peek: "inv b \<Longrightarrow> bk_peekBest B b s = (case orders b s of [] \<Rightarrow> None | r # rs \<Rightarrow> Some r)"
    and level: "inv b \<Longrightarrow> bk_bestLevel B b s =
      (case orders b s of [] \<Rightarrow> [] | r # rs \<Rightarrow> takeWhile (\<lambda>x. ro_price x = ro_price r) (r # rs))"
    and touch: "inv b \<Longrightarrow> bk_bestBid B b = map_option ro_price (bk_peekBest B b BUY)
      \<and> bk_bestAsk B b = map_option ro_price (bk_peekBest B b SELL)"
    and within: "inv b \<Longrightarrow> limit_ok b (opposite s) limit \<or> mk \<Longrightarrow> bk_within B b (opposite s) limit mk =
      takeWhile (\<lambda>x. within_limit (opposite s) limit mk (ro_price x)) (orders b s)"
    and added: "inv b \<Longrightarrow> wf_order r \<Longrightarrow> r = r\<lparr>ro_side := s\<rparr> \<Longrightarrow> grid (ro_price r) \<Longrightarrow> \<not> bk_contains B b (ro_id r) \<Longrightarrow>
      bk_addResting B b s r = (ans, b') \<Longrightarrow>
      inv b' \<and> orders b' (opposite s) = orders b (opposite s) \<and>
      orders b' s = (if ans = Accepted then spec_insert s r (orders b s) else orders b s)"
    and filled: "inv b \<Longrightarrow> orders b s = r # rs \<Longrightarrow> 0 < q \<Longrightarrow> q \<le> ro_leaves r \<Longrightarrow>
      inv (bk_fillBest B b s q)
      \<and> orders (bk_fillBest B b s q) s = spec_consume s (ro_id r) q (orders b s)
      \<and> orders (bk_fillBest B b s q) (opposite s) = orders b (opposite s)"
    and consumed: "inv b \<Longrightarrow> r \<in> set (orders b s) \<Longrightarrow> 0 < q \<Longrightarrow> q \<le> ro_leaves r \<Longrightarrow>
      inv (bk_consumeById B b (ro_id r) q)
      \<and> orders (bk_consumeById B b (ro_id r) q) s = spec_consume s (ro_id r) q (orders b s)
      \<and> orders (bk_consumeById B b (ro_id r) q) (opposite s) = orders b (opposite s)"
    and canceled: "inv b \<Longrightarrow> inv (snd (bk_cancel B b i))
      \<and> orders (snd (bk_cancel B b i)) s = spec_remove i (orders b s)
      \<and> fst (bk_cancel B b i) = spec_find i (orders b BUY @ orders b SELL)"
    and trimmed: "inv b \<Longrightarrow> r \<in> set (orders b s) \<Longrightarrow> 0 < n \<Longrightarrow> n \<le> total_qty r \<Longrightarrow>
      inv (snd (bk_reduceTotal B b (ro_id r) n))
      \<and> orders (snd (bk_reduceTotal B b (ro_id r) n)) s = spec_replace (ro_id r) (trim_total n) (orders b s)
      \<and> orders (snd (bk_reduceTotal B b (ro_id r) n)) (opposite s) = orders b (opposite s)"

context resting_book
begin

lemma order_side:
  assumes "inv b" "spec_find i (orders b BUY @ orders b SELL) = Some r"
  obtains s where "r \<in> set (orders b s)" "ro_id r = i" "i \<notin> ro_id ` set (orders b (opposite s))"
proof -
  have d: "distinct (map ro_id (orders b BUY @ orders b SELL))" using inv_ok [OF assms(1)] by (simp add: book_ok_def)
  have "r \<in> set (orders b BUY @ orders b SELL)" "ro_id r = i" using assms(2) spec_find_Some [OF d] by auto
  then obtain s where s: "r \<in> set (orders b s)" "ro_id r = i" by auto
  moreover have "i \<notin> ro_id ` set (orders b (opposite s))"
    using book_ok_disjoint [OF inv_ok [OF assms(1)], of s] s by blast
  ultimately show ?thesis using that by blast
qed

lemma exec_refines:
  assumes "inv b" "cmd_ok (orders b) c" "case c of CmdAdd s r \<Rightarrow> grid (ro_price r) | _ \<Rightarrow> True"
  shows "inv (bk_exec B c b) \<and> orders (bk_exec B c b) = spec_exec
    (case c of CmdAdd s r \<Rightarrow> fst (bk_addResting B b s r) = Accepted | _ \<Rightarrow> True) c (orders b)"
proof (cases c)
  case (CmdAdd s r)
  obtain ans b' where a: "bk_addResting B b s r = (ans, b')" by (cases "bk_addResting B b s r")
  have "r = r\<lparr>ro_side := s\<rparr>" "wf_order r" "\<not> bk_contains B b (ro_id r)" "grid (ro_price r)"
    using assms CmdAdd contains [OF assms(1)] by (auto simp: book_ids_def)
  from added [OF assms(1) this(2,1,4,3) a] show ?thesis
    using CmdAdd a by (auto intro!: fun_by_sides [of _ s])
next
  case (CmdFill s q)
  then obtain r rs where o: "orders b s = r # rs" "0 < q" "q \<le> ro_leaves r"
    using assms(2) by (auto split: list.splits)
  from filled [OF assms(1) o] show ?thesis using CmdFill o(1) by (auto intro!: fun_by_sides [of _ s])
next
  case (CmdConsume i q)
  then obtain r where f: "spec_find i (orders b BUY @ orders b SELL) = Some r" "0 < q" "q \<le> ro_leaves r"
    using assms(2) by (auto split: option.splits)
  obtain s where s: "r \<in> set (orders b s)" "ro_id r = i" "i \<notin> ro_id ` set (orders b (opposite s))"
    using order_side [OF assms(1) f(1)] by blast
  have "spec_find i (orders b (opposite s)) = None" using s(3) by (simp add: spec_find_None)
  with consumed [OF assms(1) s(1) f(2,3)] show ?thesis
    using CmdConsume s(2) by (auto simp: spec_consume_def [of "opposite s"] intro!: fun_by_sides [of _ s])
next
  case (CmdCancel i)
  then show ?thesis using canceled [OF assms(1), of i] by auto
next
  case (CmdTrim i n)
  then obtain r where f: "spec_find i (orders b BUY @ orders b SELL) = Some r" "0 < n" "n \<le> total_qty r"
    using assms(2) by (auto split: option.splits)
  obtain s where s: "r \<in> set (orders b s)" "ro_id r = i" "i \<notin> ro_id ` set (orders b (opposite s))"
    using order_side [OF assms(1) f(1)] by blast
  with trimmed [OF assms(1) s(1) f(2,3)] show ?thesis
    using CmdTrim by (auto simp: spec_replace_absent intro!: fun_by_sides [of _ s])
qed

lemma run_refines:
  assumes "inv b" "run_ok (orders b) cs" "\<And>b s r. fst (bk_addResting B b s r) = Accepted" "\<And>p. grid p"
  shows "inv (fold (bk_exec B) cs b) \<and> orders (fold (bk_exec B) cs b) = fold (spec_exec True) cs (orders b)"
  using assms(1,2)
proof (induction cs arbitrary: b)
  case (Cons c cs)
  have "(case c of CmdAdd s r \<Rightarrow> fst (bk_addResting B b s r) = Accepted | _ \<Rightarrow> True) = True"
    using assms(3) by (cases c) auto
  then have "inv (bk_exec B c b)" "orders (bk_exec B c b) = spec_exec True c (orders b)"
    using exec_refines [of b c] Cons.prems assms(4) by (auto split: book_cmd.splits)
  then show ?case using Cons by simp
qed simp

end

end
