(* ===== verification/MatchingBook.thy ===== *)
theory MatchingBook
  imports BookSpec
begin

section \<open>The reference book\<close>

text \<open>
  Models \<^verbatim>\<open>venue/include/flox-venue/matching_book.h\<close>. The two \<^verbatim>\<open>std::map\<close>s from price to
  \<^verbatim>\<open>std::list\<close> are level lists kept in the maps' comparator order (descending bids, ascending
  asks); \<open>lm_upd\<close> is \<^verbatim>\<open>operator[]\<close> followed by a change of the list it refers to, and it
  creates the level when there is none. The index keeps an order's side and price; the list
  iterator of \<^verbatim>\<open>Loc\<close> is the element of that level's list with the order's identifier
  (identifiers are unique on a book: every caller of \<^verbatim>\<open>addResting\<close> checks \<^verbatim>\<open>contains\<close>).

  The invariant \<open>mb_inv\<close> ties the three structures together, every member preserves it, and
  the interpretation \<open>mbk\<close> shows that the class keeps the contract of \<open>resting_book\<close>.
\<close>

subsection \<open>State\<close>

type_synonym levels = "(int \<times> resting_order list) list"

record matching_book =
  mb_bids :: levels
  mb_asks :: levels
  mb_index :: "nat \<rightharpoonup> side \<times> int"

definition mb_empty_book :: matching_book where
  "mb_empty_book = \<lparr>mb_bids = [], mb_asks = [], mb_index = Map.empty\<rparr>"

fun lm_upd :: "side \<Rightarrow> int \<Rightarrow> (resting_order list \<Rightarrow> resting_order list) \<Rightarrow> levels \<Rightarrow> levels" where
  "lm_upd s p f [] = [(p, f [])]"
| "lm_upd s p f ((q, l) # m) =
     (if q = p then (q, f l) # m
      else if before s p q then (p, f []) # (q, l) # m
      else (q, l) # lm_upd s p f m)"

definition lm_at :: "int \<Rightarrow> levels \<Rightarrow> resting_order list" where
  "lm_at p m = (case map_of m p of None \<Rightarrow> [] | Some l \<Rightarrow> l)"

definition lm_prune :: "int \<Rightarrow> levels \<Rightarrow> levels" where
  "lm_prune p m = filter (\<lambda>(q, l). \<not> (q = p \<and> l = [])) m"

definition mb_side :: "matching_book \<Rightarrow> side \<Rightarrow> levels" where
  "mb_side b s = (case s of BUY \<Rightarrow> mb_bids b | SELL \<Rightarrow> mb_asks b)"

definition mb_set_side :: "side \<Rightarrow> levels \<Rightarrow> matching_book \<Rightarrow> matching_book" where
  "mb_set_side s m b = (case s of BUY \<Rightarrow> b\<lparr>mb_bids := m\<rparr> | SELL \<Rightarrow> b\<lparr>mb_asks := m\<rparr>)"

subsection \<open>Members\<close>

definition mb_contains :: "matching_book \<Rightarrow> nat \<Rightarrow> bool" where
  "mb_contains b i \<longleftrightarrow> mb_index b i \<noteq> None"

definition mb_empty :: "matching_book \<Rightarrow> bool" where
  "mb_empty b \<longleftrightarrow> mb_bids b = [] \<and> mb_asks b = []"

definition mb_full :: "matching_book \<Rightarrow> bool" where "mb_full b = False"

definition mb_addResting :: "matching_book \<Rightarrow> side \<Rightarrow> resting_order \<Rightarrow> book_add_result \<times> matching_book" where
  "mb_addResting b s r =
     (let b1 = mb_set_side s (lm_upd s (ro_price r) (\<lambda>l. l @ [r\<lparr>ro_side := s\<rparr>]) (mb_side b s)) b
      in (Accepted, b1\<lparr>mb_index := (mb_index b1)(ro_id r \<mapsto> (s, ro_price r))\<rparr>))"

definition mb_canRest :: "matching_book \<Rightarrow> int \<Rightarrow> bool" where "mb_canRest b p = True"

definition mb_find :: "matching_book \<Rightarrow> nat \<Rightarrow> resting_order option" where
  "mb_find b i =
     (case mb_index b i of
        None \<Rightarrow> None
      | Some (s, p) \<Rightarrow> find (\<lambda>r. ro_id r = i) (lm_at p (mb_side b s)))"

definition mb_modify :: "matching_book \<Rightarrow> nat \<Rightarrow> (resting_order \<Rightarrow> resting_order) \<Rightarrow> bool \<times> matching_book" where
  "mb_modify b i f =
     (case mb_index b i of
        None \<Rightarrow> (False, b)
      | Some (s, p) \<Rightarrow>
          (True, mb_set_side s
            (lm_upd s p (map (\<lambda>r. if ro_id r = i then f r else r)) (mb_side b s)) b))"

definition mb_reduce :: "matching_book \<Rightarrow> nat \<Rightarrow> int \<Rightarrow> bool \<times> matching_book" where
  "mb_reduce b i newLeaves = mb_modify b i (\<lambda>r. r\<lparr>ro_leaves := newLeaves\<rparr>)"

definition mb_reduceTotal :: "matching_book \<Rightarrow> nat \<Rightarrow> int \<Rightarrow> bool \<times> matching_book" where
  "mb_reduceTotal b i newTotal =
     mb_modify b i (\<lambda>r. if newTotal < ro_leaves r then r\<lparr>ro_leaves := newTotal, ro_hidden := 0\<rparr>
                        else r\<lparr>ro_hidden := dec_sub newTotal (ro_leaves r)\<rparr>)"

definition mb_erase :: "matching_book \<Rightarrow> nat \<Rightarrow> side \<Rightarrow> int \<Rightarrow> matching_book" where
  "mb_erase b i s p =
     (let b1 = mb_set_side s
        (lm_prune p (lm_upd s p (filter (\<lambda>r. ro_id r \<noteq> i)) (mb_side b s))) b
      in b1\<lparr>mb_index := (mb_index b1)(i := None)\<rparr>)"

definition mb_consumeById :: "matching_book \<Rightarrow> nat \<Rightarrow> int \<Rightarrow> matching_book" where
  "mb_consumeById b i by =
     (case mb_index b i of
        None \<Rightarrow> b
      | Some (s, p) \<Rightarrow>
          (let b1 = snd (mb_modify b i
                 (\<lambda>r. r\<lparr>ro_leaves := dec_sub (ro_leaves r) by, ro_cumQty := dec_add (ro_cumQty r) by\<rparr>))
           in case mb_find b1 i of
                None \<Rightarrow> b1
              | Some r \<Rightarrow>
                  if ro_leaves r \<noteq> 0 then b1
                  else if ro_hidden r \<noteq> 0 then
                    let newVis = (if ro_peak r < ro_hidden r then ro_peak r else ro_hidden r);
                        r' = r\<lparr>ro_leaves := newVis, ro_hidden := dec_sub (ro_hidden r) newVis\<rparr>
                    in mb_set_side s
                         (lm_upd s p (\<lambda>l. filter (\<lambda>x. ro_id x \<noteq> i) l @ [r']) (mb_side b1 s)) b1
                  else mb_erase b1 i s p))"

definition mb_cancel :: "matching_book \<Rightarrow> nat \<Rightarrow> resting_order option \<times> matching_book" where
  "mb_cancel b i =
     (case mb_index b i of
        None \<Rightarrow> (None, b)
      | Some (s, p) \<Rightarrow> (mb_find b i, mb_erase b i s p))"

definition mb_forEachOrder :: "matching_book \<Rightarrow> resting_order list" where
  "mb_forEachOrder b = concat (map snd (mb_bids b)) @ concat (map snd (mb_asks b))"

definition mb_levels :: "matching_book \<Rightarrow> side \<Rightarrow> (int \<times> int) list" where
  "mb_levels b s =
     map (\<lambda>(p, l). (p, fold (\<lambda>r q. dec_add q (dec_add (ro_leaves r) (ro_hidden r))) l 0)) (mb_side b s)"

definition mb_bestLevel :: "matching_book \<Rightarrow> side \<Rightarrow> resting_order list" where
  "mb_bestLevel b s = (case mb_side b s of [] \<Rightarrow> [] | (p, l) # m \<Rightarrow> l)"

definition mb_peekBest :: "matching_book \<Rightarrow> side \<Rightarrow> resting_order option" where
  "mb_peekBest b s =
     (case mb_side b s of
        [] \<Rightarrow> None
      | (p, l) # m \<Rightarrow> (case l of [] \<Rightarrow> None | r # rs \<Rightarrow> Some r))"

definition mb_fillBest :: "matching_book \<Rightarrow> side \<Rightarrow> int \<Rightarrow> matching_book" where
  "mb_fillBest b s by =
     (case mb_side b s of
        (p, r # rs) # m \<Rightarrow>
          (let h = r\<lparr>ro_leaves := dec_sub (ro_leaves r) by, ro_cumQty := dec_add (ro_cumQty r) by\<rparr>
           in if ro_leaves h = 0
              then if ro_hidden h \<noteq> 0
                   then let newVis = (if ro_peak h < ro_hidden h then ro_peak h else ro_hidden h);
                            h' = h\<lparr>ro_leaves := newVis, ro_hidden := dec_sub (ro_hidden h) newVis\<rparr>
                        in mb_set_side s ((p, rs @ [h']) # m) b
                   else let b1 = b\<lparr>mb_index := (mb_index b)(ro_id h := None)\<rparr>
                        in mb_set_side s (if rs = [] then m else (p, rs) # m) b1
              else mb_set_side s ((p, h # rs) # m) b)
      | _ \<Rightarrow> b)"

definition mb_bestBid :: "matching_book \<Rightarrow> int option" where
  "mb_bestBid b = (case mb_bids b of [] \<Rightarrow> None | (p, l) # m \<Rightarrow> Some p)"

definition mb_bestAsk :: "matching_book \<Rightarrow> int option" where
  "mb_bestAsk b = (case mb_asks b of [] \<Rightarrow> None | (p, l) # m \<Rightarrow> Some p)"

definition mb_within :: "matching_book \<Rightarrow> side \<Rightarrow> int \<Rightarrow> bool \<Rightarrow> resting_order list" where
  "mb_within b takerSide limit isMarket =
     (case takerSide of
        BUY \<Rightarrow> concat (map snd (takeWhile (\<lambda>(px, l). \<not> (\<not> isMarket \<and> limit < px)) (mb_asks b)))
      | SELL \<Rightarrow> concat (map snd (takeWhile (\<lambda>(px, l). \<not> (\<not> isMarket \<and> px < limit)) (mb_bids b))))"

definition mb_ops :: "matching_book book_ops" where
  "mb_ops = \<lparr>bk_contains = mb_contains, bk_full = mb_full, bk_addResting = mb_addResting,
     bk_canRest = mb_canRest, bk_find = mb_find, bk_reduceTotal = mb_reduceTotal,
     bk_consumeById = mb_consumeById, bk_cancel = mb_cancel, bk_forEachOrder = mb_forEachOrder,
     bk_bestLevel = mb_bestLevel, bk_peekBest = mb_peekBest, bk_fillBest = mb_fillBest,
     bk_bestBid = mb_bestBid, bk_bestAsk = mb_bestAsk, bk_within = mb_within\<rparr>"

subsection \<open>Level lists\<close>

definition flat :: "levels \<Rightarrow> resting_order list" where "flat m = concat (map snd m)"

definition lm_sorted :: "side \<Rightarrow> levels \<Rightarrow> bool" where
  "lm_sorted s m \<longleftrightarrow> sorted_wrt (\<lambda>a b. before s (fst a) (fst b)) m
     \<and> (\<forall>(p, l) \<in> set m. \<forall>r \<in> set l. ro_price r = p)"

definition lm_ok :: "side \<Rightarrow> levels \<Rightarrow> bool" where
  "lm_ok s m \<longleftrightarrow> lm_sorted s m \<and> (\<forall>(p, l) \<in> set m. l \<noteq> [])
     \<and> (\<forall>r \<in> set (flat m). wf_order r \<and> ro_side r = s)"

lemma flat_simps [simp]: "flat [] = []" "flat ((p, l) # m) = l @ flat m"
  by (simp_all add: flat_def)

lemma lm_sorted_Cons:
  "lm_sorted s ((p, l) # m) \<longleftrightarrow> lm_sorted s m \<and> (\<forall>r \<in> set l. ro_price r = p)
     \<and> (\<forall>(q, k) \<in> set m. before s p q)"
  by (auto simp: lm_sorted_def)

lemma lm_sorted_Nil [simp]: "lm_sorted s []"
  by (simp add: lm_sorted_def)

lemma lm_sorted_tail_price:
  "lm_sorted s ((p, l) # m) \<Longrightarrow> r \<in> set (flat m) \<Longrightarrow> before s p (ro_price r)"
  by (fastforce simp: lm_sorted_def flat_def)

lemma lm_sorted_head_only:
  "lm_sorted s ((p, l) # m) \<Longrightarrow> r \<in> set (flat m) \<Longrightarrow> ro_price r \<noteq> p"
  using lm_sorted_tail_price [of s p l m r] by auto

lemma spec_insert_append:
  "(\<And>x. x \<in> set l \<Longrightarrow> \<not> before s (ro_price r) (ro_price x)) \<Longrightarrow>
   spec_insert s r (l @ k) = l @ spec_insert s r k"
  by (induction l) auto

lemma spec_insert_front:
  "(\<And>x. x \<in> set k \<Longrightarrow> before s (ro_price r) (ro_price x)) \<Longrightarrow> spec_insert s r k = r # k"
  by (cases k) auto

lemma flat_push:
  "lm_sorted s m \<Longrightarrow> ro_price r = p \<Longrightarrow> flat (lm_upd s p (\<lambda>l. l @ [r]) m) = spec_insert s r (flat m)"
proof (induction m)
  case (Cons a m)
  obtain q l where a: "a = (q, l)" by (cases a)
  have tail: "x \<in> set (flat m) \<Longrightarrow> before s q (ro_price x)" for x
    using Cons.prems a by (auto dest: lm_sorted_tail_price)
  have l: "x \<in> set l \<Longrightarrow> ro_price x = q" for x using Cons.prems a by (auto simp: lm_sorted_Cons)
  consider "q = p" | "q \<noteq> p" "before s p q" | "q \<noteq> p" "before s q p"
    using before_linear [of p q s] by blast
  then show ?case
  proof cases
    case 1
    then show ?thesis using a Cons.prems tail l
      by (simp add: spec_insert_append spec_insert_front)
  next
    case 2
    then have "x \<in> set (l @ flat m) \<Longrightarrow> before s (ro_price r) (ro_price x)" for x
      using Cons.prems tail l by (auto intro: before_trans)
    then show ?thesis using 2 a spec_insert_front [of "l @ flat m" s r] by simp
  next
    case 3
    then have "\<not> before s p q" by (simp add: before_asym)
    with 3 a Cons l show ?thesis by (simp add: spec_insert_append lm_sorted_Cons)
  qed
qed simp

lemma flat_pointwise:
  assumes "lm_sorted s m"
    and "\<And>l k. f (l @ k) = f l @ f k" and "f [] = []"
    and "\<And>l. (\<And>r. r \<in> set l \<Longrightarrow> ro_price r \<noteq> p) \<Longrightarrow> f l = l"
  shows "flat (lm_upd s p f m) = f (flat m)"
  using assms(1)
proof (induction m)
  case (Cons a m)
  obtain q l where a: "a = (q, l)" by (cases a)
  have tail: "x \<in> set (flat m) \<Longrightarrow> ro_price x \<noteq> q" for x
    using Cons.prems a by (auto dest: lm_sorted_head_only)
  show ?case
  proof (cases "q = p")
    case True
    then have "f (flat m) = flat m" using tail assms(4) by blast
    with True a show ?thesis by (simp add: assms(2))
  next
    case False
    then have l: "f l = l" using Cons.prems a assms(4) [of l] by (auto simp: lm_sorted_Cons)
    have "before s p q \<Longrightarrow> f (flat m) = flat m"
      using Cons.prems a assms(4) [of "flat m"] before_trans lm_sorted_tail_price by (metis before_irrefl)
    with False l a Cons show ?thesis by (auto simp: assms(2,3) lm_sorted_Cons)
  qed
qed (simp add: assms(3))

lemma flat_prune [simp]: "flat (lm_prune p m) = flat m"
  by (induction m) (auto simp: lm_prune_def)

lemma lm_upd_compose: "lm_upd s p g (lm_upd s p f m) = lm_upd s p (\<lambda>l. g (f l)) m"
  by (induction m) auto

lemma lm_upd_cong:
  "lm_sorted s m \<Longrightarrow> f [] = g [] \<Longrightarrow> (\<And>l. (\<And>r. r \<in> set l \<Longrightarrow> ro_price r = p) \<Longrightarrow> f l = g l) \<Longrightarrow>
   lm_upd s p f m = lm_upd s p g m"
  by (induction m) (auto simp: lm_sorted_Cons)

lemma flat_replace:
  assumes "lm_sorted s m" "\<And>r. r \<in> set (flat m) \<Longrightarrow> ro_id r = i \<Longrightarrow> ro_price r = p"
  shows "flat (lm_upd s p (map (\<lambda>r. if ro_id r = i then f r else r)) m) = spec_replace i f (flat m)"
proof -
  have "lm_upd s p (map (\<lambda>r. if ro_id r = i then f r else r)) m
      = lm_upd s p (map (\<lambda>r. if ro_price r = p \<and> ro_id r = i then f r else r)) m"
    using assms(1) by (rule lm_upd_cong) simp_all
  also have "flat \<dots> = spec_replace i f (flat m)"
    using assms by (subst flat_pointwise) (auto simp: spec_replace_def intro!: map_idI)
  finally show ?thesis .
qed

lemma flat_remove:
  assumes "lm_sorted s m" "\<And>r. r \<in> set (flat m) \<Longrightarrow> ro_id r = i \<Longrightarrow> ro_price r = p"
  shows "flat (lm_upd s p (filter (\<lambda>r. ro_id r \<noteq> i)) m) = spec_remove i (flat m)"
proof -
  have "lm_upd s p (filter (\<lambda>r. ro_id r \<noteq> i)) m
      = lm_upd s p (filter (\<lambda>r. \<not> (ro_price r = p \<and> ro_id r = i))) m"
    using assms(1) by (rule lm_upd_cong) (auto intro!: filter_cong)
  also have "flat \<dots> = spec_remove i (flat m)"
    using assms by (subst flat_pointwise) (auto simp: spec_remove_def filter_id_conv intro!: filter_cong)
  finally show ?thesis .
qed

lemma lm_at_flat: "lm_sorted s m \<Longrightarrow> lm_at p m = filter (\<lambda>r. ro_price r = p) (flat m)"
proof (induction m)
  case (Cons a m)
  obtain q l where a: "a = (q, l)" by (cases a)
  have "q = p \<Longrightarrow> filter (\<lambda>r. ro_price r = p) (flat m) = []"
    using Cons.prems a by (auto dest: lm_sorted_head_only simp: filter_empty_conv)
  moreover have "filter (\<lambda>r. ro_price r = p) l = (if q = p then l else [])"
    using Cons.prems a by (auto simp: lm_sorted_Cons filter_id_conv filter_empty_conv)
  ultimately show ?case using Cons a by (auto simp: lm_at_def lm_sorted_Cons)
qed (simp add: lm_at_def)

lemma keys_upd: "fst ` set (lm_upd s p f m) = insert p (fst ` set m)"
  by (induction s p f m rule: lm_upd.induct) (simp_all add: insert_commute)

lemma lm_sorted_upd:
  assumes "lm_sorted s m"
    and f: "\<And>l. \<forall>x \<in> set l. ro_price x = p \<Longrightarrow> \<forall>x \<in> set (f l). ro_price x = p"
  shows "lm_sorted s (lm_upd s p f m)"
  using assms(1)
proof (induction m)
  case Nil
  then show ?case using f [of "[]"] by (simp add: lm_sorted_Cons)
next
  case (Cons a m)
  obtain q l where a: "a = (q, l)" by (cases a)
  have m: "lm_sorted s m" "\<forall>r \<in> set l. ro_price r = q" "\<forall>x \<in> fst ` set m. before s q x"
    using Cons.prems a by (auto simp: lm_sorted_Cons)
  consider "q = p" | "q \<noteq> p" "before s p q" | "q \<noteq> p" "\<not> before s p q" "before s q p"
    using before_linear [of q p s] by blast
  then show ?case
  proof cases
    case 1
    then show ?thesis using a m f [of l] by (simp add: lm_sorted_Cons split_beta)
  next
    case 2
    then have "\<forall>x \<in> fst ` set m. before s p x" using m(3) before_trans by blast
    with 2 show ?thesis using a m f [of "[]"] by (simp add: lm_sorted_Cons split_beta)
  next
    case 3
    then have "\<forall>x \<in> fst ` set (lm_upd s p f m). before s q x" using m(3) by (simp add: keys_upd)
    with 3 show ?thesis using a m Cons.IH by (simp add: lm_sorted_Cons split_beta)
  qed
qed

lemma lm_sorted_prune: "lm_sorted s m \<Longrightarrow> lm_sorted s (lm_prune p m)"
  by (auto simp: lm_sorted_def lm_prune_def intro: sorted_wrt_filter)

lemma lm_ok_side_ok:
  assumes "lm_ok s m" shows "side_ok s (flat m)"
proof -
  have "lm_sorted s m \<Longrightarrow> sorted_wrt (\<lambda>x y. \<not> before s (ro_price y) (ro_price x)) (flat m)"
  proof (induction m)
    case (Cons a m)
    obtain q l where a: "a = (q, l)" by (cases a)
    have "x \<in> set (flat m) \<Longrightarrow> before s q (ro_price x)" for x
      using Cons.prems a by (auto dest: lm_sorted_tail_price)
    moreover have "\<forall>r \<in> set l. ro_price r = q" using Cons.prems a by (simp add: lm_sorted_Cons)
    moreover have "sorted_wrt (\<lambda>x y. \<not> before s (ro_price y) (ro_price x)) l"
      using \<open>\<forall>r \<in> set l. ro_price r = q\<close> by (induction l) auto
    ultimately show ?case
      using Cons a by (auto simp: sorted_wrt_append lm_sorted_Cons dest: before_asym)
  qed simp
  with assms show ?thesis by (simp add: side_ok_def lm_ok_def)
qed

lemma lm_okI: "lm_sorted s m \<Longrightarrow> [] \<notin> snd ` set m \<Longrightarrow> side_ok s (flat m) \<Longrightarrow> lm_ok s m"
  by (force simp: lm_ok_def side_ok_def)

lemma lm_ok_nonempty: "lm_ok s m \<Longrightarrow> [] \<notin> snd ` set m"
  by (force simp: lm_ok_def)

lemma nonempty_upd:
  "[] \<notin> snd ` set m \<Longrightarrow> (\<And>l. l \<noteq> [] \<Longrightarrow> f l \<noteq> []) \<Longrightarrow> f [] \<noteq> [] \<or> p \<in> fst ` set m \<Longrightarrow>
   lm_sorted s m \<Longrightarrow> [] \<notin> snd ` set (lm_upd s p f m)"
proof (induction s p f m rule: lm_upd.induct)
  case (2 s p f q l m)
  have "q \<noteq> p \<Longrightarrow> before s p q \<Longrightarrow> p \<notin> fst ` set m"
    using 2(5) by (fastforce simp: lm_sorted_Cons dest: before_asym)
  with 2 show ?case by (auto simp: lm_sorted_Cons) metis+
qed auto

lemma nonempty_prune:
  "[] \<notin> snd ` set m \<Longrightarrow> [] \<notin> snd ` set (lm_prune p (lm_upd s p f m))"
  by (induction s p f m rule: lm_upd.induct) (auto simp: lm_prune_def)

lemma key_of_order: "lm_sorted s m \<Longrightarrow> r \<in> set (flat m) \<Longrightarrow> ro_price r \<in> fst ` set m"
  by (force simp: lm_sorted_def flat_def)

subsection \<open>The invariant\<close>

definition mb_orders :: "matching_book \<Rightarrow> side \<Rightarrow> resting_order list" where
  "mb_orders b s = flat (mb_side b s)"

definition index_ok :: "(nat \<rightharpoonup> side \<times> int) \<Rightarrow> resting_order set \<Rightarrow> bool" where
  "index_ok ix R \<longleftrightarrow>
     (\<forall>i t p. ix i = Some (t, p) \<longleftrightarrow> (\<exists>r \<in> R. ro_id r = i \<and> ro_side r = t \<and> ro_price r = p))"

definition mb_inv :: "matching_book \<Rightarrow> bool" where
  "mb_inv b \<longleftrightarrow> lm_ok BUY (mb_bids b) \<and> lm_ok SELL (mb_asks b)
     \<and> distinct (map ro_id (mb_orders b BUY @ mb_orders b SELL))
     \<and> index_ok (mb_index b) (set (mb_orders b BUY) \<union> set (mb_orders b SELL))"

lemma mb_side_set [simp]:
  "mb_side (mb_set_side s m b) s = m"
  "mb_side (mb_set_side s m b) (opposite s) = mb_side b (opposite s)"
  "mb_index (mb_set_side s m b) = mb_index b"
  "mb_side (b\<lparr>mb_index := ix\<rparr>) t = mb_side b t"
  by (cases s; cases t; simp add: mb_side_def mb_set_side_def)+

lemma mb_set_side_index [simp]:
  "(mb_set_side s m b)\<lparr>mb_index := mb_index b\<rparr> = mb_set_side s m b"
  "mb_set_side s m (b\<lparr>mb_index := ix\<rparr>) = (mb_set_side s m b)\<lparr>mb_index := ix\<rparr>"
  by (cases s; simp add: mb_set_side_def)+

lemma mb_inv_lm: "mb_inv b \<Longrightarrow> lm_ok s (mb_side b s)"
  by (cases s) (auto simp: mb_inv_def mb_side_def)

lemma mb_inv_sorted: "mb_inv b \<Longrightarrow> lm_sorted s (mb_side b s)"
  using mb_inv_lm by (simp add: lm_ok_def)

lemma mb_inv_book_ok: "mb_inv b \<Longrightarrow> book_ok (mb_orders b)"
  using lm_ok_side_ok by (auto simp: book_ok_def mb_inv_def mb_orders_def mb_side_def)

lemma mb_inv_side_ok: "mb_inv b \<Longrightarrow> side_ok s (mb_orders b s)"
  by (simp add: mb_inv_book_ok book_ok_side)

lemma sides_both: "f s \<union> f (opposite s) = f BUY \<union> f SELL"
  by (cases s) auto

lemma mb_index_Some:
  "mb_inv b \<Longrightarrow> mb_index b i = Some (s, p) \<longleftrightarrow> (\<exists>r \<in> set (mb_orders b s). ro_id r = i \<and> ro_price r = p)"
proof -
  assume b: "mb_inv b"
  have "\<forall>r \<in> set (mb_orders b t). ro_side r = t" for t using mb_inv_side_ok [OF b] by (simp add: side_ok_def)
  with b show ?thesis by (cases s) (auto simp: mb_inv_def index_ok_def)
qed

lemma mb_index_None:
  "mb_inv b \<Longrightarrow> mb_index b i = None \<longleftrightarrow> i \<notin> ro_id ` (set (mb_orders b BUY) \<union> set (mb_orders b SELL))"
proof -
  assume b: "mb_inv b"
  have "mb_index b i = None \<longleftrightarrow> (\<forall>s p. mb_index b i \<noteq> Some (s, p))" by (cases "mb_index b i") auto
  also have "\<dots> \<longleftrightarrow> (\<forall>s. i \<notin> ro_id ` set (mb_orders b s))"
    by (fastforce simp: mb_index_Some [OF b])
  also have "\<dots> \<longleftrightarrow> i \<notin> ro_id ` (set (mb_orders b BUY) \<union> set (mb_orders b SELL))"
    by (metis (full_types) Un_iff image_Un side.exhaust)
  finally show ?thesis .
qed

lemma mb_one_price:
  assumes "mb_inv b" "mb_index b i = Some (s, p)" "r \<in> set (mb_orders b s)" "ro_id r = i"
  shows "ro_price r = p"
proof -
  obtain r' where "r' \<in> set (mb_orders b s)" "ro_id r' = i" "ro_price r' = p"
    using assms by (auto simp: mb_index_Some)
  moreover have "distinct (map ro_id (mb_orders b s))" by (simp add: assms(1) mb_inv_book_ok book_ok_distinct)
  ultimately show ?thesis using assms(3,4) by (metis spec_find_Some option.inject)
qed

lemma mb_step:
  assumes b: "mb_inv b" and m: "lm_sorted s m" "[] \<notin> snd ` set m" "side_ok s (flat m)"
    and d: "distinct (map ro_id (flat m))"
    and dis: "ro_id ` set (flat m) \<inter> ro_id ` set (mb_orders b (opposite s)) = {}"
    and ix: "index_ok ix (set (flat m) \<union> set (mb_orders b (opposite s)))"
    and b': "b' = (mb_set_side s m b)\<lparr>mb_index := ix\<rparr>"
  shows "mb_inv b' \<and> mb_orders b' s = flat m \<and> mb_orders b' (opposite s) = mb_orders b (opposite s)"
proof -
  have o: "mb_orders b' s = flat m" "mb_orders b' (opposite s) = mb_orders b (opposite s)"
    by (simp_all add: b' mb_orders_def)
  have "lm_ok s (mb_side b' s)" "lm_ok (opposite s) (mb_side b' (opposite s))"
    using m mb_inv_lm [OF b, of "opposite s"] by (simp_all add: b' lm_okI)
  moreover have "distinct (map ro_id (mb_orders b (opposite s)))" by (simp add: b mb_inv_book_ok book_ok_distinct)
  ultimately have "mb_inv b'"
    using o d dis ix by (cases s) (auto simp: mb_inv_def mb_side_def b' Un_commute)
  with o show ?thesis by simp
qed

lemma mb_inv_empty: "mb_inv mb_empty_book"
  by (simp add: mb_inv_def mb_empty_book_def mb_orders_def mb_side_def lm_ok_def index_ok_def)

subsection \<open>Every member against the list specification\<close>

lemma mb_find_spec:
  assumes b: "mb_inv b" shows "mb_find b i = spec_find i (mb_orders b BUY @ mb_orders b SELL)"
proof (cases "mb_index b i")
  case None
  then have "i \<notin> ro_id ` set (mb_orders b BUY @ mb_orders b SELL)" using b by (simp add: mb_index_None image_Un)
  then have "spec_find i (mb_orders b BUY @ mb_orders b SELL) = None" by (simp only: spec_find_None) simp
  with None show ?thesis by (simp add: mb_find_def)
next
  case (Some sp)
  obtain s p where sp: "sp = (s, p)" by (cases sp)
  obtain r where r: "r \<in> set (mb_orders b s)" "ro_id r = i" "ro_price r = p"
    using b Some sp by (auto simp: mb_index_Some)
  have d: "distinct (map ro_id (mb_orders b BUY @ mb_orders b SELL))" using b by (simp add: mb_inv_def)
  have dl: "distinct (map ro_id (lm_at p (mb_side b s)))"
    using book_ok_distinct [OF mb_inv_book_ok [OF b], of s]
    by (simp add: lm_at_flat [OF mb_inv_sorted [OF b]] mb_orders_def distinct_map_filter)
  have "r \<in> set (lm_at p (mb_side b s))" using r lm_at_flat [OF mb_inv_sorted [OF b]] by (simp add: mb_orders_def)
  then have "spec_find i (lm_at p (mb_side b s)) = Some r" using r dl by (simp add: spec_find_Some)
  moreover have "spec_find i (mb_orders b BUY @ mb_orders b SELL) = Some r"
    using r by (subst spec_find_Some [OF d]) (cases s; simp)
  ultimately show ?thesis using Some sp by (simp add: mb_find_def spec_find_def)
qed

lemma mb_add_spec:
  assumes b: "mb_inv b" and r: "wf_order r" "ro_side r = s" and new: "\<not> mb_contains b (ro_id r)"
  shows "mb_inv (snd (mb_addResting b s r))
    \<and> mb_orders (snd (mb_addResting b s r)) s = spec_insert s r (mb_orders b s)
    \<and> mb_orders (snd (mb_addResting b s r)) (opposite s) = mb_orders b (opposite s)"
proof -
  let ?m = "lm_upd s (ro_price r) (\<lambda>l. l @ [r]) (mb_side b s)"
  have "r\<lparr>ro_side := s\<rparr> = r" using r by simp
  have srt: "lm_sorted s (mb_side b s)" using b by (rule mb_inv_sorted)
  have fl: "flat ?m = spec_insert s r (mb_orders b s)" using srt by (simp add: flat_push mb_orders_def)
  have fresh: "ro_id r \<notin> ro_id ` set (mb_orders b t)" for t
    using new b by (cases t) (auto simp: mb_contains_def mb_index_None)
  have ix: "index_ok ((mb_index b)(ro_id r \<mapsto> (s, ro_price r))) (set (flat ?m) \<union> set (mb_orders b (opposite s)))"
    using b r fresh [of BUY] fresh [of SELL] unfolding fl mb_inv_def index_ok_def
    by (cases s) (auto simp: image_iff)
  have eq: "snd (mb_addResting b s r) = (mb_set_side s ?m b)\<lparr>mb_index := (mb_index b)(ro_id r \<mapsto> (s, ro_price r))\<rparr>"
    using \<open>r\<lparr>ro_side := s\<rparr> = r\<close> by (simp add: mb_addResting_def Let_def)
  have "mb_inv (snd (mb_addResting b s r)) \<and> mb_orders (snd (mb_addResting b s r)) s = flat ?m
      \<and> mb_orders (snd (mb_addResting b s r)) (opposite s) = mb_orders b (opposite s)"
  proof (rule mb_step [OF b _ _ _ _ _ ix eq])
    show "lm_sorted s ?m" using srt by (rule lm_sorted_upd) auto
    show "[] \<notin> snd ` set ?m" using srt lm_ok_nonempty [OF mb_inv_lm [OF b]] by (intro nonempty_upd) auto
    show "side_ok s (flat ?m)" using r mb_inv_side_ok [OF b] by (simp add: fl side_ok_insert)
    show "distinct (map ro_id (flat ?m))"
      using fresh book_ok_distinct [OF mb_inv_book_ok [OF b]] by (simp add: fl distinct_spec_insert)
    show "ro_id ` set (flat ?m) \<inter> ro_id ` set (mb_orders b (opposite s)) = {}"
      using fresh book_ok_disjoint [OF mb_inv_book_ok [OF b], of s] by (auto simp: fl)
  qed
  then show ?thesis by (simp add: fl)
qed

lemma index_ok_image:
  "index_ok ix R \<longleftrightarrow>
     (\<forall>i t p. ix i = Some (t, p) \<longleftrightarrow> (i, t, p) \<in> (\<lambda>r. (ro_id r, ro_side r, ro_price r)) ` R)"
proof -
  have "(\<exists>r \<in> R. ro_id r = i \<and> ro_side r = t \<and> ro_price r = p)
      \<longleftrightarrow> (i, t, p) \<in> (\<lambda>r. (ro_id r, ro_side r, ro_price r)) ` R" for i t p by auto
  then show ?thesis by (simp only: index_ok_def)
qed

lemma index_ok_cong:
  "(\<lambda>r. (ro_id r, ro_side r, ro_price r)) ` R = (\<lambda>r. (ro_id r, ro_side r, ro_price r)) ` R' \<Longrightarrow>
   index_ok ix R = index_ok ix R'"
  by (simp add: index_ok_image)

lemma index_ok_remove: "index_ok ix R \<Longrightarrow> index_ok (ix(i := None)) {r \<in> R. ro_id r \<noteq> i}"
  by (auto simp: index_ok_def)

lemma mb_index_ok:
  "mb_inv b \<Longrightarrow> index_ok (mb_index b) (set (mb_orders b s) \<union> set (mb_orders b (opposite s)))"
  using sides_both [of "\<lambda>s. set (mb_orders b s)" s] by (simp add: mb_inv_def)

lemma not_other_side:
  "mb_inv b \<Longrightarrow> r \<in> set (mb_orders b s) \<Longrightarrow> ro_id r \<notin> ro_id ` set (mb_orders b (opposite s))"
  using book_ok_disjoint [OF mb_inv_book_ok, of b s] by blast

lemma mb_index_removed:
  assumes "mb_inv b" "r \<in> set (mb_orders b s)"
  shows "index_ok ((mb_index b)(ro_id r := None))
    (set (spec_remove (ro_id r) (mb_orders b s)) \<union> set (mb_orders b (opposite s)))"
proof -
  have "set (spec_remove (ro_id r) (mb_orders b s)) \<union> set (mb_orders b (opposite s))
      = {x \<in> set (mb_orders b s) \<union> set (mb_orders b (opposite s)). ro_id x \<noteq> ro_id r}"
    using not_other_side [OF assms] by (force simp: image_iff)
  then show ?thesis using index_ok_remove [OF mb_index_ok [OF assms(1), of s], of "ro_id r"] by (simp only:)
qed

lemma tuples_replace:
  "(\<And>r. ro_id (f r) = ro_id r \<and> ro_side (f r) = ro_side r \<and> ro_price (f r) = ro_price r) \<Longrightarrow>
   (\<lambda>r. (ro_id r, ro_side r, ro_price r)) ` set (spec_replace i f rs)
     = (\<lambda>r. (ro_id r, ro_side r, ro_price r)) ` set rs"
  unfolding spec_replace_def set_map image_image by (rule image_cong) auto

lemma tuples_requeue:
  "r \<in> set rs \<Longrightarrow> distinct (map ro_id rs) \<Longrightarrow>
   ro_id r' = ro_id r \<Longrightarrow> ro_side r' = ro_side r \<Longrightarrow> ro_price r' = ro_price r \<Longrightarrow>
   (\<lambda>r. (ro_id r, ro_side r, ro_price r)) ` set (spec_insert s r' (spec_remove (ro_id r) rs))
     = (\<lambda>r. (ro_id r, ro_side r, ro_price r)) ` set rs"
  by (auto simp: image_iff distinct_map inj_on_def)

lemma mb_consume_step:
  assumes b: "mb_inv b" and r: "r \<in> set (mb_orders b s)" and q: "0 < q" "q \<le> ro_leaves r"
    and m: "lm_sorted s m" "[] \<notin> snd ` set m" "flat m = spec_consume s (ro_id r) q (mb_orders b s)"
    and ix: "ix = (if q = ro_leaves r \<and> ro_hidden r = 0 then (mb_index b)(ro_id r := None) else mb_index b)"
    and b': "b' = (mb_set_side s m b)\<lparr>mb_index := ix\<rparr>"
  shows "mb_inv b' \<and> mb_orders b' s = spec_consume s (ro_id r) q (mb_orders b s)
    \<and> mb_orders b' (opposite s) = mb_orders b (opposite s)"
proof -
  have ok: "side_ok s (mb_orders b s)" "distinct (map ro_id (mb_orders b s))"
    by (simp_all add: b mb_inv_side_ok mb_inv_book_ok book_ok_distinct)
  note c = side_ok_consume [OF ok r refl q]
  have "index_ok ix (set (spec_consume s (ro_id r) q (mb_orders b s)) \<union> set (mb_orders b (opposite s)))"
    using ok r refl q
  proof (cases rule: spec_consume_cases)
    case partial
    then show ?thesis using mb_index_ok [OF b, of s] ix
      by (subst index_ok_cong [where R' = "set (mb_orders b s) \<union> set (mb_orders b (opposite s))"])
        (auto simp: image_Un tuples_replace)
  next
    case next_peak
    then show ?thesis using mb_index_ok [OF b, of s] ix r ok(2)
      by (subst index_ok_cong [where R' = "set (mb_orders b s) \<union> set (mb_orders b (opposite s))"])
        (simp_all only: image_Un tuples_requeue hit_sel refill_sel, auto)
  next
    case gone
    then show ?thesis using mb_index_removed [OF b r] ix by simp
  qed
  moreover have "ro_id ` set (spec_consume s (ro_id r) q (mb_orders b s)) \<inter> ro_id ` set (mb_orders b (opposite s)) = {}"
    using c book_ok_disjoint [OF mb_inv_book_ok [OF b], of s] by blast
  ultimately have "mb_inv b' \<and> mb_orders b' s = flat m \<and> mb_orders b' (opposite s) = mb_orders b (opposite s)"
    using c m by (intro mb_step [OF b m(1,2) _ _ _ _ b']) simp_all
  then show ?thesis by (simp add: m)
qed

lemma mb_fillBest_spec:
  assumes b: "mb_inv b" and o: "mb_orders b s = r # rs" and q: "0 < q" "q \<le> ro_leaves r"
  shows "mb_inv (mb_fillBest b s q)
    \<and> mb_orders (mb_fillBest b s q) s = spec_consume s (ro_id r) q (mb_orders b s)
    \<and> mb_orders (mb_fillBest b s q) (opposite s) = mb_orders b (opposite s)"
proof -
  have ok: "lm_ok s (mb_side b s)" using b by (rule mb_inv_lm)
  obtain p l m where pl: "mb_side b s = (p, l) # m"
    using o by (cases "mb_side b s") (auto simp: mb_orders_def)
  then obtain l' where "l = r # l'" using o lm_ok_nonempty [OF ok] by (cases l) (auto simp: mb_orders_def)
  then have ms: "mb_side b s = (p, r # l') # m" and rs: "rs = l' @ flat m" using o pl by (auto simp: mb_orders_def)
  have srt: "lm_sorted s ((p, r # l') # m)" using ok ms by (simp add: lm_ok_def)
  have ne: "[] \<notin> snd ` set m" using lm_ok_nonempty [OF ok] ms by auto
  have r: "r \<in> set (mb_orders b s)" by (simp add: o)
  have wf: "wf_order r" using mb_inv_side_ok [OF b, of s] r by (simp add: side_ok_def)
  have d: "distinct (map ro_id (r # rs))" using book_ok_distinct [OF mb_inv_book_ok [OF b], of s] o by simp
  have l: "ro_leaves (hit q r) = ro_leaves r - q" using wf q by (simp add: hit_leaves)
  have price: "\<forall>x \<in> set (r # l'). ro_price x = p" using srt by (simp add: lm_sorted_Cons)
  have tail: "x \<in> set (flat m) \<Longrightarrow> before s p (ro_price x)" for x
    using srt lm_sorted_tail_price by blast
  let ?m = "if q < ro_leaves r then (p, hit q r # l') # m
    else if ro_hidden r \<noteq> 0 then (p, l' @ [refill (hit q r)]) # m
    else if l' = [] then m else (p, l') # m"
  have eq: "mb_fillBest b s q = (mb_set_side s ?m b)\<lparr>mb_index :=
      (if q = ro_leaves r \<and> ro_hidden r = 0 then (mb_index b)(ro_id r := None) else mb_index b)\<rparr>"
    using q l by (auto simp: mb_fillBest_def ms Let_def hit_def refill_def)
  have fl: "flat ?m = spec_consume s (ro_id r) q (mb_orders b s)"
    unfolding o spec_consume_head [OF d] using l q price tail
    by (auto simp: rs spec_insert_append spec_insert_front)
  show ?thesis
    by (rule mb_consume_step [OF b r q _ _ fl refl eq]) (use srt ne price in \<open>auto simp: lm_sorted_Cons\<close>)
qed

lemma lm_at_upd: "lm_sorted s m \<Longrightarrow> lm_at p (lm_upd s p f m) = f (lm_at p m)"
proof (induction m)
  case (Cons a m)
  obtain q l where a: "a = (q, l)" by (cases a)
  have "q \<noteq> p \<Longrightarrow> before s p q \<Longrightarrow> p \<notin> fst ` set m"
    using Cons.prems a by (fastforce simp: lm_sorted_Cons dest: before_asym)
  then have "q \<noteq> p \<Longrightarrow> before s p q \<Longrightarrow> map_of m p = None" by (simp add: map_of_eq_None_iff)
  with Cons a show ?case by (auto simp: lm_at_def lm_sorted_Cons)
qed (simp add: lm_at_def)

lemma filter_replace_same: "filter (\<lambda>x. ro_id x \<noteq> i) (map (\<lambda>r. if ro_id r = i then f r else r) l)
    = filter (\<lambda>x. ro_id x \<noteq> i) l" if "\<And>r. ro_id (f r) = ro_id r"
  using that by (induction l) auto

lemma find_after_replace:
  assumes "lm_sorted s m" "distinct (map ro_id (flat m))" "r \<in> set (flat m)" "\<And>x. ro_id (f x) = ro_id x"
  shows "find (\<lambda>x. ro_id x = ro_id r)
      (lm_at (ro_price r) (lm_upd s (ro_price r) (map (\<lambda>x. if ro_id x = ro_id r then f x else x)) m)) = Some (f r)"
proof -
  let ?at = "lm_at (ro_price r) m"
  have "distinct (map ro_id (spec_replace (ro_id r) f ?at))"
    using assms by (simp add: ids_replace lm_at_flat distinct_map_filter)
  moreover have "f r \<in> set (spec_replace (ro_id r) f ?at)"
    using assms by (force simp: spec_replace_def lm_at_flat)
  ultimately have "spec_find (ro_id r) (spec_replace (ro_id r) f ?at) = Some (f r)"
    using assms(4) by (simp add: spec_find_Some)
  then show ?thesis using assms(1) by (simp add: lm_at_upd spec_find_def spec_replace_def)
qed

lemma flat_requeue:
  assumes "lm_sorted s m" "\<And>x. x \<in> set (flat m) \<Longrightarrow> ro_id x = i \<Longrightarrow> ro_price x = ro_price r"
  shows "flat (lm_upd s (ro_price r) (\<lambda>l. filter (\<lambda>x. ro_id x \<noteq> i) l @ [r]) m)
      = spec_insert s r (spec_remove i (flat m))"
proof -
  have "lm_sorted s (lm_upd s (ro_price r) (filter (\<lambda>x. ro_id x \<noteq> i)) m)"
    using assms(1) by (rule lm_sorted_upd) auto
  from flat_push [OF this, of r] show ?thesis
    using flat_remove [OF assms] by (simp add: lm_upd_compose)
qed

lemma mb_set_side_twice [simp]: "mb_set_side s y (mb_set_side s x b) = mb_set_side s y b"
  by (cases s) (simp_all add: mb_set_side_def)

lemma hit_eta: "(\<lambda>r. r\<lparr>ro_leaves := dec_sub (ro_leaves r) q, ro_cumQty := dec_add (ro_cumQty r) q\<rparr>) = hit q"
  by (simp add: hit_def fun_eq_iff)

lemma mb_nonempty: "mb_inv b \<Longrightarrow> [] \<notin> snd ` set (mb_side b s)"
  by (rule lm_ok_nonempty [OF mb_inv_lm])

lemma mb_one_price_flat:
  "mb_inv b \<Longrightarrow> r \<in> set (mb_orders b s) \<Longrightarrow> x \<in> set (flat (mb_side b s)) \<Longrightarrow> ro_id x = ro_id r \<Longrightarrow>
   ro_price x = ro_price r"
  by (rule mb_one_price [of b "ro_id r" s]) (auto simp: mb_index_Some mb_orders_def)

text \<open>What \<^verbatim>\<open>consumeById\<close> leaves of the level list, in each of its three outcomes.\<close>

definition consumed_levels :: "side \<Rightarrow> resting_order \<Rightarrow> int \<Rightarrow> levels \<Rightarrow> levels" where
  "consumed_levels s r q m =
     (if q < ro_leaves r
      then lm_upd s (ro_price r) (map (\<lambda>x. if ro_id x = ro_id r then hit q x else x)) m
      else if ro_hidden r \<noteq> 0
      then lm_upd s (ro_price r) (\<lambda>l. filter (\<lambda>x. ro_id x \<noteq> ro_id r) l @ [refill (hit q r)]) m
      else lm_prune (ro_price r) (lm_upd s (ro_price r) (filter (\<lambda>x. ro_id x \<noteq> ro_id r)) m))"

lemma mb_consumeById_levels:
  assumes b: "mb_inv b" and r: "r \<in> set (mb_orders b s)" and q: "0 < q" "q \<le> ro_leaves r"
  shows "mb_consumeById b (ro_id r) q = (mb_set_side s (consumed_levels s r q (mb_side b s)) b)\<lparr>mb_index :=
      (if q = ro_leaves r \<and> ro_hidden r = 0 then (mb_index b)(ro_id r := None) else mb_index b)\<rparr>"
proof -
  let ?i = "ro_id r" and ?p = "ro_price r"
  have "wf_order r" using mb_inv_side_ok [OF b, of s] r by (simp add: side_ok_def)
  then have l: "ro_leaves (hit q r) = ro_leaves r - q" using q by (simp add: hit_leaves)
  have ix: "mb_index b ?i = Some (s, ?p)" using b r by (auto simp: mb_index_Some)
  define m1 where "m1 = lm_upd s ?p (map (\<lambda>x. if ro_id x = ?i then hit q x else x)) (mb_side b s)"
  have b1: "snd (mb_modify b ?i (hit q)) = mb_set_side s m1 b" by (simp add: mb_modify_def ix m1_def)
  have f: "mb_find (mb_set_side s m1 b) ?i = Some (hit q r)"
    using find_after_replace [OF mb_inv_sorted [OF b], of s r "hit q"] r book_ok_distinct [OF mb_inv_book_ok [OF b], of s]
    by (simp add: mb_find_def ix m1_def mb_orders_def)
  have "lm_upd s ?p (\<lambda>l. filter (\<lambda>x. ro_id x \<noteq> ?i) l @ [refill (hit q r)]) m1
      = lm_upd s ?p (\<lambda>l. filter (\<lambda>x. ro_id x \<noteq> ?i) l @ [refill (hit q r)]) (mb_side b s)"
    "lm_upd s ?p (filter (\<lambda>x. ro_id x \<noteq> ?i)) m1 = lm_upd s ?p (filter (\<lambda>x. ro_id x \<noteq> ?i)) (mb_side b s)"
    by (simp_all add: m1_def lm_upd_compose filter_replace_same)
  moreover have "refill r' = r'\<lparr>ro_leaves := (if ro_peak r' < ro_hidden r' then ro_peak r' else ro_hidden r'),
      ro_hidden := dec_sub (ro_hidden r') (if ro_peak r' < ro_hidden r' then ro_peak r' else ro_hidden r')\<rparr>" for r'
    by (simp add: refill_def Let_def)
  ultimately show ?thesis
    using q l by (simp add: mb_consumeById_def ix hit_eta b1 f mb_erase_def Let_def consumed_levels_def
        flip: m1_def)
qed

lemma consumed_levels_spec:
  assumes b: "mb_inv b" and r: "r \<in> set (mb_orders b s)" and q: "0 < q" "q \<le> ro_leaves r"
  shows "lm_sorted s (consumed_levels s r q (mb_side b s))" (is "lm_sorted s ?m")
    and "[] \<notin> snd ` set (consumed_levels s r q (mb_side b s))"
    and "flat (consumed_levels s r q (mb_side b s)) = spec_consume s (ro_id r) q (mb_orders b s)"
proof -
  have srt: "lm_sorted s (mb_side b s)" using b by (rule mb_inv_sorted)
  note one = mb_one_price_flat [OF b r]
  have "wf_order r" using mb_inv_side_ok [OF b, of s] r by (simp add: side_ok_def)
  then have l: "ro_leaves (hit q r) = ro_leaves r - q" using q by (simp add: hit_leaves)
  show "lm_sorted s ?m"
    by (auto simp: consumed_levels_def intro!: lm_sorted_prune lm_sorted_upd [OF srt])
  have "ro_price r \<in> fst ` set (mb_side b s)" using r srt by (auto simp: mb_orders_def intro: key_of_order)
  then show "[] \<notin> snd ` set ?m"
    using nonempty_upd [OF mb_nonempty [OF b] _ _ srt] nonempty_prune [OF mb_nonempty [OF b]]
    by (simp add: consumed_levels_def)
  have "spec_find (ro_id r) (flat (mb_side b s)) = Some r"
    using book_ok_distinct [OF mb_inv_book_ok [OF b], of s] r by (simp add: spec_find_Some mb_orders_def)
  then show "flat ?m = spec_consume s (ro_id r) q (mb_orders b s)"
    using l q flat_replace [OF srt one, of "ro_id r" "hit q"] flat_remove [OF srt one, of "ro_id r"]
      flat_requeue [OF srt, of "ro_id r" "refill (hit q r)"] one
    by (auto simp: consumed_levels_def spec_consume_def mb_orders_def)
qed

lemma mb_consumeById_spec:
  assumes b: "mb_inv b" and r: "r \<in> set (mb_orders b s)" and q: "0 < q" "q \<le> ro_leaves r"
  shows "mb_inv (mb_consumeById b (ro_id r) q)
    \<and> mb_orders (mb_consumeById b (ro_id r) q) s = spec_consume s (ro_id r) q (mb_orders b s)
    \<and> mb_orders (mb_consumeById b (ro_id r) q) (opposite s) = mb_orders b (opposite s)"
  by (rule mb_consume_step [OF b r q consumed_levels_spec [OF b r q] refl mb_consumeById_levels [OF b r q]])

lemma mb_reduceTotal_spec:
  assumes b: "mb_inv b" and r: "r \<in> set (mb_orders b s)" and n: "0 < n" "n \<le> total_qty r"
  shows "mb_inv (snd (mb_reduceTotal b (ro_id r) n))
    \<and> mb_orders (snd (mb_reduceTotal b (ro_id r) n)) s = spec_replace (ro_id r) (trim_total n) (mb_orders b s)
    \<and> mb_orders (snd (mb_reduceTotal b (ro_id r) n)) (opposite s) = mb_orders b (opposite s)"
proof -
  let ?m = "lm_upd s (ro_price r) (map (\<lambda>x. if ro_id x = ro_id r then trim_total n x else x)) (mb_side b s)"
  have srt: "lm_sorted s (mb_side b s)" using b by (rule mb_inv_sorted)
  have ix: "mb_index b (ro_id r) = Some (s, ro_price r)" using b r by (auto simp: mb_index_Some)
  have fl: "flat ?m = spec_replace (ro_id r) (trim_total n) (mb_orders b s)"
    using flat_replace [OF srt mb_one_price_flat [OF b r], of "ro_id r"] by (simp add: mb_orders_def)
  have ok: "side_ok s (mb_orders b s)" "distinct (map ro_id (mb_orders b s))"
    by (simp_all add: b mb_inv_side_ok mb_inv_book_ok book_ok_distinct)
  have only: "x \<in> set (mb_orders b s) \<Longrightarrow> ro_id x = ro_id r \<Longrightarrow> x = r" for x
    using ok(2) r by (metis spec_find_Some option.inject)
  have wf: "wf_order (trim_total n r)" using ok(1) r n by (simp add: side_ok_def wf_trim_total)
  have eta: "(\<lambda>r. if n < ro_leaves r then r\<lparr>ro_leaves := n, ro_hidden := 0\<rparr>
      else r\<lparr>ro_hidden := dec_sub n (ro_leaves r)\<rparr>) = trim_total n" by (simp add: trim_total_def fun_eq_iff)
  have eq: "snd (mb_reduceTotal b (ro_id r) n) = (mb_set_side s ?m b)\<lparr>mb_index := mb_index b\<rparr>"
    by (simp add: mb_reduceTotal_def eta mb_modify_def ix)
  have "mb_inv (snd (mb_reduceTotal b (ro_id r) n)) \<and> mb_orders (snd (mb_reduceTotal b (ro_id r) n)) s = flat ?m
      \<and> mb_orders (snd (mb_reduceTotal b (ro_id r) n)) (opposite s) = mb_orders b (opposite s)"
  proof (rule mb_step [OF b _ _ _ _ _ _ eq])
    show "lm_sorted s ?m" using srt by (rule lm_sorted_upd) auto
    have "ro_price r \<in> fst ` set (mb_side b s)" using r srt by (auto simp: mb_orders_def intro: key_of_order)
    then show "[] \<notin> snd ` set ?m" using nonempty_upd [OF mb_nonempty [OF b] _ _ srt] by simp
    show "side_ok s (flat ?m)" unfolding fl using ok(1) by (rule side_ok_replace) (use only wf in auto)
    show "distinct (map ro_id (flat ?m))" using ok by (simp add: fl ids_replace)
    show "ro_id ` set (flat ?m) \<inter> ro_id ` set (mb_orders b (opposite s)) = {}"
      using book_ok_disjoint [OF mb_inv_book_ok [OF b], of s] ids_replace [of "trim_total n" "ro_id r" "mb_orders b s"]
      by (metis fl set_map trim_total_sel(1))
    show "index_ok (mb_index b) (set (flat ?m) \<union> set (mb_orders b (opposite s)))"
      using mb_index_ok [OF b, of s]
      by (subst index_ok_cong [where R' = "set (mb_orders b s) \<union> set (mb_orders b (opposite s))"])
        (auto simp: fl image_Un tuples_replace)
  qed
  then show ?thesis by (simp add: fl)
qed

lemma mb_erase_spec:
  assumes b: "mb_inv b" and r: "r \<in> set (mb_orders b s)"
  shows "mb_inv (mb_erase b (ro_id r) s (ro_price r))
    \<and> mb_orders (mb_erase b (ro_id r) s (ro_price r)) s = spec_remove (ro_id r) (mb_orders b s)
    \<and> mb_orders (mb_erase b (ro_id r) s (ro_price r)) (opposite s) = mb_orders b (opposite s)"
proof -
  let ?m = "lm_prune (ro_price r) (lm_upd s (ro_price r) (filter (\<lambda>x. ro_id x \<noteq> ro_id r)) (mb_side b s))"
  have srt: "lm_sorted s (mb_side b s)" using b by (rule mb_inv_sorted)
  have fl: "flat ?m = spec_remove (ro_id r) (mb_orders b s)"
    using flat_remove [OF srt mb_one_price_flat [OF b r], of "ro_id r"] by (simp add: mb_orders_def)
  have eq: "mb_erase b (ro_id r) s (ro_price r)
      = (mb_set_side s ?m b)\<lparr>mb_index := (mb_index b)(ro_id r := None)\<rparr>"
    by (simp add: mb_erase_def Let_def)
  have "mb_inv (mb_erase b (ro_id r) s (ro_price r)) \<and> mb_orders (mb_erase b (ro_id r) s (ro_price r)) s = flat ?m
      \<and> mb_orders (mb_erase b (ro_id r) s (ro_price r)) (opposite s) = mb_orders b (opposite s)"
  proof (rule mb_step [OF b _ _ _ _ _ _ eq])
    show "lm_sorted s ?m" by (auto intro!: lm_sorted_prune lm_sorted_upd [OF srt])
    show "[] \<notin> snd ` set ?m" by (rule nonempty_prune [OF mb_nonempty [OF b]])
    show "side_ok s (flat ?m)" unfolding fl by (simp add: b mb_inv_side_ok side_ok_remove)
    show "distinct (map ro_id (flat ?m))" unfolding fl by (simp add: b distinct_spec_remove mb_inv_book_ok book_ok_distinct)
    show "ro_id ` set (flat ?m) \<inter> ro_id ` set (mb_orders b (opposite s)) = {}"
      unfolding fl using book_ok_disjoint [OF mb_inv_book_ok [OF b], of s] by auto
    show "index_ok ((mb_index b)(ro_id r := None)) (set (flat ?m) \<union> set (mb_orders b (opposite s)))"
      unfolding fl using mb_index_removed [OF b r] .
  qed
  then show ?thesis unfolding fl .
qed

lemma mb_cancel_spec:
  assumes b: "mb_inv b"
  shows "mb_inv (snd (mb_cancel b i)) \<and> mb_orders (snd (mb_cancel b i)) s = spec_remove i (mb_orders b s)
    \<and> fst (mb_cancel b i) = spec_find i (mb_orders b BUY @ mb_orders b SELL)"
proof (cases "mb_index b i")
  case None
  then have "i \<notin> ro_id ` set (mb_orders b s)" using b by (cases s) (auto simp: mb_index_None)
  with None b show ?thesis
    using mb_find_spec [OF b, of i] by (simp add: mb_cancel_def mb_find_def spec_remove_absent)
next
  case (Some tp)
  obtain t p where tp: "tp = (t, p)" by (cases tp)
  obtain r where r: "r \<in> set (mb_orders b t)" "ro_id r = i" "ro_price r = p"
    using b Some tp by (auto simp: mb_index_Some)
  note e = mb_erase_spec [OF b r(1)]
  have "spec_remove i (mb_orders b (opposite t)) = mb_orders b (opposite t)"
    using not_other_side [OF b r(1)] r by (simp add: spec_remove_absent)
  moreover have "s = t \<or> s = opposite t" by (cases s; cases t; simp)
  ultimately show ?thesis using e r Some tp mb_find_spec [OF b, of i] by (auto simp: mb_cancel_def)
qed

lemma mb_peekBest_spec:
  "mb_inv b \<Longrightarrow> mb_peekBest b s = (case mb_orders b s of [] \<Rightarrow> None | r # rs \<Rightarrow> Some r)"
  using mb_nonempty [of b s]
  by (cases "mb_side b s") (auto simp: mb_peekBest_def mb_orders_def split: list.splits)

lemma mb_bestLevel_spec:
  assumes b: "mb_inv b"
  shows "mb_bestLevel b s =
    (case mb_orders b s of [] \<Rightarrow> [] | r # rs \<Rightarrow> takeWhile (\<lambda>x. ro_price x = ro_price r) (r # rs))"
proof (cases "mb_side b s")
  case (Cons a m)
  obtain p l where a: "a = (p, l)" by (cases a)
  then obtain r l' where l: "l = r # l'" using mb_nonempty [OF b, of s] Cons by (cases l) auto
  have srt: "lm_sorted s ((p, r # l') # m)" using mb_inv_sorted [OF b, of s] Cons a l by simp
  then have "takeWhile (\<lambda>x. ro_price x = p) (flat m) = []"
    by (cases "flat m") (auto dest: lm_sorted_head_only)
  moreover have "\<forall>x \<in> set (r # l'). ro_price x = p" using srt by (simp add: lm_sorted_Cons)
  ultimately show ?thesis
    using Cons a l by (simp add: mb_bestLevel_def mb_orders_def takeWhile_append2)
qed (simp add: mb_bestLevel_def mb_orders_def)

lemma flat_takeWhile:
  assumes "lm_sorted s m" and "[] \<notin> snd ` set m"
    and "\<And>p q. before s p q \<Longrightarrow> P q \<Longrightarrow> P p"
  shows "concat (map snd (takeWhile (\<lambda>(p, l). P p) m)) = takeWhile (\<lambda>r. P (ro_price r)) (flat m)"
  using assms(1,2)
proof (induction m)
  case (Cons a m)
  obtain p l where a: "a = (p, l)" by (cases a)
  have l: "\<forall>x \<in> set l. ro_price x = p" "l \<noteq> []" using Cons.prems a by (auto simp: lm_sorted_Cons)
  then have "\<not> P p \<Longrightarrow> takeWhile (\<lambda>r. P (ro_price r)) (l @ flat m) = []" by (cases l) auto
  moreover have "P p \<Longrightarrow> takeWhile (\<lambda>r. P (ro_price r)) (l @ flat m) = l @ takeWhile (\<lambda>r. P (ro_price r)) (flat m)"
    using l by (intro takeWhile_append2) auto
  ultimately show ?case using Cons a by (auto simp: lm_sorted_Cons)
qed simp

lemma mb_within_spec:
  assumes b: "mb_inv b"
  shows "mb_within b (opposite s) limit mk
    = takeWhile (\<lambda>x. within_limit (opposite s) limit mk (ro_price x)) (mb_orders b s)"
proof -
  have "within_limit (opposite s) limit mk q \<Longrightarrow> before s p q \<Longrightarrow> within_limit (opposite s) limit mk p" for p q
    by (cases s) (auto simp: within_limit_def before_def)
  with flat_takeWhile [OF mb_inv_sorted [OF b] mb_nonempty [OF b], of s "within_limit (opposite s) limit mk"]
  have "concat (map snd (takeWhile (\<lambda>(p, l). within_limit (opposite s) limit mk p) (mb_side b s)))
    = takeWhile (\<lambda>r. within_limit (opposite s) limit mk (ro_price r)) (mb_orders b s)"
    by (simp add: mb_orders_def)
  then show ?thesis by (cases s) (simp_all add: mb_within_def mb_side_def within_limit_def)
qed

lemma mb_touch_spec:
  assumes b: "mb_inv b"
  shows "(case mb_side b s of [] \<Rightarrow> None | (p, l) # m \<Rightarrow> Some p) = map_option ro_price (mb_peekBest b s)"
  using mb_inv_sorted [OF b, of s] mb_nonempty [OF b, of s]
  by (cases "mb_side b s") (auto simp: mb_peekBest_def lm_sorted_Cons split: list.splits)

lemma mb_forEachOrder_spec: "mb_forEachOrder b = mb_orders b BUY @ mb_orders b SELL"
  by (simp add: mb_forEachOrder_def mb_orders_def mb_side_def flat_def)

lemma fst_mb_addResting: "fst (mb_addResting b s r) = Accepted"
  by (simp add: mb_addResting_def Let_def)

interpretation mbk: resting_book mb_ops mb_inv mb_orders "\<lambda>b s p. True" "\<lambda>p. True"
proof unfold_locales
  fix b s r ans b'
  assume "mb_inv b" "wf_order r" "r = r\<lparr>ro_side := s\<rparr>" "\<not> bk_contains mb_ops b (ro_id r)"
    "bk_addResting mb_ops b s r = (ans, b')"
  moreover from this have "ro_side r = s" by (metis resting_order.select_convs(5) resting_order.surjective
        resting_order.update_convs(5))
  ultimately show "mb_inv b' \<and> mb_orders b' (opposite s) = mb_orders b (opposite s)
      \<and> mb_orders b' s = (if ans = Accepted then spec_insert s r (mb_orders b s) else mb_orders b s)"
    using mb_add_spec [of b r s] fst_mb_addResting [of b s r] by (simp add: mb_ops_def)
next
  fix b assume "mb_inv b"
  then show "bk_bestBid mb_ops b = map_option ro_price (bk_peekBest mb_ops b BUY)
      \<and> bk_bestAsk mb_ops b = map_option ro_price (bk_peekBest mb_ops b SELL)"
    using mb_touch_spec [of b BUY] mb_touch_spec [of b SELL]
    by (simp add: mb_ops_def mb_bestBid_def mb_bestAsk_def mb_side_def)
qed (simp_all add: mb_ops_def mb_inv_book_ok mb_find_spec mb_peekBest_spec mb_bestLevel_spec mb_within_spec
    mb_fillBest_spec mb_consumeById_spec mb_cancel_spec mb_reduceTotal_spec mb_contains_def mb_index_None
    mb_forEachOrder_spec)

subsection \<open>Properties\<close>

text \<open>
  C7. The reference book is its specification: after any sequence of admissible additions,
  best-order fills, fills by identifier, cancels and total reductions from the empty book, the
  two sides, read through the level lists, are exactly the lists the specification prescribes
  (sorted by price, first come first served, refilled icebergs at the tail of their price), the
  index agrees with them, and \<^verbatim>\<open>find\<close> answers from them.
\<close>

theorem matching_book_refines:
  assumes "run_ok (\<lambda>s. []) cs"
  shows "mb_inv (fold (bk_exec mb_ops) cs mb_empty_book)
    \<and> mb_forEachOrder (fold (bk_exec mb_ops) cs mb_empty_book)
        = fold (spec_exec True) cs (\<lambda>s. []) BUY @ fold (spec_exec True) cs (\<lambda>s. []) SELL
    \<and> mb_find (fold (bk_exec mb_ops) cs mb_empty_book) i
        = spec_find i (fold (spec_exec True) cs (\<lambda>s. []) BUY @ fold (spec_exec True) cs (\<lambda>s. []) SELL)"
proof -
  have e: "mb_orders mb_empty_book = (\<lambda>s. [])"
    by (rule ext) (simp add: mb_orders_def mb_side_def mb_empty_book_def split: side.splits)
  have "fst (bk_addResting mb_ops b s r) = Accepted" for b s r by (simp add: mb_ops_def fst_mb_addResting)
  from mbk.run_refines [OF mb_inv_empty, of cs] assms this show ?thesis
    by (simp add: e mb_forEachOrder_spec mb_find_spec)
qed

theorem matching_book_refines_witness:
  "mb_forEachOrder (fold (bk_exec mb_ops)
     [CmdAdd SELL \<lparr>ro_id = 1, ro_accountId = 5, ro_price = 100, ro_leaves = 2, ro_side = SELL, ro_hidden = 3,
        ro_peak = 2, ro_lastLook = False, ro_reduceOnly = False, ro_postOnly = False, ro_clientOrderId = 0,
        ro_cumQty = 0\<rparr>, CmdFill SELL 2, CmdCancel 9] mb_empty_book)
   = [\<lparr>ro_id = 1, ro_accountId = 5, ro_price = 100, ro_leaves = 2, ro_side = SELL, ro_hidden = 1,
        ro_peak = 2, ro_lastLook = False, ro_reduceOnly = False, ro_postOnly = False, ro_clientOrderId = 0,
        ro_cumQty = 2\<rparr>]"
proof -
  let ?r = "\<lparr>ro_id = 1, ro_accountId = 5, ro_price = 100, ro_leaves = 2, ro_side = SELL, ro_hidden = 3,
        ro_peak = 2, ro_lastLook = False, ro_reduceOnly = False, ro_postOnly = False, ro_clientOrderId = 0,
        ro_cumQty = 0\<rparr>"
  have "run_ok (\<lambda>s. []) [CmdAdd SELL ?r, CmdFill SELL 2, CmdCancel 9]" by code_simp
  from matching_book_refines [OF this] show ?thesis
    by (simp add: spec_consume_def spec_find_def hit_def refill_def spec_remove_def dec_sub_def dec_add_def sat64_def
        i64_min_def i64_max_def)
qed

end
