(* ===== verification/Matcher.thy ===== *)
theory Matcher
  imports MatchingBook "HOL-Library.While_Combinator"
begin

section \<open>The matcher\<close>

text \<open>
  Models \<^verbatim>\<open>venue/include/flox-venue/matcher.h\<close>: the class template \<^verbatim>\<open>Matcher<Book>\<close> with its
  price-time sweep, its all-or-none precheck, self-trade prevention and pro-rata allocation.

  \<^item> The template parameter is the argument \<open>B :: 'b book_ops\<close>.
  \<^item> The engine's callbacks (\<^verbatim>\<open>std::function\<close> members, the event sink and the trade-id source)
    are the record \<open>hooks\<close>, functions of an engine state \<open>'e\<close>; an unset
    \<^verbatim>\<open>std::function\<close> is \<open>None\<close>. The resting-hold hook may change the book.
  \<^item> The local variables of \<^verbatim>\<open>cross\<close> and the mutable members are the record \<open>sweep\<close>, which
    also logs the events handed to the sink. \<open>sw_stop\<close> is the \<^verbatim>\<open>break\<close> of the loop.
  \<^item> The \<^verbatim>\<open>while\<close> loops are \<open>while_option\<close>, so not returning is the value \<open>None\<close>.
  \<^item> Sums the source keeps in plain \<^verbatim>\<open>int64_t\<close> (\<^verbatim>\<open>planned\<close>, \<^verbatim>\<open>tot\<close>, \<^verbatim>\<open>assigned\<close>, the position
    deltas) are \<open>int\<close>; quantities combined by \<^verbatim>\<open>Decimal\<close> operators use the saturating
    operations.
\<close>

subsection \<open>Data\<close>

record match_outcome =
  mo_filled :: int
  mo_leaves :: int
  mo_takerComplete :: bool
  mo_reject :: reject_reason
  mo_residualRests :: bool
  mo_residualCanceled :: bool
  mo_residualCancelReason :: cancel_reason

definition empty_outcome :: match_outcome where
  "empty_outcome = \<lparr>mo_filled = 0, mo_leaves = 0, mo_takerComplete = False, mo_reject = RejNone,
     mo_residualRests = False, mo_residualCanceled = False, mo_residualCancelReason = UserRequested\<rparr>"

record fill_limit =
  fl_qty :: int
  fl_makerQty :: int
  fl_takerQty :: int
  fl_makerBlocked :: bool
  fl_takerBlocked :: bool
  fl_reason :: cancel_reason

record planned_bite =
  pb_maker :: nat
  pb_allowedRaw :: int
  pb_blocked :: bool
  pb_reason :: cancel_reason

type_synonym position_deltas = "(nat \<times> int) list"

definition pd_of :: "position_deltas \<Rightarrow> nat \<Rightarrow> int" where
  "pd_of v account = (case map_of v account of None \<Rightarrow> 0 | Some d \<Rightarrow> d)"

fun pd_add :: "position_deltas \<Rightarrow> nat \<Rightarrow> int \<Rightarrow> position_deltas" where
  "pd_add [] account delta = [(account, delta)]"
| "pd_add ((a, d) # v) account delta =
     (if a = account then (a, d + delta) # v else (a, d) # pd_add v account delta)"

record ('b, 'e) hooks =
  hk_lastLook :: "(resting_order \<Rightarrow> int \<Rightarrow> new_order \<Rightarrow> int \<Rightarrow> 'e \<Rightarrow> 'e) option"
  hk_restingHolds :: "(nat \<Rightarrow> 'b \<Rightarrow> 'e \<Rightarrow> bool \<times> 'b \<times> 'e) option"
  hk_restingReduced :: "(nat \<Rightarrow> int \<Rightarrow> int \<Rightarrow> 'e \<Rightarrow> 'e) option"
  hk_fillLimit :: "(resting_order \<Rightarrow> new_order \<Rightarrow> int \<Rightarrow> 'e \<Rightarrow> fill_limit) option"
  hk_fillLimitDry :: "(resting_order \<Rightarrow> new_order \<Rightarrow> int \<Rightarrow> position_deltas \<Rightarrow> 'e \<Rightarrow> fill_limit) option"
  hk_nextTradeId :: "'e \<Rightarrow> nat \<times> 'e"
  hk_sink :: "event \<Rightarrow> 'e \<Rightarrow> 'e"

record matcher =
  mt_policy :: match_policy
  mt_stpGroup :: "(nat \<times> nat) list"
  mt_planActive :: bool
  mt_plan :: "planned_bite list"
  mt_planCursor :: nat
  mt_skippedLastLookProRata :: nat
  mt_skippedRiskProRata :: nat
  mt_fokPrechecks :: nat
  mt_fokRiskConstrained :: nat
  mt_fokRejected :: nat

record ('b, 'e) sweep =
  sw_book :: 'b
  sw_env :: 'e
  sw_mt :: matcher
  sw_events :: "event list"
  sw_leaves :: int
  sw_filled :: int
  sw_stop :: bool
  sw_stp :: bool
  sw_risk :: "cancel_reason option"

datatype stp_outcome = StpNotApplicable | StpRePeek | StpCancelTaker

definition new_matcher :: "match_policy \<Rightarrow> matcher" where
  "new_matcher p = \<lparr>mt_policy = p, mt_stpGroup = [], mt_planActive = False, mt_plan = [],
     mt_planCursor = 0, mt_skippedLastLookProRata = 0, mt_skippedRiskProRata = 0,
     mt_fokPrechecks = 0, mt_fokRiskConstrained = 0, mt_fokRejected = 0\<rparr>"

definition setStpGroup :: "matcher \<Rightarrow> nat \<Rightarrow> nat \<Rightarrow> matcher" where
  "setStpGroup mt account grp =
     (if grp = 0 then mt\<lparr>mt_stpGroup := AList.delete account (mt_stpGroup mt)\<rparr>
      else mt\<lparr>mt_stpGroup := AList.update account grp (mt_stpGroup mt)\<rparr>)"

definition stpScope :: "matcher \<Rightarrow> nat \<Rightarrow> nat" where
  "stpScope mt account =
     (if mt_stpGroup mt = [] then account
      else case map_of (mt_stpGroup mt) account of None \<Rightarrow> account | Some g \<Rightarrow> g)"

definition emit :: "('b, 'e) hooks \<Rightarrow> event \<Rightarrow> ('b, 'e) sweep \<Rightarrow> ('b, 'e) sweep" where
  "emit h ev st = st\<lparr>sw_events := sw_events st @ [ev], sw_env := hk_sink h ev (sw_env st)\<rparr>"

subsection \<open>The all-or-none plan\<close>

record fok_visit =
  fv_deltas :: position_deltas
  fv_plan :: "planned_bite list"
  fv_planned :: int
  fv_riskConstrained :: bool

definition skipStp :: "matcher \<Rightarrow> new_order \<Rightarrow> resting_order \<Rightarrow> bool" where
  "skipStp mt ord m \<longleftrightarrow> no_stp ord \<noteq> StpNone \<and> stpScope mt (ro_accountId m) = stpScope mt (no_accountId ord)"

definition measure_bite ::
  "('b, 'e) hooks \<Rightarrow> matcher \<Rightarrow> new_order \<Rightarrow> 'e \<Rightarrow> resting_order \<Rightarrow> fok_visit \<Rightarrow> bool \<times> fok_visit" where
  "measure_bite h mt ord e m v =
     (if (hk_lastLook h \<noteq> None \<and> ro_lastLook m) \<or> skipStp mt ord m then (True, v)
      else
        (let covered = (fv_planned v \<ge> no_quantity ord);
             tot = total_qty m;
             (bite, constrained) =
               (case hk_fillLimitDry h of
                  None \<Rightarrow> (\<lparr>pb_maker = ro_id m, pb_allowedRaw = tot, pb_blocked = False,
                            pb_reason = ReduceOnlyNotReducing\<rparr>, fv_riskConstrained v)
                | Some dry \<Rightarrow>
                    let lim = dry m ord tot (fv_deltas v) e;
                        a = min (fl_qty lim) tot;
                        a' = (if a < 0 then 0 else a)
                    in (\<lparr>pb_maker = ro_id m, pb_allowedRaw = a', pb_blocked = fl_makerBlocked lim,
                         pb_reason = fl_reason lim\<rparr>, fv_riskConstrained v \<or> a' < tot));
             q = pb_allowedRaw bite;
             deltas =
               (if q > 0 \<and> \<not> covered
                then pd_add (pd_add (fv_deltas v) (ro_accountId m) (if ro_side m = BUY then q else - q))
                       (no_accountId ord) (if no_side ord = BUY then q else - q)
                else fv_deltas v)
         in (False, \<lparr>fv_deltas = deltas, fv_plan = fv_plan v @ [bite],
                     fv_planned = fv_planned v + q, fv_riskConstrained = constrained\<rparr>)))"

definition planFillOrKill ::
  "'b book_ops \<Rightarrow> ('b, 'e) hooks \<Rightarrow> new_order \<Rightarrow> 'b \<Rightarrow> 'e \<Rightarrow> matcher \<Rightarrow> bool \<times> matcher" where
  "planFillOrKill B h ord b e mt =
     (let isMarket = (no_type ord = MARKET);
          (firm, v) = availableWithinExcl B b (no_side ord) (no_price ord) isMarket (measure_bite h mt ord e)
             \<lparr>fv_deltas = [], fv_plan = [], fv_planned = 0, fv_riskConstrained = False\<rparr>;
          mt1 = mt\<lparr>mt_plan := fv_plan v, mt_planCursor := 0, mt_fokPrechecks := Suc (mt_fokPrechecks mt),
                   mt_fokRiskConstrained :=
                     (if fv_riskConstrained v then Suc (mt_fokRiskConstrained mt) else mt_fokRiskConstrained mt)\<rparr>;
          rejected = (False, mt1\<lparr>mt_fokRejected := Suc (mt_fokRejected mt1)\<rparr>)
      in if fv_planned v < no_quantity ord then rejected
         else if hk_lastLook h \<noteq> None \<and>
                 firm < fst (availableWithinExcl B b (no_side ord) (no_price ord) isMarket
                               (\<lambda>m u. (skipStp mt ord m, u)) ())
         then rejected
         else (True, mt1\<lparr>mt_planActive := True\<rparr>))"

definition plannedBite :: "matcher \<Rightarrow> nat \<Rightarrow> planned_bite option \<times> matcher" where
  "plannedBite mt maker =
     (let n = List.length (mt_plan mt)
      in case find (\<lambda>at. pb_maker (mt_plan mt ! at) = maker)
                (map (\<lambda>i. (mt_planCursor mt + i) mod n) [0..<n]) of
           None \<Rightarrow> (None, mt)
         | Some at \<Rightarrow> (Some (mt_plan mt ! at), mt\<lparr>mt_planCursor := at\<rparr>))"

definition plannedFillLimit ::
  "('b, 'e) hooks \<Rightarrow> resting_order \<Rightarrow> new_order \<Rightarrow> int \<Rightarrow> 'e \<Rightarrow> matcher \<Rightarrow> fill_limit \<times> matcher" where
  "plannedFillLimit h m ord want e mt =
     (case plannedBite mt (ro_id m) of
        (None, mt') \<Rightarrow>
          ((case hk_fillLimit h of
              Some f \<Rightarrow> f m ord want e
            | None \<Rightarrow> \<lparr>fl_qty = want, fl_makerQty = want, fl_takerQty = want, fl_makerBlocked = False,
                       fl_takerBlocked = False, fl_reason = ReduceOnlyNotReducing\<rparr>), mt')
      | (Some bite, mt') \<Rightarrow>
          (let give = min want (pb_allowedRaw bite);
               q = (if give > 0 then give else 0)
           in (\<lparr>fl_qty = q, fl_makerQty = q, fl_takerQty = want, fl_makerBlocked = (q = 0),
                fl_takerBlocked = False, fl_reason = pb_reason bite\<rparr>, mt')))"

definition spendPlan :: "matcher \<Rightarrow> nat \<Rightarrow> int \<Rightarrow> matcher" where
  "spendPlan mt maker q =
     (if \<not> mt_planActive mt \<or> q \<le> 0 then mt
      else case plannedBite mt maker of
             (None, mt') \<Rightarrow> mt'
           | (Some bite, mt') \<Rightarrow>
               mt'\<lparr>mt_plan := (mt_plan mt')[mt_planCursor mt' :=
                  bite\<lparr>pb_allowedRaw := pb_allowedRaw bite - min q (pb_allowedRaw bite)\<rparr>]\<rparr>)"

subsection \<open>Self-trade prevention\<close>

definition stp_cancel_event :: "new_order \<Rightarrow> cancel_reason \<Rightarrow> resting_order \<Rightarrow> event" where
  "stp_cancel_event ord why m = OrderCanceled \<lparr>cx_id = ro_id m, cx_symbol = no_symbol ord, cx_reason = why,
     cx_account = ro_accountId m, cx_clientOrderId = ro_clientOrderId m, cx_leavesQty = total_qty m,
     cx_cumQty = ro_cumQty m\<rparr>"

definition pull_maker ::
  "'b book_ops \<Rightarrow> ('b, 'e) hooks \<Rightarrow> new_order \<Rightarrow> cancel_reason \<Rightarrow> resting_order \<Rightarrow> ('b, 'e) sweep \<Rightarrow> ('b, 'e) sweep" where
  "pull_maker B h ord why m st =
     (let st1 = emit h (stp_cancel_event ord why m) st
      in st1\<lparr>sw_book := snd (bk_cancel B (sw_book st1) (ro_id m))\<rparr>)"

definition resolve_holds :: "('b, 'e) hooks \<Rightarrow> nat \<Rightarrow> ('b, 'e) sweep \<Rightarrow> bool \<times> ('b, 'e) sweep" where
  "resolve_holds h i st =
     (case hk_restingHolds h of
        None \<Rightarrow> (False, st)
      | Some f \<Rightarrow> (case f i (sw_book st) (sw_env st) of
                     (r, b, e) \<Rightarrow> (r, st\<lparr>sw_book := b, sw_env := e\<rparr>)))"

definition stp_decrement ::
  "'b book_ops \<Rightarrow> ('b, 'e) hooks \<Rightarrow> new_order \<Rightarrow> resting_order \<Rightarrow> ('b, 'e) sweep \<Rightarrow> stp_outcome \<times> ('b, 'e) sweep" where
  "stp_decrement B h ord m st =
     (let restTotal = total_qty m;
          dec = qmin (sw_leaves st) restTotal;
          st1 = (if \<not> dec < restTotal then pull_maker B h ord SelfTradePrevention m st
                 else let trimmedTo = restTotal - dec;
                          st' = st\<lparr>sw_book := snd (bk_reduceTotal B (sw_book st) (ro_id m) trimmedTo)\<rparr>
                      in case hk_restingReduced h of
                           None \<Rightarrow> st'
                         | Some f \<Rightarrow> st'\<lparr>sw_env := f (ro_id m) restTotal trimmedTo (sw_env st')\<rparr>);
          st2 = st1\<lparr>sw_leaves := sw_leaves st1 - dec\<rparr>
      in (if sw_leaves st2 = 0 then StpCancelTaker else StpRePeek, st2))"

definition applySelfTradePrevention ::
  "'b book_ops \<Rightarrow> ('b, 'e) hooks \<Rightarrow> new_order \<Rightarrow> resting_order \<Rightarrow> ('b, 'e) sweep \<Rightarrow> stp_outcome \<times> ('b, 'e) sweep" where
  "applySelfTradePrevention B h ord m st =
     (if no_stp ord = StpNone \<or> stpScope (sw_mt st) (ro_accountId m) \<noteq> stpScope (sw_mt st) (no_accountId ord)
      then (StpNotApplicable, st)
      else case resolve_holds h (ro_id m) st of (resolved, st1) \<Rightarrow>
        (if resolved then (StpRePeek, st1)
         else case no_stp ord of
           CancelOldest \<Rightarrow> (StpRePeek, pull_maker B h ord SelfTradePrevention m st1)
         | CancelNewest \<Rightarrow> (StpCancelTaker, st1)
         | CancelBoth \<Rightarrow> (StpCancelTaker, pull_maker B h ord SelfTradePrevention m st1)
         | Decrement \<Rightarrow> stp_decrement B h ord m st1
         | StpNone \<Rightarrow> (StpNotApplicable, st1)))"

subsection \<open>One bite of the price-time sweep\<close>

definition trade_event ::
  "nat \<Rightarrow> new_order \<Rightarrow> resting_order \<Rightarrow> int \<Rightarrow> int \<Rightarrow> event" where
  "trade_event tid ord m px fill = Trade \<lparr>tr_tradeId = tid, tr_symbol = no_symbol ord, tr_price = px,
     tr_quantity = fill, tr_makerId = ro_id m, tr_takerId = no_id ord, tr_takerSide = no_side ord,
     tr_makerAccount = ro_accountId m, tr_takerAccount = no_accountId ord\<rparr>"

definition maker_report ::
  "new_order \<Rightarrow> resting_order \<Rightarrow> int \<Rightarrow> int \<Rightarrow> int \<Rightarrow> event" where
  "maker_report ord m px fill makerTotalAfter =
     OrderExecuted \<lparr>ex_id = ro_id m, ex_symbol = no_symbol ord, ex_lastQty = fill,
       ex_leavesQty = makerTotalAfter, ex_aggressor = False, ex_complete = (makerTotalAfter = 0),
       ex_lastPx = px,
       ex_displayLeaves =
         (if fill < ro_leaves m then dec_sub (ro_leaves m) fill else qmin (ro_peak m) (ro_hidden m)),
       ex_account = ro_accountId m, ex_clientOrderId = ro_clientOrderId m,
       ex_cumQty = dec_add (ro_cumQty m) fill\<rparr>"

definition taker_report :: "new_order \<Rightarrow> int \<Rightarrow> int \<Rightarrow> int \<Rightarrow> int \<Rightarrow> event" where
  "taker_report ord fill leaves px cum =
     OrderExecuted \<lparr>ex_id = no_id ord, ex_symbol = no_symbol ord, ex_lastQty = fill,
       ex_leavesQty = leaves, ex_aggressor = True, ex_complete = (leaves = 0), ex_lastPx = px,
       ex_displayLeaves = leaves, ex_account = no_accountId ord,
       ex_clientOrderId = no_clientOrderId ord, ex_cumQty = cum\<rparr>"

definition fifo_limit ::
  "('b, 'e) hooks \<Rightarrow> new_order \<Rightarrow> resting_order \<Rightarrow> int \<Rightarrow> ('b, 'e) sweep \<Rightarrow> fill_limit option \<times> ('b, 'e) sweep" where
  "fifo_limit h ord m want st =
     (if mt_planActive (sw_mt st)
      then case plannedFillLimit h m ord want (sw_env st) (sw_mt st) of
             (lim, mt') \<Rightarrow> (Some lim, st\<lparr>sw_mt := mt'\<rparr>)
      else case hk_fillLimit h of
             Some f \<Rightarrow> (Some (f m ord want (sw_env st)), st)
           | None \<Rightarrow> (None, st))"

definition fifo_blocked ::
  "'b book_ops \<Rightarrow> ('b, 'e) hooks \<Rightarrow> new_order \<Rightarrow> resting_order \<Rightarrow> fill_limit \<Rightarrow> ('b, 'e) sweep \<Rightarrow> ('b, 'e) sweep" where
  "fifo_blocked B h ord m lim st =
     (if fl_makerBlocked lim
      then case resolve_holds h (ro_id m) st of
             (resolved, st1) \<Rightarrow> if resolved then st1 else pull_maker B h ord (fl_reason lim) m st1
      else st\<lparr>sw_risk := Some (fl_reason lim), sw_stop := True\<rparr>)"

definition fifo_hold ::
  "'b book_ops \<Rightarrow> ('b, 'e) hooks \<Rightarrow> new_order \<Rightarrow> int \<Rightarrow> resting_order \<Rightarrow> int \<Rightarrow>
   (resting_order \<Rightarrow> int \<Rightarrow> new_order \<Rightarrow> int \<Rightarrow> 'e \<Rightarrow> 'e) \<Rightarrow> ('b, 'e) sweep \<Rightarrow> ('b, 'e) sweep" where
  "fifo_hold B h ord prior m heldQty f st =
     st\<lparr>sw_env := f m heldQty ord (dec_add prior (sw_filled st)) (sw_env st),
        sw_book := bk_fillBest B (sw_book st) (opposite (no_side ord)) heldQty,
        sw_leaves := dec_sub (sw_leaves st) heldQty\<rparr>"

definition fifo_trade ::
  "'b book_ops \<Rightarrow> ('b, 'e) hooks \<Rightarrow> new_order \<Rightarrow> int \<Rightarrow> resting_order \<Rightarrow> int \<Rightarrow> ('b, 'e) sweep \<Rightarrow> ('b, 'e) sweep" where
  "fifo_trade B h ord prior m fill st =
     (let makerTotalAfter = dec_sub (total_qty m) fill;
          (tid, e1) = hk_nextTradeId h (sw_env st);
          st1 = emit h (trade_event tid ord m (ro_price m) fill) (st\<lparr>sw_env := e1\<rparr>);
          st2 = st1\<lparr>sw_book := bk_fillBest B (sw_book st1) (opposite (no_side ord)) fill,
                    sw_mt := spendPlan (sw_mt st1) (ro_id m) fill,
                    sw_leaves := dec_sub (sw_leaves st1) fill,
                    sw_filled := dec_add (sw_filled st1) fill\<rparr>;
          st3 = emit h (maker_report ord m (ro_price m) fill makerTotalAfter) st2
      in emit h (taker_report ord fill (sw_leaves st3) (ro_price m) (dec_add prior (sw_filled st3))) st3)"

definition fifo_bite ::
  "'b book_ops \<Rightarrow> ('b, 'e) hooks \<Rightarrow> new_order \<Rightarrow> int \<Rightarrow> resting_order \<Rightarrow> ('b, 'e) sweep \<Rightarrow> ('b, 'e) sweep" where
  "fifo_bite B h ord prior m st =
     (let want = qmin (sw_leaves st) (ro_leaves m)
      in if want = 0 then st\<lparr>sw_stop := True\<rparr>
         else case fifo_limit h ord m want st of (lim, st1) \<Rightarrow>
           (let allowed = (case lim of None \<Rightarrow> want | Some l \<Rightarrow> fl_qty l)
            in case lim of
                 Some l \<Rightarrow>
                   if allowed = 0 then fifo_blocked B h ord m l st1
                   else (case (ro_lastLook m, hk_lastLook h) of
                           (True, Some f) \<Rightarrow> fifo_hold B h ord prior m allowed f st1
                         | _ \<Rightarrow> fifo_trade B h ord prior m allowed st1)
               | None \<Rightarrow>
                   (case (ro_lastLook m, hk_lastLook h) of
                      (True, Some f) \<Rightarrow> fifo_hold B h ord prior m allowed f st1
                    | _ \<Rightarrow> fifo_trade B h ord prior m allowed st1)))"

definition fifo_step ::
  "'b book_ops \<Rightarrow> ('b, 'e) hooks \<Rightarrow> new_order \<Rightarrow> int \<Rightarrow> ('b, 'e) sweep \<Rightarrow> ('b, 'e) sweep" where
  "fifo_step B h ord prior st =
     (case bk_peekBest B (sw_book st) (opposite (no_side ord)) of
        None \<Rightarrow> st\<lparr>sw_stop := True\<rparr>
      | Some m \<Rightarrow>
          if \<not> crosses (no_side ord) (no_price ord) (no_type ord) (ro_price m) then st\<lparr>sw_stop := True\<rparr>
          else case applySelfTradePrevention B h ord m st of
                 (StpRePeek, st1) \<Rightarrow> st1
               | (StpCancelTaker, st1) \<Rightarrow> st1\<lparr>sw_stp := True, sw_stop := True\<rparr>
               | (StpNotApplicable, st1) \<Rightarrow> fifo_bite B h ord prior m st1)"

definition sweep_going :: "('b, 'e) sweep \<Rightarrow> bool" where
  "sweep_going st \<longleftrightarrow> sw_leaves st \<noteq> 0 \<and> \<not> sw_stop st"

definition fifo_loop ::
  "'b book_ops \<Rightarrow> ('b, 'e) hooks \<Rightarrow> new_order \<Rightarrow> int \<Rightarrow> ('b, 'e) sweep \<Rightarrow> ('b, 'e) sweep option" where
  "fifo_loop B h ord prior = while_option sweep_going (fifo_step B h ord prior)"

subsection \<open>Pro-rata allocation\<close>

fun stp_level ::
  "'b book_ops \<Rightarrow> ('b, 'e) hooks \<Rightarrow> new_order \<Rightarrow> resting_order list \<Rightarrow> ('b, 'e) sweep \<Rightarrow> stp_outcome \<times> ('b, 'e) sweep" where
  "stp_level B h ord [] st = (StpNotApplicable, st)"
| "stp_level B h ord (m # ms) st =
     (case applySelfTradePrevention B h ord m st of
        (StpNotApplicable, st1) \<Rightarrow> stp_level B h ord ms st1
      | r \<Rightarrow> r)"

text \<open>
  The allocable size of one participant: \<open>None\<close> when it is skipped. \<open>takerRoom\<close> is cut by the
  limits of every participant asked.
\<close>

definition allocable_one ::
  "('b, 'e) hooks \<Rightarrow> new_order \<Rightarrow> 'e \<Rightarrow> resting_order \<Rightarrow> int \<times> matcher \<Rightarrow> int \<times> int \<times> matcher" where
  "allocable_one h ord e m acc =
     (case acc of (takerRoom, mt) \<Rightarrow>
       (if ro_lastLook m
        then (0, takerRoom, mt\<lparr>mt_skippedLastLookProRata := Suc (mt_skippedLastLookProRata mt)\<rparr>)
        else if mt_planActive mt
        then case plannedBite mt (ro_id m) of (bite, mt1) \<Rightarrow>
               (let sz = (case bite of Some x \<Rightarrow> min (ro_leaves m) (pb_allowedRaw x) | None \<Rightarrow> ro_leaves m)
                in if sz \<le> 0 then (0, takerRoom, mt1\<lparr>mt_skippedRiskProRata := Suc (mt_skippedRiskProRata mt1)\<rparr>)
                   else (sz, takerRoom, mt1))
        else case hk_fillLimit h of
               Some f \<Rightarrow>
                 (let lim = f m ord (ro_leaves m) e;
                      sz = min (ro_leaves m) (fl_makerQty lim);
                      room = min takerRoom (fl_takerQty lim)
                  in if sz \<le> 0 then (0, room, mt\<lparr>mt_skippedRiskProRata := Suc (mt_skippedRiskProRata mt)\<rparr>)
                     else (sz, room, mt))
             | None \<Rightarrow> (ro_leaves m, takerRoom, mt)))"

fun allocable_level ::
  "('b, 'e) hooks \<Rightarrow> new_order \<Rightarrow> 'e \<Rightarrow> resting_order list \<Rightarrow> int \<times> matcher \<Rightarrow> int list \<times> int \<times> matcher" where
  "allocable_level h ord e [] acc = ([], acc)"
| "allocable_level h ord e (m # ms) acc =
     (case allocable_one h ord e m acc of (sz, acc1) \<Rightarrow>
        (case allocable_level h ord e ms acc1 of (szs, acc2) \<Rightarrow> (sz # szs, acc2)))"

definition floor_alloc :: "int \<Rightarrow> int \<Rightarrow> int list \<Rightarrow> int list" where
  "floor_alloc want tot allocable = map (\<lambda>a. if a \<le> 0 then 0 else want * a sdiv tot) allocable"

fun spread_remainder :: "int \<Rightarrow> int list \<Rightarrow> int list \<Rightarrow> int list" where
  "spread_remainder leftover (a # allocable) (x # alloc) =
     (if leftover \<le> 0 then x # alloc
      else if a \<le> 0 then x # spread_remainder leftover allocable alloc
      else let room = a - x
           in if room > 0
              then let add = min room leftover in (x + add) # spread_remainder (leftover - add) allocable alloc
              else x # spread_remainder leftover allocable alloc)"
| "spread_remainder leftover allocable alloc = alloc"

definition prorata_alloc :: "int \<Rightarrow> int list \<Rightarrow> int list" where
  "prorata_alloc want allocable =
     (let alloc = floor_alloc want (sum_list allocable) allocable
      in spread_remainder (want - sum_list alloc) allocable alloc)"

definition prorata_fill ::
  "'b book_ops \<Rightarrow> ('b, 'e) hooks \<Rightarrow> new_order \<Rightarrow> int \<Rightarrow> int \<Rightarrow> resting_order \<times> int \<Rightarrow> ('b, 'e) sweep \<Rightarrow> ('b, 'e) sweep" where
  "prorata_fill B h ord prior levelPrice ma st =
     (case ma of (m, a) \<Rightarrow>
       (if a \<le> 0 then st
        else
          (let makerTotalAfter = ro_leaves m + ro_hidden m - a;
               (tid, e1) = hk_nextTradeId h (sw_env st);
               st1 = emit h (trade_event tid ord m levelPrice a) (st\<lparr>sw_env := e1\<rparr>);
               st2 = st1\<lparr>sw_book := bk_consumeById B (sw_book st1) (ro_id m) a,
                         sw_mt := spendPlan (sw_mt st1) (ro_id m) a,
                         sw_leaves := sw_leaves st1 - a,
                         sw_filled := dec_add (sw_filled st1) a\<rparr>;
               st3 = emit h (maker_report ord m levelPrice a makerTotalAfter) st2
           in emit h (taker_report ord a (sw_leaves st3) levelPrice (dec_add prior (sw_filled st3))) st3)))"

definition prorata_allocate ::
  "'b book_ops \<Rightarrow> ('b, 'e) hooks \<Rightarrow> new_order \<Rightarrow> int \<Rightarrow> int \<Rightarrow> resting_order list \<Rightarrow> ('b, 'e) sweep \<Rightarrow> ('b, 'e) sweep" where
  "prorata_allocate B h ord prior levelPrice level st =
     (case allocable_level h ord (sw_env st) level (sw_leaves st, sw_mt st) of (allocable, takerRoom, mt) \<Rightarrow>
       (let tot = sum_list allocable;
            st1 = st\<lparr>sw_mt := mt\<rparr>
        in if tot = 0 \<or> takerRoom \<le> 0 then st1\<lparr>sw_stop := True\<rparr>
           else let want = min takerRoom tot;
                    st2 = fold (prorata_fill B h ord prior levelPrice) (zip level (prorata_alloc want allocable)) st1
                in if want < tot then st2\<lparr>sw_stop := True\<rparr> else st2))"

definition prorata_step ::
  "'b book_ops \<Rightarrow> ('b, 'e) hooks \<Rightarrow> new_order \<Rightarrow> int \<Rightarrow> ('b, 'e) sweep \<Rightarrow> ('b, 'e) sweep" where
  "prorata_step B h ord prior st =
     (case bk_peekBest B (sw_book st) (opposite (no_side ord)) of
        None \<Rightarrow> st\<lparr>sw_stop := True\<rparr>
      | Some m0 \<Rightarrow>
          if \<not> crosses (no_side ord) (no_price ord) (no_type ord) (ro_price m0) then st\<lparr>sw_stop := True\<rparr>
          else let level = bk_bestLevel B (sw_book st) (opposite (no_side ord))
               in if level = [] then st\<lparr>sw_stop := True\<rparr>
                  else case (if no_stp ord \<noteq> StpNone then stp_level B h ord level st else (StpNotApplicable, st)) of
                         (StpCancelTaker, st1) \<Rightarrow> st1\<lparr>sw_stp := True, sw_stop := True\<rparr>
                       | (StpRePeek, st1) \<Rightarrow> st1
                       | (StpNotApplicable, st1) \<Rightarrow> prorata_allocate B h ord prior (ro_price m0) level st1)"

definition prorata_loop ::
  "'b book_ops \<Rightarrow> ('b, 'e) hooks \<Rightarrow> new_order \<Rightarrow> int \<Rightarrow> ('b, 'e) sweep \<Rightarrow> ('b, 'e) sweep option" where
  "prorata_loop B h ord prior = while_option sweep_going (prorata_step B h ord prior)"

subsection \<open>The whole cross\<close>

definition finish :: "new_order \<Rightarrow> ('b, 'e) sweep \<Rightarrow> match_outcome" where
  "finish ord st =
     (let out = empty_outcome\<lparr>mo_filled := sw_filled st, mo_leaves := sw_leaves st\<rparr>;
          killed = (\<lambda>why. out\<lparr>mo_residualCanceled := True, mo_residualCancelReason := why\<rparr>)
      in if sw_stp st then killed SelfTradePrevention
         else case sw_risk st of
           Some why \<Rightarrow> killed why
         | None \<Rightarrow>
             if sw_leaves st = 0 then out\<lparr>mo_takerComplete := True\<rparr>
             else if no_type ord = MARKET then killed MarketResidual
             else if no_tif ord = IOC then killed ImmediateOrCancelResidual
             else if no_tif ord = FOK then killed FillOrKillResidual
             else out\<lparr>mo_residualRests := True\<rparr>)"

definition start_sweep :: "new_order \<Rightarrow> 'b \<Rightarrow> 'e \<Rightarrow> matcher \<Rightarrow> ('b, 'e) sweep" where
  "start_sweep ord b e mt = \<lparr>sw_book = b, sw_env = e, sw_mt = mt, sw_events = [],
     sw_leaves = no_quantity ord, sw_filled = 0, sw_stop = False, sw_stp = False, sw_risk = None\<rparr>"

definition post_only_blocked :: "'b book_ops \<Rightarrow> new_order \<Rightarrow> 'b \<Rightarrow> bool" where
  "post_only_blocked B ord b \<longleftrightarrow> no_postOnly ord \<and>
     (case bk_peekBest B b (opposite (no_side ord)) of
        None \<Rightarrow> False
      | Some m0 \<Rightarrow> crosses (no_side ord) (no_price ord) (no_type ord) (ro_price m0))"

definition cross ::
  "'b book_ops \<Rightarrow> ('b, 'e) hooks \<Rightarrow> new_order \<Rightarrow> 'b \<Rightarrow> 'e \<Rightarrow> matcher \<Rightarrow> int \<Rightarrow>
   (match_outcome \<times> ('b, 'e) sweep) option" where
  "cross B h ord b e mt0 prior =
     (let mt = mt0\<lparr>mt_planActive := False\<rparr>;
          rejected = (\<lambda>why m. Some (empty_outcome\<lparr>mo_reject := why\<rparr>, start_sweep ord b e m))
      in if post_only_blocked B ord b then rejected PostOnlyWouldCross mt
         else case (if no_tif ord = FOK then planFillOrKill B h ord b e mt else (True, mt)) of
                (False, mt1) \<Rightarrow> rejected FillOrKillUnfulfillable mt1
              | (True, mt1) \<Rightarrow>
                  map_option (\<lambda>st. (finish ord st, st))
                    ((case mt_policy mt of
                        PriceTimeFifo \<Rightarrow> fifo_loop B h ord prior
                      | ProRata \<Rightarrow> prorata_loop B h ord prior) (start_sweep ord b e mt1)))"

end
