(* ===== verification/MatcherSteps.thy ===== *)
theory MatcherSteps
  imports Matcher
begin

section \<open>The price-time sweep as a step relation\<close>

text \<open>
  \<open>fifo_act\<close> lists everything one iteration of the loop in \<^verbatim>\<open>Matcher::cross\<close> can do, one rule
  per path through the loop body; \<open>fifo_step_act\<close> shows that the body does one of them.
  Properties of the sweep are then proved by rule cases, one case per path, and lifted
  through the loop by \<open>fifo_loop_invariant\<close>.

  \<open>hooks_ok\<close> is what the engine documents about its callbacks: a resting-hold hook that reports
  having resolved nothing has changed nothing, one that did leaves a well-formed book, and a
  fill limit is never more than the quantity asked about.
\<close>

definition hooks_ok :: "('b \<Rightarrow> bool) \<Rightarrow> ('b, 'e) hooks \<Rightarrow> bool" where
  "hooks_ok I h \<longleftrightarrow>
     (\<forall>f i b e r b' e'. hk_restingHolds h = Some f \<longrightarrow> I b \<longrightarrow> f i b e = (r, b', e') \<longrightarrow>
        I b' \<and> (\<not> r \<longrightarrow> b' = b \<and> e' = e))
     \<and> (\<forall>f m ord want e. hk_fillLimit h = Some f \<longrightarrow> 0 < want \<longrightarrow>
          0 \<le> fl_qty (f m ord want e) \<and> fl_qty (f m ord want e) \<le> want)"

definition bite_allowance :: "int \<Rightarrow> fill_limit option \<Rightarrow> int" where
  "bite_allowance want lim = (case lim of None \<Rightarrow> want | Some l \<Rightarrow> fl_qty l)"

inductive fifo_act ::
  "'b book_ops \<Rightarrow> ('b, 'e) hooks \<Rightarrow> new_order \<Rightarrow> int \<Rightarrow> ('b, 'e) sweep \<Rightarrow> ('b, 'e) sweep \<Rightarrow> bool"
  for B h ord prior where
  no_maker: "bk_peekBest B (sw_book st) (opposite (no_side ord)) = None \<Longrightarrow>
    fifo_act B h ord prior st (st\<lparr>sw_stop := True\<rparr>)"
| no_cross: "bk_peekBest B (sw_book st) (opposite (no_side ord)) = Some m \<Longrightarrow>
    \<not> crosses (no_side ord) (no_price ord) (no_type ord) (ro_price m) \<Longrightarrow>
    fifo_act B h ord prior st (st\<lparr>sw_stop := True\<rparr>)"
| stp_resolved: "bk_peekBest B (sw_book st) (opposite (no_side ord)) = Some m \<Longrightarrow>
    hk_restingHolds h = Some f \<Longrightarrow> f (ro_id m) (sw_book st) (sw_env st) = (True, b', e') \<Longrightarrow>
    fifo_act B h ord prior st (st\<lparr>sw_book := b', sw_env := e'\<rparr>)"
| stp_oldest: "bk_peekBest B (sw_book st) (opposite (no_side ord)) = Some m \<Longrightarrow>
    crosses (no_side ord) (no_price ord) (no_type ord) (ro_price m) \<Longrightarrow>
    skipStp (sw_mt st) ord m \<Longrightarrow> no_stp ord = CancelOldest \<Longrightarrow>
    fifo_act B h ord prior st (pull_maker B h ord SelfTradePrevention m st)"
| stp_newest: "bk_peekBest B (sw_book st) (opposite (no_side ord)) = Some m \<Longrightarrow>
    crosses (no_side ord) (no_price ord) (no_type ord) (ro_price m) \<Longrightarrow>
    skipStp (sw_mt st) ord m \<Longrightarrow> no_stp ord = CancelNewest \<Longrightarrow>
    fifo_act B h ord prior st (st\<lparr>sw_stp := True, sw_stop := True\<rparr>)"
| stp_both: "bk_peekBest B (sw_book st) (opposite (no_side ord)) = Some m \<Longrightarrow>
    crosses (no_side ord) (no_price ord) (no_type ord) (ro_price m) \<Longrightarrow>
    skipStp (sw_mt st) ord m \<Longrightarrow> no_stp ord = CancelBoth \<Longrightarrow>
    fifo_act B h ord prior st
      ((pull_maker B h ord SelfTradePrevention m st)\<lparr>sw_stp := True, sw_stop := True\<rparr>)"
| stp_dec: "bk_peekBest B (sw_book st) (opposite (no_side ord)) = Some m \<Longrightarrow>
    crosses (no_side ord) (no_price ord) (no_type ord) (ro_price m) \<Longrightarrow>
    skipStp (sw_mt st) ord m \<Longrightarrow> no_stp ord = Decrement \<Longrightarrow>
    stp_decrement B h ord m st = (so, st1) \<Longrightarrow>
    fifo_act B h ord prior st (if so = StpCancelTaker then st1\<lparr>sw_stp := True, sw_stop := True\<rparr> else st1)"
| empty_maker: "bk_peekBest B (sw_book st) (opposite (no_side ord)) = Some m \<Longrightarrow>
    \<not> skipStp (sw_mt st) ord m \<Longrightarrow> qmin (sw_leaves st) (ro_leaves m) = 0 \<Longrightarrow>
    fifo_act B h ord prior st (st\<lparr>sw_stop := True\<rparr>)"
| block_resolved: "bk_peekBest B (sw_book st) (opposite (no_side ord)) = Some m \<Longrightarrow>
    hk_restingHolds h = Some f \<Longrightarrow> f (ro_id m) (sw_book st) (sw_env st) = (True, b', e') \<Longrightarrow>
    fifo_act B h ord prior st
      (st\<lparr>sw_mt := (sw_mt st)\<lparr>mt_planCursor := c\<rparr>, sw_book := b', sw_env := e'\<rparr>)"
| maker_blocked: "bk_peekBest B (sw_book st) (opposite (no_side ord)) = Some m \<Longrightarrow>
    crosses (no_side ord) (no_price ord) (no_type ord) (ro_price m) \<Longrightarrow>
    \<not> skipStp (sw_mt st) ord m \<Longrightarrow>
    fifo_limit h ord m (qmin (sw_leaves st) (ro_leaves m)) st = (Some lim, st1) \<Longrightarrow>
    fl_qty lim = 0 \<Longrightarrow> fl_makerBlocked lim \<Longrightarrow>
    fifo_act B h ord prior st (pull_maker B h ord (fl_reason lim) m st1)"
| taker_blocked: "bk_peekBest B (sw_book st) (opposite (no_side ord)) = Some m \<Longrightarrow>
    \<not> skipStp (sw_mt st) ord m \<Longrightarrow>
    fifo_limit h ord m (qmin (sw_leaves st) (ro_leaves m)) st = (Some lim, st1) \<Longrightarrow>
    fl_qty lim = 0 \<Longrightarrow> \<not> fl_makerBlocked lim \<Longrightarrow>
    fifo_act B h ord prior st (st1\<lparr>sw_risk := Some (fl_reason lim), sw_stop := True\<rparr>)"
| held: "bk_peekBest B (sw_book st) (opposite (no_side ord)) = Some m \<Longrightarrow>
    crosses (no_side ord) (no_price ord) (no_type ord) (ro_price m) \<Longrightarrow>
    \<not> skipStp (sw_mt st) ord m \<Longrightarrow> want = qmin (sw_leaves st) (ro_leaves m) \<Longrightarrow> want \<noteq> 0 \<Longrightarrow>
    fifo_limit h ord m want st = (lim, st1) \<Longrightarrow> bite_allowance want lim \<noteq> 0 \<Longrightarrow>
    ro_lastLook m \<Longrightarrow> hk_lastLook h = Some f \<Longrightarrow>
    fifo_act B h ord prior st (fifo_hold B h ord prior m (bite_allowance want lim) f st1)"
| traded: "bk_peekBest B (sw_book st) (opposite (no_side ord)) = Some m \<Longrightarrow>
    crosses (no_side ord) (no_price ord) (no_type ord) (ro_price m) \<Longrightarrow>
    \<not> skipStp (sw_mt st) ord m \<Longrightarrow> want = qmin (sw_leaves st) (ro_leaves m) \<Longrightarrow> want \<noteq> 0 \<Longrightarrow>
    fifo_limit h ord m want st = (lim, st1) \<Longrightarrow> bite_allowance want lim \<noteq> 0 \<Longrightarrow>
    \<not> (ro_lastLook m \<and> hk_lastLook h \<noteq> None) \<Longrightarrow>
    fifo_act B h ord prior st (fifo_trade B h ord prior m (bite_allowance want lim) st1)"

subsection \<open>The loop body is one of the rules\<close>

lemma plannedBite_cursor: "plannedBite mt i = (x, mt') \<Longrightarrow> \<exists>c. mt' = mt\<lparr>mt_planCursor := c\<rparr>"
  by (cases mt) (auto simp: plannedBite_def Let_def split: option.splits)

lemma plannedFillLimit_cursor:
  "plannedFillLimit h m ord want e mt = (x, mt') \<Longrightarrow> \<exists>c. mt' = mt\<lparr>mt_planCursor := c\<rparr>"
  by (auto simp: plannedFillLimit_def Let_def dest!: plannedBite_cursor split: prod.splits option.splits)

lemma fifo_limit_cursor:
  assumes "fifo_limit h ord m want st = (lim, st1)"
  shows "\<exists>c. st1 = st\<lparr>sw_mt := (sw_mt st)\<lparr>mt_planCursor := c\<rparr>\<rparr>"
proof (cases "mt_planActive (sw_mt st)")
  case True
  then show ?thesis
    using assms by (auto simp: fifo_limit_def dest!: plannedFillLimit_cursor split: prod.splits)
next
  case False
  then have "st1 = st" using assms by (auto simp: fifo_limit_def split: option.splits)
  then have "st1 = st\<lparr>sw_mt := (sw_mt st)\<lparr>mt_planCursor := mt_planCursor (sw_mt st)\<rparr>\<rparr>" by simp
  then show ?thesis by blast
qed

lemma resolve_holds_cases:
  assumes "hooks_ok I h" "I (sw_book st)" "resolve_holds h i st = (r, st1)"
  shows "(\<not> r \<and> st1 = st) \<or>
    (r \<and> (\<exists>f b' e'. hk_restingHolds h = Some f \<and> f i (sw_book st) (sw_env st) = (True, b', e')
        \<and> st1 = st\<lparr>sw_book := b', sw_env := e'\<rparr>))"
  using assms unfolding hooks_ok_def resolve_holds_def
  by (cases "hk_restingHolds h") (fastforce split: prod.splits)+

lemma stp_decrement_outcome: "fst (stp_decrement B h ord m st) \<in> {StpCancelTaker, StpRePeek}"
  by (simp add: stp_decrement_def Let_def)

lemma bite_act:
  assumes ok: "hooks_ok I h" "I (sw_book st)"
    and p: "bk_peekBest B (sw_book st) (opposite (no_side ord)) = Some m"
    and x: "crosses (no_side ord) (no_price ord) (no_type ord) (ro_price m)"
    and n: "\<not> skipStp (sw_mt st) ord m"
  shows "fifo_act B h ord prior st (fifo_bite B h ord prior m st)"
proof (cases "qmin (sw_leaves st) (ro_leaves m) = 0")
  case True
  then show ?thesis using fifo_act.empty_maker [OF p n True] by (simp add: fifo_bite_def)
next
  case False
  let ?w = "qmin (sw_leaves st) (ro_leaves m)"
  obtain lim st1 where l: "fifo_limit h ord m ?w st = (lim, st1)" by (cases "fifo_limit h ord m ?w st")
  obtain c where c: "st1 = st\<lparr>sw_mt := (sw_mt st)\<lparr>mt_planCursor := c\<rparr>\<rparr>" using fifo_limit_cursor [OF l] by blast
  show ?thesis
  proof (cases "bite_allowance ?w lim = 0")
    case True
    then obtain l' where l': "lim = Some l'" "fl_qty l' = 0"
      using False by (auto simp: bite_allowance_def split: option.splits)
    have bite: "fifo_bite B h ord prior m st = fifo_blocked B h ord m l' st1"
      using False l l' by (simp add: fifo_bite_def)
    show ?thesis
    proof (cases "fl_makerBlocked l'")
      case True
      obtain r st2 where r: "resolve_holds h (ro_id m) st1 = (r, st2)" by (cases "resolve_holds h (ro_id m) st1")
      have "I (sw_book st1)" using ok c by simp
      from resolve_holds_cases [OF ok(1) this r] show ?thesis
        using fifo_act.maker_blocked [OF p x n l [unfolded l'(1)] l'(2) True] fifo_act.block_resolved [OF p, of h _ _ _ _ c]
          True bite r c by (auto simp: fifo_blocked_def)
    next
      case False
      then show ?thesis using fifo_act.taker_blocked [OF p n l [unfolded l'(1)] l'(2)] bite by (simp add: fifo_blocked_def)
    qed
  next
    case A: False
    then show ?thesis
      using fifo_act.held [OF p x n refl False l A] fifo_act.traded [OF p x n refl False l A] False l
      by (cases "ro_lastLook m"; cases "hk_lastLook h"; cases lim) (auto simp: fifo_bite_def bite_allowance_def)
  qed
qed

lemma fifo_step_act:
  assumes ok: "hooks_ok I h" "I (sw_book st)"
  shows "fifo_act B h ord prior st (fifo_step B h ord prior st)"
proof (cases "bk_peekBest B (sw_book st) (opposite (no_side ord))")
  case None
  then show ?thesis using fifo_act.no_maker by (simp add: fifo_step_def)
next
  case p: (Some m)
  show ?thesis
  proof (cases "crosses (no_side ord) (no_price ord) (no_type ord) (ro_price m)")
    case False
    then show ?thesis using fifo_act.no_cross [OF p] p by (simp add: fifo_step_def)
  next
    case x: True
    show ?thesis
    proof (cases "skipStp (sw_mt st) ord m")
      case False
      then show ?thesis using bite_act [OF ok p x False] p x
        by (auto simp: fifo_step_def applySelfTradePrevention_def skipStp_def)
    next
      case s: True
      obtain r st1 where r: "resolve_holds h (ro_id m) st = (r, st1)" by (cases "resolve_holds h (ro_id m) st")
      from resolve_holds_cases [OF ok r] show ?thesis
      proof
        assume "\<not> r \<and> st1 = st"
        then show ?thesis
          using s p x r fifo_act.stp_oldest [OF p x s] fifo_act.stp_newest [OF p x s] fifo_act.stp_both [OF p x s]
            fifo_act.stp_dec [OF p x s, of h] stp_decrement_outcome [of B h ord m st]
          by (cases "no_stp ord"; cases "stp_decrement B h ord m st")
            (auto simp: fifo_step_def applySelfTradePrevention_def skipStp_def)
      next
        assume "r \<and> (\<exists>f b' e'. hk_restingHolds h = Some f \<and> f (ro_id m) (sw_book st) (sw_env st) = (True, b', e')
            \<and> st1 = st\<lparr>sw_book := b', sw_env := e'\<rparr>)"
        then show ?thesis using s p x r fifo_act.stp_resolved [OF p]
          by (auto simp: fifo_step_def applySelfTradePrevention_def skipStp_def)
      qed
    qed
  qed
qed

lemma fifo_loop_invariant:
  assumes "fifo_loop B h ord prior st = Some st'" and "J st"
    and "\<And>s. J s \<Longrightarrow> sweep_going s \<Longrightarrow> J (fifo_step B h ord prior s)"
  shows "J st' \<and> \<not> sweep_going st'"
  using while_option_rule [where P = J, OF assms(3) assms(1) [unfolded fifo_loop_def] assms(2)]
    while_option_stop [OF assms(1) [unfolded fifo_loop_def]] by simp

end
