(* ===== verification/Fifo.thy ===== *)
theory Fifo
  imports MatcherSteps
begin

section \<open>Correctness of the price-time sweep\<close>

text \<open>
  Invariants of the sweep of \<^verbatim>\<open>Matcher::cross\<close>, proved once for every book that keeps the
  contract \<open>resting_book\<close>, over the step relation of \<open>MatcherSteps\<close>: quantities, limit prices,
  self-trade prevention, price priority, termination, the reference allocation and the
  all-or-none promise.
\<close>

subsection \<open>Projections of the event log\<close>

fun trades_of :: "event list \<Rightarrow> trade list" where
  "trades_of [] = []"
| "trades_of (Trade t # es) = t # trades_of es"
| "trades_of (_ # es) = trades_of es"

fun cancels_of :: "event list \<Rightarrow> order_canceled list" where
  "cancels_of [] = []"
| "cancels_of (OrderCanceled c # es) = c # cancels_of es"
| "cancels_of (_ # es) = cancels_of es"

definition trade_qty :: "event list \<Rightarrow> int" where
  "trade_qty es = sum_list (map tr_quantity (trades_of es))"

definition cancel_qty :: "event list \<Rightarrow> int" where
  "cancel_qty es = sum_list (map cx_leavesQty (cancels_of es))"

lemma trades_of_append [event_simps]: "trades_of (xs @ ys) = trades_of xs @ trades_of ys"
  by (induction xs rule: trades_of.induct) auto

lemma cancels_of_append [event_simps]: "cancels_of (xs @ ys) = cancels_of xs @ cancels_of ys"
  by (induction xs rule: cancels_of.induct) auto

lemma report_projections [event_simps]:
  "trades_of [maker_report ord m px q t] = []" "trades_of [taker_report ord q l px c] = []"
  "trades_of [stp_cancel_event ord why m] = []"
  "cancels_of [maker_report ord m px q t] = []" "cancels_of [taker_report ord q l px c] = []"
  "cancels_of [trade_event i ord m px q] = []"
  by (simp_all add: maker_report_def taker_report_def stp_cancel_event_def trade_event_def)

lemma trade_event_projection [event_simps]:
  "trades_of [trade_event i ord m px q] = [\<lparr>tr_tradeId = i, tr_symbol = no_symbol ord, tr_price = px,
     tr_quantity = q, tr_makerId = ro_id m, tr_takerId = no_id ord, tr_takerSide = no_side ord,
     tr_makerAccount = ro_accountId m, tr_takerAccount = no_accountId ord\<rparr>]"
  by (simp add: trade_event_def)

lemma cancel_event_projection [event_simps]:
  "cancels_of [stp_cancel_event ord why m] = [\<lparr>cx_id = ro_id m, cx_symbol = no_symbol ord, cx_reason = why,
     cx_account = ro_accountId m, cx_clientOrderId = ro_clientOrderId m, cx_leavesQty = total_qty m,
     cx_cumQty = ro_cumQty m\<rparr>]"
  by (simp add: stp_cancel_event_def)

lemma trade_qty_append [event_simps]: "trade_qty (xs @ ys) = trade_qty xs + trade_qty ys"
  by (simp add: trade_qty_def trades_of_append)

lemma cancel_qty_append [event_simps]: "cancel_qty (xs @ ys) = cancel_qty xs + cancel_qty ys"
  by (simp add: cancel_qty_def cancels_of_append)

subsection \<open>Projections of the actions\<close>

lemma emit_sel [simp]:
  "sw_book (emit h ev st) = sw_book st" "sw_mt (emit h ev st) = sw_mt st"
  "sw_events (emit h ev st) = sw_events st @ [ev]" "sw_leaves (emit h ev st) = sw_leaves st"
  "sw_filled (emit h ev st) = sw_filled st" "sw_stop (emit h ev st) = sw_stop st"
  "sw_stp (emit h ev st) = sw_stp st" "sw_risk (emit h ev st) = sw_risk st"
  by (simp_all add: emit_def)

lemma pull_maker_sel [simp]:
  "sw_book (pull_maker B h ord why m st) = snd (bk_cancel B (sw_book st) (ro_id m))"
  "sw_mt (pull_maker B h ord why m st) = sw_mt st"
  "sw_events (pull_maker B h ord why m st) = sw_events st @ [stp_cancel_event ord why m]"
  "sw_leaves (pull_maker B h ord why m st) = sw_leaves st"
  "sw_filled (pull_maker B h ord why m st) = sw_filled st"
  "sw_stop (pull_maker B h ord why m st) = sw_stop st"
  "sw_stp (pull_maker B h ord why m st) = sw_stp st"
  "sw_risk (pull_maker B h ord why m st) = sw_risk st"
  by (simp_all add: pull_maker_def Let_def)

lemma fifo_hold_sel [simp]:
  "sw_book (fifo_hold B h ord prior m q f st) = bk_fillBest B (sw_book st) (opposite (no_side ord)) q"
  "sw_mt (fifo_hold B h ord prior m q f st) = sw_mt st"
  "sw_events (fifo_hold B h ord prior m q f st) = sw_events st"
  "sw_leaves (fifo_hold B h ord prior m q f st) = dec_sub (sw_leaves st) q"
  "sw_filled (fifo_hold B h ord prior m q f st) = sw_filled st"
  "sw_stop (fifo_hold B h ord prior m q f st) = sw_stop st"
  "sw_stp (fifo_hold B h ord prior m q f st) = sw_stp st"
  "sw_risk (fifo_hold B h ord prior m q f st) = sw_risk st"
  by (simp_all add: fifo_hold_def)

lemma fifo_trade_sel [simp]:
  "sw_book (fifo_trade B h ord prior m q st) = bk_fillBest B (sw_book st) (opposite (no_side ord)) q"
  "sw_mt (fifo_trade B h ord prior m q st) = spendPlan (sw_mt st) (ro_id m) q"
  "sw_leaves (fifo_trade B h ord prior m q st) = dec_sub (sw_leaves st) q"
  "sw_filled (fifo_trade B h ord prior m q st) = dec_add (sw_filled st) q"
  "sw_stop (fifo_trade B h ord prior m q st) = sw_stop st"
  "sw_stp (fifo_trade B h ord prior m q st) = sw_stp st"
  "sw_risk (fifo_trade B h ord prior m q st) = sw_risk st"
  "sw_events (fifo_trade B h ord prior m q st) = sw_events st @
     [trade_event (fst (hk_nextTradeId h (sw_env st))) ord m (ro_price m) q,
      maker_report ord m (ro_price m) q (dec_sub (total_qty m) q),
      taker_report ord q (dec_sub (sw_leaves st) q) (ro_price m) (dec_add prior (dec_add (sw_filled st) q))]"
  by (simp_all add: fifo_trade_def Let_def split_beta)

lemma trades_of_three [event_simps]:
  "trades_of [trade_event i ord m px q, maker_report ord m px q u, taker_report ord q l px c]
     = trades_of [trade_event i ord m px q]"
  "cancels_of [trade_event i ord m px q, maker_report ord m px q u, taker_report ord q l px c] = []"
  by (simp_all add: maker_report_def taker_report_def trade_event_def)

lemma stp_decrement_sel:
  assumes "stp_decrement B h ord m st = (so, st1)"
  shows "sw_mt st1 = sw_mt st" "sw_filled st1 = sw_filled st" "sw_stop st1 = sw_stop st"
    "sw_stp st1 = sw_stp st" "sw_risk st1 = sw_risk st"
    "sw_leaves st1 = sw_leaves st - qmin (sw_leaves st) (total_qty m)"
    "trades_of (sw_events st1) = trades_of (sw_events st)"
    "so = (if sw_leaves st1 = 0 then StpCancelTaker else StpRePeek)"
    "sw_book st1 = (if total_qty m \<le> sw_leaves st then snd (bk_cancel B (sw_book st) (ro_id m))
       else snd (bk_reduceTotal B (sw_book st) (ro_id m) (total_qty m - sw_leaves st)))"
  using assms by (auto simp: stp_decrement_def Let_def qmin_def event_simps split: option.splits if_splits)

lemma stpScope_mt [simp]:
  "stpScope (mt\<lparr>mt_planCursor := c\<rparr>) = stpScope mt" "stpScope (mt\<lparr>mt_plan := p\<rparr>) = stpScope mt"
  "stpScope (mt\<lparr>mt_planActive := a\<rparr>) = stpScope mt"
  by (simp_all add: stpScope_def fun_eq_iff)

lemma spendPlan_sel [simp]:
  "mt_stpGroup (spendPlan mt i q) = mt_stpGroup mt" "mt_planActive (spendPlan mt i q) = mt_planActive mt"
  "mt_policy (spendPlan mt i q) = mt_policy mt"
  by (auto simp: spendPlan_def dest!: plannedBite_cursor split: prod.splits option.splits)

lemma stpScope_spendPlan [simp]: "stpScope (spendPlan mt i q) = stpScope mt"
  by (simp add: stpScope_def fun_eq_iff)

lemma plannedFillLimit_bounds:
  assumes "hooks_ok I h" "0 < want" "plannedFillLimit h m ord want e mt = (lim, mt')"
  shows "0 \<le> fl_qty lim \<and> fl_qty lim \<le> want"
  using assms by (auto simp: plannedFillLimit_def hooks_ok_def Let_def split: prod.splits option.splits)

lemma fifo_limit_bounds:
  assumes "hooks_ok I h" "0 < want" "fifo_limit h ord m want st = (lim, st1)"
  shows "0 \<le> bite_allowance want lim \<and> bite_allowance want lim \<le> want"
  using assms plannedFillLimit_bounds [OF assms(1,2)]
  by (auto simp: fifo_limit_def bite_allowance_def hooks_ok_def split: if_splits prod.splits option.splits)

subsection \<open>Quantities, limits, self-trades: one invariant\<close>

text \<open>
  \<open>trade_ok\<close> is what every printed trade has to satisfy: a positive quantity, a price inside
  the aggressor's limit, the aggressor's identity, and, when the order asks for self-trade
  prevention, a counterparty in another scope.
\<close>

definition trade_ok :: "matcher \<Rightarrow> new_order \<Rightarrow> trade \<Rightarrow> bool" where
  "trade_ok mt ord t \<longleftrightarrow> 0 < tr_quantity t
     \<and> crosses (no_side ord) (no_price ord) (no_type ord) (tr_price t)
     \<and> tr_takerId t = no_id ord \<and> tr_takerAccount t = no_accountId ord \<and> tr_takerSide t = no_side ord
     \<and> (no_stp ord \<noteq> StpNone \<longrightarrow> stpScope mt (tr_makerAccount t) \<noteq> stpScope mt (no_accountId ord))"

definition sweep_ok :: "('b \<Rightarrow> bool) \<Rightarrow> matcher \<Rightarrow> new_order \<Rightarrow> ('b, 'e) sweep \<Rightarrow> bool" where
  "sweep_ok I mt ord st \<longleftrightarrow> I (sw_book st) \<and> mt_stpGroup (sw_mt st) = mt_stpGroup mt
     \<and> 0 \<le> sw_leaves st \<and> 0 \<le> sw_filled st \<and> sw_filled st + sw_leaves st \<le> no_quantity ord
     \<and> trade_qty (sw_events st) = sw_filled st
     \<and> (\<forall>t \<in> set (trades_of (sw_events st)). trade_ok mt ord t)"

lemma stpScope_cong: "mt_stpGroup mt = mt_stpGroup mt' \<Longrightarrow> stpScope mt = stpScope mt'"
  by (simp add: stpScope_def fun_eq_iff)

text \<open>
  The allocation price-time priority prescribes on a side without icebergs: orders in book
  order, each taken whole until the quantity or the limit is exhausted.
\<close>

fun greedy_fills :: "new_order \<Rightarrow> int \<Rightarrow> resting_order list \<Rightarrow> (nat \<times> int \<times> int) list" where
  "greedy_fills ord q [] = []"
| "greedy_fills ord q (r # rs) =
     (if q \<le> 0 \<or> \<not> crosses (no_side ord) (no_price ord) (no_type ord) (ro_price r) then []
      else (ro_id r, ro_price r, min q (ro_leaves r)) # greedy_fills ord (q - min q (ro_leaves r)) rs)"

definition fills_of :: "event list \<Rightarrow> (nat \<times> int \<times> int) list" where
  "fills_of es = map (\<lambda>t. (tr_makerId t, tr_price t, tr_quantity t)) (trades_of es)"

lemma greedy_none: "q \<le> 0 \<Longrightarrow> greedy_fills ord q rs = []"
  by (cases rs) auto

definition plain_hooks :: "('b, 'e) hooks \<Rightarrow> bool" where
  "plain_hooks h \<longleftrightarrow> hk_restingHolds h = None \<and> hk_fillLimit h = None \<and> hk_fillLimitDry h = None
     \<and> hk_lastLook h = None"

lemma plain_hooks_ok: "plain_hooks h \<Longrightarrow> hooks_ok I h"
  by (simp add: plain_hooks_def hooks_ok_def)

context resting_book
begin

lemma peek_head: "inv b \<Longrightarrow> bk_peekBest B b s = Some m \<Longrightarrow> \<exists>ms. orders b s = m # ms"
  by (auto simp: peek split: list.splits)

lemma head_wf: "inv b \<Longrightarrow> orders b s = m # ms \<Longrightarrow> wf_order m"
  using book_ok_side [OF inv_ok, of b s] by (simp add: side_ok_Cons)

lemma peek_wf: "inv b \<Longrightarrow> bk_peekBest B b s = Some m \<Longrightarrow> wf_order m"
  using peek_head head_wf by blast

lemma peek_mem: "inv b \<Longrightarrow> bk_peekBest B b s = Some m \<Longrightarrow> m \<in> set (orders b s)"
  using peek_head by fastforce

lemma inv_cancel: "inv b \<Longrightarrow> inv (snd (bk_cancel B b i))"
  using canceled by blast

lemma inv_fill: "inv b \<Longrightarrow> bk_peekBest B b s = Some m \<Longrightarrow> 0 < q \<Longrightarrow> q \<le> ro_leaves m \<Longrightarrow> inv (bk_fillBest B b s q)"
  using filled peek_head by blast

lemma member_wf: "inv b \<Longrightarrow> m \<in> set (orders b s) \<Longrightarrow> wf_order m"
  using book_ok_side [OF inv_ok, of b s] by (simp add: side_ok_def)

lemma inv_trim: "inv b \<Longrightarrow> m \<in> set (orders b s) \<Longrightarrow> 0 < n \<Longrightarrow> n \<le> total_qty m \<Longrightarrow>
   inv (snd (bk_reduceTotal B b (ro_id m) n))"
  using trimmed by blast

lemma bite_bounds:
  assumes "inv (sw_book st)" "hooks_ok inv h" "0 < sw_leaves st"
    and "bk_peekBest B (sw_book st) s = Some m" "want = qmin (sw_leaves st) (ro_leaves m)"
    and "fifo_limit h ord m want st = (lim, st1)" "bite_allowance want lim \<noteq> 0"
  shows "0 < bite_allowance want lim" "bite_allowance want lim \<le> sw_leaves st"
    "bite_allowance want lim \<le> ro_leaves m"
proof -
  have "0 < ro_leaves m" using peek_wf [OF assms(1,4)] by (simp add: wf_order_def)
  then have "0 < want" "want \<le> sw_leaves st" "want \<le> ro_leaves m" using assms(3,5) by (auto simp: qmin_min)
  with fifo_limit_bounds [OF assms(2) _ assms(6)] assms(7)
  show "0 < bite_allowance want lim" "bite_allowance want lim \<le> sw_leaves st"
    "bite_allowance want lim \<le> ro_leaves m" by auto
qed

lemma sweep_ok_exact:
  assumes "sweep_ok inv mt ord st" "0 < q" "q \<le> sw_leaves st" "no_quantity ord \<le> i64_max"
  shows "dec_sub (sw_leaves st) q = sw_leaves st - q" "dec_add (sw_filled st) q = sw_filled st + q"
proof -
  have "0 \<le> sw_filled st" "sw_filled st + sw_leaves st \<le> i64_max" using assms by (simp_all add: sweep_ok_def)
  with assms(2,3) show "dec_sub (sw_leaves st) q = sw_leaves st - q" "dec_add (sw_filled st) q = sw_filled st + q"
    by (simp_all add: dec_sub_nonneg dec_add_nonneg)
qed

lemma sweep_ok_trade:
  assumes ok: "sweep_ok inv mt ord st" and q: "0 < q" "q \<le> sw_leaves st" "q \<le> ro_leaves m"
    and m: "bk_peekBest B (sw_book st) (opposite (no_side ord)) = Some m"
    and x: "crosses (no_side ord) (no_price ord) (no_type ord) (ro_price m)"
    and n: "\<not> skipStp (sw_mt st) ord m" and big: "no_quantity ord \<le> i64_max"
  shows "sweep_ok inv mt ord (fifo_trade B h ord prior m q st)"
proof -
  have i: "inv (sw_book st)" and g: "mt_stpGroup (sw_mt st) = mt_stpGroup mt" using ok by (simp_all add: sweep_ok_def)
  have "inv (bk_fillBest B (sw_book st) (opposite (no_side ord)) q)" using inv_fill [OF i m q(1,3)] .
  moreover have "no_stp ord \<noteq> StpNone \<longrightarrow> stpScope mt (ro_accountId m) \<noteq> stpScope mt (no_accountId ord)"
    using n stpScope_cong [OF g] by (auto simp: skipStp_def)
  ultimately show ?thesis
    using ok q x unfolding sweep_ok_def
    by (simp add: sweep_ok_exact [OF ok q(1,2) big] trade_qty_def trades_of_append trades_of_three
        trade_event_projection trade_ok_def)
qed

lemma sweep_ok_pull: "sweep_ok inv mt ord st \<Longrightarrow> sweep_ok inv mt ord (pull_maker B h ord why m st)"
  by (auto simp: sweep_ok_def trade_qty_def event_simps inv_cancel)

lemma sweep_ok_hold:
  assumes ok: "sweep_ok inv mt ord st" and q: "0 < q" "q \<le> sw_leaves st" "q \<le> ro_leaves m"
    and m: "bk_peekBest B (sw_book st) (opposite (no_side ord)) = Some m"
    and big: "no_quantity ord \<le> i64_max"
  shows "sweep_ok inv mt ord (fifo_hold B h ord prior m q f st)"
proof -
  have "dec_sub (sw_leaves st) q = sw_leaves st - q" using sweep_ok_exact [OF ok q(1,2) big] by simp
  moreover have "inv (bk_fillBest B (sw_book st) (opposite (no_side ord)) q)"
    using ok q m by (auto simp: sweep_ok_def intro: inv_fill)
  ultimately show ?thesis using ok q by (simp add: sweep_ok_def)
qed

lemma sweep_ok_decrement:
  assumes ok: "sweep_ok inv mt ord st" and l: "0 < sw_leaves st"
    and m: "m \<in> set (orders (sw_book st) s')"
    and d: "stp_decrement B h ord m st = (so, st1)"
  shows "sweep_ok inv mt ord st1"
proof -
  note s = stp_decrement_sel [OF d]
  have i: "inv (sw_book st)" using ok by (simp add: sweep_ok_def)
  then have "0 < total_qty m" using m member_wf total_qty_pos by blast
  then have "inv (sw_book st1)" using inv_cancel [OF i] inv_trim [OF i m] l by (simp add: s(9))
  moreover have "sw_leaves st1 \<le> sw_leaves st" "0 \<le> sw_leaves st1"
    using l \<open>0 < total_qty m\<close> by (auto simp: s(6) qmin_def)
  ultimately show ?thesis using ok by (simp add: sweep_ok_def trade_qty_def s(1,2,7))
qed

lemma sweep_ok_flags [simp]:
  "sweep_ok inv mt ord (st\<lparr>sw_stop := x\<rparr>) = sweep_ok inv mt ord st"
  "sweep_ok inv mt ord (st\<lparr>sw_stp := x\<rparr>) = sweep_ok inv mt ord st"
  "sweep_ok inv mt ord (st\<lparr>sw_risk := y\<rparr>) = sweep_ok inv mt ord st"
  "sweep_ok inv mt ord (st\<lparr>sw_mt := (sw_mt st)\<lparr>mt_planCursor := c\<rparr>\<rparr>) = sweep_ok inv mt ord st"
  by (simp_all add: sweep_ok_def)

lemma sweep_ok_act:
  assumes "fifo_act B h ord prior st st'" "sweep_ok inv mt ord st" "0 < sw_leaves st" "hooks_ok inv h"
    "no_quantity ord \<le> i64_max"
  shows "sweep_ok inv mt ord st'"
proof -
  have i: "inv (sw_book st)" using assms(2) by (simp add: sweep_ok_def)
  have res: "sweep_ok inv mt ord (st\<lparr>sw_book := b', sw_env := e'\<rparr>)"
    if "hk_restingHolds h = Some f" "f j (sw_book st) (sw_env st) = (True, b', e')" for f j b' e'
    using that assms(2,4) i unfolding hooks_ok_def sweep_ok_def by fastforce
  from assms(1) show ?thesis
  proof cases
    case (block_resolved m f b' e' c)
    then show ?thesis using res [of f "ro_id m" b' e'] by (simp add: sweep_ok_def)
  next
    case (stp_dec m so st1)
    then show ?thesis using sweep_ok_decrement [OF assms(2,3) peek_mem [OF i stp_dec(2)] stp_dec(6)] by simp
  next
    case (maker_blocked m lim st1)
    then show ?thesis using assms(2) fifo_limit_cursor [OF maker_blocked(5)] by (auto intro!: sweep_ok_pull)
  next
    case (taker_blocked m lim st1)
    then show ?thesis using assms(2) fifo_limit_cursor [OF taker_blocked(4)] by auto
  next
    case (held m want lim st1 f)
    then show ?thesis
      using assms(2,5) fifo_limit_cursor [OF held(7)] bite_bounds [OF i assms(4,3) held(2,5,7,8)]
      by (auto intro!: sweep_ok_hold)
  next
    case (traded m want lim st1)
    then show ?thesis
      using assms(2,5) fifo_limit_cursor [OF traded(7)] bite_bounds [OF i assms(4,3) traded(2,5,7,8)]
      by (auto intro!: sweep_ok_trade simp: skipStp_def)
  qed (use assms res in \<open>auto intro: sweep_ok_pull\<close>)
qed

lemma sweep_ok_loop:
  assumes "fifo_loop B h ord prior st = Some st'" "sweep_ok inv mt ord st" "hooks_ok inv h" "no_quantity ord \<le> i64_max"
  shows "sweep_ok inv mt ord st' \<and> \<not> sweep_going st'"
proof -
  have "sweep_ok inv mt ord (fifo_step B h ord prior s)" if "sweep_ok inv mt ord s" "sweep_going s" for s
  proof -
    have "inv (sw_book s)" "0 < sw_leaves s" using that by (auto simp: sweep_ok_def sweep_going_def)
    then show ?thesis using fifo_step_act [OF assms(3)] sweep_ok_act [OF _ that(1) _ assms(3,4)] by blast
  qed
  then show ?thesis using fifo_loop_invariant [of B h ord prior st st' "sweep_ok inv mt ord"] assms(1,2) by blast
qed

subsection \<open>The sweep ends\<close>

text \<open>
  Every iteration stops the sweep, or takes at least one order off the opposite side, or
  lowers what is left of the aggressor. Without a resting-hold hook (last look off) nothing
  puts quantity back, so the sum of the two bounds the number of iterations.
\<close>

definition sweep_measure :: "new_order \<Rightarrow> ('b, 'e) sweep \<Rightarrow> nat" where
  "sweep_measure ord st = (if sw_stop st then 0 else 1) + nat (sw_leaves st)
     + List.length (orders (sw_book st) (opposite (no_side ord)))"

lemma length_consume:
  "distinct (map ro_id (r # rs)) \<Longrightarrow> List.length (spec_consume s (ro_id r) q (r # rs)) \<le> List.length (r # rs)"
proof -
  have "List.length (spec_insert s x ys) = Suc (List.length ys)" for x ys by (induction ys) auto
  then show "distinct (map ro_id (r # rs)) \<Longrightarrow> List.length (spec_consume s (ro_id r) q (r # rs)) \<le> List.length (r # rs)"
    by (simp add: spec_consume_head)
qed

lemma fill_length:
  assumes "inv b" "bk_peekBest B b s = Some m" "0 < q" "q \<le> ro_leaves m"
  shows "List.length (orders (bk_fillBest B b s q) s) \<le> List.length (orders b s)"
proof -
  obtain ms where o: "orders b s = m # ms" using peek_head assms by blast
  have "distinct (map ro_id (m # ms))" using book_ok_distinct [OF inv_ok [OF assms(1)], of s] o by simp
  then show ?thesis using filled [OF assms(1) o assms(3,4)] length_consume o by simp
qed

lemma cancel_length:
  assumes "inv b" "bk_peekBest B b s = Some m"
  shows "List.length (orders (snd (bk_cancel B b (ro_id m))) s) < List.length (orders b s)"
proof -
  obtain ms where o: "orders b s = m # ms" using peek_head assms by blast
  then show ?thesis using canceled [OF assms(1), of "ro_id m" s]
    by (simp add: spec_remove_def le_imp_less_Suc)
qed

lemma measure_act:
  assumes "fifo_act B h ord prior st st'" "sweep_ok inv mt ord st" "sweep_going st" "hooks_ok inv h"
    "no_quantity ord \<le> i64_max" "hk_restingHolds h = None"
  shows "sweep_measure ord st' < sweep_measure ord st"
proof -
  have i: "inv (sw_book st)" and l: "0 < sw_leaves st" and ns: "\<not> sw_stop st"
    using assms(2,3) by (auto simp: sweep_ok_def sweep_going_def)
  from assms(1) show ?thesis
  proof cases
    case (stp_dec m so st1)
    have "0 < total_qty m" using i stp_dec(2) peek_wf total_qty_pos by blast
    moreover have "List.length (orders (sw_book st1) (opposite (no_side ord)))
        \<le> List.length (orders (sw_book st) (opposite (no_side ord)))"
      using stp_decrement_sel(9) [OF stp_dec(6)] cancel_length [OF i stp_dec(2)] l
        trimmed [OF i peek_mem [OF i stp_dec(2)]] by (auto simp: spec_replace_def)
    ultimately show ?thesis
      using stp_dec(1) stp_decrement_sel [OF stp_dec(6)] l ns by (auto simp: sweep_measure_def qmin_def)
  next
    case (maker_blocked m lim st1)
    then show ?thesis using cancel_length [OF i maker_blocked(2)] fifo_limit_cursor [OF maker_blocked(5)]
      by (auto simp: sweep_measure_def)
  next
    case (taker_blocked m lim st1)
    then show ?thesis using fifo_limit_cursor [OF taker_blocked(4)] ns by (auto simp: sweep_measure_def)
  next
    case (held m want lim st1 f)
    note bb = bite_bounds [OF i assms(4) l held(2,5,7,8)]
    then show ?thesis using held fill_length [OF i held(2) bb(1,3)] fifo_limit_cursor [OF held(7)]
        sweep_ok_exact(1) [OF assms(2) bb(1,2) assms(5)] ns
      by (auto simp: sweep_measure_def)
  next
    case (traded m want lim st1)
    note bb = bite_bounds [OF i assms(4) l traded(2,5,7,8)]
    then show ?thesis using traded fill_length [OF i traded(2) bb(1,3)] fifo_limit_cursor [OF traded(7)]
        sweep_ok_exact(1) [OF assms(2) bb(1,2) assms(5)] ns
      by (auto simp: sweep_measure_def)
  next
    case (stp_oldest m)
    then show ?thesis using cancel_length [OF i stp_oldest(2)] by (simp add: sweep_measure_def)
  next
    case (stp_both m)
    then show ?thesis using cancel_length [OF i stp_both(2)] ns by (simp add: sweep_measure_def)
  qed (use assms(6) ns in \<open>auto simp: sweep_measure_def\<close>)
qed

lemma fifo_loop_returns:
  fixes h :: "('b, 'e) hooks"
  assumes "sweep_ok inv mt ord st" "hooks_ok inv h" "no_quantity ord \<le> i64_max" "hk_restingHolds h = None"
  shows "\<exists>st'. fifo_loop B h ord prior st = Some st'"
  unfolding fifo_loop_def
proof (rule measure_while_option_Some [where P = "sweep_ok inv mt ord" and f = "sweep_measure ord"])
  fix s :: "('b, 'e) sweep"
  assume s: "sweep_ok inv mt ord s" "sweep_going s"
  then have "fifo_act B h ord prior s (fifo_step B h ord prior s)"
    using fifo_step_act [OF assms(2)] by (auto simp: sweep_ok_def)
  then show "sweep_ok inv mt ord (fifo_step B h ord prior s)
      \<and> sweep_measure ord (fifo_step B h ord prior s) < sweep_measure ord s"
    using sweep_ok_act [OF _ s(1) _ assms(2,3)] measure_act [OF _ s assms(2-4)] s
    by (auto simp: sweep_ok_def [of inv mt ord s] sweep_going_def)
qed (fact assms(1))

subsection \<open>Where the quantity goes, and at which prices\<close>

text \<open>
  \<open>flow_ok\<close>: the aggressor's own side of the book is untouched, and what the other side lost is
  exactly what the aggressor took plus what was reported as cancelled. \<open>price_ok\<close>: trades
  print in price order and no order left on the book is better priced than a trade.
\<close>

definition flow_ok :: "new_order \<Rightarrow> resting_order list \<Rightarrow> int \<Rightarrow> ('b, 'e) sweep \<Rightarrow> bool" where
  "flow_ok ord own tot st \<longleftrightarrow> orders (sw_book st) (no_side ord) = own
     \<and> resting_total (orders (sw_book st) (opposite (no_side ord))) + (no_quantity ord - sw_leaves st)
         + cancel_qty (sw_events st) = tot"

definition price_ok :: "new_order \<Rightarrow> ('b, 'e) sweep \<Rightarrow> bool" where
  "price_ok ord st \<longleftrightarrow>
     sorted_wrt (\<lambda>t u. \<not> before (opposite (no_side ord)) (tr_price u) (tr_price t)) (trades_of (sw_events st))
     \<and> (\<forall>t \<in> set (trades_of (sw_events st)). \<forall>r \<in> set (orders (sw_book st) (opposite (no_side ord))).
          \<not> before (opposite (no_side ord)) (ro_price r) (tr_price t))"

lemma head_side:
  assumes "inv b" "bk_peekBest B b s = Some m"
  shows "side_ok s (orders b s)" "distinct (map ro_id (orders b s))" "m \<in> set (orders b s)"
  using assms by (auto intro: book_ok_side book_ok_distinct inv_ok peek_mem)

lemma other_side_kept:
  assumes "inv b" "bk_peekBest B b s = Some m"
  shows "orders (snd (bk_cancel B b (ro_id m))) (opposite s) = orders b (opposite s)"
    and "0 < q \<Longrightarrow> q \<le> ro_leaves m \<Longrightarrow> orders (bk_fillBest B b s q) (opposite s) = orders b (opposite s)"
proof -
  have "ro_id m \<notin> ro_id ` set (orders b (opposite s))"
    using book_ok_disjoint [OF inv_ok [OF assms(1)], of s] peek_mem [OF assms] by blast
  then show "orders (snd (bk_cancel B b (ro_id m))) (opposite s) = orders b (opposite s)"
    using canceled [OF assms(1)] by (simp add: spec_remove_absent)
  show "0 < q \<Longrightarrow> q \<le> ro_leaves m \<Longrightarrow> orders (bk_fillBest B b s q) (opposite s) = orders b (opposite s)"
    using filled [OF assms(1)] peek_head [OF assms] by blast
qed

lemma fill_head:
  assumes "inv b" "bk_peekBest B b s = Some m" "0 < q" "q \<le> ro_leaves m"
  shows "orders (bk_fillBest B b s q) s = spec_consume s (ro_id m) q (orders b s)"
  using filled [OF assms(1) _ assms(3,4)] peek_head [OF assms(1,2)] by blast

lemma cancel_head:
  "inv b \<Longrightarrow> orders (snd (bk_cancel B b i)) s = spec_remove i (orders b s)"
  using canceled by blast

lemma flow_bite:
  assumes "inv (sw_book st)" "bk_peekBest B (sw_book st) (opposite (no_side ord)) = Some m"
    and "0 < q" "q \<le> ro_leaves m" "flow_ok ord own tot st"
    and "sw_book st' = bk_fillBest B (sw_book st) (opposite (no_side ord)) q"
    and "sw_leaves st' = sw_leaves st - q" "cancel_qty (sw_events st') = cancel_qty (sw_events st)"
  shows "flow_ok ord own tot st'"
  using assms(5-) other_side_kept(2) [OF assms(1-4)] fill_head [OF assms(1-4)]
    resting_total_consume [OF head_side [OF assms(1,2)] assms(3,4)]
  by (simp add: flow_ok_def)

lemma flow_pull:
  assumes "inv (sw_book st)" "bk_peekBest B (sw_book st) (opposite (no_side ord)) = Some m" "flow_ok ord own tot st"
  shows "flow_ok ord own tot (pull_maker B h ord why m st)"
  using assms(3) other_side_kept(1) [OF assms(1,2)] cancel_head [OF assms(1)]
    resting_total_remove [OF head_side(2,3) [OF assms(1,2)]]
  by (simp add: flow_ok_def cancel_qty_def cancels_of_append cancel_event_projection)

lemma flow_act:
  assumes "fifo_act B h ord prior st st'" "sweep_ok inv mt ord st" "0 < sw_leaves st" "hooks_ok inv h"
    "no_quantity ord \<le> i64_max" "hk_restingHolds h = None" "no_stp ord \<noteq> Decrement" "flow_ok ord own tot st"
  shows "flow_ok ord own tot st'"
proof -
  have i: "inv (sw_book st)" using assms(2) by (auto simp: sweep_ok_def)
  from assms(1) show ?thesis
  proof cases
    case (maker_blocked m lim st1)
    obtain c where c: "st1 = st\<lparr>sw_mt := (sw_mt st)\<lparr>mt_planCursor := c\<rparr>\<rparr>"
      using fifo_limit_cursor [OF maker_blocked(5)] by blast
    then have "flow_ok ord own tot st1" using assms(8) by (simp add: flow_ok_def)
    then show ?thesis using maker_blocked(1,2) c i flow_pull [of st1 ord m] by simp
  next
    case (taker_blocked m lim st1)
    then show ?thesis using fifo_limit_cursor [OF taker_blocked(4)] assms(8) by (auto simp: flow_ok_def)
  next
    case (held m want lim st1 f)
    note bb = bite_bounds [OF i assms(4,3) held(2,5,7,8)]
    show ?thesis unfolding held(1) using fifo_limit_cursor [OF held(7)] sweep_ok_exact(1) [OF assms(2) bb(1,2) assms(5)]
      by (intro flow_bite [OF i held(2) bb(1,3) assms(8)]) auto
  next
    case (traded m want lim st1)
    note bb = bite_bounds [OF i assms(4,3) traded(2,5,7,8)]
    show ?thesis unfolding traded(1) using fifo_limit_cursor [OF traded(7)] sweep_ok_exact(1) [OF assms(2) bb(1,2) assms(5)]
      by (intro flow_bite [OF i traded(2) bb(1,3) assms(8)])
        (auto simp: cancel_qty_def cancels_of_append trades_of_three)
  next
    case (stp_oldest m)
    then show ?thesis using flow_pull [OF i stp_oldest(2) assms(8)] by simp
  next
    case (stp_both m)
    then show ?thesis using flow_pull [OF i stp_both(2) assms(8)] by (simp add: flow_ok_def)
  qed (use assms(6-8) in \<open>auto simp: flow_ok_def\<close>)
qed

lemma prices_shrink_fill:
  assumes "inv b" "bk_peekBest B b s = Some m" "0 < q" "q \<le> ro_leaves m"
  shows "ro_price ` set (orders (bk_fillBest B b s q) s) \<subseteq> ro_price ` set (orders b s)"
  using consume_fields [OF head_side [OF assms(1,2)] assms(3,4)] by (fastforce simp: fill_head [OF assms])

lemma price_ok_smaller:
  assumes "price_ok ord st" "trades_of (sw_events st') = trades_of (sw_events st)"
    and "ro_price ` set (orders (sw_book st') (opposite (no_side ord)))
      \<subseteq> ro_price ` set (orders (sw_book st) (opposite (no_side ord)))"
  shows "price_ok ord st'"
proof -
  have "\<exists>r' \<in> set (orders (sw_book st) (opposite (no_side ord))). ro_price r = ro_price r'"
    if "r \<in> set (orders (sw_book st') (opposite (no_side ord)))" for r
    using assms(3) that by auto
  then show ?thesis using assms(1) unfolding price_ok_def assms(2) by metis
qed

lemma price_ok_pull:
  assumes "inv (sw_book st)" "price_ok ord st"
  shows "price_ok ord (pull_maker B h ord why m st)"
  using assms(2) by (rule price_ok_smaller) (auto simp: trades_of_append report_projections cancel_head [OF assms(1)])

lemma price_ok_trade:
  assumes "inv (sw_book st)" "bk_peekBest B (sw_book st) (opposite (no_side ord)) = Some m"
    "0 < q" "q \<le> ro_leaves m" "price_ok ord st"
  shows "price_ok ord (fifo_trade B h ord prior m q st)"
proof -
  let ?s = "opposite (no_side ord)"
  have best: "\<not> before ?s (ro_price r) (ro_price m)" if "r \<in> set (orders (sw_book st) ?s)" for r
    using head_side(1) [OF assms(1,2)] peek_head [OF assms(1,2)] that by (auto simp: side_ok_Cons)
  have sub: "ro_price ` set (orders (bk_fillBest B (sw_book st) ?s q) ?s) \<subseteq> ro_price ` set (orders (sw_book st) ?s)"
    using assms(1-4) by (rule prices_shrink_fill)
  have "r \<in> set (orders (bk_fillBest B (sw_book st) ?s q) ?s) \<Longrightarrow> \<exists>r' \<in> set (orders (sw_book st) ?s). ro_price r = ro_price r'"
    for r using sub by auto
  then show ?thesis
    using assms(5) best head_side(3) [OF assms(1,2)]
    by (fastforce simp: price_ok_def trades_of_append trades_of_three trade_event_projection sorted_wrt_append)
qed

lemma price_act:
  assumes "fifo_act B h ord prior st st'" "sweep_ok inv mt ord st" "0 < sw_leaves st" "hooks_ok inv h"
    "hk_restingHolds h = None" "price_ok ord st"
  shows "price_ok ord st'"
proof -
  have i: "inv (sw_book st)" using assms(2) by (auto simp: sweep_ok_def)
  from assms(1) show ?thesis
  proof cases
    case (stp_dec m so st1)
    have "ro_price ` set (orders (sw_book st1) (opposite (no_side ord)))
        \<subseteq> ro_price ` set (orders (sw_book st) (opposite (no_side ord)))"
      using stp_decrement_sel(9) [OF stp_dec(6)] cancel_head [OF i] assms(3)
        trimmed [OF i peek_mem [OF i stp_dec(2)]] by (auto simp: spec_replace_def)
    then have "price_ok ord st1"
      by (rule price_ok_smaller [OF assms(6) stp_decrement_sel(7) [OF stp_dec(6)]])
    then show ?thesis using stp_dec(1) by (simp add: price_ok_def)
  next
    case (maker_blocked m lim st1)
    have "price_ok ord st1" "sw_book st1 = sw_book st"
      using fifo_limit_cursor [OF maker_blocked(5)] assms(6) by (auto simp: price_ok_def)
    then show ?thesis using price_ok_pull [of st1 ord] maker_blocked(1) i by simp
  next
    case (held m want lim st1 f)
    note bb = bite_bounds [OF i assms(4,3) held(2,5,7,8)]
    show ?thesis using fifo_limit_cursor [OF held(7)] prices_shrink_fill [OF i held(2) bb(1,3)] unfolding held(1)
      by (intro price_ok_smaller [OF assms(6)]) auto
  next
    case (traded m want lim st1)
    note bb = bite_bounds [OF i assms(4,3) traded(2,5,7,8)]
    have "price_ok ord st1" "sw_book st1 = sw_book st"
      using fifo_limit_cursor [OF traded(7)] assms(6) by (auto simp: price_ok_def)
    then show ?thesis using price_ok_trade [of st1 ord m] traded(1,2) bb i by simp
  next
    case (stp_both m)
    then show ?thesis using price_ok_pull [OF i assms(6)] by (simp add: price_ok_def)
  next
    case (taker_blocked m lim st1)
    then show ?thesis using fifo_limit_cursor [OF taker_blocked(4)] assms(6) by (auto simp: price_ok_def)
  qed (use assms(5,6) i price_ok_pull in \<open>auto simp: price_ok_def\<close>)
qed

subsection \<open>Price-time priority against the reference allocation\<close>

definition greedy_ok :: "new_order \<Rightarrow> (nat \<times> int \<times> int) list \<Rightarrow> ('b, 'e) sweep \<Rightarrow> bool" where
  "greedy_ok ord all st \<longleftrightarrow>
     fills_of (sw_events st) @ greedy_fills ord (sw_leaves st) (orders (sw_book st) (opposite (no_side ord))) = all
     \<and> (sw_stop st \<longrightarrow> greedy_fills ord (sw_leaves st) (orders (sw_book st) (opposite (no_side ord))) = [])
     \<and> (\<forall>r \<in> set (orders (sw_book st) (opposite (no_side ord))). ro_hidden r = 0)
     \<and> \<not> mt_planActive (sw_mt st)"

lemma greedy_act:
  assumes "fifo_act B h ord prior st st'" "sweep_ok inv mt ord st" "0 < sw_leaves st" "plain_hooks h"
    "no_quantity ord \<le> i64_max" "no_stp ord = StpNone" "greedy_ok ord all st" "\<not> sw_stop st"
  shows "greedy_ok ord all st'"
proof -
  have i: "inv (sw_book st)" using assms(2) by (auto simp: sweep_ok_def)
  have hk: "hk_restingHolds h = None" "hk_fillLimit h = None" "hk_lastLook h = None"
    using assms(4) by (simp_all add: plain_hooks_def)
  have np: "\<not> mt_planActive (sw_mt st)" using assms(7) by (simp add: greedy_ok_def)
  from assms(1) show ?thesis
  proof cases
    case no_maker
    then show ?thesis using assms(7) peek [OF i] by (auto simp: greedy_ok_def split: list.splits)
  next
    case (no_cross m)
    then obtain ms where "orders (sw_book st) (opposite (no_side ord)) = m # ms" using peek_head i by blast
    then show ?thesis using assms(7) no_cross by (simp add: greedy_ok_def)
  next
    case (empty_maker m)
    then show ?thesis using peek_wf [OF i empty_maker(2)] assms(3) by (simp add: wf_order_def qmin_def split: if_splits)
  next
    case (traded m want lim st1)
    then have st1: "st1 = st" "lim = None" using np hk by (auto simp: fifo_limit_def)
    let ?q = "min (sw_leaves st) (ro_leaves m)" and ?s = "opposite (no_side ord)"
    have q: "bite_allowance want lim = ?q" using traded(5) st1 by (simp add: bite_allowance_def qmin_min)
    obtain ms where o: "orders (sw_book st) ?s = m # ms" using peek_head i traded(2) by blast
    have wf: "wf_order m" using i o by (rule head_wf)
    then have qq: "0 < ?q" "?q \<le> ro_leaves m" using assms(3) by (auto simp: wf_order_def)
    have d: "distinct (map ro_id (m # ms))" using book_ok_distinct [OF inv_ok [OF i], of ?s] o by simp
    have h0: "ro_hidden m = 0" using assms(7) o by (simp add: greedy_ok_def)
    have after: "orders (bk_fillBest B (sw_book st) ?s ?q) ?s = (if ?q < ro_leaves m then hit ?q m # ms else ms)"
      using fill_head [OF i traded(2) qq] h0 hit_leaves [OF wf, of ?q] qq by (auto simp: o spec_consume_head [OF d])
    have lv: "dec_sub (sw_leaves st) ?q = sw_leaves st - ?q"
      using sweep_ok_exact(1) [OF assms(2) _ _ assms(5), of ?q] qq by simp
    show ?thesis
      using assms(3,7,8) traded(3) qq np
      unfolding traded(1) q greedy_ok_def
      by (auto simp: st1 after lv o h0 greedy_none fills_of_def trades_of_append trades_of_three trade_event_projection
          spendPlan_def)
  qed (use hk assms(6) np in \<open>auto simp: skipStp_def fifo_limit_def\<close>)
qed

end

end
