(* ===== verification/FillOrKill.thy ===== *)
theory FillOrKill
  imports Fifo
begin

section \<open>The all-or-none promise\<close>

text \<open>
  \<^verbatim>\<open>Matcher::planFillOrKill\<close> decides every bite before the first trade prints and the sweep
  spends that plan. This theory shows that the plan is enough: while it is in force, the
  allowances of the eligible makers still on the book cover what is left of the order
  (\<open>plan_covers\<close>), every rule of the sweep keeps it that way, and so the sweep can only end
  with nothing left.
\<close>

definition allow :: "matcher \<Rightarrow> nat \<Rightarrow> int" where
  "allow mt i = (case find (\<lambda>b. pb_maker b = i) (mt_plan mt) of None \<Rightarrow> 0 | Some b \<Rightarrow> pb_allowedRaw b)"

definition eligible :: "matcher \<Rightarrow> new_order \<Rightarrow> resting_order \<Rightarrow> bool" where
  "eligible mt ord m \<longleftrightarrow> crosses (no_side ord) (no_price ord) (no_type ord) (ro_price m) \<and> \<not> skipStp mt ord m"

subsection \<open>Looking up and spending the plan\<close>

lemma distinct_find_nth:
  assumes "distinct (map f xs)" "k < List.length xs"
  shows "find (\<lambda>x. f x = f (xs ! k)) xs = Some (xs ! k)"
  using assms
proof (induction xs arbitrary: k)
  case (Cons x xs)
  then show ?case by (cases k) (auto simp: image_iff)
qed simp

lemma rotation_covers:
  fixes n :: nat
  assumes "k < n" shows "\<exists>i < n. (c + i) mod n = k"
proof -
  have "(c + (k + (n - c mod n)) mod n) mod n = (c mod n + (k + (n - c mod n))) mod n"
    by (metis mod_add_eq mod_add_right_eq mod_mod_trivial)
  also have "c mod n + (k + (n - c mod n)) = k + n" using assms mod_less_divisor [of n c] by linarith
  finally show ?thesis using assms by (intro exI [of _ "(k + (n - c mod n)) mod n"]) simp
qed

lemma plannedBite_finds:
  assumes d: "distinct (map pb_maker (mt_plan mt))" and i: "i \<in> pb_maker ` set (mt_plan mt)"
  shows "\<exists>k < List.length (mt_plan mt). pb_maker (mt_plan mt ! k) = i
    \<and> plannedBite mt i = (Some (mt_plan mt ! k), mt\<lparr>mt_planCursor := k\<rparr>)"
proof -
  let ?n = "List.length (mt_plan mt)"
  let ?ix = "map (\<lambda>j. (mt_planCursor mt + j) mod ?n) [0..<?n]"
  obtain k where k: "k < ?n" "pb_maker (mt_plan mt ! k) = i" using i by (auto simp: in_set_conv_nth)
  then have "k \<in> set ?ix" using rotation_covers [of k ?n "mt_planCursor mt"] by fastforce
  then obtain a where a: "find (\<lambda>at. pb_maker (mt_plan mt ! at) = i) ?ix = Some a"
    using k by (cases "find (\<lambda>at. pb_maker (mt_plan mt ! at) = i) ?ix") (auto simp: find_None_iff)
  then have "a \<in> set ?ix" "pb_maker (mt_plan mt ! a) = i" by (auto simp: find_Some_iff)
  moreover have "0 < ?n" using k by linarith
  ultimately have "a < ?n" by (auto simp del: length_greater_0_conv)
  with a \<open>pb_maker (mt_plan mt ! a) = i\<close> show ?thesis by (auto simp: plannedBite_def)
qed

lemma allow_nth:
  "distinct (map pb_maker (mt_plan mt)) \<Longrightarrow> k < List.length (mt_plan mt) \<Longrightarrow>
   allow mt (pb_maker (mt_plan mt ! k)) = pb_allowedRaw (mt_plan mt ! k)"
  by (simp add: allow_def distinct_find_nth)

lemma allow_cursor [simp]: "allow (mt\<lparr>mt_planCursor := c\<rparr>) = allow mt"
  by (simp add: allow_def fun_eq_iff)

lemma map_update_same:
  "k < List.length xs \<Longrightarrow> f y = f (xs ! k) \<Longrightarrow> map f (xs[k := y]) = map f xs"
  by (metis list_update_id map_update)

lemma spendPlan_spends:
  assumes d: "distinct (map pb_maker (mt_plan mt))" and i: "i \<in> pb_maker ` set (mt_plan mt)"
    and act: "mt_planActive mt" and q: "0 < q" "q \<le> allow mt i"
  shows "map pb_maker (mt_plan (spendPlan mt i q)) = map pb_maker (mt_plan mt)"
    and "allow (spendPlan mt i q) = (allow mt)(i := allow mt i - q)"
proof -
  obtain k where k: "k < List.length (mt_plan mt)" "pb_maker (mt_plan mt ! k) = i"
    "plannedBite mt i = (Some (mt_plan mt ! k), mt\<lparr>mt_planCursor := k\<rparr>)"
    using plannedBite_finds [OF d i] by blast
  let ?b = "mt_plan mt ! k"
  let ?b' = "?b\<lparr>pb_allowedRaw := pb_allowedRaw ?b - q\<rparr>"
  have al: "allow mt i = pb_allowedRaw ?b" using allow_nth [OF d k(1)] k(2) by simp
  then have eq: "mt_plan (spendPlan mt i q) = (mt_plan mt)[k := ?b']"
    using act q k(3) by (simp add: spendPlan_def min_def)
  show m: "map pb_maker (mt_plan (spendPlan mt i q)) = map pb_maker (mt_plan mt)"
    using k(1) by (simp add: eq map_update_same)
  have d': "distinct (map pb_maker (mt_plan (spendPlan mt i q)))" using d m by simp
  show "allow (spendPlan mt i q) = (allow mt)(i := allow mt i - q)"
  proof
    fix j
    show "allow (spendPlan mt i q) j = ((allow mt)(i := allow mt i - q)) j"
    proof (cases "j \<in> pb_maker ` set (mt_plan mt)")
      case True
      then obtain l where l: "l < List.length (mt_plan mt)" "pb_maker (mt_plan mt ! l) = j" by (auto simp: in_set_conv_nth)
      have lk: "l = k \<longleftrightarrow> j = i" using d k(1,2) l by (auto simp: distinct_conv_nth)
      have "pb_maker (mt_plan (spendPlan mt i q) ! l) = j" "l < List.length (mt_plan (spendPlan mt i q))"
        using l m by (metis length_map nth_map, simp add: eq)
      then have "allow (spendPlan mt i q) j = pb_allowedRaw ((mt_plan mt)[k := ?b'] ! l)"
        using allow_nth [OF d', of l] eq by simp
      also have "\<dots> = (if j = i then allow mt i - q else pb_allowedRaw (mt_plan mt ! l))"
        using lk k(1) al by (cases "l = k") simp_all
      finally show ?thesis using allow_nth [OF d l(1)] l(2) by simp
    next
      case False
      then have "find (\<lambda>b. pb_maker b = j) (mt_plan mt) = None" by (auto simp: find_None_iff)
      moreover have "j \<notin> pb_maker ` set (mt_plan (spendPlan mt i q))" using False m by (metis set_map)
      then have "find (\<lambda>b. pb_maker b = j) (mt_plan (spendPlan mt i q)) = None" by (auto simp: find_None_iff)
      moreover have "j \<noteq> i" using False i by blast
      ultimately show ?thesis by (simp add: allow_def)
    qed
  qed
qed

lemma plannedFillLimit_spec:
  assumes d: "distinct (map pb_maker (mt_plan mt))" and i: "ro_id m \<in> pb_maker ` set (mt_plan mt)"
    and "plannedFillLimit h m ord want e mt = (lim, mt')" and "0 < want"
  shows "fl_qty lim = max 0 (min want (allow mt (ro_id m)))" and "fl_makerBlocked lim \<longleftrightarrow> fl_qty lim = 0"
proof -
  obtain k where k: "k < List.length (mt_plan mt)" "pb_maker (mt_plan mt ! k) = ro_id m"
    "plannedBite mt (ro_id m) = (Some (mt_plan mt ! k), mt\<lparr>mt_planCursor := k\<rparr>)"
    using plannedBite_finds [OF d i] by blast
  moreover have "allow mt (ro_id m) = pb_allowedRaw (mt_plan mt ! k)" using allow_nth [OF d k(1)] k(2) by simp
  ultimately show "fl_qty lim = max 0 (min want (allow mt (ro_id m)))" "fl_makerBlocked lim \<longleftrightarrow> fl_qty lim = 0"
    using assms(3) by (auto simp: plannedFillLimit_def Let_def)
qed

subsection \<open>The invariant\<close>

definition eligible_ids :: "matcher \<Rightarrow> new_order \<Rightarrow> resting_order list \<Rightarrow> nat set" where
  "eligible_ids mt ord rs = ro_id ` {m \<in> set rs. eligible mt ord m}"

definition plan_ok :: "('b, 'e) hooks \<Rightarrow> matcher \<Rightarrow> new_order \<Rightarrow> resting_order list \<Rightarrow> bool" where
  "plan_ok h mt ord rs \<longleftrightarrow> mt_planActive mt \<and> distinct (map pb_maker (mt_plan mt))
     \<and> (\<forall>m \<in> set rs. eligible mt ord m \<longrightarrow> ro_id m \<in> pb_maker ` set (mt_plan mt)
          \<and> 0 \<le> allow mt (ro_id m) \<and> allow mt (ro_id m) \<le> total_qty m
          \<and> \<not> (ro_lastLook m \<and> hk_lastLook h \<noteq> None))"

lemma finite_eligible [simp]: "finite (eligible_ids mt ord rs)"
  by (simp add: eligible_ids_def)

lemma eligible_cong: "mt_stpGroup mt = mt_stpGroup mt' \<Longrightarrow> eligible mt ord = eligible mt' ord"
  using stpScope_cong [of mt mt'] by (simp add: eligible_def skipStp_def fun_eq_iff)

lemma plan_ok_cursor [simp]: "plan_ok h (mt\<lparr>mt_planCursor := c\<rparr>) ord rs = plan_ok h mt ord rs"
  using eligible_cong [of "mt\<lparr>mt_planCursor := c\<rparr>" mt ord] by (simp add: plan_ok_def)

lemma eligible_ids_cursor [simp]: "eligible_ids (mt\<lparr>mt_planCursor := c\<rparr>) ord rs = eligible_ids mt ord rs"
  using eligible_cong [of "mt\<lparr>mt_planCursor := c\<rparr>" mt ord] by (simp add: eligible_ids_def)

lemma eligible_fields:
  "ro_price x = ro_price y \<Longrightarrow> ro_accountId x = ro_accountId y \<Longrightarrow> eligible mt ord x = eligible mt ord y"
  by (simp add: eligible_def skipStp_def)

lemma eligible_ids_consume:
  assumes ok: "side_ok s rs" "distinct (map ro_id rs)" "r \<in> set rs" "0 < q" "q \<le> ro_leaves r"
    and el: "eligible mt ord r"
  shows "eligible_ids mt ord (spec_consume s (ro_id r) q rs) =
    (if q < total_qty r then eligible_ids mt ord rs else eligible_ids mt ord rs - {ro_id r})"
proof -
  let ?i = "ro_id r" and ?rs' = "spec_consume s (ro_id r) q rs"
  note mem = consume_members [OF ok]
  have "x \<in> set ?rs' \<Longrightarrow> ro_id x = ?i \<Longrightarrow> eligible mt ord x" for x
    using mem(2) [of x] el eligible_fields [of x r mt ord] by simp
  then have C: "{x \<in> set ?rs'. ro_id x = ?i \<and> eligible mt ord x} = {x \<in> set ?rs'. ro_id x = ?i}" by blast
  have "ro_id ` {x \<in> set ?rs'. ro_id x = ?i} = (if q < total_qty r then {?i} else {})"
    using mem(3) by (auto simp: image_iff) metis
  moreover have "{x \<in> set ?rs'. eligible mt ord x} =
      {x \<in> set rs. ro_id x \<noteq> ?i \<and> eligible mt ord x} \<union> {x \<in> set ?rs'. ro_id x = ?i}"
    unfolding C [symmetric] by (subst mem(1)) blast
  ultimately have "eligible_ids mt ord ?rs' =
      ro_id ` {x \<in> set rs. ro_id x \<noteq> ?i \<and> eligible mt ord x} \<union> (if q < total_qty r then {?i} else {})"
    by (simp add: eligible_ids_def image_Un)
  also have "ro_id ` {x \<in> set rs. ro_id x \<noteq> ?i \<and> eligible mt ord x} = eligible_ids mt ord rs - {?i}"
    by (auto simp: eligible_ids_def)
  finally show ?thesis using el ok(3) by (auto simp: eligible_ids_def)
qed

lemma spend_plan_ok:
  assumes ok: "side_ok s rs" "distinct (map ro_id rs)" "r \<in> set rs" "0 < q" "q \<le> ro_leaves r"
    and plan: "plan_ok h mt ord rs" and el: "eligible mt ord r" and q: "q \<le> allow mt (ro_id r)"
  shows "plan_ok h (spendPlan mt (ro_id r) q) ord (spec_consume s (ro_id r) q rs)"
    and "allow (spendPlan mt (ro_id r) q) = (allow mt)(ro_id r := allow mt (ro_id r) - q)"
proof -
  let ?i = "ro_id r" and ?mt' = "spendPlan mt (ro_id r) q"
  have act: "mt_planActive mt" and d: "distinct (map pb_maker (mt_plan mt))"
    and i: "?i \<in> pb_maker ` set (mt_plan mt)" and al: "allow mt ?i \<le> total_qty r"
    and nl: "\<not> (ro_lastLook r \<and> hk_lastLook h \<noteq> None)"
    using plan el ok(3) by (auto simp: plan_ok_def)
  note sp = spendPlan_spends [OF d i act ok(4) q]
  show "allow ?mt' = (allow mt)(?i := allow mt ?i - q)" by (fact sp(2))
  have e': "eligible ?mt' ord = eligible mt ord" by (rule eligible_cong) simp
  have makers: "pb_maker ` set (mt_plan ?mt') = pb_maker ` set (mt_plan mt)" using sp(1) by (metis set_map)
  show "plan_ok h ?mt' ord (spec_consume s ?i q rs)"
    unfolding plan_ok_def e' makers sp(2)
  proof (intro conjI ballI impI)
    show "mt_planActive ?mt'" using act by simp
    show "distinct (map pb_maker (mt_plan ?mt'))" using d by (simp add: sp(1))
  next
    fix m assume m: "m \<in> set (spec_consume s ?i q rs)" and e: "eligible mt ord m"
    then have "(m \<in> set rs \<and> ro_id m \<noteq> ?i)
      \<or> (ro_id m = ?i \<and> total_qty m = total_qty r - q \<and> ro_lastLook m = ro_lastLook r)"
      using consume_members(1) [OF ok] consume_members(2) [OF ok m] by blast
    moreover have "m \<in> set rs \<Longrightarrow> ro_id m \<in> pb_maker ` set (mt_plan mt) \<and> 0 \<le> allow mt (ro_id m)
        \<and> allow mt (ro_id m) \<le> total_qty m \<and> \<not> (ro_lastLook m \<and> hk_lastLook h \<noteq> None)"
      using plan e unfolding plan_ok_def by blast
    ultimately show "ro_id m \<in> pb_maker ` set (mt_plan mt)"
      "0 \<le> ((allow mt)(?i := allow mt ?i - q)) (ro_id m)"
      "((allow mt)(?i := allow mt ?i - q)) (ro_id m) \<le> total_qty m"
      "\<not> (ro_lastLook m \<and> hk_lastLook h \<noteq> None)"
      using i al q nl by auto
  qed
qed

lemma spend_covers:
  assumes ok: "side_ok s rs" "distinct (map ro_id rs)" "r \<in> set rs" "0 < q" "q \<le> ro_leaves r"
    and plan: "plan_ok h mt ord rs" and el: "eligible mt ord r" and q: "q \<le> allow mt (ro_id r)"
  shows "sum (allow (spendPlan mt (ro_id r) q)) (eligible_ids (spendPlan mt (ro_id r) q) ord (spec_consume s (ro_id r) q rs))
    = sum (allow mt) (eligible_ids mt ord rs) - q"
proof -
  let ?i = "ro_id r" and ?mt' = "spendPlan mt (ro_id r) q"
  have iE: "?i \<in> eligible_ids mt ord rs" using el ok(3) by (auto simp: eligible_ids_def)
  have "eligible_ids ?mt' = eligible_ids mt"
    using eligible_cong [of ?mt' mt] by (simp add: eligible_ids_def fun_eq_iff)
  then have ids: "eligible_ids ?mt' ord (spec_consume s ?i q rs)
      = (if q < total_qty r then eligible_ids mt ord rs else eligible_ids mt ord rs - {?i})"
    by (simp add: eligible_ids_consume [OF ok el])
  show ?thesis
  proof (cases "q < total_qty r")
    case True
    then show ?thesis using iE by (simp add: ids spend_plan_ok(2) [OF ok plan el q] sum.remove [of _ ?i])
  next
    case False
    then have "allow mt ?i = q" using plan el ok(3) q by (force simp: plan_ok_def)
    then show ?thesis using False iE by (simp add: ids spend_plan_ok(2) [OF ok plan el q] sum.remove [of _ ?i])
  qed
qed

subsection \<open>What the precheck writes down\<close>

definition counted :: "('b, 'e) hooks \<Rightarrow> matcher \<Rightarrow> new_order \<Rightarrow> resting_order \<Rightarrow> bool" where
  "counted h mt ord m \<longleftrightarrow> \<not> ((hk_lastLook h \<noteq> None \<and> ro_lastLook m) \<or> skipStp mt ord m)"

definition bite_for :: "resting_order \<Rightarrow> planned_bite \<Rightarrow> bool" where
  "bite_for m b \<longleftrightarrow> pb_maker b = ro_id m \<and> 0 \<le> pb_allowedRaw b \<and> pb_allowedRaw b \<le> total_qty m"

lemma measure_bite_counted:
  assumes "counted h mt ord m" "0 \<le> total_qty m"
  shows "\<exists>b. bite_for m b \<and> fst (measure_bite h mt ord e m v) = False
    \<and> fv_plan (snd (measure_bite h mt ord e m v)) = fv_plan v @ [b]
    \<and> fv_planned (snd (measure_bite h mt ord e m v)) = fv_planned v + pb_allowedRaw b"
  using assms by (auto simp: measure_bite_def counted_def bite_for_def Let_def split: option.splits)

lemma measure_bite_skipped: "\<not> counted h mt ord m \<Longrightarrow> measure_bite h mt ord e m v = (True, v)"
  by (simp add: measure_bite_def counted_def)

lemma visit_plan:
  assumes "\<forall>m \<in> set rs. 0 \<le> total_qty m"
  shows "\<exists>bites. list_all2 bite_for (filter (counted h mt ord) rs) bites
    \<and> fv_plan (snd (visit (measure_bite h mt ord e) rs (a, v))) = fv_plan v @ bites
    \<and> fv_planned (snd (visit (measure_bite h mt ord e) rs (a, v))) = fv_planned v + sum_list (map pb_allowedRaw bites)"
  using assms
proof (induction rs arbitrary: a v)
  case (Cons m ms)
  show ?case
  proof (cases "counted h mt ord m")
    case True
    obtain b where b: "bite_for m b" "fst (measure_bite h mt ord e m v) = False"
      "fv_plan (snd (measure_bite h mt ord e m v)) = fv_plan v @ [b]"
      "fv_planned (snd (measure_bite h mt ord e m v)) = fv_planned v + pb_allowedRaw b"
      using measure_bite_counted [OF True, of e v] Cons.prems by auto
    obtain v1 where v1: "measure_bite h mt ord e m v = (False, v1)" using b(2) by (cases "measure_bite h mt ord e m v") auto
    obtain bs where "list_all2 bite_for (filter (counted h mt ord) ms) bs"
      "fv_plan (snd (visit (measure_bite h mt ord e) ms (dec_add a (total_qty m), v1))) = fv_plan v1 @ bs"
      "fv_planned (snd (visit (measure_bite h mt ord e) ms (dec_add a (total_qty m), v1)))
        = fv_planned v1 + sum_list (map pb_allowedRaw bs)"
      using Cons.IH [of "dec_add a (total_qty m)" v1] Cons.prems by auto
    with True b v1 show ?thesis by (intro exI [of _ "b # bs"]) simp
  next
    case False
    then show ?thesis using Cons.IH [of a v] Cons.prems by (simp add: measure_bite_skipped)
  qed
qed simp

lemma visit_sum:
  assumes "\<And>m s. fst (skip m s) = P m" "\<forall>m \<in> set rs. 0 \<le> total_qty m" "0 \<le> a" "a + resting_total rs \<le> i64_max"
  shows "fst (visit skip rs (a, s)) = a + resting_total (filter (\<lambda>m. \<not> P m) rs)"
  using assms(2-)
proof (induction rs arbitrary: a s)
  case (Cons m ms)
  have pos: "0 \<le> resting_total ms" "0 \<le> total_qty m"
    using Cons.prems(1) by (auto simp: resting_total_def intro!: sum_list_nonneg)
  then have le: "a + resting_total ms \<le> i64_max" "a + total_qty m \<le> i64_max"
    "dec_add a (total_qty m) = a + total_qty m"
    using Cons.prems by (auto simp: resting_total_def intro!: dec_add_nonneg)
  then show ?case
    using Cons assms(1) [of m s] pos by (cases "skip m s") (auto simp: resting_total_def algebra_simps)
qed (simp add: resting_total_def)

lemma takeWhile_filter_sorted:
  "sorted_wrt R xs \<Longrightarrow> (\<And>x y. R x y \<Longrightarrow> P y \<Longrightarrow> P x) \<Longrightarrow> takeWhile P xs = filter P xs"
proof (induction xs)
  case (Cons x xs)
  then have "\<not> P x \<Longrightarrow> filter P xs = []" by (auto simp: filter_empty_conv)
  with Cons show ?case by auto
qed simp

lemma all2_allow:
  assumes "list_all2 bite_for ms bites" "distinct (map ro_id ms)" "mt_plan mt = bites"
  shows "map pb_maker bites = map ro_id ms"
    and "\<forall>m \<in> set ms. 0 \<le> allow mt (ro_id m) \<and> allow mt (ro_id m) \<le> total_qty m"
    and "sum (allow mt) (ro_id ` set ms) = sum_list (map pb_allowedRaw bites)"
proof -
  have len: "List.length bites = List.length ms" using assms(1) by (simp add: list_all2_lengthD)
  have nth: "k < List.length ms \<Longrightarrow> bite_for (ms ! k) (bites ! k)" for k using assms(1) by (simp add: list_all2_nthD)
  show mk: "map pb_maker bites = map ro_id ms" using len nth by (intro nth_equalityI) (auto simp: bite_for_def)
  then have d: "distinct (map pb_maker (mt_plan mt))" using assms(2,3) by simp
  have al: "allow mt (ro_id (ms ! k)) = pb_allowedRaw (bites ! k)" if "k < List.length ms" for k
    using allow_nth [OF d, of k] nth [OF that] that len assms(3) by (simp add: bite_for_def)
  show "\<forall>m \<in> set ms. 0 \<le> allow mt (ro_id m) \<and> allow mt (ro_id m) \<le> total_qty m"
    using al nth by (auto simp: in_set_conv_nth bite_for_def)
  have "map (\<lambda>m. allow mt (ro_id m)) ms = map pb_allowedRaw bites" using al len by (intro nth_equalityI) auto
  then have "sum_list (map (allow mt) (map ro_id ms)) = sum_list (map pb_allowedRaw bites)" by (simp add: comp_def)
  then show "sum (allow mt) (ro_id ` set ms) = sum_list (map pb_allowedRaw bites)"
    using assms(2) sum_list_distinct_conv_sum_set [of "map ro_id ms" "allow mt"] by simp
qed

context resting_book
begin

definition plan_covers :: "('b, 'e) hooks \<Rightarrow> new_order \<Rightarrow> ('b, 'e) sweep \<Rightarrow> bool" where
  "plan_covers h ord st \<longleftrightarrow>
     plan_ok h (sw_mt st) ord (orders (sw_book st) (opposite (no_side ord)))
     \<and> sw_leaves st \<le> sum (allow (sw_mt st)) (eligible_ids (sw_mt st) ord (orders (sw_book st) (opposite (no_side ord))))
     \<and> sw_filled st + sw_leaves st = no_quantity ord \<and> \<not> sw_stop st \<and> \<not> sw_stp st \<and> sw_risk st = None"

lemma eligible_none:
  assumes "inv b" "orders b (opposite (no_side ord)) = m # ms"
    and "\<not> crosses (no_side ord) (no_price ord) (no_type ord) (ro_price m)"
  shows "eligible_ids mt ord (orders b (opposite (no_side ord))) = {}"
proof -
  have "\<not> crosses (no_side ord) (no_price ord) (no_type ord) (ro_price x)" if "x \<in> set (m # ms)" for x
    using book_ok_side [OF inv_ok [OF assms(1)], of "opposite (no_side ord)"] that assms(2,3)
      crosses_mono [of "opposite (no_side ord)" _ _ "ro_price x" "ro_price m"] by (auto simp: side_ok_Cons)
  then show ?thesis using assms(2) by (auto simp: eligible_ids_def eligible_def)
qed

lemma pull_covers:
  assumes c: "plan_covers h ord st" and i: "inv (sw_book st)"
    and m: "bk_peekBest B (sw_book st) (opposite (no_side ord)) = Some m"
    and z: "eligible (sw_mt st) ord m \<Longrightarrow> allow (sw_mt st) (ro_id m) = 0"
  shows "plan_covers h ord (pull_maker B h ord why m st)"
proof -
  let ?s = "opposite (no_side ord)" and ?mt = "sw_mt st"
  let ?rs = "orders (sw_book st) ?s"
  have rs': "orders (snd (bk_cancel B (sw_book st) (ro_id m))) ?s = spec_remove (ro_id m) ?rs" using cancel_head [OF i] .
  have plan: "plan_ok h ?mt ord (spec_remove (ro_id m) ?rs)" using c by (auto simp: plan_covers_def plan_ok_def)
  have only: "x \<in> set ?rs \<Longrightarrow> ro_id x = ro_id m \<Longrightarrow> x = m" for x
    using head_side(2,3) [OF i m] by (metis spec_find_Some option.inject)
  have ids: "eligible_ids ?mt ord (spec_remove (ro_id m) ?rs) = eligible_ids ?mt ord ?rs - {ro_id m}"
    by (auto simp: eligible_ids_def)
  have "sum (allow ?mt) (eligible_ids ?mt ord ?rs - {ro_id m}) = sum (allow ?mt) (eligible_ids ?mt ord ?rs)"
  proof (cases "ro_id m \<in> eligible_ids ?mt ord ?rs")
    case True
    then have "eligible ?mt ord m" using only by (auto simp: eligible_ids_def)
    with z True show ?thesis by (simp add: sum.remove [of _ "ro_id m"])
  qed simp
  then show ?thesis using c plan by (simp add: plan_covers_def rs' ids)
qed

lemma covers_head:
  assumes c: "plan_covers h ord st" and i: "inv (sw_book st)" and l: "0 < sw_leaves st"
    and p: "bk_peekBest B (sw_book st) (opposite (no_side ord)) = Some m"
  shows "crosses (no_side ord) (no_price ord) (no_type ord) (ro_price m)"
    and "0 < qmin (sw_leaves st) (ro_leaves m)"
    and "\<not> skipStp (sw_mt st) ord m \<Longrightarrow> eligible (sw_mt st) ord m \<and> 0 \<le> allow (sw_mt st) (ro_id m)
      \<and> \<not> (ro_lastLook m \<and> hk_lastLook h \<noteq> None)"
    and "\<not> skipStp (sw_mt st) ord m \<Longrightarrow> fifo_limit h ord m want st = (lim, st1) \<Longrightarrow> 0 < want \<Longrightarrow>
      (\<exists>l. lim = Some l \<and> fl_qty l = min want (allow (sw_mt st) (ro_id m)) \<and> (fl_makerBlocked l \<longleftrightarrow> fl_qty l = 0))"
proof -
  let ?mt = "sw_mt st" and ?rs = "orders (sw_book st) (opposite (no_side ord))"
  have "eligible_ids ?mt ord ?rs \<noteq> {}" using c l by (auto simp: plan_covers_def)
  then show x: "crosses (no_side ord) (no_price ord) (no_type ord) (ro_price m)"
    using eligible_none [OF i] peek_head [OF i p] by blast
  show "0 < qmin (sw_leaves st) (ro_leaves m)" using peek_wf [OF i p] l by (auto simp: qmin_def wf_order_def)
  have plan: "plan_ok h ?mt ord ?rs" using c by (simp add: plan_covers_def)
  then have act: "mt_planActive ?mt" and d: "distinct (map pb_maker (mt_plan ?mt))" by (auto simp: plan_ok_def)
  have n: "eligible ?mt ord m \<and> ro_id m \<in> pb_maker ` set (mt_plan ?mt) \<and> 0 \<le> allow ?mt (ro_id m)
      \<and> \<not> (ro_lastLook m \<and> hk_lastLook h \<noteq> None)" if "\<not> skipStp ?mt ord m"
    using that x plan peek_mem [OF i p] by (auto simp: plan_ok_def eligible_def)
  show "\<not> skipStp ?mt ord m \<Longrightarrow> eligible ?mt ord m \<and> 0 \<le> allow ?mt (ro_id m)
      \<and> \<not> (ro_lastLook m \<and> hk_lastLook h \<noteq> None)" using n by blast
  assume s: "\<not> skipStp ?mt ord m" "fifo_limit h ord m want st = (lim, st1)" "0 < want"
  then obtain l mt' where l: "lim = Some l" "plannedFillLimit h m ord want (sw_env st) ?mt = (l, mt')"
    using act by (auto simp: fifo_limit_def split: prod.splits)
  show "\<exists>l. lim = Some l \<and> fl_qty l = min want (allow ?mt (ro_id m)) \<and> (fl_makerBlocked l \<longleftrightarrow> fl_qty l = 0)"
    using plannedFillLimit_spec [OF d _ l(2) s(3)] n [OF s(1)] l(1) s(3) by (auto simp: max_def)
qed

lemma covers_trade:
  assumes c: "plan_covers h ord st" and i: "inv (sw_book st)" and l: "0 < sw_leaves st"
    and p: "bk_peekBest B (sw_book st) (opposite (no_side ord)) = Some m" and n: "\<not> skipStp (sw_mt st) ord m"
    and q: "0 < q" "q \<le> sw_leaves st" "q \<le> ro_leaves m" "q \<le> allow (sw_mt st) (ro_id m)"
    and leaves: "dec_sub (sw_leaves st) q = sw_leaves st - q" "dec_add (sw_filled st) q = sw_filled st + q"
  shows "plan_covers h ord (fifo_trade B h ord prior m q st)"
proof -
  note ok = head_side [OF i p] q(1,3)
  have plan: "plan_ok h (sw_mt st) ord (orders (sw_book st) (opposite (no_side ord)))" "eligible (sw_mt st) ord m"
    using c covers_head(3) [OF c i l p n] by (auto simp: plan_covers_def)
  show ?thesis
    using c spend_plan_ok(1) [OF ok plan q(4)] spend_covers [OF ok plan q(4)] fill_head [OF i p q(1,3)] leaves
    by (simp add: plan_covers_def)
qed

lemma covers_act:
  assumes "fifo_act B h ord prior st st'" "sweep_ok inv mt ord st" "0 < sw_leaves st" "hooks_ok inv h"
    "no_quantity ord \<le> i64_max" "hk_restingHolds h = None" "no_stp ord \<in> {StpNone, CancelOldest}"
    "plan_covers h ord st"
  shows "plan_covers h ord st'"
proof -
  let ?s = "opposite (no_side ord)"
  have i: "inv (sw_book st)" using assms(2) by (auto simp: sweep_ok_def)
  note head = covers_head [OF assms(8) i assms(3)]
  have cursor: "plan_covers h ord st1 \<and> sw_book st1 = sw_book st \<and> sw_leaves st1 = sw_leaves st \<and> sw_filled st1 = sw_filled st
      \<and> allow (sw_mt st1) = allow (sw_mt st) \<and> stpScope (sw_mt st1) = stpScope (sw_mt st)"
    if "fifo_limit h ord m want st = (lim, st1)" for m want lim st1
    using fifo_limit_cursor [OF that] assms(8) by (auto simp: plan_covers_def)
  from assms(1) show ?thesis
  proof cases
    case no_maker
    then have "orders (sw_book st) ?s = []" using peek [OF i] by (auto split: list.splits)
    then show ?thesis using assms(3,8) by (simp add: plan_covers_def eligible_ids_def)
  next
    case (stp_oldest m)
    then show ?thesis using pull_covers [OF assms(8) i stp_oldest(2)] by (simp add: eligible_def)
  next
    case (maker_blocked m lim st1)
    have "allow (sw_mt st) (ro_id m) = 0"
      using head(4) [OF maker_blocked(2,4,5)] head(2,3) [OF maker_blocked(2)] maker_blocked(4,6) by (auto simp: min_def split: if_splits)
    then show ?thesis using pull_covers [of h ord st1 m] cursor [OF maker_blocked(5)] maker_blocked(1,2) i by simp
  next
    case (taker_blocked m lim st1)
    then show ?thesis using head(4) [OF taker_blocked(2,3,4)] head(2) [OF taker_blocked(2)] by auto
  next
    case (held m want lim st1 f)
    then show ?thesis using head(3) [OF held(2,4)] by simp
  next
    case (traded m want lim st1)
    note bb = bite_bounds [OF i assms(4,3) traded(2,5,7,8)]
    note cur = cursor [OF traded(7)]
    have "0 < want" using head(2) [OF traded(2)] traded(5) by simp
    then have "bite_allowance want lim \<le> allow (sw_mt st) (ro_id m)"
      using head(4) [OF traded(2,4,7)] by (auto simp: bite_allowance_def)
    then show ?thesis
      using covers_trade [of h ord st1 m] cur i assms(3) traded(1,2,4) bb sweep_ok_exact [OF assms(2) bb(1,2) assms(5)]
      by (simp add: skipStp_def)
  next
    case (no_cross m)
    then show ?thesis using head(1) by blast
  next
    case (empty_maker m)
    then show ?thesis using head(2) by fastforce
  qed (use assms(6,7) in auto)
qed

lemma crossing_range:
  assumes "inv b" "limit_ok b (no_side ord) (no_price ord) \<or> no_type ord = MARKET"
  shows "bk_within B b (no_side ord) (no_price ord) (no_type ord = MARKET)
    = filter (\<lambda>m. crosses (no_side ord) (no_price ord) (no_type ord) (ro_price m)) (orders b (opposite (no_side ord)))"
proof -
  let ?s = "opposite (no_side ord)"
  have "sorted_wrt (\<lambda>x y. \<not> before ?s (ro_price y) (ro_price x)) (orders b ?s)"
    using book_ok_side [OF inv_ok [OF assms(1)], of ?s] by (simp add: side_ok_def)
  then have "takeWhile (\<lambda>m. crosses (no_side ord) (no_price ord) (no_type ord) (ro_price m)) (orders b ?s)
      = filter (\<lambda>m. crosses (no_side ord) (no_price ord) (no_type ord) (ro_price m)) (orders b ?s)"
    by (rule takeWhile_filter_sorted) (use crosses_mono [of ?s] in auto)
  then show ?thesis using within [of b ?s "no_price ord" "no_type ord = MARKET"] assms
    by (simp add: within_limit_crosses)
qed

lemma no_last_look_in_range:
  assumes wf: "\<forall>m \<in> set rs. 0 < total_qty m" and bound: "resting_total rs \<le> i64_max" and act: "hk_lastLook h \<noteq> None"
    and firm: "\<not> fst (visit (measure_bite h mt ord e) rs (0, v)) < fst (visit (\<lambda>m u. (skipStp mt ord m, u)) rs (0, ()))"
    and m: "m \<in> set rs" "\<not> skipStp mt ord m"
  shows "\<not> ro_lastLook m"
proof
  assume ll: "ro_lastLook m"
  have wf': "\<forall>m \<in> set rs. 0 \<le> total_qty m" using wf by auto
  have f: "fst (measure_bite h mt ord e m s) = (\<not> counted h mt ord m)" for m s
  proof (cases "counted h mt ord m")
    case True
    then show ?thesis by (auto simp: measure_bite_def counted_def Let_def split: option.splits)
  qed (simp add: measure_bite_skipped)
  have "fst (visit (measure_bite h mt ord e) rs (0, v)) = resting_total (filter (counted h mt ord) rs)"
    using visit_sum [of "measure_bite h mt ord e" "\<lambda>m. \<not> counted h mt ord m", OF f wf'] bound by simp
  moreover have "fst (visit (\<lambda>m u. (skipStp mt ord m, u)) rs (0, ())) = resting_total (filter (\<lambda>m. \<not> skipStp mt ord m) rs)"
    using visit_sum [of "\<lambda>m (u :: unit). (skipStp mt ord m, u)" "skipStp mt ord", OF _ wf'] bound by simp
  moreover have "resting_total (filter (counted h mt ord) rs) < resting_total (filter (\<lambda>m. \<not> skipStp mt ord m) rs)"
  proof -
    have ceq: "counted h mt ord = (\<lambda>m. \<not> ro_lastLook m \<and> \<not> skipStp mt ord m)"
      using act by (auto simp: counted_def fun_eq_iff)
    have le: "resting_total (filter (counted h mt ord) ys) \<le> resting_total (filter (\<lambda>m. \<not> skipStp mt ord m) ys)"
      if "\<forall>m \<in> set ys. 0 < total_qty m" for ys
      using that by (induction ys) (auto simp: resting_total_def ceq)
    show ?thesis using m ll wf
    proof (induction rs)
      case (Cons x xs)
      then show ?case using le [of xs] by (auto simp: resting_total_def ceq)
    qed simp
  qed
  ultimately show False using firm by simp
qed

lemma plan_start:
  assumes i: "inv b" and plan: "planFillOrKill B h ord b e mt = (True, mt1)"
    and lim: "limit_ok b (no_side ord) (no_price ord) \<or> no_type ord = MARKET"
    and bound: "hk_lastLook h \<noteq> None \<longrightarrow> resting_total (orders b (opposite (no_side ord))) \<le> i64_max"
  shows "plan_covers h ord (start_sweep ord b e mt1)"
proof -
  let ?v0 = "\<lparr>fv_deltas = [], fv_plan = [], fv_planned = 0, fv_riskConstrained = False\<rparr>"
  let ?rs = "filter (\<lambda>m. crosses (no_side ord) (no_price ord) (no_type ord) (ro_price m)) (orders b (opposite (no_side ord)))"
  let ?vis = "visit (measure_bite h mt ord e) ?rs (0, ?v0)"
  have ok: "side_ok (opposite (no_side ord)) (orders b (opposite (no_side ord)))"
    and dist: "distinct (map ro_id (orders b (opposite (no_side ord))))"
    using inv_ok [OF i] by (auto intro: book_ok_side book_ok_distinct)
  have wf: "\<forall>m \<in> set (orders b (opposite (no_side ord))). 0 < total_qty m"
    using ok by (auto simp: side_ok_def intro: total_qty_pos)
  then have "resting_total ?rs \<le> resting_total (orders b (opposite (no_side ord)))"
    by (intro resting_total_filter) auto
  moreover have p: "no_quantity ord \<le> fv_planned (snd ?vis)"
    "hk_lastLook h \<noteq> None \<Longrightarrow> \<not> fst ?vis < fst (visit (\<lambda>m u. (skipStp mt ord m, u)) ?rs (0, ()))"
    "mt_plan mt1 = fv_plan (snd ?vis)" "mt_planActive mt1" "mt_stpGroup mt1 = mt_stpGroup mt"
    using plan crossing_range [OF i lim]
    by (auto simp: planFillOrKill_def availableWithinExcl_def Let_def split_beta split: if_splits)
  ultimately have "hk_lastLook h \<noteq> None \<longrightarrow> (\<forall>m \<in> set ?rs. \<not> skipStp mt ord m \<longrightarrow> \<not> ro_lastLook m)"
    using no_last_look_in_range [of ?rs h mt ord e ?v0] wf bound by auto
  then have el: "filter (counted h mt ord) ?rs = filter (eligible mt ord) (orders b (opposite (no_side ord)))"
    and ll: "m \<in> set (orders b (opposite (no_side ord))) \<Longrightarrow> eligible mt ord m \<Longrightarrow> \<not> (ro_lastLook m \<and> hk_lastLook h \<noteq> None)" for m
    by (auto simp: counted_def eligible_def intro!: filter_cong)
  have nn: "\<forall>m \<in> set ?rs. 0 \<le> total_qty m" using wf by (auto intro: less_imp_le)
  obtain bites where bites: "list_all2 bite_for (filter (eligible mt ord) (orders b (opposite (no_side ord)))) bites"
    "mt_plan mt1 = bites" "fv_planned (snd ?vis) = sum_list (map pb_allowedRaw bites)"
    using visit_plan [OF nn, of h mt ord e 0 ?v0] p(3) el by auto
  have e1: "eligible mt1 ord = eligible mt ord" using p(5) by (rule eligible_cong)
  note al = all2_allow [OF bites(1) distinct_map_filter [OF dist] bites(2)]
  have "set (map pb_maker bites) = ro_id ` {m \<in> set (orders b (opposite (no_side ord))). eligible mt ord m}"
    using al(1) by simp
  then have mk: "m \<in> set (orders b (opposite (no_side ord))) \<Longrightarrow> eligible mt ord m \<Longrightarrow> ro_id m \<in> pb_maker ` set (mt_plan mt1)" for m
    using bites(2) by auto
  show ?thesis
    using p(1,4) al ll mk dist bites(2,3)
    by (auto simp: plan_covers_def plan_ok_def start_sweep_def e1 eligible_ids_def distinct_map_filter)
qed

lemma fok_loop:
  assumes "fifo_loop B h ord prior st = Some st'" "sweep_ok inv mt ord st" "hooks_ok inv h"
    "no_quantity ord \<le> i64_max" "hk_restingHolds h = None" "no_stp ord \<in> {StpNone, CancelOldest}" "plan_covers h ord st"
  shows "sw_leaves st' = 0 \<and> sw_filled st' = no_quantity ord \<and> \<not> sw_stp st' \<and> sw_risk st' = None"
proof -
  let ?J = "\<lambda>s. sweep_ok inv mt ord s \<and> plan_covers h ord s"
  have "?J (fifo_step B h ord prior s)" if "?J s" "sweep_going s" for s
  proof -
    have "inv (sw_book s)" "0 < sw_leaves s" using that by (auto simp: sweep_ok_def sweep_going_def)
    then show ?thesis
      using fifo_step_act [OF assms(3)] sweep_ok_act [OF _ _ _ assms(3,4)] covers_act [OF _ _ _ assms(3-6)] that by blast
  qed
  then have "?J st' \<and> \<not> sweep_going st'"
    using fifo_loop_invariant [of B h ord prior st st' ?J] assms(1,2,7) by blast
  then show ?thesis by (auto simp: plan_covers_def sweep_going_def)
qed

end

end
