(* ===== verification/MatchProps.thy ===== *)
theory MatchProps
  imports FillOrKill
begin

section \<open>Properties of a price-time cross\<close>

text \<open>
  The lemmas of \<open>Fifo\<close> and \<open>FillOrKill\<close> lifted from the loop to \<^verbatim>\<open>Matcher::cross\<close>, and stated on
  \<^verbatim>\<open>Matcher<MatchingBook>\<close> through the interpretation \<open>mbk\<close>.
\<close>

lemma planFillOrKill_keeps:
  "planFillOrKill B h ord b e mt = (ans, mt1) \<Longrightarrow> mt_stpGroup mt1 = mt_stpGroup mt \<and> mt_policy mt1 = mt_policy mt"
  by (auto simp: planFillOrKill_def Let_def split: prod.splits if_splits)

lemma cross_fifo_cases:
  assumes "cross B h ord b e mt prior = Some (out, st)" and "mt_policy mt = PriceTimeFifo"
  obtains
    (rejected) "mo_reject out \<in> {PostOnlyWouldCross, FillOrKillUnfulfillable}"
      "mo_filled out = 0" "mo_leaves out = 0" "sw_events st = []" "sw_book st = b"
      "mo_reject out = PostOnlyWouldCross \<longleftrightarrow> post_only_blocked B ord b"
  | (swept) mt1 where "fifo_loop B h ord prior (start_sweep ord b e mt1) = Some st" "out = finish ord st"
      "mt_stpGroup mt1 = mt_stpGroup mt" "\<not> post_only_blocked B ord b"
      "no_tif ord \<noteq> FOK \<Longrightarrow> mt1 = mt\<lparr>mt_planActive := False\<rparr>"
      "no_tif ord = FOK \<Longrightarrow> planFillOrKill B h ord b e (mt\<lparr>mt_planActive := False\<rparr>) = (True, mt1)"
proof (cases "post_only_blocked B ord b")
  case True
  then have "out = empty_outcome\<lparr>mo_reject := PostOnlyWouldCross\<rparr>"
    "st = start_sweep ord b e (mt\<lparr>mt_planActive := False\<rparr>)"
    using assms(1) by (simp_all add: cross_def Let_def)
  then show ?thesis using True by (intro rejected) (simp_all add: start_sweep_def empty_outcome_def)
next
  case False
  let ?mt = "mt\<lparr>mt_planActive := False\<rparr>"
  obtain ans mt1 where p: "(if no_tif ord = FOK then planFillOrKill B h ord b e ?mt else (True, ?mt)) = (ans, mt1)"
    by (rule prod.exhaust)
  have keep: "mt_stpGroup mt1 = mt_stpGroup mt"
    using p planFillOrKill_keeps [of B h ord b e ?mt ans mt1] by (auto split: if_splits)
  have c: "cross B h ord b e mt prior =
      (if ans then map_option (\<lambda>st. (finish ord st, st)) (fifo_loop B h ord prior (start_sweep ord b e mt1))
       else Some (empty_outcome\<lparr>mo_reject := FillOrKillUnfulfillable\<rparr>, start_sweep ord b e mt1))"
    using False assms(2) by (simp add: cross_def Let_def p)
  show ?thesis
  proof (cases ans)
    case True
    then have "fifo_loop B h ord prior (start_sweep ord b e mt1) = Some st" "out = finish ord st"
      using assms(1) c by auto
    then show ?thesis using p True keep False by (intro swept [of mt1]) (auto split: if_splits)
  next
    case A: False
    then have "out = empty_outcome\<lparr>mo_reject := FillOrKillUnfulfillable\<rparr>" "st = start_sweep ord b e mt1"
      using assms(1) c by simp_all
    then show ?thesis using False by (intro rejected) (simp_all add: start_sweep_def empty_outcome_def)
  qed
qed

lemma finish_sel [simp]:
  "mo_filled (finish ord st) = sw_filled st" "mo_leaves (finish ord st) = sw_leaves st"
  "mo_reject (finish ord st) = RejNone"
  by (auto simp: finish_def Let_def empty_outcome_def split: option.splits)

lemma start_sweep_sel [simp]:
  "sw_book (start_sweep ord b e mt) = b" "sw_mt (start_sweep ord b e mt) = mt"
  "sw_events (start_sweep ord b e mt) = []" "sw_leaves (start_sweep ord b e mt) = no_quantity ord"
  "sw_filled (start_sweep ord b e mt) = 0" "\<not> sw_stop (start_sweep ord b e mt)"
  "\<not> sw_stp (start_sweep ord b e mt)" "sw_risk (start_sweep ord b e mt) = None"
  by (simp_all add: start_sweep_def)

lemma sweep_ok_start:
  "I b \<Longrightarrow> 0 \<le> no_quantity ord \<Longrightarrow> mt_stpGroup mt1 = mt_stpGroup mt \<Longrightarrow> sweep_ok I mt ord (start_sweep ord b e mt1)"
  by (simp add: sweep_ok_def trade_qty_def)

lemma loop_stopped: "while_option sweep_going f (s\<lparr>sw_stop := True\<rparr>) = Some (s\<lparr>sw_stop := True\<rparr>)"
  by (subst while_option_unfold) (simp add: sweep_going_def)

definition exact_ok :: "new_order \<Rightarrow> ('b, 'e) sweep \<Rightarrow> bool" where
  "exact_ok ord st \<longleftrightarrow> sw_filled st + sw_leaves st = no_quantity ord"

context resting_book
begin

lemma step_lift:
  assumes "hooks_ok inv h" "no_quantity ord \<le> i64_max"
    and "\<forall>s s'. fifo_act B h ord prior s s' \<longrightarrow> sweep_ok inv mt ord s \<longrightarrow> sweep_going s \<longrightarrow> J s \<longrightarrow> J s'"
    and "fifo_loop B h ord prior st = Some st'" "sweep_ok inv mt ord st" "J st"
  shows "sweep_ok inv mt ord st' \<and> J st' \<and> \<not> sweep_going st'"
proof -
  let ?J = "\<lambda>s. sweep_ok inv mt ord s \<and> J s"
  have "?J (fifo_step B h ord prior s)" if "?J s" "sweep_going s" for s
  proof -
    have "inv (sw_book s)" "0 < sw_leaves s" using that by (auto simp: sweep_ok_def sweep_going_def)
    then show ?thesis
      using fifo_step_act [OF assms(1)] sweep_ok_act [OF _ _ _ assms(1,2)] assms(3) that by blast
  qed
  then show ?thesis using fifo_loop_invariant [of B h ord prior st st' ?J] assms(4-6) by blast
qed

lemma exact_act:
  assumes "fifo_act B h ord prior st st'" "sweep_ok inv mt ord st" "sweep_going st" "hooks_ok inv h"
    "no_quantity ord \<le> i64_max" "hk_lastLook h = None" "no_stp ord \<noteq> Decrement" "exact_ok ord st"
  shows "exact_ok ord st'"
proof -
  have i: "inv (sw_book st)" and l: "0 < sw_leaves st" using assms(2,3) by (auto simp: sweep_ok_def sweep_going_def)
  from assms(1) show ?thesis
  proof cases
    case (traded m want lim st1)
    note bb = bite_bounds [OF i assms(4) l traded(2,5,7,8)]
    show ?thesis
      using fifo_limit_cursor [OF traded(7)] sweep_ok_exact [OF assms(2) bb(1,2) assms(5)] assms(8)
      unfolding traded(1) by (auto simp: exact_ok_def)
  next
    case (maker_blocked m lim st1)
    then show ?thesis using fifo_limit_cursor [OF maker_blocked(5)] assms(8) by (auto simp: exact_ok_def)
  next
    case (taker_blocked m lim st1)
    then show ?thesis using fifo_limit_cursor [OF taker_blocked(4)] assms(8) by (auto simp: exact_ok_def)
  qed (use assms(6-8) in \<open>auto simp: exact_ok_def\<close>)
qed

lemma going_pos: "sweep_ok inv mt ord s \<Longrightarrow> sweep_going s \<Longrightarrow> 0 < sw_leaves s"
  by (auto simp: sweep_ok_def sweep_going_def)

lemma exact_loop:
  assumes "fifo_loop B h ord prior st = Some st'" "sweep_ok inv mt ord st" "hooks_ok inv h" "no_quantity ord \<le> i64_max"
    "hk_lastLook h = None" "no_stp ord \<noteq> Decrement" "exact_ok ord st"
  shows "exact_ok ord st'"
proof -
  have "\<forall>s s'. fifo_act B h ord prior s s' \<longrightarrow> sweep_ok inv mt ord s \<longrightarrow> sweep_going s \<longrightarrow> exact_ok ord s \<longrightarrow> exact_ok ord s'"
    using exact_act [OF _ _ _ assms(3-6)] by (blast)
  from step_lift [OF assms(3,4) this assms(1,2,7)] show ?thesis by blast
qed

lemma flow_loop:
  assumes "fifo_loop B h ord prior st = Some st'" "sweep_ok inv mt ord st" "hooks_ok inv h" "no_quantity ord \<le> i64_max"
    "hk_restingHolds h = None" "no_stp ord \<noteq> Decrement" "flow_ok ord own tot st"
  shows "flow_ok ord own tot st'"
proof -
  have "\<forall>s s'. fifo_act B h ord prior s s' \<longrightarrow> sweep_ok inv mt ord s \<longrightarrow> sweep_going s \<longrightarrow> flow_ok ord own tot s \<longrightarrow> flow_ok ord own tot s'"
    using flow_act [OF _ _ going_pos assms(3-6)] by (blast)
  from step_lift [OF assms(3,4) this assms(1,2,7)] show ?thesis by blast
qed

lemma price_loop:
  assumes "fifo_loop B h ord prior st = Some st'" "sweep_ok inv mt ord st" "hooks_ok inv h" "no_quantity ord \<le> i64_max"
    "hk_restingHolds h = None" "price_ok ord st"
  shows "price_ok ord st'"
proof -
  have "\<forall>s s'. fifo_act B h ord prior s s' \<longrightarrow> sweep_ok inv mt ord s \<longrightarrow> sweep_going s \<longrightarrow> price_ok ord s \<longrightarrow> price_ok ord s'"
    using price_act [OF _ _ going_pos assms(3,5)] by (blast)
  from step_lift [OF assms(3,4) this assms(1,2,6)] show ?thesis by blast
qed

lemma greedy_loop:
  assumes "fifo_loop B h ord prior st = Some st'" "sweep_ok inv mt ord st" "plain_hooks h" "no_quantity ord \<le> i64_max"
    "no_stp ord = StpNone" "greedy_ok ord all st"
  shows "fills_of (sw_events st') = all"
proof -
  have "\<forall>s s'. fifo_act B h ord prior s s' \<longrightarrow> sweep_ok inv mt ord s \<longrightarrow> sweep_going s \<longrightarrow> greedy_ok ord all s \<longrightarrow> greedy_ok ord all s'"
    using greedy_act [OF _ _ going_pos assms(3-5)] by (auto simp: sweep_going_def)
  from step_lift [OF plain_hooks_ok [OF assms(3)] assms(4) this assms(1,2,6)]
  have "greedy_ok ord all st'" "\<not> sweep_going st'" by blast+
  then show ?thesis by (auto simp: greedy_ok_def sweep_going_def greedy_none)
qed

lemma post_only_sweep:
  assumes "fifo_loop B h ord prior (start_sweep ord b e mt) = Some st" "no_postOnly ord" "\<not> post_only_blocked B ord b"
  shows "sw_events st = [] \<and> sw_book st = b \<and> sw_filled st = 0 \<and> sw_leaves st = no_quantity ord"
proof -
  have "fifo_step B h ord prior (start_sweep ord b e mt) = (start_sweep ord b e mt)\<lparr>sw_stop := True\<rparr>"
    using assms(2,3) by (auto simp: fifo_step_def post_only_blocked_def split: option.splits)
  then have "st = start_sweep ord b e mt \<or> st = (start_sweep ord b e mt)\<lparr>sw_stop := True\<rparr>"
    using assms(1) while_option_unfold [of sweep_going "fifo_step B h ord prior" "start_sweep ord b e mt"]
    by (auto simp: fifo_loop_def loop_stopped split: if_splits)
  then show ?thesis by auto
qed

lemma report_truthful:
  assumes i: "inv b" and p: "bk_peekBest B b s = Some m" and q: "0 < q" "q \<le> ro_leaves m"
  shows "case bk_find B (bk_fillBest B b s q) (ro_id m) of
      None \<Rightarrow> q = ro_leaves m \<and> ro_hidden m = 0 \<and> total_qty m - q = 0
    | Some r \<Rightarrow> total_qty r = total_qty m - q \<and> 0 < total_qty r \<and> ro_cumQty r = ro_cumQty m + q
        \<and> ro_leaves r = (if q < ro_leaves m then ro_leaves m - q else min (ro_peak m) (ro_hidden m))"
proof -
  let ?b' = "bk_fillBest B b s q"
  note ok = head_side [OF i p]
  have wf: "wf_order m" using peek_wf [OF i p] .
  have i': "inv ?b'" using inv_fill [OF i p q] .
  have o: "orders ?b' s = spec_consume s (ro_id m) q (orders b s)" using fill_head [OF i p q] .
  have d': "distinct (map ro_id (orders ?b' BUY @ orders ?b' SELL))" using inv_ok [OF i'] by (simp add: book_ok_def)
  have other: "ro_id m \<notin> ro_id ` set (orders ?b' (opposite s))"
    using other_side_kept(2) [OF i p q] book_ok_disjoint [OF inv_ok [OF i], of s] ok(3) by auto
  have find_in: "bk_find B ?b' (ro_id m) = Some r" if "r \<in> set (orders ?b' s)" "ro_id r = ro_id m" for r
  proof -
    have "r \<in> set (orders ?b' BUY @ orders ?b' SELL)" using that(1) by (cases s) auto
    then show ?thesis using found [OF i', of "ro_id m"] spec_find_Some [OF d', of "ro_id m" r] that(2) by simp
  qed
  have only: "y \<in> set (orders b s) \<Longrightarrow> ro_id y = ro_id m \<Longrightarrow> y = m" for y
    using ok(2,3) by (metis spec_find_Some option.inject)
  from ok refl q show ?thesis
  proof (cases rule: spec_consume_cases)
    case partial
    then have "hit q m \<in> set (orders ?b' s)" using o ok(3) by (force simp: spec_replace_def)
    then show ?thesis using find_in [of "hit q m"] partial wf q total_hit [OF wf, of q] total_qty_pos [of "hit q m"]
      by (simp add: hit_leaves hit_cumQty)
  next
    case next_peak
    then have "refill (hit q m) \<in> set (orders ?b' s)" using o by simp
    then show ?thesis
      using find_in [of "refill (hit q m)"] next_peak wf total_refill [OF wf] total_qty_pos [OF next_peak(3)]
        hit_cumQty [OF wf, of q] q refill_leaves(1) [of "hit q m"] by (simp add: wf_order_def)
  next
    case gone
    then have "ro_id m \<notin> ro_id ` (set (orders ?b' BUY) \<union> set (orders ?b' SELL))" using o other by (cases s) auto
    then have "bk_find B ?b' (ro_id m) = None" using found [OF i', of "ro_id m"] by (simp add: spec_find_None image_Un)
    then show ?thesis using gone wf by (simp add: total_qty_exact)
  qed
qed

end

subsection \<open>Sample inputs\<close>

definition sample_hooks :: "(matching_book, nat) hooks" where
  "sample_hooks = \<lparr>hk_lastLook = None, hk_restingHolds = None, hk_restingReduced = None, hk_fillLimit = None,
     hk_fillLimitDry = None, hk_nextTradeId = (\<lambda>e. (Suc e, Suc e)), hk_sink = (\<lambda>ev e. e)\<rparr>"

definition sample_rest :: "nat \<Rightarrow> nat \<Rightarrow> side \<Rightarrow> int \<Rightarrow> int \<Rightarrow> resting_order" where
  "sample_rest i acct s p q = \<lparr>ro_id = i, ro_accountId = acct, ro_price = p, ro_leaves = q, ro_side = s,
     ro_hidden = 0, ro_peak = 0, ro_lastLook = False, ro_reduceOnly = False, ro_postOnly = False,
     ro_clientOrderId = 0, ro_cumQty = 0\<rparr>"

definition sample_order :: "side \<Rightarrow> int \<Rightarrow> int \<Rightarrow> time_in_force \<Rightarrow> stp_mode \<Rightarrow> new_order" where
  "sample_order s p q tif stp = \<lparr>no_id = 99, no_symbol = 1, no_side = s, no_type = LIMIT, no_price = p,
     no_quantity = q, no_tif = tif, no_postOnly = False, no_stp = stp, no_accountId = 7,
     no_clientOrderId = 0, no_visibleQuantity = 0, no_triggerPrice = 0, no_trailingOffset = 0,
     no_lastLook = False, no_reduceOnly = False, no_expiryNs = 0, no_ocoGroup = 0, no_peg = PegNone,
     no_pegOffsetRaw = 0\<rparr>"

definition sample_book :: "matching_book" where
  "sample_book =
     snd (mb_addResting
       (snd (mb_addResting
         (snd (mb_addResting mb_empty_book SELL (sample_rest 1 5 SELL 100 5)))
         SELL (sample_rest 2 7 SELL 101 5)))
       SELL (sample_rest 3 6 SELL 102 5))"

lemma sample_book_inv: "mb_inv sample_book"
proof -
  have wf: "wf_order (sample_rest i a SELL p 5)" "ro_side (sample_rest i a SELL p 5) = SELL" for i a p
    by (simp_all add: sample_rest_def wf_order_def i64_max_def)
  let ?b1 = "snd (mb_addResting mb_empty_book SELL (sample_rest 1 5 SELL 100 5))"
  let ?b2 = "snd (mb_addResting ?b1 SELL (sample_rest 2 7 SELL 101 5))"
  have "mb_inv ?b1"
    using mb_add_spec [OF mb_inv_empty wf] by (simp add: mb_contains_def mb_empty_book_def)
  then have "mb_inv ?b2" using mb_add_spec [OF _ wf, of ?b1 2 7 101]
    by (simp add: mb_contains_def mb_empty_book_def mb_addResting_def Let_def sample_rest_def)
  then show ?thesis unfolding sample_book_def using mb_add_spec [OF _ wf, of ?b2 3 6 102]
    by (simp add: mb_contains_def mb_empty_book_def mb_addResting_def Let_def sample_rest_def)
qed

lemma sample_hooks_ok: "hooks_ok I sample_hooks" "plain_hooks sample_hooks"
  by (simp_all add: hooks_ok_def plain_hooks_def sample_hooks_def)

lemma sample_order_sel [simp]:
  "no_quantity (sample_order s p q tif stp) = q" "no_tif (sample_order s p q tif stp) = tif"
  "no_stp (sample_order s p q tif stp) = stp" "no_side (sample_order s p q tif stp) = s"
  "no_type (sample_order s p q tif stp) = LIMIT" "no_postOnly (sample_order s p q tif stp) = False"
  by (simp_all add: sample_order_def)

lemma new_matcher_sel [simp]: "mt_policy (new_matcher p) = p"
  by (simp add: new_matcher_def)

subsection \<open>Properties\<close>

text \<open>
  C1. Whatever the hooks answer within their contract, a price-time cross leaves a well-formed
  book; the quantities it prints add up to what it reports as filled, never exceed the order,
  and every trade is for a positive quantity, at a price inside the order's limit, and, under
  self-trade prevention, against another scope.
\<close>

theorem fifo_execution_sound:
  assumes "mb_inv b" and "hooks_ok mb_inv h" and "mt_policy mt = PriceTimeFifo"
    and "0 \<le> no_quantity ord" "no_quantity ord \<le> i64_max"
    and "cross mb_ops h ord b e mt prior = Some (out, st)"
  shows "mb_inv (sw_book st) \<and> trade_qty (sw_events st) = mo_filled out
    \<and> 0 \<le> mo_filled out \<and> 0 \<le> mo_leaves out \<and> mo_filled out + mo_leaves out \<le> no_quantity ord
    \<and> (\<forall>t \<in> set (trades_of (sw_events st)). trade_ok mt ord t)"
  using assms(6,3)
proof (cases rule: cross_fifo_cases)
  case rejected
  then show ?thesis using assms(1,4) by (simp add: trade_qty_def)
next
  case (swept mt1)
  from mbk.sweep_ok_loop [OF swept(1) sweep_ok_start [of mb_inv b ord mt1 mt e, OF assms(1,4) swept(3)] assms(2,5)]
  show ?thesis unfolding swept(2) by (auto simp: sweep_ok_def)
qed

theorem fifo_execution_sound_witness:
  "\<exists>out st. cross mb_ops sample_hooks (sample_order BUY 102 7 GTC CancelOldest) sample_book 0
      (new_matcher PriceTimeFifo) 0 = Some (out, st) \<and> mb_inv (sw_book st)
      \<and> trade_qty (sw_events st) = mo_filled out"
proof -
  let ?c = "cross mb_ops sample_hooks (sample_order BUY 102 7 GTC CancelOldest) sample_book 0 (new_matcher PriceTimeFifo) 0"
  have "map_option (\<lambda>(out, st). mo_filled out) ?c = Some 7" by code_simp
  then obtain out st where c: "?c = Some (out, st)" by auto
  from fifo_execution_sound [OF sample_book_inv sample_hooks_ok(1) _ _ _ c] c show ?thesis
    by (simp add: i64_max_def)
qed

text \<open>
  C2. The sweep always ends: with last look off (no resting-hold hook) a price-time cross
  returns an outcome for every order on every well-formed book.
\<close>

theorem fifo_cross_returns:
  assumes "mb_inv b" and "hooks_ok mb_inv h" and "hk_restingHolds h = None" and "mt_policy mt = PriceTimeFifo"
    and "0 \<le> no_quantity ord" "no_quantity ord \<le> i64_max"
  shows "\<exists>out st. cross mb_ops h ord b e mt prior = Some (out, st)"
proof -
  let ?mt = "mt\<lparr>mt_planActive := False\<rparr>"
  obtain ans mt1 where p: "(if no_tif ord = FOK then planFillOrKill mb_ops h ord b e ?mt else (True, ?mt)) = (ans, mt1)"
    by (rule prod.exhaust)
  obtain st where "fifo_loop mb_ops h ord prior (start_sweep ord b e mt1) = Some st"
    using mbk.fifo_loop_returns [OF sweep_ok_start [of mb_inv b ord mt1 mt1 e, OF assms(1,5) refl] assms(2,6,3)] by blast
  then show ?thesis using assms(4) p by (cases ans) (simp_all add: cross_def Let_def)
qed

theorem fifo_cross_returns_witness:
  "\<exists>out st. cross mb_ops sample_hooks (sample_order BUY 102 7 FOK StpNone) sample_book 0
      (new_matcher PriceTimeFifo) 0 = Some (out, st)"
  using fifo_cross_returns [OF sample_book_inv sample_hooks_ok(1), of "new_matcher PriceTimeFifo"
      "sample_order BUY 102 7 FOK StpNone"]
  by (simp add: sample_hooks_def i64_max_def)

text \<open>
  C4. Conservation of quantity: with last look off and no STP decrement, an admitted cross
  accounts for its whole quantity as filled plus left; the aggressor's own side of the book is
  untouched, and the opposite side loses exactly the filled quantity plus what was reported as
  cancelled.
\<close>

theorem fifo_quantity_conserved:
  assumes "mb_inv b" and "hooks_ok mb_inv h" and "hk_restingHolds h = None" "hk_lastLook h = None"
    and "mt_policy mt = PriceTimeFifo" and "0 \<le> no_quantity ord" "no_quantity ord \<le> i64_max"
    and "no_stp ord \<noteq> Decrement" and "cross mb_ops h ord b e mt prior = Some (out, st)"
    and "mo_reject out = RejNone"
  shows "mo_filled out + mo_leaves out = no_quantity ord
    \<and> mb_orders (sw_book st) (no_side ord) = mb_orders b (no_side ord)
    \<and> resting_total (mb_orders b (opposite (no_side ord)))
        = resting_total (mb_orders (sw_book st) (opposite (no_side ord))) + mo_filled out + cancel_qty (sw_events st)"
  using assms(9,5)
proof (cases rule: cross_fifo_cases)
  case (swept mt1)
  let ?own = "mb_orders b (no_side ord)" and ?tot = "resting_total (mb_orders b (opposite (no_side ord)))"
  note s = sweep_ok_start [of mb_inv b ord mt1 mt e, OF assms(1,6) swept(3)]
  have "exact_ok ord st"
    using mbk.exact_loop [OF swept(1) s assms(2,7,4,8)] by (simp add: exact_ok_def)
  moreover have "mbk.flow_ok ord ?own ?tot st"
    using mbk.flow_loop [OF swept(1) s assms(2,7,3,8), of ?own ?tot] by (simp add: mbk.flow_ok_def cancel_qty_def)
  ultimately show ?thesis unfolding swept(2) by (auto simp: exact_ok_def mbk.flow_ok_def)
qed (use assms(10) in auto)

theorem fifo_quantity_conserved_witness:
  "\<exists>out st. cross mb_ops sample_hooks (sample_order BUY 102 7 GTC CancelOldest) sample_book 0
      (new_matcher PriceTimeFifo) 0 = Some (out, st) \<and> mo_filled out + mo_leaves out = 7
      \<and> cancel_qty (sw_events st) = 5"
proof -
  let ?c = "cross mb_ops sample_hooks (sample_order BUY 102 7 GTC CancelOldest) sample_book 0 (new_matcher PriceTimeFifo) 0"
  have x: "map_option (\<lambda>(out, st). (mo_reject out, cancel_qty (sw_events st))) ?c = Some (RejNone, 5)" by code_simp
  then obtain out st where c: "?c = Some (out, st)" by auto
  from fifo_quantity_conserved [OF sample_book_inv sample_hooks_ok(1) _ _ _ _ _ _ c] c x show ?thesis
    by (simp add: sample_hooks_def i64_max_def)
qed

text \<open>
  C5. Price priority: trades print at prices that never improve for the aggressor as the sweep
  goes on, and no order still resting on the opposite side afterwards is better priced than any
  trade.
\<close>

theorem fifo_price_priority:
  assumes "mb_inv b" and "hooks_ok mb_inv h" and "hk_restingHolds h = None" and "mt_policy mt = PriceTimeFifo"
    and "0 \<le> no_quantity ord" "no_quantity ord \<le> i64_max"
    and "cross mb_ops h ord b e mt prior = Some (out, st)"
  shows "sorted_wrt (\<lambda>t u. \<not> before (opposite (no_side ord)) (tr_price u) (tr_price t)) (trades_of (sw_events st))
    \<and> (\<forall>t \<in> set (trades_of (sw_events st)). \<forall>r \<in> set (mb_orders (sw_book st) (opposite (no_side ord))).
         \<not> before (opposite (no_side ord)) (ro_price r) (tr_price t))"
  using assms(7,4)
proof (cases rule: cross_fifo_cases)
  case (swept mt1)
  note s = sweep_ok_start [of mb_inv b ord mt1 mt e, OF assms(1,5) swept(3)]
  from mbk.price_loop [OF swept(1) s assms(2,6,3)] show ?thesis by (simp add: mbk.price_ok_def)
qed simp

theorem fifo_price_priority_witness:
  "\<exists>out st. cross mb_ops sample_hooks (sample_order BUY 102 7 GTC StpNone) sample_book 0
      (new_matcher PriceTimeFifo) 0 = Some (out, st)
      \<and> map tr_price (trades_of (sw_events st)) = [100, 101]
      \<and> sorted_wrt (\<lambda>t u. \<not> before SELL (tr_price u) (tr_price t)) (trades_of (sw_events st))"
proof -
  let ?c = "cross mb_ops sample_hooks (sample_order BUY 102 7 GTC StpNone) sample_book 0 (new_matcher PriceTimeFifo) 0"
  have x: "map_option (\<lambda>(out, st). map tr_price (trades_of (sw_events st))) ?c = Some [100, 101]" by code_simp
  then obtain out st where c: "?c = Some (out, st)" by auto
  from fifo_price_priority [OF sample_book_inv sample_hooks_ok(1) _ _ _ _ c] c x show ?thesis
    by (simp add: sample_hooks_def i64_max_def)
qed



text \<open>
  C3. All or none under price-time priority: a fill-or-kill order under no self-trade prevention, or one
  that cancels the resting side, over the reference book without a resting-hold hook (and, with last look
  installed, with the quantity resting against it within 64 bits), either fills completely, whatever the
  risk limits allowed each maker, or is refused with no event printed and the book untouched. The pro-rata
  policy runs the same plan and does not keep this promise: \<open>prorata_fok_partial_fill\<close>.
\<close>

theorem fok_all_or_none:
  assumes "mb_inv b" and "hooks_ok mb_inv h" and "hk_restingHolds h = None" and "mt_policy mt = PriceTimeFifo"
    and "0 \<le> no_quantity ord" "no_quantity ord \<le> i64_max" and "no_tif ord = FOK"
    and "no_stp ord \<in> {StpNone, CancelOldest}"
    and "hk_lastLook h \<noteq> None \<longrightarrow> resting_total (mb_orders b (opposite (no_side ord))) \<le> i64_max"
    and "cross mb_ops h ord b e mt prior = Some (out, st)"
  shows "if mo_reject out = RejNone
    then mo_filled out = no_quantity ord \<and> mo_leaves out = 0 \<and> mo_takerComplete out
      \<and> trade_qty (sw_events st) = no_quantity ord
    else mo_filled out = 0 \<and> sw_events st = [] \<and> sw_book st = b"
  using assms(10,4)
proof (cases rule: cross_fifo_cases)
  case (swept mt1)
  note s = sweep_ok_start [of mb_inv b ord mt1 mt e, OF assms(1,5) swept(3)]
  have "mbk.plan_covers h ord (start_sweep ord b e mt1)"
    using mbk.plan_start [OF assms(1) swept(6) [OF assms(7)] _ assms(9)] by simp
  from mbk.fok_loop [OF swept(1) s assms(2,6,3,8) this] mbk.sweep_ok_loop [OF swept(1) s assms(2,6)]
  show ?thesis by (auto simp: swept(2) sweep_ok_def) (simp add: finish_def Let_def)
qed auto

theorem fok_all_or_none_witness:
  "\<exists>out st. cross mb_ops sample_hooks (sample_order BUY 102 10 FOK CancelOldest) sample_book 0
      (new_matcher PriceTimeFifo) 0 = Some (out, st) \<and> mo_filled out = 10 \<and> mo_takerComplete out"
proof -
  let ?c = "cross mb_ops sample_hooks (sample_order BUY 102 10 FOK CancelOldest) sample_book 0 (new_matcher PriceTimeFifo) 0"
  have x: "map_option (\<lambda>(out, st). mo_reject out) ?c = Some RejNone" by code_simp
  then obtain out st where c: "?c = Some (out, st)" by auto
  from fok_all_or_none [OF sample_book_inv sample_hooks_ok(1) _ _ _ _ _ _ _ c] c x show ?thesis
    by (simp add: sample_hooks_def i64_max_def)
qed

text \<open>
  The promise does not extend to the other self-trade-prevention modes: a fill-or-kill buy
  of 10 with \<^verbatim>\<open>CancelNewest\<close> meets 5 of another account, then 5 of its own, then 5 more. The
  precheck skips its own order and approves 10; the sweep prints 5 and is then cancelled by
  self-trade prevention, so the order is neither filled nor killed.
\<close>

theorem fok_partial_fill_under_cancel_newest:
  "map_option (\<lambda>(out, st). (mo_reject out, mo_filled out, mo_residualCanceled out, fills_of (sw_events st)))
     (cross mb_ops sample_hooks (sample_order BUY 102 10 FOK CancelNewest) sample_book 0
        (new_matcher PriceTimeFifo) 0)
   = Some (RejNone, 5, True, [(1, 100, 5)])"
  by code_simp

text \<open>
  A post-only order never takes: its cross prints no trade and leaves the book as it was,
  and it is refused exactly when the best opposite order is inside its limit.
\<close>

theorem post_only_never_takes:
  assumes "mt_policy mt = PriceTimeFifo" and "no_postOnly ord" and "cross mb_ops h ord b e mt prior = Some (out, st)"
  shows "sw_events st = [] \<and> sw_book st = b \<and> mo_filled out = 0
    \<and> (mo_reject out = PostOnlyWouldCross \<longleftrightarrow>
         (\<exists>m. mb_peekBest b (opposite (no_side ord)) = Some m
            \<and> crosses (no_side ord) (no_price ord) (no_type ord) (ro_price m)))"
proof -
  have iff: "post_only_blocked mb_ops ord b \<longleftrightarrow> (\<exists>m. mb_peekBest b (opposite (no_side ord)) = Some m
      \<and> crosses (no_side ord) (no_price ord) (no_type ord) (ro_price m))"
    using assms(2) by (auto simp: post_only_blocked_def mb_ops_def split: option.splits)
  from assms(3,1) show ?thesis
  proof (cases rule: cross_fifo_cases)
    case rejected
    then show ?thesis using iff by blast
  next
    case (swept mt1)
    then show ?thesis using mbk.post_only_sweep [OF swept(1) assms(2) swept(4)] iff by auto
  qed
qed

theorem post_only_never_takes_witness:
  "\<exists>out st. cross mb_ops sample_hooks ((sample_order BUY 102 7 GTC StpNone)\<lparr>no_postOnly := True\<rparr>) sample_book 0
      (new_matcher PriceTimeFifo) 0 = Some (out, st) \<and> sw_events st = [] \<and> mo_reject out = PostOnlyWouldCross"
proof -
  let ?c = "cross mb_ops sample_hooks ((sample_order BUY 102 7 GTC StpNone)\<lparr>no_postOnly := True\<rparr>) sample_book 0
    (new_matcher PriceTimeFifo) 0"
  have x: "map_option (\<lambda>(out, st). mo_reject out) ?c = Some PostOnlyWouldCross" by code_simp
  then obtain out st where c: "?c = Some (out, st)" by auto
  from post_only_never_takes [OF _ _ c] c x show ?thesis by simp
qed

text \<open>
  Execution reports are truthful: after one bite, the maker report carries exactly what the
  book now holds for that order. A maker that is gone was reported complete with nothing left;
  one that remains, an iceberg that refilled its peak included, was reported with its whole
  remaining size, its displayed size and its running fill total.
\<close>

theorem maker_report_truthful:
  assumes "mb_inv (sw_book st)" and "mb_peekBest (sw_book st) (opposite (no_side ord)) = Some m"
    and "0 < q" "q \<le> ro_leaves m"
  shows "\<exists>x. OrderExecuted x \<in> set (sw_events (fifo_trade mb_ops h ord prior m q st)) \<and> ex_id x = ro_id m
    \<and> \<not> ex_aggressor x \<and> ex_lastQty x = q \<and> ex_lastPx x = ro_price m
    \<and> (case mb_find (sw_book (fifo_trade mb_ops h ord prior m q st)) (ro_id m) of
          None \<Rightarrow> ex_complete x \<and> ex_leavesQty x = 0
        | Some r \<Rightarrow> \<not> ex_complete x \<and> ex_leavesQty x = total_qty r \<and> ex_displayLeaves x = ro_leaves r
            \<and> ex_cumQty x = ro_cumQty r)"
proof -
  have p: "bk_peekBest mb_ops (sw_book st) (opposite (no_side ord)) = Some m" using assms(2) by (simp add: mb_ops_def)
  have wf: "wf_order m" using mbk.peek_wf [OF assms(1) p] .
  have sub: "dec_sub (total_qty m) q = total_qty m - q" "dec_sub (ro_leaves m) q = ro_leaves m - q"
    "dec_add (ro_cumQty m) q = ro_cumQty m + q"
    using wf assms(3,4) by (auto simp: total_qty_exact wf_order_def intro!: dec_sub_nonneg dec_add_nonneg)
  note truth = mbk.report_truthful [OF assms(1) p assms(3,4)]
  have f: "bk_find mb_ops = mb_find" by (simp add: mb_ops_def)
  show ?thesis
    using truth unfolding f
    by (intro exI [of _ "\<lparr>ex_id = ro_id m, ex_symbol = no_symbol ord, ex_lastQty = q, ex_leavesQty = total_qty m - q,
          ex_aggressor = False, ex_complete = (total_qty m - q = 0), ex_lastPx = ro_price m,
          ex_displayLeaves = (if q < ro_leaves m then ro_leaves m - q else qmin (ro_peak m) (ro_hidden m)),
          ex_account = ro_accountId m, ex_clientOrderId = ro_clientOrderId m, ex_cumQty = ro_cumQty m + q\<rparr>"])
      (auto simp: maker_report_def sub qmin_min split: option.splits)
qed

theorem maker_report_truthful_witness:
  "\<exists>x. OrderExecuted x \<in> set (sw_events (fifo_trade mb_ops sample_hooks (sample_order BUY 100 2 GTC StpNone) 0
      (sample_rest 1 5 SELL 100 5) 2
      (start_sweep (sample_order BUY 100 2 GTC StpNone) sample_book 0 (new_matcher PriceTimeFifo)))) \<and> ex_lastQty x = 2"
proof -
  have "mb_peekBest sample_book SELL = Some (sample_rest 1 5 SELL 100 5)" by code_simp
  moreover have "ro_leaves (sample_rest 1 5 SELL 100 5) = 5" by (simp add: sample_rest_def)
  ultimately show ?thesis
    using maker_report_truthful [of "start_sweep (sample_order BUY 100 2 GTC StpNone) sample_book 0 (new_matcher PriceTimeFifo)"
        "sample_order BUY 100 2 GTC StpNone" "sample_rest 1 5 SELL 100 5" 2 sample_hooks 0] sample_book_inv
    by (simp del: fifo_trade_sel) blast
qed

end
