(* ===== verification/ProRata.thy ===== *)
theory ProRata
  imports MatchProps
begin

section \<open>Pro-rata matching\<close>

text \<open>
  Correctness of \<^verbatim>\<open>Matcher::crossProRata\<close>: the allocation of one level (a floor share for every
  participant, the remainder first come first served), and the sweep over levels.
\<close>

subsection \<open>The allocation of one level\<close>

lemma spread_remainder_spec:
  assumes "list_all2 (\<lambda>a x. 0 \<le> x \<and> x \<le> a) allocable alloc" and "0 \<le> leftover"
    and "leftover \<le> sum_list allocable - sum_list alloc"
  shows "list_all2 (\<lambda>a y. 0 \<le> y \<and> y \<le> a) allocable (spread_remainder leftover allocable alloc)
    \<and> list_all2 (\<le>) alloc (spread_remainder leftover allocable alloc)
    \<and> sum_list (spread_remainder leftover allocable alloc) = sum_list alloc + leftover"
  using assms
proof (induction allocable alloc arbitrary: leftover rule: list_all2_induct)
  case (Cons a allocable x alloc)
  have refl: "list_all2 (\<le>) ys ys" for ys :: "int list" by (simp add: list_all2_refl)
  show ?case
  proof (cases "leftover \<le> 0")
    case True
    then show ?thesis using Cons refl by simp
  next
    case False
    let ?add = "min (a - x) leftover"
    have "leftover - ?add \<le> sum_list allocable - sum_list alloc"
    proof (cases "leftover \<le> a - x")
      case True
      have "list_all2 (\<le>) alloc allocable" using Cons.hyps(2) by (simp add: list_all2_conv_all_nth)
      then have "sum_list alloc \<le> sum_list allocable" by (induction rule: list_all2_induct) auto
      with True show ?thesis by simp
    qed (use Cons.prems in auto)
    moreover have "0 \<le> leftover - ?add" by simp
    ultimately show ?thesis
      using Cons.IH [of "leftover - ?add"] Cons.IH [of leftover] Cons.prems Cons.hyps False
      by (auto simp: Let_def min_def split: if_splits)
  qed
qed simp

lemma floor_sum_le:
  fixes tot :: int
  assumes "0 < tot" "0 \<le> want" "\<forall>a \<in> set xs. 0 \<le> a"
  shows "tot * sum_list (map (\<lambda>a. want * a div tot) xs) \<le> want * sum_list xs"
  using assms(3)
proof (induction xs)
  case (Cons a xs)
  have "tot * (want * a div tot) \<le> want * a" 
    using mult_div_mod_eq [of tot "want * a"] pos_mod_sign [OF assms(1), of "want * a"] by linarith
  with Cons show ?case by (simp add: distrib_left)
qed simp

lemma floor_alloc_spec:
  assumes "0 < sum_list allocable" "0 \<le> want" "want \<le> sum_list allocable" "\<forall>a \<in> set allocable. 0 \<le> a"
  defines "tot \<equiv> sum_list allocable"
  shows "floor_alloc want tot allocable = map (\<lambda>a. want * a div tot) allocable"
    and "list_all2 (\<lambda>a x. 0 \<le> x \<and> x \<le> a) allocable (floor_alloc want tot allocable)"
    and "sum_list (floor_alloc want tot allocable) \<le> want"
proof -
  show eq: "floor_alloc want tot allocable = map (\<lambda>a. want * a div tot) allocable"
    unfolding floor_alloc_def
  proof (rule map_cong [OF refl])
    fix a assume "a \<in> set allocable"
    then have "0 \<le> a" using assms(4) by blast
    then show "(if a \<le> 0 then 0 else want * a sdiv tot) = want * a div tot"
      using assms(1,2) by (auto simp: tot_def sdiv_nonneg)
  qed
  have "0 \<le> want * a div tot \<and> want * a div tot \<le> a" if "a \<in> set allocable" for a
  proof -
    have a: "0 \<le> a" using that assms(4) by blast
    have "want * a \<le> tot * a" using assms(3) a by (simp add: tot_def mult_right_mono)
    then have "want * a div tot \<le> a"
      using zdiv_mono1 [of "want * a" "tot * a" tot] assms(1) by (simp add: tot_def)
    then show ?thesis using assms(1,2) a by (simp add: tot_def pos_imp_zdiv_nonneg_iff)
  qed
  then show "list_all2 (\<lambda>a x. 0 \<le> x \<and> x \<le> a) allocable (floor_alloc want tot allocable)"
    unfolding eq by (simp add: list_all2_map2 list_all2_same)
  have "tot * sum_list (floor_alloc want tot allocable) \<le> want * tot"
    unfolding eq using floor_sum_le [OF assms(1,2,4)] by (simp add: tot_def)
  then show "sum_list (floor_alloc want tot allocable) \<le> want"
    using assms(1) by (simp add: tot_def mult.commute)
qed

lemma prorata_alloc_spec:
  assumes "0 < sum_list allocable" "0 \<le> want" "want \<le> sum_list allocable" "\<forall>a \<in> set allocable. 0 \<le> a"
  shows "list_all2 (\<lambda>a y. 0 \<le> y \<and> y \<le> a) allocable (prorata_alloc want allocable)"
    and "sum_list (prorata_alloc want allocable) = want"
    and "list_all2 (\<lambda>a y. want * a div sum_list allocable \<le> y) allocable (prorata_alloc want allocable)"
proof -
  note f = floor_alloc_spec [OF assms]
  note s = spread_remainder_spec [OF f(2), of "want - sum_list (floor_alloc want (sum_list allocable) allocable)"]
  show "list_all2 (\<lambda>a y. 0 \<le> y \<and> y \<le> a) allocable (prorata_alloc want allocable)"
    "sum_list (prorata_alloc want allocable) = want"
    using s f(3) assms(3) by (simp_all add: prorata_alloc_def Let_def)
  have "list_all2 (\<le>) (map (\<lambda>a. want * a div sum_list allocable) allocable) (prorata_alloc want allocable)"
    using s f(3) assms(3) by (simp add: prorata_alloc_def Let_def flip: f(1))
  then show "list_all2 (\<lambda>a y. want * a div sum_list allocable \<le> y) allocable (prorata_alloc want allocable)"
    by (simp add: list_all2_map1)
qed

subsection \<open>One level\<close>

lemma allocable_one_spec:
  assumes "allocable_one h ord e m (room, mt) = (sz, room', mt')" and "wf_order m"
  shows "0 \<le> sz \<and> sz \<le> ro_leaves m \<and> room' \<le> room
    \<and> mt_stpGroup mt' = mt_stpGroup mt \<and> mt_planActive mt' = mt_planActive mt \<and> mt_plan mt' = mt_plan mt"
proof -
  have "0 < ro_leaves m" using assms(2) by (simp add: wf_order_def)
  with assms(1) show ?thesis
    by (auto simp: allocable_one_def Let_def dest!: plannedBite_cursor split: if_splits prod.splits option.splits)
qed

lemma allocable_level_spec:
  assumes "allocable_level h ord e level (room, mt) = (szs, room', mt')" and "\<forall>m \<in> set level. wf_order m"
  shows "list_all2 (\<lambda>m a. 0 \<le> a \<and> a \<le> ro_leaves m) level szs \<and> room' \<le> room
    \<and> mt_stpGroup mt' = mt_stpGroup mt \<and> mt_planActive mt' = mt_planActive mt \<and> mt_plan mt' = mt_plan mt"
  using assms
proof (induction level arbitrary: room mt szs room' mt')
  case (Cons m ms)
  obtain sz r1 m1 where one: "allocable_one h ord e m (room, mt) = (sz, r1, m1)" by (metis prod_cases3)
  obtain szs' r2 m2 where rest: "allocable_level h ord e ms (r1, m1) = (szs', r2, m2)" by (metis prod_cases3)
  have "szs = sz # szs'" "room' = r2" "mt' = m2" using Cons.prems(1) one rest by auto
  moreover have "wf_order m" "\<forall>x \<in> set ms. wf_order x" using Cons.prems(2) by auto
  ultimately show ?case using allocable_one_spec [OF one] Cons.IH [OF rest] by auto
qed simp

lemma prorata_fill_sel [simp]:
  assumes "0 < a"
  shows "sw_book (prorata_fill B h ord prior px (m, a) st) = bk_consumeById B (sw_book st) (ro_id m) a"
    and "sw_mt (prorata_fill B h ord prior px (m, a) st) = spendPlan (sw_mt st) (ro_id m) a"
    and "sw_leaves (prorata_fill B h ord prior px (m, a) st) = sw_leaves st - a"
    and "sw_filled (prorata_fill B h ord prior px (m, a) st) = dec_add (sw_filled st) a"
    and "trades_of (sw_events (prorata_fill B h ord prior px (m, a) st)) = trades_of (sw_events st)
      @ trades_of [trade_event (fst (hk_nextTradeId h (sw_env st))) ord m px a]"
    and "sw_stop (prorata_fill B h ord prior px (m, a) st) = sw_stop st"
  using assms
  by (simp_all add: prorata_fill_def Let_def split_beta trades_of_append report_projections)
    (simp add: trade_event_def maker_report_def taker_report_def trades_of_append)

lemma prorata_fill_zero: "a \<le> 0 \<Longrightarrow> prorata_fill B h ord prior px (m, a) st = st"
  by (simp add: prorata_fill_def)

lemma stp_level_none:
  "no_stp ord \<noteq> StpNone \<Longrightarrow> stp_level B h ord level st = (StpNotApplicable, st1) \<Longrightarrow>
   st1 = st \<and> (\<forall>m \<in> set level. \<not> skipStp (sw_mt st) ord m)"
proof (induction level)
  case (Cons m ms)
  have "fst (stp_decrement B h ord m x) \<noteq> StpNotApplicable" for x
    using stp_decrement_outcome [of B h ord m x] by auto
  then have "fst (applySelfTradePrevention B h ord m st) = StpNotApplicable \<Longrightarrow>
      \<not> skipStp (sw_mt st) ord m \<and> snd (applySelfTradePrevention B h ord m st) = st"
    using Cons.prems(1)
    by (auto simp: applySelfTradePrevention_def skipStp_def split: prod.splits if_splits stp_mode.splits)
  then show ?case using Cons
    by (cases "applySelfTradePrevention B h ord m st") (auto split: stp_outcome.splits)
qed simp

context resting_book
begin

lemma stp_one:
  assumes "applySelfTradePrevention B h ord m st = (so, st1)" "so \<noteq> StpNotApplicable"
    and ok: "sweep_ok inv mt ord st" "0 < sw_leaves st" "hooks_ok inv h" and m: "m \<in> set (orders (sw_book st) s)"
  shows "sweep_ok inv mt ord st1 \<and> sw_stop st1 = sw_stop st \<and>
    (hk_restingHolds h = None \<longrightarrow> s = opposite (no_side ord) \<longrightarrow>
       sweep_measure ord st1 \<le> sweep_measure ord st
       \<and> (so = StpRePeek \<longrightarrow> sweep_measure ord st1 < sweep_measure ord st))"
proof -
  have i: "inv (sw_book st)" using ok by (simp add: sweep_ok_def)
  obtain r st2 where r: "resolve_holds h (ro_id m) st = (r, st2)" by (cases "resolve_holds h (ro_id m) st")
  note cases = resolve_holds_cases [OF ok(3) i r]
  have len: "List.length (orders (snd (bk_cancel B (sw_book st) (ro_id m))) s) < List.length (orders (sw_book st) s)"
    using cancel_head [OF i, of "ro_id m" s] m by (auto simp: spec_remove_def intro: length_filter_less)
  show ?thesis
  proof (cases r)
    case True
    then have "so = StpRePeek" "st1 = st2" "hk_restingHolds h \<noteq> None"
      using assms(1,2) r cases by (auto simp: applySelfTradePrevention_def split: if_splits)
    moreover have "sweep_ok inv mt ord st2 \<and> sw_stop st2 = sw_stop st"
      using True cases ok i unfolding hooks_ok_def sweep_ok_def by fastforce
    ultimately show ?thesis by blast
  next
    case False
    then have "st2 = st" using cases by blast
    then have s1: "(so, st1) \<in> {(StpRePeek, pull_maker B h ord SelfTradePrevention m st), (StpCancelTaker, st),
        (StpCancelTaker, pull_maker B h ord SelfTradePrevention m st), stp_decrement B h ord m st}"
      using assms(1,2) r False by (auto simp: applySelfTradePrevention_def split: if_splits stp_mode.splits)
    show ?thesis
    proof (cases "(so, st1) = stp_decrement B h ord m st")
      case True
      note d = stp_decrement_sel [OF True [symmetric]]
      have pos: "0 < total_qty m" using member_wf [OF i m] by (rule total_qty_pos)
      have "List.length (orders (sw_book st1) s) \<le> List.length (orders (sw_book st) s)"
        using d(9) len ok(2) trimmed [OF i m] by (auto simp: spec_replace_def)
      then show ?thesis
        using sweep_ok_decrement [OF ok(1,2) m True [symmetric]] d pos ok(2) by (auto simp: sweep_measure_def qmin_def)
    next
      case False
      then show ?thesis using s1 ok(1) sweep_ok_pull [OF ok(1)] len by (auto simp: sweep_measure_def)
    qed
  qed
qed

lemma stp_level_step:
  assumes "stp_level B h ord level st = (so, st1)" "so \<noteq> StpNotApplicable" "no_stp ord \<noteq> StpNone"
    and ok: "sweep_ok inv mt ord st" "0 < sw_leaves st" "hooks_ok inv h" and m: "set level \<subseteq> set (orders (sw_book st) s)"
  shows "sweep_ok inv mt ord st1 \<and> sw_stop st1 = sw_stop st \<and>
    (hk_restingHolds h = None \<longrightarrow> s = opposite (no_side ord) \<longrightarrow>
       sweep_measure ord st1 \<le> sweep_measure ord st
       \<and> (so = StpRePeek \<longrightarrow> sweep_measure ord st1 < sweep_measure ord st))"
  using assms(1,2) m
proof (induction level)
  case (Cons x xs)
  obtain o1 s1 where a: "applySelfTradePrevention B h ord x st = (o1, s1)" by (cases "applySelfTradePrevention B h ord x st")
  show ?case
  proof (cases "o1 = StpNotApplicable")
    case True
    have "stp_level B h ord [x] st = (StpNotApplicable, s1)" using a True by simp
    then have "s1 = st" using stp_level_none [OF assms(3)] by blast
    then show ?thesis using Cons a True by simp
  next
    case False
    then have "(so, st1) = (o1, s1)" using Cons.prems(1) a by (cases o1) auto
    then show ?thesis using stp_one [OF a False ok, of s] Cons.prems(3) by auto
  qed
qed simp

lemma length_spec_insert: "List.length (spec_insert s x ys) = Suc (List.length ys)"
  by (induction ys) auto

lemma length_consume_any:
  assumes "side_ok s rs" "distinct (map ro_id rs)" "r \<in> set rs" "0 < q" "q \<le> ro_leaves r"
  shows "List.length (spec_consume s (ro_id r) q rs) \<le> List.length rs"
proof -
  have rem: "List.length (spec_remove (ro_id r) rs) < List.length rs"
    using assms(3) by (auto simp: spec_remove_def intro: length_filter_less)
  from assms(1-3) refl assms(4,5) show ?thesis
  proof (cases rule: spec_consume_cases)
    case partial
    then show ?thesis by (simp add: spec_replace_def)
  next
    case next_peak
    then show ?thesis using rem by (simp add: length_spec_insert)
  next
    case gone
    then show ?thesis using rem by simp
  qed
qed

lemma prorata_fill_step:
  fixes h :: "('b, 'e) hooks" and prior :: int
  assumes ok: "sweep_ok inv mt ord st" "no_quantity ord \<le> i64_max"
    and m: "m \<in> set (orders (sw_book st) s)" "0 < a" "a \<le> ro_leaves m" "a \<le> sw_leaves st"
    and x: "crosses (no_side ord) (no_price ord) (no_type ord) px" and n: "\<not> skipStp (sw_mt st) ord m"
  defines "st' \<equiv> prorata_fill B h ord prior px (m, a) st"
  shows "sweep_ok inv mt ord st'" and "sw_leaves st' = sw_leaves st - a" and "sw_stop st' = sw_stop st"
    and "List.length (orders (sw_book st') s) \<le> List.length (orders (sw_book st) s)"
    and "y \<in> set (orders (sw_book st) s) \<Longrightarrow> ro_id y \<noteq> ro_id m \<Longrightarrow> y \<in> set (orders (sw_book st') s)"
    and "stpScope (sw_mt st') = stpScope (sw_mt st)"
proof -
  have i: "inv (sw_book st)" and g: "mt_stpGroup (sw_mt st) = mt_stpGroup mt" using ok(1) by (simp_all add: sweep_ok_def)
  note c = consumed [OF i m(1-3)]
  have side: "side_ok s (orders (sw_book st) s)" "distinct (map ro_id (orders (sw_book st) s))"
    using inv_ok [OF i] by (auto intro: book_ok_side book_ok_distinct)
  show l: "sw_leaves st' = sw_leaves st - a" "sw_stop st' = sw_stop st" using m by (simp_all add: st'_def)
  have "no_stp ord \<noteq> StpNone \<longrightarrow> stpScope mt (ro_accountId m) \<noteq> stpScope mt (no_accountId ord)"
    using n stpScope_cong [OF g] by (auto simp: skipStp_def)
  moreover have "dec_add (sw_filled st) a = sw_filled st + a" using sweep_ok_exact(2) [OF ok(1) m(2,4) ok(2)] .
  ultimately show "sweep_ok inv mt ord st'"
    using ok(1) m(2,4) x c unfolding sweep_ok_def st'_def
    by (simp add: trade_qty_def trade_event_projection trade_ok_def)
  show "List.length (orders (sw_book st') s) \<le> List.length (orders (sw_book st) s)"
    using c m(2) length_consume_any [OF side m(1-3)] by (simp add: st'_def)
  show "y \<in> set (orders (sw_book st) s) \<Longrightarrow> ro_id y \<noteq> ro_id m \<Longrightarrow> y \<in> set (orders (sw_book st') s)"
    using c m(2) consume_members(1) [OF side m(1-3)] by (auto simp: st'_def)
  show "stpScope (sw_mt st') = stpScope (sw_mt st)" using m(2) by (simp add: st'_def)
qed

lemma prorata_fills:
  assumes "sweep_ok inv mt ord st" "no_quantity ord \<le> i64_max"
    and "crosses (no_side ord) (no_price ord) (no_type ord) px"
    and "\<forall>(m, a) \<in> set zs. m \<in> set (orders (sw_book st) s) \<and> 0 \<le> a \<and> a \<le> ro_leaves m \<and> \<not> skipStp (sw_mt st) ord m"
    and "distinct (map (ro_id \<circ> fst) zs)" "sum_list (map snd zs) \<le> sw_leaves st"
  shows "sweep_ok inv mt ord (fold (prorata_fill B h ord prior px) zs st)
    \<and> sw_leaves (fold (prorata_fill B h ord prior px) zs st) = sw_leaves st - sum_list (map snd zs)
    \<and> sw_stop (fold (prorata_fill B h ord prior px) zs st) = sw_stop st
    \<and> List.length (orders (sw_book (fold (prorata_fill B h ord prior px) zs st)) s) \<le> List.length (orders (sw_book st) s)"
  using assms(1,4-6)
proof (induction zs arbitrary: st)
  case (Cons z zs)
  obtain m a where z: "z = (m, a)" by (cases z)
  have nn: "0 \<le> sum_list (map snd zs)" using Cons.prems(2) by (intro sum_list_nonneg) auto
  have m: "m \<in> set (orders (sw_book st) s)" "0 \<le> a" "a \<le> ro_leaves m" "\<not> skipStp (sw_mt st) ord m"
    using Cons.prems(2) z by auto
  show ?case
  proof (cases "a = 0")
    case True
    then show ?thesis using Cons.IH [of st] Cons.prems z by (auto simp: prorata_fill_zero)
  next
    case False
    then have "0 < a" "a \<le> sw_leaves st" using m(2) Cons.prems(4) z nn by auto
    note f = prorata_fill_step [OF Cons.prems(1) assms(2) m(1) this(1) m(3) this(2) assms(3) m(4), where h = h and prior = prior]
    have "\<forall>(y, b) \<in> set zs. ro_id y \<noteq> ro_id m" using Cons.prems(3) z by force
    with f(5) Cons.prems(2) have "\<forall>(y, b) \<in> set zs. y \<in> set (orders (sw_book (prorata_fill B h ord prior px (m, a) st)) s)
        \<and> 0 \<le> b \<and> b \<le> ro_leaves y \<and> \<not> skipStp (sw_mt (prorata_fill B h ord prior px (m, a) st)) ord y"
      by (fastforce simp: skipStp_def f(6))
    from Cons.IH [OF f(1) this] f(2-4) Cons.prems(3,4) z show ?thesis by auto
  qed
qed auto

lemma zip_level:
  assumes "list_all2 (\<lambda>m a. 0 \<le> a \<and> a \<le> ro_leaves m) level szs" "list_all2 (\<lambda>a y. 0 \<le> y \<and> y \<le> a) szs alloc"
  shows "\<forall>(m, a) \<in> set (zip level alloc). m \<in> set level \<and> 0 \<le> a \<and> a \<le> ro_leaves m"
    and "List.length alloc = List.length level"
proof -
  have "list_all2 (\<lambda>m y. 0 \<le> y \<and> y \<le> ro_leaves m) level alloc"
    by (rule list_all2_trans [OF _ assms]) auto
  then show "\<forall>(m, a) \<in> set (zip level alloc). m \<in> set level \<and> 0 \<le> a \<and> a \<le> ro_leaves m"
    "List.length alloc = List.length level"
    by (auto simp: list_all2_iff dest: set_zip_leftD)
qed

lemma allocation_ok:
  assumes lv: "set level \<subseteq> set (orders (sw_book st) s)" "distinct (map ro_id level)"
      "\<forall>m \<in> set level. \<not> skipStp (sw_mt st) ord m"
    and szs: "list_all2 (\<lambda>m a. 0 \<le> a \<and> a \<le> ro_leaves m) level szs"
    and w: "0 < sum_list szs" "0 < want" "want \<le> sum_list szs"
  shows "\<forall>(m, v) \<in> set (zip level (prorata_alloc want szs)).
      m \<in> set (orders (sw_book st) s) \<and> 0 \<le> v \<and> v \<le> ro_leaves m \<and> \<not> skipStp (sw_mt st) ord m"
    and "distinct (map (ro_id \<circ> fst) (zip level (prorata_alloc want szs)))"
    and "sum_list (map snd (zip level (prorata_alloc want szs))) = want"
proof -
  have nn: "\<forall>v \<in> set szs. 0 \<le> v" using szs by (auto simp: list_all2_conv_all_nth in_set_conv_nth)
  have w0: "0 \<le> want" using w(2) by simp
  note p = prorata_alloc_spec [OF w(1) w0 w(3) nn]
  note z = zip_level [OF szs p(1)]
  show "\<forall>(m, v) \<in> set (zip level (prorata_alloc want szs)).
      m \<in> set (orders (sw_book st) s) \<and> 0 \<le> v \<and> v \<le> ro_leaves m \<and> \<not> skipStp (sw_mt st) ord m"
    using z(1) lv(1,3) by blast
  have "map (ro_id \<circ> fst) (zip level (prorata_alloc want szs)) = map ro_id level"
    using z(2) by (metis map_fst_zip map_map)
  then show "distinct (map (ro_id \<circ> fst) (zip level (prorata_alloc want szs)))" using lv(2) by simp
  show "sum_list (map snd (zip level (prorata_alloc want szs))) = want" using p(2) z(2) by (simp add: map_snd_zip)
qed

lemma prorata_allocate_fills:
  assumes ok: "sweep_ok inv mt ord st" "no_quantity ord \<le> i64_max"
    and lv: "set level \<subseteq> set (orders (sw_book st) s)" "distinct (map ro_id level)"
      "\<forall>m \<in> set level. \<not> skipStp (sw_mt st) ord m"
    and x: "crosses (no_side ord) (no_price ord) (no_type ord) px"
    and szs: "list_all2 (\<lambda>m a. 0 \<le> a \<and> a \<le> ro_leaves m) level szs"
    and w: "0 < sum_list szs" "0 < want" "want \<le> sum_list szs" "want \<le> sw_leaves st"
  defines "zs \<equiv> zip level (prorata_alloc want szs)"
  shows "sweep_ok inv mt ord (fold (prorata_fill B h ord prior px) zs st)
    \<and> sw_leaves (fold (prorata_fill B h ord prior px) zs st) = sw_leaves st - want
    \<and> sw_stop (fold (prorata_fill B h ord prior px) zs st) = sw_stop st
    \<and> List.length (orders (sw_book (fold (prorata_fill B h ord prior px) zs st)) s) \<le> List.length (orders (sw_book st) s)"
  using prorata_fills [OF ok x _ _ _, of zs s h prior] allocation_ok [OF lv szs w(1-3)] w(4)
  unfolding zs_def by simp

lemma prorata_allocate_step:
  assumes ok: "sweep_ok inv mt ord st" "0 < sw_leaves st" "no_quantity ord \<le> i64_max"
    and lv: "set level \<subseteq> set (orders (sw_book st) s)" "distinct (map ro_id level)"
      "\<forall>m \<in> set level. \<not> skipStp (sw_mt st) ord m"
    and x: "crosses (no_side ord) (no_price ord) (no_type ord) px"
    and st': "st' = prorata_allocate B h ord prior px level st"
  shows "sweep_ok inv mt ord st' \<and>
    (sw_stop st' \<and> sw_leaves st' \<le> sw_leaves st \<or> sw_leaves st' < sw_leaves st \<and> sw_stop st' = sw_stop st)
    \<and> List.length (orders (sw_book st') s) \<le> List.length (orders (sw_book st) s)"
proof -
  have i: "inv (sw_book st)" using ok(1) by (simp add: sweep_ok_def)
  obtain szs room mt1 where al: "allocable_level h ord (sw_env st) level (sw_leaves st, sw_mt st) = (szs, room, mt1)"
    by (metis prod_cases3)
  have "\<forall>m \<in> set level. wf_order m" using member_wf [OF i] lv(1) by blast
  note a = allocable_level_spec [OF al this]
  let ?st1 = "st\<lparr>sw_mt := mt1\<rparr>" and ?tot = "sum_list szs"
  have ok1: "sweep_ok inv mt ord ?st1" using ok(1) a by (simp add: sweep_ok_def)
  show ?thesis
  proof (cases "?tot = 0 \<or> room \<le> 0")
    case True
    then have "st' = ?st1\<lparr>sw_stop := True\<rparr>" using al by (simp add: st' prorata_allocate_def Let_def)
    then show ?thesis using ok1 by simp
  next
    case False
    define want where "want = min room ?tot"
    define st2 where "st2 = fold (prorata_fill B h ord prior px) (zip level (prorata_alloc want szs)) ?st1"
    have st2: "st' = (if want < ?tot then st2\<lparr>sw_stop := True\<rparr> else st2)"
      using False al by (simp add: st' prorata_allocate_def Let_def st2_def want_def)
    have "\<forall>v \<in> set szs. 0 \<le> v" using a by (auto simp: list_all2_conv_all_nth in_set_conv_nth)
    then have "0 \<le> ?tot" by (intro sum_list_nonneg) auto
    with False a have w: "0 < ?tot" "0 < want" "want \<le> ?tot" "want \<le> sw_leaves ?st1" by (auto simp: want_def)
    have "\<forall>m \<in> set level. \<not> skipStp mt1 ord m" using lv(3) a stpScope_cong [of mt1 "sw_mt st"] by (simp add: skipStp_def)
    then have "sweep_ok inv mt ord st2 \<and> sw_leaves st2 = sw_leaves st - want \<and> sw_stop st2 = sw_stop st
        \<and> List.length (orders (sw_book st2) s) \<le> List.length (orders (sw_book st) s)"
      using prorata_allocate_fills [OF ok1 ok(3) _ lv(2) _ x conjunct1 [OF a] w, of s h prior] lv(1)
      by (simp add: st2_def)
    then show ?thesis using w(2) by (simp add: st2)
  qed
qed

lemma level_members:
  assumes "inv b"
  shows "set (bk_bestLevel B b s) \<subseteq> set (orders b s)" "distinct (map ro_id (bk_bestLevel B b s))"
proof -
  have "\<exists>n. bk_bestLevel B b s = take n (orders b s)"
  proof (cases "orders b s")
    case Nil
    then show ?thesis using level [OF assms, of s] by simp
  next
    case (Cons r rs)
    then have "bk_bestLevel B b s = takeWhile (\<lambda>x. ro_price x = ro_price r) (orders b s)"
      using level [OF assms, of s] by simp
    then show ?thesis using takeWhile_eq_take [of "\<lambda>x. ro_price x = ro_price r" "orders b s"] by metis
  qed
  then obtain n where n: "bk_bestLevel B b s = take n (orders b s)" by blast
  then show "set (bk_bestLevel B b s) \<subseteq> set (orders b s)" by (auto dest: in_set_takeD)
  show "distinct (map ro_id (bk_bestLevel B b s))"
    using book_ok_distinct [OF inv_ok [OF assms], of s] by (simp add: n distinct_take flip: take_map)
qed

lemma prorata_step_cases:
  obtains (dry) "prorata_step B h ord prior st = st\<lparr>sw_stop := True\<rparr>"
  | (level) m0 so st1 where "bk_peekBest B (sw_book st) (opposite (no_side ord)) = Some m0"
      "crosses (no_side ord) (no_price ord) (no_type ord) (ro_price m0)"
      "(if no_stp ord \<noteq> StpNone then stp_level B h ord (bk_bestLevel B (sw_book st) (opposite (no_side ord))) st
        else (StpNotApplicable, st)) = (so, st1)"
      "prorata_step B h ord prior st = (case so of StpCancelTaker \<Rightarrow> st1\<lparr>sw_stp := True, sw_stop := True\<rparr>
         | StpRePeek \<Rightarrow> st1
         | StpNotApplicable \<Rightarrow>
             prorata_allocate B h ord prior (ro_price m0) (bk_bestLevel B (sw_book st) (opposite (no_side ord))) st1)"
proof (cases "bk_peekBest B (sw_book st) (opposite (no_side ord))")
  case None
  then show ?thesis using dry by (simp add: prorata_step_def)
next
  case (Some m0)
  let ?lv = "bk_bestLevel B (sw_book st) (opposite (no_side ord))"
  obtain so st1 where so: "(if no_stp ord \<noteq> StpNone then stp_level B h ord ?lv st else (StpNotApplicable, st)) = (so, st1)"
    by (rule prod.exhaust)
  show ?thesis
  proof (cases "crosses (no_side ord) (no_price ord) (no_type ord) (ro_price m0) \<and> ?lv \<noteq> []")
    case True
    then show ?thesis using level [OF Some _ so] Some so
      by (cases so) (simp_all add: prorata_step_def Let_def)
  next
    case False
    then show ?thesis using dry Some by (auto simp: prorata_step_def Let_def)
  qed
qed

lemma prorata_step_spec:
  assumes ok: "sweep_ok inv mt ord st" "sweep_going st" "hooks_ok inv h" "no_quantity ord \<le> i64_max"
  shows "sweep_ok inv mt ord (prorata_step B h ord prior st) \<and>
    (hk_restingHolds h = None \<longrightarrow> sweep_measure ord (prorata_step B h ord prior st) < sweep_measure ord st)"
proof -
  let ?s = "opposite (no_side ord)"
  have i: "inv (sw_book st)" and l: "0 < sw_leaves st" and ns: "\<not> sw_stop st"
    using ok(1,2) by (auto simp: sweep_ok_def sweep_going_def)
  let ?lv = "bk_bestLevel B (sw_book st) ?s"
  show ?thesis
  proof (cases rule: prorata_step_cases [of h ord prior st])
    case dry
    then show ?thesis using ok(1) ns by (simp add: sweep_measure_def)
  next
    case (level m0 so st1)
    show ?thesis
    proof (cases "so = StpNotApplicable")
      case True
      then have n: "st1 = st" "\<forall>m \<in> set ?lv. \<not> skipStp (sw_mt st) ord m"
        using level(3) stp_level_none [of ord B h ?lv st st1] by (auto simp: skipStp_def split: if_splits)
      then have "prorata_step B h ord prior st = prorata_allocate B h ord prior (ro_price m0) ?lv st"
        using level(4) True by simp
      from prorata_allocate_step [OF ok(1) l ok(4) level_members [OF i] n(2) level(2) this] show ?thesis
        using ns l by (auto simp: sweep_measure_def)
    next
      case False
      then have st: "stp_level B h ord ?lv st = (so, st1)" "no_stp ord \<noteq> StpNone" using level(3) by (auto split: if_splits)
      from stp_level_step [OF st(1) False st(2) ok(1) l ok(3) level_members(1) [OF i]] show ?thesis
        using level(4) False ns by (cases so) (auto simp: sweep_measure_def)
    qed
  qed
qed

lemma prorata_loop_sound:
  assumes "prorata_loop B h ord prior st = Some st'" "sweep_ok inv mt ord st" "hooks_ok inv h" "no_quantity ord \<le> i64_max"
  shows "sweep_ok inv mt ord st'"
  using while_option_rule [of "sweep_ok inv mt ord" sweep_going "prorata_step B h ord prior" st st']
    assms prorata_step_spec [OF _ _ assms(3,4)] by (auto simp: prorata_loop_def)

lemma prorata_loop_returns:
  fixes h :: "('b, 'e) hooks"
  assumes "sweep_ok inv mt ord st" "hooks_ok inv h" "no_quantity ord \<le> i64_max" "hk_restingHolds h = None"
  shows "\<exists>st'. prorata_loop B h ord prior st = Some st'"
  unfolding prorata_loop_def
proof (rule measure_while_option_Some [where P = "sweep_ok inv mt ord" and f = "sweep_measure ord"])
  fix s :: "('b, 'e) sweep"
  assume "sweep_ok inv mt ord s" "sweep_going s"
  from prorata_step_spec [OF this assms(2,3)] assms(4)
  show "sweep_ok inv mt ord (prorata_step B h ord prior s)
      \<and> sweep_measure ord (prorata_step B h ord prior s) < sweep_measure ord s" by blast
qed (fact assms(1))

end

subsection \<open>Properties\<close>

text \<open>
  C11. The pro-rata split of a level is exact and fair: for a wanted quantity no larger than
  the allocable total, the shares add up to exactly the wanted quantity, none exceeds what its
  maker may trade, and every maker gets at least its proportional share rounded down.
\<close>

theorem prorata_split_exact:
  assumes "0 < sum_list allocable" and "0 \<le> want" and "want \<le> sum_list allocable" and "\<forall>a \<in> set allocable. 0 \<le> a"
  shows "sum_list (prorata_alloc want allocable) = want
    \<and> list_all2 (\<lambda>a y. 0 \<le> y \<and> y \<le> a \<and> want * a div sum_list allocable \<le> y) allocable (prorata_alloc want allocable)"
  using prorata_alloc_spec [OF assms] by (simp add: list_all2_conv_all_nth)

theorem prorata_split_exact_witness:
  "prorata_alloc 10 [5, 0, 7, 3] = [4, 0, 4, 2] \<and> sum_list (prorata_alloc 10 [5, 0, 7, 3]) = 10"
proof -
  have "prorata_alloc 10 [5, 0, 7, 3] = [4, 0, 4, 2]" by code_simp
  then show ?thesis using prorata_split_exact [of "[5, 0, 7, 3]" 10] by simp
qed

text \<open>
  C10. A pro-rata cross is as sound as a price-time one: it leaves a well-formed book, prints
  exactly what it reports as filled, never more than the order, and every trade has a positive
  quantity, a price inside the limit and, under self-trade prevention, another scope on the
  other side. With last look off it always returns.
\<close>

theorem prorata_execution_sound:
  assumes "mb_inv b" and "hooks_ok mb_inv h" and "mt_policy mt = ProRata"
    and "0 \<le> no_quantity ord" "no_quantity ord \<le> i64_max"
  shows "(hk_restingHolds h = None \<longrightarrow> (\<exists>out st. cross mb_ops h ord b e mt prior = Some (out, st)))
    \<and> (\<forall>out st. cross mb_ops h ord b e mt prior = Some (out, st) \<longrightarrow>
         mb_inv (sw_book st) \<and> trade_qty (sw_events st) = mo_filled out
         \<and> 0 \<le> mo_leaves out \<and> mo_filled out + mo_leaves out \<le> no_quantity ord
         \<and> (\<forall>t \<in> set (trades_of (sw_events st)). trade_ok mt ord t))"
proof -
  let ?mt = "mt\<lparr>mt_planActive := False\<rparr>"
  obtain ans mt1 where p: "(if no_tif ord = FOK then planFillOrKill mb_ops h ord b e ?mt else (True, ?mt)) = (ans, mt1)"
    by (rule prod.exhaust)
  have g: "mt_stpGroup mt1 = mt_stpGroup mt"
    using p planFillOrKill_keeps [of mb_ops h ord b e ?mt ans mt1] by (auto split: if_splits)
  note s = sweep_ok_start [of mb_inv b ord mt1 mt e, OF assms(1,4) g]
  have c: "cross mb_ops h ord b e mt prior =
      (if post_only_blocked mb_ops ord b then Some (empty_outcome\<lparr>mo_reject := PostOnlyWouldCross\<rparr>, start_sweep ord b e ?mt)
       else if ans then map_option (\<lambda>st. (finish ord st, st)) (prorata_loop mb_ops h ord prior (start_sweep ord b e mt1))
       else Some (empty_outcome\<lparr>mo_reject := FillOrKillUnfulfillable\<rparr>, start_sweep ord b e mt1))"
    using assms(3) by (simp add: cross_def Let_def p)
  have "sweep_ok mb_inv mt ord st" if "prorata_loop mb_ops h ord prior (start_sweep ord b e mt1) = Some st" for st
    using mbk.prorata_loop_sound [OF that s assms(2,5)] .
  then have "\<forall>out st. cross mb_ops h ord b e mt prior = Some (out, st) \<longrightarrow>
         mb_inv (sw_book st) \<and> trade_qty (sw_events st) = mo_filled out
         \<and> 0 \<le> mo_leaves out \<and> mo_filled out + mo_leaves out \<le> no_quantity ord
         \<and> (\<forall>t \<in> set (trades_of (sw_events st)). trade_ok mt ord t)"
    using assms(1,4) unfolding c by (auto simp: sweep_ok_def trade_qty_def empty_outcome_def)
  moreover have "hk_restingHolds h = None \<longrightarrow> (\<exists>out st. cross mb_ops h ord b e mt prior = Some (out, st))"
    using mbk.prorata_loop_returns [OF s assms(2,5)] unfolding c by auto
  ultimately show ?thesis by blast
qed

theorem prorata_execution_sound_witness:
  "\<exists>out st. cross mb_ops sample_hooks (sample_order BUY 102 7 GTC CancelOldest) sample_book 0 (new_matcher ProRata) 0
      = Some (out, st) \<and> trade_qty (sw_events st) = mo_filled out"
  using prorata_execution_sound [OF sample_book_inv sample_hooks_ok(1), of "new_matcher ProRata"
      "sample_order BUY 102 7 GTC CancelOldest" 0 0]
  by (auto simp: sample_hooks_def i64_max_def)

text \<open>
  Under pro-rata the all-or-none plan is not enough when a risk limit empties a level: here
  the limit leaves the maker at the second price nothing to trade. The plan counts the first and
  third price and approves a fill-or-kill buy of 10; the sweep prints 5, meets the level with
  nothing allocable and stops, so 5 printed and 5 were killed.
\<close>

definition blocked_hooks :: "(matching_book, nat) hooks" where
  "blocked_hooks = sample_hooks\<lparr>
     hk_fillLimit := Some (\<lambda>m ord want e. \<lparr>fl_qty = (if ro_id m = 2 then 0 else want),
       fl_makerQty = (if ro_id m = 2 then 0 else want), fl_takerQty = want, fl_makerBlocked = (ro_id m = 2),
       fl_takerBlocked = False, fl_reason = ReduceOnlyNotReducing\<rparr>),
     hk_fillLimitDry := Some (\<lambda>m ord want ds e. \<lparr>fl_qty = (if ro_id m = 2 then 0 else want),
       fl_makerQty = (if ro_id m = 2 then 0 else want), fl_takerQty = want, fl_makerBlocked = (ro_id m = 2),
       fl_takerBlocked = False, fl_reason = ReduceOnlyNotReducing\<rparr>)\<rparr>"

theorem prorata_fok_partial_fill:
  "map_option (\<lambda>(out, st). (mo_reject out, mo_filled out, mo_residualCanceled out, mo_residualCancelReason out,
       fills_of (sw_events st)))
     (cross mb_ops blocked_hooks (sample_order BUY 102 10 FOK StpNone) sample_book 0 (new_matcher ProRata) 0)
   = Some (RejNone, 5, True, FillOrKillResidual, [(1, 100, 5)])"
  by code_simp

end
