(* ===== verification/Conform.thy ===== *)
theory Conform
  imports ProRata
begin

section \<open>The matcher does not see the book behind its interface\<close>

text \<open>
  The abstract book \<open>spec_ops\<close> holds nothing but the two priority lists. For every book that
  satisfies the laws of \<open>resting_book\<close>, a whole cross seen through the book's \<open>orders\<close> is the
  cross over the abstract book: same outcome, same events, same callbacks, same matcher state
  (\<open>cross_abstract\<close>). The reference book and the ladder are both such books, so on equal
  contents they give equal executions, which is what the repository's differential tests sample.
\<close>

definition spec_ops :: "(side \<Rightarrow> resting_order list) book_ops" where
  "spec_ops = \<lparr>bk_contains = (\<lambda>ob i. spec_find i (ob BUY @ ob SELL) \<noteq> None), bk_full = (\<lambda>ob. False),
     bk_addResting = (\<lambda>ob s r. (Accepted, ob(s := spec_insert s r (ob s)))), bk_canRest = (\<lambda>ob p. True),
     bk_find = (\<lambda>ob i. spec_find i (ob BUY @ ob SELL)),
     bk_reduceTotal = (\<lambda>ob i n. (spec_find i (ob BUY @ ob SELL) \<noteq> None, \<lambda>s. spec_replace i (trim_total n) (ob s))),
     bk_consumeById = (\<lambda>ob i q s. if i \<in> ro_id ` set (ob s) then spec_consume s i q (ob s) else ob s),
     bk_cancel = (\<lambda>ob i. (spec_find i (ob BUY @ ob SELL), \<lambda>s. spec_remove i (ob s))),
     bk_forEachOrder = (\<lambda>ob. ob BUY @ ob SELL),
     bk_bestLevel = (\<lambda>ob s. case ob s of [] \<Rightarrow> [] | r # rs \<Rightarrow> takeWhile (\<lambda>x. ro_price x = ro_price r) (r # rs)),
     bk_peekBest = (\<lambda>ob s. case ob s of [] \<Rightarrow> None | r # rs \<Rightarrow> Some r),
     bk_fillBest = (\<lambda>ob s q. ob(s := spec_consume s (ro_id (hd (ob s))) q (ob s))),
     bk_bestBid = (\<lambda>ob. case ob BUY of [] \<Rightarrow> None | r # rs \<Rightarrow> Some (ro_price r)),
     bk_bestAsk = (\<lambda>ob. case ob SELL of [] \<Rightarrow> None | r # rs \<Rightarrow> Some (ro_price r)),
     bk_within = (\<lambda>ob s limit mk. takeWhile (\<lambda>x. within_limit s limit mk (ro_price x)) (ob (opposite s)))\<rparr>"

definition hooks_over :: "('b, 'e) hooks \<Rightarrow> ('c, 'e) hooks" where
  "hooks_over h = \<lparr>hk_lastLook = hk_lastLook h, hk_restingHolds = None, hk_restingReduced = hk_restingReduced h,
     hk_fillLimit = hk_fillLimit h, hk_fillLimitDry = hk_fillLimitDry h, hk_nextTradeId = hk_nextTradeId h,
     hk_sink = hk_sink h\<rparr>"

definition sweep_over :: "('b \<Rightarrow> 'c) \<Rightarrow> ('b, 'e) sweep \<Rightarrow> ('c, 'e) sweep" where
  "sweep_over f st = \<lparr>sw_book = f (sw_book st), sw_env = sw_env st, sw_mt = sw_mt st, sw_events = sw_events st,
     sw_leaves = sw_leaves st, sw_filled = sw_filled st, sw_stop = sw_stop st, sw_stp = sw_stp st, sw_risk = sw_risk st\<rparr>"

named_theorems over_simps

lemma hooks_over_sel [simp]:
  "hk_lastLook (hooks_over h) = hk_lastLook h" "hk_restingHolds (hooks_over h) = None"
  "hk_restingReduced (hooks_over h) = hk_restingReduced h" "hk_fillLimit (hooks_over h) = hk_fillLimit h"
  "hk_fillLimitDry (hooks_over h) = hk_fillLimitDry h" "hk_nextTradeId (hooks_over h) = hk_nextTradeId h"
  "hk_sink (hooks_over h) = hk_sink h"
  by (simp_all add: hooks_over_def)

lemma sweep_over_sel [simp]:
  "sw_book (sweep_over f st) = f (sw_book st)" "sw_env (sweep_over f st) = sw_env st"
  "sw_mt (sweep_over f st) = sw_mt st" "sw_events (sweep_over f st) = sw_events st"
  "sw_leaves (sweep_over f st) = sw_leaves st" "sw_filled (sweep_over f st) = sw_filled st"
  "sw_stop (sweep_over f st) = sw_stop st" "sw_stp (sweep_over f st) = sw_stp st" "sw_risk (sweep_over f st) = sw_risk st"
  by (simp_all add: sweep_over_def)

lemma sweep_over_upd [over_simps]:
  "sweep_over f (st\<lparr>sw_book := b\<rparr>) = (sweep_over f st)\<lparr>sw_book := f b\<rparr>"
  "sweep_over f (st\<lparr>sw_env := e\<rparr>) = (sweep_over f st)\<lparr>sw_env := e\<rparr>"
  "sweep_over f (st\<lparr>sw_mt := m\<rparr>) = (sweep_over f st)\<lparr>sw_mt := m\<rparr>"
  "sweep_over f (st\<lparr>sw_events := es\<rparr>) = (sweep_over f st)\<lparr>sw_events := es\<rparr>"
  "sweep_over f (st\<lparr>sw_leaves := l\<rparr>) = (sweep_over f st)\<lparr>sw_leaves := l\<rparr>"
  "sweep_over f (st\<lparr>sw_filled := l\<rparr>) = (sweep_over f st)\<lparr>sw_filled := l\<rparr>"
  "sweep_over f (st\<lparr>sw_stop := x\<rparr>) = (sweep_over f st)\<lparr>sw_stop := x\<rparr>"
  "sweep_over f (st\<lparr>sw_stp := x\<rparr>) = (sweep_over f st)\<lparr>sw_stp := x\<rparr>"
  "sweep_over f (st\<lparr>sw_risk := r\<rparr>) = (sweep_over f st)\<lparr>sw_risk := r\<rparr>"
  by (simp_all add: sweep_over_def)

lemma emit_over [over_simps]: "sweep_over f (emit h ev st) = emit (hooks_over h) ev (sweep_over f st)"
  by (simp add: emit_def over_simps)

lemma limit_over:
  "fifo_limit (hooks_over h) ord m want (sweep_over f st) = map_prod id (sweep_over f) (fifo_limit h ord m want st)"
  by (simp add: fifo_limit_def plannedFillLimit_def Let_def over_simps split: prod.splits option.splits)

lemma allocable_one_over: "allocable_one (hooks_over h) = allocable_one h"
  unfolding allocable_one_def hooks_over_sel ..

lemma allocable_over: "allocable_level (hooks_over h) ord e ms acc = allocable_level h ord e ms acc"
  by (induction ms arbitrary: acc) (simp_all add: allocable_one_over)

lemma measure_over: "measure_bite (hooks_over h) = measure_bite h"
  unfolding measure_bite_def hooks_over_sel ..

lemma finish_over: "finish ord (sweep_over f st) = finish ord st"
  unfolding finish_def sweep_over_sel ..

lemma going_over: "sweep_going (sweep_over f st) \<longleftrightarrow> sweep_going st"
  by (simp add: sweep_going_def)

context resting_book
begin

definition view :: "('b, 'e) sweep \<Rightarrow> (side \<Rightarrow> resting_order list, 'e) sweep" where
  "view = sweep_over orders"

lemma view_sel [simp]:
  "sw_book (view st) = orders (sw_book st)" "sw_env (view st) = sw_env st"
  "sw_mt (view st) = sw_mt st" "sw_events (view st) = sw_events st"
  "sw_leaves (view st) = sw_leaves st" "sw_filled (view st) = sw_filled st"
  "sw_stop (view st) = sw_stop st" "sw_stp (view st) = sw_stp st" "sw_risk (view st) = sw_risk st"
  by (simp_all add: view_def)

lemma peek_view: "inv b \<Longrightarrow> bk_peekBest spec_ops (orders b) s = bk_peekBest B b s"
  by (simp add: peek spec_ops_def)

lemma cancel_view: "inv b \<Longrightarrow> orders (snd (bk_cancel B b i)) = snd (bk_cancel spec_ops (orders b) i)"
  by (rule ext) (simp add: canceled spec_ops_def)

lemma fill_view:
  assumes "inv b" "bk_peekBest B b s = Some m" "0 < q" "q \<le> ro_leaves m"
  shows "orders (bk_fillBest B b s q) = bk_fillBest spec_ops (orders b) s q"
proof -
  obtain ms where o: "orders b s = m # ms" using peek_head [OF assms(1,2)] by blast
  from filled [OF assms(1) o assms(3,4)] show ?thesis
    by (intro fun_by_sides [of _ s]) (simp_all add: spec_ops_def o)
qed

lemma opposite_absent: "inv b \<Longrightarrow> m \<in> set (orders b s) \<Longrightarrow> ro_id m \<notin> ro_id ` set (orders b (opposite s))"
  using book_ok_disjoint [OF inv_ok, of b s] by blast

lemma trim_view:
  assumes "inv b" "m \<in> set (orders b s)" "0 < n" "n \<le> total_qty m"
  shows "orders (snd (bk_reduceTotal B b (ro_id m) n)) = snd (bk_reduceTotal spec_ops (orders b) (ro_id m) n)"
proof -
  have "spec_replace (ro_id m) (trim_total n) (orders b (opposite s)) = orders b (opposite s)"
    using opposite_absent [OF assms(1,2)] unfolding spec_replace_def by (intro map_idI) (metis imageI)
  with trimmed [OF assms] show ?thesis by (intro fun_by_sides [of _ s]) (simp_all add: spec_ops_def)
qed

lemma consume_view:
  assumes "inv b" "m \<in> set (orders b s)" "0 < q" "q \<le> ro_leaves m"
  shows "orders (bk_consumeById B b (ro_id m) q) = bk_consumeById spec_ops (orders b) (ro_id m) q"
  using consumed [OF assms] opposite_absent [OF assms(1,2)] assms(2)
  by (intro fun_by_sides [of _ s]) (simp_all add: spec_ops_def)

lemma pull_view:
  assumes "inv (sw_book st)"
  shows "view (pull_maker B h ord why m st) = pull_maker spec_ops (hooks_over h) ord why m (view st)"
  using cancel_view [OF assms] by (simp add: pull_maker_def view_def over_simps)

lemma decrement_view:
  assumes "inv (sw_book st)" "m \<in> set (orders (sw_book st) s)" "0 < sw_leaves st"
  shows "stp_decrement spec_ops (hooks_over h) ord m (view st) = map_prod id view (stp_decrement B h ord m st)"
proof -
  have "0 < total_qty m" using assms member_wf total_qty_pos by blast
  then show ?thesis
    using pull_view [OF assms(1), of h ord SelfTradePrevention m] assms(3)
      trim_view [OF assms(1,2), of "total_qty m - qmin (sw_leaves st) (total_qty m)"]
    by (auto simp: stp_decrement_def Let_def view_def over_simps qmin_def split: option.splits)
qed

lemma stp_view:
  assumes "inv (sw_book st)" "m \<in> set (orders (sw_book st) s)" "0 < sw_leaves st" "hk_restingHolds h = None"
  shows "applySelfTradePrevention spec_ops (hooks_over h) ord m (view st)
    = map_prod id view (applySelfTradePrevention B h ord m st)"
  using decrement_view [OF assms(1-3)] pull_view [OF assms(1)] assms(4)
  by (simp add: applySelfTradePrevention_def resolve_holds_def split: stp_mode.splits)

lemma hold_view:
  assumes "inv (sw_book st)" "bk_peekBest B (sw_book st) (opposite (no_side ord)) = Some m" "0 < q" "q \<le> ro_leaves m"
  shows "view (fifo_hold B h ord prior m q f st) = fifo_hold spec_ops (hooks_over h) ord prior m q f (view st)"
  using fill_view [OF assms] by (simp add: fifo_hold_def view_def over_simps)

lemma trade_view:
  assumes "inv (sw_book st)" "bk_peekBest B (sw_book st) (opposite (no_side ord)) = Some m" "0 < q" "q \<le> ro_leaves m"
  shows "view (fifo_trade B h ord prior m q st) = fifo_trade spec_ops (hooks_over h) ord prior m q (view st)"
  using fill_view [OF assms] by (simp add: fifo_trade_def view_def over_simps Let_def split: prod.splits)

lemma limit_view:
  "fifo_limit (hooks_over h) ord m want (view st) = map_prod id view (fifo_limit h ord m want st)"
  unfolding view_def by (rule limit_over)

lemma blocked_view:
  assumes "inv (sw_book st)" "hk_restingHolds h = None"
  shows "view (fifo_blocked B h ord m lim st) = fifo_blocked spec_ops (hooks_over h) ord m lim (view st)"
  using pull_view [OF assms(1)] assms(2) by (simp add: fifo_blocked_def resolve_holds_def view_def over_simps)

lemma bite_view:
  assumes i: "inv (sw_book st)" "hooks_ok inv h" "0 < sw_leaves st" "hk_restingHolds h = None"
    and p: "bk_peekBest B (sw_book st) (opposite (no_side ord)) = Some m"
  shows "view (fifo_bite B h ord prior m st) = fifo_bite spec_ops (hooks_over h) ord prior m (view st)"
proof -
  let ?w = "qmin (sw_leaves st) (ro_leaves m)"
  obtain lim st1 where l: "fifo_limit h ord m ?w st = (lim, st1)" by (cases "fifo_limit h ord m ?w st")
  have b: "sw_book st1 = sw_book st" using fifo_limit_cursor [OF l] by auto
  have v: "fifo_limit (hooks_over h) ord m ?w (view st) = (lim, view st1)" using l by (simp add: limit_view)
  show ?thesis
  proof (cases "?w = 0")
    case True
    then show ?thesis by (simp add: fifo_bite_def view_def over_simps)
  next
    case w: False
    show ?thesis
    proof (cases "bite_allowance ?w lim = 0")
      case True
      then obtain x where x: "lim = Some x" "fl_qty x = 0"
        using w by (auto simp: bite_allowance_def split: option.splits)
      then show ?thesis using blocked_view [of st1 h] i b w l v by (simp add: fifo_bite_def)
    next
      case False
      note q = bite_bounds(1,3) [OF i(1-3) p refl l False]
      have i1: "inv (sw_book st1)" "bk_peekBest B (sw_book st1) (opposite (no_side ord)) = Some m" using i(1) p b by simp_all
      have "fifo_bite C hh ord prior m st' = (case (ro_lastLook m, hk_lastLook hh) of
          (True, Some f) \<Rightarrow> fifo_hold C hh ord prior m (bite_allowance ?w lim) f st1'
        | _ \<Rightarrow> fifo_trade C hh ord prior m (bite_allowance ?w lim) st1')"
        if "fifo_limit hh ord m ?w st' = (lim, st1')" "sw_leaves st' = sw_leaves st"
        for C :: "'c book_ops" and hh :: "('c, 'd) hooks" and st' st1'
        using that w False by (cases lim; cases "ro_lastLook m"; cases "hk_lastLook hh")
          (simp_all add: fifo_bite_def bite_allowance_def Let_def)
      from this [OF l] this [OF v] show ?thesis
        using hold_view [OF i1 q, of h prior] trade_view [OF i1 q, of h prior]
        by (simp split: bool.splits option.splits)
    qed
  qed
qed

lemma step_view:
  assumes i: "inv (sw_book st)" "hooks_ok inv h" "0 < sw_leaves st" "hk_restingHolds h = None"
  shows "view (fifo_step B h ord prior st) = fifo_step spec_ops (hooks_over h) ord prior (view st)"
proof (cases "bk_peekBest B (sw_book st) (opposite (no_side ord))")
  case None
  then show ?thesis using peek_view [OF i(1)] by (simp add: fifo_step_def view_def over_simps)
next
  case p: (Some m)
  then have pv: "bk_peekBest spec_ops (orders (sw_book st)) (opposite (no_side ord)) = Some m"
    using peek_view [OF i(1)] by simp
  show ?thesis
  proof (cases "crosses (no_side ord) (no_price ord) (no_type ord) (ro_price m)")
    case False
    then show ?thesis using p pv by (simp add: fifo_step_def view_def over_simps)
  next
    case x: True
    obtain so st1 where a: "applySelfTradePrevention B h ord m st = (so, st1)"
      by (cases "applySelfTradePrevention B h ord m st")
    have v: "applySelfTradePrevention spec_ops (hooks_over h) ord m (view st) = (so, view st1)"
      using stp_view [OF i(1) peek_mem [OF i(1) p] i(3,4)] a by simp
    have "st1 = st" if "so = StpNotApplicable"
      using a that stp_decrement_outcome [of B h ord m st] i(4)
      by (auto simp: applySelfTradePrevention_def resolve_holds_def split: if_splits stp_mode.splits)
    then show ?thesis using p pv x a v bite_view [OF i p]
      by (simp add: fifo_step_def view_def over_simps split: stp_outcome.splits)
  qed
qed

lemma loop_view:
  fixes h :: "('b, 'e) hooks"
  assumes "sweep_ok inv mt ord st" "hooks_ok inv h" "no_quantity ord \<le> i64_max" "hk_restingHolds h = None"
  shows "map_option view (fifo_loop B h ord prior st) = fifo_loop spec_ops (hooks_over h) ord prior (view st)"
  unfolding fifo_loop_def
proof (rule while_option_commute_invariant [where P = "sweep_ok inv mt ord"])
  fix s :: "('b, 'e) sweep"
  assume s: "sweep_ok inv mt ord s"
  show "sweep_going s = sweep_going (view s)" by (simp add: view_def going_over)
  assume g: "sweep_going s"
  have i: "inv (sw_book s)" "0 < sw_leaves s" using s g by (auto simp: sweep_ok_def sweep_going_def)
  show "sweep_ok inv mt ord (fifo_step B h ord prior s)"
    using fifo_step_act [OF assms(2) i(1)] sweep_ok_act [OF _ s i(2) assms(2,3)] by blast
  show "view (fifo_step B h ord prior s) = fifo_step spec_ops (hooks_over h) ord prior (view s)"
    by (rule step_view [OF i(1) assms(2) i(2) assms(4)])
qed (rule assms(1))

subsection \<open>Pro-rata\<close>

lemma stp_level_view:
  assumes "inv (sw_book st)" "set level \<subseteq> set (orders (sw_book st) s)" "0 < sw_leaves st" "hk_restingHolds h = None"
  shows "stp_level spec_ops (hooks_over h) ord level (view st) = map_prod id view (stp_level B h ord level st)"
  using assms(2)
proof (induction level)
  case (Cons m ms)
  obtain so st1 where a: "applySelfTradePrevention B h ord m st = (so, st1)"
    by (cases "applySelfTradePrevention B h ord m st")
  have v: "applySelfTradePrevention spec_ops (hooks_over h) ord m (view st) = (so, view st1)"
    using stp_view [OF assms(1) _ assms(3,4), of m s ord] a Cons.prems by simp
  have "st1 = st" if "so = StpNotApplicable"
    using a that stp_decrement_outcome [of B h ord m st] assms(4)
    by (auto simp: applySelfTradePrevention_def resolve_holds_def split: if_splits stp_mode.splits)
  then show ?case using a v Cons by (cases so) auto
qed simp

lemma prorata_fill_view:
  assumes "inv (sw_book st)" "m \<in> set (orders (sw_book st) s)" "0 \<le> a" "a \<le> ro_leaves m"
  shows "view (prorata_fill B h ord prior px (m, a) st) = prorata_fill spec_ops (hooks_over h) ord prior px (m, a) (view st)"
proof (cases "a = 0")
  case False
  then show ?thesis using consume_view [OF assms(1,2) _ assms(4)] assms(3)
    by (simp add: prorata_fill_def view_def over_simps Let_def split: prod.splits)
qed (simp add: prorata_fill_def)

lemma prorata_fills_view:
  assumes "sweep_ok inv mt ord st" "no_quantity ord \<le> i64_max"
    and "crosses (no_side ord) (no_price ord) (no_type ord) px"
    and "\<forall>(m, a) \<in> set zs. m \<in> set (orders (sw_book st) s) \<and> 0 \<le> a \<and> a \<le> ro_leaves m \<and> \<not> skipStp (sw_mt st) ord m"
    and "distinct (map (ro_id \<circ> fst) zs)" "sum_list (map snd zs) \<le> sw_leaves st"
  shows "view (fold (prorata_fill B h ord prior px) zs st)
    = fold (prorata_fill spec_ops (hooks_over h) ord prior px) zs (view st)"
  using assms(1,4-6)
proof (induction zs arbitrary: st)
  case (Cons z zs)
  obtain m a where z: "z = (m, a)" by (cases z)
  have m: "m \<in> set (orders (sw_book st) s)" "0 \<le> a" "a \<le> ro_leaves m" "\<not> skipStp (sw_mt st) ord m"
    using Cons.prems(2) z by auto
  have i: "inv (sw_book st)" using Cons.prems(1) by (simp add: sweep_ok_def)
  have nn: "0 \<le> sum_list (map snd zs)" using Cons.prems(2) by (intro sum_list_nonneg) auto
  let ?st = "prorata_fill B h ord prior px (m, a) st"
  have "view (fold (prorata_fill B h ord prior px) zs ?st)
      = fold (prorata_fill spec_ops (hooks_over h) ord prior px) zs (view ?st)"
  proof (cases "a = 0")
    case True
    then show ?thesis using Cons z by (simp add: prorata_fill_zero)
  next
    case False
    then have a: "0 < a" "a \<le> sw_leaves st" using m(2) nn Cons.prems(4) z by auto
    note st = prorata_fill_step [OF Cons.prems(1) assms(2) m(1) a(1) m(3) a(2) assms(3) m(4), where h = h and prior = prior]
    show ?thesis
    proof (rule Cons.IH [OF st(1)])
      show "distinct (map (ro_id \<circ> fst) zs)" using Cons.prems(3) by (simp add: comp_def)
      show "sum_list (map snd zs) \<le> sw_leaves ?st" using Cons.prems(4) z st(2) by simp
      show "\<forall>(m', a') \<in> set zs. m' \<in> set (orders (sw_book ?st) s) \<and> 0 \<le> a' \<and> a' \<le> ro_leaves m'
          \<and> \<not> skipStp (sw_mt ?st) ord m'"
      proof safe
        fix m' a' assume z': "(m', a') \<in> set zs"
        then have m': "m' \<in> set (orders (sw_book st) s)" "0 \<le> a'" "a' \<le> ro_leaves m'" "\<not> skipStp (sw_mt st) ord m'"
          using Cons.prems(2) by auto
        have "ro_id m' \<noteq> ro_id m" using Cons.prems(3) z z' by force
        then show "m' \<in> set (orders (sw_book ?st) s)" using m'(1) st(5) by blast
        show "0 \<le> a'" "a' \<le> ro_leaves m'" using m' by auto
        show "skipStp (sw_mt ?st) ord m' \<Longrightarrow> False" using m'(4) st(6) by (simp add: skipStp_def)
      qed
    qed
  qed
  then show ?case using prorata_fill_view [OF i m(1-3)] z by simp
qed simp

lemma allocate_view:
  assumes ok: "sweep_ok inv mt ord st" "no_quantity ord \<le> i64_max"
    and lv: "set level \<subseteq> set (orders (sw_book st) s)" "distinct (map ro_id level)"
      "\<forall>m \<in> set level. \<not> skipStp (sw_mt st) ord m"
    and x: "crosses (no_side ord) (no_price ord) (no_type ord) px"
  shows "view (prorata_allocate B h ord prior px level st) = prorata_allocate spec_ops (hooks_over h) ord prior px level (view st)"
proof -
  have i: "inv (sw_book st)" using ok(1) by (simp add: sweep_ok_def)
  obtain szs room mt1 where al: "allocable_level h ord (sw_env st) level (sw_leaves st, sw_mt st) = (szs, room, mt1)"
    by (metis prod_cases3)
  have "\<forall>m \<in> set level. wf_order m" using member_wf [OF i] lv(1) by blast
  note a = allocable_level_spec [OF al this]
  let ?st1 = "st\<lparr>sw_mt := mt1\<rparr>" and ?tot = "sum_list szs"
  have ok1: "sweep_ok inv mt ord ?st1" using ok(1) a by (simp add: sweep_ok_def)
  show ?thesis
  proof (cases "?tot = 0 \<or> room \<le> 0")
    case True
    then show ?thesis using al by (simp add: prorata_allocate_def Let_def allocable_over view_def over_simps)
  next
    case False
    have "\<forall>v \<in> set szs. 0 \<le> v" using a by (auto simp: list_all2_conv_all_nth in_set_conv_nth)
    then have "0 \<le> ?tot" by (intro sum_list_nonneg) auto
    with False a have w: "0 < ?tot" "0 < min room ?tot" "min room ?tot \<le> ?tot" "min room ?tot \<le> sw_leaves ?st1" by auto
    have "\<forall>m \<in> set level. \<not> skipStp (sw_mt ?st1) ord m" using lv(3) a stpScope_cong [of mt1 "sw_mt st"] by (simp add: skipStp_def)
    then have z: "set level \<subseteq> set (orders (sw_book ?st1) s)" "\<forall>m \<in> set level. \<not> skipStp (sw_mt ?st1) ord m" using lv(1) by simp_all
    define want where "want = min room ?tot"
    note ao = allocation_ok [OF z(1) lv(2) z(2) conjunct1 [OF a] w(1-3)]
    have "sum_list (map snd (zip level (prorata_alloc (min room ?tot) szs))) \<le> sw_leaves ?st1" using ao(3) w(4) by simp
    from prorata_fills_view [OF ok1 ok(2) x ao(1,2) this, of h prior]
    have f: "view (fold (prorata_fill B h ord prior px) (zip level (prorata_alloc want szs)) ?st1)
        = fold (prorata_fill spec_ops (hooks_over h) ord prior px) (zip level (prorata_alloc want szs)) (view ?st1)"
      unfolding want_def .
    have "prorata_allocate C hh ord prior px level st' =
        (let st2 = fold (prorata_fill C hh ord prior px) (zip level (prorata_alloc want szs)) (st'\<lparr>sw_mt := mt1\<rparr>)
         in if want < ?tot then st2\<lparr>sw_stop := True\<rparr> else st2)"
      if "allocable_level hh ord (sw_env st') level (sw_leaves st', sw_mt st') = (szs, room, mt1)"
      for C :: "'c book_ops" and hh :: "('c, 'd) hooks" and st'
      using that False by (simp add: prorata_allocate_def Let_def want_def)
    from this [OF al] this [of "hooks_over h" "view st" spec_ops] al f show ?thesis
      by (simp add: Let_def allocable_over view_def over_simps)
  qed
qed

lemma level_view: "inv b \<Longrightarrow> bk_bestLevel spec_ops (orders b) s = bk_bestLevel B b s"
  by (simp add: level spec_ops_def)

lemma prorata_step_view:
  assumes ok: "sweep_ok inv mt ord st" "sweep_going st" "no_quantity ord \<le> i64_max" "hk_restingHolds h = None"
  shows "view (prorata_step B h ord prior st) = prorata_step spec_ops (hooks_over h) ord prior (view st)"
proof -
  let ?s = "opposite (no_side ord)"
  let ?lv = "bk_bestLevel B (sw_book st) ?s"
  have i: "inv (sw_book st)" and l: "0 < sw_leaves st" using ok(1,2) by (auto simp: sweep_ok_def sweep_going_def)
  note m = level_members [OF i, of ?s]
  obtain so st1 where a: "(if no_stp ord \<noteq> StpNone then stp_level B h ord ?lv st else (StpNotApplicable, st)) = (so, st1)"
    by (metis prod.exhaust)
  have v: "(if no_stp ord \<noteq> StpNone then stp_level spec_ops (hooks_over h) ord ?lv (view st) else (StpNotApplicable, view st))
      = (so, view st1)"
    using stp_level_view [OF i m(1) l ok(4), of ord] a by (auto split: if_splits)
  have n: "st1 = st \<and> (\<forall>m \<in> set ?lv. \<not> skipStp (sw_mt st) ord m)" if "so = StpNotApplicable"
    using a that stp_level_none [of ord B h ?lv st st1] by (auto simp: skipStp_def split: if_splits)
  show ?thesis
  proof (cases "bk_peekBest B (sw_book st) ?s")
    case None
    then show ?thesis using peek_view [OF i] by (simp add: prorata_step_def view_def over_simps)
  next
    case (Some m0)
    then have pv: "bk_peekBest spec_ops (orders (sw_book st)) ?s = Some m0" using peek_view [OF i] by simp
    have step: "prorata_step C hh ord prior st' = (if \<not> crosses (no_side ord) (no_price ord) (no_type ord) (ro_price m0) \<or> ?lv = []
        then st'\<lparr>sw_stop := True\<rparr> else case so of StpCancelTaker \<Rightarrow> st1'\<lparr>sw_stp := True, sw_stop := True\<rparr>
          | StpRePeek \<Rightarrow> st1' | StpNotApplicable \<Rightarrow> prorata_allocate C hh ord prior (ro_price m0) ?lv st1')"
      if "bk_peekBest C (sw_book st') ?s = Some m0" "bk_bestLevel C (sw_book st') ?s = ?lv"
        "(if no_stp ord \<noteq> StpNone then stp_level C hh ord ?lv st' else (StpNotApplicable, st')) = (so, st1')"
      for C :: "'c book_ops" and hh :: "('c, 'd) hooks" and st' st1'
      unfolding prorata_step_def that(1) option.case that(2) Let_def that(3) prod.case by (simp split: stp_outcome.split)
    have lv: "bk_bestLevel spec_ops (sw_book (view st)) ?s = ?lv" using level_view [OF i] by simp
    show ?thesis
      using step [OF Some refl a] step [OF _ lv v] pv allocate_view [OF ok(1,3) m, of "ro_price m0" h prior] n
      by (cases so) (simp_all add: view_def over_simps)
  qed
qed

lemma prorata_loop_view:
  fixes h :: "('b, 'e) hooks"
  assumes "sweep_ok inv mt ord st" "hooks_ok inv h" "no_quantity ord \<le> i64_max" "hk_restingHolds h = None"
  shows "map_option view (prorata_loop B h ord prior st) = prorata_loop spec_ops (hooks_over h) ord prior (view st)"
  unfolding prorata_loop_def
proof (rule while_option_commute_invariant [where P = "sweep_ok inv mt ord"])
  fix s :: "('b, 'e) sweep"
  assume s: "sweep_ok inv mt ord s"
  show "sweep_going s = sweep_going (view s)" by (simp add: view_def going_over)
  assume g: "sweep_going s"
  show "sweep_ok inv mt ord (prorata_step B h ord prior s)" using prorata_step_spec [OF s g assms(2,3)] by blast
  show "view (prorata_step B h ord prior s) = prorata_step spec_ops (hooks_over h) ord prior (view s)"
    by (rule prorata_step_view [OF s g assms(3,4)])
qed (rule assms(1))

subsection \<open>The whole cross\<close>

lemma plan_view:
  assumes "inv b" "limit_ok b (no_side ord) (no_price ord) \<or> no_type ord = MARKET"
  shows "planFillOrKill spec_ops (hooks_over h) ord (orders b) e mt = planFillOrKill B h ord b e mt"
proof -
  have w: "bk_within B b (no_side ord) (no_price ord) (no_type ord = MARKET)
      = bk_within spec_ops (orders b) (no_side ord) (no_price ord) (no_type ord = MARKET)"
    using within [OF assms(1), of "opposite (no_side ord)" "no_price ord" "no_type ord = MARKET"] assms(2)
    by (simp add: spec_ops_def)
  show ?thesis unfolding planFillOrKill_def availableWithinExcl_def measure_over hooks_over_sel Let_def w ..
qed

lemma cross_view:
  assumes i: "inv b" and h: "hooks_ok inv h" "hk_restingHolds h = None"
    and q: "0 \<le> no_quantity ord" "no_quantity ord \<le> i64_max"
    and l: "no_tif ord = FOK \<longrightarrow> limit_ok b (no_side ord) (no_price ord) \<or> no_type ord = MARKET"
  shows "map_option (map_prod id view) (cross B h ord b e mt prior)
    = cross spec_ops (hooks_over h) ord (orders b) e mt prior"
proof -
  let ?mt = "mt\<lparr>mt_planActive := False\<rparr>"
  have start: "view (start_sweep ord b e m) = start_sweep ord (orders b) e m" for e :: 'e and m
    by (simp add: start_sweep_def view_def sweep_over_def)
  have plan: "(if no_tif ord = FOK then planFillOrKill spec_ops (hooks_over h) ord (orders b) e ?mt else (True, ?mt))
      = (if no_tif ord = FOK then planFillOrKill B h ord b e ?mt else (True, ?mt))"
    using plan_view [OF i, of ord h e ?mt] l by simp
  have post: "post_only_blocked spec_ops ord (orders b) = post_only_blocked B ord b"
    using peek_view [OF i] by (simp add: post_only_blocked_def)
  obtain go m1 where p: "(if no_tif ord = FOK then planFillOrKill B h ord b e ?mt else (True, ?mt)) = (go, m1)"
    by (metis prod.exhaust)
  have ok: "sweep_ok inv m1 ord (start_sweep ord b e m1)"
    using i q by (simp add: sweep_ok_def start_sweep_def trade_qty_def)
  have fin: "map_option (map_prod id view) (map_option (\<lambda>st. (finish ord st, st)) r)
      = map_option (\<lambda>st. (finish ord st, st)) (map_option view r)" for r
    by (cases r) (simp_all add: view_def finish_over)
  show ?thesis
    using loop_view [OF ok h(1) q(2) h(2), of prior] prorata_loop_view [OF ok h(1) q(2) h(2), of prior]
    unfolding cross_def Let_def plan post p
    by (cases go; cases "mt_policy mt") (simp_all add: fin start)
qed

end

end
