(* ===== verification/LadderGrid.thy ===== *)
theory LadderGrid
  imports BookSpec
begin

section \<open>A side as a grid of price levels\<close>

text \<open>
  Between the ladder's arrays and the priority list of \<open>BookSpec\<close> stands one more view: a
  function from level numbers to queues. \<open>grid_orders\<close> reads a side off it best price first,
  and the effects of the specification (insertion, removal, replacement, the crossing range)
  become changes of one queue.
\<close>

definition side_levels :: "side \<Rightarrow> nat \<Rightarrow> nat list" where
  "side_levels s n = (case s of BUY \<Rightarrow> rev [0..<n] | SELL \<Rightarrow> [0..<n])"

definition grid_orders :: "side \<Rightarrow> nat \<Rightarrow> (nat \<Rightarrow> 'a list) \<Rightarrow> 'a list" where
  "grid_orders s n Q = concat (map Q (side_levels s n))"

definition level_price :: "int \<Rightarrow> int \<Rightarrow> nat \<Rightarrow> int" where
  "level_price base tick l = base + int l * tick"

definition priced :: "int \<Rightarrow> int \<Rightarrow> (nat \<Rightarrow> resting_order list) \<Rightarrow> bool" where
  "priced base tick Q \<longleftrightarrow> (\<forall>l. \<forall>r \<in> set (Q l). ro_price r = level_price base tick l)"

lemma set_side_levels [simp]: "set (side_levels s n) = {..<n}"
  by (cases s) (auto simp: side_levels_def)

lemma distinct_side_levels [simp]: "distinct (side_levels s n)"
  by (cases s) (auto simp: side_levels_def)

lemma set_grid_orders: "set (grid_orders s n Q) = (\<Union>l \<in> {..<n}. set (Q l))"
  by (simp add: grid_orders_def)

lemma sorted_rev_upt: "sorted_wrt (>) (rev [0..<n :: nat])"
  by (simp add: sorted_wrt_rev)

lemma level_before:
  "0 < tick \<Longrightarrow> before s (level_price base tick l) (level_price base tick m) \<longleftrightarrow> (case s of BUY \<Rightarrow> m < l | SELL \<Rightarrow> l < m)"
  by (cases s) (auto simp: before_def level_price_def)

lemma side_levels_sorted:
  "0 < tick \<Longrightarrow> sorted_wrt (\<lambda>l m. before s (level_price base tick l) (level_price base tick m)) (side_levels s n)"
  using sorted_rev_upt [of n] by (cases s) (auto simp: level_before side_levels_def)

lemma side_levels_split:
  assumes "l < n" "0 < tick"
  obtains xs ys where "side_levels s n = xs @ l # ys" "l \<notin> set xs" "l \<notin> set ys"
    "\<forall>x \<in> set xs. before s (level_price base tick x) (level_price base tick l)"
    "\<forall>y \<in> set ys. before s (level_price base tick l) (level_price base tick y)"
proof -
  have "l \<in> set (side_levels s n)" using assms(1) by simp
  then obtain xs ys where s: "side_levels s n = xs @ l # ys" by (meson split_list)
  have "distinct (xs @ l # ys)" using distinct_side_levels [of s n] unfolding s .
  moreover have "sorted_wrt (\<lambda>l m. before s (level_price base tick l) (level_price base tick m)) (xs @ l # ys)"
    using side_levels_sorted [OF assms(2), of s base n] unfolding s .
  ultimately show ?thesis using that [OF s] by (auto simp: sorted_wrt_append)
qed

lemma spec_insert_skip:
  "\<forall>x \<in> set xs. \<not> before s (ro_price r) (ro_price x) \<Longrightarrow> spec_insert s r (xs @ ys) = xs @ spec_insert s r ys"
  by (induction xs) auto

lemma grid_insert_front:
  "\<forall>y \<in> set ys. before s (ro_price r) (ro_price y) \<Longrightarrow> spec_insert s r ys = r # ys"
  by (cases ys) auto

lemma concat_map_upd:
  "l \<notin> set xs \<Longrightarrow> l \<notin> set ys \<Longrightarrow>
    concat (map (Q(l := v)) (xs @ l # ys)) = concat (map Q xs) @ v @ concat (map Q ys)"
proof -
  assume "l \<notin> set xs" "l \<notin> set ys"
  then have "map (Q(l := v)) xs = map Q xs" "map (Q(l := v)) ys = map Q ys" by auto
  then show ?thesis by (simp only: map_append list.map concat_append concat.simps fun_upd_same)
qed

lemma grid_insert:
  assumes "priced base tick Q" "0 < tick" "l < n" "ro_price r = level_price base tick l"
  shows "spec_insert s r (grid_orders s n Q) = grid_orders s n (Q(l := Q l @ [r]))"
proof -
  obtain xs ys where sp: "side_levels s n = xs @ l # ys" "l \<notin> set xs" "l \<notin> set ys"
    "\<forall>x \<in> set xs. before s (level_price base tick x) (level_price base tick l)"
    "\<forall>y \<in> set ys. before s (level_price base tick l) (level_price base tick y)"
    using side_levels_split [OF assms(3,2)] by blast
  have "\<forall>x \<in> set (concat (map Q xs) @ Q l). \<not> before s (ro_price r) (ro_price x)"
    using assms(1,4) sp(4) before_asym by (fastforce simp: priced_def)
  moreover have "\<forall>y \<in> set (concat (map Q ys)). before s (ro_price r) (ro_price y)"
    using assms(1,4) sp(5) by (auto simp: priced_def)
  ultimately have "spec_insert s r ((concat (map Q xs) @ Q l) @ concat (map Q ys))
      = (concat (map Q xs) @ Q l) @ r # concat (map Q ys)"
    by (simp only: spec_insert_skip grid_insert_front)
  then show ?thesis
    unfolding grid_orders_def sp(1) concat_map_upd [OF sp(2,3)] by simp
qed

lemma grid_cong: "(\<And>l. l < n \<Longrightarrow> Q l = R l) \<Longrightarrow> grid_orders s n Q = grid_orders s n R"
  unfolding grid_orders_def by (intro arg_cong [of _ _ concat] map_cong) auto

lemma grid_remove: "spec_remove i (grid_orders s n Q) = grid_orders s n (\<lambda>l. spec_remove i (Q l))"
  by (simp add: grid_orders_def spec_remove_def filter_concat comp_def)

lemma grid_replace: "spec_replace i f (grid_orders s n Q) = grid_orders s n (\<lambda>l. spec_replace i f (Q l))"
  by (simp add: grid_orders_def spec_replace_def map_concat comp_def)

lemma grid_map: "map f (grid_orders s n Q) = grid_orders s n (\<lambda>l. map f (Q l))"
  by (simp add: grid_orders_def map_concat comp_def)

lemma grid_occupied: "grid_orders s n Q = concat (map Q (filter (\<lambda>l. Q l \<noteq> []) (side_levels s n)))"
proof -
  have "concat (map Q ls) = concat (map Q (filter (\<lambda>l. Q l \<noteq> []) ls))" for ls by (induction ls) auto
  then show ?thesis by (simp add: grid_orders_def)
qed

lemma takeWhile_levels:
  assumes "\<forall>l \<in> set ls. Q l \<noteq> [] \<and> (\<forall>r \<in> set (Q l). R r \<longleftrightarrow> P l)"
  shows "takeWhile R (concat (map Q ls)) = concat (map Q (takeWhile P ls))"
  using assms
proof (induction ls)
  case (Cons l ls)
  show ?case
  proof (cases "P l")
    case True
    then have "takeWhile R (Q l @ concat (map Q ls)) = Q l @ takeWhile R (concat (map Q ls))"
      using Cons.prems by (intro takeWhile_append2) auto
    then show ?thesis using True Cons by simp
  next
    case False
    then obtain r rs where "Q l = r # rs" "\<not> R r" using Cons.prems by (cases "Q l") auto
    then show ?thesis using False by simp
  qed
qed simp

lemma grid_within:
  assumes "priced base tick Q"
  shows "takeWhile (\<lambda>r. P (ro_price r)) (grid_orders s n Q)
    = concat (map Q (takeWhile (\<lambda>l. P (level_price base tick l)) (filter (\<lambda>l. Q l \<noteq> []) (side_levels s n))))"
  unfolding grid_occupied using assms by (intro takeWhile_levels) (auto simp: priced_def)

lemma sorted_wrt_concat:
  assumes "\<forall>l \<in> set ls. sorted_wrt R (Q l)" "sorted_wrt (\<lambda>l m. \<forall>x \<in> set (Q l). \<forall>y \<in> set (Q m). R x y) ls"
  shows "sorted_wrt R (concat (map Q ls))"
  using assms by (induction ls) (auto simp: sorted_wrt_append)

lemma grid_side_ok:
  assumes "priced base tick Q" "0 < tick" "\<forall>l < n. \<forall>r \<in> set (Q l). wf_order r \<and> ro_side r = s"
  shows "side_ok s (grid_orders s n Q)"
proof -
  have "sorted_wrt (\<lambda>x y. \<not> before s (ro_price y) (ro_price x)) (grid_orders s n Q)"
    unfolding grid_orders_def
  proof (rule sorted_wrt_concat)
    have "\<not> before s (ro_price y) (ro_price x)" if "x \<in> set (Q l)" "y \<in> set (Q l)" for l x y
      using assms(1) that by (simp add: priced_def)
    then show "\<forall>l \<in> set (side_levels s n). sorted_wrt (\<lambda>x y. \<not> before s (ro_price y) (ro_price x)) (Q l)"
      by (simp add: sorted_wrt_iff_nth_less) (meson nth_mem order.strict_trans)
    show "sorted_wrt (\<lambda>l m. \<forall>x \<in> set (Q l). \<forall>y \<in> set (Q m). \<not> before s (ro_price y) (ro_price x)) (side_levels s n)"
      using side_levels_sorted [OF assms(2), of s base n]
      by (rule sorted_wrt_mono_rel [rotated]) (use assms(1) before_asym in \<open>auto simp: priced_def\<close>)
  qed
  then show ?thesis using assms(3) by (auto simp: side_ok_def set_grid_orders)
qed

lemma grid_distinct:
  assumes "\<And>l. l < n \<Longrightarrow> distinct (Q l)" "\<And>l m. l < n \<Longrightarrow> m < n \<Longrightarrow> l \<noteq> m \<Longrightarrow> set (Q l) \<inter> set (Q m) = {}"
  shows "distinct (grid_orders s n Q)"
proof -
  have "distinct (concat (map Q ls))" if "set ls \<subseteq> {..<n}" "distinct ls" for ls
    using that
  proof (induction ls)
    case (Cons l ls)
    have "set (Q l) \<inter> set (concat (map Q ls)) = {}"
    proof (rule equals0I)
      fix x assume "x \<in> set (Q l) \<inter> set (concat (map Q ls))"
      then obtain m where m: "m \<in> set ls" "x \<in> set (Q l) \<inter> set (Q m)" by auto
      then have "m < n" "l < n" "l \<noteq> m" using Cons.prems by auto
      then show False using assms(2) m(2) by blast
    qed
    then show ?case using Cons assms(1) by auto
  qed simp
  then show ?thesis by (simp add: grid_orders_def)
qed

lemma grid_head:
  assumes "priced base tick Q" "0 < tick" "grid_orders s n Q = r # rs"
  obtains l where "l < n" "Q l = takeWhile (\<lambda>x. ro_price x = ro_price r) (r # rs)" "hd (Q l) = r" "Q l \<noteq> []"
    "\<forall>m < n. Q m \<noteq> [] \<longrightarrow> m = l \<or> before s (level_price base tick l) (level_price base tick m)"
proof -
  let ?ls = "filter (\<lambda>l. Q l \<noteq> []) (side_levels s n)"
  have e: "concat (map Q ?ls) = r # rs" using assms(3) grid_occupied [of s n Q] by simp
  then obtain l ls where l: "?ls = l # ls" by (cases ?ls) auto
  have in_l: "l \<in> set ?ls" using l by simp
  have s: "sorted_wrt (\<lambda>l m. before s (level_price base tick l) (level_price base tick m)) (l # ls)"
    using sorted_wrt_filter [OF side_levels_sorted [OF assms(2), of s base n], of "\<lambda>l. Q l \<noteq> []"] l by simp
  have q: "Q l \<noteq> []" "l < n" using in_l by auto
  have h: "hd (Q l) = r" using e l q by (cases "Q l") auto
  then have pr: "ro_price r = level_price base tick l" using assms(1) q(1) by (auto simp: priced_def)
  have "takeWhile (\<lambda>x. ro_price x = ro_price r) (r # rs) = concat (map Q (takeWhile (\<lambda>m. m = l) ?ls))"
    unfolding e [symmetric]
  proof (rule takeWhile_levels)
    show "\<forall>m \<in> set ?ls. Q m \<noteq> [] \<and> (\<forall>x \<in> set (Q m). ro_price x = ro_price r \<longleftrightarrow> m = l)"
      using assms(1,2) pr by (auto simp: priced_def level_price_def)
  qed
  also have "takeWhile (\<lambda>m. m = l) ?ls = [l]" using s by (cases ls) (auto simp: l)
  finally have t: "Q l = takeWhile (\<lambda>x. ro_price x = ro_price r) (r # rs)" by simp
  have "m = l \<or> before s (level_price base tick l) (level_price base tick m)" if "m < n" "Q m \<noteq> []" for m
  proof -
    have "m \<in> set ?ls" using that by simp
    then show ?thesis using s by (auto simp: l)
  qed
  then show ?thesis using that [OF q(2) t h q(1)] by blast
qed

end
