(* ===== verification/LadderBits.thy ===== *)
theory LadderBits
  imports Prelude
begin

section \<open>Occupancy bitmaps of the ladder\<close>

text \<open>
  The two bitmaps of \<^verbatim>\<open>include/flox/book/ladder_book.h\<close>: a \<^verbatim>\<open>std::vector<uint64_t>\<close> with one bit
  per price level, set while the level holds an order. \<^verbatim>\<open>setBit\<close>, \<^verbatim>\<open>clearBit\<close> and the two word
  scans \<^verbatim>\<open>highestSetAtOrBelow\<close> and \<^verbatim>\<open>lowestSetAtOrAbove\<close> are translated as written, on 64-bit
  words; \<open>bit_at\<close> reads one level, and the scans are shown to return the nearest set level.
\<close>

unbundle bit_operations_syntax

type_synonym bitmap = "64 word list"

subsection \<open>The code\<close>

definition countl_zero :: "64 word \<Rightarrow> nat" where
  "countl_zero w = (case find (\<lambda>n. bit w (63 - n)) [0..<64] of Some n \<Rightarrow> n | None \<Rightarrow> 64)"

definition countr_zero :: "64 word \<Rightarrow> nat" where
  "countr_zero w = (case find (bit w) [0..<64] of Some n \<Rightarrow> n | None \<Rightarrow> 64)"

definition wordsFor :: "nat \<Rightarrow> nat" where
  "wordsFor levels = (levels + 63) div 64"

definition setBit :: "bitmap \<Rightarrow> nat \<Rightarrow> bitmap" where
  "setBit v i = v[drop_bit 6 i := (v ! drop_bit 6 i) OR push_bit (i AND 63) 1]"

definition clearBit :: "bitmap \<Rightarrow> nat \<Rightarrow> bitmap" where
  "clearBit v i = v[drop_bit 6 i := (v ! drop_bit 6 i) AND NOT (push_bit (i AND 63) 1)]"

fun scan_down :: "bitmap \<Rightarrow> nat \<Rightarrow> 64 word \<Rightarrow> int" where
  "scan_down v w word =
     (if word \<noteq> 0 then int (push_bit 6 w + (63 - countl_zero word))
      else case w of 0 \<Rightarrow> -1 | Suc w' \<Rightarrow> scan_down v w' (v ! w'))"

declare scan_down.simps [simp del]

definition highestSetAtOrBelow :: "bitmap \<Rightarrow> int \<Rightarrow> int" where
  "highestSetAtOrBelow v i =
     (if i < 0 then -1
      else let w = drop_bit 6 (nat i); b = nat i AND 63;
               mask = (if b = 63 then NOT 0 else push_bit (b + 1) 1 - 1)
           in scan_down v w ((v ! w) AND mask))"

function scan_up :: "bitmap \<Rightarrow> nat \<Rightarrow> nat \<Rightarrow> 64 word \<Rightarrow> int" where
  "scan_up v levels w word =
     (if word \<noteq> 0
      then let idx = push_bit 6 w + countr_zero word in if idx < levels then int idx else -1
      else if Suc w \<ge> length v then -1 else scan_up v levels (Suc w) (v ! Suc w))"
  by pat_completeness auto
termination by (relation "measure (\<lambda>(v, _, w, _). length v - w)") auto

declare scan_up.simps [simp del]

definition lowestSetAtOrAbove :: "bitmap \<Rightarrow> nat \<Rightarrow> int \<Rightarrow> int" where
  "lowestSetAtOrAbove v levels i0 =
     (if int levels \<le> i0 then -1
      else let i = (if i0 < 0 then 0 else nat i0);
               w = drop_bit 6 i; b = i AND 63;
               mask = NOT (push_bit b 1 - 1)
           in scan_up v levels w ((v ! w) AND mask))"

subsection \<open>Reading a level\<close>

definition bit_at :: "bitmap \<Rightarrow> nat \<Rightarrow> bool" where
  "bit_at v i \<longleftrightarrow> bit (v ! (i div 64)) (i mod 64)"

lemma and_63 [simp]: "n AND 63 = n mod 64" for n :: nat
proof -
  have "n AND mask 6 = take_bit 6 n" by (simp add: take_bit_eq_mask)
  then show ?thesis by (simp add: take_bit_eq_mod mask_eq_exp_minus_1)
qed

lemma drop_bit_6 [simp]: "drop_bit 6 n = n div 64" for n :: nat
  by (simp add: drop_bit_eq_div)

lemma push_bit_6 [simp]: "push_bit 6 n = n * 64" for n :: nat
  by (simp add: push_bit_eq_mult)

lemma bit_push_one: "bit (2 ^ b :: 64 word) k \<longleftrightarrow> k = b \<and> b < 64"
  by (auto simp: bit_exp_iff possible_bit_word)

lemma length_setBit [simp]: "length (setBit v i) = length v" "length (clearBit v i) = length v"
  by (simp_all add: setBit_def clearBit_def)

lemma level_split: "i div 64 = j div 64 \<Longrightarrow> i mod 64 = j mod 64 \<Longrightarrow> i = j" for i j :: nat
  by (metis div_mult_mod_eq)

lemma bit_at_setBit:
  assumes "i div 64 < length v"
  shows "bit_at (setBit v i) j \<longleftrightarrow> j = i \<or> bit_at v j"
proof (cases "i div 64 = j div 64")
  case True
  then have "bit_at (setBit v i) j \<longleftrightarrow> bit_at v j \<or> j mod 64 = i mod 64"
    using assms by (simp add: bit_at_def setBit_def bit_or_iff bit_push_one)
  then show ?thesis using level_split [OF True] by metis
qed (auto simp: bit_at_def setBit_def)

lemma bit_at_clearBit:
  assumes "i div 64 < length v"
  shows "bit_at (clearBit v i) j \<longleftrightarrow> j \<noteq> i \<and> bit_at v j"
proof (cases "i div 64 = j div 64")
  case True
  then have "bit_at (clearBit v i) j \<longleftrightarrow> bit_at v j \<and> j mod 64 \<noteq> i mod 64"
    using assms by (simp add: bit_at_def clearBit_def bit_and_iff bit_not_iff bit_push_one possible_bit_word)
  then show ?thesis using level_split [OF True] by metis
qed (auto simp: bit_at_def clearBit_def)

lemma word_zero_bits: "w = 0 \<longleftrightarrow> (\<forall>n < 64. \<not> bit w n)" for w :: "64 word"
  by (auto intro!: bit_word_eqI)

lemma countl_zero_bits:
  assumes "w \<noteq> 0"
  shows "bit w (63 - countl_zero w)" "\<And>n. bit w n \<Longrightarrow> n \<le> 63 - countl_zero w" "countl_zero w < 64"
proof -
  obtain m where m: "m < 64" "bit w m" using assms by (auto simp: word_zero_bits)
  then have "bit w (63 - (63 - m)) \<and> 63 - m < 64" by simp
  then have "\<exists>n \<in> set [0..<64]. bit w (63 - n)" by (metis atLeastLessThan_iff atLeast_upt lessThan_iff)
  then obtain n where f: "find (\<lambda>n. bit w (63 - n)) [0..<64] = Some n"
    by (metis (no_types, lifting) find_None_iff option.exhaust)
  then have n: "n < 64" "bit w (63 - n)" "\<forall>j < n. \<not> bit w (63 - j)"
    by (auto simp: find_Some_iff)
  show "bit w (63 - countl_zero w)" "countl_zero w < 64" using f n by (simp_all add: countl_zero_def)
  fix k assume k: "bit w k"
  then have "k < 64" using bit_imp_le_length by fastforce
  then have "bit w (63 - (63 - k))" using k by simp
  then have "\<not> 63 - k < n" using n(3) by blast
  then show "k \<le> 63 - countl_zero w" using f \<open>k < 64\<close> by (simp add: countl_zero_def)
qed

lemma countr_zero_bits:
  assumes "w \<noteq> 0"
  shows "bit w (countr_zero w)" "\<And>n. bit w n \<Longrightarrow> countr_zero w \<le> n" "countr_zero w < 64"
proof -
  have "\<exists>n \<in> set [0..<64]. bit w n" using assms by (auto simp: word_zero_bits)
  then obtain n where f: "find (bit w) [0..<64] = Some n"
    by (metis (no_types, lifting) find_None_iff option.exhaust)
  then have n: "n < 64" "bit w n" "\<forall>j < n. \<not> bit w j"
    by (auto simp: find_Some_iff)
  show "bit w (countr_zero w)" "countr_zero w < 64" using f n by (simp_all add: countr_zero_def)
  fix k assume "bit w k"
  then show "countr_zero w \<le> k" using f n(3) by (simp add: countr_zero_def) (meson linorder_not_le)
qed

subsection \<open>The nearest set level\<close>

definition is_highest :: "(nat \<Rightarrow> bool) \<Rightarrow> int \<Rightarrow> bool" where
  "is_highest P r \<longleftrightarrow> (r = -1 \<and> (\<forall>k. \<not> P k)) \<or> (\<exists>k. r = int k \<and> P k \<and> (\<forall>j. P j \<longrightarrow> j \<le> k))"

definition is_lowest :: "(nat \<Rightarrow> bool) \<Rightarrow> int \<Rightarrow> bool" where
  "is_lowest P r \<longleftrightarrow> (r = -1 \<and> (\<forall>k. \<not> P k)) \<or> (\<exists>k. r = int k \<and> P k \<and> (\<forall>j. P j \<longrightarrow> k \<le> j))"

lemma is_highest_unique: "is_highest P r \<Longrightarrow> is_highest P r' \<Longrightarrow> r = r'"
  by (auto simp: is_highest_def dest: le_antisym)

lemma is_lowest_unique: "is_lowest P r \<Longrightarrow> is_lowest P r' \<Longrightarrow> r = r'"
  by (auto simp: is_lowest_def dest: le_antisym)

lemma div_less_imp: "j div 64 < w \<Longrightarrow> j < w * 64" for j :: nat
  by (simp add: div_less_iff_less_mult)

lemma scan_down_highest:
  "is_highest (\<lambda>k. (k div 64 = w \<and> bit word (k mod 64)) \<or> (k div 64 < w \<and> bit_at v k)) (scan_down v w word)"
proof (induction v w word rule: scan_down.induct)
  case (1 v w word)
  show ?case
  proof (cases "word = 0")
    case True
    show ?thesis
    proof (cases w)
      case 0
      then show ?thesis using True by (simp add: scan_down.simps is_highest_def)
    next
      case (Suc w')
      have "(\<lambda>k. (k div 64 = w' \<and> bit (v ! w') (k mod 64)) \<or> (k div 64 < w' \<and> bit_at v k))
          = (\<lambda>k. (k div 64 = w \<and> bit word (k mod 64)) \<or> (k div 64 < w \<and> bit_at v k))"
        using True Suc by (auto simp: bit_at_def less_Suc_eq)
      then show ?thesis using 1 True Suc by (simp add: scan_down.simps [of v "Suc w'"])
    qed
  next
    case False
    let ?t = "63 - countl_zero word"
    note t = countl_zero_bits [OF False]
    have "j \<le> w * 64 + ?t" if "j div 64 = w" "bit word (j mod 64)" for j
      using t(2) [OF that(2)] that(1) div_mult_mod_eq [of j 64] by simp
    moreover have "j \<le> w * 64 + ?t" if "j div 64 < w" for j
      using div_less_imp [OF that] by simp
    ultimately show ?thesis using False t(1)
      unfolding scan_down.simps [of v w word] is_highest_def by (auto intro!: exI [of _ "w * 64 + ?t"])
  qed
qed

lemma highest_at_or_below:
  "is_highest (\<lambda>k. int k \<le> i \<and> bit_at v k) (highestSetAtOrBelow v i)"
proof (cases "i < 0")
  case True
  then show ?thesis by (auto simp: highestSetAtOrBelow_def is_highest_def)
next
  case False
  then obtain n where n: "i = int n" by (metis int_nat_eq linorder_not_le)
  let ?m = "(if n mod 64 = 63 then NOT 0 else push_bit (n mod 64 + 1) 1 - 1) :: 64 word"
  have m: "bit ?m b \<longleftrightarrow> b \<le> n mod 64" if "b < 64" for b
  proof -
    have "push_bit (n mod 64 + 1) 1 - 1 = (mask (n mod 64 + 1) :: 64 word)" by (simp add: mask_eq_exp_minus_1)
    then show ?thesis using that by (auto simp: bit_not_iff bit_mask_iff simp del: push_bit_of_1)
  qed
  have "(\<lambda>k. (k div 64 = n div 64 \<and> bit (v ! (n div 64) AND ?m) (k mod 64)) \<or> (k div 64 < n div 64 \<and> bit_at v k))
      = (\<lambda>k. k \<le> n \<and> bit_at v k)"
  proof (rule ext)
    fix k :: nat
    have "k div 64 = n div 64 \<Longrightarrow> k \<le> n \<longleftrightarrow> k mod 64 \<le> n mod 64"
      using div_mult_mod_eq [of k 64] div_mult_mod_eq [of n 64] by (metis add_le_cancel_left)
    moreover have "k div 64 < n div 64 \<Longrightarrow> k \<le> n" by (metis div_le_mono linorder_not_le not_less_iff_gr_or_eq)
    moreover have "k \<le> n \<Longrightarrow> k div 64 \<le> n div 64" by (rule div_le_mono)
    ultimately show "((k div 64 = n div 64 \<and> bit (v ! (n div 64) AND ?m) (k mod 64)) \<or> (k div 64 < n div 64 \<and> bit_at v k))
      = (k \<le> n \<and> bit_at v k)"
      using m [of "k mod 64"] by (auto simp: bit_and_iff bit_at_def)
  qed
  with scan_down_highest [of "n div 64" "v ! (n div 64) AND ?m" v] show ?thesis
    by (simp add: highestSetAtOrBelow_def n Let_def)
qed

lemma scan_up_lowest:
  assumes "w < length v" "levels \<le> 64 * length v"
  shows "is_lowest (\<lambda>k. k < levels \<and> ((k div 64 = w \<and> bit word (k mod 64)) \<or> (w < k div 64 \<and> bit_at v k)))
    (scan_up v levels w word)"
  using assms
proof (induction v levels w word rule: scan_up.induct)
  case (1 v levels w word)
  show ?case
  proof (cases "word = 0")
    case True
    show ?thesis
    proof (cases "Suc w \<ge> length v")
      case last: True
      have "\<not> w < k div 64" if "k < levels" for k
      proof -
        have "k < length v * 64" using that "1.prems"(2) by linarith
        then have "k div 64 < length v" by (simp add: div_less_iff_less_mult)
        then show ?thesis using last by linarith
      qed
      then show ?thesis using True last by (auto simp: scan_up.simps [of v levels w] is_lowest_def)
    next
      case False
      have eq: "(\<lambda>k. k < levels \<and> ((k div 64 = Suc w \<and> bit (v ! Suc w) (k mod 64)) \<or> (Suc w < k div 64 \<and> bit_at v k)))
          = (\<lambda>k. k < levels \<and> ((k div 64 = w \<and> bit word (k mod 64)) \<or> (w < k div 64 \<and> bit_at v k)))"
      proof (rule ext)
        fix k
        have "w < k div 64 \<longleftrightarrow> k div 64 = Suc w \<or> Suc w < k div 64" by linarith
        then show "(k < levels \<and> ((k div 64 = Suc w \<and> bit (v ! Suc w) (k mod 64)) \<or> (Suc w < k div 64 \<and> bit_at v k)))
          = (k < levels \<and> ((k div 64 = w \<and> bit word (k mod 64)) \<or> (w < k div 64 \<and> bit_at v k)))"
          using True by (metis bit_at_def bit_0_eq bot_apply bot_bool_def)
      qed
      have "scan_up v levels w word = scan_up v levels (Suc w) (v ! Suc w)"
        using True False by (subst scan_up.simps) simp
      moreover from "1.IH" True False "1.prems" have "is_lowest (\<lambda>k. k < levels \<and>
          ((k div 64 = Suc w \<and> bit (v ! Suc w) (k mod 64)) \<or> (Suc w < k div 64 \<and> bit_at v k)))
          (scan_up v levels (Suc w) (v ! Suc w))" by simp
      ultimately show ?thesis unfolding eq by simp
    qed
  next
    case False
    let ?t = "countr_zero word"
    note t = countr_zero_bits [OF False]
    have "w * 64 + ?t \<le> j" if "j div 64 = w" "bit word (j mod 64)" for j
      using t(2) [OF that(2)] that(1) div_mult_mod_eq [of j 64] by simp
    moreover have "w * 64 + ?t \<le> j" if "w < j div 64" for j
      using that t(3) by (simp add: less_eq_div_iff_mult_less_eq Suc_le_eq [symmetric])
    ultimately have low: "w * 64 + ?t \<le> j" if "(j div 64 = w \<and> bit word (j mod 64)) \<or> (w < j div 64 \<and> bit_at v j)" for j
      using that by blast
    have r: "scan_up v levels w word = (if w * 64 + ?t < levels then int (w * 64 + ?t) else -1)"
      using False by (simp add: scan_up.simps [of v levels w word] Let_def)
    show ?thesis
    proof (cases "w * 64 + ?t < levels")
      case True
      then show ?thesis unfolding r is_lowest_def using low t(1,3) by (intro disjI2 exI [of _ "w * 64 + ?t"]) simp
    next
      case False
      then have "scan_up v levels w word = -1" using r by simp
      moreover have "\<not> (k < levels \<and> ((k div 64 = w \<and> bit word (k mod 64)) \<or> (w < k div 64 \<and> bit_at v k)))" for k
        using low [of k] False le_less_trans by blast
      ultimately show ?thesis unfolding is_lowest_def by blast
    qed
  qed
qed

lemma lowest_at_or_above:
  assumes "levels \<le> 64 * length v" "0 < levels"
  shows "is_lowest (\<lambda>k. k < levels \<and> i \<le> int k \<and> bit_at v k) (lowestSetAtOrAbove v levels i)"
proof (cases "int levels \<le> i")
  case True
  then show ?thesis by (auto simp: lowestSetAtOrAbove_def is_lowest_def)
next
  case False
  define n where "n = (if i < 0 then 0 else nat i)"
  have n: "n < levels" "\<And>k. i \<le> int k \<longleftrightarrow> n \<le> k" using False assms(2) by (auto simp: n_def)
  let ?m = "NOT (push_bit (n mod 64) 1 - 1) :: 64 word"
  have m: "bit ?m b \<longleftrightarrow> n mod 64 \<le> b" if "b < 64" for b
  proof -
    have "push_bit (n mod 64) 1 - 1 = (mask (n mod 64) :: 64 word)" by (simp add: mask_eq_exp_minus_1)
    then show ?thesis using that by (auto simp: bit_not_iff bit_mask_iff simp del: push_bit_of_1)
  qed
  have "(\<lambda>k. k < levels \<and> ((k div 64 = n div 64 \<and> bit (v ! (n div 64) AND ?m) (k mod 64)) \<or> (n div 64 < k div 64 \<and> bit_at v k)))
      = (\<lambda>k. k < levels \<and> n \<le> k \<and> bit_at v k)"
  proof (rule ext)
    fix k :: nat
    have "k div 64 = n div 64 \<Longrightarrow> n \<le> k \<longleftrightarrow> n mod 64 \<le> k mod 64"
      using div_mult_mod_eq [of k 64] div_mult_mod_eq [of n 64] by (metis add_le_cancel_left)
    moreover have "n div 64 < k div 64 \<Longrightarrow> n \<le> k" by (metis div_le_mono linorder_not_le not_less_iff_gr_or_eq)
    moreover have "n \<le> k \<Longrightarrow> n div 64 \<le> k div 64" by (rule div_le_mono)
    ultimately show "(k < levels \<and> ((k div 64 = n div 64 \<and> bit (v ! (n div 64) AND ?m) (k mod 64)) \<or> (n div 64 < k div 64 \<and> bit_at v k)))
      = (k < levels \<and> n \<le> k \<and> bit_at v k)"
      using m [of "k mod 64"] by (auto simp: bit_and_iff bit_at_def)
  qed
  moreover have "n div 64 < length v" using n(1) assms by (simp add: div_less_iff_less_mult)
  ultimately show ?thesis using scan_up_lowest [of "n div 64" v levels "v ! (n div 64) AND ?m"] assms False
    by (simp add: lowestSetAtOrAbove_def n_def [symmetric] Let_def n(2))
qed

end
