(* ===== verification/LadderIndex.thy ===== *)
theory LadderIndex
  imports LadderBits
begin

section \<open>The identifier index of the ladder\<close>

text \<open>
  The open-addressing table of \<^verbatim>\<open>include/flox/book/ladder_book.h\<close>: linear probing, no tombstones,
  backward-shift deletion (Knuth 6.4, algorithm R). The probe loops are bounded by the capacity
  in the source, so the recursion below carries the same bound and needs no other fuel. The
  locale \<open>id_index\<close> states the contract the book relies on -- a finite map from order
  identifiers to nodes -- and the interpretation \<open>oat\<close> shows that the table keeps it.
\<close>

subsection \<open>The code\<close>

record slot =
  sl_id :: nat
  sl_node :: int
  sl_occupied :: bool

definition empty_slot :: slot where
  "empty_slot = \<lparr>sl_id = 0, sl_node = -1, sl_occupied = False\<rparr>"

definition hash :: "nat \<Rightarrow> nat \<Rightarrow> nat" where
  "hash cap i =
     (let x0 = (of_nat i :: 64 word);
          x1 = x0 XOR drop_bit 33 x0;
          x2 = x1 * 0xff51afd7ed558ccd;
          x3 = x2 XOR drop_bit 33 x2
      in unat x3 AND (cap - 1))"

text \<open>The mask is evaluated on the integers: a hash is far too large to evaluate as a \<open>nat\<close>.\<close>

lemma hash_code [code]:
  "hash cap i =
     (let x0 = (word_of_int (int i) :: 64 word);
          x1 = x0 XOR drop_bit 33 x0;
          x2 = x1 * 0xff51afd7ed558ccd;
          x3 = x2 XOR drop_bit 33 x2
      in nat (uint x3 AND int (cap - 1)))"
proof -
  have "unat w AND k = nat (uint w AND int k)" for w :: "64 word" and k
    by (metis int_eq_iff of_nat_and_eq uint_nat)
  then show ?thesis by (simp add: hash_def Let_def)
qed

definition next_slot :: "nat \<Rightarrow> nat \<Rightarrow> nat" where
  "next_slot cap k = (k + 1) AND (cap - 1)"

fun insert_loop :: "slot list \<Rightarrow> nat \<Rightarrow> nat \<Rightarrow> int \<Rightarrow> nat \<Rightarrow> nat \<Rightarrow> bool \<times> slot list" where
  "insert_loop t cap i n k 0 = (False, t)"
| "insert_loop t cap i n k (Suc f) =
     (if \<not> sl_occupied (t ! k) then (True, t[k := \<lparr>sl_id = i, sl_node = n, sl_occupied = True\<rparr>])
      else insert_loop t cap i n (next_slot cap k) f)"

definition insertSlot :: "slot list \<Rightarrow> nat \<Rightarrow> nat \<Rightarrow> int \<Rightarrow> bool \<times> slot list" where
  "insertSlot t cap i n = insert_loop t cap i n (hash cap i) cap"

fun find_loop :: "slot list \<Rightarrow> nat \<Rightarrow> nat \<Rightarrow> nat \<Rightarrow> nat \<Rightarrow> nat option" where
  "find_loop t cap i k 0 = None"
| "find_loop t cap i k (Suc f) =
     (if \<not> sl_occupied (t ! k) then None
      else if sl_id (t ! k) = i then Some k
      else find_loop t cap i (next_slot cap k) f)"

definition findSlot :: "slot list \<Rightarrow> nat \<Rightarrow> nat \<Rightarrow> int" where
  "findSlot t cap i = (case find_loop t cap i (hash cap i) cap of None \<Rightarrow> -1 | Some k \<Rightarrow> sl_node (t ! k))"

definition reachablePastHole :: "nat \<Rightarrow> nat \<Rightarrow> nat \<Rightarrow> bool" where
  "reachablePastHole hole j home =
     (if hole \<le> j then hole < home \<and> home \<le> j else hole < home \<or> home \<le> j)"

fun shift_loop :: "slot list \<Rightarrow> nat \<Rightarrow> nat \<Rightarrow> nat \<Rightarrow> nat \<Rightarrow> slot list" where
  "shift_loop t cap hole j 0 = t[hole := empty_slot]"
| "shift_loop t cap hole j (Suc f) =
     (if \<not> sl_occupied (t ! j) then t[hole := empty_slot]
      else if reachablePastHole hole j (hash cap (sl_id (t ! j)))
      then shift_loop t cap hole (next_slot cap j) f
      else shift_loop (t[hole := t ! j]) cap j (next_slot cap j) f)"

definition eraseSlot :: "slot list \<Rightarrow> nat \<Rightarrow> nat \<Rightarrow> slot list" where
  "eraseSlot t cap i =
     (case find_loop t cap i (hash cap i) cap of
        None \<Rightarrow> t
      | Some hole \<Rightarrow> shift_loop t cap hole (next_slot cap hole) (cap - 1))"

subsection \<open>The contract\<close>

locale id_index =
  fixes ok :: "'t \<Rightarrow> bool"
    and holds :: "'t \<Rightarrow> nat \<Rightarrow> int \<Rightarrow> bool"
    and used :: "'t \<Rightarrow> nat"
    and room :: "'t \<Rightarrow> nat"
    and find :: "'t \<Rightarrow> nat \<Rightarrow> int"
    and ins :: "'t \<Rightarrow> nat \<Rightarrow> int \<Rightarrow> bool \<times> 't"
    and del :: "'t \<Rightarrow> nat \<Rightarrow> 't"
  assumes single: "ok t \<Longrightarrow> holds t i n \<Longrightarrow> holds t i m \<Longrightarrow> n = m"
    and find_held: "ok t \<Longrightarrow> holds t i n \<Longrightarrow> find t i = n"
    and find_free: "ok t \<Longrightarrow> \<forall>n. \<not> holds t i n \<Longrightarrow> find t i = -1"
    and insert_law: "ok t \<Longrightarrow> \<forall>n. \<not> holds t i n \<Longrightarrow> used t + 1 < room t \<Longrightarrow> ins t i n = (r, t') \<Longrightarrow>
      r \<and> ok t' \<and> used t' = used t + 1 \<and> room t' = room t \<and>
      (\<forall>j m. holds t' j m \<longleftrightarrow> holds t j m \<or> (j = i \<and> m = n))"
    and erase_law: "ok t \<Longrightarrow> holds t i n \<Longrightarrow>
      ok (del t i) \<and> used (del t i) + 1 = used t \<and> room (del t i) = room t \<and>
      (\<forall>j m. holds (del t i) j m \<longleftrightarrow> holds t j m \<and> j \<noteq> i)"
begin

lemma find_after_insert:
  "ok t \<Longrightarrow> \<forall>n. \<not> holds t i n \<Longrightarrow> used t + 1 < room t \<Longrightarrow> find (snd (ins t i n)) i = n"
  using insert_law [of t i n "fst (ins t i n)" "snd (ins t i n)"] find_held by simp

lemma find_after_erase: "ok t \<Longrightarrow> holds t i n \<Longrightarrow> find (del t i) i = -1"
  using erase_law [of t i n] find_free by blast

end

subsection \<open>Distances around the table\<close>

definition cdist :: "nat \<Rightarrow> nat \<Rightarrow> nat \<Rightarrow> nat" where
  "cdist cap a b = (if a \<le> b then b - a else b + cap - a)"

definition pow2 :: "nat \<Rightarrow> bool" where
  "pow2 cap \<longleftrightarrow> (\<exists>n. cap = 2 ^ n)"

lemma and_pow2: "pow2 cap \<Longrightarrow> x AND (cap - Suc 0) = x mod cap" for x :: nat
  by (metis pow2_def One_nat_def mask_eq_exp_minus_1 take_bit_eq_mask take_bit_eq_mod)

lemma pow2_pos: "pow2 cap \<Longrightarrow> 0 < cap"
  by (auto simp: pow2_def)

lemma hash_less: "pow2 cap \<Longrightarrow> hash cap i < cap"
  by (simp add: hash_def Let_def and_pow2 pow2_pos)

lemma next_slot_eq: "pow2 cap \<Longrightarrow> k < cap \<Longrightarrow> next_slot cap k = (if k + 1 = cap then 0 else k + 1)"
  by (auto simp: next_slot_def and_pow2)

lemma next_slot_less: "pow2 cap \<Longrightarrow> k < cap \<Longrightarrow> next_slot cap k < cap"
  by (auto simp: next_slot_eq)

lemma cdist_less: "a < cap \<Longrightarrow> b < cap \<Longrightarrow> cdist cap a b < cap"
  by (auto simp: cdist_def)

lemma cdist_0 [simp]: "cdist cap a a = 0"
  by (simp add: cdist_def)

lemma cdist_pos: "a < cap \<Longrightarrow> b < cap \<Longrightarrow> a \<noteq> b \<Longrightarrow> 0 < cdist cap a b"
  by (auto simp: cdist_def)

lemma cdist_inj: "a < cap \<Longrightarrow> b < cap \<Longrightarrow> c < cap \<Longrightarrow> cdist cap a b = cdist cap a c \<Longrightarrow> b = c"
  by (auto simp: cdist_def split: if_splits)

lemma cdist_next:
  "pow2 cap \<Longrightarrow> a < cap \<Longrightarrow> b < cap \<Longrightarrow> a \<noteq> b \<Longrightarrow> cdist cap a b = Suc (cdist cap (next_slot cap a) b)"
  by (auto simp: cdist_def next_slot_eq)

lemma cdist_next_right:
  "pow2 cap \<Longrightarrow> a < cap \<Longrightarrow> b < cap \<Longrightarrow> next_slot cap b \<noteq> a \<Longrightarrow> cdist cap a (next_slot cap b) = Suc (cdist cap a b)"
  by (auto simp: cdist_def next_slot_eq split: if_splits)

lemma cdist_via:
  "a < cap \<Longrightarrow> b < cap \<Longrightarrow> c < cap \<Longrightarrow> cdist cap a b \<le> cdist cap a c \<Longrightarrow> cdist cap a c = cdist cap a b + cdist cap b c"
  by (auto simp: cdist_def split: if_splits)

lemma cdist_add:
  "a < cap \<Longrightarrow> b < cap \<Longrightarrow> c < cap \<Longrightarrow> cdist cap a b + cdist cap b c < cap \<Longrightarrow> cdist cap a c = cdist cap a b + cdist cap b c"
  by (auto simp: cdist_def split: if_splits)

lemma reachable_cdist:
  assumes "hole < cap" "j < cap" "home < cap" "hole \<noteq> j"
  shows "reachablePastHole hole j home \<longleftrightarrow> \<not> cdist cap home hole < cdist cap home j"
  using assms by (auto simp: reachablePastHole_def cdist_def)

subsection \<open>Well-formed tables\<close>

abbreviation occ :: "slot list \<Rightarrow> nat \<Rightarrow> bool" where
  "occ t k \<equiv> sl_occupied (t ! k)"

abbreviation home :: "nat \<Rightarrow> slot list \<Rightarrow> nat \<Rightarrow> nat" where
  "home cap t k \<equiv> hash cap (sl_id (t ! k))"

definition reached :: "nat \<Rightarrow> slot list \<Rightarrow> nat \<Rightarrow> bool" where
  "reached cap t k \<longleftrightarrow> (\<forall>m < cap. cdist cap (home cap t k) m < cdist cap (home cap t k) k \<longrightarrow> occ t m)"

definition occ_set :: "slot list \<Rightarrow> nat set" where
  "occ_set t = {k. k < length t \<and> occ t k}"

definition table_ok :: "nat \<Rightarrow> slot list \<Rightarrow> bool" where
  "table_ok cap t \<longleftrightarrow> pow2 cap \<and> length t = cap \<and> card (occ_set t) < cap
     \<and> (\<forall>k < cap. \<forall>l < cap. occ t k \<and> occ t l \<and> sl_id (t ! k) = sl_id (t ! l) \<longrightarrow> k = l)
     \<and> (\<forall>k < cap. occ t k \<longrightarrow> reached cap t k)"

definition table_holds :: "slot list \<Rightarrow> nat \<Rightarrow> int \<Rightarrow> bool" where
  "table_holds t i n \<longleftrightarrow> (\<exists>k < length t. occ t k \<and> sl_id (t ! k) = i \<and> sl_node (t ! k) = n)"

lemma finite_occ_set [simp]: "finite (occ_set t)"
  by (simp add: occ_set_def)

lemma table_has_empty:
  assumes "table_ok cap t"
  obtains e where "e < cap" "\<not> occ t e"
proof -
  have "\<exists>e < cap. \<not> occ t e"
  proof (rule ccontr)
    assume "\<not> ?thesis"
    then have "occ_set t = {..<cap}" using assms by (auto simp: occ_set_def table_ok_def)
    then show False using assms by (simp add: table_ok_def)
  qed
  then show ?thesis using that by blast
qed

lemma empty_table_ok: "pow2 cap \<Longrightarrow> table_ok cap (replicate cap empty_slot)"
proof -
  assume p: "pow2 cap"
  have "occ_set (replicate cap empty_slot) = {}" by (auto simp: occ_set_def empty_slot_def)
  then show ?thesis using p by (auto simp: table_ok_def empty_slot_def pow2_pos)
qed

lemma empty_table_holds [simp]: "\<not> table_holds (replicate cap empty_slot) i n"
  by (auto simp: table_holds_def empty_slot_def)

subsection \<open>Probing\<close>

lemma find_loop_sound:
  "find_loop t cap i k f = Some h \<Longrightarrow> pow2 cap \<Longrightarrow> k < cap \<Longrightarrow> h < cap \<and> occ t h \<and> sl_id (t ! h) = i"
  by (induction t cap i k f rule: find_loop.induct) (auto simp: next_slot_less split: if_splits)

lemma find_loop_complete:
  assumes "pow2 cap" "k < cap" "h < cap" "occ t h" "sl_id (t ! h) = i"
    and "\<forall>m < cap. cdist cap k m < cdist cap k h \<longrightarrow> occ t m \<and> sl_id (t ! m) \<noteq> i" "cdist cap k h < f"
  shows "find_loop t cap i k f = Some h"
  using assms
proof (induction f arbitrary: k)
  case (Suc f)
  show ?case
  proof (cases "k = h")
    case False
    then have "0 < cdist cap k h" using Suc.prems by (simp add: cdist_pos)
    then have k: "occ t k" "sl_id (t ! k) \<noteq> i" using Suc.prems(2,6) by auto
    have n: "cdist cap k h = Suc (cdist cap (next_slot cap k) h)"
      using Suc.prems(1,2,3) False by (rule cdist_next)
    have "\<forall>m < cap. cdist cap (next_slot cap k) m < cdist cap (next_slot cap k) h \<longrightarrow> occ t m \<and> sl_id (t ! m) \<noteq> i"
    proof (intro allI impI)
      fix m assume m: "m < cap" "cdist cap (next_slot cap k) m < cdist cap (next_slot cap k) h"
      show "occ t m \<and> sl_id (t ! m) \<noteq> i"
      proof (cases "m = k")
        case True
        then show ?thesis using k by simp
      next
        case False
        then have "cdist cap k m = Suc (cdist cap (next_slot cap k) m)" using Suc.prems(1,2) m(1) by (simp add: cdist_next)
        then show ?thesis using Suc.prems(6) m n by simp
      qed
    qed
    then have "find_loop t cap i (next_slot cap k) f = Some h"
      using Suc.prems n by (intro Suc.IH) (auto simp: next_slot_less)
    then show ?thesis using k by simp
  qed (use Suc.prems in simp)
qed simp

lemma find_loop_held:
  assumes "table_ok cap t" "h < cap" "occ t h"
  shows "find_loop t cap (sl_id (t ! h)) (hash cap (sl_id (t ! h))) cap = Some h"
proof (rule find_loop_complete)
  have p: "pow2 cap" using assms(1) by (simp add: table_ok_def)
  show "pow2 cap" by fact
  show "hash cap (sl_id (t ! h)) < cap" using p by (rule hash_less)
  show "\<forall>m < cap. cdist cap (home cap t h) m < cdist cap (home cap t h) h \<longrightarrow> occ t m \<and> sl_id (t ! m) \<noteq> sl_id (t ! h)"
    using assms by (auto simp: table_ok_def reached_def)
  show "cdist cap (home cap t h) h < cap" using p assms(2) by (simp add: cdist_less hash_less)
qed (use assms in auto)

lemma findSlot_held: "table_ok cap t \<Longrightarrow> table_holds t i n \<Longrightarrow> findSlot t cap i = n"
  using find_loop_held [of cap t] by (auto simp: findSlot_def table_holds_def table_ok_def)

lemma find_loop_free:
  assumes "table_ok cap t" "\<forall>n. \<not> table_holds t i n"
  shows "find_loop t cap i (hash cap i) cap = None"
proof (cases "find_loop t cap i (hash cap i) cap")
  case (Some h)
  have "pow2 cap" "length t = cap" using assms(1) by (auto simp: table_ok_def)
  then have "h < length t \<and> occ t h \<and> sl_id (t ! h) = i" using find_loop_sound [OF Some] hash_less by simp
  then show ?thesis using assms(2) by (auto simp: table_holds_def)
qed

subsection \<open>Insertion\<close>

lemma insert_loop_spec:
  assumes "pow2 cap" "length t = cap" "k < cap" "e < cap" "\<not> occ t e" "cdist cap k e < f"
  shows "\<exists>h < cap. \<not> occ t h \<and> (\<forall>m < cap. cdist cap k m < cdist cap k h \<longrightarrow> occ t m)
    \<and> insert_loop t cap i n k f = (True, t[h := \<lparr>sl_id = i, sl_node = n, sl_occupied = True\<rparr>])"
  using assms
proof (induction f arbitrary: k)
  case (Suc f)
  show ?case
  proof (cases "occ t k")
    case True
    then have "k \<noteq> e" using Suc.prems by auto
    then have "cdist cap (next_slot cap k) e < f" using cdist_next [of cap k e] Suc.prems by simp
    then obtain h where h: "h < cap" "\<not> occ t h"
      "\<forall>m < cap. cdist cap (next_slot cap k) m < cdist cap (next_slot cap k) h \<longrightarrow> occ t m"
      "insert_loop t cap i n (next_slot cap k) f = (True, t[h := \<lparr>sl_id = i, sl_node = n, sl_occupied = True\<rparr>])"
      using Suc.IH [of "next_slot cap k"] Suc.prems by (auto simp: next_slot_less)
    have "k \<noteq> h" using True h(2) by auto
    then have "\<forall>m < cap. cdist cap k m < cdist cap k h \<longrightarrow> occ t m"
      using h Suc.prems(1,3) True by (metis cdist_next Suc_less_eq)
    then show ?thesis using h True by (intro exI [of _ h]) simp
  next
    case False
    then show ?thesis using Suc.prems by (intro exI [of _ k]) simp
  qed
qed simp

lemma occ_set_update:
  assumes "h < length t"
  shows "occ_set (t[h := x]) = (if sl_occupied x then insert h (occ_set t) else occ_set t - {h})"
  using assms by (auto simp: occ_set_def nth_list_update)

lemma reached_update:
  assumes "reached cap t k" "k \<noteq> h" "sl_occupied x" "h < length t"
  shows "reached cap (t[h := x]) k"
  using assms by (auto simp: reached_def nth_list_update)

lemma insertSlot_law:
  assumes ok: "table_ok cap t" and fresh: "\<forall>n. \<not> table_holds t i n"
    and room: "card (occ_set t) + 1 < cap" and r: "insertSlot t cap i n = (r, t')"
  shows "r \<and> table_ok cap t' \<and> card (occ_set t') = card (occ_set t) + 1 \<and> length t' = length t
    \<and> (\<forall>j m. table_holds t' j m \<longleftrightarrow> table_holds t j m \<or> (j = i \<and> m = n))"
proof -
  have p: "pow2 cap" "length t = cap" using ok by (auto simp: table_ok_def)
  obtain e where e: "e < cap" "\<not> occ t e" using ok by (rule table_has_empty)
  obtain h where h: "h < cap" "\<not> occ t h" "\<forall>m < cap. cdist cap (hash cap i) m < cdist cap (hash cap i) h \<longrightarrow> occ t m"
    "insertSlot t cap i n = (True, t[h := \<lparr>sl_id = i, sl_node = n, sl_occupied = True\<rparr>])"
    using insert_loop_spec [OF p hash_less [OF p(1)] e cdist_less [OF hash_less [OF p(1)] e(1)], of i i n]
    by (auto simp: insertSlot_def)
  let ?x = "\<lparr>sl_id = i, sl_node = n, sl_occupied = True\<rparr>"
  have t': "t' = t[h := ?x]" and r: r using h(4) r by auto
  have at: "t' ! k = (if k = h then ?x else t ! k)" if "k < cap" for k
    using that h(1) p(2) by (simp add: t' nth_list_update)
  have c: "card (occ_set t') = card (occ_set t) + 1"
  proof -
    have "h \<notin> occ_set t" using h(2) by (simp add: occ_set_def)
    then show ?thesis using h(1) p(2) by (simp add: t' occ_set_update)
  qed
  have f: "sl_id (t ! k) \<noteq> i" if "k < cap" "occ t k" for k
    using fresh that p(2) by (auto simp: table_holds_def)
  have "\<forall>k < cap. \<forall>l < cap. occ t' k \<and> occ t' l \<and> sl_id (t' ! k) = sl_id (t' ! l) \<longrightarrow> k = l"
    using ok f by (auto simp: at table_ok_def)
  moreover have "reached cap t' h" using h by (simp add: reached_def at)
  then have "\<forall>k < cap. occ t' k \<longrightarrow> reached cap t' k"
  proof (intro allI impI)
    fix k assume k: "k < cap" "occ t' k"
    show "reached cap t' k"
    proof (cases "k = h")
      case False
      then have "reached cap t k" using k ok at [OF k(1)] by (simp add: table_ok_def)
      then show ?thesis unfolding t' using False h(1) p(2) by (intro reached_update) auto
    qed (use \<open>reached cap t' h\<close> in simp)
  qed
  ultimately have "table_ok cap t'" using p c room by (simp add: table_ok_def) (simp add: t')
  moreover have "\<forall>j m. table_holds t' j m \<longleftrightarrow> table_holds t j m \<or> (j = i \<and> m = n)"
    using h(1,2) p(2) by (auto simp: table_holds_def t' nth_list_update split: if_splits)
  ultimately show ?thesis using r c by (simp add: t')
qed

subsection \<open>Backward-shift deletion\<close>

definition shifting :: "nat \<Rightarrow> slot list \<Rightarrow> nat \<Rightarrow> nat \<Rightarrow> nat \<Rightarrow> bool" where
  "shifting cap t hole j e \<longleftrightarrow> pow2 cap \<and> length t = cap \<and> hole < cap \<and> j < cap \<and> e < cap
     \<and> occ t hole \<and> \<not> occ t e \<and> hole \<noteq> j \<and> cdist cap hole j \<le> cdist cap hole e
     \<and> (\<forall>k < cap. \<forall>l < cap. k \<noteq> hole \<and> l \<noteq> hole \<and> occ t k \<and> occ t l \<and> sl_id (t ! k) = sl_id (t ! l) \<longrightarrow> k = l)
     \<and> (\<forall>k < cap. k \<noteq> hole \<and> occ t k \<longrightarrow> reached cap t k)
     \<and> (\<forall>k < cap. k \<noteq> hole \<and> occ t k \<and> cdist cap (home cap t k) hole < cdist cap (home cap t k) k
          \<longrightarrow> cdist cap hole j \<le> cdist cap hole k)"

definition holds_but :: "slot list \<Rightarrow> nat \<Rightarrow> nat \<Rightarrow> int \<Rightarrow> bool" where
  "holds_but t hole i n \<longleftrightarrow> (\<exists>k < length t. k \<noteq> hole \<and> occ t k \<and> sl_id (t ! k) = i \<and> sl_node (t ! k) = n)"

lemma shifting_facts:
  assumes "shifting cap t hole j e"
  shows "pow2 cap" "length t = cap" "hole < cap" "j < cap" "e < cap" "occ t hole" "\<not> occ t e" "hole \<noteq> j"
    "cdist cap hole j \<le> cdist cap hole e"
  using assms unfolding shifting_def by blast+

lemma shifting_reached: "shifting cap t hole j e \<Longrightarrow> k < cap \<Longrightarrow> k \<noteq> hole \<Longrightarrow> occ t k \<Longrightarrow> reached cap t k"
  unfolding shifting_def by blast

lemma shifting_behind:
  "shifting cap t hole j e \<Longrightarrow> k < cap \<Longrightarrow> k \<noteq> hole \<Longrightarrow> occ t k \<Longrightarrow>
    cdist cap (home cap t k) hole < cdist cap (home cap t k) k \<Longrightarrow> cdist cap hole j \<le> cdist cap hole k"
  unfolding shifting_def by blast

lemma shifting_next:
  assumes s: "shifting cap t hole j e" and o: "occ t j" and r: "reachablePastHole hole j (home cap t j)"
  shows "shifting cap t hole (next_slot cap j) e"
proof -
  have b: "pow2 cap" "hole < cap" "j < cap" "e < cap" "hole \<noteq> j" "\<not> occ t e"
    "cdist cap hole j \<le> cdist cap hole e" using shifting_facts [OF s] by auto
  have "j \<noteq> e" using o b(6) by auto
  then have lt: "cdist cap hole j < cdist cap hole e"
    using b cdist_inj [of hole cap j e] by (metis le_neq_implies_less)
  have nh: "next_slot cap j \<noteq> hole"
  proof
    assume "next_slot cap j = hole"
    then have "cdist cap hole j = cap - 1" using b(1-3,5) by (auto simp: cdist_def next_slot_eq split: if_splits)
    then show False using lt cdist_less [OF b(2) b(4)] by simp
  qed
  then have n: "cdist cap hole (next_slot cap j) = Suc (cdist cap hole j)"
    using b by (simp add: cdist_next_right)
  have pass: "\<not> cdist cap (home cap t j) hole < cdist cap (home cap t j) j"
    using r reachable_cdist [OF b(2,3) hash_less [OF b(1)] b(5)] by simp
  have "Suc (cdist cap hole j) \<le> cdist cap hole k"
    if k: "k < cap" "k \<noteq> hole" "occ t k" "cdist cap (home cap t k) hole < cdist cap (home cap t k) k" for k
  proof -
    have "k \<noteq> j" using pass k(4) by auto
    then have "cdist cap hole j \<noteq> cdist cap hole k" using b(2,3) k(1) cdist_inj by metis
    moreover have "cdist cap hole j \<le> cdist cap hole k" using shifting_behind [OF s k] .
    ultimately show ?thesis by simp
  qed
  then have "\<forall>k < cap. k \<noteq> hole \<and> occ t k \<and> cdist cap (home cap t k) hole < cdist cap (home cap t k) k
          \<longrightarrow> cdist cap hole (next_slot cap j) \<le> cdist cap hole k" using n by simp
  moreover have "cdist cap hole (next_slot cap j) \<le> cdist cap hole e" using n lt by simp
  ultimately show ?thesis using s nh next_slot_less [OF b(1,3)] unfolding shifting_def by blast
qed

lemma shifting_move:
  assumes s: "shifting cap t hole j e" and o: "occ t j" and r: "\<not> reachablePastHole hole j (home cap t j)"
  shows "shifting cap (t[hole := t ! j]) j (next_slot cap j) e"
proof -
  let ?t = "t[hole := t ! j]"
  have b: "pow2 cap" "length t = cap" "hole < cap" "j < cap" "e < cap" "hole \<noteq> j" "\<not> occ t e" "occ t hole"
    using shifting_facts [OF s] by auto
  have at: "?t ! k = (if k = hole then t ! j else t ! k)" if "k < cap" for k
    using that b(2,3) by (simp add: nth_list_update)
  have je: "j \<noteq> e" "hole \<noteq> e" using o b(7,8) by auto
  have jn: "cdist cap j (next_slot cap j) = 1" "j \<noteq> next_slot cap j"
  proof -
    have "cap \<noteq> 1" using b(3,4,6) by auto
    then show "cdist cap j (next_slot cap j) = 1" "j \<noteq> next_slot cap j"
      using b(1,4) by (auto simp: cdist_def next_slot_eq)
  qed
  have one: "1 \<le> cdist cap j k" if "k < cap" "k \<noteq> j" for k using cdist_pos [OF b(4) that(1)] that(2) by simp
  have pass: "cdist cap (home cap t j) hole < cdist cap (home cap t j) j"
    using r reachable_cdist [OF b(3,4) hash_less [OF b(1)] b(6)] by simp
  have rj: "reached cap t j" using shifting_reached [OF s b(4)] o b(6) by simp
  have rk: "reached cap ?t k" if k: "k < cap" "k \<noteq> j" "occ ?t k" for k
  proof (cases "k = hole")
    case True
    then have "home cap ?t k = home cap t j" using at [OF k(1)] by simp
    then show ?thesis using rj pass o True unfolding reached_def by (auto simp: at)
  next
    case False
    then have "reached cap t k" using shifting_reached [OF s k(1)] k(3) at [OF k(1)] by simp
    then show ?thesis using False o by (auto simp: reached_def at k(1))
  qed
  have d: "k = l" if kl: "k < cap" "l < cap" "k \<noteq> j" "l \<noteq> j" "occ ?t k" "occ ?t l" "sl_id (?t ! k) = sl_id (?t ! l)" for k l
  proof -
    have inj: "\<And>k l. k < cap \<Longrightarrow> l < cap \<Longrightarrow> k \<noteq> hole \<Longrightarrow> l \<noteq> hole \<Longrightarrow> occ t k \<Longrightarrow> occ t l \<Longrightarrow> sl_id (t ! k) = sl_id (t ! l) \<Longrightarrow> k = l"
      using s unfolding shifting_def by blast
    define g where "g m = (if m = hole then j else m)" for m
    have g: "g m < cap \<and> g m \<noteq> hole \<and> ?t ! m = t ! g m" if "m < cap" for m
      using that at [OF that] b(4,6) by (simp add: g_def)
    have e: "?t ! k = t ! g k" "?t ! l = t ! g l" "g k < cap" "g k \<noteq> hole" "g l < cap" "g l \<noteq> hole"
      using g [OF kl(1)] g [OF kl(2)] by blast+
    have "g k = g l" using inj [OF e(3,5,4,6)] kl(5-7) unfolding e(1,2) by blast
    then show ?thesis using kl(3,4) by (simp add: g_def split: if_splits)
  qed
  have "cdist cap j (next_slot cap j) \<le> cdist cap j e" using one [OF b(5)] je(1) jn(1) by simp
  moreover have "occ ?t j" "\<not> occ ?t e" using o b je(2) by (auto simp: at)
  moreover have "\<forall>k < cap. k \<noteq> j \<and> occ ?t k \<and> cdist cap (home cap ?t k) j < cdist cap (home cap ?t k) k
      \<longrightarrow> cdist cap j (next_slot cap j) \<le> cdist cap j k" using one jn(1) by simp
  moreover have "length ?t = cap" using b(2) by simp
  ultimately show ?thesis unfolding shifting_def using b jn(2) rk d next_slot_less [OF b(1,4)] by blast
qed

lemma holds_but_move:
  assumes "length t = cap" "hole < cap" "j < cap" "occ t j" "hole \<noteq> j"
  shows "holds_but (t[hole := t ! j]) j = holds_but t hole"
proof (intro ext iffI)
  fix i n assume "holds_but (t[hole := t ! j]) j i n"
  then obtain k where "k < cap" "k \<noteq> j" "occ (t[hole := t ! j]) k" "sl_id (t[hole := t ! j] ! k) = i"
    "sl_node (t[hole := t ! j] ! k) = n" using assms(1) by (auto simp: holds_but_def)
  then show "holds_but t hole i n" unfolding holds_but_def using assms
    by (cases "k = hole") (auto intro: exI [of _ k] exI [of _ j])
next
  fix i n assume "holds_but t hole i n"
  then obtain k where "k < cap" "k \<noteq> hole" "occ t k" "sl_id (t ! k) = i" "sl_node (t ! k) = n"
    using assms(1) by (auto simp: holds_but_def)
  then show "holds_but (t[hole := t ! j]) j i n" unfolding holds_but_def using assms
    by (cases "k = j") (auto intro: exI [of _ k] exI [of _ hole])
qed

lemma shifting_done:
  assumes s: "shifting cap t hole j e" and o: "\<not> occ t j"
  shows "\<forall>k < cap. k \<noteq> hole \<and> occ t k \<longrightarrow> reached cap (t[hole := empty_slot]) k"
proof (intro allI impI)
  fix k assume k: "k < cap" "k \<noteq> hole \<and> occ t k"
  note b = shifting_facts [OF s]
  have h: "home cap t k < cap" using hash_less [OF b(1)] .
  have rk: "reached cap t k" using shifting_reached [OF s k(1)] k(2) by simp
  have "\<not> cdist cap (home cap t k) hole < cdist cap (home cap t k) k"
  proof
    assume p: "cdist cap (home cap t k) hole < cdist cap (home cap t k) k"
    then have "cdist cap hole j \<le> cdist cap hole k" using shifting_behind [OF s k(1)] k(2) by simp
    moreover have "j \<noteq> k" using o k(2) by auto
    ultimately have "cdist cap hole j < cdist cap hole k"
      using cdist_inj [OF b(3,4) k(1)] by linarith
    moreover have "cdist cap (home cap t k) k = cdist cap (home cap t k) hole + cdist cap hole k"
      using cdist_via [OF h b(3) k(1) less_imp_le [OF p]] .
    moreover have "cdist cap (home cap t k) k < cap" using h k(1) by (rule cdist_less)
    ultimately have "cdist cap (home cap t k) j < cdist cap (home cap t k) k"
      using cdist_add [OF h b(3,4)] by linarith
    then show False using rk o b(4) by (auto simp: reached_def)
  qed
  then show "reached cap (t[hole := empty_slot]) k"
    using rk k b(2,3) unfolding reached_def by (metis nth_list_update_neq)
qed

lemma shift_loop_law:
  assumes "shifting cap t hole j e" "cdist cap j e \<le> f"
  shows "table_ok cap (shift_loop t cap hole j f)
    \<and> card (occ_set (shift_loop t cap hole j f)) + 1 = card (occ_set t)
    \<and> table_holds (shift_loop t cap hole j f) = holds_but t hole"
  using assms
proof (induction f arbitrary: t hole j)
  have stop: "table_ok cap (t[hole := empty_slot]) \<and> card (occ_set (t[hole := empty_slot])) + 1 = card (occ_set t)
      \<and> table_holds (t[hole := empty_slot]) = holds_but t hole"
    if s: "shifting cap t hole j e" and o: "\<not> occ t j" for t hole j
  proof -
    have b: "pow2 cap" "length t = cap" "hole < cap" "occ t hole" "e < cap" "\<not> occ t e"
      using shifting_facts [OF s] by auto
    have at: "t[hole := empty_slot] ! k = (if k = hole then empty_slot else t ! k)" if "k < cap" for k
      using that b(2,3) by (simp add: nth_list_update)
    have c: "occ_set (t[hole := empty_slot]) = occ_set t - {hole}" "hole \<in> occ_set t"
      using b(2-4) by (simp_all add: occ_set_update empty_slot_def) (simp add: occ_set_def)
    then have card: "card (occ_set (t[hole := empty_slot])) + 1 = card (occ_set t)"
      using card_Suc_Diff1 [OF finite_occ_set c(2)] by simp
    have "occ_set t \<subseteq> {..<cap} - {e}" using b by (auto simp: occ_set_def)
    then have "card (occ_set t) \<le> card ({..<cap} - {e})" by (intro card_mono) auto
    then have "card (occ_set t) \<le> cap - 1" using b(5) by simp
    then have less: "card (occ_set (t[hole := empty_slot])) < cap" using card by linarith
    have inj: "\<forall>k < cap. \<forall>l < cap. k \<noteq> hole \<and> l \<noteq> hole \<and> occ t k \<and> occ t l \<and> sl_id (t ! k) = sl_id (t ! l) \<longrightarrow> k = l"
      using s unfolding shifting_def by blast
    have "table_ok cap (t[hole := empty_slot])"
    proof -
      have "k \<noteq> hole \<and> occ t k" if "k < cap" "occ (t[hole := empty_slot]) k" for k
        using that at [OF that(1)] by (simp add: empty_slot_def split: if_splits)
      moreover have "sl_id (t[hole := empty_slot] ! k) = sl_id (t ! k)" if "k < cap" "k \<noteq> hole" for k
        using that at [OF that(1)] by simp
      ultimately show ?thesis
        using b(1,2) less shifting_done [OF s o] inj unfolding table_ok_def by (metis length_list_update)
    qed
    moreover have "table_holds (t[hole := empty_slot]) = holds_but t hole"
      using b(2,3) by (intro ext) (auto simp: table_holds_def holds_but_def nth_list_update empty_slot_def split: if_splits)
    ultimately show ?thesis using card by blast
  qed
  {
    case 0
    then have "j = e" using cdist_pos [of j cap e] shifting_facts(4,5) [OF 0(1)] by auto
    then have "\<not> occ t j" using shifting_facts(7) [OF 0(1)] by simp
    from stop [OF 0(1) this] show ?case by simp
  next
    case (Suc f)
    show ?case
    proof (cases "occ t j")
      case False
      from stop [OF Suc.prems(1) this] False show ?thesis by simp
    next
      case True
      have b: "pow2 cap" "length t = cap" "hole < cap" "j < cap" "e < cap" "hole \<noteq> j" "j \<noteq> e" "occ t hole"
        using shifting_facts [OF Suc.prems(1)] True by auto
      then have f: "cdist cap (next_slot cap j) e \<le> f" using Suc.prems(2) by (simp add: cdist_next)
      show ?thesis
      proof (cases "reachablePastHole hole j (home cap t j)")
        case r: True
        show ?thesis using Suc.IH [OF shifting_next [OF Suc.prems(1) True r] f] True r by simp
      next
        case r: False
        have "occ_set (t[hole := t ! j]) = occ_set t" using b True by (auto simp: occ_set_update) (simp add: occ_set_def)
        then show ?thesis
          using Suc.IH [OF shifting_move [OF Suc.prems(1) True r] f] True r holds_but_move [OF b(2-4) True b(6)] by simp
      qed
    qed
  }
qed

lemma eraseSlot_law:
  assumes ok: "table_ok cap t" and held: "table_holds t i n"
  shows "table_ok cap (eraseSlot t cap i) \<and> card (occ_set (eraseSlot t cap i)) + 1 = card (occ_set t)
    \<and> (\<forall>j m. table_holds (eraseSlot t cap i) j m \<longleftrightarrow> table_holds t j m \<and> j \<noteq> i)"
proof -
  have p: "pow2 cap" "length t = cap" using ok by (auto simp: table_ok_def)
  obtain h where h: "h < cap" "occ t h" "sl_id (t ! h) = i" using held p(2) by (auto simp: table_holds_def)
  obtain e where e: "e < cap" "\<not> occ t e" using ok by (rule table_has_empty)
  have ne: "h \<noteq> e" using h e by auto
  have c1: "cap \<noteq> 1" using h(1) e(1) ne by auto
  have nx: "next_slot cap h < cap" using p(1) h(1) by (rule next_slot_less)
  have nx2: "h \<noteq> next_slot cap h" "cdist cap h (next_slot cap h) = 1"
    using next_slot_eq [OF p(1) h(1)] h(1) c1 by (auto simp: cdist_def split: if_splits)
  have one: "1 \<le> cdist cap h k" if "k < cap" "k \<noteq> h" for k using cdist_pos [OF h(1) that(1)] that(2) by simp
  have "shifting cap t h (next_slot cap h) e"
    unfolding shifting_def nx2(2) using ok p h e nx nx2(1) one [OF e(1)] one ne unfolding table_ok_def by blast
  moreover have "cdist cap (next_slot cap h) e \<le> cap - 1" using cdist_less [OF nx(1) e(1)] by simp
  moreover have "eraseSlot t cap i = shift_loop t cap h (next_slot cap h) (cap - 1)"
    using find_loop_held [OF ok h(1,2)] h(3) by (simp add: eraseSlot_def)
  moreover have "holds_but t h j m \<longleftrightarrow> table_holds t j m \<and> j \<noteq> i" for j m
    using ok h p(2) unfolding holds_but_def table_holds_def table_ok_def by metis
  ultimately show ?thesis using shift_loop_law [of cap t h "next_slot cap h" e "cap - 1"] by simp
qed

interpretation oat: id_index "table_ok cap" table_holds "\<lambda>t. card (occ_set t)" length
    "\<lambda>t. findSlot t cap" "\<lambda>t. insertSlot t cap" "\<lambda>t. eraseSlot t cap" for cap
proof
  fix t i n m
  assume "table_ok cap t" "table_holds t i n" "table_holds t i m"
  then show "n = m" using findSlot_held by metis
next
  fix t i n r t'
  assume a: "table_ok cap t" "\<forall>n. \<not> table_holds t i n" "card (occ_set t) + 1 < length t" "insertSlot t cap i n = (r, t')"
  then have "card (occ_set t) + 1 < cap" by (simp add: table_ok_def)
  from insertSlot_law [OF a(1,2) this a(4)]
  show "r \<and> table_ok cap t' \<and> card (occ_set t') = card (occ_set t) + 1 \<and> length t' = length t
      \<and> (\<forall>j m. table_holds t' j m \<longleftrightarrow> table_holds t j m \<or> (j = i \<and> m = n))" .
next
  fix t i n
  assume a: "table_ok cap t" "table_holds t i n"
  from eraseSlot_law [OF this] a(1)
  show "table_ok cap (eraseSlot t cap i) \<and> card (occ_set (eraseSlot t cap i)) + 1 = card (occ_set t)
      \<and> length (eraseSlot t cap i) = length t
      \<and> (\<forall>j m. table_holds (eraseSlot t cap i) j m \<longleftrightarrow> table_holds t j m \<and> j \<noteq> i)"
    by (simp add: table_ok_def)
next
  fix t i n
  assume "table_ok cap t" "table_holds t i n"
  then show "findSlot t cap i = n" by (rule findSlot_held)
qed (simp add: findSlot_def find_loop_free)

subsection \<open>The table as a map\<close>

datatype index_cmd = IdxInsert nat int | IdxErase nat

fun index_exec :: "nat \<Rightarrow> index_cmd \<Rightarrow> slot list \<Rightarrow> slot list" where
  "index_exec cap (IdxInsert i n) t = snd (insertSlot t cap i n)"
| "index_exec cap (IdxErase i) t = eraseSlot t cap i"

fun index_spec :: "index_cmd \<Rightarrow> (nat \<rightharpoonup> int) \<Rightarrow> nat \<rightharpoonup> int" where
  "index_spec (IdxInsert i n) m = m(i \<mapsto> n)"
| "index_spec (IdxErase i) m = m(i := None)"

fun index_run_ok :: "nat \<Rightarrow> (nat \<rightharpoonup> int) \<Rightarrow> index_cmd list \<Rightarrow> bool" where
  "index_run_ok cap m [] \<longleftrightarrow> True"
| "index_run_ok cap m (c # cs) \<longleftrightarrow>
     (case c of IdxInsert i n \<Rightarrow> m i = None \<and> card (dom m) + 1 < cap | IdxErase i \<Rightarrow> True)
     \<and> index_run_ok cap (index_spec c m) cs"

definition index_is :: "nat \<Rightarrow> slot list \<Rightarrow> (nat \<rightharpoonup> int) \<Rightarrow> bool" where
  "index_is cap t m \<longleftrightarrow> table_ok cap t \<and> finite (dom m) \<and> card (occ_set t) = card (dom m)
     \<and> (\<forall>i n. table_holds t i n \<longleftrightarrow> m i = Some n)"

lemma occ_set_replicate: "occ_set (replicate cap empty_slot) = {}"
  by (auto simp: occ_set_def empty_slot_def)

lemma index_is_find: "index_is cap t m \<Longrightarrow> findSlot t cap i = (case m i of None \<Rightarrow> -1 | Some n \<Rightarrow> n)"
  using oat.find_held oat.find_free by (auto simp: index_is_def split: option.splits)

lemma index_insert_succeeds:
  assumes "index_is cap t m" "m i = None" "card (dom m) + 1 < cap"
  shows "fst (insertSlot t cap i n)"
proof -
  have "table_ok cap t" "\<forall>n. \<not> table_holds t i n" "card (occ_set t) + 1 < length t"
    using assms by (auto simp: index_is_def table_ok_def)
  from oat.insert_law [OF this] show ?thesis by (metis prod.collapse)
qed

lemma index_step:
  assumes "index_is cap t m" "index_run_ok cap m [c]"
  shows "index_is cap (index_exec cap c t) (index_spec c m)"
proof (cases c)
  case (IdxInsert i n)
  have t: "table_ok cap t" "\<forall>n. \<not> table_holds t i n" "card (occ_set t) + 1 < length t"
    using assms IdxInsert by (auto simp: index_is_def table_ok_def)
  from oat.insert_law [OF t, of n "fst (insertSlot t cap i n)" "snd (insertSlot t cap i n)"]
  show ?thesis using assms IdxInsert by (auto simp: index_is_def insert_dom card_insert_if)
next
  case (IdxErase i)
  show ?thesis
  proof (cases "m i")
    case None
    then have "eraseSlot t cap i = t" using assms(1) find_loop_free [of cap t i] by (simp add: index_is_def eraseSlot_def)
    then show ?thesis using assms(1) IdxErase None by (simp add: fun_upd_idem)
  next
    case (Some n)
    then have "table_holds t i n" "table_ok cap t" using assms(1) by (auto simp: index_is_def)
    from oat.erase_law [OF this(2,1)] have e: "table_ok cap (eraseSlot t cap i)"
      "card (occ_set (eraseSlot t cap i)) + 1 = card (occ_set t)"
      "\<And>j m. table_holds (eraseSlot t cap i) j m \<longleftrightarrow> table_holds t j m \<and> j \<noteq> i" by blast+
    have "card (dom m) = Suc (card (dom m - {i}))"
      using assms(1) Some by (intro card.remove) (auto simp: index_is_def)
    then show ?thesis using assms(1) IdxErase e by (auto simp: index_is_def)
  qed
qed

lemma index_run:
  "index_is cap t m \<Longrightarrow> index_run_ok cap m cs \<Longrightarrow> index_is cap (fold (index_exec cap) cs t) (fold index_spec cs m)"
  by (induction cs arbitrary: t m) (use index_step in auto)

text \<open>
  C12. The open-addressing identifier table is a finite map: after any sequence of insertions
  of fresh identifiers (below the load the ladder sizes it for) and erasures from the empty
  table of a power-of-two size, \<^verbatim>\<open>findSlot\<close> answers exactly as the map does, \<^verbatim>\<open>-1\<close> for an absent
  identifier, and an insertion into such a table succeeds. Erasing back-shifts the probe runs
  and leaves no entry unreachable.
\<close>

theorem ladder_index_is_map:
  assumes "pow2 cap" "index_run_ok cap Map.empty cs"
  shows "findSlot (fold (index_exec cap) cs (replicate cap empty_slot)) cap i
      = (case fold index_spec cs Map.empty i of None \<Rightarrow> -1 | Some n \<Rightarrow> n)
    \<and> (fold index_spec cs Map.empty j = None \<and> card (dom (fold index_spec cs Map.empty)) + 1 < cap \<longrightarrow>
        fst (insertSlot (fold (index_exec cap) cs (replicate cap empty_slot)) cap j n))"
proof -
  let ?t = "fold (index_exec cap) cs (replicate cap empty_slot)" and ?m = "fold index_spec cs Map.empty"
  have "index_is cap (replicate cap empty_slot) Map.empty"
    using empty_table_ok [OF assms(1)] by (simp add: index_is_def occ_set_replicate)
  then have r: "index_is cap ?t ?m" using index_run assms(2) by blast
  have "fst (insertSlot ?t cap j n)" if "?m j = None" "card (dom ?m) + 1 < cap"
    using r that by (rule index_insert_succeeds)
  then show ?thesis using index_is_find [OF r] by blast
qed

theorem ladder_index_is_map_witness:
  "findSlot (fold (index_exec 4) [IdxInsert 1 7, IdxInsert 5 8, IdxErase 1] (replicate 4 empty_slot)) 4 5 = 8
   \<and> findSlot (fold (index_exec 4) [IdxInsert 1 7, IdxInsert 5 8, IdxErase 1] (replicate 4 empty_slot)) 4 1 = -1"
proof -
  have "pow2 4" unfolding pow2_def by (rule exI [of _ 2]) simp
  moreover have "index_run_ok 4 Map.empty [IdxInsert 1 7, IdxInsert 5 8, IdxErase 1]" by simp
  ultimately show ?thesis
    using ladder_index_is_map [of 4 "[IdxInsert 1 7, IdxInsert 5 8, IdxErase 1]" 5]
      ladder_index_is_map [of 4 "[IdxInsert 1 7, IdxInsert 5 8, IdxErase 1]" 1] by simp
qed

end
