(* ===== verification/LadderBook.thy ===== *)
theory LadderBook
  imports BookSpec LadderIndex
begin

section \<open>The ladder book\<close>

text \<open>
  \<^verbatim>\<open>LadderBook\<close> of \<^verbatim>\<open>include/flox/book/ladder_book.h\<close>, the production book: a dense array of
  price levels per side, each a doubly linked list threaded through a fixed node pool, an
  occupancy bitmap and a best-level cursor per side, a free list through the pool, and the
  open-addressing identifier index. The private helpers and the public members are translated
  statement by statement; a node or level number is an \<open>int\<close> with \<open>-1\<close> for none, as in the
  source. Walking a level's list is bounded by the pool size (a list has no repetition, see
  \<open>walk_dll\<close>); the level scans need no bound.
\<close>

subsection \<open>Data\<close>

record level =
  lv_head :: int
  lv_tail :: int
  lv_totalQty :: int

record node =
  nd_order :: resting_order
  nd_prev :: int
  nd_next :: int
  nd_level :: int
  nd_side :: side
  nd_nextFree :: int

record ladder_config =
  lc_basePriceRaw :: int
  lc_tickRaw :: int
  lc_numLevels :: nat
  lc_maxOrders :: nat

record ladder_book =
  lb_base :: int
  lb_tick :: int
  lb_numLevels :: nat
  lb_bidLevels :: "level list"
  lb_askLevels :: "level list"
  lb_nodes :: "node list"
  lb_bidBits :: bitmap
  lb_askBits :: bitmap
  lb_idx :: "slot list"
  lb_idxCap :: nat
  lb_freeHead :: int
  lb_bestBidLevel :: int
  lb_bestAskLevel :: int
  lb_count :: int

definition empty_order :: resting_order where
  "empty_order = \<lparr>ro_id = 0, ro_accountId = 0, ro_price = 0, ro_leaves = 0, ro_side = BUY, ro_hidden = 0,
     ro_peak = 0, ro_lastLook = False, ro_reduceOnly = False, ro_postOnly = False, ro_clientOrderId = 0,
     ro_cumQty = 0\<rparr>"

definition empty_node :: node where
  "empty_node = \<lparr>nd_order = empty_order, nd_prev = -1, nd_next = -1, nd_level = -1, nd_side = BUY, nd_nextFree = -1\<rparr>"

definition empty_level :: level where
  "empty_level = \<lparr>lv_head = -1, lv_tail = -1, lv_totalQty = 0\<rparr>"

subsection \<open>Construction\<close>

function idxCapFrom :: "nat \<Rightarrow> nat \<Rightarrow> nat" where
  "idxCapFrom target n = (if push_bit n 1 < target then idxCapFrom target (Suc n) else push_bit n 1)"
  by pat_completeness auto
termination
proof (relation "measure (\<lambda>(target, n). target - n)")
  fix target n :: nat
  assume "push_bit n 1 < target"
  then have "2 ^ n < target" by simp
  then have "n < target" using order.strict_trans [OF less_exp] by blast
  then show "((target, Suc n), target, n) \<in> measure (\<lambda>(target, n). target - n)" by simp
qed simp

declare idxCapFrom.simps [simp del]

definition free_nodes :: "nat \<Rightarrow> node list" where
  "free_nodes m = map (\<lambda>i. empty_node\<lparr>nd_nextFree := (if Suc i = m then -1 else int i + 1)\<rparr>) [0..<m]"

definition new_ladder :: "ladder_config \<Rightarrow> ladder_book" where
  "new_ladder c =
     (let cap = idxCapFrom (lc_maxOrders c * 2 + 1) 0
      in \<lparr>lb_base = lc_basePriceRaw c, lb_tick = lc_tickRaw c, lb_numLevels = lc_numLevels c,
          lb_bidLevels = replicate (lc_numLevels c) empty_level,
          lb_askLevels = replicate (lc_numLevels c) empty_level,
          lb_nodes = free_nodes (lc_maxOrders c),
          lb_bidBits = replicate (wordsFor (lc_numLevels c)) 0,
          lb_askBits = replicate (wordsFor (lc_numLevels c)) 0,
          lb_idx = replicate cap empty_slot, lb_idxCap = cap,
          lb_freeHead = (if lc_maxOrders c > 0 then 0 else -1),
          lb_bestBidLevel = -1, lb_bestAskLevel = -1, lb_count = 0\<rparr>)"

subsection \<open>Prices and levels\<close>

definition floorDiv :: "int \<Rightarrow> int \<Rightarrow> int" where
  "floorDiv n d = (let q = n sdiv d in if n smod d \<noteq> 0 \<and> (n < 0) \<noteq> (d < 0) then q - 1 else q)"

definition levelOf :: "ladder_book \<Rightarrow> int \<Rightarrow> int" where
  "levelOf b p =
     (let l = floorDiv (p - lb_base b) (lb_tick b)
      in if l < 0 then -1 else if l \<ge> int (lb_numLevels b) then int (lb_numLevels b) else l)"

definition clampLevel :: "ladder_book \<Rightarrow> int \<Rightarrow> int" where
  "clampLevel b p =
     (let l = floorDiv (p - lb_base b) (lb_tick b)
      in if l < 0 then -1 else if l \<ge> int (lb_numLevels b) then int (lb_numLevels b) - 1 else l)"

definition priceOf :: "ladder_book \<Rightarrow> int \<Rightarrow> int" where
  "priceOf b lvl = lb_base b + lvl * lb_tick b"

subsection \<open>Fields by side\<close>

definition levels_of :: "ladder_book \<Rightarrow> side \<Rightarrow> level list" where
  "levels_of b s = (case s of BUY \<Rightarrow> lb_bidLevels b | SELL \<Rightarrow> lb_askLevels b)"

definition levelRef :: "ladder_book \<Rightarrow> side \<Rightarrow> int \<Rightarrow> level" where
  "levelRef b s lvl = levels_of b s ! nat lvl"

definition set_level :: "side \<Rightarrow> int \<Rightarrow> (level \<Rightarrow> level) \<Rightarrow> ladder_book \<Rightarrow> ladder_book" where
  "set_level s lvl f b =
     (let ls = (levels_of b s)[nat lvl := f (levelRef b s lvl)]
      in case s of BUY \<Rightarrow> b\<lparr>lb_bidLevels := ls\<rparr> | SELL \<Rightarrow> b\<lparr>lb_askLevels := ls\<rparr>)"

definition bitsRef :: "ladder_book \<Rightarrow> side \<Rightarrow> bitmap" where
  "bitsRef b s = (case s of BUY \<Rightarrow> lb_bidBits b | SELL \<Rightarrow> lb_askBits b)"

definition set_bits :: "side \<Rightarrow> bitmap \<Rightarrow> ladder_book \<Rightarrow> ladder_book" where
  "set_bits s v b = (case s of BUY \<Rightarrow> b\<lparr>lb_bidBits := v\<rparr> | SELL \<Rightarrow> b\<lparr>lb_askBits := v\<rparr>)"

definition best_level_of :: "ladder_book \<Rightarrow> side \<Rightarrow> int" where
  "best_level_of b s = (case s of BUY \<Rightarrow> lb_bestBidLevel b | SELL \<Rightarrow> lb_bestAskLevel b)"

definition node_at :: "ladder_book \<Rightarrow> int \<Rightarrow> node" where
  "node_at b n = lb_nodes b ! nat n"

definition set_node :: "int \<Rightarrow> (node \<Rightarrow> node) \<Rightarrow> ladder_book \<Rightarrow> ladder_book" where
  "set_node n f b = b\<lparr>lb_nodes := (lb_nodes b)[nat n := f (node_at b n)]\<rparr>"

definition set_order :: "int \<Rightarrow> (resting_order \<Rightarrow> resting_order) \<Rightarrow> ladder_book \<Rightarrow> ladder_book" where
  "set_order n f = set_node n (\<lambda>x. x\<lparr>nd_order := f (nd_order x)\<rparr>)"

definition set_next :: "int \<Rightarrow> int \<Rightarrow> ladder_book \<Rightarrow> ladder_book" where
  "set_next n m = set_node n (\<lambda>x. x\<lparr>nd_next := m\<rparr>)"

definition set_prev :: "int \<Rightarrow> int \<Rightarrow> ladder_book \<Rightarrow> ladder_book" where
  "set_prev n m = set_node n (\<lambda>x. x\<lparr>nd_prev := m\<rparr>)"

subsection \<open>Cursor, list and pool maintenance\<close>

definition onLevelOccupied :: "side \<Rightarrow> int \<Rightarrow> ladder_book \<Rightarrow> ladder_book" where
  "onLevelOccupied s lvl b =
     (case s of
        BUY \<Rightarrow> if lvl > lb_bestBidLevel b then b\<lparr>lb_bestBidLevel := lvl\<rparr> else b
      | SELL \<Rightarrow> if lb_bestAskLevel b < 0 \<or> lvl < lb_bestAskLevel b then b\<lparr>lb_bestAskLevel := lvl\<rparr> else b)"

definition onLevelEmptied :: "side \<Rightarrow> int \<Rightarrow> ladder_book \<Rightarrow> ladder_book" where
  "onLevelEmptied s lvl b0 =
     (let b = set_bits s (clearBit (bitsRef b0 s) (nat lvl)) b0
      in case s of
           BUY \<Rightarrow> if lvl = lb_bestBidLevel b
                   then b\<lparr>lb_bestBidLevel := highestSetAtOrBelow (lb_bidBits b) (lvl - 1)\<rparr> else b
         | SELL \<Rightarrow> if lvl = lb_bestAskLevel b
                    then b\<lparr>lb_bestAskLevel := lowestSetAtOrAbove (lb_askBits b) (lb_numLevels b) (lvl + 1)\<rparr> else b)"

definition requeueFrontToTail :: "side \<Rightarrow> int \<Rightarrow> int \<Rightarrow> ladder_book \<Rightarrow> ladder_book" where
  "requeueFrontToTail s lvl n b =
     (if lv_head (levelRef b s lvl) = lv_tail (levelRef b s lvl) then b
      else let nxt = nd_next (node_at b n);
               b1 = set_level s lvl (\<lambda>v. v\<lparr>lv_head := nxt\<rparr>) b;
               b2 = set_prev nxt (-1) b1;
               b3 = set_prev n (lv_tail (levelRef b2 s lvl)) b2;
               b4 = set_next n (-1) b3;
               b5 = set_next (lv_tail (levelRef b4 s lvl)) n b4
           in set_level s lvl (\<lambda>v. v\<lparr>lv_tail := n\<rparr>) b5)"

definition moveToTail :: "side \<Rightarrow> int \<Rightarrow> int \<Rightarrow> ladder_book \<Rightarrow> ladder_book" where
  "moveToTail s lvl n b =
     (if lv_tail (levelRef b s lvl) = n then b
      else let prv = nd_prev (node_at b n); nxt = nd_next (node_at b n);
               b1 = (if prv \<ge> 0 then set_next prv nxt b else set_level s lvl (\<lambda>v. v\<lparr>lv_head := nxt\<rparr>) b);
               b2 = set_prev nxt prv b1;
               b3 = set_prev n (lv_tail (levelRef b2 s lvl)) b2;
               b4 = set_next n (-1) b3;
               b5 = set_next (lv_tail (levelRef b4 s lvl)) n b4
           in set_level s lvl (\<lambda>v. v\<lparr>lv_tail := n\<rparr>) b5)"

definition unlink :: "int \<Rightarrow> ladder_book \<Rightarrow> ladder_book" where
  "unlink n b =
     (let s = nd_side (node_at b n); lvl = nd_level (node_at b n);
          prv = nd_prev (node_at b n); nxt = nd_next (node_at b n);
          b1 = set_level s lvl (\<lambda>v. v\<lparr>lv_totalQty := dec_sub (lv_totalQty v) (total_qty (nd_order (node_at b n)))\<rparr>) b;
          b2 = (if prv \<ge> 0 then set_next prv nxt b1 else set_level s lvl (\<lambda>v. v\<lparr>lv_head := nxt\<rparr>) b1);
          b3 = (if nxt \<ge> 0 then set_prev nxt prv b2 else set_level s lvl (\<lambda>v. v\<lparr>lv_tail := prv\<rparr>) b2);
          b4 = (if lv_head (levelRef b3 s lvl) < 0
                then onLevelEmptied s lvl (set_level s lvl (\<lambda>v. v\<lparr>lv_totalQty := 0\<rparr>) b3) else b3)
      in set_node n (\<lambda>x. x\<lparr>nd_prev := -1, nd_next := -1, nd_level := -1\<rparr>) b4)"

definition allocNode :: "ladder_book \<Rightarrow> int \<times> ladder_book" where
  "allocNode b =
     (if lb_freeHead b < 0 then (-1, b)
      else let idx = lb_freeHead b
           in (idx, b\<lparr>lb_freeHead := nd_nextFree (node_at b idx), lb_count := lb_count b + 1\<rparr>))"

definition freeNode :: "int \<Rightarrow> ladder_book \<Rightarrow> ladder_book" where
  "freeNode idx b =
     (let b1 = set_node idx (\<lambda>_. empty_node\<lparr>nd_nextFree := lb_freeHead b\<rparr>) b
      in b1\<lparr>lb_freeHead := idx, lb_count := lb_count b1 - 1\<rparr>)"

subsection \<open>The public members\<close>

definition find_node :: "ladder_book \<Rightarrow> nat \<Rightarrow> int" where
  "find_node b i = findSlot (lb_idx b) (lb_idxCap b) i"

definition erase_id :: "nat \<Rightarrow> ladder_book \<Rightarrow> ladder_book" where
  "erase_id i b = b\<lparr>lb_idx := eraseSlot (lb_idx b) (lb_idxCap b) i\<rparr>"

definition lad_contains :: "ladder_book \<Rightarrow> nat \<Rightarrow> bool" where
  "lad_contains b i \<longleftrightarrow> find_node b i \<noteq> -1"

definition lad_empty :: "ladder_book \<Rightarrow> bool" where
  "lad_empty b \<longleftrightarrow> lb_count b = 0"

definition lad_full :: "ladder_book \<Rightarrow> bool" where
  "lad_full b \<longleftrightarrow> lb_freeHead b = -1"

definition link_tail :: "side \<Rightarrow> int \<Rightarrow> int \<Rightarrow> resting_order \<Rightarrow> ladder_book \<Rightarrow> ladder_book" where
  "link_tail s lvl n r b =
     (let b1 = set_node n (\<lambda>x. x\<lparr>nd_order := r, nd_level := lvl, nd_side := s, nd_prev := -1, nd_next := -1\<rparr>) b;
          v = levelRef b1 s lvl;
          b2 = (if lv_head v < 0
                then let b' = set_level s lvl (\<lambda>v. v\<lparr>lv_head := n, lv_tail := n\<rparr>) b1
                     in onLevelOccupied s lvl (set_bits s (setBit (bitsRef b' s) (nat lvl)) b')
                else set_level s lvl (\<lambda>v. v\<lparr>lv_tail := n\<rparr>) (set_prev n (lv_tail v) (set_next (lv_tail v) n b1)))
      in set_level s lvl (\<lambda>v. v\<lparr>lv_totalQty := dec_add (lv_totalQty v) (total_qty r)\<rparr>) b2)"

definition lad_addResting :: "ladder_book \<Rightarrow> side \<Rightarrow> resting_order \<Rightarrow> book_add_result \<times> ladder_book" where
  "lad_addResting b s r =
     (let lvl = levelOf b (ro_price r)
      in if lvl < 0 \<or> lvl \<ge> int (lb_numLevels b) then (PriceOutOfBand, b)
         else case allocNode b of (n, b1) \<Rightarrow>
           if n < 0 then (PoolExhausted, b1)
           else case insertSlot (lb_idx b1) (lb_idxCap b1) (ro_id r) n of (ok, t) \<Rightarrow>
             if \<not> ok then (PoolExhausted, freeNode n (b1\<lparr>lb_idx := t\<rparr>))
             else (Accepted, link_tail s lvl n r (b1\<lparr>lb_idx := t\<rparr>)))"

definition lad_canRest :: "ladder_book \<Rightarrow> int \<Rightarrow> bool" where
  "lad_canRest b p = (let lvl = levelOf b p in lvl \<ge> 0 \<and> lvl < int (lb_numLevels b))"

definition lad_find :: "ladder_book \<Rightarrow> nat \<Rightarrow> resting_order option" where
  "lad_find b i = (let n = find_node b i in if n < 0 then None else Some (nd_order (node_at b n)))"

definition lad_reduce :: "ladder_book \<Rightarrow> nat \<Rightarrow> int \<Rightarrow> bool \<times> ladder_book" where
  "lad_reduce b i newLeaves =
     (let n = find_node b i
      in if n < 0 then (False, b)
         else let x = node_at b n;
                  b1 = set_level (nd_side x) (nd_level x)
                    (\<lambda>v. v\<lparr>lv_totalQty := dec_sub (lv_totalQty v) (dec_sub (ro_leaves (nd_order x)) newLeaves)\<rparr>) b
              in (True, set_order n (\<lambda>r. r\<lparr>ro_leaves := newLeaves\<rparr>) b1))"

definition lad_reduceTotal :: "ladder_book \<Rightarrow> nat \<Rightarrow> int \<Rightarrow> bool \<times> ladder_book" where
  "lad_reduceTotal b i newTotal =
     (let n = find_node b i
      in if n < 0 then (False, b)
         else let x = node_at b n; r = nd_order x
              in if newTotal < ro_leaves r
                 then (True, set_order n (\<lambda>r. r\<lparr>ro_leaves := newTotal, ro_hidden := 0\<rparr>)
                    (set_level (nd_side x) (nd_level x)
                      (\<lambda>v. v\<lparr>lv_totalQty := dec_sub (lv_totalQty v) (dec_sub (ro_leaves r) newTotal)\<rparr>) b))
                 else (True, set_order n (\<lambda>r. r\<lparr>ro_hidden := dec_sub newTotal (ro_leaves r)\<rparr>) b))"

definition take_down :: "int \<Rightarrow> nat \<Rightarrow> ladder_book \<Rightarrow> ladder_book" where
  "take_down n i b = freeNode n (erase_id i (unlink n b))"

definition lad_consumeById :: "ladder_book \<Rightarrow> nat \<Rightarrow> int \<Rightarrow> ladder_book" where
  "lad_consumeById b i by =
     (let n = find_node b i
      in if n < 0 then b
         else let s = nd_side (node_at b n); lvl = nd_level (node_at b n);
                  b1 = set_order n (\<lambda>r. r\<lparr>ro_leaves := dec_sub (ro_leaves r) by, ro_cumQty := dec_add (ro_cumQty r) by\<rparr>) b;
                  b2 = set_level s lvl (\<lambda>v. v\<lparr>lv_totalQty := dec_sub (lv_totalQty v) by\<rparr>) b1;
                  r = nd_order (node_at b2 n)
              in if ro_leaves r \<noteq> 0 then b2
                 else if ro_hidden r \<noteq> 0
                 then let newVis = (if ro_peak r < ro_hidden r then ro_peak r else ro_hidden r)
                      in moveToTail s lvl n (set_order n (\<lambda>r. r\<lparr>ro_leaves := newVis, ro_hidden := dec_sub (ro_hidden r) newVis\<rparr>) b2)
                 else take_down n i b2)"

definition lad_cancel :: "ladder_book \<Rightarrow> nat \<Rightarrow> resting_order option \<times> ladder_book" where
  "lad_cancel b i =
     (let n = find_node b i
      in if n < 0 then (None, b) else (Some (nd_order (node_at b n)), take_down n i b))"

definition lad_peekBest :: "ladder_book \<Rightarrow> side \<Rightarrow> resting_order option" where
  "lad_peekBest b s =
     (let lvl = best_level_of b s
      in if lvl < 0 then None
         else let h = lv_head (levelRef b s lvl) in if h < 0 then None else Some (nd_order (node_at b h)))"

fun walk :: "node list \<Rightarrow> nat \<Rightarrow> int \<Rightarrow> nat list" where
  "walk ns 0 i = []"
| "walk ns (Suc f) i = (if i < 0 then [] else nat i # walk ns f (nd_next (ns ! nat i)))"

definition level_orders :: "ladder_book \<Rightarrow> side \<Rightarrow> int \<Rightarrow> resting_order list" where
  "level_orders b s lvl =
     map (\<lambda>n. nd_order (lb_nodes b ! n)) (walk (lb_nodes b) (length (lb_nodes b)) (lv_head (levelRef b s lvl)))"

lemma highest_less: "0 \<le> l \<Longrightarrow> highestSetAtOrBelow v (l - 1) < l"
  using highest_at_or_below [of "l - 1" v] by (auto simp: is_highest_def)

function bid_scan :: "bitmap \<Rightarrow> int \<Rightarrow> int list" where
  "bid_scan v l = (if l < 0 then [] else l # bid_scan v (highestSetAtOrBelow v (l - 1)))"
  by pat_completeness auto
termination
proof (relation "measure (\<lambda>(v, l). nat (l + 1))")
  fix v l assume "\<not> l < (0 :: int)"
  then show "((v, highestSetAtOrBelow v (l - 1)), v, l) \<in> measure (\<lambda>(v, l). nat (l + 1))"
    using highest_less [of l v] by auto
qed simp

declare bid_scan.simps [simp del]

lemma scan_up_range:
  "scan_up v levels w word = -1
    \<or> (\<exists>k < levels. scan_up v levels w word = int k \<and> (if word \<noteq> 0 then w * 64 + countr_zero word \<le> k else Suc w * 64 \<le> k))"
proof (induction v levels w word rule: scan_up.induct)
  case (1 v levels w word)
  show ?case
  proof (cases "word = 0 \<and> \<not> length v \<le> Suc w")
    case True
    then have e: "scan_up v levels w word = scan_up v levels (Suc w) (v ! Suc w)" by (subst scan_up.simps) simp
    have "scan_up v levels (Suc w) (v ! Suc w) = -1 \<or> (\<exists>k < levels. scan_up v levels (Suc w) (v ! Suc w) = int k \<and>
        (if v ! Suc w \<noteq> 0 then Suc w * 64 + countr_zero (v ! Suc w) \<le> k else Suc (Suc w) * 64 \<le> k))"
      using 1 True by auto
    then show ?thesis unfolding e using True by (auto split: if_splits)
  next
    case False
    then show ?thesis by (subst (1 2) scan_up.simps) (auto simp: Let_def)
  qed
qed

lemma scan_up_from:
  fixes n :: nat and x :: "64 word"
  defines "y \<equiv> x AND NOT (push_bit (n mod 64) 1 - 1)"
  shows "scan_up v levels (n div 64) y = -1 \<or> (\<exists>k < levels. n \<le> k \<and> scan_up v levels (n div 64) y = int k)"
proof -
  have "n mod 64 \<le> countr_zero y" if "y \<noteq> 0"
  proof -
    have "push_bit (n mod 64) 1 - 1 = (mask (n mod 64) :: 64 word)" by (simp add: mask_eq_exp_minus_1)
    then show ?thesis using countr_zero_bits(1) [OF that]
      by (auto simp: y_def bit_and_iff bit_not_iff bit_mask_iff not_less simp del: push_bit_of_1)
  qed
  then have "y \<noteq> 0 \<Longrightarrow> n \<le> n div 64 * 64 + countr_zero y" by presburger
  moreover have "n \<le> Suc (n div 64) * 64" by presburger
  ultimately have "n \<le> k" if "if y \<noteq> 0 then n div 64 * 64 + countr_zero y \<le> k else Suc (n div 64) * 64 \<le> k" for k
    using that order.trans by (cases "y = 0") auto
  then show ?thesis using scan_up_range [of v levels "n div 64" y] by blast
qed

lemma lowest_greater:
  assumes "0 \<le> l" "0 \<le> lowestSetAtOrAbove v levels (l + 1)"
  shows "l < lowestSetAtOrAbove v levels (l + 1) \<and> lowestSetAtOrAbove v levels (l + 1) < int levels"
  using assms scan_up_from [of v levels "nat (l + 1)" "v ! (nat (l + 1) div 64)"]
  by (auto simp: lowestSetAtOrAbove_def Let_def split: if_splits)

function ask_scan :: "bitmap \<Rightarrow> nat \<Rightarrow> int \<Rightarrow> int list" where
  "ask_scan v levels l = (if l < 0 then [] else l # ask_scan v levels (lowestSetAtOrAbove v levels (l + 1)))"
  by pat_completeness auto
termination
proof (relation "measure (\<lambda>(v, levels, l). if l < 0 then 0 else Suc (nat (int levels - l)))")
  fix v levels and l :: int
  assume l: "\<not> l < 0"
  show "((v, levels, lowestSetAtOrAbove v levels (l + 1)), v, levels, l)
      \<in> measure (\<lambda>(v, levels, l). if l < 0 then 0 else Suc (nat (int levels - l)))"
    using l lowest_greater [of l v levels] by (cases "lowestSetAtOrAbove v levels (l + 1) < 0") auto
qed simp

declare ask_scan.simps [simp del]

definition scan :: "ladder_book \<Rightarrow> side \<Rightarrow> int list" where
  "scan b s = (case s of BUY \<Rightarrow> bid_scan (lb_bidBits b) (lb_bestBidLevel b)
     | SELL \<Rightarrow> ask_scan (lb_askBits b) (lb_numLevels b) (lb_bestAskLevel b))"

definition lad_levels :: "ladder_book \<Rightarrow> side \<Rightarrow> (int \<times> int) list" where
  "lad_levels b s = map (\<lambda>l. (priceOf b l, lv_totalQty (levelRef b s l))) (scan b s)"

definition lad_bestLevel :: "ladder_book \<Rightarrow> side \<Rightarrow> resting_order list" where
  "lad_bestLevel b s = (let lvl = best_level_of b s in if lvl < 0 then [] else level_orders b s lvl)"

definition lad_fillBest :: "ladder_book \<Rightarrow> side \<Rightarrow> int \<Rightarrow> ladder_book" where
  "lad_fillBest b s by =
     (let lvl = best_level_of b s
      in if lvl < 0 then b
         else let h = lv_head (levelRef b s lvl);
                  b1 = set_order h (\<lambda>r. r\<lparr>ro_leaves := dec_sub (ro_leaves r) by, ro_cumQty := dec_add (ro_cumQty r) by\<rparr>) b;
                  b2 = set_level s lvl (\<lambda>v. v\<lparr>lv_totalQty := dec_sub (lv_totalQty v) by\<rparr>) b1;
                  r = nd_order (node_at b2 h)
              in if ro_leaves r \<noteq> 0 then b2
                 else if ro_hidden r \<noteq> 0
                 then let newVis = (if ro_peak r < ro_hidden r then ro_peak r else ro_hidden r)
                      in requeueFrontToTail s lvl h (set_order h (\<lambda>r. r\<lparr>ro_leaves := newVis, ro_hidden := dec_sub (ro_hidden r) newVis\<rparr>) b2)
                 else take_down h (ro_id r) b2)"

definition lad_forEachOrder :: "ladder_book \<Rightarrow> resting_order list" where
  "lad_forEachOrder b = concat (map (level_orders b BUY) (scan b BUY)) @ concat (map (level_orders b SELL) (scan b SELL))"

definition lad_bestBid :: "ladder_book \<Rightarrow> int option" where
  "lad_bestBid b = (if lb_bestBidLevel b < 0 then None else Some (priceOf b (lb_bestBidLevel b)))"

definition lad_bestAsk :: "ladder_book \<Rightarrow> int option" where
  "lad_bestAsk b = (if lb_bestAskLevel b < 0 then None else Some (priceOf b (lb_bestAskLevel b)))"

definition crossing_levels :: "ladder_book \<Rightarrow> side \<Rightarrow> int \<Rightarrow> bool \<Rightarrow> int list" where
  "crossing_levels b takerSide limit isMarket =
     (case takerSide of
        BUY \<Rightarrow> (let limitLvl = (if isMarket then int (lb_numLevels b) - 1 else clampLevel b limit)
                 in takeWhile (\<lambda>l. l \<le> limitLvl) (scan b SELL))
      | SELL \<Rightarrow> (let limitLvl = (if isMarket then 0 else clampLevel b limit)
                  in takeWhile (\<lambda>l. l \<ge> limitLvl) (scan b BUY)))"

definition lad_availableWithin :: "ladder_book \<Rightarrow> side \<Rightarrow> int \<Rightarrow> bool \<Rightarrow> int" where
  "lad_availableWithin b takerSide limit isMarket =
     fold (\<lambda>l tot. dec_add tot (lv_totalQty (levelRef b (opposite takerSide) l)))
       (crossing_levels b takerSide limit isMarket) 0"

definition lad_within :: "ladder_book \<Rightarrow> side \<Rightarrow> int \<Rightarrow> bool \<Rightarrow> resting_order list" where
  "lad_within b takerSide limit isMarket =
     concat (map (level_orders b (opposite takerSide)) (crossing_levels b takerSide limit isMarket))"

definition lad_ops :: "ladder_book book_ops" where
  "lad_ops = \<lparr>bk_contains = lad_contains, bk_full = lad_full, bk_addResting = lad_addResting,
     bk_canRest = lad_canRest, bk_find = lad_find, bk_reduceTotal = lad_reduceTotal,
     bk_consumeById = lad_consumeById, bk_cancel = lad_cancel, bk_forEachOrder = lad_forEachOrder,
     bk_bestLevel = lad_bestLevel, bk_peekBest = lad_peekBest, bk_fillBest = lad_fillBest,
     bk_bestBid = lad_bestBid, bk_bestAsk = lad_bestAsk, bk_within = lad_within\<rparr>"

end
