(* ===== verification/LadderLinks.thy ===== *)
theory LadderLinks
  imports LadderBook
begin

section \<open>Doubly linked levels and the free list\<close>

text \<open>
  The lists threaded through the node pool, as predicates on the pool: \<open>dll\<close> says that a list
  of node numbers is linked forwards and backwards, \<open>flist\<close> that one is linked through
  \<^verbatim>\<open>nextFree\<close>. The lemmas follow the pointer updates of the source: append at the tail, take a
  node out, move it to the tail.
\<close>

definition first :: "nat list \<Rightarrow> int \<Rightarrow> int" where
  "first xs e = (case xs of [] \<Rightarrow> e | x # _ \<Rightarrow> int x)"

definition final :: "nat list \<Rightarrow> int \<Rightarrow> int" where
  "final xs p = (if xs = [] then p else int (last xs))"

fun dll :: "node list \<Rightarrow> int \<Rightarrow> nat list \<Rightarrow> int \<Rightarrow> bool" where
  "dll ns p [] e \<longleftrightarrow> True"
| "dll ns p (x # xs) e \<longleftrightarrow> x < length ns \<and> nd_prev (ns ! x) = p \<and> nd_next (ns ! x) = first xs e \<and> dll ns (int x) xs e"

fun flist :: "node list \<Rightarrow> int \<Rightarrow> nat list \<Rightarrow> bool" where
  "flist ns h [] \<longleftrightarrow> h = -1"
| "flist ns h (x # xs) \<longleftrightarrow> h = int x \<and> x < length ns \<and> flist ns (nd_nextFree (ns ! x)) xs"

lemma first_simps [simp]: "first [] e = e" "first (x # xs) e = int x"
  by (auto simp: first_def split: list.splits)

lemma final_simps [simp]: "final [] p = p" "final (xs @ [x]) p = int x" "final (x # xs) p = final xs (int x)"
  by (auto simp: final_def)

lemma first_append: "first (xs @ ys) e = first xs (first ys e)"
  by (cases xs) auto

lemma final_append: "final (xs @ ys) p = final ys (final xs p)"
  by (auto simp: final_def)

lemma first_neg: "first xs (-1) < 0 \<longleftrightarrow> xs = []" "0 \<le> first xs (-1) \<longleftrightarrow> xs \<noteq> []"
  by (cases xs; simp)+

lemma final_neg: "final xs (-1) < 0 \<longleftrightarrow> xs = []" "0 \<le> final xs (-1) \<longleftrightarrow> xs \<noteq> []"
  by (simp_all add: final_def)

lemma dll_append: "dll ns p (xs @ ys) e \<longleftrightarrow> dll ns p xs (first ys e) \<and> dll ns (final xs p) ys e"
  by (induction xs arbitrary: p) (auto simp: first_append)

lemma dll_frame:
  "(\<forall>x \<in> set xs. nd_prev (ns' ! x) = nd_prev (ns ! x) \<and> nd_next (ns' ! x) = nd_next (ns ! x)) \<Longrightarrow>
   length ns' = length ns \<Longrightarrow> dll ns' p xs e = dll ns p xs e"
  by (induction xs arbitrary: p) auto

lemma flist_frame:
  "(\<forall>x \<in> set xs. nd_nextFree (ns' ! x) = nd_nextFree (ns ! x)) \<Longrightarrow> length ns' = length ns \<Longrightarrow> flist ns' h xs = flist ns h xs"
  by (induction xs arbitrary: h) auto

lemma dll_upd [simp]: "x \<notin> set xs \<Longrightarrow> dll (ns[x := v]) p xs e = dll ns p xs e"
  by (rule dll_frame) (metis nth_list_update_neq, simp)

lemma dll_nodes: "dll ns p xs e \<Longrightarrow> x \<in> set xs \<Longrightarrow> x < length ns"
  by (induction xs arbitrary: p) auto

lemma dll_next_last:
  assumes "dll ns p (xs @ [x]) e" "x \<notin> set xs"
  shows "dll (ns[x := (ns ! x)\<lparr>nd_next := f\<rparr>]) p (xs @ [x]) f"
  using assms by (auto simp: dll_append)

lemma dll_prev_first:
  assumes "dll ns p (x # xs) e" "x \<notin> set xs"
  shows "dll (ns[x := (ns ! x)\<lparr>nd_prev := o'\<rparr>]) o' (x # xs) e"
  using assms by auto

lemma walk_dll:
  assumes "dll ns p xs (-1)" "length xs \<le> f"
  shows "walk ns f (first xs (-1)) = xs"
  using assms
proof (induction xs arbitrary: p f)
  case Nil
  then show ?case by (cases f) auto
next
  case (Cons x xs)
  then obtain g where "f = Suc g" by (cases f) auto
  then show ?case using Cons by auto
qed

lemma split_at_node:
  assumes "x \<in> set xs" "distinct xs"
  obtains ys zs where "xs = ys @ x # zs" "x \<notin> set ys" "x \<notin> set zs" "filter (\<lambda>y. y \<noteq> x) xs = ys @ zs"
proof -
  obtain ys zs where s: "xs = ys @ x # zs" using split_list [OF assms(1)] by blast
  then have n: "x \<notin> set ys" "x \<notin> set zs" using assms(2) by auto
  then have "filter (\<lambda>y. y \<noteq> x) ys = ys" "filter (\<lambda>y. y \<noteq> x) zs = zs" by (auto intro: filter_True)
  then show ?thesis using that [OF s n] s by simp
qed

text \<open>
  A pool whose links at a level are those of \<open>ns\<close> with node \<open>x\<close> bridged: the neighbours of
  \<open>x\<close> point at each other.
\<close>

definition bridged :: "node list \<Rightarrow> node list \<Rightarrow> nat list \<Rightarrow> nat list \<Rightarrow> bool" where
  "bridged ns ns' ys zs \<longleftrightarrow> length ns' = length ns
     \<and> (\<forall>k \<in> set ys \<union> set zs. nd_next (ns' ! k) = (if ys \<noteq> [] \<and> k = last ys then first zs (-1) else nd_next (ns ! k))
          \<and> nd_prev (ns' ! k) = (if zs \<noteq> [] \<and> k = hd zs then final ys (-1) else nd_prev (ns ! k)))"

lemma dll_change_end:
  assumes "dll ns p xs e" "distinct xs" "length ns' = length ns"
    and "\<forall>k \<in> set xs. nd_next (ns' ! k) = (if k = last xs then e' else nd_next (ns ! k)) \<and> nd_prev (ns' ! k) = nd_prev (ns ! k)"
  shows "dll ns' p xs e'"
  using assms
proof (induction xs arbitrary: p)
  case (Cons x xs)
  show ?case
  proof (cases xs)
    case Nil
    then show ?thesis using Cons.prems by simp
  next
    case (Cons y zs)
    have "x \<noteq> last xs" using Cons.prems(2) Cons by (metis distinct.simps(2) last_in_set list.distinct(1))
    then show ?thesis using Cons.prems Cons.IH [of "int x"] Cons by (auto simp: first_def)
  qed
qed simp

lemma dll_change_start:
  assumes "dll ns p xs e" "distinct xs" "length ns' = length ns"
    and "\<forall>k \<in> set xs. nd_prev (ns' ! k) = (if k = hd xs then p' else nd_prev (ns ! k)) \<and> nd_next (ns' ! k) = nd_next (ns ! k)"
  shows "dll ns' p' xs e"
proof (cases xs)
  case (Cons x zs)
  then have "dll ns' (int x) zs e = dll ns (int x) zs e" using assms by (intro dll_frame) auto
  then show ?thesis using assms Cons by auto
qed simp

lemma dll_bridged:
  assumes "dll ns (-1) (ys @ x # zs) (-1)" "distinct (ys @ x # zs)" "bridged ns ns' ys zs"
  shows "dll ns' (-1) (ys @ zs) (-1)"
proof -
  have a: "dll ns (-1) ys (int x)" "dll ns (int x) zs (-1)" using assms(1) by (auto simp: dll_append)
  have d: "distinct ys" "distinct zs" "set ys \<inter> set zs = {}" using assms(2) by auto
  have "dll ns' (-1) ys (first zs (-1))"
    using a(1) d(1)
  proof (rule dll_change_end)
    show "\<forall>k \<in> set ys. nd_next (ns' ! k) = (if k = last ys then first zs (-1) else nd_next (ns ! k))
        \<and> nd_prev (ns' ! k) = nd_prev (ns ! k)"
      using assms(3) d(3) hd_in_set [of zs] unfolding bridged_def by (metis UnCI disjoint_iff empty_iff list.set(1))
  qed (use assms(3) in \<open>simp add: bridged_def\<close>)
  moreover have "dll ns' (final ys (-1)) zs (-1)"
    using a(2) d(2)
  proof (rule dll_change_start)
    show "\<forall>k \<in> set zs. nd_prev (ns' ! k) = (if k = hd zs then final ys (-1) else nd_prev (ns ! k))
        \<and> nd_next (ns' ! k) = nd_next (ns ! k)"
      using assms(3) d(3) last_in_set [of ys] unfolding bridged_def by (metis UnCI disjoint_iff empty_iff list.set(1))
  qed (use assms(3) in \<open>simp add: bridged_def\<close>)
  ultimately show ?thesis by (simp add: dll_append)
qed

lemma dll_append_tail:
  assumes "dll ns (-1) xs (-1)" "distinct xs" "x \<notin> set xs" "x < length ns'" "length ns' = length ns"
    and "nd_prev (ns' ! x) = final xs (-1)" "nd_next (ns' ! x) = -1"
    and "\<forall>k \<in> set xs. nd_next (ns' ! k) = (if k = last xs then int x else nd_next (ns ! k)) \<and> nd_prev (ns' ! k) = nd_prev (ns ! k)"
  shows "dll ns' (-1) (xs @ [x]) (-1)"
  using dll_change_end [OF assms(1,2,5,8)] assms by (simp add: dll_append)

end
