(* ===== verification/LadderInv.thy ===== *)
theory LadderInv
  imports LadderGrid LadderLinks
begin

section \<open>The representation invariant of the ladder\<close>

text \<open>
  \<open>rep c b q fl\<close> says that the arrays of the book \<open>b\<close>, built with configuration \<open>c\<close>, represent
  the queues \<open>q s l\<close> (node numbers per side and level) and the free list \<open>fl\<close>: every level's
  head, tail and links, the membership of every pool node, the identifier index, the occupancy
  bits and the two cursors agree. The lemmas below are the four structural changes the public
  members are made of: a change inside an order, a move to the tail of a level, taking a node
  down, and linking a new one.
\<close>

abbreviation ord :: "ladder_book \<Rightarrow> nat \<Rightarrow> resting_order" where
  "ord b n \<equiv> nd_order (lb_nodes b ! n)"

abbreviation nlen :: "ladder_book \<Rightarrow> nat" where
  "nlen b \<equiv> length (lb_nodes b)"

definition cap_of :: "ladder_config \<Rightarrow> nat" where
  "cap_of c = idxCapFrom (lc_maxOrders c * 2 + 1) 0"

definition cfg_ok :: "ladder_config \<Rightarrow> ladder_book \<Rightarrow> bool" where
  "cfg_ok c b \<longleftrightarrow> lb_base b = lc_basePriceRaw c \<and> lb_tick b = lc_tickRaw c \<and> lb_numLevels b = lc_numLevels c
     \<and> nlen b = lc_maxOrders c \<and> (\<forall>s. length (levels_of b s) = lc_numLevels c)
     \<and> (\<forall>s. length (bitsRef b s) = wordsFor (lc_numLevels c)) \<and> lb_idxCap b = cap_of c
     \<and> 0 < lc_tickRaw c \<and> 0 < lc_numLevels c"

definition links_ok :: "nat \<Rightarrow> ladder_book \<Rightarrow> (side \<Rightarrow> nat \<Rightarrow> nat list) \<Rightarrow> bool" where
  "links_ok n b q \<longleftrightarrow> (\<forall>s. \<forall>l < n. lv_head (levels_of b s ! l) = first (q s l) (-1)
     \<and> lv_tail (levels_of b s ! l) = final (q s l) (-1) \<and> dll (lb_nodes b) (-1) (q s l) (-1) \<and> distinct (q s l))"

definition pool_ok :: "nat \<Rightarrow> ladder_book \<Rightarrow> (side \<Rightarrow> nat \<Rightarrow> nat list) \<Rightarrow> nat list \<Rightarrow> bool" where
  "pool_ok n b q fl \<longleftrightarrow> (\<forall>s l k. k \<in> set (q s l) \<longleftrightarrow> k < nlen b \<and> nd_level (lb_nodes b ! k) = int l \<and> nd_side (lb_nodes b ! k) = s)
     \<and> flist (lb_nodes b) (lb_freeHead b) fl \<and> distinct fl
     \<and> (\<forall>k. k \<in> set fl \<longleftrightarrow> k < nlen b \<and> nd_level (lb_nodes b ! k) = -1)
     \<and> (\<forall>k < nlen b. -1 \<le> nd_level (lb_nodes b ! k) \<and> nd_level (lb_nodes b ! k) < int n)"

definition live :: "ladder_book \<Rightarrow> nat set" where
  "live b = {k. k < nlen b \<and> nd_level (lb_nodes b ! k) \<noteq> -1}"

definition ids_ok :: "ladder_config \<Rightarrow> ladder_book \<Rightarrow> bool" where
  "ids_ok c b \<longleftrightarrow> table_ok (cap_of c) (lb_idx b)
     \<and> (\<forall>i m. table_holds (lb_idx b) i m \<longleftrightarrow> (\<exists>k \<in> live b. m = int k \<and> ro_id (ord b k) = i))
     \<and> lb_count b = int (card (live b)) \<and> card (occ_set (lb_idx b)) = card (live b)"

definition bits_ok :: "nat \<Rightarrow> ladder_book \<Rightarrow> (side \<Rightarrow> nat \<Rightarrow> nat list) \<Rightarrow> bool" where
  "bits_ok n b q \<longleftrightarrow> (\<forall>s. \<forall>l < n. bit_at (bitsRef b s) l \<longleftrightarrow> q s l \<noteq> [])
     \<and> is_highest (\<lambda>l. l < n \<and> q BUY l \<noteq> []) (best_level_of b BUY)
     \<and> is_lowest (\<lambda>l. l < n \<and> q SELL l \<noteq> []) (best_level_of b SELL)"

definition orders_ok :: "ladder_config \<Rightarrow> ladder_book \<Rightarrow> bool" where
  "orders_ok c b \<longleftrightarrow> (\<forall>k \<in> live b. ro_side (ord b k) = nd_side (lb_nodes b ! k)
     \<and> ro_price (ord b k) = level_price (lc_basePriceRaw c) (lc_tickRaw c) (nat (nd_level (lb_nodes b ! k))))"

definition rep :: "ladder_config \<Rightarrow> ladder_book \<Rightarrow> (side \<Rightarrow> nat \<Rightarrow> nat list) \<Rightarrow> nat list \<Rightarrow> bool" where
  "rep c b q fl \<longleftrightarrow> cfg_ok c b \<and> links_ok (lc_numLevels c) b q \<and> pool_ok (lc_numLevels c) b q fl
     \<and> ids_ok c b \<and> bits_ok (lc_numLevels c) b q \<and> orders_ok c b"

subsection \<open>Reading updated books\<close>

lemma set_level_sel [simp]:
  "lb_base (set_level s l f b) = lb_base b" "lb_tick (set_level s l f b) = lb_tick b"
  "lb_numLevels (set_level s l f b) = lb_numLevels b" "lb_nodes (set_level s l f b) = lb_nodes b"
  "lb_idx (set_level s l f b) = lb_idx b" "lb_idxCap (set_level s l f b) = lb_idxCap b"
  "lb_freeHead (set_level s l f b) = lb_freeHead b" "lb_count (set_level s l f b) = lb_count b"
  "bitsRef (set_level s l f b) s' = bitsRef b s'" "best_level_of (set_level s l f b) s' = best_level_of b s'"
  "levels_of (set_level s l f b) s' = (if s' = s then (levels_of b s)[nat l := f (levelRef b s l)] else levels_of b s')"
  by (cases s; cases s'; simp add: set_level_def Let_def bitsRef_def best_level_of_def levels_of_def)+

lemma set_node_sel [simp]:
  "lb_base (set_node n g b) = lb_base b" "lb_tick (set_node n g b) = lb_tick b"
  "lb_numLevels (set_node n g b) = lb_numLevels b" "lb_nodes (set_node n g b) = (lb_nodes b)[nat n := g (lb_nodes b ! nat n)]"
  "lb_idx (set_node n g b) = lb_idx b" "lb_idxCap (set_node n g b) = lb_idxCap b"
  "lb_freeHead (set_node n g b) = lb_freeHead b" "lb_count (set_node n g b) = lb_count b"
  "bitsRef (set_node n g b) s' = bitsRef b s'" "best_level_of (set_node n g b) s' = best_level_of b s'"
  "levels_of (set_node n g b) s' = levels_of b s'" "levelRef (set_node n g b) s' l = levelRef b s' l"
  by (simp_all add: set_node_def node_at_def bitsRef_def best_level_of_def levels_of_def levelRef_def split: side.splits)

lemma set_bits_sel [simp]:
  "lb_base (set_bits s v b) = lb_base b" "lb_tick (set_bits s v b) = lb_tick b"
  "lb_numLevels (set_bits s v b) = lb_numLevels b" "lb_nodes (set_bits s v b) = lb_nodes b"
  "lb_idx (set_bits s v b) = lb_idx b" "lb_idxCap (set_bits s v b) = lb_idxCap b"
  "lb_freeHead (set_bits s v b) = lb_freeHead b" "lb_count (set_bits s v b) = lb_count b"
  "bitsRef (set_bits s v b) s' = (if s' = s then v else bitsRef b s')"
  "best_level_of (set_bits s v b) s' = best_level_of b s'"
  "levels_of (set_bits s v b) s' = levels_of b s'" "levelRef (set_bits s v b) s' l = levelRef b s' l"
  by (cases s; cases s'; simp add: set_bits_def bitsRef_def best_level_of_def levels_of_def levelRef_def)+

lemma onLevelOccupied_sel [simp]:
  "lb_base (onLevelOccupied s l b) = lb_base b" "lb_tick (onLevelOccupied s l b) = lb_tick b"
  "lb_numLevels (onLevelOccupied s l b) = lb_numLevels b" "lb_nodes (onLevelOccupied s l b) = lb_nodes b"
  "lb_idx (onLevelOccupied s l b) = lb_idx b" "lb_idxCap (onLevelOccupied s l b) = lb_idxCap b"
  "lb_freeHead (onLevelOccupied s l b) = lb_freeHead b" "lb_count (onLevelOccupied s l b) = lb_count b"
  "bitsRef (onLevelOccupied s l b) s' = bitsRef b s'"
  "levels_of (onLevelOccupied s l b) s' = levels_of b s'" "levelRef (onLevelOccupied s l b) s' l' = levelRef b s' l'"
  by (cases s; cases s'; simp add: onLevelOccupied_def bitsRef_def levels_of_def levelRef_def)+

lemma onLevelEmptied_sel [simp]:
  "lb_base (onLevelEmptied s l b) = lb_base b" "lb_tick (onLevelEmptied s l b) = lb_tick b"
  "lb_numLevels (onLevelEmptied s l b) = lb_numLevels b" "lb_nodes (onLevelEmptied s l b) = lb_nodes b"
  "lb_idx (onLevelEmptied s l b) = lb_idx b" "lb_idxCap (onLevelEmptied s l b) = lb_idxCap b"
  "lb_freeHead (onLevelEmptied s l b) = lb_freeHead b" "lb_count (onLevelEmptied s l b) = lb_count b"
  "bitsRef (onLevelEmptied s l b) s' = (if s' = s then clearBit (bitsRef b s) (nat l) else bitsRef b s')"
  "levels_of (onLevelEmptied s l b) s' = levels_of b s'" "levelRef (onLevelEmptied s l b) s' l' = levelRef b s' l'"
  by (cases s; cases s'; simp add: onLevelEmptied_def Let_def bitsRef_def levels_of_def levelRef_def set_bits_def)+

lemma nth_nodes: "i < length ns \<Longrightarrow> ns[k := v] ! i = (if i = k then v else ns ! i)"
  by (auto simp: nth_list_update)

subsection \<open>Changes that keep the shape\<close>

definition same_shape :: "ladder_book \<Rightarrow> ladder_book \<Rightarrow> bool" where
  "same_shape b b' \<longleftrightarrow> lb_base b' = lb_base b \<and> lb_tick b' = lb_tick b \<and> lb_numLevels b' = lb_numLevels b
     \<and> lb_idx b' = lb_idx b \<and> lb_idxCap b' = lb_idxCap b \<and> lb_freeHead b' = lb_freeHead b \<and> lb_count b' = lb_count b
     \<and> bitsRef b' = bitsRef b \<and> best_level_of b' = best_level_of b \<and> nlen b' = nlen b
     \<and> (\<forall>s. length (levels_of b' s) = length (levels_of b s))
     \<and> (\<forall>s. \<forall>l < length (levels_of b s). lv_head (levels_of b' s ! l) = lv_head (levels_of b s ! l)
          \<and> lv_tail (levels_of b' s ! l) = lv_tail (levels_of b s ! l))
     \<and> (\<forall>k < nlen b. nd_prev (lb_nodes b' ! k) = nd_prev (lb_nodes b ! k) \<and> nd_next (lb_nodes b' ! k) = nd_next (lb_nodes b ! k)
          \<and> nd_level (lb_nodes b' ! k) = nd_level (lb_nodes b ! k) \<and> nd_side (lb_nodes b' ! k) = nd_side (lb_nodes b ! k)
          \<and> nd_nextFree (lb_nodes b' ! k) = nd_nextFree (lb_nodes b ! k)
          \<and> ro_id (ord b' k) = ro_id (ord b k) \<and> ro_price (ord b' k) = ro_price (ord b k) \<and> ro_side (ord b' k) = ro_side (ord b k))"

lemma rep_same_shape:
  assumes r: "rep c b q fl" and s: "same_shape b b'"
  shows "rep c b' q fl"
proof -
  have cf: "cfg_ok c b" using r by (simp add: rep_def)
  have li: "live b' = live b" using s by (auto simp: live_def same_shape_def)
  have "cfg_ok c b'" using cf s by (auto simp: cfg_ok_def same_shape_def)
  moreover have "links_ok (lc_numLevels c) b' q" unfolding links_ok_def
  proof (intro allI impI)
    fix sd l assume l: "l < lc_numLevels c"
    have old: "lv_head (levels_of b sd ! l) = first (q sd l) (-1)" "lv_tail (levels_of b sd ! l) = final (q sd l) (-1)"
      "dll (lb_nodes b) (-1) (q sd l) (-1)" "distinct (q sd l)" using r l by (auto simp: rep_def links_ok_def)
    have "dll (lb_nodes b') (-1) (q sd l) (-1) = dll (lb_nodes b) (-1) (q sd l) (-1)"
      using s dll_nodes [OF old(3)] by (intro dll_frame) (auto simp: same_shape_def)
    then show "lv_head (levels_of b' sd ! l) = first (q sd l) (-1) \<and> lv_tail (levels_of b' sd ! l) = final (q sd l) (-1)
        \<and> dll (lb_nodes b') (-1) (q sd l) (-1) \<and> distinct (q sd l)"
      using old s l cf by (auto simp: same_shape_def cfg_ok_def)
  qed
  moreover have "pool_ok (lc_numLevels c) b' q fl"
  proof -
    have p: "pool_ok (lc_numLevels c) b q fl" using r by (simp add: rep_def)
    have "flist (lb_nodes b') (lb_freeHead b') fl = flist (lb_nodes b) (lb_freeHead b) fl"
      using s p by (subst flist_frame [of fl "lb_nodes b'" "lb_nodes b"]) (auto simp: same_shape_def pool_ok_def)
    moreover have n: "nlen b' = nlen b" "\<And>k. k < nlen b \<Longrightarrow> nd_level (lb_nodes b' ! k) = nd_level (lb_nodes b ! k)"
      "\<And>k. k < nlen b \<Longrightarrow> nd_side (lb_nodes b' ! k) = nd_side (lb_nodes b ! k)" using s by (auto simp: same_shape_def)
    moreover have "k < nlen b \<and> nd_level (lb_nodes b' ! k) = i \<and> nd_side (lb_nodes b' ! k) = sd
        \<longleftrightarrow> k < nlen b \<and> nd_level (lb_nodes b ! k) = i \<and> nd_side (lb_nodes b ! k) = sd"
      "k < nlen b \<and> nd_level (lb_nodes b' ! k) = i \<longleftrightarrow> k < nlen b \<and> nd_level (lb_nodes b ! k) = i" for k i sd
      using n by auto
    ultimately show ?thesis using p by (simp add: pool_ok_def)
  qed
  moreover have "ids_ok c b'"
  proof -
    have i: "ids_ok c b" using r by (simp add: rep_def)
    have "ro_id (ord b' k) = ro_id (ord b k)" if "k \<in> live b" for k using s that by (auto simp: live_def same_shape_def)
    then have "(\<exists>k \<in> live b. m = int k \<and> ro_id (ord b' k) = j) \<longleftrightarrow> (\<exists>k \<in> live b. m = int k \<and> ro_id (ord b k) = j)" for m j
      by auto
    moreover have "lb_idx b' = lb_idx b" "lb_count b' = lb_count b" using s by (auto simp: same_shape_def)
    ultimately show ?thesis using i by (simp add: ids_ok_def li)
  qed
  moreover have "bits_ok (lc_numLevels c) b' q" using r s by (simp add: rep_def bits_ok_def same_shape_def)
  moreover have "orders_ok c b'" using r s li unfolding rep_def orders_ok_def same_shape_def live_def by auto
  ultimately show ?thesis by (simp add: rep_def)
qed

lemma same_shape_refl [simp]: "same_shape b b"
  by (simp add: same_shape_def)

lemma same_shape_trans: "same_shape a b \<Longrightarrow> same_shape b d \<Longrightarrow> same_shape a d"
  unfolding same_shape_def by auto

lemma set_order_shape:
  assumes "\<And>r. ro_id (f r) = ro_id r" "\<And>r. ro_price (f r) = ro_price r" "\<And>r. ro_side (f r) = ro_side r"
  shows "same_shape b (set_order (int n) f b)"
  using assms by (auto simp: same_shape_def set_order_def nth_nodes fun_eq_iff)

lemma set_level_shape:
  assumes "\<And>v. lv_head (f v) = lv_head v" "\<And>v. lv_tail (f v) = lv_tail v"
  shows "same_shape b (set_level s l f b)"
  using assms by (auto simp: same_shape_def nth_nodes levelRef_def fun_eq_iff)

lemma ord_set_order: "n < nlen b \<Longrightarrow> ord (set_order (int n) f b) k = (if k = n then f (ord b n) else ord b k)"
  by (auto simp: set_order_def nth_list_update)

lemma ord_set_level [simp]: "ord (set_level s l f b) = ord b"
  by simp

subsection \<open>Enumerating a side\<close>

lemma highest_eqI: "is_highest P r \<Longrightarrow> (\<And>k. P k \<longleftrightarrow> P' k) \<Longrightarrow> is_highest P' r"
  by (simp add: is_highest_def)

lemma lowest_eqI: "is_lowest P r \<Longrightarrow> (\<And>k. P k \<longleftrightarrow> P' k) \<Longrightarrow> is_lowest P' r"
  by (simp add: is_lowest_def)

lemma bid_scan_eq: "bid_scan v (highestSetAtOrBelow v (int n - 1)) = map int (filter (bit_at v) (rev [0..<n]))"
proof (induction n)
  case 0
  then show ?case by (simp add: highestSetAtOrBelow_def bid_scan.simps)
next
  case (Suc n)
  show ?case
  proof (cases "bit_at v n")
    case True
    have "is_highest (\<lambda>k. int k \<le> int n \<and> bit_at v k) (int n)" using True by (auto simp: is_highest_def)
    from is_highest_unique [OF highest_at_or_below this] have "highestSetAtOrBelow v (int n) = int n" .
    then show ?thesis using Suc True by (simp add: bid_scan.simps [of v "int n"])
  next
    case False
    have "is_highest (\<lambda>k. int k \<le> int n \<and> bit_at v k) (highestSetAtOrBelow v (int n - 1))"
      using highest_at_or_below [of "int n - 1" v]
    proof (rule highest_eqI)
      fix k show "(int k \<le> int n - 1 \<and> bit_at v k) = (int k \<le> int n \<and> bit_at v k)"
        using False by (cases "k = n") auto
    qed
    from is_highest_unique [OF highest_at_or_below this]
    have "highestSetAtOrBelow v (int n) = highestSetAtOrBelow v (int n - 1)" .
    then show ?thesis using Suc False by simp
  qed
qed

lemma ask_scan_eq:
  assumes "levels \<le> 64 * length v" "0 < levels" "n \<le> levels"
  shows "ask_scan v levels (lowestSetAtOrAbove v levels (int n)) = map int (filter (bit_at v) [n..<levels])"
  using assms(3)
proof (induction "levels - n" arbitrary: n)
  case 0
  then show ?case by (simp add: lowestSetAtOrAbove_def ask_scan.simps)
next
  case (Suc m)
  then have n: "n < levels" "m = levels - Suc n" "Suc n \<le> levels" by auto
  have up: "[n..<levels] = n # [Suc n..<levels]" using n(1) by (simp add: upt_rec)
  show ?case
  proof (cases "bit_at v n")
    case True
    have "is_lowest (\<lambda>k. k < levels \<and> int n \<le> int k \<and> bit_at v k) (int n)"
      using True n(1) by (auto simp: is_lowest_def)
    then have e: "lowestSetAtOrAbove v levels (int n) = int n"
      using is_lowest_unique [OF lowest_at_or_above [OF assms(1,2)]] by blast
    show ?thesis unfolding e up using Suc.hyps(1) [OF n(2,3)] True
      by (subst ask_scan.simps) (simp add: add.commute)
  next
    case False
    have "is_lowest (\<lambda>k. k < levels \<and> int n \<le> int k \<and> bit_at v k) (lowestSetAtOrAbove v levels (int (Suc n)))"
      using lowest_at_or_above [OF assms(1,2), of "int (Suc n)"]
      by (rule lowest_eqI) (use False in \<open>auto simp: le_less\<close>)
    then have "lowestSetAtOrAbove v levels (int n) = lowestSetAtOrAbove v levels (int (Suc n))"
      using is_lowest_unique [OF lowest_at_or_above [OF assms(1,2)]] by blast
    then show ?thesis using Suc.hyps(1) [OF n(2,3)] False up by simp
  qed
qed

lemma words_cover: "levels \<le> 64 * wordsFor levels"
  by (simp add: wordsFor_def)

lemma rep_scan:
  assumes "rep c b q fl"
  shows "scan b s = map int (filter (\<lambda>l. q s l \<noteq> []) (side_levels s (lc_numLevels c)))"
proof -
  let ?n = "lc_numLevels c"
  have bits: "\<And>s l. l < ?n \<Longrightarrow> bit_at (bitsRef b s) l \<longleftrightarrow> q s l \<noteq> []"
    and hi: "is_highest (\<lambda>l. l < ?n \<and> q BUY l \<noteq> []) (best_level_of b BUY)"
    and lo: "is_lowest (\<lambda>l. l < ?n \<and> q SELL l \<noteq> []) (best_level_of b SELL)"
    using assms by (auto simp: rep_def bits_ok_def)
  have w: "?n \<le> 64 * length (bitsRef b s)" "0 < ?n" "lb_numLevels b = ?n"
    using assms words_cover [of ?n] by (auto simp: rep_def cfg_ok_def)
  have f: "filter (bit_at (bitsRef b s)) (side_levels s ?n) = filter (\<lambda>l. q s l \<noteq> []) (side_levels s ?n)"
    using bits by (intro filter_cong) auto
  show ?thesis
  proof (cases s)
    case BUY
    have "is_highest (\<lambda>k. int k \<le> int ?n - 1 \<and> bit_at (bitsRef b BUY) k) (best_level_of b BUY)"
      using hi by (rule highest_eqI) (use bits in auto)
    from is_highest_unique [OF this highest_at_or_below]
    have "best_level_of b BUY = highestSetAtOrBelow (bitsRef b BUY) (int ?n - 1)" .
    then show ?thesis using f BUY bid_scan_eq [of "bitsRef b BUY" ?n]
      by (simp add: scan_def best_level_of_def bitsRef_def side_levels_def)
  next
    case SELL
    have "is_lowest (\<lambda>k. k < ?n \<and> int 0 \<le> int k \<and> bit_at (bitsRef b SELL) k) (best_level_of b SELL)"
      using lo by (rule lowest_eqI) (use bits in auto)
    moreover have w': "?n \<le> 64 * length (bitsRef b SELL)" using w(1) SELL by simp
    ultimately have "best_level_of b SELL = lowestSetAtOrAbove (bitsRef b SELL) ?n (int 0)"
      using is_lowest_unique [OF _ lowest_at_or_above [OF w' w(2)]] by blast
    then show ?thesis using f SELL ask_scan_eq [OF w' w(2), of 0] w(3)
      by (simp add: scan_def best_level_of_def bitsRef_def side_levels_def)
  qed
qed

lemma queue_length:
  assumes "rep c b q fl" "l < lc_numLevels c"
  shows "length (q s l) \<le> nlen b"
proof -
  have d: "distinct (q s l)" "dll (lb_nodes b) (-1) (q s l) (-1)" using assms by (auto simp: rep_def links_ok_def)
  have "set (q s l) \<subseteq> {..<nlen b}" using dll_nodes [OF d(2)] by auto
  then have "card (set (q s l)) \<le> nlen b" using card_mono [of "{..<nlen b}"] by fastforce
  then show ?thesis using distinct_card [OF d(1)] by simp
qed

lemma rep_level_orders:
  assumes "rep c b q fl" "l < lc_numLevels c"
  shows "level_orders b s (int l) = map (ord b) (q s l)"
proof -
  have d: "dll (lb_nodes b) (-1) (q s l) (-1)" "lv_head (levels_of b s ! l) = first (q s l) (-1)"
    using assms by (auto simp: rep_def links_ok_def)
  show ?thesis using walk_dll [OF d(1) queue_length [OF assms]] d(2)
    by (simp add: level_orders_def levelRef_def)
qed

definition lad_orders :: "ladder_book \<Rightarrow> side \<Rightarrow> resting_order list" where
  "lad_orders b s = concat (map (level_orders b s) (scan b s))"

lemma rep_orders:
  assumes "rep c b q fl"
  shows "lad_orders b s = grid_orders s (lc_numLevels c) (\<lambda>l. map (ord b) (q s l))"
proof -
  let ?ls = "filter (\<lambda>l. q s l \<noteq> []) (side_levels s (lc_numLevels c))"
  have "map (level_orders b s) (scan b s) = map (\<lambda>l. map (ord b) (q s l)) ?ls"
    unfolding rep_scan [OF assms] map_map comp_def by (intro map_cong) (auto simp: rep_level_orders [OF assms])
  then show ?thesis by (simp add: lad_orders_def grid_occupied [of _ _ "\<lambda>l. map (ord b) (q s l)"])
qed

lemma rep_priced:
  assumes "rep c b q fl"
  shows "priced (lc_basePriceRaw c) (lc_tickRaw c) (\<lambda>l. map (ord b) (q s l))"
  unfolding priced_def
proof (intro allI ballI)
  fix l r assume "r \<in> set (map (ord b) (q s l))"
  then obtain k where k: "r = ord b k" "k \<in> set (q s l)" by auto
  have "k < nlen b" "nd_level (lb_nodes b ! k) = int l" using assms k(2) by (auto simp: rep_def pool_ok_def)
  then show "ro_price r = level_price (lc_basePriceRaw c) (lc_tickRaw c) l"
    using assms k(1) by (auto simp: rep_def orders_ok_def live_def)
qed

lemma rep_ids_inj:
  assumes "rep c b q fl" "k \<in> live b" "m \<in> live b" "ro_id (ord b k) = ro_id (ord b m)"
  shows "k = m"
proof -
  have "table_ok (cap_of c) (lb_idx b)" and h: "\<And>i m. table_holds (lb_idx b) i m \<longleftrightarrow> (\<exists>k \<in> live b. m = int k \<and> ro_id (ord b k) = i)"
    using assms(1) by (auto simp: rep_def ids_ok_def)
  then show ?thesis using oat.single [of "cap_of c" "lb_idx b" "ro_id (ord b k)" "int k" "int m"] assms by auto
qed

lemma rep_find:
  assumes "rep c b q fl"
  shows "k \<in> live b \<Longrightarrow> find_node b (ro_id (ord b k)) = int k"
    "\<forall>k \<in> live b. ro_id (ord b k) \<noteq> i \<Longrightarrow> find_node b i = -1"
proof -
  have t: "table_ok (cap_of c) (lb_idx b)" "lb_idxCap b = cap_of c"
    and h: "\<And>i m. table_holds (lb_idx b) i m \<longleftrightarrow> (\<exists>k \<in> live b. m = int k \<and> ro_id (ord b k) = i)"
    using assms by (auto simp: rep_def ids_ok_def cfg_ok_def)
  show "k \<in> live b \<Longrightarrow> find_node b (ro_id (ord b k)) = int k"
    using oat.find_held [OF t(1), of "ro_id (ord b k)" "int k"] h t(2) by (auto simp: find_node_def)
  show "\<forall>k \<in> live b. ro_id (ord b k) \<noteq> i \<Longrightarrow> find_node b i = -1"
    using oat.find_free [OF t(1), of i] h t(2) by (auto simp: find_node_def)
qed

lemma rep_live_queue:
  assumes "rep c b q fl" "k \<in> live b"
  shows "k \<in> set (q (nd_side (lb_nodes b ! k)) (nat (nd_level (lb_nodes b ! k))))"
    "nat (nd_level (lb_nodes b ! k)) < lc_numLevels c" "0 \<le> nd_level (lb_nodes b ! k)"
proof -
  have p: "pool_ok (lc_numLevels c) b q fl" and k: "k < nlen b" "nd_level (lb_nodes b ! k) \<noteq> -1"
    using assms by (auto simp: rep_def live_def)
  then have "-1 \<le> nd_level (lb_nodes b ! k)" "nd_level (lb_nodes b ! k) < int (lc_numLevels c)"
    by (auto simp: pool_ok_def)
  then show "0 \<le> nd_level (lb_nodes b ! k)" "nat (nd_level (lb_nodes b ! k)) < lc_numLevels c" using k(2) by auto
  then show "k \<in> set (q (nd_side (lb_nodes b ! k)) (nat (nd_level (lb_nodes b ! k))))"
    using p k(1) by (auto simp: pool_ok_def)
qed

lemma rep_queue_live:
  assumes "rep c b q fl" "k \<in> set (q s l)"
  shows "k \<in> live b" "nd_side (lb_nodes b ! k) = s" "nd_level (lb_nodes b ! k) = int l" "l < lc_numLevels c" "k < nlen b"
proof -
  have "k < nlen b \<and> nd_level (lb_nodes b ! k) = int l \<and> nd_side (lb_nodes b ! k) = s"
    and "\<forall>k < nlen b. -1 \<le> nd_level (lb_nodes b ! k) \<and> nd_level (lb_nodes b ! k) < int (lc_numLevels c)"
    using assms by (auto simp: rep_def pool_ok_def)
  then show "k \<in> live b" "nd_side (lb_nodes b ! k) = s" "nd_level (lb_nodes b ! k) = int l" "l < lc_numLevels c" "k < nlen b"
    by (auto simp: live_def)
qed

end
