(* ===== verification/LadderOps.thy ===== *)
theory LadderOps
  imports LadderInv
begin

section \<open>Structural changes of the ladder\<close>

text \<open>
  Moving a node to the tail of its level, taking a node down (unlink, erase the identifier,
  return the node to the pool) and linking a fresh node keep the representation; each lemma
  says which queue changes.
\<close>

abbreviation set_queue :: "(side \<Rightarrow> nat \<Rightarrow> nat list) \<Rightarrow> side \<Rightarrow> nat \<Rightarrow> nat list \<Rightarrow> side \<Rightarrow> nat \<Rightarrow> nat list" where
  "set_queue q s l xs \<equiv> q(s := (q s)(l := xs))"

subsection \<open>Relinking one level\<close>

definition relinked :: "ladder_book \<Rightarrow> ladder_book \<Rightarrow> side \<Rightarrow> nat \<Rightarrow> nat list \<Rightarrow> bool" where
  "relinked b b' s l xs \<longleftrightarrow> lb_base b' = lb_base b \<and> lb_tick b' = lb_tick b \<and> lb_numLevels b' = lb_numLevels b
     \<and> lb_idx b' = lb_idx b \<and> lb_idxCap b' = lb_idxCap b \<and> lb_freeHead b' = lb_freeHead b \<and> lb_count b' = lb_count b
     \<and> bitsRef b' = bitsRef b \<and> best_level_of b' = best_level_of b \<and> nlen b' = nlen b
     \<and> (\<forall>sd. length (levels_of b' sd) = length (levels_of b sd))
     \<and> (\<forall>sd m. (sd, m) \<noteq> (s, l) \<longrightarrow> levels_of b' sd ! m = levels_of b sd ! m)
     \<and> lv_head (levels_of b' s ! l) = first xs (-1) \<and> lv_tail (levels_of b' s ! l) = final xs (-1)
     \<and> dll (lb_nodes b') (-1) xs (-1)
     \<and> (\<forall>k < nlen b. nd_level (lb_nodes b' ! k) = nd_level (lb_nodes b ! k) \<and> nd_side (lb_nodes b' ! k) = nd_side (lb_nodes b ! k)
          \<and> nd_nextFree (lb_nodes b' ! k) = nd_nextFree (lb_nodes b ! k) \<and> ord b' k = ord b k)
     \<and> (\<forall>k < nlen b. k \<notin> set xs \<longrightarrow> nd_prev (lb_nodes b' ! k) = nd_prev (lb_nodes b ! k) \<and> nd_next (lb_nodes b' ! k) = nd_next (lb_nodes b ! k))"

lemma queues_disjoint:
  assumes "rep c b q fl" "(s, l) \<noteq> (s', l')"
  shows "set (q s l) \<inter> set (q s' l') = {}"
proof (rule equals0I)
  fix k assume "k \<in> set (q s l) \<inter> set (q s' l')"
  then have "nd_side (lb_nodes b ! k) = s" "nd_side (lb_nodes b ! k) = s'" "nd_level (lb_nodes b ! k) = int l"
    "nd_level (lb_nodes b ! k) = int l'"
    using rep_queue_live(2,3) [OF assms(1), of k s l] rep_queue_live(2,3) [OF assms(1), of k s' l'] by simp_all
  then show False using assms(2) by auto
qed

lemma rep_relinked:
  assumes r: "rep c b q fl" and l: "l < lc_numLevels c" and x: "distinct xs" "set xs = set (q s l)"
    and k: "relinked b b' s l xs"
  shows "rep c b' (set_queue q s l xs) fl"
proof -
  let ?n = "lc_numLevels c" and ?q = "set_queue q s l xs"
  have cf: "cfg_ok c b" using r by (simp add: rep_def)
  have nodes: "nlen b' = nlen b" "\<And>k. k < nlen b \<Longrightarrow> nd_level (lb_nodes b' ! k) = nd_level (lb_nodes b ! k)"
    "\<And>k. k < nlen b \<Longrightarrow> nd_side (lb_nodes b' ! k) = nd_side (lb_nodes b ! k)"
    "\<And>k. k < nlen b \<Longrightarrow> nd_nextFree (lb_nodes b' ! k) = nd_nextFree (lb_nodes b ! k)"
    "\<And>k. k < nlen b \<Longrightarrow> ord b' k = ord b k" using k by (auto simp: relinked_def)
  have li: "live b' = live b" using nodes by (auto simp: live_def)
  have sets: "set (?q sd m) = set (q sd m)" for sd m using x(2) by auto
  have emp: "?q sd m \<noteq> [] \<longleftrightarrow> q sd m \<noteq> []" for sd m using sets by (metis set_empty)
  have "cfg_ok c b'" using cf k by (auto simp: cfg_ok_def relinked_def)
  moreover have "links_ok ?n b' ?q" unfolding links_ok_def
  proof (intro allI impI)
    fix sd m assume m: "m < ?n"
    show "lv_head (levels_of b' sd ! m) = first (?q sd m) (-1) \<and> lv_tail (levels_of b' sd ! m) = final (?q sd m) (-1)
        \<and> dll (lb_nodes b') (-1) (?q sd m) (-1) \<and> distinct (?q sd m)"
    proof (cases "(sd, m) = (s, l)")
      case True
      then show ?thesis using k x(1) by (auto simp: relinked_def)
    next
      case False
      then have q: "?q sd m = q sd m" by auto
      have old: "lv_head (levels_of b sd ! m) = first (q sd m) (-1)" "lv_tail (levels_of b sd ! m) = final (q sd m) (-1)"
        "dll (lb_nodes b) (-1) (q sd m) (-1)" "distinct (q sd m)" using r m by (auto simp: rep_def links_ok_def)
      have "set (q sd m) \<inter> set xs = {}" using queues_disjoint [OF r False] x(2) by simp
      then have "x < nlen b \<and> x \<notin> set xs" if "x \<in> set (q sd m)" for x using that dll_nodes [OF old(3)] by blast
      then have "\<forall>x \<in> set (q sd m). nd_prev (lb_nodes b' ! x) = nd_prev (lb_nodes b ! x) \<and> nd_next (lb_nodes b' ! x) = nd_next (lb_nodes b ! x)"
        using k unfolding relinked_def by blast
      from dll_frame [OF this nodes(1)]
      have "dll (lb_nodes b') (-1) (q sd m) (-1) = dll (lb_nodes b) (-1) (q sd m) (-1)" .
      moreover have "levels_of b' sd ! m = levels_of b sd ! m" using k False by (auto simp: relinked_def)
      ultimately show ?thesis using old q by simp
    qed
  qed
  moreover have "pool_ok ?n b' ?q fl"
  proof -
    have p: "pool_ok ?n b q fl" using r by (simp add: rep_def)
    have "flist (lb_nodes b') (lb_freeHead b') fl = flist (lb_nodes b) (lb_freeHead b) fl"
      using k p nodes by (subst flist_frame [of fl "lb_nodes b'" "lb_nodes b"]) (auto simp: relinked_def pool_ok_def)
    moreover have "k < nlen b \<and> nd_level (lb_nodes b' ! k) = i \<and> nd_side (lb_nodes b' ! k) = sd
        \<longleftrightarrow> k < nlen b \<and> nd_level (lb_nodes b ! k) = i \<and> nd_side (lb_nodes b ! k) = sd"
      "k < nlen b \<and> nd_level (lb_nodes b' ! k) = i \<longleftrightarrow> k < nlen b \<and> nd_level (lb_nodes b ! k) = i" for k i sd
      using nodes by auto
    ultimately show ?thesis using p nodes unfolding pool_ok_def sets by simp
  qed
  moreover have "ids_ok c b'"
  proof -
    have "(\<exists>k \<in> live b. m = int k \<and> ro_id (ord b' k) = j) \<longleftrightarrow> (\<exists>k \<in> live b. m = int k \<and> ro_id (ord b k) = j)" for m j
      using nodes(5) by (auto simp: live_def)
    moreover have "lb_idx b' = lb_idx b" "lb_count b' = lb_count b" using k by (auto simp: relinked_def)
    ultimately show ?thesis using r by (simp add: rep_def ids_ok_def li)
  qed
  moreover have "bits_ok ?n b' ?q"
  proof -
    have "bitsRef b' = bitsRef b" "best_level_of b' = best_level_of b" using k by (auto simp: relinked_def)
    then show ?thesis using r unfolding rep_def bits_ok_def emp by simp
  qed
  moreover have "orders_ok c b'" using r nodes unfolding rep_def orders_ok_def li by (auto simp: live_def)
  ultimately show ?thesis by (simp add: rep_def)
qed

subsection \<open>Moving a node to the tail\<close>

lemma node_at_int [simp]: "node_at b (int n) = lb_nodes b ! n"
  by (simp add: node_at_def)

lemma levelRef_int [simp]: "levelRef b s (int l) = levels_of b s ! l"
  by (simp add: levelRef_def)

lemma dll_at:
  assumes "dll ns p (ys @ n # zs) e"
  shows "nd_prev (ns ! n) = final ys p" "nd_next (ns ! n) = first zs e" "n < length ns"
  using assms by (auto simp: dll_append)

lemma rep_split:
  assumes "rep c b q fl" "n \<in> set (q s l)"
  obtains ys zs where "q s l = ys @ n # zs" "n \<notin> set ys" "n \<notin> set zs" "filter (\<lambda>k. k \<noteq> n) (q s l) = ys @ zs"
    "distinct (ys @ n # zs)" "dll (lb_nodes b) (-1) (ys @ n # zs) (-1)" "l < lc_numLevels c" "l < length (levels_of b s)"
    "nd_prev (lb_nodes b ! n) = final ys (-1)" "nd_next (lb_nodes b ! n) = first zs (-1)" "n < nlen b"
    "\<And>k. k \<in> set ys \<union> set zs \<Longrightarrow> k < nlen b"
    "lv_head (levels_of b s ! l) = first (ys @ n # zs) (-1)" "lv_tail (levels_of b s ! l) = final (ys @ n # zs) (-1)"
proof -
  have l: "l < lc_numLevels c" using rep_queue_live [OF assms] by simp
  then have f: "dll (lb_nodes b) (-1) (q s l) (-1)" "distinct (q s l)"
    "lv_head (levels_of b s ! l) = first (q s l) (-1)" "lv_tail (levels_of b s ! l) = final (q s l) (-1)"
    using assms(1) by (auto simp: rep_def links_ok_def)
  have len: "l < length (levels_of b s)" using assms(1) l by (simp add: rep_def cfg_ok_def)
  obtain ys zs where s: "q s l = ys @ n # zs" "n \<notin> set ys" "n \<notin> set zs" "filter (\<lambda>k. k \<noteq> n) (q s l) = ys @ zs"
    using split_at_node [OF assms(2) f(2)] by blast
  have d: "dll (lb_nodes b) (-1) (ys @ n # zs) (-1)" using f(1) s(1) by simp
  then have "\<And>k. k \<in> set ys \<union> set zs \<Longrightarrow> k < nlen b" using dll_nodes [OF d] by auto
  then show ?thesis using that [OF s _ d l len dll_at [OF d]] f(2-4) s(1) by simp
qed

lemma last_first: "xs \<noteq> [] \<Longrightarrow> final xs p = int (last xs)" "xs \<noteq> [] \<Longrightarrow> first xs e = int (hd xs)"
  by (auto simp: final_def first_def split: list.splits)

lemma rep_moveToTail:
  assumes r: "rep c b q fl" and n: "n \<in> set (q s l)"
  shows "rep c (moveToTail s (int l) (int n) b) (set_queue q s l (filter (\<lambda>k. k \<noteq> n) (q s l) @ [n])) fl"
    "\<forall>k < nlen b. ord (moveToTail s (int l) (int n) b) k = ord b k"
proof -
  obtain ys zs where sp: "q s l = ys @ n # zs" "n \<notin> set ys" "n \<notin> set zs" "filter (\<lambda>k. k \<noteq> n) (q s l) = ys @ zs"
    "distinct (ys @ n # zs)" "dll (lb_nodes b) (-1) (ys @ n # zs) (-1)" "l < lc_numLevels c" "l < length (levels_of b s)"
    "nd_prev (lb_nodes b ! n) = final ys (-1)" "nd_next (lb_nodes b ! n) = first zs (-1)" "n < nlen b"
    "\<And>k. k \<in> set ys \<union> set zs \<Longrightarrow> k < nlen b"
    "lv_head (levels_of b s ! l) = first (ys @ n # zs) (-1)" "lv_tail (levels_of b s ! l) = final (ys @ n # zs) (-1)"
    using rep_split [OF assms] by metis
  let ?b = "moveToTail s (int l) (int n) b" and ?xs = "ys @ zs @ [n]"
  have "rep c ?b (set_queue q s l ?xs) fl \<and> (\<forall>k < nlen b. ord ?b k = ord b k)"
  proof (cases "zs = []")
    case True
    then have "lv_tail (levels_of b s ! l) = int n" using sp(14) by simp
    then have "?b = b" by (simp add: moveToTail_def)
    moreover have "set_queue q s l ?xs = q" using True sp(1) by (simp add: fun_upd_idem)
    ultimately show ?thesis using r by simp
  next
    case False
    let ?h = "hd zs" and ?t = "last zs"
    have ht: "?h \<in> set zs" "?t \<in> set zs" using False by auto
    have tl: "lv_tail (levels_of b s ! l) = int ?t" using sp(14) False by (simp add: final_append last_first)
    have nx: "nd_next (lb_nodes b ! n) = int ?h" using sp(10) False by (simp add: last_first)
    have tn: "?t \<noteq> n" using ht sp(3) by auto
    define b1 where "b1 = (if ys \<noteq> [] then set_next (int (last ys)) (int ?h) b
        else set_level s (int l) (\<lambda>v. v\<lparr>lv_head := int ?h\<rparr>) b)"
    define b2 where "b2 = set_prev (int ?h) (final ys (-1)) b1"
    define b5 where "b5 = set_next (int ?t) (int n) (set_next (int n) (-1) (set_prev (int n) (int ?t) b2))"
    have lv: "levels_of b2 s ! l = (if ys \<noteq> [] then levels_of b s ! l else (levels_of b s ! l)\<lparr>lv_head := int ?h\<rparr>)"
      using sp(8) by (simp add: b2_def b1_def set_prev_def set_next_def)
    have e: "?b = set_level s (int l) (\<lambda>v. v\<lparr>lv_tail := int n\<rparr>) b5"
    proof -
      have "lv_tail (levels_of b2 s ! l) = int ?t" using lv tl by simp
      moreover have "0 \<le> final ys (-1) \<longleftrightarrow> ys \<noteq> []" by (rule final_neg)
      moreover have "final ys (-1) = int (last ys)" if "ys \<noteq> []" using that by (rule last_first)
      ultimately show ?thesis using tl tn nx sp(9)
        using sp(8) by (simp add: moveToTail_def Let_def b5_def b2_def b1_def set_prev_def set_next_def)
    qed
    have n2: "nlen b2 = nlen b" by (simp add: b2_def b1_def set_prev_def set_next_def)
    have at2: "lb_nodes b2 ! k = (lb_nodes b ! k)\<lparr>
          nd_next := (if ys \<noteq> [] \<and> k = last ys then int ?h else nd_next (lb_nodes b ! k)),
          nd_prev := (if k = ?h then final ys (-1) else nd_prev (lb_nodes b ! k))\<rparr>" if "k < nlen b" for k
      using that by (simp add: b2_def b1_def set_prev_def set_next_def nth_nodes)
    have br: "bridged (lb_nodes b) (lb_nodes b2) ys zs"
      using n2 at2 sp(12) False by (auto simp: bridged_def last_first)
    have d2: "dll (lb_nodes b2) (-1) (ys @ zs) (-1)" using dll_bridged [OF sp(6,5) br] .
    have at5: "lb_nodes b5 ! k = (lb_nodes b2 ! k)\<lparr>
          nd_next := (if k = ?t then int n else if k = n then -1 else nd_next (lb_nodes b2 ! k)),
          nd_prev := (if k = n then int ?t else nd_prev (lb_nodes b2 ! k))\<rparr>" if "k < nlen b" for k
      using that tn n2 by (simp add: b5_def set_prev_def set_next_def nth_nodes)
    have n5: "nlen b5 = nlen b" using n2 by (simp add: b5_def set_prev_def set_next_def)
    have d5: "dll (lb_nodes b5) (-1) ((ys @ zs) @ [n]) (-1)"
      using d2
    proof (rule dll_append_tail)
      show "\<forall>k \<in> set (ys @ zs). nd_next (lb_nodes b5 ! k) = (if k = last (ys @ zs) then int n else nd_next (lb_nodes b2 ! k))
          \<and> nd_prev (lb_nodes b5 ! k) = nd_prev (lb_nodes b2 ! k)"
        using at5 sp(2,3,12) False by auto
    qed (use sp n5 n2 at5 tn False in \<open>auto simp: final_append last_first\<close>)
    have lev5: "levels_of b5 sd = levels_of b2 sd" for sd by (simp add: b5_def set_prev_def set_next_def)
    have lev2: "length (levels_of b2 sd) = length (levels_of b sd)" "(sd, m) \<noteq> (s, l) \<Longrightarrow> levels_of b2 sd ! m = levels_of b sd ! m" for sd m
      by (auto simp: b2_def b1_def set_prev_def set_next_def)
    have "relinked b ?b s l ?xs" unfolding relinked_def e
    proof (intro conjI allI impI)
      fix k assume k: "k < nlen b"
      show "nd_level (lb_nodes (set_level s (int l) (\<lambda>v. v\<lparr>lv_tail := int n\<rparr>) b5) ! k) = nd_level (lb_nodes b ! k)"
        "nd_side (lb_nodes (set_level s (int l) (\<lambda>v. v\<lparr>lv_tail := int n\<rparr>) b5) ! k) = nd_side (lb_nodes b ! k)"
        "nd_nextFree (lb_nodes (set_level s (int l) (\<lambda>v. v\<lparr>lv_tail := int n\<rparr>) b5) ! k) = nd_nextFree (lb_nodes b ! k)"
        "ord (set_level s (int l) (\<lambda>v. v\<lparr>lv_tail := int n\<rparr>) b5) k = ord b k"
        using at5 [OF k] at2 [OF k] by simp_all
      assume kx: "k \<notin> set ?xs"
      then have "k \<noteq> ?t" "k \<noteq> ?h" "k \<noteq> n" "ys \<noteq> [] \<Longrightarrow> k \<noteq> last ys" using ht by auto
      then show "nd_prev (lb_nodes (set_level s (int l) (\<lambda>v. v\<lparr>lv_tail := int n\<rparr>) b5) ! k) = nd_prev (lb_nodes b ! k)"
        "nd_next (lb_nodes (set_level s (int l) (\<lambda>v. v\<lparr>lv_tail := int n\<rparr>) b5) ! k) = nd_next (lb_nodes b ! k)"
        using at5 [OF k] at2 [OF k] by auto
    qed (use d5 n5 lev5 lev2 lv sp(8,13) False in
        \<open>auto simp: b5_def b2_def b1_def set_prev_def set_next_def fun_eq_iff first_append last_first final_append nth_list_update\<close>)
    then have "rep c ?b (set_queue q s l ?xs) fl"
      using rep_relinked [OF r sp(7), of ?xs s] sp(1,5) by auto
    moreover have "\<forall>k < nlen b. ord ?b k = ord b k" using at5 at2 by (simp add: e)
    ultimately show ?thesis by blast
  qed
  then show "rep c ?b (set_queue q s l (filter (\<lambda>k. k \<noteq> n) (q s l) @ [n])) fl" "\<forall>k < nlen b. ord ?b k = ord b k"
    using sp(4) by simp_all
qed

lemma requeue_is_move:
  assumes r: "rep c b q fl" and n: "q s l = n # xs"
  shows "requeueFrontToTail s (int l) (int n) b = moveToTail s (int l) (int n) b"
proof -
  have "n \<in> set (q s l)" using n by simp
  then have l: "l < lc_numLevels c" using rep_queue_live [OF r] by blast
  have h: "lv_head (levels_of b s ! l) = int n" using r n l by (simp add: rep_def links_ok_def)
  have "dll (lb_nodes b) (-1) (n # xs) (-1)" using r l n unfolding rep_def links_ok_def by metis
  then have "nd_prev (lb_nodes b ! n) = -1" by simp
  then show ?thesis using h by (auto simp: requeueFrontToTail_def moveToTail_def Let_def)
qed

subsection \<open>Occupancy bits and cursors\<close>

lemma bits_cong:
  assumes "bits_ok n b q" "\<And>s. bitsRef b' s = bitsRef b s" "\<And>s. best_level_of b' s = best_level_of b s"
    and "\<And>s l. q' s l = [] \<longleftrightarrow> q s l = []"
  shows "bits_ok n b' q'"
  using assms by (simp add: bits_ok_def)

lemma level_word: "l < n \<Longrightarrow> l div 64 < wordsFor n"
  using words_cover [of n] by (simp add: div_less_iff_less_mult)

lemma best_onLevelEmptied:
  "best_level_of (onLevelEmptied s (int l) b) sd =
     (if sd = s \<and> best_level_of b s = int l
      then (case s of BUY \<Rightarrow> highestSetAtOrBelow (clearBit (bitsRef b s) l) (int l - 1)
            | SELL \<Rightarrow> lowestSetAtOrAbove (clearBit (bitsRef b s) l) (lb_numLevels b) (int l + 1))
      else best_level_of b sd)"
  by (cases s; cases sd) (auto simp: onLevelEmptied_def Let_def set_bits_def bitsRef_def best_level_of_def)

lemma bits_emptied:
  assumes ok: "bits_ok n b q" and l: "l < n" and len: "\<And>s. length (bitsRef b s) = wordsFor n" and nl: "lb_numLevels b = n"
  shows "bits_ok n (onLevelEmptied s (int l) b) (set_queue q s l [])"
proof -
  let ?q = "set_queue q s l []" and ?v = "clearBit (bitsRef b s) l"
  have hi: "is_highest (\<lambda>l. l < n \<and> q BUY l \<noteq> []) (best_level_of b BUY)"
    and lo: "is_lowest (\<lambda>l. l < n \<and> q SELL l \<noteq> []) (best_level_of b SELL)"
    and old: "\<And>s l. l < n \<Longrightarrow> bit_at (bitsRef b s) l \<longleftrightarrow> q s l \<noteq> []" using ok by (auto simp: bits_ok_def)
  have bit: "bit_at ?v m \<longleftrightarrow> m \<noteq> l \<and> bit_at (bitsRef b s) m" for m
    using bit_at_clearBit [of l "bitsRef b s"] len level_word [OF l] by simp
  have "\<forall>sd. \<forall>m < n. bit_at (bitsRef (onLevelEmptied s (int l) b) sd) m \<longleftrightarrow> ?q sd m \<noteq> []"
    using old bit by auto
  moreover have "is_highest (\<lambda>m. m < n \<and> ?q BUY m \<noteq> []) (best_level_of (onLevelEmptied s (int l) b) BUY)"
  proof (cases "s = BUY \<and> best_level_of b BUY = int l")
    case True
    have le: "m \<le> l" if "m < n" "q BUY m \<noteq> []" for m using hi True that by (auto simp: is_highest_def)
    have "is_highest (\<lambda>m. m < n \<and> ?q BUY m \<noteq> []) (highestSetAtOrBelow ?v (int l - 1))"
      using highest_at_or_below [of "int l - 1" ?v]
    proof (rule highest_eqI)
      fix k show "(int k \<le> int l - 1 \<and> bit_at ?v k) = (k < n \<and> ?q BUY k \<noteq> [])"
        using True le [of k] old [of k BUY] bit [of k] l by (cases "k = l") auto
    qed
    then show ?thesis using True by (simp add: best_onLevelEmptied)
  next
    case False
    then have "is_highest (\<lambda>m. m < n \<and> ?q BUY m \<noteq> []) (best_level_of b BUY)"
      using hi by (auto simp: is_highest_def)
    moreover have "best_level_of (onLevelEmptied s (int l) b) BUY = best_level_of b BUY"
      using False by (auto simp: best_onLevelEmptied)
    ultimately show ?thesis by simp
  qed
  moreover have "is_lowest (\<lambda>m. m < n \<and> ?q SELL m \<noteq> []) (best_level_of (onLevelEmptied s (int l) b) SELL)"
  proof (cases "s = SELL \<and> best_level_of b SELL = int l")
    case True
    have ge: "l \<le> m" if "m < n" "q SELL m \<noteq> []" for m using lo True that by (auto simp: is_lowest_def)
    have "n \<le> 64 * length ?v" "0 < n" using len words_cover [of n] l by auto
    then have "is_lowest (\<lambda>k. k < n \<and> int l + 1 \<le> int k \<and> bit_at ?v k) (lowestSetAtOrAbove ?v n (int l + 1))"
      by (rule lowest_at_or_above)
    then have "is_lowest (\<lambda>m. m < n \<and> ?q SELL m \<noteq> []) (lowestSetAtOrAbove ?v n (int l + 1))"
    proof (rule lowest_eqI)
      fix k show "(k < n \<and> int l + 1 \<le> int k \<and> bit_at ?v k) = (k < n \<and> ?q SELL k \<noteq> [])"
        using True ge [of k] old [of k SELL] bit [of k] l by (cases "k = l") auto
    qed
    then show ?thesis using True by (simp add: best_onLevelEmptied nl)
  next
    case False
    then have "is_lowest (\<lambda>m. m < n \<and> ?q SELL m \<noteq> []) (best_level_of b SELL)"
      using lo by (auto simp: is_lowest_def)
    moreover have "best_level_of (onLevelEmptied s (int l) b) SELL = best_level_of b SELL"
      using False by (auto simp: best_onLevelEmptied)
    ultimately show ?thesis by simp
  qed
  ultimately show ?thesis by (simp add: bits_ok_def)
qed

lemma bits_occupied:
  assumes ok: "bits_ok n b q" and l: "l < n" and len: "\<And>s. length (bitsRef b s) = wordsFor n" and x: "xs \<noteq> []"
  shows "bits_ok n (onLevelOccupied s (int l) (set_bits s (setBit (bitsRef b s) l) b)) (set_queue q s l xs)"
proof -
  let ?q = "set_queue q s l xs" and ?v = "setBit (bitsRef b s) l"
  let ?b = "onLevelOccupied s (int l) (set_bits s ?v b)"
  have hi: "is_highest (\<lambda>l. l < n \<and> q BUY l \<noteq> []) (best_level_of b BUY)"
    and lo: "is_lowest (\<lambda>l. l < n \<and> q SELL l \<noteq> []) (best_level_of b SELL)"
    and old: "\<And>s l. l < n \<Longrightarrow> bit_at (bitsRef b s) l \<longleftrightarrow> q s l \<noteq> []" using ok by (auto simp: bits_ok_def)
  have "bit_at ?v m \<longleftrightarrow> m = l \<or> bit_at (bitsRef b s) m" for m
    using bit_at_setBit [of l "bitsRef b s"] len level_word [OF l] by simp
  then have "\<forall>sd. \<forall>m < n. bit_at (bitsRef ?b sd) m \<longleftrightarrow> ?q sd m \<noteq> []" using old x by auto
  moreover have "best_level_of ?b BUY = (if s = BUY \<and> int l > best_level_of b BUY then int l else best_level_of b BUY)"
    "best_level_of ?b SELL = (if s = SELL \<and> (best_level_of b SELL < 0 \<or> int l < best_level_of b SELL) then int l else best_level_of b SELL)"
    by (cases s; simp add: onLevelOccupied_def set_bits_def best_level_of_def)+
  moreover have "is_highest (\<lambda>m. m < n \<and> ?q BUY m \<noteq> [])
      (if s = BUY \<and> int l > best_level_of b BUY then int l else best_level_of b BUY)"
    using hi l x by (cases s) (fastforce simp: is_highest_def)+
  moreover have "is_lowest (\<lambda>m. m < n \<and> ?q SELL m \<noteq> [])
      (if s = SELL \<and> (best_level_of b SELL < 0 \<or> int l < best_level_of b SELL) then int l else best_level_of b SELL)"
    using lo l x by (cases s) (fastforce simp: is_lowest_def)+
  ultimately show ?thesis by (simp add: bits_ok_def)
qed

end
