(* ===== verification/LadderPool.thy ===== *)
theory LadderPool
  imports LadderOps
begin

section \<open>Taking a node down and linking a new one\<close>

text \<open>
  The two changes that move a node between a level and the free list, with the identifier
  index: \<^verbatim>\<open>unlink; eraseSlot; freeNode\<close>, and \<^verbatim>\<open>allocNode; insertSlot\<close> followed by the linking at
  the tail in \<^verbatim>\<open>addResting\<close>.
\<close>

lemma live_finite [simp]: "finite (live b)"
  by (simp add: live_def)

definition detached :: "ladder_book \<Rightarrow> ladder_book \<Rightarrow> side \<Rightarrow> nat \<Rightarrow> nat list \<Rightarrow> nat list \<Rightarrow> bool" where
  "detached b b' s l ys zs \<longleftrightarrow> lb_base b' = lb_base b \<and> lb_tick b' = lb_tick b \<and> lb_numLevels b' = lb_numLevels b
     \<and> lb_idx b' = lb_idx b \<and> lb_idxCap b' = lb_idxCap b \<and> lb_freeHead b' = lb_freeHead b \<and> lb_count b' = lb_count b
     \<and> nlen b' = nlen b \<and> (\<forall>sd. length (levels_of b' sd) = length (levels_of b sd))
     \<and> (\<forall>sd. length (bitsRef b' sd) = length (bitsRef b sd))
     \<and> (\<forall>sd m. (sd, m) \<noteq> (s, l) \<longrightarrow> levels_of b' sd ! m = levels_of b sd ! m)
     \<and> lv_head (levels_of b' s ! l) = first (ys @ zs) (-1) \<and> lv_tail (levels_of b' s ! l) = final (ys @ zs) (-1)
     \<and> (\<forall>k < nlen b. lb_nodes b' ! k = (lb_nodes b ! k)\<lparr>
          nd_next := (if ys \<noteq> [] \<and> k = last ys then first zs (-1) else nd_next (lb_nodes b ! k)),
          nd_prev := (if zs \<noteq> [] \<and> k = hd zs then final ys (-1) else nd_prev (lb_nodes b ! k))\<rparr>)"

lemma unlink_detached:
  assumes r: "rep c b q fl" and n: "q s l = ys @ n # zs" "n \<notin> set ys" "n \<notin> set zs"
  obtains b4 where "unlink (int n) b = set_node (int n) (\<lambda>x. x\<lparr>nd_prev := -1, nd_next := -1, nd_level := -1\<rparr>) b4"
    "detached b b4 s l ys zs" "bits_ok (lc_numLevels c) b4 (set_queue q s l (ys @ zs))"
proof -
  have nq: "n \<in> set (q s l)" using n(1) by simp
  note ql = rep_queue_live [OF r nq]
  have f: "dll (lb_nodes b) (-1) (ys @ n # zs) (-1)" "lv_head (levels_of b s ! l) = first (ys @ n # zs) (-1)"
    "lv_tail (levels_of b s ! l) = final (ys @ n # zs) (-1)"
    using r ql(4) n(1) unfolding rep_def links_ok_def by metis+
  have len: "l < length (levels_of b s)" and cf: "cfg_ok c b" using r ql(4) by (auto simp: rep_def cfg_ok_def)
  have pn: "nd_prev (lb_nodes b ! n) = final ys (-1)" "nd_next (lb_nodes b ! n) = first zs (-1)"
    using dll_at [OF f(1)] by auto
  define b1 where "b1 = set_level s (int l) (\<lambda>v. v\<lparr>lv_totalQty := dec_sub (lv_totalQty v) (total_qty (ord b n))\<rparr>) b"
  define b2 where "b2 = (if final ys (-1) \<ge> 0 then set_next (final ys (-1)) (first zs (-1)) b1
      else set_level s (int l) (\<lambda>v. v\<lparr>lv_head := first zs (-1)\<rparr>) b1)"
  define b3 where "b3 = (if first zs (-1) \<ge> 0 then set_prev (first zs (-1)) (final ys (-1)) b2
      else set_level s (int l) (\<lambda>v. v\<lparr>lv_tail := final ys (-1)\<rparr>) b2)"
  define b4 where "b4 = (if lv_head (levels_of b3 s ! l) < 0
      then onLevelEmptied s (int l) (set_level s (int l) (\<lambda>v. v\<lparr>lv_totalQty := 0\<rparr>) b3) else b3)"
  note bs = b3_def b2_def b1_def set_next_def set_prev_def
  have u: "unlink (int n) b = set_node (int n) (\<lambda>x. x\<lparr>nd_prev := -1, nd_next := -1, nd_level := -1\<rparr>) b4"
    using ql(2,3) pn by (simp add: unlink_def Let_def b4_def b3_def b2_def b1_def)
  have fy: "0 \<le> final ys (-1) \<longleftrightarrow> ys \<noteq> []" "0 \<le> first zs (-1) \<longleftrightarrow> zs \<noteq> []" by (rule final_neg, rule first_neg)
  have fl: "ys \<noteq> [] \<Longrightarrow> nat (final ys (-1)) = last ys" "zs \<noteq> [] \<Longrightarrow> nat (first zs (-1)) = hd zs"
    by (simp_all add: last_first)
  have head3: "lv_head (levels_of b3 s ! l) = first (ys @ zs) (-1)"
    using len f(2) fy by (cases ys; cases zs) (simp_all add: bs)
  have tail3: "lv_tail (levels_of b3 s ! l) = final (ys @ zs) (-1)"
    using len f(3) fy by (cases "ys = []"; cases "zs = []") (simp_all add: bs final_append last_first)
  have nodes3: "lb_nodes b3 ! k = (lb_nodes b ! k)\<lparr>
          nd_next := (if ys \<noteq> [] \<and> k = last ys then first zs (-1) else nd_next (lb_nodes b ! k)),
          nd_prev := (if zs \<noteq> [] \<and> k = hd zs then final ys (-1) else nd_prev (lb_nodes b ! k))\<rparr>" if "k < nlen b" for k
    using that fy fl by (cases "ys = []"; cases "zs = []") (simp_all add: bs nth_nodes)
  have frame3: "lb_base b3 = lb_base b" "lb_tick b3 = lb_tick b" "lb_numLevels b3 = lb_numLevels b" "lb_idx b3 = lb_idx b"
    "lb_idxCap b3 = lb_idxCap b" "lb_freeHead b3 = lb_freeHead b" "lb_count b3 = lb_count b" "nlen b3 = nlen b"
    "\<And>sd. length (levels_of b3 sd) = length (levels_of b sd)" "\<And>sd. bitsRef b3 sd = bitsRef b sd"
    "\<And>sd. best_level_of b3 sd = best_level_of b sd"
    "\<And>sd m. (sd, m) \<noteq> (s, l) \<Longrightarrow> levels_of b3 sd ! m = levels_of b sd ! m"
    by (auto simp: bs)
  have "detached b b4 s l ys zs"
    using len head3 tail3 nodes3 frame3 by (auto simp: detached_def b4_def)
  moreover have "bits_ok (lc_numLevels c) b4 (set_queue q s l (ys @ zs))"
  proof -
    have ok3: "bits_ok (lc_numLevels c) b3 q" using r frame3(10,11) by (auto simp: rep_def intro: bits_cong)
    show ?thesis
    proof (cases "ys @ zs = []")
      case True
      let ?b = "set_level s (int l) (\<lambda>v. v\<lparr>lv_totalQty := 0\<rparr>) b3"
      have "bits_ok (lc_numLevels c) ?b q" using ok3 by (rule bits_cong) auto
      moreover have "\<And>sd. length (bitsRef ?b sd) = wordsFor (lc_numLevels c)" "lb_numLevels ?b = lc_numLevels c"
        using cf frame3 by (auto simp: cfg_ok_def)
      ultimately have "bits_ok (lc_numLevels c) (onLevelEmptied s (int l) ?b) (set_queue q s l [])"
        using bits_emptied [OF _ ql(4), of ?b q s] by blast
      then show ?thesis using True head3 by (simp add: b4_def)
    next
      case False
      then have "b4 = b3" using head3 first_neg(1) [of "ys @ zs"] by (auto simp: b4_def)
      moreover have "bits_ok (lc_numLevels c) b3 (set_queue q s l (ys @ zs))"
        using ok3 by (rule bits_cong) (use False n(1) in auto)
      ultimately show ?thesis by simp
    qed
  qed
  ultimately show ?thesis using that u by blast
qed

lemma rep_take_down:
  assumes r: "rep c b q fl" and n: "n \<in> set (q s l)"
  shows "rep c (take_down (int n) (ro_id (ord b n)) b) (set_queue q s l (filter (\<lambda>k. k \<noteq> n) (q s l))) (n # fl)"
    "\<forall>k < nlen b. k \<noteq> n \<longrightarrow> ord (take_down (int n) (ro_id (ord b n)) b) k = ord b k"
proof -
  let ?n = "lc_numLevels c" and ?b = "take_down (int n) (ro_id (ord b n)) b"
  obtain ys zs where sp: "q s l = ys @ n # zs" "n \<notin> set ys" "n \<notin> set zs" "filter (\<lambda>k. k \<noteq> n) (q s l) = ys @ zs"
    using rep_split [OF assms] by metis
  note ql = rep_queue_live [OF r n]
  have dl: "dll (lb_nodes b) (-1) (ys @ n # zs) (-1)" "distinct (ys @ n # zs)"
    using r ql(4) sp(1) unfolding rep_def links_ok_def by metis+
  obtain b4 where u: "unlink (int n) b = set_node (int n) (\<lambda>x. x\<lparr>nd_prev := -1, nd_next := -1, nd_level := -1\<rparr>) b4"
    and d: "detached b b4 s l ys zs" and bits: "bits_ok ?n b4 (set_queue q s l (ys @ zs))"
    using unlink_detached [OF r sp(1-3)] by blast
  have fr: "lb_base b4 = lb_base b" "lb_tick b4 = lb_tick b" "lb_numLevels b4 = lb_numLevels b" "lb_idx b4 = lb_idx b"
    "lb_idxCap b4 = lb_idxCap b" "lb_freeHead b4 = lb_freeHead b" "lb_count b4 = lb_count b" "nlen b4 = nlen b"
    using d by (auto simp: detached_def)
  have lev: "levels_of ?b = levels_of b4" "bitsRef ?b = bitsRef b4" "best_level_of ?b = best_level_of b4"
    by (auto simp: take_down_def freeNode_def erase_id_def Let_def u levels_of_def bitsRef_def best_level_of_def set_node_def fun_eq_iff split: side.splits)
  have flds: "lb_base ?b = lb_base b" "lb_tick ?b = lb_tick b" "lb_numLevels ?b = lb_numLevels b" "lb_idxCap ?b = lb_idxCap b"
    "lb_freeHead ?b = int n" "lb_count ?b = lb_count b - 1" "nlen ?b = nlen b"
    "lb_idx ?b = eraseSlot (lb_idx b) (lb_idxCap b) (ro_id (ord b n))"
    using fr by (auto simp: take_down_def freeNode_def erase_id_def Let_def u set_node_def)
  have at: "lb_nodes ?b ! k = (if k = n then empty_node\<lparr>nd_nextFree := lb_freeHead b\<rparr> else lb_nodes b4 ! k)" if "k < nlen b" for k
    using that fr by (simp add: take_down_def freeNode_def erase_id_def Let_def u set_node_def nth_nodes)
  have at4: "lb_nodes b4 ! k = (lb_nodes b ! k)\<lparr>
          nd_next := (if ys \<noteq> [] \<and> k = last ys then first zs (-1) else nd_next (lb_nodes b ! k)),
          nd_prev := (if zs \<noteq> [] \<and> k = hd zs then final ys (-1) else nd_prev (lb_nodes b ! k))\<rparr>" if "k < nlen b" for k
    using d that by (simp add: detached_def)
  have at': "nd_level (lb_nodes ?b ! k) = (if k = n then -1 else nd_level (lb_nodes b ! k))"
    "k \<noteq> n \<Longrightarrow> nd_side (lb_nodes ?b ! k) = nd_side (lb_nodes b ! k)"
    "nd_nextFree (lb_nodes ?b ! k) = (if k = n then lb_freeHead b else nd_nextFree (lb_nodes b ! k))"
    "k \<noteq> n \<Longrightarrow> ord ?b k = ord b k" if "k < nlen b" for k
    using at [OF that] at4 [OF that] by (simp_all add: empty_node_def)
  have li: "live ?b = live b - {n}" using at'(1) flds(7) by (auto simp: live_def split: if_splits)
  have cf: "cfg_ok c b" and lk: "links_ok ?n b q" and pl: "pool_ok ?n b q fl" using r by (auto simp: rep_def)
  have "cfg_ok c ?b" using cf d flds lev by (simp add: cfg_ok_def detached_def)
  moreover have "links_ok ?n ?b (set_queue q s l (ys @ zs))" unfolding links_ok_def
  proof (intro allI impI)
    fix sd m assume m: "m < ?n"
    show "lv_head (levels_of ?b sd ! m) = first (set_queue q s l (ys @ zs) sd m) (-1)
        \<and> lv_tail (levels_of ?b sd ! m) = final (set_queue q s l (ys @ zs) sd m) (-1)
        \<and> dll (lb_nodes ?b) (-1) (set_queue q s l (ys @ zs) sd m) (-1) \<and> distinct (set_queue q s l (ys @ zs) sd m)"
    proof (cases "(sd, m) = (s, l)")
      case True
      have "bridged (lb_nodes b) (lb_nodes ?b) ys zs" unfolding bridged_def
      proof (intro conjI ballI)
        fix k assume k: "k \<in> set ys \<union> set zs"
        then have "k < nlen b" "k \<noteq> n" using dll_nodes [OF dl(1)] sp(2,3) by auto
        then show "nd_next (lb_nodes ?b ! k) = (if ys \<noteq> [] \<and> k = last ys then first zs (-1) else nd_next (lb_nodes b ! k))"
          "nd_prev (lb_nodes ?b ! k) = (if zs \<noteq> [] \<and> k = hd zs then final ys (-1) else nd_prev (lb_nodes b ! k))"
          using at at4 by simp_all
      qed (rule flds(7))
      from dll_bridged [OF dl this] True dl(2) d show ?thesis by (auto simp: detached_def lev)
    next
      case False
      then have q: "set_queue q s l (ys @ zs) sd m = q sd m" by auto
      have old: "lv_head (levels_of b sd ! m) = first (q sd m) (-1)" "lv_tail (levels_of b sd ! m) = final (q sd m) (-1)"
        "dll (lb_nodes b) (-1) (q sd m) (-1)" "distinct (q sd m)" using lk m by (auto simp: links_ok_def)
      have dis: "set (q sd m) \<inter> set (q s l) = {}" using queues_disjoint [OF r False] .
      have "\<forall>x \<in> set (q sd m). nd_prev (lb_nodes ?b ! x) = nd_prev (lb_nodes b ! x) \<and> nd_next (lb_nodes ?b ! x) = nd_next (lb_nodes b ! x)"
      proof
        fix x assume x: "x \<in> set (q sd m)"
        then have "x \<notin> set (ys @ n # zs)" "x < nlen b" using dis dll_nodes [OF old(3)] unfolding sp(1) by auto
        moreover from this have "ys \<noteq> [] \<Longrightarrow> x \<noteq> last ys" "zs \<noteq> [] \<Longrightarrow> x \<noteq> hd zs" "x \<noteq> n" by auto
        ultimately show "nd_prev (lb_nodes ?b ! x) = nd_prev (lb_nodes b ! x) \<and> nd_next (lb_nodes ?b ! x) = nd_next (lb_nodes b ! x)"
          using at at4 by auto
      qed
      from dll_frame [OF this flds(7)] have "dll (lb_nodes ?b) (-1) (q sd m) (-1) = dll (lb_nodes b) (-1) (q sd m) (-1)" .
      moreover have "levels_of ?b sd ! m = levels_of b sd ! m" using d False by (auto simp: detached_def lev)
      ultimately show ?thesis using old q by simp
    qed
  qed
  moreover have "pool_ok ?n ?b (set_queue q s l (ys @ zs)) (n # fl)"
  proof -
    have fn: "n \<notin> set fl" using pl ql(1) by (auto simp: pool_ok_def live_def)
    have "flist (lb_nodes ?b) (lb_freeHead b) fl = flist (lb_nodes b) (lb_freeHead b) fl"
      using pl fn at'(3) by (intro flist_frame) (auto simp: pool_ok_def flds(7))
    then have "flist (lb_nodes ?b) (lb_freeHead ?b) (n # fl)" using pl flds(5,7) ql(5) at'(3) by (simp add: pool_ok_def)
    moreover have "k \<in> set (set_queue q s l (ys @ zs) sd m) \<longleftrightarrow>
        k < nlen ?b \<and> nd_level (lb_nodes ?b ! k) = int m \<and> nd_side (lb_nodes ?b ! k) = sd" for sd m k
    proof -
      have "k \<in> set (set_queue q s l (ys @ zs) sd m) \<longleftrightarrow> k \<in> set (q sd m) \<and> k \<noteq> n"
        using sp(1-3) queues_disjoint [OF r, of sd m s l] by (cases "(sd, m) = (s, l)") (auto simp: disjoint_iff)
      also have "\<dots> \<longleftrightarrow> k < nlen b \<and> nd_level (lb_nodes b ! k) = int m \<and> nd_side (lb_nodes b ! k) = sd \<and> k \<noteq> n"
        using pl unfolding pool_ok_def by blast
      also have "\<dots> \<longleftrightarrow> k < nlen ?b \<and> nd_level (lb_nodes ?b ! k) = int m \<and> nd_side (lb_nodes ?b ! k) = sd"
        unfolding flds(7) using at'(1,2) by (cases "k = n") auto
      finally show ?thesis .
    qed
    moreover have "k \<in> set (n # fl) \<longleftrightarrow> k < nlen ?b \<and> nd_level (lb_nodes ?b ! k) = -1" for k
      using pl at'(1) ql(5) unfolding flds(7) pool_ok_def by auto
    moreover have "-1 \<le> nd_level (lb_nodes ?b ! k) \<and> nd_level (lb_nodes ?b ! k) < int ?n" if "k < nlen ?b" for k
      using pl at'(1) that unfolding flds(7) pool_ok_def by auto
    ultimately show ?thesis using pl fn unfolding pool_ok_def by simp
  qed
  moreover have "ids_ok c ?b"
  proof -
    have io: "table_ok (cap_of c) (lb_idx b)" "lb_count b = int (card (live b))" "card (occ_set (lb_idx b)) = card (live b)"
      "\<And>i m. table_holds (lb_idx b) i m \<longleftrightarrow> (\<exists>k \<in> live b. m = int k \<and> ro_id (ord b k) = i)" "lb_idxCap b = cap_of c"
      using r by (auto simp: rep_def ids_ok_def cfg_ok_def)
    have "table_holds (lb_idx b) (ro_id (ord b n)) (int n)" using io(4) ql(1) by blast
    from oat.erase_law [OF io(1) this]
    have er: "table_ok (cap_of c) (lb_idx ?b)" "card (occ_set (lb_idx ?b)) + 1 = card (occ_set (lb_idx b))"
      "\<And>j m. table_holds (lb_idx ?b) j m \<longleftrightarrow> table_holds (lb_idx b) j m \<and> j \<noteq> ro_id (ord b n)"
      using io(5) flds(8) by auto
    have card: "card (live ?b) + 1 = card (live b)" using card_Suc_Diff1 [OF live_finite ql(1)] li by simp
    have "table_holds (lb_idx ?b) j m \<longleftrightarrow> (\<exists>k \<in> live ?b. m = int k \<and> ro_id (ord ?b k) = j)" for j m
    proof -
      have "k \<noteq> n \<longleftrightarrow> ro_id (ord b k) \<noteq> ro_id (ord b n)" if "k \<in> live b" for k
        using rep_ids_inj [OF r that ql(1)] by auto
      moreover have "ord ?b k = ord b k" if "k \<in> live b" "k \<noteq> n" for k using at'(4) that by (auto simp: live_def)
      ultimately show ?thesis unfolding er(3) io(4) li by auto
    qed
    then show ?thesis using er io card flds(6) unfolding ids_ok_def by auto
  qed
  moreover have "bits_ok ?n ?b (set_queue q s l (ys @ zs))" using bits by (rule bits_cong) (auto simp: lev)
  moreover have "orders_ok c ?b" unfolding orders_ok_def li
  proof
    fix k assume "k \<in> live b - {n}"
    then have k: "k \<in> live b" "k < nlen b" "k \<noteq> n" by (auto simp: live_def)
    have "ro_side (ord b k) = nd_side (lb_nodes b ! k)
        \<and> ro_price (ord b k) = level_price (lc_basePriceRaw c) (lc_tickRaw c) (nat (nd_level (lb_nodes b ! k)))"
      using r k(1) by (auto simp: rep_def orders_ok_def)
    then show "ro_side (ord ?b k) = nd_side (lb_nodes ?b ! k)
        \<and> ro_price (ord ?b k) = level_price (lc_basePriceRaw c) (lc_tickRaw c) (nat (nd_level (lb_nodes ?b ! k)))"
      using at' [OF k(2)] k(3) by simp
  qed
  ultimately show "rep c ?b (set_queue q s l (filter (\<lambda>k. k \<noteq> n) (q s l))) (n # fl)" unfolding rep_def sp(4) by blast
  show "\<forall>k < nlen b. k \<noteq> n \<longrightarrow> ord ?b k = ord b k" using at'(4) by blast
qed

subsection \<open>A new order\<close>

lemma rep_link_tail:
  assumes r: "rep c b q (n # fl)" and l: "l < lc_numLevels c" and o: "ro_side r0 = s"
    "ro_price r0 = level_price (lc_basePriceRaw c) (lc_tickRaw c) l"
    and fresh: "\<forall>k \<in> live b. ro_id (ord b k) \<noteq> ro_id r0"
    and ins: "insertSlot (lb_idx b) (lb_idxCap b) (ro_id r0) (int n) = (True, t)" and t: "table_ok (cap_of c) t"
    "card (occ_set t) = card (occ_set (lb_idx b)) + 1"
    "\<forall>j m. table_holds t j m \<longleftrightarrow> table_holds (lb_idx b) j m \<or> (j = ro_id r0 \<and> m = int n)"
    and b0: "b0 = b\<lparr>lb_freeHead := nd_nextFree (lb_nodes b ! n), lb_count := lb_count b + 1, lb_idx := t\<rparr>"
  shows "rep c (link_tail s (int l) (int n) r0 b0) (set_queue q s l (q s l @ [n])) fl"
    "\<forall>k < nlen b. ord (link_tail s (int l) (int n) r0 b0) k = (if k = n then r0 else ord b k)"
proof -
  let ?n = "lc_numLevels c" and ?b = "link_tail s (int l) (int n) r0 b0"
  have cf: "cfg_ok c b" and lk: "links_ok ?n b q" and pl: "pool_ok ?n b q (n # fl)" and bt: "bits_ok ?n b q"
    using r by (auto simp: rep_def)
  have nb: "n < nlen b" "nd_level (lb_nodes b ! n) = -1" "n \<notin> set fl" using pl by (auto simp: pool_ok_def)
  have nq: "n \<notin> set (q sd m)" for sd m using nb(2) pl by (auto simp: pool_ok_def)
  have len: "l < length (levels_of b s)" using cf l by (simp add: cfg_ok_def)
  have acc0: "levels_of b0 = levels_of b" "bitsRef b0 = bitsRef b" "best_level_of b0 = best_level_of b"
    by (auto simp: b0 levels_of_def bitsRef_def best_level_of_def fun_eq_iff split: side.splits)
  have sel0: "lb_base b0 = lb_base b" "lb_tick b0 = lb_tick b" "lb_numLevels b0 = lb_numLevels b" "lb_idxCap b0 = lb_idxCap b"
    "lb_freeHead b0 = nd_nextFree (lb_nodes b ! n)" "lb_count b0 = lb_count b + 1" "lb_nodes b0 = lb_nodes b" "lb_idx b0 = t"
    by (simp_all add: b0)
  have hd: "lv_head (levels_of b s ! l) = first (q s l) (-1)" "lv_tail (levels_of b s ! l) = final (q s l) (-1)"
    "dll (lb_nodes b) (-1) (q s l) (-1)" "distinct (q s l)" using lk l by (auto simp: links_ok_def)
  define b1 where "b1 = set_node (int n) (\<lambda>x. x\<lparr>nd_order := r0, nd_level := int l, nd_side := s, nd_prev := -1, nd_next := -1\<rparr>) b0"
  define b2 where "b2 = (if q s l = [] then onLevelOccupied s (int l)
        (set_bits s (setBit (bitsRef b s) l) (set_level s (int l) (\<lambda>v. v\<lparr>lv_head := int n, lv_tail := int n\<rparr>) b1))
      else set_level s (int l) (\<lambda>v. v\<lparr>lv_tail := int n\<rparr>)
        (set_prev (int n) (int (last (q s l))) (set_next (int (last (q s l))) (int n) b1)))"
  have e: "?b = set_level s (int l) (\<lambda>v. v\<lparr>lv_totalQty := dec_add (lv_totalQty v) (total_qty r0)\<rparr>) b2"
    using hd(1,2) first_neg(1) [of "q s l"] acc0 by (auto simp: link_tail_def Let_def b2_def b1_def last_first)
  have flds: "lb_base ?b = lb_base b" "lb_tick ?b = lb_tick b" "lb_numLevels ?b = lb_numLevels b" "lb_idxCap ?b = lb_idxCap b"
    "lb_freeHead ?b = nd_nextFree (lb_nodes b ! n)" "lb_count ?b = lb_count b + 1" "nlen ?b = nlen b" "lb_idx ?b = t"
    unfolding e by (simp_all add: b2_def b1_def sel0 set_prev_def set_next_def)
  have lens: "length (levels_of ?b sd) = length (levels_of b sd)" "length (bitsRef ?b sd) = length (bitsRef b sd)" for sd
    unfolding e by (auto simp: b2_def b1_def set_prev_def set_next_def acc0)
  have lev: "(sd, m) \<noteq> (s, l) \<Longrightarrow> levels_of ?b sd ! m = levels_of b sd ! m" for sd m
    unfolding e by (auto simp: b2_def b1_def set_prev_def set_next_def acc0)
  have lev_s: "lv_head (levels_of ?b s ! l) = first (q s l @ [n]) (-1)" "lv_tail (levels_of ?b s ! l) = int n"
    using len hd(1) unfolding e by (auto simp: b2_def b1_def set_prev_def set_next_def acc0 first_append last_first)
  have ln: "last (q s l) \<noteq> n" if "q s l \<noteq> []" using nq [of s l] that by (metis last_in_set)
  have at: "lb_nodes ?b ! k = (if k = n then (lb_nodes b ! n)\<lparr>nd_order := r0, nd_level := int l, nd_side := s,
          nd_prev := final (q s l) (-1), nd_next := -1\<rparr>
        else (lb_nodes b ! k)\<lparr>nd_next := (if q s l \<noteq> [] \<and> k = last (q s l) then int n else nd_next (lb_nodes b ! k))\<rparr>)"
    if "k < nlen b" for k
    using that nb(1) ln unfolding e by (simp add: b2_def b1_def sel0 set_prev_def set_next_def nth_nodes last_first)
  have at': "nd_level (lb_nodes ?b ! k) = (if k = n then int l else nd_level (lb_nodes b ! k))"
    "nd_side (lb_nodes ?b ! k) = (if k = n then s else nd_side (lb_nodes b ! k))"
    "nd_nextFree (lb_nodes ?b ! k) = nd_nextFree (lb_nodes b ! k)"
    "ord ?b k = (if k = n then r0 else ord b k)" if "k < nlen b" for k
    using at [OF that] by simp_all
  have li: "live ?b = insert n (live b)" using at'(1) flds(7) nb(1) by (auto simp: live_def split: if_splits)
  have nl: "n \<notin> live b" using nb(2) by (simp add: live_def)
  have "cfg_ok c ?b" using cf flds lens by (simp add: cfg_ok_def)
  moreover have "links_ok ?n ?b (set_queue q s l (q s l @ [n]))" unfolding links_ok_def
  proof (intro allI impI)
    fix sd m assume m: "m < ?n"
    show "lv_head (levels_of ?b sd ! m) = first (set_queue q s l (q s l @ [n]) sd m) (-1)
        \<and> lv_tail (levels_of ?b sd ! m) = final (set_queue q s l (q s l @ [n]) sd m) (-1)
        \<and> dll (lb_nodes ?b) (-1) (set_queue q s l (q s l @ [n]) sd m) (-1) \<and> distinct (set_queue q s l (q s l @ [n]) sd m)"
    proof (cases "(sd, m) = (s, l)")
      case True
      have "dll (lb_nodes ?b) (-1) (q s l @ [n]) (-1)"
        using hd(3,4) nq
      proof (rule dll_append_tail)
        show "\<forall>k \<in> set (q s l). nd_next (lb_nodes ?b ! k) = (if k = last (q s l) then int n else nd_next (lb_nodes b ! k))
            \<and> nd_prev (lb_nodes ?b ! k) = nd_prev (lb_nodes b ! k)"
        proof
          fix k assume "k \<in> set (q s l)"
          then have "k < nlen b" "k \<noteq> n" "q s l \<noteq> []" using dll_nodes [OF hd(3)] nq by auto
          then show "nd_next (lb_nodes ?b ! k) = (if k = last (q s l) then int n else nd_next (lb_nodes b ! k))
              \<and> nd_prev (lb_nodes ?b ! k) = nd_prev (lb_nodes b ! k)" using at by simp
        qed
      qed (use at [OF nb(1)] nb(1) flds(7) in auto)
      then show ?thesis using True lev_s hd(4) nq by auto
    next
      case False
      then have q: "set_queue q s l (q s l @ [n]) sd m = q sd m" by auto
      have old: "lv_head (levels_of b sd ! m) = first (q sd m) (-1)" "lv_tail (levels_of b sd ! m) = final (q sd m) (-1)"
        "dll (lb_nodes b) (-1) (q sd m) (-1)" "distinct (q sd m)" using lk m by (auto simp: links_ok_def)
      have "\<forall>x \<in> set (q sd m). nd_prev (lb_nodes ?b ! x) = nd_prev (lb_nodes b ! x) \<and> nd_next (lb_nodes ?b ! x) = nd_next (lb_nodes b ! x)"
      proof
        fix x assume x: "x \<in> set (q sd m)"
        then have "x \<notin> set (q s l)" "x < nlen b" "x \<noteq> n"
          using queues_disjoint [OF r False] dll_nodes [OF old(3)] nq by auto
        then show "nd_prev (lb_nodes ?b ! x) = nd_prev (lb_nodes b ! x) \<and> nd_next (lb_nodes ?b ! x) = nd_next (lb_nodes b ! x)"
          using at by auto
      qed
      from dll_frame [OF this flds(7)] have "dll (lb_nodes ?b) (-1) (q sd m) (-1) = dll (lb_nodes b) (-1) (q sd m) (-1)" .
      then show ?thesis using old q lev [OF False] by simp
    qed
  qed
  moreover have "pool_ok ?n ?b (set_queue q s l (q s l @ [n])) fl"
  proof -
    have "flist (lb_nodes b) (nd_nextFree (lb_nodes b ! n)) fl" using pl by (auto simp: pool_ok_def)
    moreover have "flist (lb_nodes ?b) (nd_nextFree (lb_nodes b ! n)) fl = flist (lb_nodes b) (nd_nextFree (lb_nodes b ! n)) fl"
    proof (rule flist_frame)
      have "k < nlen b" if "k \<in> set fl" for k using pl that unfolding pool_ok_def by (metis list.set_intros(2))
      then show "\<forall>x \<in> set fl. nd_nextFree (lb_nodes ?b ! x) = nd_nextFree (lb_nodes b ! x)" using at'(3) by blast
    qed (rule flds(7))
    ultimately have "flist (lb_nodes ?b) (lb_freeHead ?b) fl" by (simp add: flds(5))
    moreover have "k \<in> set (set_queue q s l (q s l @ [n]) sd m) \<longleftrightarrow>
        k < nlen ?b \<and> nd_level (lb_nodes ?b ! k) = int m \<and> nd_side (lb_nodes ?b ! k) = sd" for sd m k
    proof -
      have "k \<in> set (set_queue q s l (q s l @ [n]) sd m) \<longleftrightarrow> k \<in> set (q sd m) \<or> (k = n \<and> sd = s \<and> m = l)" by auto
      also have "\<dots> \<longleftrightarrow> (k < nlen b \<and> nd_level (lb_nodes b ! k) = int m \<and> nd_side (lb_nodes b ! k) = sd) \<or> (k = n \<and> sd = s \<and> m = l)"
        using pl unfolding pool_ok_def by blast
      also have "\<dots> \<longleftrightarrow> k < nlen ?b \<and> nd_level (lb_nodes ?b ! k) = int m \<and> nd_side (lb_nodes ?b ! k) = sd"
        unfolding flds(7) using at'(1,2) nb(1,2) by (cases "k = n") auto
      finally show ?thesis .
    qed
    moreover have "k \<in> set fl \<longleftrightarrow> k < nlen ?b \<and> nd_level (lb_nodes ?b ! k) = -1" for k
    proof -
      have "k \<in> set (n # fl) \<longleftrightarrow> k < nlen b \<and> nd_level (lb_nodes b ! k) = -1" using pl unfolding pool_ok_def by blast
      then show ?thesis unfolding flds(7) using at'(1) nb by (cases "k = n") auto
    qed
    moreover have "-1 \<le> nd_level (lb_nodes ?b ! k) \<and> nd_level (lb_nodes ?b ! k) < int ?n" if "k < nlen ?b" for k
      using pl at'(1) that l unfolding flds(7) pool_ok_def by auto
    ultimately show ?thesis using pl unfolding pool_ok_def by simp
  qed
  moreover have "ids_ok c ?b"
  proof -
    have io: "lb_count b = int (card (live b))" "card (occ_set (lb_idx b)) = card (live b)"
      "\<And>i m. table_holds (lb_idx b) i m \<longleftrightarrow> (\<exists>k \<in> live b. m = int k \<and> ro_id (ord b k) = i)"
      using r by (auto simp: rep_def ids_ok_def)
    have card: "card (live ?b) = card (live b) + 1" unfolding li using nl by simp
    have "ord ?b k = ord b k" if "k \<in> live b" for k using at'(4) that nl by (auto simp: live_def)
    moreover have "ord ?b n = r0" using at'(4) nb(1) by simp
    ultimately have "table_holds t j m \<longleftrightarrow> (\<exists>k \<in> live ?b. m = int k \<and> ro_id (ord ?b k) = j)" for j m
      unfolding li using t(3) io(3) by auto
    then show ?thesis using t io card flds(6,8) unfolding ids_ok_def by simp
  qed
  moreover have "bits_ok ?n ?b (set_queue q s l (q s l @ [n]))"
  proof (cases "q s l = []")
    case True
    let ?x = "set_level s (int l) (\<lambda>v. v\<lparr>lv_head := int n, lv_tail := int n\<rparr>) b1"
    have "bits_ok ?n ?x q" using bt by (rule bits_cong) (auto simp: b1_def acc0)
    moreover have "\<And>sd. length (bitsRef ?x sd) = wordsFor ?n" using cf by (simp add: b1_def acc0 cfg_ok_def)
    ultimately have "bits_ok ?n (onLevelOccupied s (int l) (set_bits s (setBit (bitsRef ?x s) l) ?x)) (set_queue q s l (q s l @ [n]))"
      by (intro bits_occupied [OF _ l]) auto
    then show ?thesis unfolding e by (rule bits_cong) (use True in \<open>auto simp: b2_def b1_def acc0\<close>)
  next
    case False
    show ?thesis unfolding e using bt by (rule bits_cong) (use False in \<open>auto simp: b2_def b1_def acc0 set_prev_def set_next_def\<close>)
  qed
  moreover have "orders_ok c ?b" unfolding orders_ok_def li
  proof
    fix k assume "k \<in> insert n (live b)"
    then consider "k = n" | "k \<in> live b" "k < nlen b" "k \<noteq> n" using nl by (auto simp: live_def)
    then show "ro_side (ord ?b k) = nd_side (lb_nodes ?b ! k)
        \<and> ro_price (ord ?b k) = level_price (lc_basePriceRaw c) (lc_tickRaw c) (nat (nd_level (lb_nodes ?b ! k)))"
    proof cases
      case 1
      then show ?thesis using at' [OF nb(1)] o by simp
    next
      case 2
      have "ro_side (ord b k) = nd_side (lb_nodes b ! k)
          \<and> ro_price (ord b k) = level_price (lc_basePriceRaw c) (lc_tickRaw c) (nat (nd_level (lb_nodes b ! k)))"
        using r 2(1) by (auto simp: rep_def orders_ok_def)
      then show ?thesis using at' [OF 2(2)] 2(3) by simp
    qed
  qed
  ultimately show "rep c ?b (set_queue q s l (q s l @ [n])) fl" unfolding rep_def by blast
  show "\<forall>k < nlen b. ord ?b k = (if k = n then r0 else ord b k)" using at'(4) by blast
qed

end
