(* ===== verification/LadderProps.thy ===== *)
theory LadderProps
  imports LadderPool
begin

section \<open>The ladder keeps the contract of a resting book\<close>

text \<open>
  From the representation lemmas the public members of the ladder are shown to satisfy the laws
  of \<open>resting_book\<close>: the interpretation \<open>lad\<close>, one for every configuration. Prices must lie on
  the ladder's grid to rest (the engine's tick check), and a selling taker's limit must too for
  the crossing range to be exact.
\<close>

subsection \<open>A new ladder\<close>

lemma idxCapFrom_ok: "target \<le> idxCapFrom target n \<and> pow2 (idxCapFrom target n)"
proof (induction target n rule: idxCapFrom.induct)
  case (1 target n)
  show ?case
  proof (cases "(2 :: nat) ^ n < target")
    case True
    then show ?thesis using 1 by (subst (1 2) idxCapFrom.simps) simp
  next
    case False
    then show ?thesis by (subst (1 2) idxCapFrom.simps) (auto simp: pow2_def)
  qed
qed

lemma free_nodes_sel: "j < m \<Longrightarrow> nd_nextFree (free_nodes m ! j) = (if Suc j < m then int (Suc j) else -1)"
  "length (free_nodes m) = m"
  by (auto simp: free_nodes_def)

lemma flist_fresh: "j \<le> m \<Longrightarrow> flist (free_nodes m) (if j < m then int j else -1) [j..<m]"
proof (induction "m - j" arbitrary: j)
  case (Suc d)
  then have j: "j < m" "d = m - Suc j" "Suc j \<le> m" by auto
  have "[j..<m] = j # [Suc j..<m]" using j(1) by (rule upt_conv_Cons)
  then show ?case using Suc.hyps(1) [OF j(2,3)] j(1) free_nodes_sel by simp
qed simp

lemma rep_new:
  assumes "0 < lc_tickRaw c" "0 < lc_numLevels c"
  shows "rep c (new_ladder c) (\<lambda>s l. []) [0..<lc_maxOrders c]"
proof -
  let ?b = "new_ladder c"
  have cap: "lc_maxOrders c * 2 + 1 \<le> cap_of c" "pow2 (cap_of c)" using idxCapFrom_ok by (auto simp: cap_of_def)
  have acc: "levels_of ?b s = replicate (lc_numLevels c) empty_level" "bitsRef ?b s = replicate (wordsFor (lc_numLevels c)) 0"
    "best_level_of ?b s = -1" for s
    by (simp_all add: new_ladder_def Let_def levels_of_def bitsRef_def best_level_of_def split: side.splits)
  have nodes: "lb_nodes ?b = free_nodes (lc_maxOrders c)" "nlen ?b = lc_maxOrders c"
    "\<And>k. k < lc_maxOrders c \<Longrightarrow> nd_level (lb_nodes ?b ! k) = -1"
    by (simp_all add: new_ladder_def Let_def free_nodes_def empty_node_def)
  have li: "live ?b = {}" using nodes by (auto simp: live_def)
  have "cfg_ok c ?b" using assms acc nodes by (simp add: cfg_ok_def new_ladder_def Let_def cap_of_def)
  moreover have "links_ok (lc_numLevels c) ?b (\<lambda>s l. [])" by (simp add: links_ok_def acc empty_level_def)
  moreover have "pool_ok (lc_numLevels c) ?b (\<lambda>s l. []) [0..<lc_maxOrders c]"
  proof -
    have "lb_freeHead ?b = (if 0 < lc_maxOrders c then int 0 else -1)" by (simp add: new_ladder_def Let_def)
    then have "flist (lb_nodes ?b) (lb_freeHead ?b) [0..<lc_maxOrders c]"
      using flist_fresh [of 0 "lc_maxOrders c"] nodes(1) by simp
    then show ?thesis using nodes(2,3) assms(2) by (auto simp: pool_ok_def)
  qed
  moreover have "ids_ok c ?b"
  proof -
    have "lb_idx ?b = replicate (cap_of c) empty_slot" "lb_count ?b = 0" by (simp_all add: new_ladder_def Let_def cap_of_def)
    moreover have "occ_set (replicate (cap_of c) empty_slot) = {}" by (auto simp: occ_set_def empty_slot_def)
    ultimately show ?thesis using empty_table_ok [OF cap(2)] by (simp add: ids_ok_def li)
  qed
  moreover have "bits_ok (lc_numLevels c) ?b (\<lambda>s l. [])"
    using level_word by (auto simp: bits_ok_def acc is_highest_def is_lowest_def bit_at_def)
  moreover have "orders_ok c ?b" by (simp add: orders_ok_def li)
  ultimately show ?thesis by (simp add: rep_def)
qed

subsection \<open>Sides of a represented book\<close>

definition lad_inv :: "ladder_config \<Rightarrow> ladder_book \<Rightarrow> bool" where
  "lad_inv c b \<longleftrightarrow> (\<exists>q fl. rep c b q fl) \<and> (\<forall>s. \<forall>r \<in> set (lad_orders b s). wf_order r)"

lemma rep_cfg: "rep c b q fl \<Longrightarrow> 0 < lc_tickRaw c" "rep c b q fl \<Longrightarrow> 0 < lc_numLevels c"
  by (auto simp: rep_def cfg_ok_def)

lemma rep_nodes:
  assumes "rep c b q fl"
  shows "lad_orders b s = map (ord b) (grid_orders s (lc_numLevels c) (q s))"
    "set (grid_orders s (lc_numLevels c) (q s)) = {k \<in> live b. nd_side (lb_nodes b ! k) = s}"
    "distinct (grid_orders s (lc_numLevels c) (q s))"
proof -
  show "lad_orders b s = map (ord b) (grid_orders s (lc_numLevels c) (q s))"
    using rep_orders [OF assms] by (simp add: grid_map)
  show "set (grid_orders s (lc_numLevels c) (q s)) = {k \<in> live b. nd_side (lb_nodes b ! k) = s}"
  proof (intro set_eqI iffI)
    fix k assume "k \<in> set (grid_orders s (lc_numLevels c) (q s))"
    then obtain l where "k \<in> set (q s l)" by (auto simp: set_grid_orders)
    then show "k \<in> {k \<in> live b. nd_side (lb_nodes b ! k) = s}" using rep_queue_live [OF assms] by blast
  next
    fix k assume "k \<in> {k \<in> live b. nd_side (lb_nodes b ! k) = s}"
    then show "k \<in> set (grid_orders s (lc_numLevels c) (q s))"
      using rep_live_queue [OF assms, of k] by (auto simp: set_grid_orders)
  qed
  show "distinct (grid_orders s (lc_numLevels c) (q s))"
  proof (rule grid_distinct)
    fix l assume "l < lc_numLevels c"
    then show "distinct (q s l)" using assms by (auto simp: rep_def links_ok_def)
  next
    fix l m :: nat assume "l \<noteq> m"
    then show "set (q s l) \<inter> set (q s m) = {}" using queues_disjoint [OF assms, of s l s m] by simp
  qed
qed

lemma rep_side_ok:
  assumes "rep c b q fl" "\<forall>r \<in> set (lad_orders b s). wf_order r"
  shows "side_ok s (lad_orders b s)"
  unfolding rep_orders [OF assms(1)]
proof (rule grid_side_ok [OF rep_priced [OF assms(1)] rep_cfg(1) [OF assms(1)]], intro allI impI ballI)
  fix l r assume l: "l < lc_numLevels c" and r: "r \<in> set (map (ord b) (q s l))"
  then obtain k where k: "r = ord b k" "k \<in> set (q s l)" by auto
  have "r \<in> set (lad_orders b s)" unfolding rep_orders [OF assms(1)] set_grid_orders using l r by blast
  moreover have "ro_side r = s"
    using assms(1) k rep_queue_live [OF assms(1) k(2)] by (auto simp: rep_def orders_ok_def)
  ultimately show "wf_order r \<and> ro_side r = s" using assms(2) by blast
qed

lemma rep_distinct:
  assumes "rep c b q fl"
  shows "distinct (map ro_id (lad_orders b BUY @ lad_orders b SELL))"
proof -
  let ?g = "grid_orders BUY (lc_numLevels c) (q BUY) @ grid_orders SELL (lc_numLevels c) (q SELL)"
  have "map ro_id (lad_orders b BUY @ lad_orders b SELL) = map (\<lambda>k. ro_id (ord b k)) ?g"
    by (simp add: rep_nodes(1) [OF assms] comp_def)
  moreover have "distinct ?g" using rep_nodes(2,3) [OF assms] by auto
  moreover have "inj_on (\<lambda>k. ro_id (ord b k)) (set ?g)"
    using rep_nodes(2) [OF assms] by (auto intro!: inj_onI rep_ids_inj [OF assms])
  ultimately show ?thesis using distinct_map [of "\<lambda>k. ro_id (ord b k)" ?g] by metis
qed

lemma lad_inv_book_ok: "lad_inv c b \<Longrightarrow> book_ok (lad_orders b)"
  unfolding lad_inv_def book_ok_def using rep_side_ok rep_distinct by blast

lemma rep_member:
  assumes "rep c b q fl" "r \<in> set (lad_orders b s)"
  obtains k l where "r = ord b k" "k \<in> set (q s l)" "k \<in> live b" "k < nlen b" "l < lc_numLevels c"
    "nd_side (lb_nodes b ! k) = s" "nd_level (lb_nodes b ! k) = int l"
proof -
  obtain k l where "r = ord b k" "k \<in> set (q s l)"
    using assms(2) unfolding rep_orders [OF assms(1)] set_grid_orders by auto
  then show ?thesis using that rep_queue_live [OF assms(1)] by blast
qed

lemma rep_found:
  assumes "rep c b q fl"
  shows "lad_find b i = spec_find i (lad_orders b BUY @ lad_orders b SELL)"
    "lad_contains b i \<longleftrightarrow> i \<in> ro_id ` (set (lad_orders b BUY) \<union> set (lad_orders b SELL))"
proof -
  have set: "set (lad_orders b BUY @ lad_orders b SELL) = ord b ` live b"
  proof -
    have e: "set (lad_orders b s) = ord b ` {k \<in> live b. nd_side (lb_nodes b ! k) = s}" for s
      unfolding rep_nodes(1) [OF assms] set_map rep_nodes(2) [OF assms] ..
    have u: "{k \<in> live b. nd_side (lb_nodes b ! k) = BUY} \<union> {k \<in> live b. nd_side (lb_nodes b ! k) = SELL} = live b"
      using side.exhaust by blast
    show ?thesis unfolding set_append e image_Un [symmetric] u ..
  qed
  have "lad_find b i = spec_find i (lad_orders b BUY @ lad_orders b SELL)
      \<and> (lad_contains b i \<longleftrightarrow> i \<in> ro_id ` set (lad_orders b BUY @ lad_orders b SELL))"
  proof (cases "\<exists>k \<in> live b. ro_id (ord b k) = i")
    case True
    then obtain k where k: "k \<in> live b" "ro_id (ord b k) = i" by blast
    have f: "find_node b i = int k" using rep_find(1) [OF assms k(1)] k(2) by simp
    have "ord b k \<in> set (lad_orders b BUY @ lad_orders b SELL)" using set k(1) by blast
    moreover from this have "spec_find i (lad_orders b BUY @ lad_orders b SELL) = Some (ord b k)"
      using k(2) spec_find_Some [OF rep_distinct [OF assms]] by blast
    ultimately show ?thesis using f k(2) by (auto simp: lad_find_def lad_contains_def Let_def)
  next
    case False
    then have f: "find_node b i = -1" using rep_find(2) [OF assms] by blast
    have "i \<notin> ro_id ` set (lad_orders b BUY @ lad_orders b SELL)" unfolding set using False by auto
    then show ?thesis using f spec_find_None [of i "lad_orders b BUY @ lad_orders b SELL"]
      by (simp add: lad_find_def lad_contains_def Let_def)
  qed
  then show "lad_find b i = spec_find i (lad_orders b BUY @ lad_orders b SELL)"
    "lad_contains b i \<longleftrightarrow> i \<in> ro_id ` (set (lad_orders b BUY) \<union> set (lad_orders b SELL))" by auto
qed

subsection \<open>The best level\<close>

lemma scan_best: "scan b s = (if best_level_of b s < 0 then [] else best_level_of b s # tl (scan b s))"
  by (cases s) (simp_all add: scan_def best_level_of_def bid_scan.simps [of _ "lb_bestBidLevel b"]
      ask_scan.simps [of _ _ "lb_bestAskLevel b"])

lemma rep_best:
  assumes "rep c b q fl"
  obtains (none) "best_level_of b s < 0" "lad_orders b s = []"
  | (best) l ns rest where "best_level_of b s = int l" "l < lc_numLevels c" "q s l = ns" "ns \<noteq> []"
      "lad_orders b s = map (ord b) ns @ rest"
      "\<forall>x \<in> set rest. ro_price x \<noteq> level_price (lc_basePriceRaw c) (lc_tickRaw c) l"
proof -
  let ?ls = "filter (\<lambda>l. q s l \<noteq> []) (side_levels s (lc_numLevels c))" and ?Q = "\<lambda>l. map (ord b) (q s l)"
  have o: "lad_orders b s = concat (map ?Q ?ls)"
    unfolding rep_orders [OF assms] grid_occupied [of s _ ?Q] by simp
  show ?thesis
  proof (cases ?ls)
    case Nil
    then have "scan b s = []" using rep_scan [OF assms, of s] by simp
    then have "best_level_of b s < 0" using scan_best [of b s] by (auto split: if_splits)
    then show ?thesis using none o Nil by simp
  next
    case (Cons l ls)
    then have "scan b s = int l # map int ls" using rep_scan [OF assms, of s] by simp
    then have b: "best_level_of b s = int l" using scan_best [of b s] by (metis list.inject list.distinct(1))
    have "l \<in> set ?ls" unfolding Cons by simp
    then have l: "l < lc_numLevels c" "q s l \<noteq> []" by auto
    have "l \<notin> set ls" using distinct_filter [OF distinct_side_levels] Cons by (metis distinct.simps(2))
    then have "\<forall>x \<in> set (concat (map ?Q ls)). ro_price x \<noteq> level_price (lc_basePriceRaw c) (lc_tickRaw c) l"
      using rep_priced [OF assms, of s] rep_cfg(1) [OF assms] by (auto simp: priced_def level_price_def)
    then show ?thesis using best [OF b l(1) refl l(2)] o unfolding Cons by simp
  qed
qed

lemma rep_price:
  assumes "rep c b q fl" "k \<in> set (q s l)"
  shows "ro_price (ord b k) = level_price (lc_basePriceRaw c) (lc_tickRaw c) l"
  using rep_priced [OF assms(1), of s] assms(2) by (auto simp: priced_def)

lemma rep_head:
  assumes "rep c b q fl" "l < lc_numLevels c"
  shows "lv_head (levelRef b s (int l)) = first (q s l) (-1)"
  using assms by (simp add: rep_def links_ok_def)

lemma lad_peek_law:
  assumes "rep c b q fl"
  shows "lad_peekBest b s = (case lad_orders b s of [] \<Rightarrow> None | r # rs \<Rightarrow> Some r)"
  using assms
proof (cases rule: rep_best [where s = s])
  case none
  then show ?thesis by (simp add: lad_peekBest_def Let_def)
next
  case (best l ns rest)
  then obtain k ks where "ns = k # ks" by (cases ns) auto
  then show ?thesis using best rep_head [OF assms best(2), of s] by (simp add: lad_peekBest_def Let_def)
qed

lemma lad_level_law:
  assumes "rep c b q fl"
  shows "lad_bestLevel b s = (case lad_orders b s of [] \<Rightarrow> [] | r # rs \<Rightarrow> takeWhile (\<lambda>x. ro_price x = ro_price r) (r # rs))"
  using assms
proof (cases rule: rep_best [where s = s])
  case none
  then show ?thesis by (simp add: lad_bestLevel_def Let_def)
next
  case (best l ns rest)
  then obtain k ks where n: "ns = k # ks" by (cases ns) auto
  have p: "ro_price (ord b j) = level_price (lc_basePriceRaw c) (lc_tickRaw c) l" if "j \<in> set ns" for j
    using rep_price [OF assms] best(3) that by blast
  let ?P = "\<lambda>x. ro_price x = ro_price (ord b k)"
  have "takeWhile ?P (map (ord b) ns @ rest) = map (ord b) ns @ takeWhile ?P rest"
    using p n by (intro takeWhile_append2) auto
  also have "takeWhile ?P rest = []" using best(6) p n by (cases rest) auto
  finally have t: "takeWhile ?P (map (ord b) ns @ rest) = map (ord b) ns" by simp
  have "lad_bestLevel b s = map (ord b) ns"
    using best(1-3) rep_level_orders [OF assms best(2), of s] by (simp add: lad_bestLevel_def Let_def)
  then show ?thesis using best(5) t n by simp
qed

lemma lad_touch_law:
  assumes "rep c b q fl"
  shows "(if best_level_of b s < 0 then None else Some (priceOf b (best_level_of b s))) = map_option ro_price (lad_peekBest b s)"
  using assms
proof (cases rule: rep_best [where s = s])
  case none
  then show ?thesis using lad_peek_law [OF assms, of s] by simp
next
  case (best l ns rest)
  then obtain k ks where n: "ns = k # ks" by (cases ns) auto
  have "k \<in> set (q s l)" using best(3) n by simp
  moreover have "priceOf b (int l) = level_price (lc_basePriceRaw c) (lc_tickRaw c) l"
    using assms by (simp add: rep_def cfg_ok_def priceOf_def level_price_def)
  ultimately show ?thesis using best rep_price [OF assms, of k s l] n lad_peek_law [OF assms, of s] by simp
qed

subsection \<open>The crossing range\<close>

lemma int_le_div: "0 < t \<Longrightarrow> l \<le> x div t \<longleftrightarrow> l * t \<le> x" for l x t :: int
proof
  assume t: "0 < t" "l \<le> x div t"
  have "l * t \<le> x div t * t" using t by (intro mult_right_mono) auto
  also have "\<dots> \<le> x" using t(1) by (simp add: pos_mod_sign minus_mod_eq_div_mult [symmetric])
  finally show "l * t \<le> x" .
next
  assume t: "0 < t" "l * t \<le> x"
  then have "l * t div t \<le> x div t" by (intro zdiv_mono1)
  then show "l \<le> x div t" using t(1) by simp
qed

lemma floorDiv_div: "0 < d \<Longrightarrow> floorDiv n d = n div d"
proof -
  assume d: "0 < d"
  show "floorDiv n d = n div d"
  proof (cases "n < 0")
    case False
    then show ?thesis using d by (simp add: floorDiv_def Let_def signed_divide_int_def signed_modulo_int_def sgn_if)
  next
    case True
    have e: "n sdiv d = - (- n div d)" using True d by (simp add: signed_divide_int_def sgn_if)
    have m: "n smod d = n - (n sdiv d) * d" by (rule minus_sdiv_mult_eq_smod [symmetric])
    show ?thesis
    proof (cases "n mod d = 0")
      case True
      then have "- n div d = - (n div d)" using d by (simp add: zdiv_zminus1_eq_if)
      then show ?thesis using e m True by (simp add: floorDiv_def Let_def mod_eq_0_iff_dvd)
    next
      case False
      then have "- n div d = - (n div d) - 1" using d by (simp add: zdiv_zminus1_eq_if)
      then have q: "n sdiv d = n div d + 1" using e by simp
      have "n smod d \<noteq> 0"
      proof
        assume "n smod d = 0"
        then have "n = n sdiv d * d" using m by simp
        then show False using False by (metis mod_mult_self2_is_0)
      qed
      then show ?thesis using q True d by (simp add: floorDiv_def Let_def)
    qed
  qed
qed

definition lad_limit_ok :: "ladder_config \<Rightarrow> side \<Rightarrow> int \<Rightarrow> bool" where
  "lad_limit_ok c takerSide limit \<longleftrightarrow> takerSide = BUY \<or> limit \<le> lc_basePriceRaw c
     \<or> (lc_tickRaw c dvd limit - lc_basePriceRaw c
        \<and> limit \<le> level_price (lc_basePriceRaw c) (lc_tickRaw c) (lc_numLevels c - 1))"

definition lad_grid :: "ladder_config \<Rightarrow> int \<Rightarrow> bool" where
  "lad_grid c p \<longleftrightarrow> lc_tickRaw c dvd p - lc_basePriceRaw c"

lemma limit_level_buy:
  assumes "rep c b q fl" "l < lc_numLevels c"
  shows "int l \<le> (if mk then int (lb_numLevels b) - 1 else clampLevel b limit)
    \<longleftrightarrow> within_limit BUY limit mk (level_price (lc_basePriceRaw c) (lc_tickRaw c) l)"
proof -
  have c: "lb_base b = lc_basePriceRaw c" "lb_tick b = lc_tickRaw c" "lb_numLevels b = lc_numLevels c" "0 < lc_tickRaw c"
    using assms(1) by (auto simp: rep_def cfg_ok_def)
  have "int l \<le> (limit - lc_basePriceRaw c) div lc_tickRaw c \<longleftrightarrow> int l * lc_tickRaw c \<le> limit - lc_basePriceRaw c"
    using c(4) by (rule int_le_div)
  then show ?thesis using assms(2) c
    by (auto simp: within_limit_def level_price_def clampLevel_def Let_def floorDiv_div)
qed

lemma limit_level_sell:
  assumes "rep c b q fl" "l < lc_numLevels c" "lad_limit_ok c SELL limit \<or> mk"
  shows "int l \<ge> (if mk then 0 else clampLevel b limit)
    \<longleftrightarrow> within_limit SELL limit mk (level_price (lc_basePriceRaw c) (lc_tickRaw c) l)"
proof (cases mk)
  case False
  let ?t = "lc_tickRaw c" and ?x = "limit - lc_basePriceRaw c"
  have c: "lb_base b = lc_basePriceRaw c" "lb_tick b = ?t" "lb_numLevels b = lc_numLevels c" "0 < ?t"
    using assms(1) by (auto simp: rep_def cfg_ok_def)
  consider "?x < 0" | "?x = 0" | "0 < ?x" "?t dvd ?x" "?x \<le> int (lc_numLevels c - 1) * ?t"
  proof -
    have "?x \<le> 0 \<or> (?t dvd ?x \<and> ?x \<le> int (lc_numLevels c - 1) * ?t)"
      using assms(3) False unfolding lad_limit_ok_def level_price_def diff_le_eq by (simp add: add.commute)
    then show ?thesis using that by linarith
  qed
  then show ?thesis
  proof cases
    case 1
    then have "?x div ?t < 0" using pos_imp_zdiv_neg_iff [of ?t ?x] c(4) by blast
    moreover have "\<not> lc_basePriceRaw c + int l * ?t < limit" using 1 c(4) by (smt (verit) mult_nonneg_nonneg of_nat_0_le_iff)
    ultimately show ?thesis using False c by (simp add: clampLevel_def Let_def floorDiv_div within_limit_def level_price_def)
  next
    case 2
    have "\<not> int l * ?t < 0" using c(4) by (simp add: not_less)
    then show ?thesis using 2 False c assms(2) by (simp add: clampLevel_def Let_def floorDiv_div within_limit_def level_price_def)
  next
    case 3
    then obtain m where m: "?x = m * ?t" by (metis dvdE mult.commute)
    have "m * ?t \<le> int (lc_numLevels c - 1) * ?t" "0 < m * ?t" using 3(1,3) unfolding m by blast+
    then have m': "0 < m" "m \<le> int (lc_numLevels c - 1)"
      using c(4) zero_less_mult_iff [of m ?t] mult_le_cancel_right_pos [OF c(4), of m "int (lc_numLevels c - 1)"]
      by (blast | linarith)+
    have "int (lc_numLevels c - 1) < int (lc_numLevels c)" using assms(2) by simp
    with m' have "m < int (lc_numLevels c)" "0 \<le> m" by linarith+
    moreover have "m \<le> int l \<longleftrightarrow> \<not> lc_basePriceRaw c + int l * ?t < limit"
      using m c(4) by (metis add.commute diff_le_eq mult_le_cancel_right_pos not_less)
    ultimately show ?thesis using False c m by (simp add: clampLevel_def Let_def floorDiv_div within_limit_def level_price_def)
  qed
qed (simp add: within_limit_def)

lemma takeWhile_map_int: "takeWhile P (map int ls) = map int (takeWhile (\<lambda>l. P (int l)) ls)"
  by (induction ls) auto

lemma lad_within_law:
  assumes "rep c b q fl" "lad_limit_ok c (opposite s) limit \<or> mk"
  shows "lad_within b (opposite s) limit mk
    = takeWhile (\<lambda>x. within_limit (opposite s) limit mk (ro_price x)) (lad_orders b s)"
proof -
  let ?ls = "filter (\<lambda>l. q s l \<noteq> []) (side_levels s (lc_numLevels c))" and ?Q = "\<lambda>l. map (ord b) (q s l)"
  let ?W = "\<lambda>l. within_limit (opposite s) limit mk (level_price (lc_basePriceRaw c) (lc_tickRaw c) l)"
  have "crossing_levels b (opposite s) limit mk = map int (takeWhile ?W ?ls)"
  proof (cases s)
    case BUY
    have "takeWhile (\<lambda>l. (if mk then 0 else clampLevel b limit) \<le> int l) ?ls = takeWhile ?W ?ls"
      using limit_level_sell [OF assms(1)] assms(2) BUY by (intro takeWhile_cong) auto
    then show ?thesis using rep_scan [OF assms(1), of BUY] BUY
      by (simp add: crossing_levels_def Let_def takeWhile_map_int)
  next
    case SELL
    have "takeWhile (\<lambda>l. int l \<le> (if mk then int (lb_numLevels b) - 1 else clampLevel b limit)) ?ls = takeWhile ?W ?ls"
      using limit_level_buy [OF assms(1)] SELL by (intro takeWhile_cong) auto
    then show ?thesis using rep_scan [OF assms(1), of SELL] SELL
      by (simp add: crossing_levels_def Let_def takeWhile_map_int)
  qed
  moreover have "map (level_orders b s) (map int (takeWhile ?W ?ls)) = map ?Q (takeWhile ?W ?ls)"
    using rep_level_orders [OF assms(1)] by (auto simp: comp_def dest!: set_takeWhileD)
  ultimately have "lad_within b (opposite s) limit mk = concat (map ?Q (takeWhile ?W ?ls))"
    by (cases s) (simp_all only: lad_within_def opposite.simps)
  then show ?thesis unfolding rep_orders [OF assms(1)] grid_within [OF rep_priced [OF assms(1)], where P = "within_limit (opposite s) limit mk"]
    by simp
qed

subsection \<open>Changing orders\<close>

lemma lad_invI:
  assumes "rep c b q fl" "\<And>s. side_ok s (lad_orders b s)"
  shows "lad_inv c b"
  using assms by (auto simp: lad_inv_def side_ok_def)

lemma map_ord_replace:
  assumes "rep c b q fl" "set xs \<subseteq> live b" "k \<in> live b" "\<forall>j \<in> live b. ord b' j = (if j = k then f (ord b k) else ord b j)"
  shows "map (ord b') xs = spec_replace (ro_id (ord b k)) f (map (ord b) xs)"
  using assms(2)
proof (induction xs)
  case (Cons j xs)
  then have "j \<in> live b" by simp
  then have "j = k \<longleftrightarrow> ro_id (ord b j) = ro_id (ord b k)" using rep_ids_inj [OF assms(1) _ assms(3)] by blast
  then show ?case using Cons assms(4) \<open>j \<in> live b\<close> by (auto simp: spec_replace_Cons)
qed (simp add: spec_replace_def)

lemma map_ord_remove:
  assumes "rep c b q fl" "set xs \<subseteq> live b" "k \<in> live b" "\<forall>j \<in> live b. j \<noteq> k \<longrightarrow> ord b' j = ord b j"
  shows "map (ord b') (filter (\<lambda>j. j \<noteq> k) xs) = spec_remove (ro_id (ord b k)) (map (ord b) xs)"
  using assms(2)
proof (induction xs)
  case (Cons j xs)
  then have "j \<in> live b" by simp
  then have "j = k \<longleftrightarrow> ro_id (ord b j) = ro_id (ord b k)" using rep_ids_inj [OF assms(1) _ assms(3)] by blast
  then show ?case using Cons assms(4) \<open>j \<in> live b\<close> by (auto simp: spec_remove_Cons)
qed (simp add: spec_remove_def)

lemma queue_live: "rep c b q fl \<Longrightarrow> set (q s l) \<subseteq> live b"
  using rep_queue_live(1) by blast

lemma same_live: "same_shape b b' \<Longrightarrow> live b' = live b"
  by (auto simp: same_shape_def live_def)

lemma orders_replaced:
  assumes r: "rep c b q fl" and k: "k \<in> live b" and s: "same_shape b b'"
    and o: "\<forall>j \<in> live b. ord b' j = (if j = k then f (ord b k) else ord b j)"
  shows "lad_orders b' s = spec_replace (ro_id (ord b k)) f (lad_orders b s)"
  unfolding rep_orders [OF r] rep_orders [OF rep_same_shape [OF r s]] grid_replace
  using map_ord_replace [where f = f, OF r queue_live [OF r] k o] by simp

lemma orders_removed:
  assumes r: "rep c b q fl" and k: "k \<in> set (q s l)" and r': "rep c b' (set_queue q s l (filter (\<lambda>j. j \<noteq> k) (q s l))) fl'"
    and o: "\<forall>j \<in> live b. j \<noteq> k \<longrightarrow> ord b' j = ord b j"
  shows "lad_orders b' sd = spec_remove (ro_id (ord b k)) (lad_orders b sd)"
proof -
  note kl = rep_queue_live(1) [OF r k]
  have "map (ord b') (set_queue q s l (filter (\<lambda>j. j \<noteq> k) (q s l)) sd m) = spec_remove (ro_id (ord b k)) (map (ord b) (q sd m))" for m
  proof -
    have "set_queue q s l (filter (\<lambda>j. j \<noteq> k) (q s l)) sd m = filter (\<lambda>j. j \<noteq> k) (q sd m)"
      using queues_disjoint [OF r, of sd m s l] k by (auto simp: disjoint_iff intro!: filter_True [symmetric])
    then show ?thesis using map_ord_remove [OF r queue_live [OF r] kl o] by simp
  qed
  then show ?thesis unfolding rep_orders [OF r] rep_orders [OF r'] grid_remove by simp
qed

lemma orders_requeued:
  assumes r: "rep c b q fl" and k: "k \<in> set (q s l)"
    and r': "rep c b' (set_queue q s l (filter (\<lambda>j. j \<noteq> k) (q s l) @ [k])) fl'"
    and o: "\<forall>j \<in> live b. ord b' j = (if j = k then r1 else ord b j)" and p: "ro_price r1 = ro_price (ord b k)"
  shows "lad_orders b' s = spec_insert s r1 (spec_remove (ro_id (ord b k)) (lad_orders b s))"
    "lad_orders b' (opposite s) = lad_orders b (opposite s)"
proof -
  note kl = rep_queue_live [OF r k]
  let ?Q = "\<lambda>m. spec_remove (ro_id (ord b k)) (map (ord b) (q s m))"
  have o': "\<forall>j \<in> live b. j \<noteq> k \<longrightarrow> ord b' j = ord b j" using o by simp
  have pr: "priced (lc_basePriceRaw c) (lc_tickRaw c) ?Q" using rep_priced [OF r, of s] by (auto simp: priced_def)
  have q: "map (ord b') (set_queue q s l (filter (\<lambda>j. j \<noteq> k) (q s l) @ [k]) s m) = (?Q(l := ?Q l @ [r1])) m" for m
  proof (cases "m = l")
    case True
    then show ?thesis using map_ord_remove [OF r queue_live [OF r] kl(1) o', of s l] o kl(1) by simp
  next
    case False
    then have "k \<notin> set (q s m)" using queues_disjoint [OF r, of s m s l] k by auto
    then have "filter (\<lambda>j. j \<noteq> k) (q s m) = q s m" by (auto intro: filter_True)
    then show ?thesis using map_ord_remove [OF r queue_live [OF r] kl(1) o', of s m] False by simp
  qed
  have "lad_orders b' s = grid_orders s (lc_numLevels c) (?Q(l := ?Q l @ [r1]))"
    unfolding rep_orders [OF r'] by (rule grid_cong) (rule q)
  also have "\<dots> = spec_insert s r1 (grid_orders s (lc_numLevels c) ?Q)"
    using grid_insert [OF pr rep_cfg(1) [OF r] kl(4), of r1 s] p rep_price [OF r k] by simp
  finally show "lad_orders b' s = spec_insert s r1 (spec_remove (ro_id (ord b k)) (lad_orders b s))"
    unfolding rep_orders [OF r] grid_remove .
  have "map (ord b') (set_queue q s l (filter (\<lambda>j. j \<noteq> k) (q s l) @ [k]) (opposite s) m) = map (ord b) (q (opposite s) m)" for m
  proof -
    have "j \<in> live b \<and> j \<noteq> k" if "j \<in> set (q (opposite s) m)" for j
      using rep_queue_live [OF r that] kl(2) by (cases s) auto
    then show ?thesis using o by (cases s) auto
  qed
  then show "lad_orders b' (opposite s) = lad_orders b (opposite s)"
    unfolding rep_orders [OF r'] rep_orders [OF r] by (intro grid_cong)
qed

lemma lad_opposite_absent:
  assumes "lad_inv c b" "r \<in> set (lad_orders b s)"
  shows "ro_id r \<notin> ro_id ` set (lad_orders b (opposite s))"
  using book_ok_disjoint [OF lad_inv_book_ok [OF assms(1)], of s] assms(2) by blast

lemma side_ok_both: "side_ok s (f s) \<Longrightarrow> side_ok (opposite s) (f (opposite s)) \<Longrightarrow> side_ok sd (f sd)"
  by (cases s; cases sd) auto

lemma lad_inv_side: "lad_inv c b \<Longrightarrow> side_ok s (lad_orders b s)"
  by (rule book_ok_side [OF lad_inv_book_ok])

lemma lad_inv_ids: "lad_inv c b \<Longrightarrow> distinct (map ro_id (lad_orders b s))"
  by (rule book_ok_distinct [OF lad_inv_book_ok])

lemma lad_trim_law:
  assumes i: "lad_inv c b" and r: "r \<in> set (lad_orders b s)" and n: "0 < n" "n \<le> total_qty r"
  shows "lad_inv c (snd (lad_reduceTotal b (ro_id r) n))
    \<and> lad_orders (snd (lad_reduceTotal b (ro_id r) n)) s = spec_replace (ro_id r) (trim_total n) (lad_orders b s)
    \<and> lad_orders (snd (lad_reduceTotal b (ro_id r) n)) (opposite s) = lad_orders b (opposite s)"
proof -
  obtain q fl where rp: "rep c b q fl" using i by (auto simp: lad_inv_def)
  note so = lad_inv_side [OF i] and ds = lad_inv_ids [OF i]
  obtain k l where k: "r = ord b k" "k \<in> live b" "k < nlen b" using rep_member [OF rp r] by metis
  let ?b = "snd (lad_reduceTotal b (ro_id r) n)"
  have f: "find_node b (ro_id r) = int k" using rep_find(1) [OF rp k(2)] k(1) by simp
  have sh: "same_shape b ?b \<and> (\<forall>j \<in> live b. ord ?b j = (if j = k then trim_total n (ord b k) else ord b j))"
  proof (cases "n < ro_leaves r")
    case True
    let ?l = "set_level (nd_side (lb_nodes b ! k)) (nd_level (lb_nodes b ! k))
      (\<lambda>v. v\<lparr>lv_totalQty := dec_sub (lv_totalQty v) (dec_sub (ro_leaves r) n)\<rparr>) b"
    have "?b = set_order (int k) (\<lambda>r. r\<lparr>ro_leaves := n, ro_hidden := 0\<rparr>) ?l"
      using True f k(1) by (simp add: lad_reduceTotal_def Let_def)
    moreover have "same_shape b (set_order (int k) (\<lambda>r. r\<lparr>ro_leaves := n, ro_hidden := 0\<rparr>) ?l)"
      by (rule same_shape_trans [OF set_level_shape set_order_shape]) simp_all
    moreover have "ord (set_order (int k) (\<lambda>r. r\<lparr>ro_leaves := n, ro_hidden := 0\<rparr>) ?l) j
        = (if j = k then trim_total n (ord b k) else ord b j)" for j
      using True k ord_set_order [of k ?l] by (simp add: trim_total_def)
    ultimately show ?thesis by simp
  next
    case False
    have "?b = set_order (int k) (\<lambda>r. r\<lparr>ro_hidden := dec_sub n (ro_leaves r)\<rparr>) b"
      using False f k(1) by (simp add: lad_reduceTotal_def Let_def)
    moreover have "same_shape b (set_order (int k) (\<lambda>r. r\<lparr>ro_hidden := dec_sub n (ro_leaves r)\<rparr>) b)"
      by (rule set_order_shape) simp_all
    moreover have "ord (set_order (int k) (\<lambda>r. r\<lparr>ro_hidden := dec_sub n (ro_leaves r)\<rparr>) b) j
        = (if j = k then trim_total n (ord b k) else ord b j)" for j
      using False k ord_set_order [of k b] by (simp add: trim_total_def)
    ultimately show ?thesis by simp
  qed
  have o: "lad_orders ?b sd = spec_replace (ro_id r) (trim_total n) (lad_orders b sd)" for sd
    using orders_replaced [OF rp k(2), of ?b "trim_total n" sd] sh k(1) by blast
  have op: "lad_orders ?b (opposite s) = lad_orders b (opposite s)"
    unfolding o using lad_opposite_absent [OF i r] by (simp add: spec_replace_absent)
  have wf: "wf_order (trim_total n r)" using wf_trim_total [of r n] side_ok_wf [OF so r] n by blast
  have only: "x = r" if "x \<in> set (lad_orders b s)" "ro_id x = ro_id r" for x
    using ds r that by (metis spec_find_Some option.inject)
  have "side_ok s (spec_replace (ro_id r) (trim_total n) (lad_orders b s))"
    using so [of s] by (rule side_ok_replace) (use only wf in auto)
  then have "side_ok sd (lad_orders ?b sd)" for sd using side_ok_both [of s "lad_orders ?b" sd] o [of s] op so by simp
  then have "lad_inv c ?b" using lad_invI [OF rep_same_shape [OF rp]] sh by blast
  then show ?thesis using o op by blast
qed

lemma lad_cancel_law:
  assumes i: "lad_inv c b"
  shows "lad_inv c (snd (lad_cancel b j)) \<and> lad_orders (snd (lad_cancel b j)) s = spec_remove j (lad_orders b s)
    \<and> fst (lad_cancel b j) = spec_find j (lad_orders b BUY @ lad_orders b SELL)"
proof -
  obtain q fl where rp: "rep c b q fl" using i by (auto simp: lad_inv_def)
  note so = lad_inv_side [OF i] and ds = lad_inv_ids [OF i]
  have fst: "fst (lad_cancel b j) = spec_find j (lad_orders b BUY @ lad_orders b SELL)"
    unfolding rep_found(1) [OF rp, symmetric] by (simp add: lad_cancel_def lad_find_def Let_def)
  show ?thesis
  proof (cases "\<exists>k \<in> live b. ro_id (ord b k) = j")
    case True
    then obtain k where k: "k \<in> live b" "ro_id (ord b k) = j" by blast
    let ?s = "nd_side (lb_nodes b ! k)" and ?l = "nat (nd_level (lb_nodes b ! k))"
    have kq: "k \<in> set (q ?s ?l)" using rep_live_queue [OF rp k(1)] by simp
    have e: "snd (lad_cancel b j) = take_down (int k) (ro_id (ord b k)) b"
      using rep_find(1) [OF rp k(1)] k(2) by (simp add: lad_cancel_def Let_def)
    note td = rep_take_down [OF rp kq]
    have o: "lad_orders (snd (lad_cancel b j)) sd = spec_remove j (lad_orders b sd)" for sd
      unfolding e using orders_removed [OF rp kq td(1)] td(2) k(2) by (auto simp: live_def)
    then have "lad_inv c (snd (lad_cancel b j))"
      using lad_invI [OF td(1) [folded e]] side_ok_remove [OF so] by simp
    then show ?thesis using o fst by blast
  next
    case False
    then have "snd (lad_cancel b j) = b" using rep_find(2) [OF rp] by (simp add: lad_cancel_def Let_def)
    moreover have "j \<notin> ro_id ` set (lad_orders b s)"
    proof
      assume "j \<in> ro_id ` set (lad_orders b s)"
      then obtain r where "r \<in> set (lad_orders b s)" "ro_id r = j" by blast
      then show False using rep_member [OF rp] False by metis
    qed
    ultimately show ?thesis using i fst by (simp add: spec_remove_absent)
  qed
qed

definition bitten :: "side \<Rightarrow> nat \<Rightarrow> nat \<Rightarrow> int \<Rightarrow> ladder_book \<Rightarrow> ladder_book" where
  "bitten s l k n b = set_level s (int l) (\<lambda>v. v\<lparr>lv_totalQty := dec_sub (lv_totalQty v) n\<rparr>) (set_order (int k) (hit n) b)"

lemma hit_fun: "hit n = (\<lambda>r. r\<lparr>ro_leaves := dec_sub (ro_leaves r) n, ro_cumQty := dec_add (ro_cumQty r) n\<rparr>)"
  by (rule ext) (simp add: hit_def)

lemma set_order_cong: "f (ord b k) = g (ord b k) \<Longrightarrow> set_order (int k) f b = set_order (int k) g b"
  by (simp add: set_order_def set_node_def)

lemma set_order_refill:
  "set_order (int k) (\<lambda>r. r\<lparr>ro_leaves := (if ro_peak (ord b k) < ro_hidden (ord b k) then ro_peak (ord b k) else ro_hidden (ord b k)),
      ro_hidden := dec_sub (ro_hidden r) (if ro_peak (ord b k) < ro_hidden (ord b k) then ro_peak (ord b k) else ro_hidden (ord b k))\<rparr>) b
    = set_order (int k) refill b"
  by (rule set_order_cong) (simp add: refill_def Let_def)

lemma consume_unfold:
  assumes "find_node b i = int k" "nd_side (lb_nodes b ! k) = s" "nd_level (lb_nodes b ! k) = int l"
  shows "lad_consumeById b i n =
    (if ro_leaves (ord (bitten s l k n b) k) \<noteq> 0 then bitten s l k n b
     else if ro_hidden (ord (bitten s l k n b) k) \<noteq> 0
     then moveToTail s (int l) (int k) (set_order (int k) refill (bitten s l k n b))
     else take_down (int k) i (bitten s l k n b))"
  using assms unfolding lad_consumeById_def Let_def
  by (simp only: hit_fun [symmetric] node_at_int bitten_def [symmetric] set_order_refill if_False of_nat_less_0_iff)

lemma fill_unfold:
  assumes "best_level_of b s = int l" "lv_head (levels_of b s ! l) = int k"
  shows "lad_fillBest b s n =
    (if ro_leaves (ord (bitten s l k n b) k) \<noteq> 0 then bitten s l k n b
     else if ro_hidden (ord (bitten s l k n b) k) \<noteq> 0
     then requeueFrontToTail s (int l) (int k) (set_order (int k) refill (bitten s l k n b))
     else take_down (int k) (ro_id (ord (bitten s l k n b) k)) (bitten s l k n b))"
  using assms unfolding lad_fillBest_def Let_def
  by (simp only: hit_fun [symmetric] node_at_int levelRef_int bitten_def [symmetric] set_order_refill if_False of_nat_less_0_iff)

lemma bitten_shape: "same_shape b (bitten s l k n b)"
  unfolding bitten_def by (rule same_shape_trans [OF set_order_shape set_level_shape]) simp_all

lemma refill_shape: "same_shape b (set_order (int k) refill b)"
  by (rule set_order_shape) simp_all

lemma ord_bitten: "k < nlen b \<Longrightarrow> ord (bitten s l k n b) j = (if j = k then hit n (ord b k) else ord b j)"
  using ord_set_order [of k b "hit n" j] by (simp add: bitten_def)

lemma lad_consume_law:
  assumes i: "lad_inv c b" and r: "r \<in> set (lad_orders b s)" and n: "0 < n" "n \<le> ro_leaves r"
  shows "lad_inv c (lad_consumeById b (ro_id r) n)
    \<and> lad_orders (lad_consumeById b (ro_id r) n) s = spec_consume s (ro_id r) n (lad_orders b s)
    \<and> lad_orders (lad_consumeById b (ro_id r) n) (opposite s) = lad_orders b (opposite s)"
proof -
  obtain q fl where rp: "rep c b q fl" using i by (auto simp: lad_inv_def)
  note so = lad_inv_side [OF i] and ds = lad_inv_ids [OF i]
  obtain k l where k: "r = ord b k" "k \<in> set (q s l)" "k \<in> live b" "k < nlen b" "l < lc_numLevels c"
    "nd_side (lb_nodes b ! k) = s" "nd_level (lb_nodes b ! k) = int l" using rep_member [OF rp r] .
  let ?b = "lad_consumeById b (ro_id r) n"
  have f: "find_node b (ro_id r) = int k" using rep_find(1) [OF rp k(3)] k(1) by simp
  define b2 where "b2 = bitten s l k n b"
  have sh: "same_shape b b2" unfolding b2_def by (rule bitten_shape)
  have o2: "ord b2 j = (if j = k then hit n r else ord b j)" for j
    using ord_bitten [OF k(4)] k(1) by (simp add: b2_def)
  note rp2 = rep_same_shape [OF rp sh]
  have n2: "nlen b2 = nlen b" "live b2 = live b" using sh same_live by (auto simp: same_shape_def)
  define b3 where "b3 = set_order (int k) refill b2"
  have e: "?b = (if ro_leaves (hit n r) \<noteq> 0 then b2
      else if ro_hidden (hit n r) \<noteq> 0 then moveToTail s (int l) (int k) b3 else take_down (int k) (ro_id r) b2)"
    using consume_unfold [OF f k(6,7), of n] o2 [of k] unfolding b2_def [symmetric] b3_def [symmetric] by simp
  have sh3: "same_shape b b3" unfolding b3_def by (rule same_shape_trans [OF sh refill_shape])
  have o3: "ord b3 j = (if j = k then refill (hit n r) else ord b j)" for j
    using ord_set_order [of k b2 refill j] k(4) n2 o2 by (simp add: b3_def)
  have main: "(\<exists>q' fl'. rep c ?b q' fl') \<and> lad_orders ?b s = spec_consume s (ro_id r) n (lad_orders b s)
      \<and> lad_orders ?b (opposite s) = lad_orders b (opposite s)"
    using so [of s] ds [of s] r refl n
  proof (cases rule: spec_consume_cases)
    case partial
    then have "ro_leaves (hit n r) \<noteq> 0" using hit_leaves [of r n] side_ok_wf [OF so r] n by simp
    then have b: "?b = b2" using e by simp
    have "\<forall>j \<in> live b. ord b2 j = (if j = k then hit n (ord b k) else ord b j)" using o2 k(1) by simp
    from orders_replaced [where f = "hit n", OF rp k(3) sh this]
    have o: "lad_orders b2 sd = spec_replace (ro_id r) (hit n) (lad_orders b sd)" for sd using k(1) by simp
    then show ?thesis unfolding b using rp2 partial(2) lad_opposite_absent [OF i r] by (auto simp: spec_replace_absent)
  next
    case next_peak
    then have "ro_leaves (hit n r) = 0" "ro_hidden (hit n r) \<noteq> 0" using hit_leaves [of r n] side_ok_wf [OF so r] n by simp_all
    then have b: "?b = moveToTail s (int l) (int k) b3" using e by simp
    note mv = rep_moveToTail [OF rep_same_shape [OF rp sh3] k(2)]
    have "nlen b3 = nlen b" using sh3 by (simp add: same_shape_def)
    then have o: "\<forall>j \<in> live b. ord ?b j = (if j = k then refill (hit n r) else ord b j)"
      unfolding b using mv(2) o3 by (auto simp: live_def)
    have "ro_price (refill (hit n r)) = ro_price (ord b k)" using k(1) by simp
    from orders_requeued [OF rp k(2) mv(1) [folded b] o this] show ?thesis
      using mv(1) next_peak(4) k(1) unfolding b by auto
  next
    case gone
    then have "ro_leaves (hit n r) = 0" "ro_hidden (hit n r) = 0" using hit_leaves [of r n] side_ok_wf [OF so r] n by simp_all
    then have b: "?b = take_down (int k) (ro_id (ord b2 k)) b2" using e o2 [of k] by simp
    note td = rep_take_down [OF rp2 k(2)]
    have "\<forall>j \<in> live b. j \<noteq> k \<longrightarrow> ord ?b j = ord b j" unfolding b using td(2) o2 n2 by (auto simp: live_def)
    from orders_removed [OF rp k(2) td(1) [folded b] this]
    have o: "lad_orders ?b sd = spec_remove (ro_id r) (lad_orders b sd)" for sd using k(1) by simp
    then show ?thesis using td(1) gone(3) lad_opposite_absent [OF i r] unfolding b by (auto simp: spec_remove_absent)
  qed
  moreover have "side_ok s (spec_consume s (ro_id r) n (lad_orders b s))" using side_ok_consume [OF so ds r refl n] by blast
  ultimately have "side_ok sd (lad_orders ?b sd)" for sd using side_ok_both [of s "lad_orders ?b" sd] so by simp
  then show ?thesis using main lad_invI by blast
qed

lemma fill_is_consume:
  assumes i: "lad_inv c b" and o: "lad_orders b s = r # rs"
  shows "lad_fillBest b s n = lad_consumeById b (ro_id r) n"
proof -
  obtain q fl where rp: "rep c b q fl" using i by (auto simp: lad_inv_def)
  from rp show ?thesis
  proof (cases rule: rep_best [where s = s])
    case none
    then show ?thesis using o by simp
  next
    case (best l ns rest)
    then obtain k ks where n: "ns = k # ks" by (cases ns) auto
    have k: "k \<in> set (q s l)" "r = ord b k" using best n o by auto
    note kl = rep_queue_live [OF rp k(1)]
    have h: "lv_head (levels_of b s ! l) = int k" using rep_head [OF rp best(2), of s] best(3) n by simp
    have f: "find_node b (ro_id r) = int k" using rep_find(1) [OF rp kl(1)] k(2) by simp
    have rq: "requeueFrontToTail s (int l) (int k) b' = moveToTail s (int l) (int k) b'" if "same_shape b b'" for b'
      using requeue_is_move [OF rep_same_shape [OF rp that]] best(3) n by blast
    have "ro_id (ord (bitten s l k n b) k) = ro_id r" using ord_bitten [OF kl(5), of s l n k] k(2) by simp
    then show ?thesis
      unfolding fill_unfold [OF best(1) h, of n] consume_unfold [OF f kl(2,3), of n]
        rq [OF same_shape_trans [OF bitten_shape refill_shape]] by simp
  qed
qed

lemma lad_add_law:
  assumes i: "lad_inv c b" and w: "wf_order r" "ro_side r = s" and g: "lad_grid c (ro_price r)"
    and fr: "\<not> lad_contains b (ro_id r)" and a: "lad_addResting b s r = (ans, b')"
  shows "lad_inv c b' \<and> lad_orders b' (opposite s) = lad_orders b (opposite s)
    \<and> lad_orders b' s = (if ans = Accepted then spec_insert s r (lad_orders b s) else lad_orders b s)
    \<and> (ans = Accepted \<longleftrightarrow> lad_canRest b (ro_price r) \<and> \<not> lad_full b)"
proof -
  obtain q fl where rp: "rep c b q fl" using i by (auto simp: lad_inv_def)
  note so = lad_inv_side [OF i] and ds = lad_inv_ids [OF i]
  have c: "lb_base b = lc_basePriceRaw c" "lb_tick b = lc_tickRaw c" "lb_numLevels b = lc_numLevels c" "0 < lc_tickRaw c"
    "lb_idxCap b = cap_of c" "nlen b = lc_maxOrders c" using rp by (auto simp: rep_def cfg_ok_def)
  let ?lvl = "levelOf b (ro_price r)"
  show ?thesis
  proof (cases "?lvl < 0 \<or> int (lb_numLevels b) \<le> ?lvl")
    case True
    then show ?thesis using a i by (auto simp: lad_addResting_def lad_canRest_def Let_def)
  next
    case band: False
    have fl: "flist (lb_nodes b) (lb_freeHead b) fl" using rp by (auto simp: rep_def pool_ok_def)
    show ?thesis
    proof (cases fl)
      case Nil
      then have "lb_freeHead b = -1" using fl by simp
      then show ?thesis using a i band by (auto simp: lad_addResting_def allocNode_def lad_full_def Let_def)
    next
      case (Cons n fl')
      then have h: "lb_freeHead b = int n" "n < nlen b" using fl by auto
      obtain l where l: "?lvl = int l" "l < lc_numLevels c" using band c(3) by (metis nat_0_le not_le of_nat_less_iff linorder_not_less)
      have price: "ro_price r = level_price (lc_basePriceRaw c) (lc_tickRaw c) l"
      proof -
        have "floorDiv (ro_price r - lb_base b) (lb_tick b) = int l" using l band by (simp add: levelOf_def Let_def split: if_splits)
        then have "(ro_price r - lc_basePriceRaw c) div lc_tickRaw c = int l" using c by (simp add: floorDiv_div)
        then have "ro_price r - lc_basePriceRaw c = int l * lc_tickRaw c"
          using g dvd_div_mult_self [of "lc_tickRaw c" "ro_price r - lc_basePriceRaw c"] by (simp add: lad_grid_def)
        then show ?thesis by (simp add: level_price_def)
      qed
      have fresh: "\<forall>k \<in> live b. ro_id (ord b k) \<noteq> ro_id r"
      proof
        fix k assume "k \<in> live b"
        then show "ro_id (ord b k) \<noteq> ro_id r" using fr rep_find(1) [OF rp, of k] by (auto simp: lad_contains_def)
      qed
      have io: "table_ok (cap_of c) (lb_idx b)" "card (occ_set (lb_idx b)) = card (live b)" "length (lb_idx b) = cap_of c"
        "\<And>i m. table_holds (lb_idx b) i m \<longleftrightarrow> (\<exists>k \<in> live b. m = int k \<and> ro_id (ord b k) = i)"
        using rp by (auto simp: rep_def ids_ok_def table_ok_def)
      have "card (live b) \<le> lc_maxOrders c" using card_mono [of "{..<nlen b}" "live b"] c(6) by (auto simp: live_def)
      moreover have "lc_maxOrders c * 2 + 1 \<le> cap_of c" using idxCapFrom_ok by (simp add: cap_of_def)
      moreover have "0 < lc_maxOrders c" using h(2) c(6) by simp
      ultimately have room: "card (occ_set (lb_idx b)) + 1 < length (lb_idx b)" using io(2,3) by simp
      obtain ok t where ins: "insertSlot (lb_idx b) (lb_idxCap b) (ro_id r) (int n) = (ok, t)" by (rule prod.exhaust)
      have "\<forall>n. \<not> table_holds (lb_idx b) (ro_id r) n" using io(4) fresh by blast
      from oat.insert_law [OF io(1) this room ins [unfolded c(5)]]
      have t: ok "table_ok (cap_of c) t" "card (occ_set t) = card (occ_set (lb_idx b)) + 1"
        "\<forall>j m. table_holds t j m \<longleftrightarrow> table_holds (lb_idx b) j m \<or> (j = ro_id r \<and> m = int n)" by auto
      let ?b0 = "b\<lparr>lb_freeHead := nd_nextFree (lb_nodes b ! n), lb_count := lb_count b + 1, lb_idx := t\<rparr>"
      have r1: "ans = Accepted" "b' = link_tail s (int l) (int n) r ?b0"
        using a band l h ins t(1) by (simp_all add: lad_addResting_def allocNode_def Let_def)
      have ins': "insertSlot (lb_idx b) (lb_idxCap b) (ro_id r) (int n) = (True, t)" using ins t(1) by simp
      note lk = rep_link_tail [OF rp [unfolded Cons] l(2) w(2) price fresh ins' t(2-4) refl]
      have nq: "n \<notin> set (q sd m)" for sd m
        using rp Cons rep_queue_live(1) [OF rp] unfolding rep_def pool_ok_def live_def by fastforce
      have ol: "ord b' k = ord b k" if "k \<in> set (q sd m)" for k sd m
        using lk(2) rep_queue_live(5) [OF rp that] nq that r1(2) by metis
      have on: "ord b' n = r" using lk(2) h(2) r1(2) by simp
      have s1: "lad_orders b' s = spec_insert s r (lad_orders b s)"
      proof -
        have "map (ord b') (set_queue q s l (q s l @ [n]) s m) = ((\<lambda>m. map (ord b) (q s m))(l := map (ord b) (q s l) @ [r])) m" for m
          using ol on by auto
        then have "lad_orders b' s = grid_orders s (lc_numLevels c) ((\<lambda>m. map (ord b) (q s m))(l := map (ord b) (q s l) @ [r]))"
          unfolding rep_orders [OF lk(1) [folded r1(2)]] by (intro grid_cong) blast
        then show ?thesis
          using grid_insert [OF rep_priced [OF rp] c(4) l(2) price] unfolding rep_orders [OF rp] by simp
      qed
      have s2: "lad_orders b' (opposite s) = lad_orders b (opposite s)"
      proof -
        have "map (ord b') (set_queue q s l (q s l @ [n]) (opposite s) m) = map (ord b) (q (opposite s) m)" for m
          using ol by (cases s) auto
        then show ?thesis unfolding rep_orders [OF lk(1) [folded r1(2)]] rep_orders [OF rp] by (intro grid_cong)
      qed
      have "side_ok sd (lad_orders b' sd)" for sd
        using side_ok_both [of s "lad_orders b'" sd] s1 s2 so side_ok_insert [OF so w] by simp
      then have "lad_inv c b'" using lad_invI [OF lk(1) [folded r1(2)]] by blast
      then show ?thesis using s1 s2 r1(1) band h(1) by (auto simp: lad_canRest_def lad_full_def Let_def)
    qed
  qed
qed

subsection \<open>The interpretation\<close>

lemma best_of_side: "best_level_of b BUY = lb_bestBidLevel b" "best_level_of b SELL = lb_bestAskLevel b"
  by (simp_all add: best_level_of_def)

lemma each_order_orders: "lad_forEachOrder b = lad_orders b BUY @ lad_orders b SELL"
  by (simp add: lad_forEachOrder_def lad_orders_def)

interpretation lad: resting_book lad_ops "lad_inv c" lad_orders "\<lambda>b. lad_limit_ok c" "lad_grid c" for c
proof
  fix b s limit mk
  assume "lad_inv c b" "lad_limit_ok c (opposite s) limit \<or> mk"
  then show "bk_within lad_ops b (opposite s) limit mk
      = takeWhile (\<lambda>x. within_limit (opposite s) limit mk (ro_price x)) (lad_orders b s)"
    using lad_within_law by (auto simp: lad_ops_def lad_inv_def)
next
  fix b r s ans b'
  assume "lad_inv c b" "wf_order r" "r = r\<lparr>ro_side := s\<rparr>" "lad_grid c (ro_price r)" "\<not> bk_contains lad_ops b (ro_id r)"
    "bk_addResting lad_ops b s r = (ans, b')"
  moreover from this(3) have "ro_side r = s" by (metis resting_order.select_convs(5) resting_order.surjective resting_order.update_convs(5))
  ultimately show "lad_inv c b' \<and> lad_orders b' (opposite s) = lad_orders b (opposite s)
      \<and> lad_orders b' s = (if ans = Accepted then spec_insert s r (lad_orders b s) else lad_orders b s)"
    using lad_add_law [of c b r s ans b'] by (simp add: lad_ops_def)
next
  fix b s r rs q
  assume a: "lad_inv c b" "lad_orders b s = r # rs" "0 < q" "q \<le> ro_leaves r"
  then show "lad_inv c (bk_fillBest lad_ops b s q)
      \<and> lad_orders (bk_fillBest lad_ops b s q) s = spec_consume s (ro_id r) q (lad_orders b s)
      \<and> lad_orders (bk_fillBest lad_ops b s q) (opposite s) = lad_orders b (opposite s)"
    using lad_consume_law [OF a(1), of r s q] fill_is_consume [OF a(1,2)] by (simp add: lad_ops_def)
next
  fix b assume "lad_inv c b"
  then obtain q fl where r: "rep c b q fl" by (auto simp: lad_inv_def)
  show "bk_bestBid lad_ops b = map_option ro_price (bk_peekBest lad_ops b BUY)
      \<and> bk_bestAsk lad_ops b = map_option ro_price (bk_peekBest lad_ops b SELL)"
    using lad_touch_law [OF r, of BUY] lad_touch_law [OF r, of SELL]
    unfolding best_of_side by (simp add: lad_ops_def lad_bestBid_def lad_bestAsk_def)
next
  fix b s assume "lad_inv c b"
  then show "bk_peekBest lad_ops b s = (case lad_orders b s of [] \<Rightarrow> None | r # rs \<Rightarrow> Some r)"
    using lad_peek_law by (auto simp: lad_ops_def lad_inv_def)
next
  fix b s assume "lad_inv c b"
  then show "bk_bestLevel lad_ops b s =
      (case lad_orders b s of [] \<Rightarrow> [] | r # rs \<Rightarrow> takeWhile (\<lambda>x. ro_price x = ro_price r) (r # rs))"
    using lad_level_law by (auto simp: lad_ops_def lad_inv_def simp del: takeWhile.simps)
next
  fix b i assume "lad_inv c b"
  then show "bk_contains lad_ops b i \<longleftrightarrow> i \<in> ro_id ` (set (lad_orders b BUY) \<union> set (lad_orders b SELL))"
    using rep_found(2) by (auto simp: lad_ops_def lad_inv_def simp del: image_Un)
next
  fix b i assume "lad_inv c b"
  then show "bk_find lad_ops b i = spec_find i (lad_orders b BUY @ lad_orders b SELL)"
    using rep_found(1) by (auto simp: lad_ops_def lad_inv_def)
qed (simp_all add: lad_ops_def lad_inv_book_ok lad_consume_law lad_cancel_law lad_trim_law each_order_orders)

subsection \<open>Capacity\<close>

lemma full_iff:
  assumes "lad_inv c b"
  shows "lad_full b \<longleftrightarrow> length (lad_orders b BUY) + length (lad_orders b SELL) = lc_maxOrders c"
    "length (lad_orders b BUY) + length (lad_orders b SELL) \<le> lc_maxOrders c"
proof -
  obtain q fl where r: "rep c b q fl" using assms by (auto simp: lad_inv_def)
  have n: "nlen b = lc_maxOrders c" using r by (simp add: rep_def cfg_ok_def)
  have f: "flist (lb_nodes b) (lb_freeHead b) fl" "distinct fl" "\<And>k. k \<in> set fl \<longleftrightarrow> k < nlen b \<and> nd_level (lb_nodes b ! k) = -1"
    using r by (auto simp: rep_def pool_ok_def)
  let ?s = "\<lambda>s. {k \<in> live b. nd_side (lb_nodes b ! k) = s}"
  have "length (lad_orders b s) = card (?s s)" for s
    using rep_nodes [OF r] by (metis distinct_card length_map)
  moreover have "card (live b) = card (?s BUY) + card (?s SELL)"
  proof -
    have "live b = ?s BUY \<union> ?s SELL" using side.exhaust by blast
    moreover have "card (?s BUY \<union> ?s SELL) = card (?s BUY) + card (?s SELL)" by (rule card_Un_disjoint) auto
    ultimately show ?thesis by simp
  qed
  moreover have "card (live b) + length fl = lc_maxOrders c"
  proof -
    have "live b \<union> set fl = {..<nlen b}" "live b \<inter> set fl = {}" using f(3) by (auto simp: live_def)
    then have "card (live b) + card (set fl) = nlen b" using card_Un_disjoint [of "live b" "set fl"] by simp
    then show ?thesis using distinct_card [OF f(2)] n by simp
  qed
  moreover have "lad_full b \<longleftrightarrow> fl = []" using f(1) by (cases fl) (auto simp: lad_full_def)
  ultimately show "lad_full b \<longleftrightarrow> length (lad_orders b BUY) + length (lad_orders b SELL) = lc_maxOrders c"
    "length (lad_orders b BUY) + length (lad_orders b SELL) \<le> lc_maxOrders c" by auto
qed

lemma canRest_iff:
  assumes "lad_inv c b" "lad_grid c p"
  shows "lad_canRest b p \<longleftrightarrow> lc_basePriceRaw c \<le> p \<and> p < level_price (lc_basePriceRaw c) (lc_tickRaw c) (lc_numLevels c)"
proof -
  have c: "lb_base b = lc_basePriceRaw c" "lb_tick b = lc_tickRaw c" "lb_numLevels b = lc_numLevels c" "0 < lc_tickRaw c"
    using assms(1) by (auto simp: lad_inv_def rep_def cfg_ok_def)
  obtain m where m: "p - lc_basePriceRaw c = m * lc_tickRaw c" using assms(2) by (metis lad_grid_def dvdE mult.commute)
  then have "floorDiv (p - lb_base b) (lb_tick b) = m" using c by (simp add: floorDiv_div)
  then have "lad_canRest b p \<longleftrightarrow> 0 \<le> m \<and> m < int (lc_numLevels c)"
    using c(3) by (auto simp: lad_canRest_def levelOf_def Let_def)
  moreover have "0 \<le> m \<longleftrightarrow> 0 \<le> m * lc_tickRaw c" using c(4) by (simp add: zero_le_mult_iff)
  moreover have "m < int (lc_numLevels c) \<longleftrightarrow> m * lc_tickRaw c < int (lc_numLevels c) * lc_tickRaw c" using c(4) by simp
  ultimately show ?thesis using m by (simp add: level_price_def) linarith
qed

definition in_band :: "ladder_config \<Rightarrow> int \<Rightarrow> bool" where
  "in_band c p \<longleftrightarrow> lc_basePriceRaw c \<le> p \<and> p < level_price (lc_basePriceRaw c) (lc_tickRaw c) (lc_numLevels c)"

definition ladder_accepts :: "ladder_config \<Rightarrow> (side \<Rightarrow> resting_order list) \<Rightarrow> book_cmd \<Rightarrow> bool" where
  "ladder_accepts c ob cmd = (case cmd of
      CmdAdd s r \<Rightarrow> in_band c (ro_price r) \<and> length (ob BUY) + length (ob SELL) < lc_maxOrders c | _ \<Rightarrow> True)"

definition ladder_spec :: "ladder_config \<Rightarrow> book_cmd \<Rightarrow> (side \<Rightarrow> resting_order list) \<Rightarrow> side \<Rightarrow> resting_order list" where
  "ladder_spec c cmd ob = spec_exec (ladder_accepts c ob cmd) cmd ob"

fun ladder_run_ok :: "ladder_config \<Rightarrow> (side \<Rightarrow> resting_order list) \<Rightarrow> book_cmd list \<Rightarrow> bool" where
  "ladder_run_ok c ob [] \<longleftrightarrow> True"
| "ladder_run_ok c ob (cmd # cs) \<longleftrightarrow> cmd_ok ob cmd \<and> (case cmd of CmdAdd s r \<Rightarrow> lad_grid c (ro_price r) | _ \<Rightarrow> True)
     \<and> ladder_run_ok c (ladder_spec c cmd ob) cs"

lemma ladder_step:
  assumes "lad_inv c b" "cmd_ok (lad_orders b) cmd" "case cmd of CmdAdd s r \<Rightarrow> lad_grid c (ro_price r) | _ \<Rightarrow> True"
  shows "lad_inv c (bk_exec lad_ops cmd b) \<and> lad_orders (bk_exec lad_ops cmd b) = ladder_spec c cmd (lad_orders b)"
proof -
  have "(case cmd of CmdAdd s r \<Rightarrow> fst (bk_addResting lad_ops b s r) = Accepted | _ \<Rightarrow> True) = ladder_accepts c (lad_orders b) cmd"
  proof (cases cmd)
    case (CmdAdd s r)
    have a: "wf_order r" "ro_side r = s" "lad_grid c (ro_price r)" "\<not> lad_contains b (ro_id r)"
      using assms CmdAdd lad.contains [OF assms(1), of "ro_id r"] by (auto simp: book_ids_def lad_ops_def)
    have "fst (lad_addResting b s r) = Accepted \<longleftrightarrow> lad_canRest b (ro_price r) \<and> \<not> lad_full b"
      using lad_add_law [OF assms(1) a, of "fst (lad_addResting b s r)" "snd (lad_addResting b s r)"] by simp
    then show ?thesis using CmdAdd full_iff [OF assms(1)] canRest_iff [OF assms(1) a(3)]
      by (auto simp: ladder_accepts_def in_band_def lad_ops_def)
  qed (simp_all add: ladder_accepts_def)
  then show ?thesis using lad.exec_refines [OF assms] by (simp add: ladder_spec_def)
qed

lemma ladder_run:
  assumes "lad_inv c b" "ladder_run_ok c (lad_orders b) cs"
  shows "lad_inv c (fold (bk_exec lad_ops) cs b) \<and> lad_orders (fold (bk_exec lad_ops) cs b) = fold (ladder_spec c) cs (lad_orders b)"
  using assms
proof (induction cs arbitrary: b)
  case (Cons cmd cs)
  have "lad_inv c (bk_exec lad_ops cmd b) \<and> lad_orders (bk_exec lad_ops cmd b) = ladder_spec c cmd (lad_orders b)"
    using ladder_step [of c b cmd] Cons.prems by simp
  then show ?case using Cons by simp
qed simp

lemma new_ladder_inv:
  assumes "0 < lc_tickRaw c" "0 < lc_numLevels c"
  shows "lad_inv c (new_ladder c)" "lad_orders (new_ladder c) = (\<lambda>s. [])"
proof -
  note r = rep_new [OF assms]
  show o: "lad_orders (new_ladder c) = (\<lambda>s. [])" by (rule ext) (simp add: rep_orders [OF r] grid_orders_def)
  show "lad_inv c (new_ladder c)" using r by (auto simp: lad_inv_def o)
qed

end
