(* ===== verification/LadderClaims.thy ===== *)
theory LadderClaims
  imports LadderProps MatchingBook
begin

section \<open>What the ladder book promises\<close>

text \<open>
  The refinement of the ladder book to the price-time specification, and the two places where
  its answers depart from those of the reference book: the aggregated depth after a total
  reduction, and the liquidity counted for a seller whose limit is off the grid.
\<close>

subsection \<open>A small desk\<close>

definition desk_order :: "nat \<Rightarrow> side \<Rightarrow> int \<Rightarrow> int \<Rightarrow> int \<Rightarrow> resting_order" where
  "desk_order i s p l h = \<lparr>ro_id = i, ro_accountId = 5, ro_price = p, ro_leaves = l, ro_side = s, ro_hidden = h,
     ro_peak = l, ro_lastLook = False, ro_reduceOnly = False, ro_postOnly = False, ro_clientOrderId = 0,
     ro_cumQty = 0\<rparr>"

definition desk_config :: ladder_config where
  "desk_config = \<lparr>lc_basePriceRaw = 100, lc_tickRaw = 10, lc_numLevels = 3, lc_maxOrders = 2\<rparr>"

subsection \<open>Properties\<close>

text \<open>
  C8. The ladder is its specification: after any sequence of admissible commands (prices on
  the grid) from a new ladder, the two sides, read through bitmaps, cursors, linked levels and
  node pool, are exactly the lists the specification prescribes, an addition being accepted
  exactly when its price is in the band and the pool is not full; \<^verbatim>\<open>find\<close> and \<^verbatim>\<open>contains\<close>
  answer from them, and \<^verbatim>\<open>peekBest\<close> is the head of its side.
\<close>

theorem ladder_book_refines:
  assumes "0 < lc_tickRaw c" "0 < lc_numLevels c" and "ladder_run_ok c (\<lambda>s. []) cs"
  defines "b \<equiv> fold (bk_exec lad_ops) cs (new_ladder c)" and "ob \<equiv> fold (ladder_spec c) cs (\<lambda>s. [])"
  shows "lad_inv c b \<and> lad_forEachOrder b = ob BUY @ ob SELL
    \<and> lad_find b i = spec_find i (ob BUY @ ob SELL) \<and> (lad_contains b i \<longleftrightarrow> spec_find i (ob BUY @ ob SELL) \<noteq> None)
    \<and> lad_peekBest b s = (case ob s of [] \<Rightarrow> None | r # rs \<Rightarrow> Some r)"
proof -
  note n = new_ladder_inv [OF assms(1,2)]
  have i: "lad_inv c b" and o: "lad_orders b = ob"
    using ladder_run [OF n(1), of cs] assms(3) unfolding n(2) b_def ob_def by auto
  show ?thesis
    using i lad.found [OF i, of i] lad.each [OF i] lad.peek [OF i, of s] lad.contains [OF i, of i]
    by (simp add: o lad_ops_def spec_find_None image_Un)
qed

theorem ladder_book_refines_witness:
  "lad_forEachOrder (fold (bk_exec lad_ops) [CmdAdd SELL (desk_order 1 SELL 110 2 3), CmdFill SELL 2,
      CmdAdd BUY (desk_order 2 BUY 130 1 0), CmdCancel 9] (new_ladder desk_config))
   = [(desk_order 1 SELL 110 2 1)\<lparr>ro_cumQty := 2\<rparr>]"
proof -
  let ?cs = "[CmdAdd SELL (desk_order 1 SELL 110 2 3), CmdFill SELL 2, CmdAdd BUY (desk_order 2 BUY 130 1 0), CmdCancel 9]"
  have "ladder_run_ok desk_config (\<lambda>s. []) ?cs" by code_simp
  moreover have "0 < lc_tickRaw desk_config" "0 < lc_numLevels desk_config" by (simp_all add: desk_config_def)
  moreover have "fold (ladder_spec desk_config) ?cs (\<lambda>s. []) BUY @ fold (ladder_spec desk_config) ?cs (\<lambda>s. []) SELL
      = [(desk_order 1 SELL 110 2 1)\<lparr>ro_cumQty := 2\<rparr>]" by code_simp
  ultimately show ?thesis using ladder_book_refines [of desk_config ?cs] by simp
qed

text \<open>
  The aggregated depth of the ladder over-reports after a total reduction that only cuts
  the hidden part: \<^verbatim>\<open>reduceTotal\<close> leaves the level's \<^verbatim>\<open>totalQty\<close> as it was, so
  \<^verbatim>\<open>levels\<close> shows five where the resting order, and the reference book, hold three.
\<close>

theorem ladder_depth_overreports:
  "lad_levels (fold (bk_exec lad_ops) [CmdAdd SELL (desk_order 1 SELL 100 2 3), CmdTrim 1 3] (new_ladder desk_config)) SELL
     = [(100, 5)]
   \<and> mb_levels (fold (bk_exec mb_ops) [CmdAdd SELL (desk_order 1 SELL 100 2 3), CmdTrim 1 3] mb_empty_book) SELL
     = [(100, 3)]
   \<and> map total_qty (lad_forEachOrder (fold (bk_exec lad_ops) [CmdAdd SELL (desk_order 1 SELL 100 2 3), CmdTrim 1 3]
        (new_ladder desk_config))) = [3]"
  by (intro conjI; code_simp)

text \<open>
  For a seller whose limit is between two levels of the ladder the limit is rounded down
  to the lower level, so the liquidity within the limit (with and without exclusions) counts
  bids below it: four where the reference book counts two.
\<close>

theorem ladder_within_off_grid:
  "let cs = [CmdAdd BUY (desk_order 1 BUY 100 2 0), CmdAdd BUY (desk_order 2 BUY 110 2 0)];
       b = fold (bk_exec lad_ops) cs (new_ladder desk_config)
   in fst (availableWithinExcl lad_ops b SELL 105 False (\<lambda>m u. (False, u)) ()) = 4
     \<and> lad_availableWithin b SELL 105 False = 4
     \<and> fst (availableWithinExcl mb_ops (fold (bk_exec mb_ops) cs mb_empty_book) SELL 105 False (\<lambda>m u. (False, u)) ()) = 2"
  unfolding Let_def by (intro conjI; code_simp)

end
