(* ===== verification/Agreement.thy ===== *)
theory Agreement
  imports Conform LadderClaims
begin

section \<open>Two books, one execution\<close>

text \<open>
  The ladder and the reference book under the same matcher. Both are \<open>resting_book\<close>s, so by
  \<open>cross_view\<close> each cross is the cross over the abstract book its orders describe; on equal
  orders the two are therefore equal.
\<close>

fun ladder_all_accepted :: "ladder_config \<Rightarrow> (side \<Rightarrow> resting_order list) \<Rightarrow> book_cmd list \<Rightarrow> bool" where
  "ladder_all_accepted c ob [] \<longleftrightarrow> True"
| "ladder_all_accepted c ob (cmd # cs) \<longleftrightarrow> ladder_accepts c ob cmd \<and> ladder_all_accepted c (ladder_spec c cmd ob) cs"

lemma all_accepted_spec:
  "ladder_run_ok c ob cs \<Longrightarrow> ladder_all_accepted c ob cs \<Longrightarrow>
   run_ok ob cs \<and> fold (ladder_spec c) cs ob = fold (spec_exec True) cs ob"
  by (induction cs arbitrary: ob) (auto simp: ladder_spec_def)

lemma hooks_ok_over: "hooks_ok I h \<Longrightarrow> hooks_ok J (hooks_over h)"
  by (simp add: hooks_ok_def)

lemma hooks_over_over: "hooks_over (hooks_over h) = hooks_over h"
  by (simp add: hooks_over_def)

lemma mb_orders_empty: "mb_orders mb_empty_book = (\<lambda>s. [])"
  by (rule ext) (simp add: mb_orders_def mb_side_def mb_empty_book_def split: side.splits)

lemma cross_agrees:
  assumes "lad_inv c bl" "mb_inv bm" "lad_orders bl = mb_orders bm" "hooks_ok (lad_inv c) h" "hk_restingHolds h = None"
    and "0 \<le> no_quantity taker" "no_quantity taker \<le> i64_max"
    and "no_tif taker = FOK \<longrightarrow> lad_limit_ok c (no_side taker) (no_price taker) \<or> no_type taker = MARKET"
  shows "map_option (map_prod id (sweep_over lad_orders)) (cross lad_ops h taker bl e mt prior)
    = map_option (map_prod id (sweep_over mb_orders)) (cross mb_ops (hooks_over h) taker bm e mt prior)"
proof -
  note lad_book = lad.resting_book_axioms [of c]
  show ?thesis
    using resting_book.cross_view [OF lad_book assms(1,4-8), of e mt prior]
      mbk.cross_view [OF assms(2) hooks_ok_over [OF assms(4)], of taker e mt prior] assms(3,6,7)
    by (simp add: resting_book.view_def [OF lad_book] mbk.view_def hooks_over_over)
qed

lemma books_agree:
  assumes "0 < lc_tickRaw c" "0 < lc_numLevels c" "ladder_run_ok c (\<lambda>s. []) cs" "ladder_all_accepted c (\<lambda>s. []) cs"
  shows "lad_inv c (fold (bk_exec lad_ops) cs (new_ladder c))" "mb_inv (fold (bk_exec mb_ops) cs mb_empty_book)"
    and "lad_orders (fold (bk_exec lad_ops) cs (new_ladder c)) = mb_orders (fold (bk_exec mb_ops) cs mb_empty_book)"
proof -
  note n = new_ladder_inv [OF assms(1,2)]
  have l: "lad_inv c (fold (bk_exec lad_ops) cs (new_ladder c)) \<and>
      lad_orders (fold (bk_exec lad_ops) cs (new_ladder c)) = fold (ladder_spec c) cs (\<lambda>s. [])"
    using ladder_run [OF n(1), of cs] assms(3) unfolding n(2) by blast
  have "fst (bk_addResting mb_ops b s r) = Accepted" for b s r by (simp add: mb_ops_def fst_mb_addResting)
  then have m: "mb_inv (fold (bk_exec mb_ops) cs mb_empty_book) \<and>
      mb_orders (fold (bk_exec mb_ops) cs mb_empty_book) = fold (spec_exec True) cs (\<lambda>s. [])"
    using mbk.run_refines [OF mb_inv_empty, of cs] all_accepted_spec [OF assms(3,4)] by (simp add: mb_orders_empty)
  show "lad_inv c (fold (bk_exec lad_ops) cs (new_ladder c))" "mb_inv (fold (bk_exec mb_ops) cs mb_empty_book)"
    using l m by blast+
  show "lad_orders (fold (bk_exec lad_ops) cs (new_ladder c)) = mb_orders (fold (bk_exec mb_ops) cs mb_empty_book)"
    using l m all_accepted_spec [OF assms(3,4)] by simp
qed

text \<open>
  C9. The production ladder and the reference book are interchangeable under the matcher: give
  both the same admissible history, with every order accepted by the ladder, and cross the same
  incoming order (price-time or pro-rata, with any fill limits and last look, no resting-hold
  hook; a fill-or-kill seller's limit on a level of the ladder or not above its lowest, or the order a
  market order, as \<open>ladder_within_off_grid\<close> requires); the outcome, the events, the caller's state,
  the matcher's plan and counters and every resting order afterwards are the same.
\<close>

theorem ladder_execution_is_reference:
  assumes "0 < lc_tickRaw c" "0 < lc_numLevels c" "ladder_run_ok c (\<lambda>s. []) cs" "ladder_all_accepted c (\<lambda>s. []) cs"
    and "hooks_ok (lad_inv c) h" "hk_restingHolds h = None"
    and "0 \<le> no_quantity taker" "no_quantity taker \<le> i64_max"
    and "no_tif taker = FOK \<longrightarrow> lad_limit_ok c (no_side taker) (no_price taker) \<or> no_type taker = MARKET"
  shows "map_option (\<lambda>(out, st). (out, sw_events st, sw_env st, sw_mt st, lad_forEachOrder (sw_book st)))
      (cross lad_ops h taker (fold (bk_exec lad_ops) cs (new_ladder c)) e mt prior)
    = map_option (\<lambda>(out, st). (out, sw_events st, sw_env st, sw_mt st, mb_forEachOrder (sw_book st)))
      (cross mb_ops (hooks_over h) taker (fold (bk_exec mb_ops) cs mb_empty_book) e mt prior)"
proof -
  let ?f = "\<lambda>(out, st). (out, sw_events st, sw_env st, sw_mt st, sw_book st BUY @ sw_book st SELL)"
  have "map_option ?f (map_option (map_prod id (sweep_over g)) r)
      = map_option (\<lambda>(out, st). (out, sw_events st, sw_env st, sw_mt st, g (sw_book st) BUY @ g (sw_book st) SELL)) r" for g r
    by (cases r) (auto simp: split_beta)
  note proj = this [of lad_orders, symmetric] this [of mb_orders, symmetric]
  show ?thesis
    unfolding each_order_orders mb_forEachOrder_spec proj cross_agrees [OF books_agree [OF assms(1-4)] assms(5-)] ..
qed

definition plain_hooks_here :: "(ladder_book, nat) hooks" where
  "plain_hooks_here = \<lparr>hk_lastLook = None, hk_restingHolds = None, hk_restingReduced = None, hk_fillLimit = None,
     hk_fillLimitDry = None, hk_nextTradeId = (\<lambda>e. (Suc e, Suc e)), hk_sink = (\<lambda>ev e. e)\<rparr>"

theorem ladder_execution_is_reference_witness:
  "map_option (\<lambda>(out, st). (mo_filled out, lad_forEachOrder (sw_book st)))
     (cross lad_ops plain_hooks_here (sample_order BUY 110 3 FOK StpNone)
        (fold (bk_exec lad_ops) [CmdAdd SELL (desk_order 1 SELL 100 2 0), CmdAdd SELL (desk_order 2 SELL 110 2 0)]
          (new_ladder desk_config)) 0 (new_matcher PriceTimeFifo) 0)
   = Some (3, [(desk_order 2 SELL 110 2 0)\<lparr>ro_leaves := 1, ro_cumQty := 1\<rparr>])"
proof -
  let ?cs = "[CmdAdd SELL (desk_order 1 SELL 100 2 0), CmdAdd SELL (desk_order 2 SELL 110 2 0)]"
    and ?t = "sample_order BUY 110 3 FOK StpNone" and ?m = "new_matcher PriceTimeFifo"
  have a: "ladder_run_ok desk_config (\<lambda>s. []) ?cs" "ladder_all_accepted desk_config (\<lambda>s. []) ?cs" by code_simp+
  have d: "0 < lc_tickRaw desk_config" "0 < lc_numLevels desk_config" by (simp_all add: desk_config_def)
  have h: "hooks_ok (lad_inv desk_config) plain_hooks_here" "hk_restingHolds plain_hooks_here = None"
    by (simp_all add: hooks_ok_def plain_hooks_here_def)
  have "map_option (\<lambda>(out, st). (out, sw_events st, sw_env st, sw_mt st, lad_forEachOrder (sw_book st)))
      (cross lad_ops plain_hooks_here ?t (fold (bk_exec lad_ops) ?cs (new_ladder desk_config)) 0 ?m 0)
    = map_option (\<lambda>(out, st). (out, sw_events st, sw_env st, sw_mt st, mb_forEachOrder (sw_book st)))
      (cross mb_ops (hooks_over plain_hooks_here) ?t (fold (bk_exec mb_ops) ?cs mb_empty_book) 0 ?m 0)"
    by (rule ladder_execution_is_reference [OF d a h]) (simp_all add: lad_limit_ok_def i64_max_def)
  from arg_cong [OF this, of "map_option (\<lambda>(out, _, _, _, os). (mo_filled out, os))"]
  have "map_option (\<lambda>(out, st). (mo_filled out, lad_forEachOrder (sw_book st)))
      (cross lad_ops plain_hooks_here ?t (fold (bk_exec lad_ops) ?cs (new_ladder desk_config)) 0 ?m 0)
    = map_option (\<lambda>(out, st). (mo_filled out, mb_forEachOrder (sw_book st)))
      (cross mb_ops (hooks_over plain_hooks_here) ?t (fold (bk_exec mb_ops) ?cs mb_empty_book) 0 ?m 0)"
    by (simp only: option.map_comp comp_def case_prod_unfold fst_conv snd_conv)
  also have "\<dots> = Some (3, [(desk_order 2 SELL 110 2 0)\<lparr>ro_leaves := 1, ro_cumQty := 1\<rparr>])" by code_simp
  finally show ?thesis .
qed

end
