(* ===== verification/StopBook.thy ===== *)
theory StopBook
  imports Messages
begin

section \<open>The stop book\<close>

text \<open>
  \<^verbatim>\<open>StopBook\<close> of \<^verbatim>\<open>venue/include/flox-venue/stop_book.h\<close>: conditional orders parked until the
  reference price reaches their trigger. The two \<^verbatim>\<open>std::multimap\<close>s are lists sorted by their
  comparator, an equal key inserted after those already there; \<^verbatim>\<open>loc_\<close> (an \<^verbatim>\<open>unordered_map\<close>) is
  an association list. The raw differences of prices are taken on \<open>int\<close>: with prices below
  \<open>2 ^ 62\<close> they fit the source's \<^verbatim>\<open>int64_t\<close>.
\<close>

subsection \<open>Data\<close>

record pending =
  pn_order :: new_order
  pn_trigger :: int

datatype container = Up | Down | Trailing

record loc =
  lo_container :: container
  lo_trigger :: int
  lo_account :: nat
  lo_clientOrderId :: nat
  lo_quantity :: int

type_synonym multimap = "(int \<times> pending) list"

record stop_book =
  sb_up :: multimap
  sb_down :: multimap
  sb_trailing :: "pending list"
  sb_loc :: "(nat \<times> loc) list"

definition new_stop_book :: stop_book where
  "new_stop_book = \<lparr>sb_up = [], sb_down = [], sb_trailing = [], sb_loc = []\<rparr>"

subsection \<open>The multimap operations used\<close>

fun mm_emplace :: "(int \<Rightarrow> int \<Rightarrow> bool) \<Rightarrow> int \<Rightarrow> pending \<Rightarrow> multimap \<Rightarrow> multimap" where
  "mm_emplace lt k p [] = [(k, p)]"
| "mm_emplace lt k p ((k', p') # m) = (if lt k k' then (k, p) # (k', p') # m else (k', p') # mm_emplace lt k p m)"

text \<open>The part of the map before \<^verbatim>\<open>lower_bound(k)\<close>, and the part from it.\<close>

definition below :: "(int \<Rightarrow> int \<Rightarrow> bool) \<Rightarrow> int \<Rightarrow> multimap \<Rightarrow> multimap" where
  "below lt k m = takeWhile (\<lambda>(k', _). lt k' k) m"

definition from_lower_bound :: "(int \<Rightarrow> int \<Rightarrow> bool) \<Rightarrow> int \<Rightarrow> multimap \<Rightarrow> multimap" where
  "from_lower_bound lt k m = dropWhile (\<lambda>(k', _). lt k' k) m"

text \<open>Walk the entries with key \<open>k\<close> until the one of order \<open>i\<close>, and take it out.\<close>

fun erase_run :: "int \<Rightarrow> nat \<Rightarrow> multimap \<Rightarrow> multimap" where
  "erase_run k i [] = []"
| "erase_run k i ((k', p) # m) =
     (if k' \<noteq> k then (k', p) # m else if no_id (pn_order p) = i then m else (k', p) # erase_run k i m)"

fun find_run :: "int \<Rightarrow> nat \<Rightarrow> multimap \<Rightarrow> pending option" where
  "find_run k i [] = None"
| "find_run k i ((k', p) # m) =
     (if k' \<noteq> k then None else if no_id (pn_order p) = i then Some p else find_run k i m)"

definition eraseFrom :: "(int \<Rightarrow> int \<Rightarrow> bool) \<Rightarrow> multimap \<Rightarrow> int \<Rightarrow> nat \<Rightarrow> multimap" where
  "eraseFrom lt m trigger i = below lt trigger m @ erase_run trigger i (from_lower_bound lt trigger m)"

text \<open>The smallest identifier among the entries with key \<open>k\<close> (\<^verbatim>\<open>first || id < best\<close>).\<close>

fun lowest_id :: "int \<Rightarrow> nat option \<Rightarrow> multimap \<Rightarrow> nat option" where
  "lowest_id k best [] = best"
| "lowest_id k best ((k', p) # m) =
     (if k' \<noteq> k then best
      else lowest_id k (case best of None \<Rightarrow> Some (no_id (pn_order p))
                        | Some i \<Rightarrow> Some (if no_id (pn_order p) < i then no_id (pn_order p) else i)) m)"

subsection \<open>The public members\<close>

definition sb_empty :: "stop_book \<Rightarrow> bool" where
  "sb_empty b \<longleftrightarrow> sb_up b = [] \<and> sb_down b = [] \<and> sb_trailing b = []"

definition sb_contains :: "stop_book \<Rightarrow> nat \<Rightarrow> bool" where
  "sb_contains b i \<longleftrightarrow> map_of (sb_loc b) i \<noteq> None"

definition accountOf :: "stop_book \<Rightarrow> nat \<Rightarrow> nat" where
  "accountOf b i = (case map_of (sb_loc b) i of None \<Rightarrow> 0 | Some l \<Rightarrow> lo_account l)"

definition clientOrderIdOf :: "stop_book \<Rightarrow> nat \<Rightarrow> nat" where
  "clientOrderIdOf b i = (case map_of (sb_loc b) i of None \<Rightarrow> 0 | Some l \<Rightarrow> lo_clientOrderId l)"

definition quantityOf :: "stop_book \<Rightarrow> nat \<Rightarrow> int" where
  "quantityOf b i = (case map_of (sb_loc b) i of None \<Rightarrow> 0 | Some l \<Rightarrow> lo_quantity l)"

definition sb_ids :: "stop_book \<Rightarrow> nat list" where
  "sb_ids b = sort (map fst (sb_loc b))"

definition forEachPending :: "stop_book \<Rightarrow> (new_order \<times> int) list" where
  "forEachPending b = map (\<lambda>(_, p). (pn_order p, pn_trigger p)) (sb_up b)
     @ map (\<lambda>(_, p). (pn_order p, pn_trigger p)) (sb_down b)
     @ map (\<lambda>p. (pn_order p, pn_trigger p)) (sb_trailing b)"

definition loc_entry :: "container \<Rightarrow> int \<Rightarrow> new_order \<Rightarrow> loc" where
  "loc_entry c t ord = \<lparr>lo_container = c, lo_trigger = t, lo_account = no_accountId ord,
     lo_clientOrderId = no_clientOrderId ord, lo_quantity = no_quantity ord\<rparr>"

definition goes_up :: "new_order \<Rightarrow> bool" where
  "goes_up ord \<longleftrightarrow> (no_side ord = BUY) \<noteq> isTakeProfit (no_type ord)"

definition sb_add :: "new_order \<Rightarrow> int \<Rightarrow> bool \<Rightarrow> stop_book \<Rightarrow> stop_book" where
  "sb_add ord initialTrigger trailing b =
     (let p = \<lparr>pn_order = ord, pn_trigger = initialTrigger\<rparr>
      in if trailing
         then b\<lparr>sb_trailing := sb_trailing b @ [p],
                sb_loc := AList.update (no_id ord) (loc_entry Trailing initialTrigger ord) (sb_loc b)\<rparr>
         else if goes_up ord
         then b\<lparr>sb_up := mm_emplace (<) initialTrigger p (sb_up b),
                sb_loc := AList.update (no_id ord) (loc_entry Up initialTrigger ord) (sb_loc b)\<rparr>
         else b\<lparr>sb_down := mm_emplace (>) initialTrigger p (sb_down b),
                sb_loc := AList.update (no_id ord) (loc_entry Down initialTrigger ord) (sb_loc b)\<rparr>)"

fun erase_first :: "nat \<Rightarrow> pending list \<Rightarrow> pending list" where
  "erase_first i [] = []"
| "erase_first i (p # ps) = (if no_id (pn_order p) = i then ps else p # erase_first i ps)"

definition sb_cancel :: "stop_book \<Rightarrow> nat \<Rightarrow> bool \<times> stop_book" where
  "sb_cancel b i =
     (case map_of (sb_loc b) i of
        None \<Rightarrow> (False, b)
      | Some l \<Rightarrow>
          (let b1 = b\<lparr>sb_loc := AList.delete i (sb_loc b)\<rparr>
           in case lo_container l of
                Up \<Rightarrow> (True, b1\<lparr>sb_up := eraseFrom (<) (sb_up b) (lo_trigger l) i\<rparr>)
              | Down \<Rightarrow> (True, b1\<lparr>sb_down := eraseFrom (>) (sb_down b) (lo_trigger l) i\<rparr>)
              | Trailing \<Rightarrow> (True, b1\<lparr>sb_trailing := erase_first i (sb_trailing b)\<rparr>)))"

definition ratchet :: "int \<Rightarrow> pending \<Rightarrow> pending" where
  "ratchet lst s =
     (let off = no_trailingOffset (pn_order s)
      in if no_side (pn_order s) = SELL
         then let cand = lst - off in if pn_trigger s = 0 \<or> cand > pn_trigger s then s\<lparr>pn_trigger := cand\<rparr> else s
         else let cand = lst + off in if pn_trigger s = 0 \<or> cand < pn_trigger s then s\<lparr>pn_trigger := cand\<rparr> else s)"

definition updateTrailing :: "int \<Rightarrow> stop_book \<Rightarrow> stop_book" where
  "updateTrailing lst b = b\<lparr>sb_trailing := map (ratchet lst) (sb_trailing b)\<rparr>"

definition toAggressor :: "pending \<Rightarrow> new_order" where
  "toAggressor s = (pn_order s)\<lparr>no_type := (if isLimitStop (no_type (pn_order s)) then LIMIT else MARKET),
     no_visibleQuantity := 0\<rparr>"

subsection \<open>Firing\<close>

record best =
  be_dist :: int
  be_id :: nat
  be_container :: container
  be_trig :: int
  be_idx :: nat

definition better :: "best option \<Rightarrow> int \<Rightarrow> nat \<Rightarrow> bool" where
  "better bst dist i \<longleftrightarrow>
     (case bst of None \<Rightarrow> True | Some x \<Rightarrow> dist > be_dist x \<or> (dist = be_dist x \<and> i < be_id x))"

definition consider_stop :: "container \<Rightarrow> int \<Rightarrow> nat \<Rightarrow> int \<Rightarrow> nat \<Rightarrow> best option \<Rightarrow> best option" where
  "consider_stop c trig i dist idx bst =
     (if better bst dist i
      then Some \<lparr>be_dist = dist, be_id = i, be_container = c, be_trig = trig, be_idx = idx\<rparr> else bst)"

definition consider_up :: "int \<Rightarrow> multimap \<Rightarrow> best option \<Rightarrow> best option" where
  "consider_up ref m bst =
     (case m of [] \<Rightarrow> bst
      | (trig, _) # _ \<Rightarrow>
          if ref < trig then bst
          else (case lowest_id trig None (from_lower_bound (<) trig m) of
                  None \<Rightarrow> bst | Some i \<Rightarrow> consider_stop Up trig i (ref - trig) 0 bst))"

definition consider_down :: "int \<Rightarrow> multimap \<Rightarrow> best option \<Rightarrow> best option" where
  "consider_down ref m bst =
     (case m of [] \<Rightarrow> bst
      | (trig, _) # _ \<Rightarrow>
          if trig < ref then bst
          else (case lowest_id trig None (from_lower_bound (>) trig m) of
                  None \<Rightarrow> bst | Some i \<Rightarrow> consider_stop Down trig i (trig - ref) 0 bst))"

fun consider_trailing :: "int \<Rightarrow> nat \<Rightarrow> pending list \<Rightarrow> best option \<Rightarrow> best option" where
  "consider_trailing ref idx [] bst = bst"
| "consider_trailing ref idx (s # ss) bst =
     (let buy = (no_side (pn_order s) = BUY);
          fires = (if buy then \<not> ref < pn_trigger s else \<not> pn_trigger s < ref);
          dist = (if buy then ref - pn_trigger s else pn_trigger s - ref)
      in consider_trailing ref (Suc idx) ss
           (if pn_trigger s = 0 \<or> \<not> fires then bst
            else consider_stop Trailing (pn_trigger s) (no_id (pn_order s)) dist idx bst))"

definition best_triggered :: "stop_book \<Rightarrow> int \<Rightarrow> best option" where
  "best_triggered b ref =
     consider_trailing ref 0 (sb_trailing b) (consider_down ref (sb_down b) (consider_up ref (sb_up b) None))"

definition popTriggered :: "int \<Rightarrow> stop_book \<Rightarrow> new_order option \<times> stop_book" where
  "popTriggered ref b =
     (case best_triggered b ref of
        None \<Rightarrow> (None, b)
      | Some x \<Rightarrow>
          (let b1 = b\<lparr>sb_loc := AList.delete (be_id x) (sb_loc b)\<rparr>
           in case be_container x of
                Trailing \<Rightarrow>
                  (Some (toAggressor (sb_trailing b ! be_idx x)),
                   b1\<lparr>sb_trailing := take (be_idx x) (sb_trailing b) @ drop (Suc (be_idx x)) (sb_trailing b)\<rparr>)
              | Up \<Rightarrow>
                  (map_option toAggressor (find_run (be_trig x) (be_id x) (from_lower_bound (<) (be_trig x) (sb_up b))),
                   b1\<lparr>sb_up := eraseFrom (<) (sb_up b) (be_trig x) (be_id x)\<rparr>)
              | Down \<Rightarrow>
                  (map_option toAggressor (find_run (be_trig x) (be_id x) (from_lower_bound (>) (be_trig x) (sb_down b))),
                   b1\<lparr>sb_down := eraseFrom (>) (sb_down b) (be_trig x) (be_id x)\<rparr>)))"

end
