(* ===== verification/StopProps.thy ===== *)
theory StopProps
  imports StopBook "HOL-Library.Product_Lexorder"
begin

section \<open>What the stop book promises\<close>

text \<open>
  The stop book as a priority queue: its contents are the pending orders of the three
  containers, an order fires when the reference price has reached its trigger, and
  \<^verbatim>\<open>popTriggered\<close> takes the firing order that is furthest through its trigger, the smaller
  identifier first. \<open>stops_ok\<close> is the invariant: sorted maps keyed by the triggers they hold,
  one entry per identifier, and a location entry for each.
\<close>

type_synonym parked = "container \<times> pending"

definition pid :: "parked \<Rightarrow> nat" where
  "pid e = no_id (pn_order (snd e))"

definition all_pending :: "stop_book \<Rightarrow> parked list" where
  "all_pending b = map (\<lambda>(_, p). (Up, p)) (sb_up b) @ map (\<lambda>(_, p). (Down, p)) (sb_down b)
     @ map (Pair Trailing) (sb_trailing b)"

definition rises :: "parked \<Rightarrow> bool" where
  "rises e \<longleftrightarrow> (case fst e of Up \<Rightarrow> True | Down \<Rightarrow> False | Trailing \<Rightarrow> no_side (pn_order (snd e)) = BUY)"

definition fires :: "int \<Rightarrow> parked \<Rightarrow> bool" where
  "fires ref e \<longleftrightarrow> (fst e = Trailing \<longrightarrow> pn_trigger (snd e) \<noteq> 0)
     \<and> (if rises e then pn_trigger (snd e) \<le> ref else ref \<le> pn_trigger (snd e))"

definition distance :: "int \<Rightarrow> parked \<Rightarrow> int" where
  "distance ref e = (if rises e then ref - pn_trigger (snd e) else pn_trigger (snd e) - ref)"

definition rank :: "int \<Rightarrow> parked \<Rightarrow> int \<times> nat" where
  "rank ref e = (- distance ref e, pid e)"

definition loc_for :: "parked \<Rightarrow> loc \<Rightarrow> bool" where
  "loc_for e l \<longleftrightarrow> (let p = snd e in lo_container l = fst e \<and> lo_account l = no_accountId (pn_order p)
     \<and> lo_clientOrderId l = no_clientOrderId (pn_order p) \<and> lo_quantity l = no_quantity (pn_order p)
     \<and> (fst e \<noteq> Trailing \<longrightarrow> lo_trigger l = pn_trigger p))"

definition keyed :: "(int \<Rightarrow> int \<Rightarrow> bool) \<Rightarrow> multimap \<Rightarrow> bool" where
  "keyed lt m \<longleftrightarrow> sorted_wrt (\<lambda>x y. \<not> lt (fst y) (fst x)) m \<and> (\<forall>(k, p) \<in> set m. pn_trigger p = k)"

definition stops_ok :: "stop_book \<Rightarrow> bool" where
  "stops_ok b \<longleftrightarrow> keyed (<) (sb_up b) \<and> keyed (>) (sb_down b)
     \<and> distinct (map pid (all_pending b)) \<and> distinct (map fst (sb_loc b))
     \<and> fst ` set (sb_loc b) = pid ` set (all_pending b)
     \<and> (\<forall>e \<in> set (all_pending b). \<exists>l. map_of (sb_loc b) (pid e) = Some l \<and> loc_for e l)"

subsection \<open>The maps\<close>

definition strict_total :: "(int \<Rightarrow> int \<Rightarrow> bool) \<Rightarrow> bool" where
  "strict_total lt \<longleftrightarrow> (\<forall>a. \<not> lt a a) \<and> (\<forall>a b c. lt a b \<longrightarrow> lt b c \<longrightarrow> lt a c) \<and> (\<forall>a b. lt a b \<or> a = b \<or> lt b a)"

lemma strict_total_int [simp]: "strict_total (<)" "strict_total (>)"
  unfolding strict_total_def using less_trans less_irrefl less_linear by blast+

lemma set_emplace [simp]: "set (mm_emplace lt k p m) = insert (k, p) (set m)"
  by (induction lt k p m rule: mm_emplace.induct) auto

lemma mset_emplace: "mset (mm_emplace lt k p m) = add_mset (k, p) (mset m)"
  by (induction lt k p m rule: mm_emplace.induct) auto

lemma keyed_Cons: "keyed lt (x # m) \<longleftrightarrow> (\<forall>y \<in> set m. \<not> lt (fst y) (fst x)) \<and> pn_trigger (snd x) = fst x \<and> keyed lt m"
  by (auto simp: keyed_def split_beta)

lemma keyed_emplace:
  assumes "strict_total lt" "keyed lt m" "pn_trigger p = k"
  shows "keyed lt (mm_emplace lt k p m)"
  using assms(2)
proof (induction m)
  case (Cons x m)
  obtain k' p' where x: "x = (k', p')" by (cases x)
  have t: "\<not> lt (fst y) k" if "lt k k'" "y \<in> set m" for y
    using assms(1) Cons.prems that unfolding strict_total_def keyed_Cons x by (metis fst_conv)
  have s: "\<not> lt k k' \<Longrightarrow> lt k' k \<or> k' = k" "\<not> lt k k" "\<And>a b. lt a b \<Longrightarrow> \<not> lt b a"
    using assms(1) unfolding strict_total_def by metis+
  show ?case using Cons t s assms(3) by (auto simp: x keyed_Cons)
qed (simp add: keyed_def assms(3))

lemma run_same_key:
  assumes "strict_total lt" "keyed lt ((k', p') # m)" "(k, p) \<in> set ((k', p') # m)" "\<not> lt k' k"
  shows "k' = k"
  using assms unfolding strict_total_def keyed_Cons by (metis fst_conv prod.inject set_ConsD)

lemma erase_run_filter:
  assumes "strict_total lt" "keyed lt m" "\<forall>x \<in> set m. \<not> lt (fst x) k" "(k, p) \<in> set m" "no_id (pn_order p) = i"
    and "distinct (map (\<lambda>(_, p). no_id (pn_order p)) m)"
  shows "erase_run k i m = filter (\<lambda>(_, q). no_id (pn_order q) \<noteq> i) m \<and> find_run k i m = Some p"
  using assms(2-6)
proof (induction m)
  case (Cons x m)
  obtain k' p' where x: "x = (k', p')" by (cases x)
  have k: "k' = k" using run_same_key [OF assms(1) Cons.prems(1) [unfolded x] Cons.prems(3) [unfolded x]] Cons.prems(2) x by simp
  show ?case
  proof (cases "no_id (pn_order p') = i")
    case True
    then have "\<forall>(_, q) \<in> set m. no_id (pn_order q) \<noteq> i" using Cons.prems(5) x by force
    then have "filter (\<lambda>(_, q). no_id (pn_order q) \<noteq> i) m = m" by (auto simp: filter_id_conv)
    moreover have "p' = p" using Cons.prems(3-5) True x by force
    ultimately show ?thesis using True k x by simp
  next
    case False
    then show ?thesis using Cons k x by (auto simp: keyed_Cons)
  qed
qed simp

lemma eraseFrom_filter:
  assumes "strict_total lt" "keyed lt m" "(k, p) \<in> set m" "no_id (pn_order p) = i"
    and "distinct (map (\<lambda>(_, p). no_id (pn_order p)) m)"
  shows "eraseFrom lt m k i = filter (\<lambda>(_, q). no_id (pn_order q) \<noteq> i) m"
    and "find_run k i (from_lower_bound lt k m) = Some p"
proof -
  have "eraseFrom lt m k i = filter (\<lambda>(_, q). no_id (pn_order q) \<noteq> i) m \<and> find_run k i (from_lower_bound lt k m) = Some p"
    using assms(2-5)
  proof (induction m)
    case (Cons x m)
    obtain k' p' where x: "x = (k', p')" by (cases x)
    show ?case
    proof (cases "lt k' k")
      case True
      then have "k' \<noteq> k" using assms(1) by (auto simp: strict_total_def)
      then have m: "(k, p) \<in> set m" using Cons.prems x by auto
      then have "no_id (pn_order p') \<noteq> i" using Cons.prems(3,4) x by force
      then show ?thesis using Cons True m x by (auto simp: eraseFrom_def below_def from_lower_bound_def keyed_Cons)
    next
      case False
      have "k' = k" using run_same_key [OF assms(1) Cons.prems(1) [unfolded x] Cons.prems(2) [unfolded x] False] .
      then have "\<forall>y \<in> set (x # m). \<not> lt (fst y) k" using Cons.prems(1) False x by (auto simp: keyed_Cons)
      from erase_run_filter [OF assms(1) Cons.prems(1) this Cons.prems(2-4)] False x show ?thesis
        by (simp add: eraseFrom_def below_def from_lower_bound_def)
    qed
  qed simp
  then show "eraseFrom lt m k i = filter (\<lambda>(_, q). no_id (pn_order q) \<noteq> i) m" "find_run k i (from_lower_bound lt k m) = Some p"
    by blast+
qed

lemma keyed_filter: "keyed lt m \<Longrightarrow> keyed lt (filter P m)"
  by (auto simp: keyed_def sorted_wrt_filter)

lemma erase_first_filter:
  "distinct (map (\<lambda>p. no_id (pn_order p)) ps) \<Longrightarrow> erase_first i ps = filter (\<lambda>p. no_id (pn_order p) \<noteq> i) ps"
  by (induction ps) (auto intro!: filter_True [symmetric] simp: image_iff)

lemma lowest_id_run:
  assumes "strict_total lt" "keyed lt m" "\<forall>x \<in> set m. \<not> lt (fst x) k"
  shows "\<exists>j. lowest_id k (Some i) m = Some j \<and> j \<le> i \<and> (j = i \<or> (\<exists>p. (k, p) \<in> set m \<and> no_id (pn_order p) = j))
    \<and> (\<forall>p. (k, p) \<in> set m \<longrightarrow> j \<le> no_id (pn_order p))"
  using assms(2,3)
proof (induction m arbitrary: i)
  case (Cons x m)
  obtain k' p' where x: "x = (k', p')" by (cases x)
  show ?case
  proof (cases "k' = k")
    case True
    let ?n = "no_id (pn_order p')"
    let ?i = "if ?n < i then ?n else i"
    obtain j where j: "lowest_id k (Some ?i) m = Some j" "j \<le> ?i" "j = ?i \<or> (\<exists>p. (k, p) \<in> set m \<and> no_id (pn_order p) = j)"
      "\<forall>p. (k, p) \<in> set m \<longrightarrow> j \<le> no_id (pn_order p)"
      using Cons.IH [of ?i] Cons.prems by (auto simp: keyed_Cons)
    have "j \<le> i \<and> j \<le> ?n" using j(2) by (auto split: if_splits)
    moreover have "j = i \<or> (\<exists>p. (k, p) \<in> set (x # m) \<and> no_id (pn_order p) = j)" using j(3) x True by (auto split: if_splits)
    ultimately show ?thesis using j(1,4) x True by auto
  next
    case False
    then have "lt k k'" using Cons.prems(2) assms(1) x by (auto simp: strict_total_def)
    then have "(k, p) \<notin> set m" for p using Cons.prems(1) x by (auto simp: keyed_Cons)
    then show ?thesis using False x by auto
  qed
qed simp

subsection \<open>The best firing order\<close>

definition describes :: "int \<Rightarrow> pending list \<Rightarrow> best \<Rightarrow> parked \<Rightarrow> bool" where
  "describes ref tr x e \<longleftrightarrow> be_container x = fst e \<and> (- be_dist x, be_id x) = rank ref e
     \<and> (if fst e = Trailing then be_idx x < length tr \<and> tr ! be_idx x = snd e else be_trig x = pn_trigger (snd e))"

definition best_of :: "int \<Rightarrow> pending list \<Rightarrow> parked set \<Rightarrow> best option \<Rightarrow> bool" where
  "best_of ref tr E bst \<longleftrightarrow> (case bst of
       None \<Rightarrow> \<forall>e \<in> E. \<not> fires ref e
     | Some x \<Rightarrow> \<exists>e \<in> E. fires ref e \<and> describes ref tr x e \<and> (\<forall>e' \<in> E. fires ref e' \<longrightarrow> rank ref e \<le> rank ref e'))"

lemma better_rank: "describes ref tr x e \<Longrightarrow> better (Some x) (distance ref e') (pid e') \<longleftrightarrow> rank ref e' < rank ref e"
  by (auto simp: better_def describes_def rank_def)

lemma best_of_skip: "best_of ref tr E bst \<Longrightarrow> \<forall>e \<in> F. \<not> fires ref e \<Longrightarrow> best_of ref tr (E \<union> F) bst"
  by (auto simp: best_of_def split: option.splits)

lemma best_of_consider:
  assumes b: "best_of ref tr E bst" and e: "e \<in> F" "fires ref e" "\<forall>e' \<in> F. fires ref e' \<longrightarrow> rank ref e \<le> rank ref e'"
    and i: "if fst e = Trailing then idx < length tr \<and> tr ! idx = snd e else trig = pn_trigger (snd e)"
  shows "best_of ref tr (E \<union> F) (consider_stop (fst e) trig (pid e) (distance ref e) idx bst)"
proof (cases bst)
  case None
  have "describes ref tr \<lparr>be_dist = distance ref e, be_id = pid e, be_container = fst e, be_trig = trig, be_idx = idx\<rparr> e"
    using i by (simp add: describes_def rank_def)
  then show ?thesis using None b e by (auto simp: best_of_def consider_stop_def better_def)
next
  case (Some x)
  obtain e0 where e0: "e0 \<in> E" "fires ref e0" "describes ref tr x e0" "\<forall>e' \<in> E. fires ref e' \<longrightarrow> rank ref e0 \<le> rank ref e'"
    using b Some by (auto simp: best_of_def)
  have d: "describes ref tr \<lparr>be_dist = distance ref e, be_id = pid e, be_container = fst e, be_trig = trig, be_idx = idx\<rparr> e"
    using i by (simp add: describes_def rank_def)
  show ?thesis
  proof (cases "rank ref e < rank ref e0")
    case True
    then have "\<forall>e' \<in> E \<union> F. fires ref e' \<longrightarrow> rank ref e \<le> rank ref e'" using e(3) e0(4) by fastforce
    then show ?thesis using True better_rank [OF e0(3), of e] d e Some by (auto simp: best_of_def consider_stop_def)
  next
    case False
    then have "\<forall>e' \<in> E \<union> F. fires ref e' \<longrightarrow> rank ref e0 \<le> rank ref e'" using e(3) e0(4) by fastforce
    then show ?thesis using False better_rank [OF e0(3), of e] e0 Some by (auto simp: best_of_def consider_stop_def)
  qed
qed

lemma head_run:
  assumes "strict_total lt" "keyed lt ((k, p) # m)"
  obtains p0 where "lowest_id k None (from_lower_bound lt k ((k, p) # m)) = Some (no_id (pn_order p0))"
    "(k, p0) \<in> set ((k, p) # m)" "pn_trigger p0 = k"
    "\<And>k' p'. (k', p') \<in> set ((k, p) # m) \<Longrightarrow> pn_trigger p' = k' \<and> \<not> lt k' k \<and> (k' = k \<longrightarrow> no_id (pn_order p0) \<le> no_id (pn_order p'))"
proof -
  have irr: "\<not> lt k k" using assms(1) by (simp add: strict_total_def)
  have m: "keyed lt m" "\<forall>x \<in> set m. \<not> lt (fst x) k" using assms(2) by (auto simp: keyed_Cons)
  have t: "\<And>k' p'. (k', p') \<in> set ((k, p) # m) \<Longrightarrow> pn_trigger p' = k' \<and> \<not> lt k' k"
    using assms(2) irr by (auto simp: keyed_def)
  have l: "lowest_id k None (from_lower_bound lt k ((k, p) # m)) = lowest_id k (Some (no_id (pn_order p))) m"
    using irr by (simp add: from_lower_bound_def)
  obtain j where j: "lowest_id k (Some (no_id (pn_order p))) m = Some j" "j \<le> no_id (pn_order p)"
    "j = no_id (pn_order p) \<or> (\<exists>p. (k, p) \<in> set m \<and> no_id (pn_order p) = j)" "\<forall>p. (k, p) \<in> set m \<longrightarrow> j \<le> no_id (pn_order p)"
    using lowest_id_run [OF assms(1) m] by blast
  then obtain p0 where "(k, p0) \<in> set ((k, p) # m)" "no_id (pn_order p0) = j" by auto
  then show ?thesis using that l j(1,2,4) t by auto
qed

lemma best_of_up:
  assumes "keyed (<) m" "best_of ref tr E bst"
  shows "best_of ref tr (E \<union> (\<lambda>(_, p). (Up, p)) ` set m) (consider_up ref m bst)"
proof (cases m)
  case (Cons x m')
  obtain k p where x: "x = (k, p)" by (cases x)
  have m: "m = (k, p) # m'" using Cons x by simp
  obtain p0 where p0: "lowest_id k None (from_lower_bound (<) k m) = Some (no_id (pn_order p0))" "(k, p0) \<in> set m" "pn_trigger p0 = k"
    "\<And>k' p'. (k', p') \<in> set m \<Longrightarrow> pn_trigger p' = k' \<and> \<not> k' < k \<and> (k' = k \<longrightarrow> no_id (pn_order p0) \<le> no_id (pn_order p'))"
    using head_run [of "(<)" k p m'] assms(1) m by auto
  show ?thesis
  proof (cases "ref < k")
    case True
    then have "\<forall>e \<in> (\<lambda>(_, p). (Up, p)) ` set m. \<not> fires ref e" using p0(4) by (fastforce simp: fires_def rises_def)
    moreover have "consider_up ref m bst = bst" using True m by (simp add: consider_up_def)
    ultimately show ?thesis using best_of_skip [OF assms(2)] by simp
  next
    case False
    let ?e = "(Up, p0)"
    have "best_of ref tr (E \<union> (\<lambda>(_, p). (Up, p)) ` set m) (consider_stop (fst ?e) k (pid ?e) (distance ref ?e) 0 bst)"
    proof (rule best_of_consider [OF assms(2)])
      show "?e \<in> (\<lambda>(_, p). (Up, p)) ` set m" using p0(2) by force
      show "fires ref ?e" using False p0(3) by (simp add: fires_def rises_def)
      show "\<forall>e' \<in> (\<lambda>(_, p). (Up, p)) ` set m. fires ref e' \<longrightarrow> rank ref ?e \<le> rank ref e'"
        using p0(3,4) by (fastforce simp: rank_def distance_def rises_def pid_def)
    qed (simp add: p0(3))
    moreover have "consider_up ref m bst = consider_stop (fst ?e) k (pid ?e) (distance ref ?e) 0 bst"
      using False p0(1,3) unfolding m consider_up_def by (simp add: pid_def distance_def rises_def)
    ultimately show ?thesis by simp
  qed
qed (simp add: consider_up_def assms(2))

lemma best_of_down:
  assumes "keyed (>) m" "best_of ref tr E bst"
  shows "best_of ref tr (E \<union> (\<lambda>(_, p). (Down, p)) ` set m) (consider_down ref m bst)"
proof (cases m)
  case (Cons x m')
  obtain k p where x: "x = (k, p)" by (cases x)
  have m: "m = (k, p) # m'" using Cons x by simp
  obtain p0 where p0: "lowest_id k None (from_lower_bound (>) k m) = Some (no_id (pn_order p0))" "(k, p0) \<in> set m" "pn_trigger p0 = k"
    "\<And>k' p'. (k', p') \<in> set m \<Longrightarrow> pn_trigger p' = k' \<and> \<not> k' > k \<and> (k' = k \<longrightarrow> no_id (pn_order p0) \<le> no_id (pn_order p'))"
    using head_run [of "(>)" k p m'] assms(1) m by auto
  show ?thesis
  proof (cases "k < ref")
    case True
    then have "\<forall>e \<in> (\<lambda>(_, p). (Down, p)) ` set m. \<not> fires ref e" using p0(4) by (fastforce simp: fires_def rises_def)
    moreover have "consider_down ref m bst = bst" using True m by (simp add: consider_down_def)
    ultimately show ?thesis using best_of_skip [OF assms(2)] by simp
  next
    case False
    let ?e = "(Down, p0)"
    have "best_of ref tr (E \<union> (\<lambda>(_, p). (Down, p)) ` set m) (consider_stop (fst ?e) k (pid ?e) (distance ref ?e) 0 bst)"
    proof (rule best_of_consider [OF assms(2)])
      show "?e \<in> (\<lambda>(_, p). (Down, p)) ` set m" using p0(2) by force
      show "fires ref ?e" using False p0(3) by (simp add: fires_def rises_def)
      show "\<forall>e' \<in> (\<lambda>(_, p). (Down, p)) ` set m. fires ref e' \<longrightarrow> rank ref ?e \<le> rank ref e'"
        using p0(3,4) by (fastforce simp: rank_def distance_def rises_def pid_def)
    qed (simp add: p0(3))
    moreover have "consider_down ref m bst = consider_stop (fst ?e) k (pid ?e) (distance ref ?e) 0 bst"
      using False p0(1,3) unfolding m consider_down_def by (simp add: pid_def distance_def rises_def)
    ultimately show ?thesis by simp
  qed
qed (simp add: consider_down_def assms(2))

lemma best_of_trailing:
  assumes "best_of ref (dn @ ss) E bst"
  shows "best_of ref (dn @ ss) (E \<union> Pair Trailing ` set ss) (consider_trailing ref (length dn) ss bst)"
  using assms
proof (induction ss arbitrary: dn E bst)
  case (Cons s ss)
  let ?e = "(Trailing, s)"
  let ?bst = "if fires ref ?e then consider_stop Trailing (pn_trigger s) (no_id (pn_order s)) (distance ref ?e) (length dn) bst else bst"
  have "best_of ref (dn @ s # ss) (E \<union> {?e}) ?bst"
    using best_of_skip [OF Cons.prems, of "{?e}"]
      best_of_consider [OF Cons.prems, of ?e "{?e}" "length dn" "pn_trigger s"]
    by (auto simp: pid_def)
  from Cons.IH [of "dn @ [s]" "E \<union> {?e}" ?bst] this
  have "best_of ref (dn @ s # ss) (E \<union> {?e} \<union> Pair Trailing ` set ss) (consider_trailing ref (Suc (length dn)) ss ?bst)" by simp
  moreover have "consider_trailing ref (length dn) (s # ss) bst = consider_trailing ref (Suc (length dn)) ss ?bst"
    by (simp add: Let_def fires_def distance_def rises_def not_less)
  ultimately show ?case by simp
qed simp

lemma best_triggered_best:
  assumes "stops_ok b"
  shows "best_of ref (sb_trailing b) (set (all_pending b)) (best_triggered b ref)"
proof -
  have "best_of ref (sb_trailing b) {} None" by (simp add: best_of_def)
  from best_of_up [OF _ this, of "sb_up b"] assms
  have u: "best_of ref (sb_trailing b) ((\<lambda>(_, p). (Up, p)) ` set (sb_up b)) (consider_up ref (sb_up b) None)" by (simp add: stops_ok_def)
  from best_of_down [OF _ this, of "sb_down b"] assms
  have "best_of ref (sb_trailing b) ((\<lambda>(_, p). (Up, p)) ` set (sb_up b) \<union> (\<lambda>(_, p). (Down, p)) ` set (sb_down b))
      (consider_down ref (sb_down b) (consider_up ref (sb_up b) None))" by (simp add: stops_ok_def)
  from best_of_trailing [of ref "[]", simplified, OF this] show ?thesis
    by (simp add: best_triggered_def all_pending_def Un_assoc)
qed

subsection \<open>The operations keep the invariant\<close>

lemma set_all_pending:
  "set (all_pending b) = (\<lambda>(_, p). (Up, p)) ` set (sb_up b) \<union> (\<lambda>(_, p). (Down, p)) ` set (sb_down b)
     \<union> Pair Trailing ` set (sb_trailing b)"
  by (simp add: all_pending_def Un_assoc)

lemma all_pending_ids:
  "map pid (all_pending b) = map (\<lambda>(_, p). no_id (pn_order p)) (sb_up b) @ map (\<lambda>(_, p). no_id (pn_order p)) (sb_down b)
     @ map (\<lambda>p. no_id (pn_order p)) (sb_trailing b)"
  by (auto simp: all_pending_def pid_def split_beta)

definition without :: "nat \<Rightarrow> stop_book \<Rightarrow> stop_book" where
  "without i b = \<lparr>sb_up = filter (\<lambda>(_, q). no_id (pn_order q) \<noteq> i) (sb_up b),
     sb_down = filter (\<lambda>(_, q). no_id (pn_order q) \<noteq> i) (sb_down b),
     sb_trailing = filter (\<lambda>q. no_id (pn_order q) \<noteq> i) (sb_trailing b), sb_loc = AList.delete i (sb_loc b)\<rparr>"

lemma all_pending_without: "all_pending (without i b) = filter (\<lambda>e. pid e \<noteq> i) (all_pending b)"
  by (simp add: all_pending_def without_def filter_map comp_def case_prod_unfold pid_def)

lemma loc_of: "stops_ok b \<Longrightarrow> e \<in> set (all_pending b) \<Longrightarrow> \<exists>l. map_of (sb_loc b) (pid e) = Some l \<and> loc_for e l"
  by (simp only: stops_ok_def)

lemma stops_ok_without:
  assumes "stops_ok b"
  shows "stops_ok (without i b)"
proof -
  have "fst ` set (AList.delete i (sb_loc b)) = fst ` set (sb_loc b) - {i}"
    using arg_cong [OF AList.delete_keys [of i "sb_loc b"], of set] by simp
  moreover have "pid ` set (all_pending (without i b)) = pid ` set (all_pending b) - {i}"
    by (auto simp: all_pending_without)
  moreover have "map_of (AList.delete i (sb_loc b)) j = map_of (sb_loc b) j" if "j \<noteq> i" for j
    using that by (simp add: map_of_delete)
  moreover have "distinct (map fst (AList.delete i (sb_loc b)))" using assms by (simp add: stops_ok_def distinct_delete)
  moreover have "distinct (map pid (all_pending (without i b)))" using assms
    by (simp add: all_pending_without stops_ok_def distinct_map_filter)
  moreover have "\<exists>l. map_of (AList.delete i (sb_loc b)) (pid e) = Some l \<and> loc_for e l" if "e \<in> set (all_pending (without i b))" for e
  proof -
    have e: "e \<in> set (all_pending b)" "pid e \<noteq> i" using that by (simp_all add: all_pending_without)
    from loc_of [OF assms e(1)] show ?thesis unfolding map_of_delete [OF e(2)] .
  qed
  ultimately show ?thesis using assms by (simp add: stops_ok_def without_def keyed_filter)
qed

lemma same_pending: "stops_ok b \<Longrightarrow> e \<in> set (all_pending b) \<Longrightarrow> e' \<in> set (all_pending b) \<Longrightarrow> pid e = pid e' \<Longrightarrow> e = e'"
  by (auto simp: stops_ok_def distinct_map dest: inj_onD)

lemma filter_keep: "\<forall>x \<in> set m. no_id (pn_order (snd x)) \<noteq> i \<Longrightarrow> filter (\<lambda>(_, q). no_id (pn_order q) \<noteq> i) m = m"
  by (simp add: filter_id_conv case_prod_unfold)

lemma without_others:
  assumes "stops_ok b" "e \<in> set (all_pending b)"
  shows "fst e = Up \<Longrightarrow> without (pid e) b = b\<lparr>sb_loc := AList.delete (pid e) (sb_loc b),
      sb_up := filter (\<lambda>(_, q). no_id (pn_order q) \<noteq> pid e) (sb_up b)\<rparr>"
    "fst e = Down \<Longrightarrow> without (pid e) b = b\<lparr>sb_loc := AList.delete (pid e) (sb_loc b),
      sb_down := filter (\<lambda>(_, q). no_id (pn_order q) \<noteq> pid e) (sb_down b)\<rparr>"
    "fst e = Trailing \<Longrightarrow> without (pid e) b = b\<lparr>sb_loc := AList.delete (pid e) (sb_loc b),
      sb_trailing := filter (\<lambda>q. no_id (pn_order q) \<noteq> pid e) (sb_trailing b)\<rparr>"
proof -
  have same: "c = fst e" if "(c, p) \<in> set (all_pending b)" "no_id (pn_order p) = pid e" for c p
    using same_pending [OF assms that(1)] that(2) by (auto simp: pid_def)
  have u: "filter (\<lambda>(_, q). no_id (pn_order q) \<noteq> pid e) (sb_up b) = sb_up b" if "fst e \<noteq> Up"
    using same [of Up] that by (intro filter_keep) (force simp: set_all_pending)
  have d: "filter (\<lambda>(_, q). no_id (pn_order q) \<noteq> pid e) (sb_down b) = sb_down b" if "fst e \<noteq> Down"
    using same [of Down] that by (intro filter_keep) (force simp: set_all_pending)
  have t: "filter (\<lambda>q. no_id (pn_order q) \<noteq> pid e) (sb_trailing b) = sb_trailing b" if "fst e \<noteq> Trailing"
    using same [of Trailing] that by (auto simp: filter_id_conv set_all_pending)
  show "fst e = Up \<Longrightarrow> without (pid e) b = b\<lparr>sb_loc := AList.delete (pid e) (sb_loc b),
      sb_up := filter (\<lambda>(_, q). no_id (pn_order q) \<noteq> pid e) (sb_up b)\<rparr>"
    "fst e = Down \<Longrightarrow> without (pid e) b = b\<lparr>sb_loc := AList.delete (pid e) (sb_loc b),
      sb_down := filter (\<lambda>(_, q). no_id (pn_order q) \<noteq> pid e) (sb_down b)\<rparr>"
    "fst e = Trailing \<Longrightarrow> without (pid e) b = b\<lparr>sb_loc := AList.delete (pid e) (sb_loc b),
      sb_trailing := filter (\<lambda>q. no_id (pn_order q) \<noteq> pid e) (sb_trailing b)\<rparr>"
    using u d t by (simp_all add: without_def)
qed

lemma container_removed:
  assumes "stops_ok b" "e \<in> set (all_pending b)"
  shows "fst e = Up \<Longrightarrow> eraseFrom (<) (sb_up b) (pn_trigger (snd e)) (pid e) = filter (\<lambda>(_, q). no_id (pn_order q) \<noteq> pid e) (sb_up b)
      \<and> find_run (pn_trigger (snd e)) (pid e) (from_lower_bound (<) (pn_trigger (snd e)) (sb_up b)) = Some (snd e)"
    "fst e = Down \<Longrightarrow> eraseFrom (>) (sb_down b) (pn_trigger (snd e)) (pid e) = filter (\<lambda>(_, q). no_id (pn_order q) \<noteq> pid e) (sb_down b)
      \<and> find_run (pn_trigger (snd e)) (pid e) (from_lower_bound (>) (pn_trigger (snd e)) (sb_down b)) = Some (snd e)"
    "fst e = Trailing \<Longrightarrow> erase_first (pid e) (sb_trailing b) = filter (\<lambda>q. no_id (pn_order q) \<noteq> pid e) (sb_trailing b)"
proof -
  have k: "keyed (<) (sb_up b)" "keyed (>) (sb_down b)" using assms(1) by (simp_all add: stops_ok_def)
  have d: "distinct (map (\<lambda>(_, p). no_id (pn_order p)) (sb_up b))" "distinct (map (\<lambda>(_, p). no_id (pn_order p)) (sb_down b))"
    "distinct (map (\<lambda>p. no_id (pn_order p)) (sb_trailing b))"
    using assms(1) by (simp_all add: stops_ok_def all_pending_ids)
  show "fst e = Up \<Longrightarrow> eraseFrom (<) (sb_up b) (pn_trigger (snd e)) (pid e) = filter (\<lambda>(_, q). no_id (pn_order q) \<noteq> pid e) (sb_up b)
      \<and> find_run (pn_trigger (snd e)) (pid e) (from_lower_bound (<) (pn_trigger (snd e)) (sb_up b)) = Some (snd e)"
  proof -
    assume "fst e = Up"
    then have "(pn_trigger (snd e), snd e) \<in> set (sb_up b)" using assms(2) k(1) by (force simp: set_all_pending keyed_def)
    from eraseFrom_filter [OF strict_total_int(1) k(1) this _ d(1)] show ?thesis by (simp add: pid_def)
  qed
  show "fst e = Down \<Longrightarrow> eraseFrom (>) (sb_down b) (pn_trigger (snd e)) (pid e) = filter (\<lambda>(_, q). no_id (pn_order q) \<noteq> pid e) (sb_down b)
      \<and> find_run (pn_trigger (snd e)) (pid e) (from_lower_bound (>) (pn_trigger (snd e)) (sb_down b)) = Some (snd e)"
  proof -
    assume "fst e = Down"
    then have "(pn_trigger (snd e), snd e) \<in> set (sb_down b)" using assms(2) k(2) by (force simp: set_all_pending keyed_def)
    from eraseFrom_filter [OF strict_total_int(2) k(2) this _ d(2)] show ?thesis by (simp add: pid_def)
  qed
  show "fst e = Trailing \<Longrightarrow> erase_first (pid e) (sb_trailing b) = filter (\<lambda>q. no_id (pn_order q) \<noteq> pid e) (sb_trailing b)"
    using erase_first_filter [OF d(3)] by simp
qed

lemma cancel_is_without:
  assumes "stops_ok b"
  shows "sb_cancel b i = (if \<exists>e \<in> set (all_pending b). pid e = i then (True, without i b) else (False, b))"
proof (cases "\<exists>e \<in> set (all_pending b). pid e = i")
  case True
  then obtain e where e: "e \<in> set (all_pending b)" "pid e = i" by blast
  then obtain l where l: "map_of (sb_loc b) i = Some l" "loc_for e l" using assms by (auto simp: stops_ok_def)
  then show ?thesis using True e without_others [OF assms e(1)] container_removed [OF assms e(1)]
    by (cases "fst e") (auto simp: sb_cancel_def Let_def loc_for_def)
next
  case False
  then have "i \<notin> fst ` set (sb_loc b)" using assms by (auto simp: stops_ok_def)
  then have "map_of (sb_loc b) i = None" by (simp add: map_of_eq_None_iff)
  then show ?thesis using False by (simp add: sb_cancel_def)
qed

lemma take_drop_filter:
  assumes "distinct (map f xs)" "n < length xs"
  shows "take n xs @ drop (Suc n) xs = filter (\<lambda>x. f x \<noteq> f (xs ! n)) xs"
proof -
  have xs: "xs = take n xs @ xs ! n # drop (Suc n) xs" using assms(2) by (simp add: id_take_nth_drop)
  then have "distinct (map f (take n xs) @ f (xs ! n) # map f (drop (Suc n) xs))" using assms(1) by (metis list.map(2) map_append)
  then have "filter (\<lambda>x. f x \<noteq> f (xs ! n)) (take n xs) = take n xs" "filter (\<lambda>x. f x \<noteq> f (xs ! n)) (drop (Suc n) xs) = drop (Suc n) xs"
    by (auto simp: filter_id_conv image_iff)
  then show ?thesis by (subst (3) xs) simp
qed

lemma pop_is_without:
  assumes "stops_ok b"
  shows "(\<forall>e \<in> set (all_pending b). \<not> fires ref e) \<and> popTriggered ref b = (None, b) \<or>
    (\<exists>e \<in> set (all_pending b). fires ref e \<and> (\<forall>e' \<in> set (all_pending b). fires ref e' \<longrightarrow> rank ref e \<le> rank ref e')
       \<and> popTriggered ref b = (Some (toAggressor (snd e)), without (pid e) b))"
proof (cases "best_triggered b ref")
  case None
  then show ?thesis using best_triggered_best [OF assms, of ref] by (simp add: best_of_def popTriggered_def)
next
  case (Some x)
  then obtain e where e: "e \<in> set (all_pending b)" "fires ref e" "describes ref (sb_trailing b) x e"
    "\<forall>e' \<in> set (all_pending b). fires ref e' \<longrightarrow> rank ref e \<le> rank ref e'"
    using best_triggered_best [OF assms, of ref] by (auto simp: best_of_def)
  have x: "be_container x = fst e" "be_id x = pid e" using e(3) by (simp_all add: describes_def rank_def)
  have "distinct (map (\<lambda>p. no_id (pn_order p)) (sb_trailing b))" using assms by (simp add: stops_ok_def all_pending_ids)
  from take_drop_filter [OF this, of "be_idx x"] e(3)
  have "take (be_idx x) (sb_trailing b) @ drop (Suc (be_idx x)) (sb_trailing b)
      = filter (\<lambda>q. no_id (pn_order q) \<noteq> pid e) (sb_trailing b)" if "fst e = Trailing"
    using that by (simp add: describes_def pid_def)
  then have "popTriggered ref b = (Some (toAggressor (snd e)), without (pid e) b)"
    using e(3) Some x without_others [OF assms e(1)] container_removed [OF assms e(1)]
    by (cases "fst e") (simp_all add: popTriggered_def Let_def describes_def)
  then show ?thesis using e by blast
qed

definition parks :: "new_order \<Rightarrow> int \<Rightarrow> bool \<Rightarrow> parked" where
  "parks ord t trailing = (if trailing then Trailing else if goes_up ord then Up else Down, \<lparr>pn_order = ord, pn_trigger = t\<rparr>)"

lemma add_pending: "mset (all_pending (sb_add ord t trailing b)) = add_mset (parks ord t trailing) (mset (all_pending b))"
  by (simp add: sb_add_def all_pending_def parks_def Let_def mset_map [symmetric] mset_emplace del: mset_map)
    (simp add: mset_emplace)

lemma stops_ok_add:
  assumes "stops_ok b" "\<not> sb_contains b (no_id ord)"
  shows "stops_ok (sb_add ord t trailing b)"
proof -
  let ?b = "sb_add ord t trailing b" and ?e = "parks ord t trailing"
  have loc: "sb_loc ?b = AList.update (no_id ord) (loc_entry (fst ?e) t ord) (sb_loc b)"
    by (simp add: sb_add_def parks_def Let_def)
  have new: "no_id ord \<notin> fst ` set (sb_loc b)" using assms(2) by (simp add: sb_contains_def map_of_eq_None_iff)
  then have fresh: "no_id ord \<notin> pid ` set (all_pending b)" using assms(1) by (simp add: stops_ok_def)
  have pe: "pid ?e = no_id ord" by (simp add: parks_def pid_def)
  have s: "set (all_pending ?b) = insert ?e (set (all_pending b))" using add_pending by (metis set_mset_add_mset_insert set_mset_mset)
  have "mset (map pid (all_pending ?b)) = add_mset (no_id ord) (mset (map pid (all_pending b)))"
    using add_pending [of ord t trailing b] pe by simp
  then have "distinct (map pid (all_pending ?b))"
    using fresh assms(1) mset_eq_imp_distinct_iff [of "map pid (all_pending ?b)" "no_id ord # map pid (all_pending b)"]
    by (simp add: stops_ok_def)
  moreover have "keyed (<) (sb_up ?b)" "keyed (>) (sb_down ?b)"
    using assms(1) by (simp_all add: sb_add_def Let_def stops_ok_def keyed_emplace)
  moreover have "distinct (map fst (sb_loc ?b))" using assms(1) by (simp add: loc stops_ok_def distinct_update)
  moreover have "fst ` set (sb_loc ?b) = pid ` set (all_pending ?b)"
    using assms(1) pe by (simp add: loc s dom_update stops_ok_def)
  moreover have "\<exists>l. map_of (sb_loc ?b) (pid e) = Some l \<and> loc_for e l" if "e \<in> set (all_pending ?b)" for e
  proof (cases "e = ?e")
    case True
    then show ?thesis using pe by (simp add: loc update_conv' loc_for_def loc_entry_def parks_def)
  next
    case False
    then have "e \<in> set (all_pending b)" using that s by simp
    moreover from this have "pid e \<noteq> no_id ord" using fresh by (metis imageI)
    ultimately show ?thesis using loc_of [OF assms(1), of e] unfolding loc update_conv' by simp
  qed
  ultimately show ?thesis by (simp add: stops_ok_def)
qed

lemma all_pending_ratchet:
  "all_pending (updateTrailing r b) = map (\<lambda>e. if fst e = Trailing then (Trailing, ratchet r (snd e)) else e) (all_pending b)"
  by (simp add: all_pending_def updateTrailing_def case_prod_unfold comp_def)

lemma ratchet_order [simp]: "pn_order (ratchet r s) = pn_order s"
  by (simp add: ratchet_def Let_def)

lemma stops_ok_ratchet:
  assumes "stops_ok b"
  shows "stops_ok (updateTrailing r b)"
proof -
  let ?f = "\<lambda>e. if fst e = Trailing then (Trailing, ratchet r (snd e)) else e"
  have p: "pid (?f e) = pid e" for e by (simp add: pid_def)
  then have m: "map pid (all_pending (updateTrailing r b)) = map pid (all_pending b)"
    by (simp add: all_pending_ratchet comp_def)
  have l: "loc_for (?f e) l \<longleftrightarrow> loc_for e l" for e l by (auto simp: loc_for_def Let_def)
  have "\<exists>l. map_of (sb_loc b) (pid e) = Some l \<and> loc_for e l" if e: "e \<in> set (all_pending (updateTrailing r b))" for e
  proof -
    obtain e0 where "e0 \<in> set (all_pending b)" "e = ?f e0" using e unfolding all_pending_ratchet set_map by blast
    then show ?thesis using loc_of [OF assms, of e0] p [of e0] l [of e0] by simp
  qed
  moreover have "pid ` set (all_pending (updateTrailing r b)) = pid ` set (all_pending b)" using m by (metis list.set_map)
  ultimately show ?thesis using assms m by (simp add: stops_ok_def) (simp add: updateTrailing_def)
qed

subsection \<open>Firing everything at one price\<close>

text \<open>
  What the engine's \<^verbatim>\<open>while (auto agg = stops_.popTriggered(*ref))\<close> relies on: a queue whose
  \<open>pop\<close> takes out the firing element of least rank. \<open>drain\<close> is that loop at a standing
  reference price; \<open>n\<close> bounds the iterations, and the number of elements is enough.
\<close>

fun drain :: "('q \<Rightarrow> 'o option \<times> 'q) \<Rightarrow> nat \<Rightarrow> 'q \<Rightarrow> 'o list \<times> 'q" where
  "drain pop 0 q = ([], q)"
| "drain pop (Suc n) q =
     (case pop q of (None, q') \<Rightarrow> ([], q') | (Some x, q') \<Rightarrow> map_prod (Cons x) id (drain pop n q'))"

locale ranked_queue =
  fixes ok :: "'q \<Rightarrow> bool"
    and contents :: "'q \<Rightarrow> 'e list"
    and ident :: "'e \<Rightarrow> nat"
    and due :: "'e \<Rightarrow> bool"
    and key :: "'e \<Rightarrow> 'r :: linorder"
    and out :: "'e \<Rightarrow> 'o"
    and pop :: "'q \<Rightarrow> 'o option \<times> 'q"
  assumes distinct_ids: "ok q \<Longrightarrow> distinct (map ident (contents q))"
    and key_ident: "key e = key e' \<Longrightarrow> ident e = ident e'"
    and pop_law: "ok q \<Longrightarrow> (\<forall>e \<in> set (contents q). \<not> due e) \<and> pop q = (None, q) \<or>
      (\<exists>e q'. e \<in> set (contents q) \<and> due e \<and> (\<forall>e' \<in> set (contents q). due e' \<longrightarrow> key e \<le> key e')
         \<and> pop q = (Some (out e), q') \<and> ok q' \<and> contents q' = filter (\<lambda>e'. ident e' \<noteq> ident e) (contents q))"
begin

lemma due_order_step:
  assumes "distinct (map ident es)" "e \<in> set es" "due e" "\<forall>e' \<in> set es. due e' \<longrightarrow> key e \<le> key e'"
  shows "sort_key key (filter due es) = e # sort_key key (filter due (filter (\<lambda>e'. ident e' \<noteq> ident e) es))"
proof -
  let ?r = "e # sort_key key (filter due (filter (\<lambda>e'. ident e' \<noteq> ident e) es))"
  have inj: "inj_on ident (set es)" using assms(1) by (simp add: distinct_map)
  have "filter (\<lambda>e'. ident e' \<noteq> ident e) es = remove1 e es"
  proof -
    have "\<And>x. x \<in> set es \<Longrightarrow> ident x \<noteq> ident e \<longleftrightarrow> x \<noteq> e" using inj assms(2) by (metis inj_onD)
    then have "filter (\<lambda>e'. ident e' \<noteq> ident e) es = filter (\<lambda>x. x \<noteq> e) es" by (auto intro: filter_cong)
    moreover have "distinct es" using assms(1) by (simp add: distinct_map)
    ultimately show ?thesis by (simp add: distinct_remove1_removeAll removeAll_filter_not_eq) (metis (lifting) eq_commute)
  qed
  then have m: "mset ?r = mset (filter due es)"
    using assms(2,3) by (simp add: filter_remove1 add_mset_remove_trivial_eq)
  have i: "inj_on key (set (filter due es))" 
  proof (rule inj_onI)
    fix x y assume "x \<in> set (filter due es)" "y \<in> set (filter due es)" "key x = key y"
    then show "x = y" using inj_onD [OF inj key_ident [of x y]] by simp
  qed
  show ?thesis
  proof (rule sort_key_inj_key_eq [OF _ i])
    show "mset (filter due es) = mset ?r" using m by simp
    show "sorted (map key ?r)" using assms(4) by auto
  qed
qed

lemma drain_sorted:
  assumes "ok q" "length (contents q) \<le> n"
  shows "fst (drain pop n q) = map out (sort_key key (filter due (contents q)))
    \<and> ok (snd (drain pop n q)) \<and> contents (snd (drain pop n q)) = filter (\<lambda>e. \<not> due e) (contents q)"
  using assms
proof (induction n arbitrary: q)
  case (Suc n)
  note d = distinct_ids [OF Suc.prems(1)]
  from pop_law [OF Suc.prems(1)] show ?case
  proof (elim disjE exE conjE)
    assume "\<forall>e \<in> set (contents q). \<not> due e" "pop q = (None, q)"
    then show ?thesis using Suc.prems by (simp add: filter_id_conv)
  next
    fix e q' assume e: "e \<in> set (contents q)" "due e" "\<forall>e' \<in> set (contents q). due e' \<longrightarrow> key e \<le> key e'"
      "pop q = (Some (out e), q')" "ok q'" "contents q' = filter (\<lambda>e'. ident e' \<noteq> ident e) (contents q)"
    have "length (contents q') < length (contents q)" unfolding e(6) by (rule length_filter_less [OF e(1)]) simp
    then have "fst (drain pop n q') = map out (sort_key key (filter due (contents q')))
        \<and> ok (snd (drain pop n q')) \<and> contents (snd (drain pop n q')) = filter (\<lambda>e. \<not> due e) (contents q')"
      using Suc.IH [OF e(5)] Suc.prems(2) by simp
    moreover have "filter (\<lambda>e. \<not> due e) (contents q') = filter (\<lambda>e. \<not> due e) (contents q)"
    proof -
      have "ident x \<noteq> ident e" if "x \<in> set (contents q)" "\<not> due x" for x
        using d that e(1,2) by (metis distinct_map inj_onD)
      then show ?thesis unfolding e(6) filter_filter by (intro filter_cong) auto
    qed
    ultimately show ?thesis using e(4,6) due_order_step [OF d e(1-3)] by simp
  qed
qed simp

end

interpretation sq: ranked_queue stops_ok all_pending pid "fires ref" "rank ref" "toAggressor \<circ> snd" "popTriggered ref" for ref
proof
  fix b
  assume b: "stops_ok b"
  then show "distinct (map pid (all_pending b))" by (simp add: stops_ok_def)
  show "(\<forall>e \<in> set (all_pending b). \<not> fires ref e) \<and> popTriggered ref b = (None, b) \<or>
      (\<exists>e q'. e \<in> set (all_pending b) \<and> fires ref e \<and> (\<forall>e' \<in> set (all_pending b). fires ref e' \<longrightarrow> rank ref e \<le> rank ref e')
         \<and> popTriggered ref b = (Some ((toAggressor \<circ> snd) e), q') \<and> stops_ok q'
         \<and> all_pending q' = filter (\<lambda>e'. pid e' \<noteq> pid e) (all_pending b))"
    using pop_is_without [OF b, of ref] stops_ok_without [OF b] all_pending_without by (metis comp_apply)
qed (simp add: rank_def)

subsection \<open>Histories\<close>

datatype stop_cmd = StopAdd new_order int bool | StopCancel nat | StopRatchet int | StopPop int

fun stop_exec :: "stop_cmd \<Rightarrow> stop_book \<Rightarrow> stop_book" where
  "stop_exec (StopAdd ord t trailing) b = sb_add ord t trailing b"
| "stop_exec (StopCancel i) b = snd (sb_cancel b i)"
| "stop_exec (StopRatchet r) b = updateTrailing r b"
| "stop_exec (StopPop r) b = snd (popTriggered r b)"

fun stops_admissible :: "stop_book \<Rightarrow> stop_cmd list \<Rightarrow> bool" where
  "stops_admissible b [] \<longleftrightarrow> True"
| "stops_admissible b (c # cs) \<longleftrightarrow>
     (case c of StopAdd ord t trailing \<Rightarrow> \<not> sb_contains b (no_id ord) | _ \<Rightarrow> True) \<and> stops_admissible (stop_exec c b) cs"

lemma stops_ok_exec:
  assumes "stops_ok b" "stops_admissible b [c]"
  shows "stops_ok (stop_exec c b)"
proof (cases c)
  case (StopPop r)
  then show ?thesis using pop_is_without [OF assms(1), of r] stops_ok_without [OF assms(1)] assms(1) by auto
qed (use assms stops_ok_add stops_ok_ratchet cancel_is_without stops_ok_without in auto)

lemma stops_ok_run: "stops_ok b \<Longrightarrow> stops_admissible b cs \<Longrightarrow> stops_ok (fold stop_exec cs b)"
  by (induction cs arbitrary: b) (use stops_ok_exec in auto)

lemma stops_ok_new: "stops_ok new_stop_book"
  by (simp add: stops_ok_def new_stop_book_def all_pending_def keyed_def)

subsection \<open>Properties\<close>

text \<open>
  C23. Stops fire in order: after any history of parked orders (fresh identifiers), cancels,
  ratchets and firings, popping until nothing fires takes out exactly the parked orders whose
  trigger the reference price has reached, the furthest through its trigger first and the
  smaller identifier first among equals, each as the market or limit order its type calls for,
  and leaves exactly the others parked.
\<close>

theorem stops_fire_in_order:
  assumes "stops_admissible new_stop_book cs" "length (all_pending (fold stop_exec cs new_stop_book)) \<le> n"
  shows "fst (drain (popTriggered ref) n (fold stop_exec cs new_stop_book))
      = map (toAggressor \<circ> snd) (sort_key (rank ref) (filter (fires ref) (all_pending (fold stop_exec cs new_stop_book))))
    \<and> all_pending (snd (drain (popTriggered ref) n (fold stop_exec cs new_stop_book)))
      = filter (\<lambda>e. \<not> fires ref e) (all_pending (fold stop_exec cs new_stop_book))"
  using sq.drain_sorted [OF stops_ok_run [OF stops_ok_new assms(1)] assms(2)] by blast

definition stop_order :: "nat \<Rightarrow> side \<Rightarrow> order_type \<Rightarrow> int \<Rightarrow> new_order" where
  "stop_order i s t off = \<lparr>no_id = i, no_symbol = 1, no_side = s, no_type = t, no_price = 0,
     no_quantity = 5, no_tif = GTC, no_postOnly = False, no_stp = StpNone, no_accountId = 7,
     no_clientOrderId = 70 + i, no_visibleQuantity = 0, no_triggerPrice = 0, no_trailingOffset = off,
     no_lastLook = False, no_reduceOnly = False, no_expiryNs = 0, no_ocoGroup = 0, no_peg = PegNone,
     no_pegOffsetRaw = 0\<rparr>"

theorem stops_fire_in_order_witness:
  "map no_id (fst (drain (popTriggered 105) 3 (fold stop_exec [StopAdd (stop_order 4 BUY STOP_MARKET 0) 100 False,
      StopAdd (stop_order 2 SELL STOP_LIMIT 0) 110 False, StopAdd (stop_order 9 SELL TRAILING_STOP 3) 0 True, StopRatchet 110]
      new_stop_book))) = [2, 4, 9]"
proof -
  let ?cs = "[StopAdd (stop_order 4 BUY STOP_MARKET 0) 100 False, StopAdd (stop_order 2 SELL STOP_LIMIT 0) 110 False,
      StopAdd (stop_order 9 SELL TRAILING_STOP 3) 0 True, StopRatchet 110]"
  have a: "stops_admissible new_stop_book ?cs" by code_simp
  have n: "length (all_pending (fold stop_exec ?cs new_stop_book)) \<le> 3" by code_simp
  have f: "map no_id (map (toAggressor \<circ> snd) (sort_key (rank 105) (filter (fires 105) (all_pending (fold stop_exec ?cs new_stop_book)))))
      = [2, 4, 9]" by code_simp
  from stops_fire_in_order [OF a n, of 105] f show ?thesis by simp
qed

text \<open>
  C24. The three containers and the location index stay in step: after any such history the
  identifiers \<^verbatim>\<open>ids\<close> reports are exactly the parked ones, in order and once each; \<^verbatim>\<open>contains\<close>
  and the owner, client identifier and quantity look-ups answer from the parked order; a cancel
  answers whether the order was parked and removes exactly that one.
\<close>

theorem stop_book_consistent:
  assumes "stops_admissible new_stop_book cs"
  defines "b \<equiv> fold stop_exec cs new_stop_book"
  shows "sorted_wrt (<) (sb_ids b) \<and> set (sb_ids b) = pid ` set (all_pending b)
    \<and> (sb_contains b i \<longleftrightarrow> (\<exists>e \<in> set (all_pending b). pid e = i))
    \<and> (\<forall>e \<in> set (all_pending b). accountOf b (pid e) = no_accountId (pn_order (snd e))
        \<and> clientOrderIdOf b (pid e) = no_clientOrderId (pn_order (snd e)) \<and> quantityOf b (pid e) = no_quantity (pn_order (snd e)))
    \<and> fst (sb_cancel b i) = sb_contains b i
    \<and> all_pending (snd (sb_cancel b i)) = filter (\<lambda>e. pid e \<noteq> i) (all_pending b)"
proof -
  have ok: "stops_ok b" unfolding b_def by (rule stops_ok_run [OF stops_ok_new assms(1)])
  have k: "distinct (map fst (sb_loc b))" "fst ` set (sb_loc b) = pid ` set (all_pending b)" using ok by (simp_all add: stops_ok_def)
  have c: "sb_contains b i \<longleftrightarrow> (\<exists>e \<in> set (all_pending b). pid e = i)"
    using k(2) by (simp add: sb_contains_def map_of_eq_None_iff) (metis imageE imageI)
  have "all_pending (snd (sb_cancel b i)) = filter (\<lambda>e. pid e \<noteq> i) (all_pending b)"
    using cancel_is_without [OF ok, of i] all_pending_without by (auto simp: filter_id_conv)
  moreover have "fst (sb_cancel b i) = sb_contains b i" using cancel_is_without [OF ok, of i] c by simp
  moreover have "accountOf b (pid e) = no_accountId (pn_order (snd e)) \<and> clientOrderIdOf b (pid e) = no_clientOrderId (pn_order (snd e))
      \<and> quantityOf b (pid e) = no_quantity (pn_order (snd e))" if "e \<in> set (all_pending b)" for e
    using loc_of [OF ok that] by (auto simp: accountOf_def clientOrderIdOf_def quantityOf_def loc_for_def Let_def)
  moreover have "sorted_wrt (<) (sb_ids b)" using k(1) by (simp add: sb_ids_def strict_sorted_iff)
  moreover have "set (sb_ids b) = pid ` set (all_pending b)" using k(2) by (simp add: sb_ids_def)
  ultimately show ?thesis using c by blast
qed

theorem stop_book_consistent_witness:
  "sb_ids (fold stop_exec [StopAdd (stop_order 4 BUY STOP_MARKET 0) 100 False, StopAdd (stop_order 2 SELL STOP_LIMIT 0) 110 False,
      StopCancel 4] new_stop_book) = [2]
   \<and> fst (sb_cancel (fold stop_exec [StopAdd (stop_order 4 BUY STOP_MARKET 0) 100 False, StopAdd (stop_order 2 SELL STOP_LIMIT 0) 110 False,
      StopCancel 4] new_stop_book) 2)"
proof -
  let ?cs = "[StopAdd (stop_order 4 BUY STOP_MARKET 0) 100 False, StopAdd (stop_order 2 SELL STOP_LIMIT 0) 110 False, StopCancel 4]"
  have a: "stops_admissible new_stop_book ?cs" by code_simp
  have c: "sb_contains (fold stop_exec ?cs new_stop_book) 2" "sb_ids (fold stop_exec ?cs new_stop_book) = [2]" by code_simp+
  from stop_book_consistent [OF a, of 2] c show ?thesis by simp
qed

lemma ratchet_extreme:
  assumes "0 < pn_trigger s" "0 \<le> no_trailingOffset (pn_order s)" "\<forall>r \<in> set rs. no_trailingOffset (pn_order s) < r"
  shows "fold ratchet rs s = s\<lparr>pn_trigger :=
      (if no_side (pn_order s) = SELL then Max (set (pn_trigger s # map (\<lambda>r. r - no_trailingOffset (pn_order s)) rs))
       else Min (set (pn_trigger s # map (\<lambda>r. r + no_trailingOffset (pn_order s)) rs)))\<rparr>"
  using assms
proof (induction rs arbitrary: s)
  case Nil
  then show ?case by simp
next
  case (Cons r rs)
  let ?off = "no_trailingOffset (pn_order s)"
  have r: "ratchet r s = s\<lparr>pn_trigger := (if no_side (pn_order s) = SELL then max (pn_trigger s) (r - ?off) else min (pn_trigger s) (r + ?off))\<rparr>"
    using Cons.prems(1) by (auto simp: ratchet_def Let_def max_def min_def)
  have p: "0 < pn_trigger (ratchet r s)" using Cons.prems by (auto simp: r max_def min_def)
  have "Max (insert (max t x) A) = Max (insert t (insert x A))" "Min (insert (min t x) A) = Min (insert t (insert x A))"
    if "finite A" for t x :: int and A using that by (cases "A = {}"; simp add: max.assoc min.assoc)+
  then show ?case using Cons.IH [OF p] Cons.prems by (simp add: r)
qed

text \<open>
  A trailing stop only tightens, and to the best price seen: after any sequence of
  reference prices above its offset, a parked sell's trigger is the highest price less the
  offset, or the trigger it started with if that was higher, and a parked buy's the lowest price
  plus the offset, or its first trigger if that was lower; nothing else of a trailing order
  changes.
\<close>

theorem trailing_tracks_extreme:
  assumes "\<forall>s \<in> set (sb_trailing b). 0 < pn_trigger s \<and> 0 \<le> no_trailingOffset (pn_order s)
      \<and> (\<forall>r \<in> set rs. no_trailingOffset (pn_order s) < r)"
  shows "sb_trailing (fold updateTrailing rs b) = map (\<lambda>s. s\<lparr>pn_trigger :=
      (if no_side (pn_order s) = SELL then Max (set (pn_trigger s # map (\<lambda>r. r - no_trailingOffset (pn_order s)) rs))
       else Min (set (pn_trigger s # map (\<lambda>r. r + no_trailingOffset (pn_order s)) rs)))\<rparr>) (sb_trailing b)"
proof -
  have "sb_trailing (fold updateTrailing rs b) = map (fold ratchet rs) (sb_trailing b)"
    by (induction rs arbitrary: b) (simp_all add: updateTrailing_def comp_def)
  also have "\<dots> = map (\<lambda>s. s\<lparr>pn_trigger :=
      (if no_side (pn_order s) = SELL then Max (set (pn_trigger s # map (\<lambda>r. r - no_trailingOffset (pn_order s)) rs))
       else Min (set (pn_trigger s # map (\<lambda>r. r + no_trailingOffset (pn_order s)) rs)))\<rparr>) (sb_trailing b)"
    using assms ratchet_extreme by (intro map_cong refl) blast
  finally show ?thesis .
qed

theorem trailing_tracks_extreme_witness:
  "map pn_trigger (sb_trailing (fold updateTrailing [120, 115, 130, 90]
     (new_stop_book\<lparr>sb_trailing := [\<lparr>pn_order = stop_order 9 SELL TRAILING_STOP 5, pn_trigger = 95\<rparr>]\<rparr>))) = [125]"
  using trailing_tracks_extreme [of "new_stop_book\<lparr>sb_trailing := [\<lparr>pn_order = stop_order 9 SELL TRAILING_STOP 5, pn_trigger = 95\<rparr>]\<rparr>"
      "[120, 115, 130, 90]"]
  by (simp add: stop_order_def)

end
