(* ===== verification/OcoBook.thy ===== *)
theory OcoBook
  imports Prelude
begin

section \<open>One-cancels-the-other groups\<close>

text \<open>
  \<^verbatim>\<open>OcoBook\<close> of \<^verbatim>\<open>venue/include/flox-venue/engine/oco.h\<close>: the membership of orders in groups,
  kept in both directions, the fills noted while matching, and the losers handed back when the
  groups they decided are resolved. The two \<^verbatim>\<open>unordered_map\<close>s are association lists. The
  invariant \<open>oco_ok\<close> says the two directions agree; \<open>drainLosers\<close> is compared with what the
  fills decide, group by group.
\<close>

subsection \<open>The code\<close>

record oco_book =
  oc_group :: "(nat \<times> nat) list"
  oc_members :: "(nat \<times> nat list) list"
  oc_pending :: "(nat \<times> nat) list"

definition new_oco :: oco_book where
  "new_oco = \<lparr>oc_group = [], oc_members = [], oc_pending = []\<rparr>"

definition members_of :: "oco_book \<Rightarrow> nat \<Rightarrow> nat list" where
  "members_of b g = (case map_of (oc_members b) g of None \<Rightarrow> [] | Some ms \<Rightarrow> ms)"

definition oco_link :: "nat \<Rightarrow> nat \<Rightarrow> oco_book \<Rightarrow> oco_book" where
  "oco_link i g b = b\<lparr>oc_group := AList.update i g (oc_group b),
     oc_members := AList.update g (members_of b g @ [i]) (oc_members b)\<rparr>"

definition unlinkGrouped :: "nat \<Rightarrow> oco_book \<Rightarrow> oco_book" where
  "unlinkGrouped i b =
     (case map_of (oc_group b) i of
        None \<Rightarrow> b
      | Some g \<Rightarrow>
          (let b1 = (case map_of (oc_members b) g of
                       None \<Rightarrow> b
                     | Some v \<Rightarrow>
                         (let v' = filter (\<lambda>j. j \<noteq> i) v
                          in if v' = [] then b\<lparr>oc_members := AList.delete g (oc_members b)\<rparr>
                             else b\<lparr>oc_members := AList.update g v' (oc_members b)\<rparr>))
           in b1\<lparr>oc_group := AList.delete i (oc_group b1)\<rparr>))"

definition oco_unlink :: "nat \<Rightarrow> oco_book \<Rightarrow> oco_book" where
  "oco_unlink i b = (if oc_group b = [] then b else unlinkGrouped i b)"

definition groupOf :: "oco_book \<Rightarrow> nat \<Rightarrow> nat" where
  "groupOf b i = (case map_of (oc_group b) i of None \<Rightarrow> 0 | Some g \<Rightarrow> g)"

definition oco_empty :: "oco_book \<Rightarrow> bool" where
  "oco_empty b \<longleftrightarrow> oc_group b = []"

definition noteFill :: "nat \<Rightarrow> nat \<Rightarrow> oco_book \<Rightarrow> oco_book" where
  "noteFill makerId takerId b =
     (let p1 = (case map_of (oc_group b) makerId of Some g \<Rightarrow> [(g, makerId)] | None \<Rightarrow> []);
          p2 = (case map_of (oc_group b) takerId of Some g \<Rightarrow> [(g, takerId)] | None \<Rightarrow> [])
      in b\<lparr>oc_pending := oc_pending b @ p1 @ p2\<rparr>)"

definition nothingPending :: "oco_book \<Rightarrow> bool" where
  "nothingPending b \<longleftrightarrow> oc_pending b = []"

definition dissolve :: "nat \<times> nat \<Rightarrow> nat list \<times> oco_book \<Rightarrow> nat list \<times> oco_book" where
  "dissolve gw acc =
     (case (gw, acc) of ((g, winner), (out, b)) \<Rightarrow>
       (case map_of (oc_members b) g of
          None \<Rightarrow> (out, b)
        | Some ms \<Rightarrow>
            (let members = sort ms
             in (out @ filter (\<lambda>i. i \<noteq> winner) members,
                 b\<lparr>oc_members := AList.delete g (oc_members b),
                   oc_group := fold AList.delete members (oc_group b)\<rparr>))))"

definition drainLosers :: "oco_book \<Rightarrow> nat list \<times> oco_book" where
  "drainLosers b = (case fold dissolve (oc_pending b) ([], b) of (out, b') \<Rightarrow> (out, b'\<lparr>oc_pending := []\<rparr>))"

subsection \<open>The two indexes agree\<close>

definition idx_ok :: "(nat \<rightharpoonup> nat) \<Rightarrow> (nat \<rightharpoonup> nat list) \<Rightarrow> bool" where
  "idx_ok G M \<longleftrightarrow> (\<forall>g ms. M g = Some ms \<longrightarrow> ms \<noteq> [] \<and> distinct ms)
     \<and> (\<forall>i g. G i = Some g \<longleftrightarrow> (\<exists>ms. M g = Some ms \<and> i \<in> set ms))"

definition listed :: "(nat \<rightharpoonup> nat list) \<Rightarrow> nat \<Rightarrow> nat list" where
  "listed M g = (case M g of None \<Rightarrow> [] | Some ms \<Rightarrow> ms)"

definition oco_ok :: "oco_book \<Rightarrow> bool" where
  "oco_ok b \<longleftrightarrow> idx_ok (map_of (oc_group b)) (map_of (oc_members b))"

lemma idx_listed: "idx_ok G M \<Longrightarrow> G i = Some g \<longleftrightarrow> i \<in> set (listed M g)"
  by (cases "M g") (auto simp: idx_ok_def listed_def)

lemma idx_link:
  assumes "idx_ok G M" "G i = None"
  shows "idx_ok (G(i \<mapsto> g)) (M(g \<mapsto> listed M g @ [i]))"
proof -
  have n: "i \<notin> set ms" if "M h = Some ms" for h ms using assms that by (metis idx_ok_def option.distinct(1))
  have d: "distinct (listed M g @ [i])" using assms(1) n by (auto simp: listed_def idx_ok_def split: option.splits)
  show ?thesis
    unfolding idx_ok_def
  proof (intro conjI allI impI)
    fix h ms assume "(M(g \<mapsto> listed M g @ [i])) h = Some ms"
    then show "ms \<noteq> []" "distinct ms" using assms(1) d by (auto simp: idx_ok_def split: if_splits)
  next
    fix j h
    show "(G(i \<mapsto> g)) j = Some h \<longleftrightarrow> (\<exists>ms. (M(g \<mapsto> listed M g @ [i])) h = Some ms \<and> j \<in> set ms)"
      using idx_listed [OF assms(1), of j h] idx_listed [OF assms(1), of i h] assms(2)
      by (cases "M h") (auto simp: listed_def)
  qed
qed

lemma idx_remove:
  assumes "idx_ok G M" "M' = (\<lambda>g. case M g of None \<Rightarrow> None | Some ms \<Rightarrow> let v = filter P ms in if v = [] then None else Some v)"
    and "\<And>i. G' i = (if P i then G i else None)"
  shows "idx_ok G' M'"
  unfolding idx_ok_def
proof (intro conjI allI impI)
  fix g ms assume "M' g = Some ms"
  then show "ms \<noteq> []" "distinct ms" using assms(1) by (auto simp: assms(2) idx_ok_def Let_def split: option.splits if_splits)
next
  fix i g
  have "(\<exists>ms. M' g = Some ms \<and> i \<in> set ms) \<longleftrightarrow> i \<in> set (listed M g) \<and> P i"
    by (auto simp: assms(2) listed_def Let_def filter_empty_conv split: option.splits)
  then show "G' i = Some g \<longleftrightarrow> (\<exists>ms. M' g = Some ms \<and> i \<in> set ms)"
    using idx_listed [OF assms(1), of i g] by (simp add: assms(3))
qed

lemma members_of_listed: "members_of b = listed (map_of (oc_members b))"
  by (rule ext) (simp add: members_of_def listed_def)

lemma oco_ok_link:
  assumes "oco_ok b" "map_of (oc_group b) i = None"
  shows "oco_ok (oco_link i g b)"
  using idx_link [OF assms(1) [unfolded oco_ok_def] assms(2), of g]
  by (simp add: oco_ok_def oco_link_def members_of_listed update_conv')

lemma filter_others:
  assumes "idx_ok G M" "G i = Some g" "M h = Some ms" "h \<noteq> g"
  shows "filter (\<lambda>j. j \<noteq> i) ms = ms" "ms \<noteq> []"
  using assms unfolding idx_ok_def filter_id_conv by (metis option.inject)+

lemma oco_ok_unlink:
  assumes "oco_ok b"
  shows "oco_ok (oco_unlink i b)"
proof (cases "map_of (oc_group b) i")
  case None
  then show ?thesis using assms by (simp add: oco_unlink_def unlinkGrouped_def)
next
  case (Some g)
  let ?G = "map_of (oc_group b)" and ?M = "map_of (oc_members b)"
  have ok: "idx_ok ?G ?M" using assms by (simp add: oco_ok_def)
  obtain v where v: "?M g = Some v" "i \<in> set v" using Some ok by (metis idx_ok_def)
  have u: "oc_group (oco_unlink i b) = AList.delete i (oc_group b)"
    "oc_members (oco_unlink i b) = (if filter (\<lambda>j. j \<noteq> i) v = [] then AList.delete g (oc_members b)
        else AList.update g (filter (\<lambda>j. j \<noteq> i) v) (oc_members b))"
    using Some v by (auto simp: oco_unlink_def unlinkGrouped_def Let_def)
  have "map_of (oc_members (oco_unlink i b)) h = (case ?M h of None \<Rightarrow> None
      | Some ms \<Rightarrow> let v = filter (\<lambda>j. j \<noteq> i) ms in if v = [] then None else Some v)" for h
    using v filter_others [OF ok Some, of h] by (auto simp: u update_conv' delete_conv' Let_def split: option.splits)
  then show ?thesis
    unfolding oco_ok_def by (intro idx_remove [OF ok, of _ "\<lambda>j. j \<noteq> i"]) (auto simp: fun_eq_iff u delete_conv')
qed

lemma map_of_fold_delete: "map_of (fold AList.delete is m) i = (if i \<in> set is then None else map_of m i)"
  by (induction "is" arbitrary: m) (auto simp: delete_conv')

subsection \<open>Resolution\<close>

text \<open>The fills that decide: the first one of each group, in the order of the prints.\<close>

fun decided :: "(nat \<times> nat) list \<Rightarrow> (nat \<times> nat) list" where
  "decided [] = []"
| "decided ((g, w) # ps) = (g, w) # filter (\<lambda>(h, _). h \<noteq> g) (decided ps)"

definition losers_of :: "(nat \<Rightarrow> nat list) \<Rightarrow> nat \<times> nat \<Rightarrow> nat list" where
  "losers_of M gw = filter (\<lambda>i. i \<noteq> snd gw) (sort (M (fst gw)))"

lemma dissolve_effect:
  assumes "oco_ok b"
  shows "\<exists>b'. dissolve gw (out, b) = (out @ losers_of (members_of b) gw, b') \<and> oco_ok b'
    \<and> members_of b' = (members_of b)(fst gw := [])"
proof (cases "map_of (oc_members b) (fst gw)")
  case None
  then have "members_of b (fst gw) = []" by (simp add: members_of_def)
  then show ?thesis using None assms by (cases gw) (simp add: dissolve_def losers_of_def fun_upd_idem)
next
  case (Some ms)
  obtain g w where gw: "gw = (g, w)" by (cases gw)
  have ok: "idx_ok (map_of (oc_group b)) (map_of (oc_members b))" using assms by (simp add: oco_ok_def)
  define b' where "b' = b\<lparr>oc_members := AList.delete g (oc_members b), oc_group := fold AList.delete (sort ms) (oc_group b)\<rparr>"
  have d: "dissolve gw (out, b) = (out @ losers_of (members_of b) gw, b')"
    using Some gw by (simp add: dissolve_def losers_of_def b'_def Let_def members_of_def)
  have m: "members_of b' = (members_of b)(g := [])" by (rule ext) (simp add: b'_def members_of_def delete_conv')
  have "filter (\<lambda>i. i \<notin> set ms) v = v \<and> v \<noteq> []" if "map_of (oc_members b) h = Some v" "h \<noteq> g" for h v
    using ok that Some gw unfolding idx_ok_def filter_id_conv by (metis fst_conv option.inject)
  moreover have "filter (\<lambda>i. i \<notin> set ms) ms = []" by (simp add: filter_empty_conv)
  ultimately have "map_of (oc_members b') = (\<lambda>h. case map_of (oc_members b) h of None \<Rightarrow> None
      | Some v \<Rightarrow> let v = filter (\<lambda>i. i \<notin> set ms) v in if v = [] then None else Some v)"
    using Some gw by (intro ext) (auto simp: b'_def delete_conv' Let_def split: option.splits)
  from idx_remove [OF ok this] have "oco_ok b'" by (simp add: oco_ok_def b'_def map_of_fold_delete)
  then show ?thesis using d m gw by auto
qed

lemma losers_cleared: "losers_of (M(g := [])) (h, w) = (if h = g then [] else losers_of M (h, w))"
  by (simp add: losers_of_def)

lemma fold_dissolve:
  assumes "oco_ok b"
  shows "\<exists>b'. fold dissolve ps (out, b) = (out @ concat (map (losers_of (members_of b)) (decided ps)), b') \<and> oco_ok b'
    \<and> members_of b' = (\<lambda>g. if g \<in> fst ` set ps then [] else members_of b g)"
  using assms
proof (induction ps arbitrary: out b)
  case (Cons p ps)
  obtain g w where p: "p = (g, w)" by (cases p)
  obtain b1 where b1: "dissolve p (out, b) = (out @ losers_of (members_of b) p, b1)" "oco_ok b1" "members_of b1 = (members_of b)(g := [])"
    using dissolve_effect [OF Cons.prems, of p out] p by auto
  obtain b' where b': "fold dissolve ps (out @ losers_of (members_of b) p, b1)
      = ((out @ losers_of (members_of b) p) @ concat (map (losers_of (members_of b1)) (decided ps)), b')" "oco_ok b'"
    "members_of b' = (\<lambda>g. if g \<in> fst ` set ps then [] else members_of b1 g)"
    using Cons.IH [OF b1(2)] by blast
  have "concat (map (losers_of (members_of b1)) ds) = concat (map (losers_of (members_of b)) (filter (\<lambda>(h, _). h \<noteq> g) ds))" for ds
    unfolding b1(3) by (induction ds) (auto simp: losers_cleared simp del: fun_upd_apply)
  then show ?case using b1 b' p by auto
qed simp

lemma option_filter:
  assumes "\<And>g. x = Some g \<longleftrightarrow> y = Some g \<and> P g"
  shows "x = (case y of None \<Rightarrow> None | Some g \<Rightarrow> if P g then Some g else None)"
proof (cases y)
  case None
  then have "x \<noteq> Some g" for g using assms [of g] by simp
  then have "x = None" by (cases x) auto
  then show ?thesis using None by simp
next
  case (Some g)
  then have "x \<noteq> Some h" if "\<not> P g" for h using assms [of h] that by auto
  then have "x = None" if "\<not> P g" using that by (cases x) auto
  then show ?thesis using assms [of g] Some by simp
qed

subsection \<open>Histories\<close>

datatype oco_cmd = OcoLink nat nat | OcoUnlink nat | OcoFill nat nat | OcoDrain

fun oco_exec :: "oco_cmd \<Rightarrow> oco_book \<Rightarrow> oco_book" where
  "oco_exec (OcoLink i g) b = oco_link i g b"
| "oco_exec (OcoUnlink i) b = oco_unlink i b"
| "oco_exec (OcoFill m t) b = noteFill m t b"
| "oco_exec OcoDrain b = snd (drainLosers b)"

fun oco_admissible :: "oco_book \<Rightarrow> oco_cmd list \<Rightarrow> bool" where
  "oco_admissible b [] \<longleftrightarrow> True"
| "oco_admissible b (c # cs) \<longleftrightarrow>
     (case c of OcoLink i g \<Rightarrow> map_of (oc_group b) i = None \<and> g \<noteq> 0 | _ \<Rightarrow> True) \<and> oco_admissible (oco_exec c b) cs"

lemma oco_ok_pending [simp]: "oco_ok (b\<lparr>oc_pending := p\<rparr>) = oco_ok b" "members_of (b\<lparr>oc_pending := p\<rparr>) = members_of b"
  by (simp_all add: oco_ok_def members_of_listed)

lemma drain_effect:
  assumes "oco_ok b"
  shows "\<exists>b'. drainLosers b = (concat (map (losers_of (members_of b)) (decided (oc_pending b))), b') \<and> oco_ok b'
    \<and> members_of b' = (\<lambda>g. if g \<in> fst ` set (oc_pending b) then [] else members_of b g) \<and> oc_pending b' = []"
proof -
  obtain b1 where "fold dissolve (oc_pending b) ([], b) = (concat (map (losers_of (members_of b)) (decided (oc_pending b))), b1)"
    "oco_ok b1" "members_of b1 = (\<lambda>g. if g \<in> fst ` set (oc_pending b) then [] else members_of b g)"
    using fold_dissolve [OF assms, of "oc_pending b" "[]"] by auto
  then show ?thesis by (intro exI [of _ "b1\<lparr>oc_pending := []\<rparr>"]) (simp add: drainLosers_def)
qed

lemma oco_ok_exec:
  assumes "oco_ok b" "oco_admissible b [c]"
  shows "oco_ok (oco_exec c b)"
proof (cases c)
  case OcoDrain
  then show ?thesis using drain_effect [OF assms(1)] by auto
qed (use assms oco_ok_link oco_ok_unlink in \<open>auto simp: noteFill_def Let_def\<close>)

lemma oco_ok_run: "oco_ok b \<Longrightarrow> oco_admissible b cs \<Longrightarrow> oco_ok (fold oco_exec cs b)"
  by (induction cs arbitrary: b) (use oco_ok_exec in auto)

lemma oco_ok_new: "oco_ok new_oco"
  by (simp add: oco_ok_def new_oco_def idx_ok_def)

text \<open>
  C25. A decided group keeps only its winner: after any history of links (fresh orders, real
  groups), departures, fills and resolutions, draining hands back, for every group a noted fill
  decided and in the order of the deciding prints, exactly its remaining members other than the
  order of the first such print, in ascending order; those groups are dissolved, no other order
  loses its group, nothing is pending, and the two indexes still agree.
\<close>

theorem oco_losers_exact:
  assumes "oco_admissible new_oco cs"
  defines "b \<equiv> fold oco_exec cs new_oco"
  shows "fst (drainLosers b) = concat (map (losers_of (members_of b)) (decided (oc_pending b)))
    \<and> oco_ok (snd (drainLosers b)) \<and> nothingPending (snd (drainLosers b))
    \<and> groupOf (snd (drainLosers b)) i = (if groupOf b i \<in> fst ` set (oc_pending b) then 0 else groupOf b i)"
proof -
  have ok: "oco_ok b" unfolding b_def by (rule oco_ok_run [OF oco_ok_new assms(1)])
  obtain b' where b': "drainLosers b = (concat (map (losers_of (members_of b)) (decided (oc_pending b))), b')" "oco_ok b'"
    "members_of b' = (\<lambda>g. if g \<in> fst ` set (oc_pending b) then [] else members_of b g)" "oc_pending b' = []"
    using drain_effect [OF ok] by blast
  have G: "map_of (oc_group c) i = Some g \<longleftrightarrow> i \<in> set (members_of c g)" if "oco_ok c" for c g
    using that idx_listed by (simp add: oco_ok_def members_of_listed)
  have "map_of (oc_group b') i = Some g \<longleftrightarrow> map_of (oc_group b) i = Some g \<and> g \<notin> fst ` set (oc_pending b)" for g
    unfolding G [OF b'(2)] G [OF ok] b'(3) by simp
  note filtered = option_filter [OF this]
  show ?thesis unfolding groupOf_def filtered using b'(1,2,4) filtered by (cases "map_of (oc_group b) i") (simp_all add: nothingPending_def)
qed

theorem oco_losers_exact_witness:
  "fst (drainLosers (fold oco_exec [OcoLink 5 1, OcoLink 3 1, OcoLink 4 1, OcoLink 8 2, OcoFill 3 20, OcoFill 4 21, OcoUnlink 4] new_oco)) = [5]
   \<and> groupOf (snd (drainLosers (fold oco_exec [OcoLink 5 1, OcoLink 3 1, OcoLink 4 1, OcoLink 8 2, OcoFill 3 20, OcoFill 4 21, OcoUnlink 4]
       new_oco))) 8 = 2"
proof -
  let ?cs = "[OcoLink 5 1, OcoLink 3 1, OcoLink 4 1, OcoLink 8 2, OcoFill 3 20, OcoFill 4 21, OcoUnlink 4]"
  have "oco_admissible new_oco ?cs" by code_simp
  moreover have "concat (map (losers_of (members_of (fold oco_exec ?cs new_oco))) (decided (oc_pending (fold oco_exec ?cs new_oco)))) = [5]"
    "groupOf (fold oco_exec ?cs new_oco) 8 = 2" "2 \<notin> fst ` set (oc_pending (fold oco_exec ?cs new_oco))" by code_simp+
  ultimately show ?thesis using oco_losers_exact [of ?cs 8] by simp
qed

end
