(* ===== verification/StateDigest.thy ===== *)
theory StateDigest
  imports Prelude
begin

section \<open>State digests and snapshot sections\<close>

text \<open>
  The conduct components (client order identifiers, pegs, self-trade prevention, market-maker
  protection) keep their state in \<^verbatim>\<open>std::unordered_map\<close>s and share one discipline: the
  determinism digest and the snapshot both walk the keys in ascending order
  (\<^verbatim>\<open>sorted_keys.h\<close>), each entry folds its fields behind a section marker
  (\<^verbatim>\<open>state_hash_tags.h\<close>, \<^verbatim>\<open>mix\<close> of \<^verbatim>\<open>event_hash.h\<close>), and recovery replays the appended
  records. The theory holds the shared code and the contract a component has to meet for its
  section to restore exactly, as the locale \<open>snapshot_section\<close>.
\<close>

unbundle bit_operations_syntax

subsection \<open>The code\<close>

definition mix :: "64 word \<Rightarrow> 64 word \<Rightarrow> 64 word" where
  "mix h v = h XOR (v + 0x9e3779b97f4a7c15 + push_bit 6 h + drop_bit 2 h)"

definition sortedKeysOf :: "('k :: linorder \<times> 'v) list \<Rightarrow> 'k list" where
  "sortedKeysOf m = sort (map fst m)"

definition kRestingOrder :: "64 word" where "kRestingOrder = 0xB001"
definition kStop :: "64 word" where "kStop = 0xB002"
definition kPeg :: "64 word" where "kPeg = 0xB003"
definition kHold :: "64 word" where "kHold = 0xB004"
definition kPosition :: "64 word" where "kPosition = 0xB005"
definition kMmpConfig :: "64 word" where "kMmpConfig = 0xB006"
definition kClOrdIdAccount :: "64 word" where "kClOrdIdAccount = 0xB007"
definition kBalance :: "64 word" where "kBalance = 0xB008"
definition kReservation :: "64 word" where "kReservation = 0xB009"
definition kSessionClosed :: "64 word" where "kSessionClosed = 0xB00A"
definition kFunding :: "64 word" where "kFunding = 0xB00B"
definition kOrderStp :: "64 word" where "kOrderStp = 0xB00C"
definition kAdmissionProfile :: "64 word" where "kAdmissionProfile = 0xB00D"
definition kSessionDelisted :: "64 word" where "kSessionDelisted = 0xB00E"
definition kPostOnlyOrder :: "64 word" where "kPostOnlyOrder = 0xB00F"
definition kAccountRiskLimits :: "64 word" where "kAccountRiskLimits = 0xB010"
definition kStpGroup :: "64 word" where "kStpGroup = 0xB011"
definition kMmpFills :: "64 word" where "kMmpFills = 0xB012"

definition kAll :: "64 word list" where
  "kAll = [kRestingOrder, kStop, kPeg, kHold, kPosition, kMmpConfig, kClOrdIdAccount, kBalance,
     kReservation, kSessionClosed, kFunding, kOrderStp, kAdmissionProfile, kSessionDelisted,
     kPostOnlyOrder, kAccountRiskLimits, kStpGroup, kMmpFills]"

text \<open>
  The two traversals, with what one entry contributes as the argument: the records it appends,
  and the fold of its fields. \<^verbatim>\<open>at\<close> is called on keys just enumerated, so the look-up succeeds.
\<close>

definition write_section :: "('k :: linorder \<Rightarrow> 'v \<Rightarrow> 'r list) \<Rightarrow> ('k \<times> 'v) list \<Rightarrow> 'r list" where
  "write_section f t = concat (map (\<lambda>k. case map_of t k of None \<Rightarrow> [] | Some v \<Rightarrow> f k v) (sortedKeysOf t))"

definition digest_section :: "('k :: linorder \<Rightarrow> 'v \<Rightarrow> 64 word \<Rightarrow> 64 word) \<Rightarrow> ('k \<times> 'v) list \<Rightarrow> 64 word \<Rightarrow> 64 word" where
  "digest_section f t h = fold (\<lambda>k. case map_of t k of None \<Rightarrow> id | Some v \<Rightarrow> f k v) (sortedKeysOf t) h"

subsection \<open>The markers are distinct\<close>

lemma kAll_distinct: "distinct kAll"
  by code_simp

subsection \<open>Independence of the table's layout\<close>

lemma set_sortedKeysOf [simp]: "set (sortedKeysOf t) = dom (map_of t)"
  by (simp add: sortedKeysOf_def dom_map_of_conv_image_fst)

lemma distinct_sortedKeysOf [simp]: "distinct (sortedKeysOf t) \<longleftrightarrow> distinct (map fst t)"
  by (simp add: sortedKeysOf_def)

lemma sorted_sortedKeysOf [simp]: "sorted (sortedKeysOf t)"
  by (simp add: sortedKeysOf_def)

lemma sortedKeysOf_cong:
  "distinct (map fst t) \<Longrightarrow> distinct (map fst u) \<Longrightarrow> dom (map_of t) = dom (map_of u) \<Longrightarrow> sortedKeysOf t = sortedKeysOf u"
  by (intro sorted_distinct_set_unique) simp_all

lemma sections_layout_independent:
  assumes "distinct (map fst t)" "distinct (map fst u)" "map_of t = map_of u"
  shows "write_section f t = write_section f u" "digest_section g t = digest_section g u"
  using sortedKeysOf_cong [OF assms(1,2)] assms(3) by (simp_all add: write_section_def digest_section_def fun_eq_iff)

subsection \<open>The contract of a section\<close>

text \<open>
  A component promises: an entry that is written is rebuilt by its own records when the table
  does not hold its key yet, and an entry that writes nothing folds nothing.
\<close>

locale snapshot_section =
  fixes records :: "'k :: linorder \<Rightarrow> 'v \<Rightarrow> 'r list"
    and restore :: "'r \<Rightarrow> ('k \<times> 'v) list \<Rightarrow> ('k \<times> 'v) list"
    and digest :: "'k \<Rightarrow> 'v \<Rightarrow> 64 word \<Rightarrow> 64 word"
    and legal :: "'k \<Rightarrow> 'v \<Rightarrow> bool"
    and written :: "'v \<Rightarrow> bool"
  assumes restore_entry: "legal k v \<Longrightarrow> written v \<Longrightarrow> map_of t k = None \<Longrightarrow>
      map_of (fold restore (records k v) t) = (map_of t)(k \<mapsto> v)"
    and restore_distinct: "distinct (map fst t) \<Longrightarrow> distinct (map fst (restore r t))"
    and unwritten: "\<not> written v \<Longrightarrow> records k v = [] \<and> digest k v = id"
begin

definition legal_table :: "('k \<times> 'v) list \<Rightarrow> bool" where
  "legal_table t \<longleftrightarrow> distinct (map fst t) \<and> (\<forall>k v. map_of t k = Some v \<longrightarrow> legal k v)"

definition written_part :: "('k \<times> 'v) list \<Rightarrow> 'k \<Rightarrow> 'v option" where
  "written_part t k = (case map_of t k of None \<Rightarrow> None | Some v \<Rightarrow> if written v then Some v else None)"

lemma restored_distinct: "distinct (map fst t) \<Longrightarrow> distinct (map fst (fold restore rs t))"
  by (induction rs arbitrary: t) (simp_all add: restore_distinct)

lemma restore_keys_run:
  assumes "legal_table t" "set ks \<subseteq> dom (map_of t)" "distinct ks" "\<forall>k \<in> set ks. map_of u k = None"
  shows "map_of (fold restore (concat (map (\<lambda>k. case map_of t k of None \<Rightarrow> [] | Some v \<Rightarrow> records k v) ks)) u)
    = (\<lambda>k. if k \<in> set ks then written_part t k else map_of u k)"
  using assms(2-4)
proof (induction ks arbitrary: u)
  case (Cons k ks)
  obtain v where v: "map_of t k = Some v" using Cons.prems(1) by auto
  let ?u = "fold restore (records k v) u"
  have u: "map_of ?u = (map_of u)(k := written_part t k)"
  proof (cases "written v")
    case True
    have "legal k v" "map_of u k = None" using assms(1) v Cons.prems(3) by (simp_all add: legal_table_def)
    then show ?thesis using restore_entry True v by (simp add: written_part_def)
  next
    case False
    then show ?thesis using unwritten Cons.prems(3) v by (simp add: written_part_def fun_upd_idem)
  qed
  have "\<forall>j \<in> set ks. map_of ?u j = None" using Cons.prems u by auto
  with Cons.IH [of ?u] Cons.prems(1,2)
  have "map_of (fold restore (concat (map (\<lambda>k. case map_of t k of None \<Rightarrow> [] | Some v \<Rightarrow> records k v) ks)) ?u)
    = (\<lambda>j. if j \<in> set ks then written_part t j else map_of ?u j)" by simp
  then show ?case using v u by (auto simp: fun_eq_iff)
qed simp

lemma restored_map:
  assumes "legal_table t"
  shows "map_of (fold restore (write_section records t) []) = written_part t"
proof -
  have "distinct (map fst t)" using assms by (simp add: legal_table_def)
  then have "map_of (fold restore (write_section records t) []) = (\<lambda>k. if k \<in> set (sortedKeysOf t) then written_part t k else None)"
    unfolding write_section_def by (subst restore_keys_run [OF assms]) (simp_all add: fun_eq_iff)
  then show ?thesis by (auto simp: fun_eq_iff written_part_def split: option.splits)
qed

lemma digest_written_keys:
  "digest_section digest t h = fold (\<lambda>k. case written_part t k of None \<Rightarrow> id | Some v \<Rightarrow> digest k v)
     (filter (\<lambda>k. written_part t k \<noteq> None) (sortedKeysOf t)) h"
proof -
  have "fold (\<lambda>k. case map_of t k of None \<Rightarrow> id | Some v \<Rightarrow> digest k v) ks h
    = fold (\<lambda>k. case written_part t k of None \<Rightarrow> id | Some v \<Rightarrow> digest k v) (filter (\<lambda>k. written_part t k \<noteq> None) ks) h" for ks
    by (induction ks arbitrary: h) (auto simp: written_part_def unwritten split: option.splits)
  then show ?thesis by (simp add: digest_section_def)
qed

lemma digest_of_written_part:
  assumes "distinct (map fst t)" "distinct (map fst u)" "written_part t = written_part u"
  shows "digest_section digest t = digest_section digest u"
proof -
  have "filter (\<lambda>k. written_part t k \<noteq> None) (sortedKeysOf t) = filter (\<lambda>k. written_part u k \<noteq> None) (sortedKeysOf u)"
  proof (rule sorted_distinct_set_unique)
    have *: "dom (map_of s) \<inter> {k. written_part s k \<noteq> None} = {k. written_part s k \<noteq> None}" for s
      by (auto simp: written_part_def dom_def split: option.splits)
    show "set (filter (\<lambda>k. written_part t k \<noteq> None) (sortedKeysOf t)) = set (filter (\<lambda>k. written_part u k \<noteq> None) (sortedKeysOf u))"
      using * [of t] * [of u] assms(3) by auto
  qed (use assms in \<open>simp_all add: sorted_wrt_filter\<close>)
  then show ?thesis by (simp add: digest_written_keys fun_eq_iff assms(3))
qed

lemma restored_digest:
  assumes "legal_table t"
  shows "digest_section digest (fold restore (write_section records t) []) = digest_section digest t"
proof (rule digest_of_written_part)
  show "distinct (map fst (fold restore (write_section records t) []))" by (rule restored_distinct) simp
  show "distinct (map fst t)" using assms by (simp add: legal_table_def)
  show "written_part (fold restore (write_section records t) []) = written_part t"
    unfolding written_part_def restored_map [OF assms] by (auto simp: fun_eq_iff written_part_def split: option.splits)
qed

lemma restored_exact:
  assumes "legal_table t" "\<forall>k v. map_of t k = Some v \<longrightarrow> written v"
  shows "map_of (fold restore (write_section records t) []) = map_of t"
  unfolding restored_map [OF assms(1)] using assms(2) by (auto simp: fun_eq_iff written_part_def split: option.splits)

end

text \<open>Recovery applies the records in file order and gives the generation up at the first one that is refused.\<close>

primrec restore_all :: "('r \<Rightarrow> 't \<Rightarrow> 't option) \<Rightarrow> 'r list \<Rightarrow> 't \<Rightarrow> 't option" where
  "restore_all f [] t = Some t"
| "restore_all f (r # rs) t = (case f r t of None \<Rightarrow> None | Some t1 \<Rightarrow> restore_all f rs t1)"

lemma restore_all_guarded:
  assumes "\<And>r t. f r t = (if ok r then Some (g r t) else None)"
  shows "restore_all f rs t = (if list_all ok rs then Some (fold g rs t) else None)"
  by (induction rs arbitrary: t) (simp_all add: assms)

lemma write_section_all:
  "list_all P (write_section (\<lambda>k v. [mk k v]) t) \<longleftrightarrow> (\<forall>k v. map_of t k = Some v \<longrightarrow> P (mk k v))"
  by (auto simp: write_section_def list_all_iff simp del: map_of_eq_Some_iff split: option.splits) force

lemma section_single_record:
  fixes mk :: "'k :: linorder \<Rightarrow> 'v \<Rightarrow> 'r" and dig :: "'k \<Rightarrow> 'v \<Rightarrow> 64 word \<Rightarrow> 64 word"
  assumes "\<And>k v t. legal k v \<Longrightarrow> restore (mk k v) t = AList.update k v t"
    and "\<And>r t. distinct (map fst t) \<Longrightarrow> distinct (map fst (restore r t))"
  shows "snapshot_section (\<lambda>k v. [mk k v]) restore dig legal (\<lambda>_. True)"
  using assms by unfold_locales (simp_all add: update_conv')

end
