(* ===== verification/ClOrdIdWindow.thy ===== *)
theory ClOrdIdWindow
  imports StateDigest
begin

section \<open>Client order identifiers: the deduplication window\<close>

text \<open>
  \<^verbatim>\<open>ClOrdIdWindow\<close> of \<^verbatim>\<open>venue/include/flox-venue/engine/clordid_window.h\<close>: per account, the
  client order identifiers already used, in two generations that are rotated on touch. An
  \<^verbatim>\<open>unordered_set\<close> is a \<open>nat set\<close> (finite in every reachable state), the account table an
  association list. \<^verbatim>\<open>writeSnapshot\<close> is the list of the batches it appends to the journal, and
  \<^verbatim>\<open>restore\<close> applies one batch. The table meets the contract \<open>snapshot_section\<close>.
\<close>

subsection \<open>The code\<close>

record generations =
  gn_cur :: "nat set"
  gn_prev :: "nat set"
  gn_rotatedAtNs :: int

type_synonym clordid_window = "(nat \<times> generations) list"

definition empty_generations :: generations where
  "empty_generations = \<lparr>gn_cur = {}, gn_prev = {}, gn_rotatedAtNs = 0\<rparr>"

definition seen_of :: "clordid_window \<Rightarrow> nat \<Rightarrow> generations" where
  "seen_of w account = (case map_of w account of None \<Rightarrow> empty_generations | Some g \<Rightarrow> g)"

definition rotate_window :: "generations \<Rightarrow> int \<Rightarrow> int \<Rightarrow> generations" where
  "rotate_window g nowNs windowNs =
     (if windowNs \<le> 0 then g
      else if gn_rotatedAtNs g = 0 then g\<lparr>gn_rotatedAtNs := nowNs\<rparr>
      else if nowNs - gn_rotatedAtNs g < windowNs then g
      else \<lparr>gn_cur = {}, gn_prev = gn_cur g, gn_rotatedAtNs = nowNs\<rparr>)"

definition duplicate :: "nat \<Rightarrow> nat \<Rightarrow> int \<Rightarrow> int \<Rightarrow> clordid_window \<Rightarrow> bool \<times> clordid_window" where
  "duplicate account clOrdId nowNs windowNs w =
     (if clOrdId = 0 then (False, w)
      else let seen = rotate_window (seen_of w account) nowNs windowNs
           in if clOrdId \<in> gn_prev seen then (True, AList.update account seen w)
              else (clOrdId \<in> gn_cur seen,
                    AList.update account (seen\<lparr>gn_cur := insert clOrdId (gn_cur seen)\<rparr>) w))"

record clordid_batch =
  cb_account :: nat
  cb_generation :: nat
  cb_ids :: "nat list"
  cb_rotatedAtNs :: int

definition kClOrdIdBatch :: nat where
  "kClOrdIdBatch = 32"

definition restore_ids :: "clordid_batch \<Rightarrow> clordid_window \<Rightarrow> clordid_window" where
  "restore_ids b w =
     (let seen = seen_of w (cb_account b);
          seen1 = (if cb_generation b = 0 then seen\<lparr>gn_cur := gn_cur seen \<union> set (cb_ids b)\<rparr>
                   else seen\<lparr>gn_prev := gn_prev seen \<union> set (cb_ids b)\<rparr>)
      in AList.update (cb_account b) (seen1\<lparr>gn_rotatedAtNs := cb_rotatedAtNs b\<rparr>) w)"

definition sortedIds :: "generations \<Rightarrow> nat \<Rightarrow> nat list" where
  "sortedIds seen generation = sorted_list_of_set (if generation = 0 then gn_cur seen else gn_prev seen)"

text \<open>The loop over the identifiers of one generation: a full batch is appended and restarted.\<close>

fun write_batches :: "nat list \<Rightarrow> clordid_batch \<Rightarrow> clordid_batch list" where
  "write_batches [] batch = (if cb_ids batch = [] then [] else [batch])"
| "write_batches (i # is) batch =
     (let b = batch\<lparr>cb_ids := cb_ids batch @ [i]\<rparr>
      in if length (cb_ids b) = kClOrdIdBatch then b # write_batches is (batch\<lparr>cb_ids := []\<rparr>)
         else write_batches is b)"

definition write_account :: "nat \<Rightarrow> generations \<Rightarrow> clordid_batch list" where
  "write_account acct seen =
     concat (map (\<lambda>g. write_batches (sortedIds seen g)
       \<lparr>cb_account = acct, cb_generation = g, cb_ids = [], cb_rotatedAtNs = gn_rotatedAtNs seen\<rparr>) [0, 1])"

definition clordid_writeSnapshot :: "clordid_window \<Rightarrow> clordid_batch list" where
  "clordid_writeSnapshot w = write_section write_account w"

definition hash_account :: "nat \<Rightarrow> generations \<Rightarrow> 64 word \<Rightarrow> 64 word" where
  "hash_account acct seen h =
     (let h1 = mix (mix h kClOrdIdAccount) (of_nat acct);
          h2 = fold (\<lambda>i h. mix h (of_nat i)) (sortedIds seen 0 @ sortedIds seen 1) h1
      in mix h2 (word_of_int (gn_rotatedAtNs seen)))"

definition clordid_hashInto :: "clordid_window \<Rightarrow> 64 word \<Rightarrow> 64 word" where
  "clordid_hashInto w h = digest_section hash_account w h"

subsection \<open>Reachable windows\<close>

text \<open>
  No account is ever left with both generations empty (the comment at \<^verbatim>\<open>RestoreClOrdIds\<close> relies
  on it: such an account would have no batch to carry its rotation moment).
\<close>

definition window_ok :: "clordid_window \<Rightarrow> bool" where
  "window_ok w \<longleftrightarrow> distinct (map fst w)
     \<and> (\<forall>a g. map_of w a = Some g \<longrightarrow> finite (gn_cur g) \<and> finite (gn_prev g) \<and> gn_cur g \<union> gn_prev g \<noteq> {})"

lemma seen_finite: "window_ok w \<Longrightarrow> finite (gn_cur (seen_of w a)) \<and> finite (gn_prev (seen_of w a))"
  by (cases "map_of w a") (simp_all add: seen_of_def empty_generations_def window_ok_def)

lemma seen_of_update: "seen_of (AList.update a g w) = (seen_of w)(a := g)"
  by (rule ext) (simp add: seen_of_def update_conv')

lemma window_ok_update:
  "window_ok w \<Longrightarrow> finite (gn_cur g) \<Longrightarrow> finite (gn_prev g) \<Longrightarrow> gn_cur g \<union> gn_prev g \<noteq> {} \<Longrightarrow>
   window_ok (AList.update a g w)"
  by (auto simp: window_ok_def distinct_update update_conv')

lemma rotate_finite:
  "finite (gn_cur g) \<Longrightarrow> finite (gn_prev g) \<Longrightarrow>
   finite (gn_cur (rotate_window g n d)) \<and> finite (gn_prev (rotate_window g n d))"
  by (simp add: rotate_window_def)

lemma window_ok_duplicate:
  assumes "window_ok w"
  shows "window_ok (snd (duplicate a i n d w))"
proof -
  note f = rotate_finite [of "seen_of w a" n d, OF conjunct1 [OF seen_finite [OF assms]] conjunct2 [OF seen_finite [OF assms]]]
  show ?thesis
  proof (cases "i \<in> gn_prev (rotate_window (seen_of w a) n d)")
    case True
    then show ?thesis using assms f by (auto simp: duplicate_def intro!: window_ok_update)
  next
    case False
    then show ?thesis using assms f by (auto simp: duplicate_def Let_def intro!: window_ok_update)
  qed
qed

type_synonym dedup_call = "nat \<times> nat \<times> int"

definition run_calls :: "int \<Rightarrow> dedup_call list \<Rightarrow> clordid_window \<Rightarrow> clordid_window" where
  "run_calls d cs w = fold (\<lambda>(a, i, n) w. snd (duplicate a i n d w)) cs w"

lemma window_ok_run: "window_ok w \<Longrightarrow> window_ok (run_calls d cs w)"
  unfolding run_calls_def by (induction cs arbitrary: w) (auto simp: window_ok_duplicate)

subsection \<open>Deduplication\<close>

definition remembers :: "int \<Rightarrow> nat \<Rightarrow> generations \<Rightarrow> bool" where
  "remembers t0 x g \<longleftrightarrow> x \<in> gn_cur g \<or> (x \<in> gn_prev g \<and> (gn_rotatedAtNs g = 0 \<or> t0 \<le> gn_rotatedAtNs g))"

lemma remembers_rotate:
  "remembers t0 x g \<Longrightarrow> t0 \<le> n \<Longrightarrow> d \<le> 0 \<or> n < t0 + d \<Longrightarrow> remembers t0 x (rotate_window g n d)"
  by (auto simp: remembers_def rotate_window_def)

lemma remembers_call:
  assumes "remembers t0 x (seen_of w a)" "t0 \<le> n" "d \<le> 0 \<or> n < t0 + d"
  shows "remembers t0 x (seen_of (snd (duplicate b i n d w)) a)"
  using remembers_rotate [OF assms] assms(1) by (auto simp: duplicate_def Let_def seen_of_update remembers_def)

lemma remembers_run:
  assumes "remembers t0 x (seen_of w a)" "\<forall>(b, i, n) \<in> set cs. t0 \<le> n \<and> (d \<le> 0 \<or> n < t0 + d)"
  shows "remembers t0 x (seen_of (run_calls d cs w) a)"
  using assms
proof (induction cs arbitrary: w)
  case (Cons c cs)
  obtain b i n where c: "c = (b, i, n)" by (cases c)
  have "remembers t0 x (seen_of (snd (duplicate b i n d w)) a)"
    using remembers_call [OF Cons.prems(1), of n d b i] Cons.prems(2) c by simp
  then show ?case using Cons c by (simp add: run_calls_def)
qed (simp add: run_calls_def)

lemma accepted_remembers: "fst (duplicate a x t0 d w) = False \<Longrightarrow> x \<noteq> 0 \<Longrightarrow> remembers t0 x (seen_of (snd (duplicate a x t0 d w)) a)"
  by (auto simp: duplicate_def Let_def seen_of_update remembers_def split: if_splits)

lemma remembered_refused: "remembers t0 x (seen_of w a) \<Longrightarrow> t0 \<le> n \<Longrightarrow> d \<le> 0 \<or> n < t0 + d \<Longrightarrow> x \<noteq> 0 \<Longrightarrow> fst (duplicate a x n d w)"
  using remembers_rotate [of t0 x "seen_of w a" n d] by (auto simp: duplicate_def Let_def remembers_def)

text \<open>
  C26. No client order identifier is accepted twice inside the window: once a submission is
  accepted at \<open>t0\<close>, the same identifier from the same account is refused at every later moment
  before \<open>t0 + windowNs\<close> (at every later moment when the window is unbounded), whatever other
  submissions, of any account, come in between.
\<close>

theorem clordid_refused_in_window:
  assumes "x \<noteq> 0" "\<not> fst (duplicate a x t0 d w)"
    and "\<forall>(b, i, n) \<in> set cs. t0 \<le> n \<and> n \<le> t" and "t0 \<le> t" "d \<le> 0 \<or> t < t0 + d"
  shows "fst (duplicate a x t d (run_calls d cs (snd (duplicate a x t0 d w))))"
proof -
  have "remembers t0 x (seen_of (snd (duplicate a x t0 d w)) a)" using accepted_remembers assms(1,2) by simp
  then have "remembers t0 x (seen_of (run_calls d cs (snd (duplicate a x t0 d w))) a)"
    using assms(3,5) by (intro remembers_run) auto
  then show ?thesis using remembered_refused assms(1,4,5) by blast
qed

theorem clordid_refused_in_window_witness:
  "fst (duplicate 7 11 109 10 (run_calls 10 [(7, 12, 105), (8, 11, 106)] (snd (duplicate 7 11 100 10 []))))"
proof -
  have "\<not> fst (duplicate 7 11 100 10 [])" by code_simp
  from clordid_refused_in_window [OF _ this, of "[(7, 12, 105), (8, 11, 106)]" 109] show ?thesis by simp
qed

subsection \<open>Snapshots\<close>

lemma write_batches_spec:
  assumes "length (cb_ids b) < kClOrdIdBatch"
  shows "concat (map cb_ids (write_batches is b)) = cb_ids b @ is
    \<and> (\<forall>x \<in> set (write_batches is b). cb_account x = cb_account b \<and> cb_generation x = cb_generation b
        \<and> cb_rotatedAtNs x = cb_rotatedAtNs b \<and> cb_ids x \<noteq> [] \<and> length (cb_ids x) \<le> kClOrdIdBatch)"
  using assms
proof (induction "is" b rule: write_batches.induct)
  case (2 i "is" b)
  have k: "0 < kClOrdIdBatch" by (simp add: kClOrdIdBatch_def)
  show ?case
  proof (cases "Suc (length (cb_ids b)) = kClOrdIdBatch")
    case True
    then show ?thesis using 2(1) [OF refl] k by simp
  next
    case False
    then show ?thesis using 2(2) [OF refl] 2(3) by simp
  qed
qed simp

lemma write_batches_Nil:
  assumes "length (cb_ids b) < kClOrdIdBatch"
  shows "write_batches is b = [] \<longleftrightarrow> cb_ids b = [] \<and> is = []"
proof
  assume "write_batches is b = []"
  then show "cb_ids b = [] \<and> is = []" using write_batches_spec [OF assms, of "is"] by simp
qed simp

definition add_ids :: "nat \<Rightarrow> nat set \<Rightarrow> generations \<Rightarrow> generations" where
  "add_ids gen is g = (if gen = 0 then g\<lparr>gn_cur := gn_cur g \<union> is\<rparr> else g\<lparr>gn_prev := gn_prev g \<union> is\<rparr>)"

lemma map_of_restore_ids:
  "map_of (restore_ids b w) = (map_of w)(cb_account b \<mapsto>
     (add_ids (cb_generation b) (set (cb_ids b)) (seen_of w (cb_account b)))\<lparr>gn_rotatedAtNs := cb_rotatedAtNs b\<rparr>)"
  by (simp add: restore_ids_def Let_def update_conv' add_ids_def)

lemma seen_of_map: "map_of w a = Some g \<Longrightarrow> seen_of w a = g" "map_of w a = None \<Longrightarrow> seen_of w a = empty_generations"
  by (simp_all add: seen_of_def)

lemma restore_ids_distinct: "distinct (map fst w) \<Longrightarrow> distinct (map fst (restore_ids b w))"
  by (simp add: restore_ids_def Let_def distinct_update)

lemma add_ids_twice: "add_ids gen B ((add_ids gen A g)\<lparr>gn_rotatedAtNs := r\<rparr>) = (add_ids gen (A \<union> B) g)\<lparr>gn_rotatedAtNs := r\<rparr>"
  by (simp add: add_ids_def Un_assoc)

lemma restore_run:
  assumes "\<forall>x \<in> set bs. cb_account x = a \<and> cb_generation x = gen \<and> cb_rotatedAtNs x = r"
  shows "map_of (fold restore_ids bs w) = (if bs = [] then map_of w else (map_of w)(a \<mapsto>
      (add_ids gen (set (concat (map cb_ids bs))) (seen_of w a))\<lparr>gn_rotatedAtNs := r\<rparr>))"
  using assms
proof (induction bs arbitrary: w)
  case (Cons b bs)
  let ?w = "restore_ids b w"
  have b: "cb_account b = a" "cb_generation b = gen" "cb_rotatedAtNs b = r" using Cons.prems by simp_all
  have w: "map_of ?w = (map_of w)(a \<mapsto> (add_ids gen (set (cb_ids b)) (seen_of w a))\<lparr>gn_rotatedAtNs := r\<rparr>)"
    using b by (simp add: map_of_restore_ids)
  then have s: "seen_of ?w a = (add_ids gen (set (cb_ids b)) (seen_of w a))\<lparr>gn_rotatedAtNs := r\<rparr>" by (simp add: seen_of_map)
  have "map_of (fold restore_ids bs ?w) = (if bs = [] then map_of ?w else (map_of ?w)(a \<mapsto>
      (add_ids gen (set (concat (map cb_ids bs))) (seen_of ?w a))\<lparr>gn_rotatedAtNs := r\<rparr>))"
    by (rule Cons.IH) (use Cons.prems in simp)
  then show ?case by (cases "bs = []") (simp_all add: w s add_ids_twice del: set_concat)
qed simp

definition generations_ok :: "nat \<Rightarrow> generations \<Rightarrow> bool" where
  "generations_ok a g \<longleftrightarrow> finite (gn_cur g) \<and> finite (gn_prev g) \<and> gn_cur g \<union> gn_prev g \<noteq> {}"

lemma restore_account:
  assumes "generations_ok a g" "map_of v a = None"
  shows "map_of (fold restore_ids (write_account a g) v) = (map_of v)(a \<mapsto> g)"
proof -
  define e where "e gen = \<lparr>cb_account = a, cb_generation = gen, cb_ids = [], cb_rotatedAtNs = gn_rotatedAtNs g\<rparr>" for gen
  define bs where "bs gen = write_batches (sortedIds g gen) (e gen)" for gen
  have k: "length (cb_ids (e gen)) < kClOrdIdBatch" for gen by (simp add: e_def kClOrdIdBatch_def)
  have b: "\<forall>x \<in> set (bs gen). cb_account x = a \<and> cb_generation x = gen \<and> cb_rotatedAtNs x = gn_rotatedAtNs g"
    "concat (map cb_ids (bs gen)) = sortedIds g gen" for gen
    using write_batches_spec [OF k [of gen], of "sortedIds g gen"] unfolding bs_def e_def by simp_all
  have s: "set (sortedIds g 0) = gn_cur g" "set (sortedIds g 1) = gn_prev g"
    using assms(1) by (simp_all add: sortedIds_def generations_ok_def)
  have e0: "bs 0 = [] \<longleftrightarrow> gn_cur g = {}" "bs 1 = [] \<longleftrightarrow> gn_prev g = {}"
    using write_batches_Nil [OF k] s unfolding bs_def by (simp_all add: e_def flip: set_empty)
  have w: "write_account a g = bs 0 @ bs 1" by (simp add: write_account_def bs_def e_def)
  let ?v = "fold restore_ids (bs 0) v"
  have r0: "map_of ?v = (if bs 0 = [] then map_of v else (map_of v)(a \<mapsto>
      empty_generations\<lparr>gn_cur := gn_cur g, gn_rotatedAtNs := gn_rotatedAtNs g\<rparr>))"
    unfolding restore_run [OF b(1)] b(2) s seen_of_map(2) [OF assms(2)] by (simp add: add_ids_def empty_generations_def)
  then have s0: "seen_of ?v a = (if bs 0 = [] then empty_generations
      else empty_generations\<lparr>gn_cur := gn_cur g, gn_rotatedAtNs := gn_rotatedAtNs g\<rparr>)"
    using assms(2) by (simp add: seen_of_map)
  have "map_of (fold restore_ids (bs 1) ?v) = (map_of v)(a \<mapsto> g)"
    unfolding restore_run [OF b(1) [of 1], of ?v] b(2) s s0 r0 using assms(1) e0
    by (auto simp: add_ids_def empty_generations_def generations_ok_def)
  then show ?thesis by (simp add: w)
qed

interpretation clo: snapshot_section write_account restore_ids hash_account generations_ok "\<lambda>_. True"
  by unfold_locales (simp_all add: restore_account restore_ids_distinct)

lemma write_account_batch: "b \<in> set (write_account a g) \<Longrightarrow> cb_ids b \<noteq> [] \<and> length (cb_ids b) \<le> kClOrdIdBatch"
proof -
  let ?e = "\<lambda>n. \<lparr>cb_account = a, cb_generation = n, cb_ids = [], cb_rotatedAtNs = gn_rotatedAtNs g\<rparr>"
  assume "b \<in> set (write_account a g)"
  then obtain n where "b \<in> set (write_batches (sortedIds g n) (?e n))" by (auto simp: write_account_def)
  then show ?thesis using write_batches_spec [of "?e n" "sortedIds g n"] by (simp add: kClOrdIdBatch_def)
qed

lemma window_ok_legal: "window_ok w \<Longrightarrow> clo.legal_table w"
  by (simp add: window_ok_def clo.legal_table_def generations_ok_def)

text \<open>
  The snapshot of the identifier table restores it: replaying the batches that
  \<^verbatim>\<open>writeSnapshot\<close> appends into an empty table gives every account the generations and the
  rotation moment it had and folds to the same determinism digest, and no batch is empty or
  larger than its array. It holds of every table the venue can reach by submissions.
\<close>

theorem clordid_snapshot_restores:
  fixes d :: int and cs :: "dedup_call list"
  defines "w \<equiv> run_calls d cs []"
  shows "map_of (fold restore_ids (clordid_writeSnapshot w) []) = map_of w
    \<and> clordid_hashInto (fold restore_ids (clordid_writeSnapshot w) []) = clordid_hashInto w
    \<and> list_all (\<lambda>b. cb_ids b \<noteq> [] \<and> length (cb_ids b) \<le> kClOrdIdBatch) (clordid_writeSnapshot w)"
proof -
  have "clo.legal_table w" unfolding w_def by (intro window_ok_legal window_ok_run) (simp add: window_ok_def)
  note r = clo.restored_exact [OF this] clo.restored_digest [OF this]
  have "list_all (\<lambda>b. cb_ids b \<noteq> [] \<and> length (cb_ids b) \<le> kClOrdIdBatch) (write_section write_account w)"
    unfolding write_section_def list_all_iff by (auto split: option.splits dest: write_account_batch)
  then show ?thesis using r by (simp add: clordid_writeSnapshot_def clordid_hashInto_def fun_eq_iff)
qed

end
