(* ===== verification/ExpiryBook.thy ===== *)
theory ExpiryBook
  imports StateDigest
begin

section \<open>Good-till-date deadlines\<close>

text \<open>
  \<^verbatim>\<open>ExpiryBook\<close> of \<^verbatim>\<open>venue/include/flox-venue/engine/expiry.h\<close>: order to deadline, and the
  orders due at a moment. A \<^verbatim>\<open>SeqNanos\<close> is its raw \<open>int\<close>.
\<close>

type_synonym expiry_table = "(nat \<times> int) list"

definition expiry_set :: "nat \<Rightarrow> int \<Rightarrow> expiry_table \<Rightarrow> expiry_table" where
  "expiry_set i expiry t = AList.update i expiry t"

definition expiry_erase :: "nat \<Rightarrow> expiry_table \<Rightarrow> expiry_table" where
  "expiry_erase i t = AList.delete i t"

definition expiryOf :: "nat \<Rightarrow> expiry_table \<Rightarrow> int" where
  "expiryOf i t = (case map_of t i of None \<Rightarrow> 0 | Some e \<Rightarrow> e)"

definition expiry_empty :: "expiry_table \<Rightarrow> bool" where
  "expiry_empty t \<longleftrightarrow> t = []"

definition collectDue :: "int \<Rightarrow> expiry_table \<Rightarrow> nat list" where
  "collectDue now t = (if t = [] then [] else sort (concat (map (\<lambda>(i, e). if now \<ge> e then [i] else []) t)))"

datatype expiry_op = ExpirySet nat int | ExpiryErase nat

fun expiry_apply :: "expiry_op \<Rightarrow> expiry_table \<Rightarrow> expiry_table" where
  "expiry_apply (ExpirySet i e) t = expiry_set i e t"
| "expiry_apply (ExpiryErase i) t = expiry_erase i t"

text \<open>What a history says of an order: the last deadline set for it, unless it was erased since.\<close>

fun deadline_after :: "expiry_op list \<Rightarrow> nat \<Rightarrow> int option" where
  "deadline_after [] i = None"
| "deadline_after (ExpirySet j e # ops) i = (if i = j then Some e else deadline_after ops i)"
| "deadline_after (ExpiryErase j # ops) i = (if i = j then None else deadline_after ops i)"

lemma expiry_history:
  "distinct (map fst (foldr expiry_apply ops [])) \<and> map_of (foldr expiry_apply ops []) = deadline_after ops"
proof (induction ops)
  case (Cons op ops)
  then show ?case
    by (cases op) (auto simp: expiry_set_def expiry_erase_def distinct_update distinct_delete update_conv' delete_conv' fun_eq_iff)
qed (simp add: fun_eq_iff)

lemma collectDue_eq: "collectDue now t = sort (map fst (filter (\<lambda>(i, e). e \<le> now) t))"
proof -
  have "concat (map (\<lambda>(i, e). if now \<ge> e then [i] else []) t) = map fst (filter (\<lambda>(i, e). e \<le> now) t)"
    by (induction t) auto
  then show ?thesis by (simp add: collectDue_def)
qed

lemma collectDue_spec:
  assumes "distinct (map fst t)"
  shows "sorted (collectDue now t) \<and> distinct (collectDue now t)
    \<and> set (collectDue now t) = {i. \<exists>e. map_of t i = Some e \<and> e \<le> now}"
proof -
  have "distinct (map fst (filter (\<lambda>(i, e). e \<le> now) t))" using assms by (rule distinct_map_filter)
  moreover have "set (map fst (filter (\<lambda>(i, e). e \<le> now) t)) = {i. \<exists>e. map_of t i = Some e \<and> e \<le> now}"
    using assms by force
  ultimately show ?thesis by (simp add: collectDue_eq)
qed

text \<open>
  A sweep at \<open>now\<close> expires exactly the orders that have a deadline and have reached it,
  the deadline itself included, each once and in ascending order of identifiers; the list does
  not depend on the layout of the table. The history is given latest operation first.
\<close>

theorem expiry_sweep_exact:
  "sorted_wrt (<) (collectDue now (foldr expiry_apply ops []))
   \<and> set (collectDue now (foldr expiry_apply ops [])) = {i. \<exists>e. deadline_after ops i = Some e \<and> e \<le> now}"
  using collectDue_spec [of "foldr expiry_apply ops []" now] expiry_history [of ops]
  by (simp add: strict_sorted_iff)

end
