(* ===== verification/PegBook.thy ===== *)
theory PegBook
  imports StateDigest Messages
begin

section \<open>Pegged orders\<close>

text \<open>
  \<^verbatim>\<open>PegBook\<close> of \<^verbatim>\<open>venue/include/flox-venue/engine/pegs.h\<close>: the peg specification of every
  pegged order and the price it should track. Raw prices are unbounded integers here: the
  sums the source forms (touch plus touch, touch plus offset) are within \<^verbatim>\<open>int64_t\<close> for every
  raw below \<open>2 ^ 62\<close>. \<^verbatim>\<open>RestorePeg\<close> of \<^verbatim>\<open>messages.h\<close> is the record a snapshot carries.
\<close>

subsection \<open>The code\<close>

record peg =
  pg_side :: side
  pg_ref :: peg_ref
  pg_offsetRaw :: int

record peg_market =
  pm_hasBid :: bool
  pm_bidRaw :: int
  pm_hasAsk :: bool
  pm_askRaw :: int
  pm_lastRaw :: int
  pm_tickRaw :: int
  pm_minPriceRaw :: int
  pm_maxPriceRaw :: int

definition peg_bidFirst :: "peg_market \<Rightarrow> int" where
  "peg_bidFirst m = (if pm_hasBid m then pm_bidRaw m else if pm_hasAsk m then pm_askRaw m else pm_lastRaw m)"

fun peg_refRaw :: "peg_ref \<Rightarrow> peg_market \<Rightarrow> int option" where
  "peg_refRaw PegBid m = Some (peg_bidFirst m)"
| "peg_refRaw PegAsk m =
     Some (if pm_hasAsk m then pm_askRaw m else if pm_hasBid m then pm_bidRaw m else pm_lastRaw m)"
| "peg_refRaw PegMid m =
     Some (if pm_hasBid m \<and> pm_hasAsk m then (pm_bidRaw m + pm_askRaw m) sdiv 2 else peg_bidFirst m)"
| "peg_refRaw PegNone m = None"

definition peg_align :: "int \<Rightarrow> int \<Rightarrow> int" where
  "peg_align tickRaw target =
     (if tickRaw > 0
      then let levels = target sdiv tickRaw;
               levels = (if target smod tickRaw \<noteq> 0 \<and> target < 0 then levels - 1 else levels)
           in levels * tickRaw
      else target)"

definition peg_neverCross :: "side \<Rightarrow> peg_market \<Rightarrow> int \<Rightarrow> int" where
  "peg_neverCross side m target =
     (let stepRaw = (if pm_tickRaw m > 0 then pm_tickRaw m else 1);
          target = (if side = BUY \<and> pm_hasAsk m \<and> target \<ge> pm_askRaw m then pm_askRaw m - stepRaw else target)
      in if side = SELL \<and> pm_hasBid m \<and> target \<le> pm_bidRaw m then pm_bidRaw m + stepRaw else target)"

definition peg_clampBand :: "peg_market \<Rightarrow> int \<Rightarrow> int" where
  "peg_clampBand m target =
     (let target = (if pm_minPriceRaw m > 0 \<and> target < pm_minPriceRaw m then pm_minPriceRaw m else target)
      in if pm_maxPriceRaw m > 0 \<and> target > pm_maxPriceRaw m then pm_maxPriceRaw m else target)"

definition peg_targetRaw :: "side \<Rightarrow> peg_ref \<Rightarrow> int \<Rightarrow> peg_market \<Rightarrow> int" where
  "peg_targetRaw side ref offsetRaw m =
     (case peg_refRaw ref m of
        None \<Rightarrow> 0
      | Some refRaw \<Rightarrow> peg_clampBand m (peg_neverCross side m (peg_align (pm_tickRaw m) (refRaw + offsetRaw))))"

type_synonym peg_table = "(nat \<times> peg) list"

definition peg_set :: "nat \<Rightarrow> peg \<Rightarrow> peg_table \<Rightarrow> peg_table" where
  "peg_set i p t = AList.update i p t"

definition peg_erase :: "nat \<Rightarrow> peg_table \<Rightarrow> peg_table" where
  "peg_erase i t = AList.delete i t"

definition peg_find :: "nat \<Rightarrow> peg_table \<Rightarrow> peg option" where
  "peg_find i t = map_of t i"

definition peg_empty :: "peg_table \<Rightarrow> bool" where
  "peg_empty t \<longleftrightarrow> t = []"

definition peg_sortedIds :: "peg_table \<Rightarrow> nat list" where
  "peg_sortedIds t = sort (map (\<lambda>(i, p). i) t)"

fun side_code :: "side \<Rightarrow> nat" where
  "side_code BUY = 0" | "side_code SELL = 1"

fun peg_ref_code :: "peg_ref \<Rightarrow> nat" where
  "peg_ref_code PegNone = 0" | "peg_ref_code PegBid = 1" | "peg_ref_code PegAsk = 2" | "peg_ref_code PegMid = 3"

definition peg_hash :: "nat \<Rightarrow> peg \<Rightarrow> 64 word \<Rightarrow> 64 word" where
  "peg_hash i p h = mix (mix (mix (mix (mix h kPeg) (of_nat i)) (of_nat (side_code (pg_side p))))
     (of_nat (peg_ref_code (pg_ref p)))) (word_of_int (pg_offsetRaw p))"

definition peg_hashInto :: "peg_table \<Rightarrow> 64 word \<Rightarrow> 64 word" where
  "peg_hashInto t h = digest_section peg_hash t h"

record restore_peg =
  rp_id :: nat
  rp_side :: side
  rp_ref :: peg_ref
  rp_offsetRaw :: int

definition peg_record :: "nat \<Rightarrow> peg \<Rightarrow> restore_peg" where
  "peg_record i p = \<lparr>rp_id = i, rp_side = pg_side p, rp_ref = pg_ref p, rp_offsetRaw = pg_offsetRaw p\<rparr>"

definition peg_writeSnapshot :: "peg_table \<Rightarrow> restore_peg list" where
  "peg_writeSnapshot t = write_section (\<lambda>i p. [peg_record i p]) t"

text \<open>Recovery applies the record only when the order is on the restored book; otherwise the restore fails.\<close>

definition peg_restore :: "(nat \<Rightarrow> bool) \<Rightarrow> restore_peg \<Rightarrow> peg_table \<Rightarrow> peg_table option" where
  "peg_restore contains r t =
     (if \<not> contains (rp_id r) then None
      else Some (peg_set (rp_id r) \<lparr>pg_side = rp_side r, pg_ref = rp_ref r, pg_offsetRaw = rp_offsetRaw r\<rparr> t))"

subsection \<open>The target price\<close>

lemma sdiv_down:
  assumes "0 < b"
  shows "(if a smod b \<noteq> 0 \<and> a < 0 then a sdiv b - 1 else a sdiv b) = (a :: int) div b"
proof (cases "0 \<le> a")
  case False
  then have s: "a sdiv b = - (- a div b)" using assms by (simp add: sdiv_neg)
  have m: "a smod b = - (- a mod b)" using False assms by (simp add: signed_modulo_int_def)
  show ?thesis
  proof (cases "- a mod b = 0")
    case True
    then have "a mod b = 0" using assms by (metis add.inverse_inverse mod_minus_eq mod_0 minus_zero)
    then show ?thesis using True False m s assms by (simp add: zdiv_zminus1_eq_if)
  next
    case False
    then have "a mod b \<noteq> 0" by (metis mod_minus_eq mod_0 minus_zero add.inverse_inverse)
    then show ?thesis using False \<open>\<not> 0 \<le> a\<close> m s assms by (simp add: zdiv_zminus1_eq_if)
  qed
qed (use assms in \<open>simp add: sdiv_nonneg\<close>)

text \<open>Alignment rounds towards minus infinity, also below zero where C's division does not.\<close>

lemma peg_align_floor: "0 < k \<Longrightarrow> peg_align k x = x div k * k"
  using sdiv_down [of k x] by (simp add: peg_align_def Let_def)

lemma peg_align_le: "peg_align k x \<le> x"
  by (cases "0 < k") (simp_all add: peg_align_floor minus_mod_eq_div_mult [symmetric], simp add: peg_align_def)

lemma peg_align_dvd: "0 < k \<Longrightarrow> k dvd peg_align k x"
  by (simp add: peg_align_floor)

definition peg_in_touch :: "side \<Rightarrow> peg_market \<Rightarrow> int \<Rightarrow> bool" where
  "peg_in_touch side m x \<longleftrightarrow> (side = BUY \<and> pm_hasAsk m \<longrightarrow> x < pm_askRaw m) \<and> (side = SELL \<and> pm_hasBid m \<longrightarrow> pm_bidRaw m < x)"

lemma peg_neverCross_touch: "peg_in_touch side m (peg_neverCross side m x)"
  by (cases side) (auto simp: peg_in_touch_def peg_neverCross_def Let_def)

lemma peg_neverCross_dvd:
  "k = pm_tickRaw m \<Longrightarrow> 0 < k \<Longrightarrow> k dvd x \<Longrightarrow> pm_hasAsk m \<longrightarrow> k dvd pm_askRaw m \<Longrightarrow> pm_hasBid m \<longrightarrow> k dvd pm_bidRaw m \<Longrightarrow>
   k dvd peg_neverCross side m x"
  by (auto simp: peg_neverCross_def Let_def)

lemma peg_clampBand_dvd:
  "k dvd x \<Longrightarrow> k dvd pm_minPriceRaw m \<Longrightarrow> k dvd pm_maxPriceRaw m \<Longrightarrow> k dvd peg_clampBand m x"
  by (simp add: peg_clampBand_def Let_def)

definition peg_in_band :: "peg_market \<Rightarrow> int \<Rightarrow> bool" where
  "peg_in_band m x \<longleftrightarrow> (0 < pm_minPriceRaw m \<longrightarrow> pm_minPriceRaw m \<le> x) \<and> (0 < pm_maxPriceRaw m \<longrightarrow> x \<le> pm_maxPriceRaw m)"

lemma peg_clampBand_band: "pm_maxPriceRaw m \<le> 0 \<or> pm_minPriceRaw m \<le> pm_maxPriceRaw m \<Longrightarrow> peg_in_band m (peg_clampBand m x)"
  by (auto simp: peg_in_band_def peg_clampBand_def Let_def)

lemma peg_clampBand_touch:
  assumes "peg_in_touch side m x"
    and "side = BUY \<and> pm_hasAsk m \<longrightarrow> pm_minPriceRaw m < pm_askRaw m"
    and "side = SELL \<and> pm_hasBid m \<longrightarrow> pm_maxPriceRaw m \<le> 0 \<or> pm_bidRaw m < pm_maxPriceRaw m"
  shows "peg_in_touch side m (peg_clampBand m x)"
  using assms by (auto simp: peg_in_touch_def peg_clampBand_def Let_def)

text \<open>
  C27. A peg target is inside the price band, on the tick grid when the touch and the band are,
  and strictly inside the opposite touch, so a reprice, which rests the order without a matching
  pass, does not lock or cross the book. The last holds as long as the opposite touch is not on
  the edge of the band (or past it).
\<close>

theorem peg_target_sound:
  fixes s ref off m
  defines "x \<equiv> peg_targetRaw s ref off m"
  assumes "ref \<noteq> PegNone" "pm_minPriceRaw m \<le> pm_maxPriceRaw m \<or> pm_maxPriceRaw m \<le> 0"
  shows "peg_in_band m x
    \<and> ((s = BUY \<and> pm_hasAsk m \<longrightarrow> pm_minPriceRaw m < pm_askRaw m)
         \<and> (s = SELL \<and> pm_hasBid m \<longrightarrow> pm_maxPriceRaw m \<le> 0 \<or> pm_bidRaw m < pm_maxPriceRaw m) \<longrightarrow> peg_in_touch s m x)
    \<and> (0 < pm_tickRaw m \<and> pm_tickRaw m dvd pm_minPriceRaw m \<and> pm_tickRaw m dvd pm_maxPriceRaw m
         \<and> (pm_hasAsk m \<longrightarrow> pm_tickRaw m dvd pm_askRaw m) \<and> (pm_hasBid m \<longrightarrow> pm_tickRaw m dvd pm_bidRaw m) \<longrightarrow>
       pm_tickRaw m dvd x)"
proof -
  obtain r where "peg_refRaw ref m = Some r" using assms(2) by (cases ref) auto
  then have x: "x = peg_clampBand m (peg_neverCross s m (peg_align (pm_tickRaw m) (r + off)))"
    by (simp add: x_def peg_targetRaw_def)
  have "peg_in_band m x" unfolding x by (rule peg_clampBand_band) (use assms(3) in blast)
  moreover have "peg_in_touch s m x" if "s = BUY \<and> pm_hasAsk m \<longrightarrow> pm_minPriceRaw m < pm_askRaw m"
    "s = SELL \<and> pm_hasBid m \<longrightarrow> pm_maxPriceRaw m \<le> 0 \<or> pm_bidRaw m < pm_maxPriceRaw m"
    unfolding x by (rule peg_clampBand_touch [OF peg_neverCross_touch that])
  moreover have "pm_tickRaw m dvd x" if "0 < pm_tickRaw m" "pm_tickRaw m dvd pm_minPriceRaw m" "pm_tickRaw m dvd pm_maxPriceRaw m"
    "pm_hasAsk m \<longrightarrow> pm_tickRaw m dvd pm_askRaw m" "pm_hasBid m \<longrightarrow> pm_tickRaw m dvd pm_bidRaw m"
    unfolding x by (intro peg_clampBand_dvd peg_neverCross_dvd [OF refl] peg_align_dvd that)
  ultimately show ?thesis by blast
qed

definition peg_demo_market :: peg_market where
  "peg_demo_market = \<lparr>pm_hasBid = True, pm_bidRaw = 990, pm_hasAsk = True, pm_askRaw = 1000, pm_lastRaw = 995,
     pm_tickRaw = 10, pm_minPriceRaw = 500, pm_maxPriceRaw = 2000\<rparr>"

theorem peg_target_sound_witness:
  "peg_targetRaw BUY PegAsk 7 peg_demo_market = 990
   \<and> peg_in_band peg_demo_market (peg_targetRaw BUY PegAsk 7 peg_demo_market)
   \<and> peg_in_touch BUY peg_demo_market (peg_targetRaw BUY PegAsk 7 peg_demo_market)
   \<and> 10 dvd peg_targetRaw BUY PegAsk 7 peg_demo_market"
proof -
  have "peg_targetRaw BUY PegAsk 7 peg_demo_market = 990" by code_simp
  then show ?thesis
    using peg_target_sound [of PegAsk peg_demo_market BUY 7] by (simp add: peg_demo_market_def)
qed

text \<open>
  At the edge of the band the never-cross step is undone: with the best ask on the lowest
  price of the band a buy peg is priced on that ask, and its reprice rests it there without
  matching, which locks the book.
\<close>

theorem peg_locks_at_band_edge:
  "\<exists>m. pm_hasAsk m \<and> 0 < pm_tickRaw m \<and> pm_tickRaw m dvd pm_askRaw m \<and> peg_in_band m (pm_askRaw m)
     \<and> peg_targetRaw BUY PegAsk 0 m = pm_askRaw m"
proof -
  let ?m = "\<lparr>pm_hasBid = False, pm_bidRaw = 0, pm_hasAsk = True, pm_askRaw = 500, pm_lastRaw = 600,
     pm_tickRaw = 10, pm_minPriceRaw = 500, pm_maxPriceRaw = 2000\<rparr>"
  have "peg_targetRaw BUY PegAsk 0 ?m = 500" by code_simp
  moreover have "peg_in_band ?m 500" by code_simp
  ultimately show ?thesis by (intro exI [of _ ?m]) simp
qed

subsection \<open>The table\<close>

lemma peg_eta: "\<lparr>pg_side = pg_side p, pg_ref = pg_ref p, pg_offsetRaw = pg_offsetRaw p\<rparr> = (p :: peg)"
  by (cases p) simp

interpretation pegs: snapshot_section "\<lambda>i p. [peg_record i p]" "\<lambda>r t. the (peg_restore (\<lambda>_. True) r t)" peg_hash "\<lambda>_ _. True" "\<lambda>_. True"
  by (rule section_single_record) (simp_all add: peg_restore_def peg_record_def peg_set_def peg_eta distinct_update)

lemma peg_restore_all:
  "restore_all (peg_restore contains) (peg_writeSnapshot t) u = (if dom (map_of t) \<subseteq> Collect contains
     then Some (fold (\<lambda>r t. the (peg_restore (\<lambda>_. True) r t)) (peg_writeSnapshot t) u) else None)"
proof -
  have g: "peg_restore contains r t = (if contains (rp_id r) then Some (the (peg_restore (\<lambda>_. True) r t)) else None)" for r t
    by (simp add: peg_restore_def)
  have "list_all (\<lambda>r. contains (rp_id r)) (peg_writeSnapshot t) \<longleftrightarrow> dom (map_of t) \<subseteq> Collect contains"
    unfolding peg_writeSnapshot_def write_section_all by (auto simp: peg_record_def)
  then show ?thesis by (simp add: restore_all_guarded [of "peg_restore contains", OF g])
qed

lemma peg_table_distinct:
  "distinct (map fst t) \<Longrightarrow> distinct (map fst (peg_set i p t)) \<and> distinct (map fst (peg_erase i t))"
  by (simp add: peg_set_def peg_erase_def distinct_update distinct_delete)

lemma peg_sortedIds_keys: "peg_sortedIds t = sortedKeysOf t"
  by (simp add: peg_sortedIds_def sortedKeysOf_def case_prod_unfold)

end
