(* ===== verification/StpTable.thy ===== *)
theory StpTable
  imports PegBook Matcher
begin

section \<open>Self-trade prevention of resting orders\<close>

text \<open>
  \<^verbatim>\<open>StpState\<close> of \<^verbatim>\<open>venue/include/flox-venue/engine/stp.h\<close>: the mode each resting order was
  admitted with (sparse: \<^verbatim>\<open>None\<close> is absent), the firm-group scope and its snapshot traversal,
  and the verdict of an auction uncross on a self-matching pair.
\<close>

subsection \<open>The code\<close>

type_synonym stp_table = "(nat \<times> stp_mode) list"

definition stp_modeOf :: "nat \<Rightarrow> stp_table \<Rightarrow> stp_mode" where
  "stp_modeOf i t = (case map_of t i of None \<Rightarrow> StpNone | Some m \<Rightarrow> m)"

definition stp_track :: "nat \<Rightarrow> stp_mode \<Rightarrow> stp_table \<Rightarrow> stp_table" where
  "stp_track i stp t = (if stp \<noteq> StpNone then AList.update i stp t else AList.delete i t)"

definition stp_forget :: "nat \<Rightarrow> stp_table \<Rightarrow> stp_table" where
  "stp_forget i t = AList.delete i t"

definition stp_restore :: "nat \<Rightarrow> stp_mode \<Rightarrow> stp_table \<Rightarrow> stp_table" where
  "stp_restore i mode t = (if mode \<noteq> StpNone then AList.update i mode t else t)"

fun stp_code :: "stp_mode \<Rightarrow> nat" where
  "stp_code StpNone = 0" | "stp_code CancelNewest = 1" | "stp_code CancelOldest = 2"
| "stp_code CancelBoth = 3" | "stp_code Decrement = 4"

definition stp_hash :: "nat \<Rightarrow> stp_mode \<Rightarrow> 64 word \<Rightarrow> 64 word" where
  "stp_hash i m h = mix (mix (mix h kOrderStp) (of_nat i)) (of_nat (stp_code m))"

definition stp_hashInto :: "stp_table \<Rightarrow> 64 word \<Rightarrow> 64 word" where
  "stp_hashInto t h = digest_section stp_hash t h"

text \<open>
  \<^verbatim>\<open>RestoreOrderStp\<close> carries the mode as a byte, which recovery casts back to the enumeration.
  No writer produces a byte that names no mode; a record with one is outside the model (\<open>None\<close>).
\<close>

record restore_order_stp =
  rs_id :: nat
  rs_mode :: nat

fun stp_of_code :: "nat \<Rightarrow> stp_mode option" where
  "stp_of_code c = (if c = 0 then Some StpNone else if c = 1 then Some CancelNewest
     else if c = 2 then Some CancelOldest else if c = 3 then Some CancelBoth
     else if c = 4 then Some Decrement else None)"

definition stp_record :: "nat \<Rightarrow> stp_mode \<Rightarrow> restore_order_stp" where
  "stp_record i m = \<lparr>rs_id = i, rs_mode = stp_code m\<rparr>"

definition stp_writeSnapshot :: "stp_table \<Rightarrow> restore_order_stp list" where
  "stp_writeSnapshot t = write_section (\<lambda>i m. [stp_record i m]) t"

definition stp_apply_record :: "restore_order_stp \<Rightarrow> stp_table \<Rightarrow> stp_table option" where
  "stp_apply_record r t = (case stp_of_code (rs_mode r) of None \<Rightarrow> None | Some m \<Rightarrow> Some (stp_restore (rs_id r) m t))"

type_synonym stp_groups = "(nat \<times> nat) list"

definition group_hash :: "nat \<Rightarrow> nat \<Rightarrow> 64 word \<Rightarrow> 64 word" where
  "group_hash acct g h = mix (mix (mix h kStpGroup) (of_nat acct)) (of_nat g)"

definition hashGroupsInto :: "stp_groups \<Rightarrow> 64 word \<Rightarrow> 64 word" where
  "hashGroupsInto groups h = digest_section group_hash groups h"

record set_stp_group =
  sg_symbol :: nat
  sg_account :: nat
  sg_group :: nat

definition writeGroups :: "nat \<Rightarrow> stp_groups \<Rightarrow> set_stp_group list" where
  "writeGroups symbol groups =
     write_section (\<lambda>acct g. [\<lparr>sg_symbol = symbol, sg_account = acct, sg_group = g\<rparr>]) groups"

definition scopeOf :: "stp_groups \<Rightarrow> nat \<Rightarrow> nat" where
  "scopeOf groups account =
     (if groups = [] then account
      else case map_of groups account of None \<Rightarrow> account | Some g \<Rightarrow> g)"

record auction_verdict =
  av_engaged :: bool
  av_decrement :: bool
  av_cancelBid :: bool
  av_cancelAsk :: bool

definition auctionVerdict :: "stp_mode \<Rightarrow> stp_mode \<Rightarrow> auction_verdict" where
  "auctionVerdict bidStp askStp =
     (let v = \<lparr>av_engaged = False, av_decrement = False, av_cancelBid = False, av_cancelAsk = False\<rparr>
      in if bidStp = StpNone \<and> askStp = StpNone then v
         else let v = v\<lparr>av_engaged := True\<rparr>
              in if bidStp = Decrement \<or> askStp = Decrement then v\<lparr>av_decrement := True\<rparr>
                 else let v = (if bidStp = CancelOldest \<or> bidStp = CancelBoth then v\<lparr>av_cancelAsk := True\<rparr> else v);
                          v = (if bidStp = CancelNewest \<or> bidStp = CancelBoth then v\<lparr>av_cancelBid := True\<rparr> else v);
                          v = (if askStp = CancelOldest \<or> askStp = CancelBoth then v\<lparr>av_cancelBid := True\<rparr> else v)
                      in if askStp = CancelNewest \<or> askStp = CancelBoth then v\<lparr>av_cancelAsk := True\<rparr> else v)"

subsection \<open>The table\<close>

definition stp_table_ok :: "stp_table \<Rightarrow> bool" where
  "stp_table_ok t \<longleftrightarrow> distinct (map fst t) \<and> (\<forall>i m. map_of t i = Some m \<longrightarrow> m \<noteq> StpNone)"

lemma stp_table_ok_steps:
  assumes "stp_table_ok t"
  shows "stp_table_ok (stp_track i m t)" "stp_table_ok (stp_forget i t)" "stp_table_ok (stp_restore i m t)"
  using assms
  by (auto simp: stp_table_ok_def stp_track_def stp_forget_def stp_restore_def distinct_update distinct_delete
      update_conv' delete_conv' simp del: map_of_eq_Some_iff split: if_splits)

lemma stp_modeOf_track: "stp_modeOf j (stp_track i m t) = (if j = i then m else stp_modeOf j t)"
  by (simp add: stp_modeOf_def stp_track_def update_conv' delete_conv')

lemma stp_of_code_code [simp]: "stp_of_code (stp_code m) = Some m"
  by (cases m) simp_all

text \<open>The applied record, with a record outside the model changing nothing.\<close>

definition stp_applied :: "restore_order_stp \<Rightarrow> stp_table \<Rightarrow> stp_table" where
  "stp_applied r t = (case stp_apply_record r t of None \<Rightarrow> t | Some t1 \<Rightarrow> t1)"

interpretation stps: snapshot_section "\<lambda>i m. [stp_record i m]" stp_applied stp_hash "\<lambda>_ m. m \<noteq> StpNone" "\<lambda>_. True"
  by (rule section_single_record)
    (simp_all add: stp_applied_def stp_apply_record_def stp_record_def stp_restore_def distinct_update del: stp_of_code.simps split: option.split)

lemma stp_restore_all: "restore_all stp_apply_record (stp_writeSnapshot t) u = Some (fold stp_applied (stp_writeSnapshot t) u)"
proof -
  have g: "stp_apply_record r t = (if stp_of_code (rs_mode r) \<noteq> None then Some (stp_applied r t) else None)" for r t
    by (simp add: stp_applied_def stp_apply_record_def del: stp_of_code.simps split: option.split)
  have "list_all (\<lambda>r. stp_of_code (rs_mode r) \<noteq> None) (stp_writeSnapshot t)"
    unfolding stp_writeSnapshot_def write_section_all by (simp add: stp_record_def del: stp_of_code.simps)
  then show ?thesis by (simp only: restore_all_guarded [of stp_apply_record, OF g] if_True)
qed

lemma scopeOf_is_stpScope: "scopeOf (mt_stpGroup mt) a = stpScope mt a"
  by (simp add: scopeOf_def stpScope_def split: option.split)

text \<open>A restored group arrives as the command that set it, applied to the matcher.\<close>

definition group_apply :: "set_stp_group \<Rightarrow> stp_groups \<Rightarrow> stp_groups" where
  "group_apply c groups = mt_stpGroup (setStpGroup ((new_matcher PriceTimeFifo)\<lparr>mt_stpGroup := groups\<rparr>) (sg_account c) (sg_group c))"

lemma group_apply_eq:
  "group_apply c groups = (if sg_group c = 0 then AList.delete (sg_account c) groups else AList.update (sg_account c) (sg_group c) groups)"
  by (simp add: group_apply_def setStpGroup_def)

interpretation grp: snapshot_section "\<lambda>acct g. [\<lparr>sg_symbol = symbol, sg_account = acct, sg_group = g\<rparr>]" group_apply group_hash "\<lambda>_ g. g \<noteq> 0" "\<lambda>_. True"
  for symbol :: nat
  by (rule section_single_record) (simp_all add: group_apply_eq distinct_update distinct_delete)

datatype peg_op = PegSet nat peg | PegErase nat

fun peg_apply :: "peg_op \<Rightarrow> peg_table \<Rightarrow> peg_table" where
  "peg_apply (PegSet i p) t = peg_set i p t"
| "peg_apply (PegErase i) t = peg_erase i t"

datatype stp_op = StpTrack nat stp_mode | StpForget nat

fun stp_apply :: "stp_op \<Rightarrow> stp_table \<Rightarrow> stp_table" where
  "stp_apply (StpTrack i m) t = stp_track i m t"
| "stp_apply (StpForget i) t = stp_forget i t"

lemma peg_run_legal: "distinct (map fst t) \<Longrightarrow> distinct (map fst (fold peg_apply ops t))"
proof (induction ops arbitrary: t)
  case (Cons op ops)
  then show ?case by (cases op) (simp_all add: peg_table_distinct)
qed simp

lemma stp_run_ok: "stp_table_ok t \<Longrightarrow> stp_table_ok (fold stp_apply ops t)"
proof (induction ops arbitrary: t)
  case (Cons op ops)
  then show ?case by (cases op) (simp_all add: stp_table_ok_steps)
qed simp

definition groups_ok :: "stp_groups \<Rightarrow> bool" where
  "groups_ok t \<longleftrightarrow> distinct (map fst t) \<and> (\<forall>a g. map_of t a = Some g \<longrightarrow> g \<noteq> 0)"

lemma groups_run_ok: "groups_ok t \<Longrightarrow> groups_ok (fold group_apply cs t)"
proof (induction cs arbitrary: t)
  case (Cons c cs)
  have "groups_ok (group_apply c t)" using Cons.prems
    by (auto simp: groups_ok_def group_apply_eq distinct_update distinct_delete update_conv' delete_conv'
        simp del: map_of_eq_Some_iff split: if_splits)
  then show ?case using Cons.IH by simp
qed simp

text \<open>
  C28. The peg, self-trade-prevention and firm-group sections of a snapshot restore exactly:
  after any history of the three tables, replaying the records each section appends gives back
  the same specification, mode and group for every order and account (a mode travels as a byte,
  a group as the command that set it), and the same contribution to the determinism digest. The
  peg section is accepted exactly when every pegged order is on the restored book; otherwise the
  restore is refused.
\<close>

theorem conduct_sections_restore:
  fixes pops :: "peg_op list" and sops :: "stp_op list" and gops :: "set_stp_group list" and symbol :: nat and contains :: "nat \<Rightarrow> bool"
  defines "p \<equiv> fold peg_apply pops []" and "s \<equiv> fold stp_apply sops []" and "g \<equiv> fold group_apply gops []"
  shows "(if dom (map_of p) \<subseteq> Collect contains
       then \<exists>p'. restore_all (peg_restore contains) (peg_writeSnapshot p) [] = Some p' \<and> map_of p' = map_of p \<and> peg_hashInto p' = peg_hashInto p
       else restore_all (peg_restore contains) (peg_writeSnapshot p) [] = None)
    \<and> (\<exists>s'. restore_all stp_apply_record (stp_writeSnapshot s) [] = Some s' \<and> map_of s' = map_of s \<and> stp_hashInto s' = stp_hashInto s)
    \<and> map_of (fold group_apply (writeGroups symbol g) []) = map_of g
    \<and> hashGroupsInto (fold group_apply (writeGroups symbol g) []) = hashGroupsInto g"
proof -
  have "pegs.legal_table p" unfolding pegs.legal_table_def p_def by (simp add: peg_run_legal)
  note p = pegs.restored_exact [OF this] pegs.restored_digest [OF this]
  have "stp_table_ok s" unfolding s_def by (rule stp_run_ok) (simp add: stp_table_ok_def)
  then have "stps.legal_table s" by (simp add: stps.legal_table_def stp_table_ok_def)
  note s = stps.restored_exact [OF this] stps.restored_digest [OF this]
  have "groups_ok g" unfolding g_def by (rule groups_run_ok) (simp add: groups_ok_def)
  then have "grp.legal_table g" unfolding grp.legal_table_def groups_ok_def by blast
  note g = grp.restored_exact [OF this, of symbol] grp.restored_digest [OF this, of symbol]
  show ?thesis unfolding peg_restore_all stp_restore_all using p s g
    by (simp add: peg_writeSnapshot_def peg_hashInto_def stp_writeSnapshot_def stp_hashInto_def writeGroups_def hashGroupsInto_def fun_eq_iff)
qed

subsection \<open>The auction verdict\<close>

definition swap_legs :: "auction_verdict \<Rightarrow> auction_verdict" where
  "swap_legs v = v\<lparr>av_cancelBid := av_cancelAsk v, av_cancelAsk := av_cancelBid v\<rparr>"

text \<open>
  The verdict of an auction on a self-matching pair: it engages exactly when a leg asked for
  prevention, and then always acts, so the pair never prints; it does not depend on which leg
  the book hands over as the bid; decrementing excludes cancelling; and a leg is cancelled only
  when its own mode or its counterparty's says so.
\<close>

theorem auction_verdict_fair:
  fixes b a :: stp_mode
  defines "v \<equiv> auctionVerdict b a"
  shows "(\<not> av_engaged v) = (b = StpNone \<and> a = StpNone)
    \<and> av_engaged v = (av_decrement v \<or> av_cancelBid v \<or> av_cancelAsk v)
    \<and> auctionVerdict a b = swap_legs v
    \<and> av_decrement v = (b = Decrement \<or> a = Decrement)
    \<and> av_cancelBid v = (\<not> av_decrement v \<and> (b \<in> {CancelNewest, CancelBoth} \<or> a \<in> {CancelOldest, CancelBoth}))
    \<and> av_cancelAsk v = (\<not> av_decrement v \<and> (a \<in> {CancelNewest, CancelBoth} \<or> b \<in> {CancelOldest, CancelBoth}))"
  unfolding v_def by (cases a; cases b) (simp_all add: auctionVerdict_def swap_legs_def)

end
