(* ===== verification/MmpState.thy ===== *)
theory MmpState
  imports StateDigest
begin

section \<open>Market-maker protection\<close>

text \<open>
  \<^verbatim>\<open>MmpState\<close> of \<^verbatim>\<open>venue/include/flox-venue/engine/mmp.h\<close>: per account a limit on the quantity
  filled inside a sliding window, the fills inside it with their running sum, and the accounts
  whose quotes have to be pulled. The sums are unbounded integers; the source keeps them in an
  \<^verbatim>\<open>int64_t\<close> without a check.
\<close>

subsection \<open>The code\<close>

record mmp_cfg =
  mc_qtyLimit :: int
  mc_windowNs :: int

record mmp_window =
  mw_fills :: "(int \<times> int) list"
  mw_sumRaw :: int

record mmp_state =
  mm_cfg :: "(nat \<times> mmp_cfg) list"
  mm_fills :: "(nat \<times> mmp_window) list"
  mm_breached :: "nat list"

definition new_mmp :: mmp_state where
  "new_mmp = \<lparr>mm_cfg = [], mm_fills = [], mm_breached = []\<rparr>"

definition empty_window :: mmp_window where
  "empty_window = \<lparr>mw_fills = [], mw_sumRaw = 0\<rparr>"

definition mmp_armed :: "mmp_state \<Rightarrow> bool" where
  "mmp_armed s \<longleftrightarrow> mm_cfg s \<noteq> []"

definition mmp_configure :: "nat \<Rightarrow> int \<Rightarrow> int \<Rightarrow> mmp_state \<Rightarrow> mmp_state" where
  "mmp_configure account qtyLimit windowNs s =
     s\<lparr>mm_cfg := AList.update account \<lparr>mc_qtyLimit = qtyLimit, mc_windowNs = windowNs\<rparr> (mm_cfg s)\<rparr>"

definition window_of :: "mmp_state \<Rightarrow> nat \<Rightarrow> mmp_window" where
  "window_of s account = (case map_of (mm_fills s) account of None \<Rightarrow> empty_window | Some w \<Rightarrow> w)"

text \<open>The eviction loop: fills at or before the cutoff leave from the front.\<close>

fun mmp_evict :: "int \<Rightarrow> (int \<times> int) list \<Rightarrow> int \<Rightarrow> mmp_window" where
  "mmp_evict cutoff [] sumRaw = \<lparr>mw_fills = [], mw_sumRaw = sumRaw\<rparr>"
| "mmp_evict cutoff ((t, q) # fs) sumRaw =
     (if t \<le> cutoff then mmp_evict cutoff fs (sumRaw - q) else \<lparr>mw_fills = (t, q) # fs, mw_sumRaw = sumRaw\<rparr>)"

definition mmp_add :: "nat \<Rightarrow> int \<Rightarrow> int \<Rightarrow> mmp_state \<Rightarrow> mmp_state" where
  "mmp_add account qty now s =
     (case map_of (mm_cfg s) account of
        None \<Rightarrow> s
      | Some cfg \<Rightarrow>
          let w = window_of s account;
              w = mmp_evict (now - mc_windowNs cfg) (mw_fills w @ [(now, qty)]) (mw_sumRaw w + qty);
              s = s\<lparr>mm_fills := AList.update account w (mm_fills s)\<rparr>
          in if mw_sumRaw w \<ge> mc_qtyLimit cfg \<and> account \<notin> set (mm_breached s)
             then s\<lparr>mm_breached := mm_breached s @ [account]\<rparr> else s)"

definition mmp_rearm :: "nat \<Rightarrow> mmp_state \<Rightarrow> mmp_state" where
  "mmp_rearm account s =
     s\<lparr>mm_fills := AList.update account ((window_of s account)\<lparr>mw_fills := [], mw_sumRaw := 0\<rparr>) (mm_fills s)\<rparr>"

definition clearBreached :: "mmp_state \<Rightarrow> mmp_state" where
  "clearBreached s = s\<lparr>mm_breached := []\<rparr>"

record restore_mmp_cfg =
  rc_account :: nat
  rc_qtyLimit :: int
  rc_windowNs :: int

record restore_mmp_fills =
  rf_account :: nat
  rf_entries :: "(int \<times> int) list"

definition kMmpFillBatch :: nat where
  "kMmpFillBatch = 16"

definition mmp_restoreCfg :: "nat \<Rightarrow> int \<Rightarrow> int \<Rightarrow> mmp_state \<Rightarrow> mmp_state" where
  "mmp_restoreCfg account qtyLimit windowNs s =
     s\<lparr>mm_cfg := AList.update account \<lparr>mc_qtyLimit = qtyLimit, mc_windowNs = windowNs\<rparr> (mm_cfg s)\<rparr>"

definition append_fills :: "(int \<times> int) list \<Rightarrow> mmp_window \<Rightarrow> mmp_window" where
  "append_fills es w = fold (\<lambda>(t, q) w. w\<lparr>mw_fills := mw_fills w @ [(t, q)], mw_sumRaw := mw_sumRaw w + q\<rparr>) es w"

definition mmp_restoreFills :: "restore_mmp_fills \<Rightarrow> mmp_state \<Rightarrow> bool \<times> mmp_state" where
  "mmp_restoreFills r s =
     (if length (rf_entries r) > kMmpFillBatch then (False, s)
      else (True, s\<lparr>mm_fills := AList.update (rf_account r)
              (append_fills (rf_entries r) (window_of s (rf_account r))) (mm_fills s)\<rparr>))"

definition mmp_cfg_hash :: "nat \<Rightarrow> mmp_cfg \<Rightarrow> 64 word \<Rightarrow> 64 word" where
  "mmp_cfg_hash acct c h =
     mix (mix (mix (mix h kMmpConfig) (of_nat acct)) (word_of_int (mc_qtyLimit c))) (word_of_int (mc_windowNs c))"

definition mmp_fills_hash :: "nat \<Rightarrow> mmp_window \<Rightarrow> 64 word \<Rightarrow> 64 word" where
  "mmp_fills_hash acct w h =
     (if mw_fills w = [] then h
      else fold (\<lambda>(t, q) h. mix (mix h (word_of_int t)) (word_of_int q)) (mw_fills w)
             (mix (mix h kMmpFills) (of_nat acct)))"

definition mmp_hashInto :: "mmp_state \<Rightarrow> 64 word \<Rightarrow> 64 word" where
  "mmp_hashInto s h = digest_section mmp_fills_hash (mm_fills s) (digest_section mmp_cfg_hash (mm_cfg s) h)"

text \<open>The loop over the fills of one window: a full batch is appended and restarted.\<close>

fun fill_batches :: "(int \<times> int) list \<Rightarrow> restore_mmp_fills \<Rightarrow> restore_mmp_fills list" where
  "fill_batches [] batch = (if rf_entries batch = [] then [] else [batch])"
| "fill_batches (f # fs) batch =
     (let b = batch\<lparr>rf_entries := rf_entries batch @ [f]\<rparr>
      in if length (rf_entries b) = kMmpFillBatch then b # fill_batches fs (batch\<lparr>rf_entries := []\<rparr>)
         else fill_batches fs b)"

definition mmp_write_fills :: "nat \<Rightarrow> mmp_window \<Rightarrow> restore_mmp_fills list" where
  "mmp_write_fills acct w =
     (if mw_fills w = [] then [] else fill_batches (mw_fills w) \<lparr>rf_account = acct, rf_entries = []\<rparr>)"

definition mmp_write_cfg :: "nat \<Rightarrow> mmp_cfg \<Rightarrow> restore_mmp_cfg" where
  "mmp_write_cfg acct c = \<lparr>rc_account = acct, rc_qtyLimit = mc_qtyLimit c, rc_windowNs = mc_windowNs c\<rparr>"

definition mmp_writeSnapshot :: "mmp_state \<Rightarrow> restore_mmp_cfg list \<times> restore_mmp_fills list" where
  "mmp_writeSnapshot s =
     (write_section (\<lambda>a c. [mmp_write_cfg a c]) (mm_cfg s), write_section mmp_write_fills (mm_fills s))"

text \<open>Recovery applies the records in the order of the file, and stops at a malformed one.\<close>

fun mmp_load_fills :: "restore_mmp_fills list \<Rightarrow> mmp_state \<Rightarrow> mmp_state option" where
  "mmp_load_fills [] s = Some s"
| "mmp_load_fills (r # rs) s = (let (ok, s1) = mmp_restoreFills r s in if ok then mmp_load_fills rs s1 else None)"

definition mmp_load :: "restore_mmp_cfg list \<times> restore_mmp_fills list \<Rightarrow> mmp_state option" where
  "mmp_load snap = mmp_load_fills (snd snap)
     (fold (\<lambda>r. mmp_restoreCfg (rc_account r) (rc_qtyLimit r) (rc_windowNs r)) (fst snap) new_mmp)"

subsection \<open>The sliding window\<close>

lemma mmp_evict_eq:
  assumes "sorted (map fst fs)"
  shows "mw_fills (mmp_evict c fs x) = filter (\<lambda>(t, q). c < t) fs
    \<and> mw_sumRaw (mmp_evict c fs x) = x - sum_list (map snd (filter (\<lambda>(t, q). t \<le> c) fs))"
  using assms
proof (induction c fs x rule: mmp_evict.induct)
  case (2 c t q fs x)
  show ?case
  proof (cases "t \<le> c")
    case False
    then have "filter (\<lambda>(t, q). c < t) fs = fs" "filter (\<lambda>(t, q). t \<le> c) fs = []"
      using "2.prems" by (auto simp: filter_id_conv filter_empty_conv)
    then show ?thesis using False by simp
  qed (use 2 in simp)
qed simp

lemma mmp_evict_sum: "x = sum_list (map snd fs) \<Longrightarrow> mw_sumRaw (mmp_evict c fs x) = sum_list (map snd (mw_fills (mmp_evict c fs x)))"
  by (induction c fs x rule: mmp_evict.induct) auto

definition sums_ok :: "mmp_state \<Rightarrow> bool" where
  "sums_ok s \<longleftrightarrow> distinct (map fst (mm_cfg s)) \<and> distinct (map fst (mm_fills s)) \<and> distinct (mm_breached s)
     \<and> (\<forall>a. mw_sumRaw (window_of s a) = sum_list (map snd (mw_fills (window_of s a))))"

lemma window_of_update [simp]:
  "window_of (s\<lparr>mm_fills := AList.update a w (mm_fills s)\<rparr>) = (window_of s)(a := w)"
  "window_of (s\<lparr>mm_breached := b\<rparr>) = window_of s" "window_of (s\<lparr>mm_cfg := c\<rparr>) = window_of s"
  by (simp_all add: window_of_def fun_eq_iff update_conv')

lemma sums_ok_new: "sums_ok new_mmp"
  by (simp add: sums_ok_def new_mmp_def window_of_def empty_window_def)

lemma sums_ok_add: "sums_ok s \<Longrightarrow> sums_ok (mmp_add a q n s)"
  by (auto simp: sums_ok_def mmp_add_def Let_def distinct_update mmp_evict_sum split: option.split)

lemma sums_ok_steps:
  "sums_ok s \<Longrightarrow> sums_ok (mmp_configure a l d s)" "sums_ok s \<Longrightarrow> sums_ok (mmp_rearm a s)" "sums_ok s \<Longrightarrow> sums_ok (clearBreached s)"
  by (simp_all add: sums_ok_def mmp_configure_def mmp_rearm_def clearBreached_def distinct_update)

text \<open>A run of fills, each an account, a quantity and the sequencer moment.\<close>

definition run_fills :: "(nat \<times> int \<times> int) list \<Rightarrow> mmp_state \<Rightarrow> mmp_state" where
  "run_fills cs s = fold (\<lambda>(a, q, n). mmp_add a q n) cs s"

definition fills_for :: "nat \<Rightarrow> (nat \<times> int \<times> int) list \<Rightarrow> (int \<times> int) list" where
  "fills_for a cs = map (\<lambda>(b, q, n). (n, q)) (filter (\<lambda>(b, q, n). b = a) cs)"

definition in_window :: "int \<Rightarrow> (int \<times> int) list \<Rightarrow> (int \<times> int) list" where
  "in_window d fs = (if fs = [] then [] else filter (\<lambda>(t, q). fst (last fs) - d < t) fs)"

definition window_reached :: "int \<Rightarrow> int \<Rightarrow> (int \<times> int) list \<Rightarrow> bool" where
  "window_reached d l fs \<longleftrightarrow> (\<exists>k \<in> {1..length fs}. l \<le> sum_list (map snd (in_window d (take k fs))))"

lemma fills_for_snoc: "fills_for a (cs @ [(b, q, n)]) = (if b = a then fills_for a cs @ [(n, q)] else fills_for a cs)"
  by (simp add: fills_for_def)

lemma fills_for_times:
  assumes "sorted (map (\<lambda>x. snd (snd x)) cs)"
  shows "sorted (map fst (fills_for a cs))"
proof -
  have "map fst (fills_for a cs) = map (\<lambda>x. snd (snd x)) (filter (\<lambda>(b, q, n). b = a) cs)"
    by (simp add: fills_for_def case_prod_unfold)
  then show ?thesis using sorted_filter [OF assms] by simp
qed

lemma in_window_step:
  assumes "sorted (map fst (fs @ [(n, q)]))"
  shows "filter (\<lambda>(t, x). n - d < t) (in_window d fs @ [(n, q)]) = in_window d (fs @ [(n, q)])"
proof (cases "fs = []")
  case False
  then have "fst (last fs) \<le> n" using assms by (auto simp: sorted_append)
  then show ?thesis by (auto simp: in_window_def intro!: filter_cong)
qed (simp add: in_window_def)

lemma in_window_sorted: "sorted (map fst fs) \<Longrightarrow> sorted (map fst (in_window d fs))"
  by (simp add: in_window_def sorted_filter)

lemma window_reached_snoc:
  "window_reached d l (fs @ [f]) \<longleftrightarrow> window_reached d l fs \<or> l \<le> sum_list (map snd (in_window d (fs @ [f])))"
proof -
  have "{1..Suc (length fs)} = insert (Suc (length fs)) {1..length fs}" by auto
  then show ?thesis by (auto simp: window_reached_def)
qed

lemma mmp_add_other: "a \<noteq> b \<Longrightarrow> window_of (mmp_add b q n s) a = window_of s a \<and> (a \<in> set (mm_breached (mmp_add b q n s)) \<longleftrightarrow> a \<in> set (mm_breached s))"
  by (simp add: mmp_add_def Let_def split: option.split)

lemma mm_cfg_add [simp]: "mm_cfg (mmp_add b q n s) = mm_cfg s"
  by (simp add: mmp_add_def Let_def split: option.split)

lemma mmp_add_self:
  assumes "map_of (mm_cfg s) a = Some c" "mw_fills (window_of s a) = in_window (mc_windowNs c) fs"
    and "mw_sumRaw (window_of s a) = sum_list (map snd (mw_fills (window_of s a)))"
    and "sorted (map fst (fs @ [(n, q)]))"
  shows "mw_fills (window_of (mmp_add a q n s) a) = in_window (mc_windowNs c) (fs @ [(n, q)])
    \<and> mw_sumRaw (window_of (mmp_add a q n s) a) = sum_list (map snd (in_window (mc_windowNs c) (fs @ [(n, q)])))
    \<and> (a \<in> set (mm_breached (mmp_add a q n s)) \<longleftrightarrow> a \<in> set (mm_breached s)
        \<or> mc_qtyLimit c \<le> sum_list (map snd (in_window (mc_windowNs c) (fs @ [(n, q)]))))"
proof -
  let ?w = "mmp_evict (n - mc_windowNs c) (mw_fills (window_of s a) @ [(n, q)]) (mw_sumRaw (window_of s a) + q)"
  have "sorted (map fst fs)" "\<forall>f \<in> set fs. fst f \<le> n" using assms(4) by (auto simp: sorted_append)
  then have "sorted (map fst (in_window (mc_windowNs c) fs @ [(n, q)]))"
    using in_window_sorted [of fs] by (auto simp: sorted_append in_window_def split: if_splits)
  then have "mw_fills ?w = in_window (mc_windowNs c) (fs @ [(n, q)])"
    using mmp_evict_eq [of "mw_fills (window_of s a) @ [(n, q)]"] in_window_step [OF assms(4)] assms(2) by simp
  moreover have "mw_sumRaw ?w = sum_list (map snd (mw_fills ?w))"
    by (rule mmp_evict_sum) (use assms(3) in simp)
  ultimately show ?thesis using assms(1) by (auto simp: mmp_add_def Let_def)
qed

text \<open>
  C29. The protection window is exact: for a configured account that starts with an empty window,
  whatever fills of any accounts arrive in sequencer order, the window holds precisely the
  account's fills younger than its width at its last fill, the running sum is their total, and
  the account is listed for a pull exactly when the total inside the window reached the limit at
  one of its fills.
\<close>

theorem mmp_window_exact:
  assumes "map_of (mm_cfg s) a = Some c" "mw_fills (window_of s a) = []" "mw_sumRaw (window_of s a) = 0"
    and "a \<notin> set (mm_breached s)" "sorted (map (\<lambda>x. snd (snd x)) cs)"
  shows "mw_fills (window_of (run_fills cs s) a) = in_window (mc_windowNs c) (fills_for a cs)
    \<and> mw_sumRaw (window_of (run_fills cs s) a) = sum_list (map snd (in_window (mc_windowNs c) (fills_for a cs)))
    \<and> (a \<in> set (mm_breached (run_fills cs s)) \<longleftrightarrow> window_reached (mc_windowNs c) (mc_qtyLimit c) (fills_for a cs))"
  using assms(5)
proof (induction cs rule: rev_induct)
  case Nil
  then show ?case using assms by (simp add: run_fills_def fills_for_def in_window_def window_reached_def)
next
  case (snoc x cs)
  obtain b q n where x: "x = (b, q, n)" by (cases x)
  let ?s = "run_fills cs s"
  have r: "run_fills (cs @ [(b, q, n)]) s = mmp_add b q n ?s" by (simp add: run_fills_def)
  have "sorted (map (\<lambda>x. snd (snd x)) cs)" using snoc.prems by (simp add: sorted_append)
  note IH = snoc.IH [OF this]
  have cfg: "map_of (mm_cfg ?s) a = Some c"
    unfolding run_fills_def using assms(1) by (induction cs arbitrary: s) auto
  show ?case
  proof (cases "b = a")
    case True
    have "sorted (map fst (fills_for a cs @ [(n, q)]))"
      using fills_for_times [OF snoc.prems, of a] True x by (simp add: fills_for_snoc)
    then show ?thesis
      using mmp_add_self [OF cfg, of "fills_for a cs" n q] IH True r unfolding x fills_for_snoc by (simp add: window_reached_snoc)
  next
    case False
    then show ?thesis using mmp_add_other [of a b q n ?s] IH False r unfolding x fills_for_snoc by simp
  qed
qed

definition mmp_demo :: mmp_state where
  "mmp_demo = mmp_configure 7 100 50 new_mmp"

theorem mmp_window_exact_witness:
  "let cs = [(7, 60, 10), (8, 500, 20), (7, 30, 40), (7, 50, 70)]
   in 7 \<notin> set (mm_breached (run_fills cs mmp_demo)) \<and> mw_sumRaw (window_of (run_fills cs mmp_demo) 7) = 80"
proof -
  let ?cs = "[(7, 60, 10), (8, 500, 20), (7, 30, 40), (7, 50, 70)] :: (nat \<times> int \<times> int) list"
  have "map_of (mm_cfg mmp_demo) 7 = Some \<lparr>mc_qtyLimit = 100, mc_windowNs = 50\<rparr>" "window_of mmp_demo 7 = empty_window"
    "mm_breached mmp_demo = []"
    by (simp_all add: mmp_demo_def mmp_configure_def new_mmp_def window_of_def)
  note e = mmp_window_exact [OF this(1), of ?cs, unfolded this(2,3), simplified empty_window_def mmp_window.simps mmp_cfg.simps]
  have "\<not> window_reached 50 100 [(10, 60), (40, 30), (70, 50)]" "in_window 50 [(10, 60), (40, 30), (70, 50)] = [(40, 30), (70, 50)]"
    by (simp_all add: window_reached_def in_window_def atLeastAtMostSuc_conv)
  moreover have "fills_for 7 ?cs = [(10, 60), (40, 30), (70, 50)]" by (simp add: fills_for_def)
  ultimately show ?thesis using e by simp
qed

subsection \<open>Snapshots\<close>

lemma append_fills_eq: "append_fills es w = \<lparr>mw_fills = mw_fills w @ es, mw_sumRaw = mw_sumRaw w + sum_list (map snd es)\<rparr>"
  unfolding append_fills_def by (induction es arbitrary: w) auto

definition restore_fills_tab :: "restore_mmp_fills \<Rightarrow> (nat \<times> mmp_window) list \<Rightarrow> (nat \<times> mmp_window) list" where
  "restore_fills_tab r t = mm_fills (snd (mmp_restoreFills r (new_mmp\<lparr>mm_fills := t\<rparr>)))"

lemma restore_fills_tab_eq:
  "length (rf_entries r) \<le> kMmpFillBatch \<Longrightarrow> restore_fills_tab r t =
     AList.update (rf_account r) (append_fills (rf_entries r) (case map_of t (rf_account r) of None \<Rightarrow> empty_window | Some w \<Rightarrow> w)) t"
  by (simp add: restore_fills_tab_def mmp_restoreFills_def window_of_def)

lemma restore_fills_tab_distinct: "distinct (map fst t) \<Longrightarrow> distinct (map fst (restore_fills_tab r t))"
  by (simp add: restore_fills_tab_def mmp_restoreFills_def distinct_update)

lemma fill_batches_spec:
  assumes "length (rf_entries b) < kMmpFillBatch"
  shows "concat (map rf_entries (fill_batches fs b)) = rf_entries b @ fs
    \<and> (\<forall>x \<in> set (fill_batches fs b). rf_account x = rf_account b \<and> length (rf_entries x) \<le> kMmpFillBatch)"
  using assms
proof (induction fs b rule: fill_batches.induct)
  case (2 f fs b)
  have k: "0 < kMmpFillBatch" by (simp add: kMmpFillBatch_def)
  show ?case
  proof (cases "Suc (length (rf_entries b)) = kMmpFillBatch")
    case True
    then show ?thesis using 2(1) [OF refl] k by simp
  next
    case False
    then show ?thesis using 2(2) [OF refl] 2(3) by simp
  qed
qed simp

lemma restore_fills_run:
  assumes "\<forall>x \<in> set bs. rf_account x = a \<and> length (rf_entries x) \<le> kMmpFillBatch"
  shows "map_of (fold restore_fills_tab bs t) = (if bs = [] then map_of t else
     (map_of t)(a \<mapsto> append_fills (concat (map rf_entries bs)) (case map_of t a of None \<Rightarrow> empty_window | Some w \<Rightarrow> w)))"
  using assms
proof (induction bs arbitrary: t)
  case (Cons b bs)
  let ?t = "restore_fills_tab b t" and ?w = "case map_of t a of None \<Rightarrow> empty_window | Some w \<Rightarrow> w"
  have t: "map_of ?t = (map_of t)(a \<mapsto> append_fills (rf_entries b) ?w)"
    using Cons.prems by (simp add: restore_fills_tab_eq update_conv')
  have "map_of (fold restore_fills_tab bs ?t) = (if bs = [] then map_of ?t else
     (map_of ?t)(a \<mapsto> append_fills (concat (map rf_entries bs)) (case map_of ?t a of None \<Rightarrow> empty_window | Some w \<Rightarrow> w)))"
    by (rule Cons.IH) (use Cons.prems in simp)
  then show ?case by (cases "bs = []") (simp_all add: t append_fills_eq add.assoc)
qed simp

definition window_legal :: "nat \<Rightarrow> mmp_window \<Rightarrow> bool" where
  "window_legal a w \<longleftrightarrow> mw_sumRaw w = sum_list (map snd (mw_fills w))"

lemma restore_window:
  assumes "window_legal a w" "mw_fills w \<noteq> []" "map_of t a = None"
  shows "map_of (fold restore_fills_tab (mmp_write_fills a w) t) = (map_of t)(a \<mapsto> w)"
proof -
  let ?bs = "fill_batches (mw_fills w) \<lparr>rf_account = a, rf_entries = []\<rparr>"
  have b: "concat (map rf_entries ?bs) = mw_fills w" "\<forall>x \<in> set ?bs. rf_account x = a \<and> length (rf_entries x) \<le> kMmpFillBatch"
    using fill_batches_spec [of "\<lparr>rf_account = a, rf_entries = []\<rparr>" "mw_fills w"] by (simp_all add: kMmpFillBatch_def)
  moreover have "\<lparr>mw_fills = mw_fills w, mw_sumRaw = sum_list (map snd (mw_fills w))\<rparr> = w"
    using assms(1) by (cases w) (simp add: window_legal_def)
  moreover have "?bs \<noteq> []" using assms(2) b(1) by auto
  ultimately show ?thesis using restore_fills_run [OF b(2), of t] assms b(1)
    by (simp add: mmp_write_fills_def append_fills_eq empty_window_def window_legal_def)
qed

lemma write_fills_fit: "r \<in> set (mmp_write_fills a w) \<Longrightarrow> length (rf_entries r) \<le> kMmpFillBatch"
  using fill_batches_spec [of "\<lparr>rf_account = a, rf_entries = []\<rparr>" "mw_fills w"]
  by (auto simp: mmp_write_fills_def kMmpFillBatch_def split: if_splits)

interpretation mfl: snapshot_section mmp_write_fills restore_fills_tab mmp_fills_hash window_legal "\<lambda>w. mw_fills w \<noteq> []"
proof
  show "mmp_write_fills a w = [] \<and> mmp_fills_hash a w = id" if "\<not> mw_fills w \<noteq> []" for a w
    using that by (simp add: mmp_write_fills_def mmp_fills_hash_def fun_eq_iff)
qed (simp_all add: restore_window restore_fills_tab_distinct)

definition restore_cfg_tab :: "restore_mmp_cfg \<Rightarrow> (nat \<times> mmp_cfg) list \<Rightarrow> (nat \<times> mmp_cfg) list" where
  "restore_cfg_tab r t = AList.update (rc_account r) \<lparr>mc_qtyLimit = rc_qtyLimit r, mc_windowNs = rc_windowNs r\<rparr> t"

lemma mmp_cfg_eta: "\<lparr>mc_qtyLimit = mc_qtyLimit c, mc_windowNs = mc_windowNs c\<rparr> = (c :: mmp_cfg)"
  by (cases c) simp

interpretation mcf: snapshot_section "\<lambda>a c. [mmp_write_cfg a c]" restore_cfg_tab mmp_cfg_hash "\<lambda>_ _. True" "\<lambda>_. True"
  by (rule section_single_record) (simp_all add: restore_cfg_tab_def mmp_write_cfg_def mmp_cfg_eta distinct_update)

lemma load_cfgs: "fold (\<lambda>r. mmp_restoreCfg (rc_account r) (rc_qtyLimit r) (rc_windowNs r)) rs s = s\<lparr>mm_cfg := fold restore_cfg_tab rs (mm_cfg s)\<rparr>"
  by (induction rs arbitrary: s) (simp_all add: mmp_restoreCfg_def restore_cfg_tab_def)

lemma load_fills:
  "\<forall>r \<in> set rs. length (rf_entries r) \<le> kMmpFillBatch \<Longrightarrow> mmp_load_fills rs s = Some (s\<lparr>mm_fills := fold restore_fills_tab rs (mm_fills s)\<rparr>)"
  by (induction rs arbitrary: s) (simp_all add: mmp_restoreFills_def restore_fills_tab_def window_of_def)

lemma sums_ok_legal: "sums_ok s \<Longrightarrow> mcf.legal_table (mm_cfg s) \<and> mfl.legal_table (mm_fills s)"
  by (auto simp: sums_ok_def mcf.legal_table_def mfl.legal_table_def window_legal_def window_of_def simp del: map_of_eq_Some_iff split: option.splits)

datatype mmp_op = MmpConfigure nat int int | MmpFill nat int int | MmpRearm nat | MmpClear

fun mmp_apply :: "mmp_op \<Rightarrow> mmp_state \<Rightarrow> mmp_state" where
  "mmp_apply (MmpConfigure a l d) s = mmp_configure a l d s"
| "mmp_apply (MmpFill a q n) s = mmp_add a q n s"
| "mmp_apply (MmpRearm a) s = mmp_rearm a s"
| "mmp_apply MmpClear s = clearBreached s"

lemma sums_ok_run: "sums_ok s \<Longrightarrow> sums_ok (fold mmp_apply ops s)"
proof (induction ops arbitrary: s)
  case (Cons op ops)
  have "sums_ok (mmp_apply op s)" using Cons.prems by (cases op) (simp_all add: sums_ok_add sums_ok_steps)
  then show ?case using Cons.IH by simp
qed simp

text \<open>
  The protection state survives a snapshot: after any history, loading what
  \<^verbatim>\<open>writeSnapshot\<close> appends succeeds (no batch is malformed) and gives every account its limit
  and, fill by fill, its window with the running sum, so an account one fill from its limit
  still is; the determinism digest is the same although empty windows are not written.
\<close>

theorem mmp_snapshot_restores:
  fixes ops :: "mmp_op list"
  defines "s \<equiv> fold mmp_apply ops new_mmp"
  shows "\<exists>s'. mmp_load (mmp_writeSnapshot s) = Some s' \<and> map_of (mm_cfg s') = map_of (mm_cfg s)
            \<and> window_of s' = window_of s \<and> mmp_hashInto s' = mmp_hashInto s"
proof -
  have ok: "sums_ok s" unfolding s_def by (rule sums_ok_run [OF sums_ok_new])
  then have leg: "mcf.legal_table (mm_cfg s)" "mfl.legal_table (mm_fills s)" using sums_ok_legal by auto
  define s' where "s' = new_mmp\<lparr>mm_cfg := fold restore_cfg_tab (write_section (\<lambda>a c. [mmp_write_cfg a c]) (mm_cfg s)) [],
    mm_fills := fold restore_fills_tab (write_section mmp_write_fills (mm_fills s)) []\<rparr>"
  have fit: "\<forall>r \<in> set (write_section mmp_write_fills (mm_fills s)). length (rf_entries r) \<le> kMmpFillBatch"
    by (auto simp: write_section_def split: option.splits dest: write_fills_fit)
  have "mmp_load (mmp_writeSnapshot s) = Some s'"
    using load_fills [OF fit] by (simp add: mmp_load_def mmp_writeSnapshot_def load_cfgs s'_def new_mmp_def)
  moreover have "map_of (mm_cfg s') = map_of (mm_cfg s)"
    using mcf.restored_exact [OF leg(1)] by (simp add: s'_def)
  moreover have "window_of s' = window_of s"
  proof
    fix b
    have "map_of (mm_fills s') b = mfl.written_part (mm_fills s) b"
      using fun_cong [OF mfl.restored_map [OF leg(2)], of b] by (simp add: s'_def)
    moreover have "mw_sumRaw (window_of s b) = sum_list (map snd (mw_fills (window_of s b)))" using ok by (simp add: sums_ok_def)
    ultimately show "window_of s' b = window_of s b"
      by (cases "map_of (mm_fills s) b") (simp_all add: window_of_def mfl.written_part_def empty_window_def)
  qed
  moreover have "mmp_hashInto s' = mmp_hashInto s"
    using mcf.restored_digest [OF leg(1)] mfl.restored_digest [OF leg(2)] by (simp add: mmp_hashInto_def fun_eq_iff s'_def)
  ultimately show ?thesis by blast
qed

end
