(* ===== verification/Sbe.thy ===== *)
theory Sbe
  imports Prelude "HOL-Library.Monad_Syntax"
begin

section \<open>Little-endian wire primitives\<close>

text \<open>
  \<^verbatim>\<open>venue/include/flox-venue/sbe.h\<close>: the writers append to a byte vector, the readers take a
  pointer whose bounds the caller has checked. A reader is modelled on the whole buffer and an
  offset, and answers \<open>None\<close> when it would touch a byte past the end: that a decoder never does
  is then a theorem about it. An \<^verbatim>\<open>int64_t\<close> travels as its \<open>64 word\<close>.
\<close>

unbundle bit_operations_syntax

type_synonym byte = "8 word"
type_synonym bytes = "8 word list"

subsection \<open>The code\<close>

definition kHeaderSize :: nat where
  "kHeaderSize = 8"

definition byte_of :: "'w :: len word \<Rightarrow> nat \<Rightarrow> byte" where
  "byte_of v i = ucast (drop_bit (8 * i) v AND 0xFF)"

definition putU16 :: "bytes \<Rightarrow> 16 word \<Rightarrow> bytes" where
  "putU16 out v = (out @ [byte_of v 0]) @ [byte_of v 1]"

definition putU32 :: "bytes \<Rightarrow> 32 word \<Rightarrow> bytes" where
  "putU32 out v = fold (\<lambda>i out. out @ [byte_of v i]) [0..<4] out"

definition putU64 :: "bytes \<Rightarrow> 64 word \<Rightarrow> bytes" where
  "putU64 out v = fold (\<lambda>i out. out @ [byte_of v i]) [0..<8] out"

definition putI64 :: "bytes \<Rightarrow> 64 word \<Rightarrow> bytes" where
  "putI64 out v = putU64 out v"

definition putU8 :: "bytes \<Rightarrow> byte \<Rightarrow> bytes" where
  "putU8 out v = out @ [v]"

definition byte_at :: "bytes \<Rightarrow> nat \<Rightarrow> byte option" where
  "byte_at p i = (if i < length p then Some (p ! i) else None)"

definition getU16 :: "bytes \<Rightarrow> nat \<Rightarrow> 16 word option" where
  "getU16 p at = do { x \<leftarrow> byte_at p at; y \<leftarrow> byte_at p (at + 1); Some (ucast x OR push_bit 8 (ucast y)) }"

fun get_loop :: "nat list \<Rightarrow> bytes \<Rightarrow> nat \<Rightarrow> 'w :: len word \<Rightarrow> 'w word option" where
  "get_loop [] p at v = Some v"
| "get_loop (i # is) p at v = do { x \<leftarrow> byte_at p (at + i); get_loop is p at (v OR push_bit (8 * i) (ucast x)) }"

definition getU32 :: "bytes \<Rightarrow> nat \<Rightarrow> 32 word option" where
  "getU32 p at = get_loop [0..<4] p at 0"

definition getU64 :: "bytes \<Rightarrow> nat \<Rightarrow> 64 word option" where
  "getU64 p at = get_loop [0..<8] p at 0"

definition getI64 :: "bytes \<Rightarrow> nat \<Rightarrow> 64 word option" where
  "getI64 p at = getU64 p at"

record sbe_header =
  sh_blockLength :: "16 word"
  sh_templateId :: "16 word"
  sh_schemaId :: "16 word"
  sh_version :: "16 word"

definition putHeader :: "bytes \<Rightarrow> 16 word \<Rightarrow> 16 word \<Rightarrow> 16 word \<Rightarrow> 16 word \<Rightarrow> bytes" where
  "putHeader out blockLength templateId schemaId version =
     putU16 (putU16 (putU16 (putU16 out blockLength) templateId) schemaId) version"

definition readHeader :: "bytes \<Rightarrow> sbe_header option" where
  "readHeader p = do { a \<leftarrow> getU16 p 0; b \<leftarrow> getU16 p 2; c \<leftarrow> getU16 p 4; d \<leftarrow> getU16 p 6;
     Some \<lparr>sh_blockLength = a, sh_templateId = b, sh_schemaId = c, sh_version = d\<rparr> }"

subsection \<open>Writers append\<close>

definition le_bytes :: "nat \<Rightarrow> 'w :: len word \<Rightarrow> bytes" where
  "le_bytes k v = map (byte_of v) [0..<k]"

lemma length_le_bytes [simp]: "length (le_bytes k v) = k"
  by (simp add: le_bytes_def)

lemma put_fold: "fold (\<lambda>i out. out @ [byte_of v i]) is out = out @ map (byte_of v) is"
  by (induction "is" arbitrary: out) simp_all

named_theorems put_simps \<open>the writers as appends\<close>

lemma puts_append [put_simps]:
  "putU16 out v = out @ le_bytes 2 v" "putU32 out w = out @ le_bytes 4 w" "putU64 out x = out @ le_bytes 8 x"
  "putI64 out x = out @ le_bytes 8 x" "putU8 out b = out @ [b]"
  by (simp_all add: putU16_def putU32_def putU64_def putI64_def putU8_def put_fold le_bytes_def upt_rec numeral_2_eq_2)

lemma putHeader_append [put_simps]: "putHeader out a b c d = out @ le_bytes 2 a @ le_bytes 2 b @ le_bytes 2 c @ le_bytes 2 d"
  by (simp add: putHeader_def puts_append)

subsection \<open>Readers\<close>

named_theorems get_simps \<open>reading back what was written\<close>

lemma byte_at_append: "byte_at (p @ q) i = (if i < length p then byte_at p i else byte_at q (i - length p))"
  by (auto simp: byte_at_def nth_append)

lemma byte_at_bound: "i < length p \<Longrightarrow> byte_at p i = Some (p ! i)"
  by (simp add: byte_at_def)

lemma get_loop_skip: "length p \<le> at \<Longrightarrow> get_loop is (p @ q) at v = get_loop is q (at - length p) v"
  by (induction "is" arbitrary: v) (simp_all add: byte_at_append)

lemma get_loop_bound: "\<forall>i \<in> set is. at + i < length p \<Longrightarrow> \<exists>w. get_loop is p at v = Some w"
  by (induction "is" arbitrary: v) (simp_all add: byte_at_bound)

lemma skip_gets [get_simps]:
  "length p \<le> at \<Longrightarrow> byte_at (p @ q) at = byte_at q (at - length p)"
  "length p \<le> at \<Longrightarrow> getU16 (p @ q) at = getU16 q (at - length p)"
  "length p \<le> at \<Longrightarrow> getU32 (p @ q) at = getU32 q (at - length p)"
  "length p \<le> at \<Longrightarrow> getU64 (p @ q) at = getU64 q (at - length p)"
  "length p \<le> at \<Longrightarrow> getI64 (p @ q) at = getI64 q (at - length p)"
  by (simp_all add: byte_at_append getU16_def getU32_def getU64_def getI64_def get_loop_skip Suc_diff_le)

lemma get_bounds:
  "at + 2 \<le> length p \<Longrightarrow> \<exists>w. getU16 p at = Some w" "at + 4 \<le> length p \<Longrightarrow> \<exists>w. getU32 p at = Some w"
  "at + 8 \<le> length p \<Longrightarrow> \<exists>w. getU64 p at = Some w" "at + 8 \<le> length p \<Longrightarrow> \<exists>w. getI64 p at = Some w"
  unfolding getU32_def getU64_def getI64_def
  by (simp_all add: getU16_def byte_at_bound get_loop_bound)

text \<open>A decoder is a sequence of reads: each rule steps over one that is in bounds.\<close>

named_theorems read_ok \<open>a read in bounds, followed by a decoder that does not overrun\<close>

lemma reads_ok [read_ok]:
  "at < length p \<Longrightarrow> (\<And>v. f v \<noteq> None) \<Longrightarrow> Option.bind (byte_at p at) f \<noteq> None"
  "at + 4 \<le> length p \<Longrightarrow> (\<And>v. g v \<noteq> None) \<Longrightarrow> Option.bind (getU32 p at) g \<noteq> None"
  "at + 8 \<le> length p \<Longrightarrow> (\<And>v. h v \<noteq> None) \<Longrightarrow> Option.bind (getU64 p at) h \<noteq> None"
  "at + 8 \<le> length p \<Longrightarrow> (\<And>v. h v \<noteq> None) \<Longrightarrow> Option.bind (getI64 p at) h \<noteq> None"
  using get_bounds [of at p] by (auto simp: byte_at_bound)

lemma bind_ok [read_ok]: "x \<noteq> None \<Longrightarrow> (\<And>v. f v \<noteq> None) \<Longrightarrow> Option.bind x f \<noteq> None"
  by (cases x) simp_all

lemma Some_ok [read_ok]: "Some x \<noteq> None"
  by simp

lemma if_ok [read_ok]: "(c \<Longrightarrow> x \<noteq> None) \<Longrightarrow> (\<not> c \<Longrightarrow> y \<noteq> None) \<Longrightarrow> (if c then x else y) \<noteq> None"
  by (cases c) simp_all

lemma byte_of_bit: "bit (byte_of v i) n \<longleftrightarrow> n < 8 \<and> bit v (8 * i + n)"
  for v :: "'w :: len word"
proof -
  have m: "(0xFF :: 'w word) = mask 8" by (simp add: mask_eq_exp_minus_1)
  have "8 * i + n < LENGTH('w)" if "bit v (8 * i + n)" using that by (rule bit_imp_le_length)
  then show ?thesis unfolding byte_of_def m by (auto simp: bit_simps)
qed

lemma low_bytes_step:
  "take_bit (8 * k) v OR push_bit (8 * k) (ucast (byte_of v k)) = take_bit (8 * Suc k) (v :: 'w :: len word)"
proof (rule bit_word_eqI)
  fix n
  assume "n < LENGTH('w)"
  then show "bit (take_bit (8 * k) v OR push_bit (8 * k) (ucast (byte_of v k))) n = bit (take_bit (8 * Suc k) v) n"
    by (cases "n < 8 * k") (auto simp: bit_simps byte_of_bit)
qed

lemma get_loop_written:
  fixes v :: "'w :: len word"
  shows "k \<le> j \<Longrightarrow> get_loop [k..<j] (le_bytes j v @ r) 0 (take_bit (8 * k) v) = Some (take_bit (8 * j) v)"
proof (induction "j - k" arbitrary: k)
  case (Suc n)
  then have k: "k < j" by simp
  then have "byte_at (le_bytes j v @ r) k = Some (byte_of v k)" by (simp add: byte_at_def nth_append le_bytes_def)
  moreover have "get_loop [Suc k..<j] (le_bytes j v @ r) 0 (take_bit (8 * Suc k) v) = Some (take_bit (8 * j) v)"
    by (rule Suc.hyps(1)) (use Suc.hyps(2) k in simp_all)
  ultimately show ?case using k by (simp add: upt_conv_Cons low_bytes_step)
qed simp

lemma get_written [get_simps]:
  "getU32 (le_bytes 4 w @ r) 0 = Some w" "getU64 (le_bytes 8 x @ r) 0 = Some x" "getI64 (le_bytes 8 x @ r) 0 = Some x"
  using get_loop_written [of 0 4 w r] get_loop_written [of 0 8 x r]
  by (simp_all add: getU32_def getU64_def getI64_def take_bit_word_eq_self)

lemma getU16_written [get_simps]: "getU16 (le_bytes 2 v @ r) 0 = Some v"
proof -
  have "getU16 p 0 = get_loop [0..<2] p 0 0" for p
    by (simp add: getU16_def numeral_2_eq_2 upt_rec)
  then show ?thesis using get_loop_written [of 0 2 v r] by (simp add: take_bit_word_eq_self)
qed

lemma byte_at_written [get_simps]: "byte_at (b # r) 0 = Some b"
  by (simp add: byte_at_def)

lemma byte_at_past [get_simps]: "0 < at \<Longrightarrow> byte_at (b # r) at = byte_at r (at - 1)"
  using skip_gets(1) [of "[b]" at r] by simp

lemma gets_past [get_simps]:
  "0 < at \<Longrightarrow> getU32 (b # r) at = getU32 r (at - 1)" "0 < at \<Longrightarrow> getU64 (b # r) at = getU64 r (at - 1)"
  "0 < at \<Longrightarrow> getI64 (b # r) at = getI64 r (at - 1)"
  using skip_gets(3,4,5) [of "[b]" at r] by simp_all

lemma readHeader_written [get_simps]:
  "readHeader (le_bytes 2 a @ le_bytes 2 b @ le_bytes 2 c @ le_bytes 2 d @ r) =
     Some \<lparr>sh_blockLength = a, sh_templateId = b, sh_schemaId = c, sh_version = d\<rparr>"
  by (simp add: readHeader_def get_simps)

lemma readHeader_bound: "kHeaderSize \<le> length p \<Longrightarrow> \<exists>h. readHeader p = Some h"
  using get_bounds(1) [of 0 p] get_bounds(1) [of 2 p] get_bounds(1) [of 4 p] get_bounds(1) [of 6 p]
  by (auto simp: readHeader_def kHeaderSize_def)

end
