(* ===== verification/SbeMd.thy ===== *)
theory SbeMd
  imports Sbe
begin

section \<open>The market-data wire codec\<close>

text \<open>
  \<^verbatim>\<open>SbeMdCodec\<close> of \<^verbatim>\<open>venue/include/flox-venue/sbe_md_codec.h\<close> and the messages it carries
  (\<^verbatim>\<open>MdMessage\<close> of \<^verbatim>\<open>market_data.h\<close>, the recovery and distribution verbs). Fields keep
  their width; an enumeration that travels as a byte is that byte, since a decoder casts
  whatever it reads. A decoder answers \<open>Some (Some m)\<close> for a message, \<open>Some None\<close> for a refusal,
  and \<open>None\<close> if it touched a byte outside the buffer.
\<close>

subsection \<open>Messages\<close>

datatype md_type = MdAddOrder | MdTrade | MdExecuted | MdCancel | MdReplace | MdTriggered
  | MdTradingStatus | MdDerivativesUpdate

record md_message =
  md_type :: md_type
  md_seq :: "64 word"
  md_symbol :: "32 word"
  md_id :: "64 word"
  md_side :: byte
  md_price :: "64 word"
  md_qty :: "64 word"
  md_makerId :: "64 word"
  md_epoch :: "64 word"
  md_engineTsNs :: "64 word"
  md_sendTsNs :: "64 word"
  md_status :: byte
  md_reason :: byte
  md_untilNs :: "64 word"
  md_fundingRateRaw :: "64 word"
  md_nextFundingNs :: "64 word"

definition new_md :: "md_type \<Rightarrow> md_message" where
  "new_md t = \<lparr>md_type = t, md_seq = 0, md_symbol = 0, md_id = 0, md_side = 0, md_price = 0, md_qty = 0,
     md_makerId = 0, md_epoch = 0, md_engineTsNs = 0, md_sendTsNs = 0, md_status = 0, md_reason = 0,
     md_untilNs = 0, md_fundingRateRaw = 0, md_nextFundingNs = 0\<rparr>"

record md_resend_request =
  rr_symbol :: "32 word"
  rr_fromSeq :: "64 word"

record md_snapshot_begin =
  mb_symbol :: "32 word"
  mb_epoch :: "64 word"
  mb_lastSeq :: "64 word"
  mb_orderCount :: "32 word"

record md_snapshot_mark =
  mk_symbol :: "32 word"
  mk_epoch :: "64 word"
  mk_lastSeq :: "64 word"

record md_subscribe_request =
  su_symbol :: "32 word"
  su_fromSeq :: "64 word"
  su_snapshotOnly :: bool

record md_unsubscribe_request =
  un_symbol :: "32 word"

record md_subscribe_reject =
  sj_symbol :: "32 word"
  sj_reason :: byte

subsection \<open>Schema constants\<close>

definition kSchemaId :: "16 word" where "kSchemaId = 91"
definition kVersion :: "16 word" where "kVersion = 3"

datatype tmpl = TAddOrder | TTrade | TExecuted | TCancel | TReplace | TTriggered | TResendRequest
  | TSnapshotBegin | TSnapshotEnd | TSnapshotRequired | TSubscribe | TUnsubscribe
  | TSubscribeReject | TTradingStatus | TDerivativesUpdate

fun tmpl_id :: "tmpl \<Rightarrow> 16 word" where
  "tmpl_id TAddOrder = 1" | "tmpl_id TTrade = 2" | "tmpl_id TExecuted = 3" | "tmpl_id TCancel = 4"
| "tmpl_id TReplace = 5" | "tmpl_id TTriggered = 6" | "tmpl_id TResendRequest = 7"
| "tmpl_id TSnapshotBegin = 8" | "tmpl_id TSnapshotEnd = 9" | "tmpl_id TSnapshotRequired = 10"
| "tmpl_id TSubscribe = 11" | "tmpl_id TUnsubscribe = 12" | "tmpl_id TSubscribeReject = 13"
| "tmpl_id TTradingStatus = 14" | "tmpl_id TDerivativesUpdate = 15"

definition kBlockOrderV0 :: nat where "kBlockOrderV0 = 8 + 4 + 8 + 1 + 8 + 8"
definition kBlockOrderV1 :: nat where "kBlockOrderV1 = kBlockOrderV0 + 8"
definition kBlockOrder :: nat where "kBlockOrder = kBlockOrderV1 + 16"
definition kBlockTradeV0 :: nat where "kBlockTradeV0 = kBlockOrderV0 + 8"
definition kBlockTradeV1 :: nat where "kBlockTradeV1 = kBlockTradeV0 + 8"
definition kBlockTrade :: nat where "kBlockTrade = kBlockTradeV1 + 16"
definition kBlockTriggeredV0 :: nat where "kBlockTriggeredV0 = 8 + 4 + 8 + 8"
definition kBlockTriggeredV1 :: nat where "kBlockTriggeredV1 = kBlockTriggeredV0 + 8"
definition kBlockTriggered :: nat where "kBlockTriggered = kBlockTriggeredV1 + 16"
definition kBlockTradingStatus :: nat where "kBlockTradingStatus = 8 + 4 + 8 + 8 + 8 + 1 + 1 + 8"
definition kBlockDerivatives :: nat where "kBlockDerivatives = 8 + 4 + 8 + 8 + 8 + 8 + 8 + 8 + 8"
definition kBlockResendRequest :: nat where "kBlockResendRequest = 4 + 8"
definition kBlockSnapshotBegin :: nat where "kBlockSnapshotBegin = 4 + 8 + 8 + 4"
definition kBlockSnapshotEnd :: nat where "kBlockSnapshotEnd = 4 + 8 + 8"
definition kBlockSnapshotRequired :: nat where "kBlockSnapshotRequired = kBlockSnapshotEnd"
definition kBlockSubscribe :: nat where "kBlockSubscribe = 4 + 8 + 1"
definition kBlockUnsubscribe :: nat where "kBlockUnsubscribe = 4"
definition kBlockSubscribeReject :: nat where "kBlockSubscribeReject = 4 + 1"
definition kSubscribeSnapshotOnly :: byte where "kSubscribeSnapshotOnly = 1"

lemmas block_sizes = kBlockOrderV0_def kBlockOrderV1_def kBlockOrder_def kBlockTradeV0_def kBlockTradeV1_def
  kBlockTrade_def kBlockTriggeredV0_def kBlockTriggeredV1_def kBlockTriggered_def kBlockTradingStatus_def
  kBlockDerivatives_def kBlockResendRequest_def kBlockSnapshotBegin_def kBlockSnapshotEnd_def
  kBlockSnapshotRequired_def kBlockSubscribe_def kBlockUnsubscribe_def kBlockSubscribeReject_def

subsection \<open>Encoding\<close>

definition head_of :: "nat \<Rightarrow> tmpl \<Rightarrow> bytes" where
  "head_of blockLength t = putHeader [] (of_nat blockLength) (tmpl_id t) kSchemaId kVersion"

definition putTimes :: "bytes \<Rightarrow> md_message \<Rightarrow> bytes" where
  "putTimes out m = putI64 (putI64 out (md_engineTsNs m)) (md_sendTsNs m)"

definition putOrderBlock :: "bytes \<Rightarrow> md_message \<Rightarrow> bytes" where
  "putOrderBlock out m =
     putI64 (putI64 (putU8 (putU64 (putU32 (putU64 out (md_seq m)) (md_symbol m)) (md_id m)) (md_side m))
       (md_price m)) (md_qty m)"

definition encode_order :: "tmpl \<Rightarrow> md_message \<Rightarrow> bytes" where
  "encode_order t m = putTimes (putU64 (putOrderBlock (head_of kBlockOrder t) m) (md_epoch m)) m"

definition encode_md :: "md_message \<Rightarrow> bytes" where
  "encode_md m =
     (case md_type m of
        MdAddOrder \<Rightarrow> encode_order TAddOrder m
      | MdTrade \<Rightarrow>
          putTimes (putU64 (putU64 (putOrderBlock (head_of kBlockTrade TTrade) m) (md_makerId m)) (md_epoch m)) m
      | MdExecuted \<Rightarrow> encode_order TExecuted m
      | MdCancel \<Rightarrow> encode_order TCancel m
      | MdReplace \<Rightarrow> encode_order TReplace m
      | MdTriggered \<Rightarrow>
          putTimes (putU64 (putI64 (putU64 (putU32 (putU64 (head_of kBlockTriggered TTriggered)
            (md_seq m)) (md_symbol m)) (md_id m)) (md_price m)) (md_epoch m)) m
      | MdTradingStatus \<Rightarrow>
          putI64 (putU8 (putU8 (putTimes (putU64 (putU32 (putU64 (head_of kBlockTradingStatus TTradingStatus)
            (md_seq m)) (md_symbol m)) (md_epoch m)) m) (md_status m)) (md_reason m)) (md_untilNs m)
      | MdDerivativesUpdate \<Rightarrow>
          putI64 (putI64 (putI64 (putI64 (putTimes (putU64 (putU32 (putU64
            (head_of kBlockDerivatives TDerivativesUpdate) (md_seq m)) (md_symbol m)) (md_epoch m)) m)
            (md_price m)) (md_fundingRateRaw m)) (md_nextFundingNs m)) (md_qty m))"

definition encode_resend :: "md_resend_request \<Rightarrow> bytes" where
  "encode_resend r = putU64 (putU32 (head_of kBlockResendRequest TResendRequest) (rr_symbol r)) (rr_fromSeq r)"

definition encode_snapshot_begin :: "md_snapshot_begin \<Rightarrow> bytes" where
  "encode_snapshot_begin s = putU32 (putU64 (putU64 (putU32 (head_of kBlockSnapshotBegin TSnapshotBegin)
     (mb_symbol s)) (mb_epoch s)) (mb_lastSeq s)) (mb_orderCount s)"

definition encode_snapshot_end :: "md_snapshot_mark \<Rightarrow> bytes" where
  "encode_snapshot_end s = putU64 (putU64 (putU32 (head_of kBlockSnapshotEnd TSnapshotEnd)
     (mk_symbol s)) (mk_epoch s)) (mk_lastSeq s)"

definition encode_snapshot_required :: "md_snapshot_mark \<Rightarrow> bytes" where
  "encode_snapshot_required s = putU64 (putU64 (putU32 (head_of kBlockSnapshotRequired TSnapshotRequired)
     (mk_symbol s)) (mk_epoch s)) (mk_lastSeq s)"

definition encode_subscribe :: "md_subscribe_request \<Rightarrow> bytes" where
  "encode_subscribe s = putU8 (putU64 (putU32 (head_of kBlockSubscribe TSubscribe) (su_symbol s)) (su_fromSeq s))
     (if su_snapshotOnly s then kSubscribeSnapshotOnly else 0)"

definition encode_unsubscribe :: "md_unsubscribe_request \<Rightarrow> bytes" where
  "encode_unsubscribe u = putU32 (head_of kBlockUnsubscribe TUnsubscribe) (un_symbol u)"

definition encode_reject :: "md_subscribe_reject \<Rightarrow> bytes" where
  "encode_reject r = putU8 (putU32 (head_of kBlockSubscribeReject TSubscribeReject) (sj_symbol r)) (sj_reason r)"

subsection \<open>Decoding\<close>

definition checkFrame :: "bytes \<Rightarrow> tmpl \<Rightarrow> nat \<Rightarrow> bytes option option" where
  "checkFrame p expected minBlock =
     (if length p < kHeaderSize then Some None
      else do { h \<leftarrow> readHeader p;
        Some (if sh_schemaId h \<noteq> kSchemaId \<or> sh_templateId h \<noteq> tmpl_id expected
                \<or> unat (sh_blockLength h) < minBlock \<or> length p < kHeaderSize + unat (sh_blockLength h)
              then None else Some (drop kHeaderSize p)) })"

definition in_frame :: "bytes \<Rightarrow> tmpl \<Rightarrow> nat \<Rightarrow> (bytes \<Rightarrow> 'm option) \<Rightarrow> 'm option option" where
  "in_frame p expected minBlock body =
     do { f \<leftarrow> checkFrame p expected minBlock;
          case f of None \<Rightarrow> Some None | Some b \<Rightarrow> do { m \<leftarrow> body b; Some (Some m) } }"

definition decode_subscribe :: "bytes \<Rightarrow> md_subscribe_request option option" where
  "decode_subscribe p = in_frame p TSubscribe kBlockSubscribe (\<lambda>b. do {
     s \<leftarrow> getU32 b 0; q \<leftarrow> getU64 b 4; f \<leftarrow> byte_at b 12;
     Some \<lparr>su_symbol = s, su_fromSeq = q, su_snapshotOnly = (f AND kSubscribeSnapshotOnly) \<noteq> 0\<rparr> })"

definition decode_unsubscribe :: "bytes \<Rightarrow> md_unsubscribe_request option option" where
  "decode_unsubscribe p = in_frame p TUnsubscribe kBlockUnsubscribe (\<lambda>b. do {
     s \<leftarrow> getU32 b 0; Some \<lparr>un_symbol = s\<rparr> })"

definition decode_reject :: "bytes \<Rightarrow> md_subscribe_reject option option" where
  "decode_reject p = in_frame p TSubscribeReject kBlockSubscribeReject (\<lambda>b. do {
     s \<leftarrow> getU32 b 0; r \<leftarrow> byte_at b 4; Some \<lparr>sj_symbol = s, sj_reason = r\<rparr> })"

definition decode_resend :: "bytes \<Rightarrow> md_resend_request option option" where
  "decode_resend p = in_frame p TResendRequest kBlockResendRequest (\<lambda>b. do {
     s \<leftarrow> getU32 b 0; q \<leftarrow> getU64 b 4; Some \<lparr>rr_symbol = s, rr_fromSeq = q\<rparr> })"

definition decode_snapshot_begin :: "bytes \<Rightarrow> md_snapshot_begin option option" where
  "decode_snapshot_begin p = in_frame p TSnapshotBegin kBlockSnapshotBegin (\<lambda>b. do {
     s \<leftarrow> getU32 b 0; e \<leftarrow> getU64 b 4; l \<leftarrow> getU64 b 12; c \<leftarrow> getU32 b 20;
     Some \<lparr>mb_symbol = s, mb_epoch = e, mb_lastSeq = l, mb_orderCount = c\<rparr> })"

definition decode_snapshot_end :: "bytes \<Rightarrow> md_snapshot_mark option option" where
  "decode_snapshot_end p = in_frame p TSnapshotEnd kBlockSnapshotEnd (\<lambda>b. do {
     s \<leftarrow> getU32 b 0; e \<leftarrow> getU64 b 4; l \<leftarrow> getU64 b 12;
     Some \<lparr>mk_symbol = s, mk_epoch = e, mk_lastSeq = l\<rparr> })"

definition decode_snapshot_required :: "bytes \<Rightarrow> md_snapshot_mark option option" where
  "decode_snapshot_required p = in_frame p TSnapshotRequired kBlockSnapshotRequired (\<lambda>b. do {
     s \<leftarrow> getU32 b 0; e \<leftarrow> getU64 b 4; l \<leftarrow> getU64 b 12;
     Some \<lparr>mk_symbol = s, mk_epoch = e, mk_lastSeq = l\<rparr> })"

definition templateId :: "bytes \<Rightarrow> 16 word option" where
  "templateId p =
     (if length p < kHeaderSize then Some 0
      else do { h \<leftarrow> readHeader p; Some (if sh_schemaId h = kSchemaId then sh_templateId h else 0) })"

fun tmplToType :: "16 word \<Rightarrow> md_type" where
  "tmplToType t = (if t = 1 then MdAddOrder else if t = 2 then MdTrade else if t = 3 then MdExecuted
     else if t = 4 then MdCancel else if t = 5 then MdReplace else MdTriggered)"

definition getTimes :: "bytes \<Rightarrow> nat \<Rightarrow> nat \<Rightarrow> md_message \<Rightarrow> md_message option" where
  "getTimes b blockLength at m =
     (if blockLength \<ge> at + 16
      then do { e \<leftarrow> getI64 b at; s \<leftarrow> getI64 b (at + 8); Some (m\<lparr>md_engineTsNs := e, md_sendTsNs := s\<rparr>) }
      else Some m)"

definition getOrderBlock :: "bytes \<Rightarrow> md_message \<Rightarrow> md_message option" where
  "getOrderBlock b m = do { q \<leftarrow> getU64 b 0; s \<leftarrow> getU32 b 8; i \<leftarrow> getU64 b 12; d \<leftarrow> byte_at b 20;
     p \<leftarrow> getI64 b 21; n \<leftarrow> getI64 b 29;
     Some (m\<lparr>md_seq := q, md_symbol := s, md_id := i, md_side := d, md_price := p, md_qty := n\<rparr>) }"

definition getEpoch :: "bytes \<Rightarrow> nat \<Rightarrow> nat \<Rightarrow> nat \<Rightarrow> md_message \<Rightarrow> md_message option" where
  "getEpoch b blockLength fits at m =
     (if blockLength \<ge> fits then do { e \<leftarrow> getU64 b at; Some (m\<lparr>md_epoch := e\<rparr>) } else Some m)"

definition decode_order :: "bytes \<Rightarrow> nat \<Rightarrow> 16 word \<Rightarrow> md_message option option" where
  "decode_order b blockLength t =
     (if blockLength < kBlockOrderV0 then Some None
      else do { m \<leftarrow> getOrderBlock b (new_md (tmplToType t));
                m \<leftarrow> getEpoch b blockLength kBlockOrderV1 kBlockOrderV0 m;
                m \<leftarrow> getTimes b blockLength kBlockOrderV1 m; Some (Some m) })"

definition decode_trade :: "bytes \<Rightarrow> nat \<Rightarrow> md_message option option" where
  "decode_trade b blockLength =
     (if blockLength < kBlockTradeV0 then Some None
      else do { m \<leftarrow> getOrderBlock b (new_md MdTrade);
                k \<leftarrow> getU64 b kBlockOrderV0;
                m \<leftarrow> getEpoch b blockLength kBlockTradeV1 kBlockTradeV0 (m\<lparr>md_makerId := k\<rparr>);
                m \<leftarrow> getTimes b blockLength kBlockTradeV1 m; Some (Some m) })"

definition decode_triggered :: "bytes \<Rightarrow> nat \<Rightarrow> md_message option option" where
  "decode_triggered b blockLength =
     (if blockLength < kBlockTriggeredV0 then Some None
      else do { q \<leftarrow> getU64 b 0; s \<leftarrow> getU32 b 8; i \<leftarrow> getU64 b 12; p \<leftarrow> getI64 b 20;
                m \<leftarrow> getEpoch b blockLength kBlockTriggeredV1 kBlockTriggeredV0
                  ((new_md MdTriggered)\<lparr>md_seq := q, md_symbol := s, md_id := i, md_price := p\<rparr>);
                m \<leftarrow> getTimes b blockLength kBlockTriggeredV1 m; Some (Some m) })"

definition decode_status :: "bytes \<Rightarrow> nat \<Rightarrow> md_message option option" where
  "decode_status b blockLength =
     (if blockLength < kBlockTradingStatus then Some None
      else do { q \<leftarrow> getU64 b 0; s \<leftarrow> getU32 b 8; e \<leftarrow> getU64 b 12; t \<leftarrow> getI64 b 20; u \<leftarrow> getI64 b 28;
                x \<leftarrow> byte_at b 36; r \<leftarrow> byte_at b 37; n \<leftarrow> getI64 b 38;
                Some (Some ((new_md MdTradingStatus)\<lparr>md_seq := q, md_symbol := s, md_epoch := e,
                  md_engineTsNs := t, md_sendTsNs := u, md_status := x, md_reason := r, md_untilNs := n\<rparr>)) })"

definition decode_derivatives :: "bytes \<Rightarrow> nat \<Rightarrow> md_message option option" where
  "decode_derivatives b blockLength =
     (if blockLength < kBlockDerivatives then Some None
      else do { q \<leftarrow> getU64 b 0; s \<leftarrow> getU32 b 8; e \<leftarrow> getU64 b 12; t \<leftarrow> getI64 b 20; u \<leftarrow> getI64 b 28;
                k \<leftarrow> getI64 b 36; f \<leftarrow> getI64 b 44; n \<leftarrow> getI64 b 52; oi \<leftarrow> getI64 b 60;
                Some (Some ((new_md MdDerivativesUpdate)\<lparr>md_seq := q, md_symbol := s, md_epoch := e,
                  md_engineTsNs := t, md_sendTsNs := u, md_price := k, md_fundingRateRaw := f,
                  md_nextFundingNs := n, md_qty := oi\<rparr>)) })"

definition decode_md :: "bytes \<Rightarrow> md_message option option" where
  "decode_md p =
     (if length p < kHeaderSize then Some None
      else do { h \<leftarrow> readHeader p;
        if sh_schemaId h \<noteq> kSchemaId then Some None
        else if length p < kHeaderSize + unat (sh_blockLength h) then Some None
        else let b = drop kHeaderSize p; n = unat (sh_blockLength h); t = sh_templateId h
             in if t = 1 \<or> t = 3 \<or> t = 4 \<or> t = 5 then decode_order b n t
                else if t = 2 then decode_trade b n
                else if t = 6 then decode_triggered b n
                else if t = 14 then decode_status b n
                else if t = 15 then decode_derivatives b n
                else Some None })"

subsection \<open>Frames\<close>

text \<open>A frame of a sender at some schema version, with the given root block.\<close>

definition frame :: "16 word \<Rightarrow> tmpl \<Rightarrow> bytes \<Rightarrow> bytes" where
  "frame v t block = le_bytes 2 (of_nat (length block) :: 16 word) @ le_bytes 2 (tmpl_id t) @ le_bytes 2 kSchemaId @ le_bytes 2 v @ block"

lemma length_frame [simp]: "length (frame v t block) = kHeaderSize + length block"
  by (simp add: frame_def kHeaderSize_def)

lemma drop_frame [simp]: "drop kHeaderSize (frame v t block) = block"
  by (simp add: frame_def kHeaderSize_def)

lemma readHeader_frame [simp]:
  "readHeader (frame v t block) = Some \<lparr>sh_blockLength = of_nat (length block), sh_templateId = tmpl_id t, sh_schemaId = kSchemaId, sh_version = v\<rparr>"
  by (simp add: frame_def get_simps)

lemma block_length: "n < 65536 \<Longrightarrow> unat (of_nat n :: 16 word) = n"
  by (simp add: unat_of_nat take_bit_nat_eq_self)

lemma checkFrame_frame:
  "length block < 65536 \<Longrightarrow> k \<le> length block \<Longrightarrow> checkFrame (frame v t block) t k = Some (Some block)"
  by (simp add: checkFrame_def block_length)

lemma in_frame_frame:
  "length block < 65536 \<Longrightarrow> k \<le> length block \<Longrightarrow> in_frame (frame v t block) t k body = map_option Some (body block)"
  by (simp add: in_frame_def checkFrame_frame map_option_case bind_eq_Some_conv split: option.split)

definition order_block :: "md_message \<Rightarrow> bytes" where
  "order_block m = le_bytes 8 (md_seq m) @ le_bytes 4 (md_symbol m) @ le_bytes 8 (md_id m) @ [md_side m] @ le_bytes 8 (md_price m) @ le_bytes 8 (md_qty m)"

definition times_block :: "md_message \<Rightarrow> bytes" where
  "times_block m = le_bytes 8 (md_epoch m) @ le_bytes 8 (md_engineTsNs m) @ le_bytes 8 (md_sendTsNs m)"

definition md_tmpl :: "md_type \<Rightarrow> tmpl" where
  "md_tmpl ty = (case ty of MdAddOrder \<Rightarrow> TAddOrder | MdTrade \<Rightarrow> TTrade | MdExecuted \<Rightarrow> TExecuted | MdCancel \<Rightarrow> TCancel
     | MdReplace \<Rightarrow> TReplace | MdTriggered \<Rightarrow> TTriggered | MdTradingStatus \<Rightarrow> TTradingStatus | MdDerivativesUpdate \<Rightarrow> TDerivativesUpdate)"

definition md_block :: "md_message \<Rightarrow> bytes" where
  "md_block m = (case md_type m of
      MdTrade \<Rightarrow> order_block m @ le_bytes 8 (md_makerId m) @ times_block m
    | MdTriggered \<Rightarrow> le_bytes 8 (md_seq m) @ le_bytes 4 (md_symbol m) @ le_bytes 8 (md_id m) @ le_bytes 8 (md_price m) @ times_block m
    | MdTradingStatus \<Rightarrow> le_bytes 8 (md_seq m) @ le_bytes 4 (md_symbol m) @ times_block m @ [md_status m, md_reason m] @ le_bytes 8 (md_untilNs m)
    | MdDerivativesUpdate \<Rightarrow> le_bytes 8 (md_seq m) @ le_bytes 4 (md_symbol m) @ times_block m @ le_bytes 8 (md_price m)
        @ le_bytes 8 (md_fundingRateRaw m) @ le_bytes 8 (md_nextFundingNs m) @ le_bytes 8 (md_qty m)
    | _ \<Rightarrow> order_block m @ times_block m)"

lemmas blocks = order_block_def times_block_def

lemma length_blocks [simp]: "length (order_block m) = 37" "length (times_block m) = 24"
  by (simp_all add: blocks)

lemma encode_md_frame: "encode_md m = frame kVersion (md_tmpl (md_type m)) (md_block m)"
  by (cases "md_type m")
    (simp_all add: encode_md_def encode_order_def putTimes_def putOrderBlock_def head_of_def put_simps
      frame_def md_tmpl_def md_block_def blocks block_sizes)

lemma length_md_block: "length (md_block m) \<le> 69"
  by (cases "md_type m") (simp_all add: md_block_def blocks)

subsection \<open>Reading back\<close>

text \<open>What a message carries on the wire: the fields its template has, the others at their defaults.\<close>

definition order_part :: "md_message \<Rightarrow> md_message" where
  "order_part m = (new_md (md_type m))\<lparr>md_seq := md_seq m, md_symbol := md_symbol m, md_id := md_id m, md_side := md_side m,
     md_price := md_price m, md_qty := md_qty m\<rparr>"

definition times_part :: "md_message \<Rightarrow> md_message \<Rightarrow> md_message" where
  "times_part m r = r\<lparr>md_epoch := md_epoch m, md_engineTsNs := md_engineTsNs m, md_sendTsNs := md_sendTsNs m\<rparr>"

definition carried :: "md_message \<Rightarrow> md_message" where
  "carried m = times_part m (case md_type m of
      MdTrade \<Rightarrow> (order_part m)\<lparr>md_makerId := md_makerId m\<rparr>
    | MdTriggered \<Rightarrow> (new_md MdTriggered)\<lparr>md_seq := md_seq m, md_symbol := md_symbol m, md_id := md_id m, md_price := md_price m\<rparr>
    | MdTradingStatus \<Rightarrow> (new_md MdTradingStatus)\<lparr>md_seq := md_seq m, md_symbol := md_symbol m, md_status := md_status m,
        md_reason := md_reason m, md_untilNs := md_untilNs m\<rparr>
    | MdDerivativesUpdate \<Rightarrow> (new_md MdDerivativesUpdate)\<lparr>md_seq := md_seq m, md_symbol := md_symbol m, md_price := md_price m,
        md_fundingRateRaw := md_fundingRateRaw m, md_nextFundingNs := md_nextFundingNs m, md_qty := md_qty m\<rparr>
    | _ \<Rightarrow> order_part m)"

lemma getOrderBlock_written:
  "getOrderBlock (order_block m @ r) x = Some (x\<lparr>md_seq := md_seq m, md_symbol := md_symbol m, md_id := md_id m, md_side := md_side m,
     md_price := md_price m, md_qty := md_qty m\<rparr>)"
  by (simp add: getOrderBlock_def order_block_def get_simps)

lemma getTimes_written:
  assumes "length pre = k" "k + 24 \<le> n"
  shows "getEpoch (pre @ times_block m @ r) n (k + 8) k x = Some (x\<lparr>md_epoch := md_epoch m\<rparr>)"
    and "getTimes (pre @ times_block m @ r) n (k + 8) x = Some (x\<lparr>md_engineTsNs := md_engineTsNs m, md_sendTsNs := md_sendTsNs m\<rparr>)"
  using assms by (simp_all add: getEpoch_def getTimes_def times_block_def get_simps)

lemma decode_order_written:
  assumes "md_type m = tmplToType t"
  shows "decode_order (order_block m @ times_block m @ r) (61 + length r) t = Some (Some (times_part m (order_part m)))"
proof -
  have l: "length (order_block m) = kBlockOrderV0" by (simp add: block_sizes)
  note t = getTimes_written [OF l, of "61 + length r" m r]
  show ?thesis using t assms
    by (simp add: decode_order_def getOrderBlock_written kBlockOrderV1_def) (simp add: kBlockOrderV0_def times_part_def order_part_def)
qed

lemma decode_trade_written:
  assumes "md_type m = MdTrade"
  shows "decode_trade (order_block m @ le_bytes 8 (md_makerId m) @ times_block m @ r) (69 + length r)
    = Some (Some (times_part m ((order_part m)\<lparr>md_makerId := md_makerId m\<rparr>)))"
proof -
  have l: "length (order_block m) = kBlockOrderV0" by (simp add: block_sizes)
  have "length (order_block m @ le_bytes 8 (md_makerId m)) = kBlockTradeV0" by (simp add: block_sizes)
  note t = getTimes_written [OF this, of "69 + length r" m r]
  have k: "getU64 (order_block m @ le_bytes 8 (md_makerId m) @ times_block m @ r) kBlockOrderV0 = Some (md_makerId m)"
    by (simp add: kBlockOrderV0_def get_simps)
  show ?thesis using t k assms
    by (simp add: decode_trade_def getOrderBlock_written kBlockTradeV1_def) (simp add: kBlockTradeV0_def kBlockOrderV0_def times_part_def order_part_def)
qed

lemma decode_triggered_written:
  assumes "md_type m = MdTriggered"
  shows "decode_triggered (md_block m @ r) (52 + length r) = Some (Some (carried m))"
proof -
  let ?pre = "le_bytes 8 (md_seq m) @ le_bytes 4 (md_symbol m) @ le_bytes 8 (md_id m) @ le_bytes 8 (md_price m)"
  have b: "md_block m @ r = ?pre @ times_block m @ r" using assms by (simp add: md_block_def)
  have "length ?pre = kBlockTriggeredV0" by (simp add: block_sizes)
  note t = getTimes_written [OF this, of "52 + length r" m r]
  have g: "getU64 (md_block m @ r) 0 = Some (md_seq m)" "getU32 (md_block m @ r) 8 = Some (md_symbol m)"
    "getU64 (md_block m @ r) 12 = Some (md_id m)" "getI64 (md_block m @ r) 20 = Some (md_price m)"
    unfolding b by (simp_all add: get_simps)
  show ?thesis using t [folded b] g assms
    by (simp add: decode_triggered_def kBlockTriggeredV1_def) (simp add: kBlockTriggeredV0_def times_part_def carried_def)
qed

lemma decode_status_written:
  assumes "md_type m = MdTradingStatus"
  shows "decode_status (md_block m @ r) (46 + length r) = Some (Some (carried m))"
  using assms by (simp add: decode_status_def md_block_def times_block_def get_simps carried_def times_part_def block_sizes)

lemma decode_derivatives_written:
  assumes "md_type m = MdDerivativesUpdate"
  shows "decode_derivatives (md_block m @ r) (68 + length r) = Some (Some (carried m))"
  using assms by (simp add: decode_derivatives_def md_block_def times_block_def get_simps carried_def times_part_def block_sizes)

lemma decode_md_dispatch:
  assumes "length b < 65536"
  shows "decode_md (frame v tm b) =
      (let t = tmpl_id tm in
       if t = 1 \<or> t = 3 \<or> t = 4 \<or> t = 5 then decode_order b (length b) t
       else if t = 2 then decode_trade b (length b) else if t = 6 then decode_triggered b (length b)
       else if t = 14 then decode_status b (length b) else if t = 15 then decode_derivatives b (length b) else Some None)"
  unfolding decode_md_def by (simp add: block_length [OF assms] Let_def)

lemma decode_md_frame:
  assumes "length r \<le> 60000"
  shows "decode_md (frame v (md_tmpl (md_type m)) (md_block m @ r)) = Some (Some (carried m))"
proof -
  let ?b = "md_block m @ r"
  have "length ?b < 65536" using assms length_md_block [of m] by simp
  note d = decode_md_dispatch [OF this]
  show ?thesis
  proof (cases "md_type m \<in> {MdAddOrder, MdExecuted, MdCancel, MdReplace}")
    case True
    let ?t = "tmpl_id (md_tmpl (md_type m))"
    have "?b = order_block m @ times_block m @ r" "length ?b = 61 + length r" using True by (auto simp: md_block_def blocks)
    moreover have "md_type m = tmplToType ?t" "?t \<in> {1, 3, 4, 5}" using True by (auto simp: md_tmpl_def)
    moreover have "carried m = times_part m (order_part m)" using True by (auto simp: carried_def)
    ultimately show ?thesis unfolding d using decode_order_written [of m ?t r] by (simp only: Let_def) auto
  next
    case False
    then show ?thesis
    proof (cases "md_type m")
      case MdTrade
      then show ?thesis unfolding d using decode_trade_written [OF MdTrade, of r] by (simp add: md_block_def md_tmpl_def carried_def)
    next
      case MdTriggered
      then have "length ?b = 52 + length r" by (simp add: md_block_def)
      then show ?thesis using decode_triggered_written [OF MdTriggered, of r] MdTriggered unfolding d by (simp add: md_tmpl_def)
    next
      case MdTradingStatus
      then have "length ?b = 46 + length r" by (simp add: md_block_def)
      then show ?thesis using decode_status_written [OF MdTradingStatus, of r] MdTradingStatus unfolding d by (simp add: md_tmpl_def)
    next
      case MdDerivativesUpdate
      then have "length ?b = 68 + length r" by (simp add: md_block_def)
      then show ?thesis using decode_derivatives_written [OF MdDerivativesUpdate, of r] MdDerivativesUpdate unfolding d by (simp add: md_tmpl_def)
    qed simp_all
  qed
qed

text \<open>A sender of a newer schema version: its own version number, and fields appended to the root block.\<close>

definition newer_frame :: "16 word \<Rightarrow> bytes \<Rightarrow> bytes \<Rightarrow> bytes" where
  "newer_frame v extra p =
     putU16 [] (of_nat (length p - kHeaderSize + length extra)) @ take 4 (drop 2 p) @ putU16 [] v @ drop kHeaderSize p @ extra"

lemma newer_frame_frame: "newer_frame v extra (frame u t block) = frame v t (block @ extra)"
  by (simp add: newer_frame_def put_simps) (simp add: frame_def kHeaderSize_def)

lemma newer_frame_same: "newer_frame v [] (frame v t block) = frame v t block"
  by (simp add: newer_frame_frame)

text \<open>
  C36. What the codec writes it reads back: decoding an encoded market-data message gives every
  field its template carries and the defaults for the others, and a sender of a newer schema
  version that appends any fields to the root block is understood to the same message.
\<close>

theorem sbe_md_roundtrip:
  assumes "length extra \<le> 60000"
  shows "decode_md (encode_md m) = Some (Some (carried m)) \<and> decode_md (newer_frame v extra (encode_md m)) = Some (Some (carried m))"
  using decode_md_frame [of "[]" kVersion m] decode_md_frame [OF assms, of v m]
  by (simp add: encode_md_frame newer_frame_frame)

theorem sbe_md_roundtrip_witness:
  "decode_md (newer_frame 4 [1, 2, 3] (encode_md ((new_md MdTrade)\<lparr>md_seq := 7, md_makerId := 9\<rparr>))) =
     Some (Some ((new_md MdTrade)\<lparr>md_seq := 7, md_makerId := 9\<rparr>))"
  using sbe_md_roundtrip [of "[1, 2, 3]" "(new_md MdTrade)\<lparr>md_seq := 7, md_makerId := 9\<rparr>" 4]
  by (simp add: carried_def times_part_def order_part_def new_md_def)

subsection \<open>No byte outside the buffer is read\<close>

lemma getOrderBlock_ok [read_ok]: "kBlockOrderV0 \<le> length b \<Longrightarrow> getOrderBlock b x \<noteq> None"
  unfolding getOrderBlock_def by (intro reads_ok Some_ok; simp add: kBlockOrderV0_def)

lemma getEpoch_ok [read_ok]: "n \<le> length b \<Longrightarrow> at + 8 = fits \<Longrightarrow> getEpoch b n fits at x \<noteq> None"
  unfolding getEpoch_def by (intro if_ok reads_ok Some_ok; simp)

lemma getTimes_ok [read_ok]: "n \<le> length b \<Longrightarrow> getTimes b n at x \<noteq> None"
  unfolding getTimes_def by (intro if_ok reads_ok Some_ok; simp)

lemmas parts_ok = getOrderBlock_ok getEpoch_ok getTimes_ok

lemma decode_blocks_ok:
  assumes "n \<le> length b"
  shows "decode_order b n t \<noteq> None" "decode_trade b n \<noteq> None" "decode_triggered b n \<noteq> None"
    "decode_status b n \<noteq> None" "decode_derivatives b n \<noteq> None"
proof -
  show "decode_order b n t \<noteq> None"
    unfolding decode_order_def using assms by (intro if_ok bind_ok parts_ok Some_ok) (simp_all add: block_sizes)
  show "decode_trade b n \<noteq> None"
    unfolding decode_trade_def using assms
    by (intro if_ok bind_ok [OF parts_ok(1)] reads_ok bind_ok [OF parts_ok(2)] bind_ok [OF parts_ok(3)] Some_ok) (simp_all add: block_sizes)
  show "decode_triggered b n \<noteq> None"
    unfolding decode_triggered_def using assms
    by (intro if_ok reads_ok bind_ok [OF parts_ok(2)] bind_ok [OF parts_ok(3)] Some_ok) (simp_all add: block_sizes)
  show "decode_status b n \<noteq> None" "decode_derivatives b n \<noteq> None"
    unfolding decode_status_def decode_derivatives_def using assms by (intro if_ok reads_ok Some_ok; simp add: block_sizes)+
qed

lemma decode_md_bound: "decode_md p \<noteq> None"
proof (cases "length p < kHeaderSize")
  case False
  then obtain h where h: "readHeader p = Some h" using readHeader_bound [of p] by auto
  show ?thesis
  proof (cases "sh_schemaId h \<noteq> kSchemaId \<or> length p < kHeaderSize + unat (sh_blockLength h)")
    case True
    then show ?thesis using False h by (auto simp: decode_md_def)
  next
    case fits: False
    then have "unat (sh_blockLength h) \<le> length (drop kHeaderSize p)" by (simp add: not_less le_diff_conv2)
    note decode_blocks_ok [OF this]
    then show ?thesis using False fits h by (auto simp: decode_md_def Let_def simp del: length_drop not_None_eq)
  qed
qed (simp add: decode_md_def)

lemma in_frame_bound:
  assumes "\<And>b. k \<le> length b \<Longrightarrow> body b \<noteq> None"
  shows "in_frame p t k body \<noteq> None"
proof (cases "length p < kHeaderSize")
  case False
  then obtain h where h: "readHeader p = Some h" using readHeader_bound [of p] by auto
  have "body (drop kHeaderSize p) \<noteq> None" if "\<not> unat (sh_blockLength h) < k" "\<not> length p < kHeaderSize + unat (sh_blockLength h)"
    using that by (intro assms) (simp add: not_less)
  then show ?thesis using False h by (auto simp: in_frame_def checkFrame_def)
qed (simp add: in_frame_def checkFrame_def)

text \<open>
  C35. Decoding is memory safe: on any buffer whatever, truncated, foreign or hostile, none of
  the decoders of the market-data channel reads a byte past its end; it answers with a message
  or a refusal.
\<close>

theorem sbe_md_never_overruns:
  "decode_md p \<noteq> None \<and> decode_resend p \<noteq> None \<and> decode_snapshot_begin p \<noteq> None \<and> decode_snapshot_end p \<noteq> None
   \<and> decode_snapshot_required p \<noteq> None \<and> decode_subscribe p \<noteq> None \<and> decode_unsubscribe p \<noteq> None
   \<and> decode_reject p \<noteq> None \<and> templateId p \<noteq> None"
proof -
  have "templateId p \<noteq> None"
    using readHeader_bound [of p] by (cases "length p < kHeaderSize") (auto simp: templateId_def)
  moreover have "decode_resend p \<noteq> None" "decode_snapshot_begin p \<noteq> None" "decode_snapshot_end p \<noteq> None"
    "decode_snapshot_required p \<noteq> None" "decode_subscribe p \<noteq> None" "decode_unsubscribe p \<noteq> None" "decode_reject p \<noteq> None"
    unfolding decode_resend_def decode_snapshot_begin_def decode_snapshot_end_def decode_snapshot_required_def
      decode_subscribe_def decode_unsubscribe_def decode_reject_def
    by (rule in_frame_bound, intro reads_ok Some_ok; simp add: block_sizes)+
  ultimately show ?thesis using decode_md_bound by blast
qed

subsection \<open>Recovery and distribution verbs\<close>

lemma verb_frames:
  "encode_resend r = frame kVersion TResendRequest (le_bytes 4 (rr_symbol r) @ le_bytes 8 (rr_fromSeq r))"
  "encode_snapshot_begin s = frame kVersion TSnapshotBegin (le_bytes 4 (mb_symbol s) @ le_bytes 8 (mb_epoch s) @ le_bytes 8 (mb_lastSeq s) @ le_bytes 4 (mb_orderCount s))"
  "encode_snapshot_end k = frame kVersion TSnapshotEnd (le_bytes 4 (mk_symbol k) @ le_bytes 8 (mk_epoch k) @ le_bytes 8 (mk_lastSeq k))"
  "encode_snapshot_required k = frame kVersion TSnapshotRequired (le_bytes 4 (mk_symbol k) @ le_bytes 8 (mk_epoch k) @ le_bytes 8 (mk_lastSeq k))"
  "encode_subscribe u = frame kVersion TSubscribe (le_bytes 4 (su_symbol u) @ le_bytes 8 (su_fromSeq u) @ [if su_snapshotOnly u then kSubscribeSnapshotOnly else 0])"
  "encode_unsubscribe n = frame kVersion TUnsubscribe (le_bytes 4 (un_symbol n))"
  "encode_reject j = frame kVersion TSubscribeReject (le_bytes 4 (sj_symbol j) @ [sj_reason j])"
  by (simp_all add: encode_resend_def encode_snapshot_begin_def encode_snapshot_end_def encode_snapshot_required_def
      encode_subscribe_def encode_unsubscribe_def encode_reject_def head_of_def put_simps frame_def block_sizes)

lemma get_last: "getU32 (le_bytes 4 w) 0 = Some w" "getU64 (le_bytes 8 x) 0 = Some x"
  using get_written(1) [of w "[]"] get_written(2) [of x "[]"] by simp_all

text \<open>
  Every verb of the recovery and distribution channels survives the wire unchanged, and none
  of them is taken for a market-data message.
\<close>

theorem sbe_verbs_roundtrip:
  "decode_resend (encode_resend r) = Some (Some r) \<and> decode_snapshot_begin (encode_snapshot_begin s) = Some (Some s)
   \<and> decode_snapshot_end (encode_snapshot_end k) = Some (Some k) \<and> decode_snapshot_required (encode_snapshot_required k) = Some (Some k)
   \<and> decode_subscribe (encode_subscribe u) = Some (Some u) \<and> decode_unsubscribe (encode_unsubscribe n) = Some (Some n)
   \<and> decode_reject (encode_reject j) = Some (Some j)
   \<and> list_all (\<lambda>p. decode_md p = Some None) [encode_resend r, encode_snapshot_begin s, encode_snapshot_end k,
       encode_snapshot_required k, encode_subscribe u, encode_unsubscribe n, encode_reject j]"
proof -
  have "decode_resend (encode_resend r) = Some (Some r)"
    by (simp add: verb_frames decode_resend_def in_frame_frame block_sizes get_simps get_last)
  moreover have "decode_snapshot_begin (encode_snapshot_begin s) = Some (Some s)"
    by (simp add: verb_frames decode_snapshot_begin_def in_frame_frame block_sizes get_simps get_last)
  moreover have "decode_snapshot_end (encode_snapshot_end k) = Some (Some k)" "decode_snapshot_required (encode_snapshot_required k) = Some (Some k)"
    by (simp_all add: verb_frames decode_snapshot_end_def decode_snapshot_required_def in_frame_frame block_sizes get_simps get_last)
  moreover have "decode_subscribe (encode_subscribe u) = Some (Some u)"
    by (cases u) (simp add: verb_frames decode_subscribe_def in_frame_frame block_sizes get_simps get_last kSubscribeSnapshotOnly_def)
  moreover have "decode_unsubscribe (encode_unsubscribe n) = Some (Some n)" "decode_reject (encode_reject j) = Some (Some j)"
    by (simp_all add: verb_frames decode_unsubscribe_def decode_reject_def in_frame_frame block_sizes get_simps get_last)
  ultimately show ?thesis by (simp add: verb_frames decode_md_dispatch)
qed

end
