(* ===== verification/OutboundEvents.thy ===== *)
theory OutboundEvents
  imports Messages
begin

section \<open>Outbound events\<close>

text \<open>
  The full \<^verbatim>\<open>OutboundEvent\<close> variant of \<^verbatim>\<open>venue/include/flox-venue/messages.h\<close> and the underlying
  values of the enumerations that travel on the wire or enter a digest. The matcher emits only
  the alternatives of \<open>event\<close>; the last-look component and the order-entry codec use them all.
\<close>

subsection \<open>Events\<close>

record order_accepted =
  oa_id :: nat
  oa_symbol :: nat
  oa_side :: side
  oa_price :: int
  oa_leavesQty :: int
  oa_restingOnBook :: bool
  oa_displayQty :: int
  oa_account :: nat
  oa_clientOrderId :: nat
  oa_cumQty :: int

record order_rejected =
  rj_id :: nat
  rj_symbol :: nat
  rj_reason :: reject_reason
  rj_account :: nat
  rj_clientOrderId :: nat
  rj_cumQty :: int

record order_modified =
  om_id :: nat
  om_symbol :: nat
  om_price :: int
  om_leavesQty :: int
  om_priorityKept :: bool
  om_account :: nat
  om_clientOrderId :: nat
  om_cumQty :: int

record order_triggered =
  og_id :: nat
  og_symbol :: nat
  og_refPrice :: int
  og_account :: nat

record fill_held =
  fh_heldId :: nat
  fh_symbol :: nat
  fh_makerId :: nat
  fh_takerId :: nat
  fh_price :: int
  fh_qty :: int
  fh_makerDisplayAfter :: int
  fh_makerAccount :: nat
  fh_takerAccount :: nat
  fh_takerSide :: side
  fh_clientOrderId :: nat
  fh_cumQty :: int

record fill_rejected =
  fr_heldId :: nat
  fr_symbol :: nat
  fr_takerId :: nat
  fr_makerId :: nat
  fr_price :: int
  fr_qty :: int
  fr_takerAccount :: nat
  fr_makerAccount :: nat
  fr_clientOrderId :: nat
  fr_cumQty :: int

record mmp_triggered =
  mt_accountId :: nat
  mt_symbol :: nat

datatype balance_reason = BalDeposit | BalWithdraw | BalWithdrawRejected

record balance_update =
  bu_account :: nat
  bu_asset :: nat
  bu_availableRaw :: int
  bu_reservedRaw :: int
  bu_reason :: balance_reason

datatype trading_status = StTrading | StHalted | StLuldPause | StAuctionPreOpen | StAuctionUncross | StClosed | StDelisted

datatype trading_status_reason = TsNone | TsAdministrative | TsLuldBreach | TsLuldPauseElapsed | TsAuction | TsSession

record trading_status_changed =
  ts_symbol :: nat
  ts_status :: trading_status
  ts_reason :: trading_status_reason
  ts_untilNs :: int

record derivatives_updated =
  du_symbol :: nat
  du_mark :: int
  du_fundingRateRaw :: int
  du_nextFundingNs :: int
  du_openInterest :: int

record cancel_rejected =
  cr_id :: nat
  cr_symbol :: nat
  cr_reason :: reject_reason
  cr_account :: nat
  cr_wasReplace :: bool

datatype adjust_reason = Reconciliation | CounterpartyReport | SettlementCorrection | Migration | ManualAdjust

record position_adjusted =
  pa_account :: nat
  pa_symbol :: nat
  pa_qtyDeltaRaw :: int
  pa_qtyAfterRaw :: int
  pa_entryAfterRaw :: int
  pa_reason :: adjust_reason
  pa_note :: "8 word list"

datatype outbound_event =
    EvAccepted order_accepted | EvRejected order_rejected | EvTrade trade | EvExecuted order_executed
  | EvCanceled order_canceled | EvModified order_modified | EvTriggered order_triggered | EvFillHeld fill_held
  | EvFillRejected fill_rejected | EvMmpTriggered mmp_triggered | EvFeeCharged fee_charged
  | EvLiquidation liquidation | EvBalanceUpdate balance_update | EvTradingStatus trading_status_changed
  | EvDerivatives derivatives_updated | EvCancelRejected cancel_rejected | EvPositionAdjusted position_adjusted

definition kAdjustNoteLen :: nat where
  "kAdjustNoteLen = 32"

fun reject_reason_code :: "reject_reason \<Rightarrow> nat" where
  "reject_reason_code RejNone = 0" | "reject_reason_code UnknownSymbol = 1" | "reject_reason_code RejHalted = 2"
| "reject_reason_code InvalidQuantity = 3" | "reject_reason_code InvalidPrice = 4" | "reject_reason_code TickSizeViolation = 5"
| "reject_reason_code LotSizeViolation = 6" | "reject_reason_code DuplicateOrderId = 7" | "reject_reason_code UnknownOrder = 8"
| "reject_reason_code PostOnlyWouldCross = 9" | "reject_reason_code FillOrKillUnfulfillable = 10" | "reject_reason_code OrderTooLarge = 11"
| "reject_reason_code InsufficientFunds = 12" | "reject_reason_code LuldBreach = 13" | "reject_reason_code RejPositionLimitExceeded = 14"
| "reject_reason_code TooManyOpenOrders = 15" | "reject_reason_code NotOrderOwner = 16" | "reject_reason_code DuplicateClientOrderId = 17"
| "reject_reason_code LastLookUnsupported = 18" | "reject_reason_code NoLedgerBound = 19" | "reject_reason_code RateLimited = 20"
| "reject_reason_code MalformedMessage = 21" | "reject_reason_code Unauthenticated = 22" | "reject_reason_code SessionSeqGap = 23"
| "reject_reason_code MarketClosed = 24" | "reject_reason_code OrderTypeNotPermitted = 25" | "reject_reason_code TimeInForceNotPermitted = 26"
| "reject_reason_code RestingNotPermitted = 27" | "reject_reason_code AmendNotPermitted = 28" | "reject_reason_code CancelNotPermitted = 29"
| "reject_reason_code QuoteNotPermitted = 30" | "reject_reason_code InstrumentDelisted = 31" | "reject_reason_code CreditRefused = 32"
| "reject_reason_code CreditSourceUnavailable = 33" | "reject_reason_code AdjustmentEmpty = 34" | "reject_reason_code AdjustmentNeedsEntry = 35"
| "reject_reason_code NewOrderNotPermitted = 36" | "reject_reason_code UnknownOrderType = 37" | "reject_reason_code BookCapacityExceeded = 38"
| "reject_reason_code PegRequiresTick = 39"

fun cancel_reason_code :: "cancel_reason \<Rightarrow> nat" where
  "cancel_reason_code UserRequested = 0" | "cancel_reason_code ImmediateOrCancelResidual = 1" | "cancel_reason_code MarketResidual = 2"
| "cancel_reason_code SelfTradePrevention = 3" | "cancel_reason_code Expired = 4" | "cancel_reason_code OcoTriggered = 5"
| "cancel_reason_code VenueHalt = 6" | "cancel_reason_code CancelLiquidation = 7" | "cancel_reason_code FillOrKillResidual = 8"
| "cancel_reason_code ReduceOnlyNotReducing = 9" | "cancel_reason_code CancelPositionLimitExceeded = 10" | "cancel_reason_code BookRefused = 11"

fun balance_reason_code :: "balance_reason \<Rightarrow> nat" where
  "balance_reason_code BalDeposit = 0" | "balance_reason_code BalWithdraw = 1" | "balance_reason_code BalWithdrawRejected = 2"

fun adjust_reason_code :: "adjust_reason \<Rightarrow> nat" where
  "adjust_reason_code Reconciliation = 0" | "adjust_reason_code CounterpartyReport = 1"
| "adjust_reason_code SettlementCorrection = 2" | "adjust_reason_code Migration = 3" | "adjust_reason_code ManualAdjust = 4"

fun order_type_code :: "order_type \<Rightarrow> nat" where
  "order_type_code LIMIT = 0" | "order_type_code MARKET = 1" | "order_type_code STOP_MARKET = 2"
| "order_type_code STOP_LIMIT = 3" | "order_type_code TAKE_PROFIT_MARKET = 4"
| "order_type_code TAKE_PROFIT_LIMIT = 5" | "order_type_code TRAILING_STOP = 6" | "order_type_code ICEBERG = 7"

fun tif_code :: "time_in_force \<Rightarrow> nat" where
  "tif_code GTC = 0" | "tif_code IOC = 1" | "tif_code FOK = 2" | "tif_code GTD = 3" | "tif_code POST_ONLY = 4"

end
