(* ===== verification/SbeOrders.thy ===== *)
theory SbeOrders
  imports Sbe StpTable OutboundEvents
begin

section \<open>The order-entry wire codec: commands\<close>

text \<open>
  The inbound half of \<^verbatim>\<open>SbeOrderEntryCodec\<close> (\<^verbatim>\<open>venue/include/flox-venue/sbe_order_entry_codec.h\<close>):
  the commands a client may send, as the matching engine takes them. Identifiers are \<open>nat\<close> and
  raws \<open>int\<close> as everywhere else, put on the wire as 64-bit words; an enumeration byte the schema
  does not name is refused. The reasons \<^verbatim>\<open>err\<close> names are the values of \<open>oe_error\<close>. As in the
  market-data codec, a decoder that touched a byte outside its buffer would answer \<open>None\<close>.
\<close>

subsection \<open>Commands\<close>

record cancel_order =
  co_id :: nat
  co_symbol :: nat
  co_accountId :: nat

record modify_order =
  mo_id :: nat
  mo_symbol :: nat
  mo_newPrice :: int
  mo_newQty :: int
  mo_accountId :: nat

record ladder_level =
  ll_bidPrice :: int
  ll_bidQty :: int
  ll_askPrice :: int
  ll_askQty :: int

record quote_ladder =
  ql_accountId :: nat
  ql_clientOrderId :: nat
  ql_expiryNs :: int
  ql_visibleQuantity :: int
  ql_bidIdBase :: nat
  ql_askIdBase :: nat
  ql_symbol :: nat
  ql_levels :: nat
  ql_stp :: stp_mode
  ql_lastLook :: bool
  ql_postOnly :: bool
  ql_reduceOnly :: bool
  ql_tif :: time_in_force
  ql_level :: "ladder_level list"

datatype oe_command = EnterOrder new_order | CancelOrder cancel_order | ReplaceOrder modify_order | LadderQuote quote_ladder

definition kQuoteLadderLevels :: nat where
  "kQuoteLadderLevels = 8"

definition quoteLadderLiveLevels :: "quote_ladder \<Rightarrow> nat" where
  "quoteLadderLiveLevels l = (if ql_levels l > kQuoteLadderLevels then kQuoteLadderLevels else ql_levels l)"

subsection \<open>Enumerations on the wire\<close>

text \<open>The overloads of \<^verbatim>\<open>inRange\<close> together with the cast they guard: the value a byte names, if any.\<close>

definition side_of :: "nat \<Rightarrow> side option" where
  "side_of c = find (\<lambda>x. side_code x = c) [BUY, SELL]"

definition order_type_of :: "nat \<Rightarrow> order_type option" where
  "order_type_of c = find (\<lambda>x. order_type_code x = c) [LIMIT, MARKET, STOP_MARKET, STOP_LIMIT, TAKE_PROFIT_MARKET,
     TAKE_PROFIT_LIMIT, TRAILING_STOP, ICEBERG]"

definition tif_of :: "nat \<Rightarrow> time_in_force option" where
  "tif_of c = find (\<lambda>x. tif_code x = c) [GTC, IOC, FOK, GTD, POST_ONLY]"

definition stp_of :: "nat \<Rightarrow> stp_mode option" where
  "stp_of c = find (\<lambda>x. stp_code x = c) [StpNone, CancelNewest, CancelOldest, CancelBoth, Decrement]"

definition peg_of :: "nat \<Rightarrow> peg_ref option" where
  "peg_of c = find (\<lambda>x. peg_ref_code x = c) [PegNone, PegBid, PegAsk, PegMid]"

subsection \<open>Encoding\<close>

definition kOeSchemaId :: "16 word" where "kOeSchemaId = 92"
definition kOeVersion :: "16 word" where "kOeVersion = 10"
definition kBlockEnter :: nat where "kBlockEnter = 100"
definition kBlockCancel :: nat where "kBlockCancel = 20"
definition kBlockReplace :: nat where "kBlockReplace = 36"
definition kLadderHead :: nat where "kLadderHead = 58"
definition kLadderRung :: nat where "kLadderRung = 32"
definition kBlockQuoteLadder :: nat where "kBlockQuoteLadder = kLadderHead + kQuoteLadderLevels * kLadderRung"

lemmas oe_blocks = kBlockEnter_def kBlockCancel_def kBlockReplace_def kLadderHead_def kLadderRung_def
  kBlockQuoteLadder_def kQuoteLadderLevels_def

definition putRaw :: "bytes \<Rightarrow> int \<Rightarrow> bytes" where
  "putRaw out v = putI64 out (word_of_int v)"

definition putId :: "bytes \<Rightarrow> nat \<Rightarrow> bytes" where
  "putId out v = putU64 out (of_nat v)"

definition putSymbol :: "bytes \<Rightarrow> nat \<Rightarrow> bytes" where
  "putSymbol out v = putU32 out (of_nat v)"

definition putCode :: "bytes \<Rightarrow> nat \<Rightarrow> bytes" where
  "putCode out v = putU8 out (of_nat v)"

definition putFlag :: "bytes \<Rightarrow> bool \<Rightarrow> bytes" where
  "putFlag out b = putU8 out (if b then 1 else 0)"

definition oe_head :: "nat \<Rightarrow> 16 word \<Rightarrow> bytes" where
  "oe_head blockLength t = putHeader [] (of_nat blockLength) t kOeSchemaId kOeVersion"

definition encode_enter :: "new_order \<Rightarrow> bytes" where
  "encode_enter n =
    (let out = oe_head kBlockEnter 1;
         out = putId out (no_id n);
         out = putSymbol out (no_symbol n);
         out = putCode out (side_code (no_side n));
         out = putCode out (order_type_code (no_type n));
         out = putCode out (tif_code (no_tif n));
         out = putFlag out (no_postOnly n);
         out = putCode out (stp_code (no_stp n));
         out = putRaw out (no_price n);
         out = putRaw out (no_quantity n);
         out = putRaw out (no_visibleQuantity n);
         out = putRaw out (no_triggerPrice n);
         out = putRaw out (no_trailingOffset n);
         out = putId out (no_accountId n);
         out = putId out (no_clientOrderId n);
         out = putFlag out (no_reduceOnly n);
         out = putFlag out (no_lastLook n);
         out = putCode out (peg_ref_code (no_peg n));
         out = putRaw out (no_expiryNs n);
         out = putId out (no_ocoGroup n)
     in putRaw out (no_pegOffsetRaw n))"

definition encode_cancel :: "cancel_order \<Rightarrow> bytes" where
  "encode_cancel c = putId (putSymbol (putId (oe_head kBlockCancel 2) (co_id c)) (co_symbol c)) (co_accountId c)"

definition encode_replace :: "modify_order \<Rightarrow> bytes" where
  "encode_replace m = putId (putRaw (putRaw (putSymbol (putId (oe_head kBlockReplace 3) (mo_id m)) (mo_symbol m))
     (mo_newPrice m)) (mo_newQty m)) (mo_accountId m)"

definition put_rung :: "bytes \<Rightarrow> ladder_level \<Rightarrow> bytes" where
  "put_rung out r = putRaw (putRaw (putRaw (putRaw out (ll_bidPrice r)) (ll_bidQty r)) (ll_askPrice r)) (ll_askQty r)"

definition encode_ladder :: "quote_ladder \<Rightarrow> bytes" where
  "encode_ladder l =
    (let out = oe_head kBlockQuoteLadder 7;
         out = putId out (ql_accountId l);
         out = putId out (ql_clientOrderId l);
         out = putRaw out (ql_expiryNs l);
         out = putRaw out (ql_visibleQuantity l);
         out = putId out (ql_bidIdBase l);
         out = putId out (ql_askIdBase l);
         out = putSymbol out (ql_symbol l);
         out = putCode out (quoteLadderLiveLevels l);
         out = putCode out (stp_code (ql_stp l));
         out = putFlag out (ql_lastLook l);
         out = putFlag out (ql_postOnly l);
         out = putFlag out (ql_reduceOnly l);
         out = putCode out (tif_code (ql_tif l))
     in foldl put_rung out (ql_level l))"

definition encode_oe :: "oe_command \<Rightarrow> bytes" where
  "encode_oe c = (case c of EnterOrder n \<Rightarrow> encode_enter n | CancelOrder x \<Rightarrow> encode_cancel x
     | ReplaceOrder m \<Rightarrow> encode_replace m | LadderQuote l \<Rightarrow> encode_ladder l)"

subsection \<open>Decoding\<close>

datatype oe_error = FrameTooShort | ForeignSchema | TruncatedBlock | BlockTooShort | BadSide | BadOrderType | BadTif
  | BadStp | BadPeg | NotACommand

definition getRaw :: "bytes \<Rightarrow> nat \<Rightarrow> int option" where
  "getRaw b at = map_option sint (getI64 b at)"

definition getId :: "bytes \<Rightarrow> nat \<Rightarrow> nat option" where
  "getId b at = map_option unat (getU64 b at)"

definition getSymbol :: "bytes \<Rightarrow> nat \<Rightarrow> nat option" where
  "getSymbol b at = map_option unat (getU32 b at)"

definition getCode :: "bytes \<Rightarrow> nat \<Rightarrow> nat option" where
  "getCode b at = map_option unat (byte_at b at)"

definition getFlag :: "bytes \<Rightarrow> nat \<Rightarrow> bool option" where
  "getFlag b at = map_option (\<lambda>x. x \<noteq> 0) (byte_at b at)"

text \<open>A guard on an enumeration byte: the value it names, or the refusal.\<close>

definition guarded :: "'v option \<Rightarrow> oe_error \<Rightarrow> ('v \<Rightarrow> (oe_error + 'c) option) \<Rightarrow> (oe_error + 'c) option" where
  "guarded v e k = (case v of None \<Rightarrow> Some (Inl e) | Some x \<Rightarrow> k x)"

definition decode_enter :: "bytes \<Rightarrow> nat \<Rightarrow> (oe_error + oe_command) option" where
  "decode_enter b n =
    (if n < kBlockEnter then Some (Inl BlockTooShort) else do {
       c12 \<leftarrow> getCode b 12; guarded (side_of c12) BadSide (\<lambda>sd. do {
       c13 \<leftarrow> getCode b 13; guarded (order_type_of c13) BadOrderType (\<lambda>ty. do {
       c14 \<leftarrow> getCode b 14; guarded (tif_of c14) BadTif (\<lambda>tif. do {
       c16 \<leftarrow> getCode b 16; guarded (stp_of c16) BadStp (\<lambda>stp. do {
       c75 \<leftarrow> getCode b 75; guarded (peg_of c75) BadPeg (\<lambda>peg. do {
         i \<leftarrow> getId b 0; y \<leftarrow> getSymbol b 8; po \<leftarrow> getFlag b 15; px \<leftarrow> getRaw b 17; q \<leftarrow> getRaw b 25;
         v \<leftarrow> getRaw b 33; tp \<leftarrow> getRaw b 41; t \<leftarrow> getRaw b 49; a \<leftarrow> getId b 57; cl \<leftarrow> getId b 65;
         ro \<leftarrow> getFlag b 73; ll \<leftarrow> getFlag b 74; e \<leftarrow> getRaw b 76; g \<leftarrow> getId b 84; off \<leftarrow> getRaw b 92;
         Some (Inr (EnterOrder \<lparr>no_id = i, no_symbol = y, no_side = sd, no_type = ty, no_price = px, no_quantity = q,
           no_tif = tif, no_postOnly = po, no_stp = stp, no_accountId = a, no_clientOrderId = cl,
           no_visibleQuantity = v, no_triggerPrice = tp, no_trailingOffset = t, no_lastLook = ll, no_reduceOnly = ro,
           no_expiryNs = e, no_ocoGroup = g, no_peg = peg, no_pegOffsetRaw = off\<rparr>)) }) }) }) }) }) })"

definition decode_cancel :: "bytes \<Rightarrow> nat \<Rightarrow> (oe_error + oe_command) option" where
  "decode_cancel b n =
    (if n < kBlockCancel then Some (Inl BlockTooShort)
     else do { i \<leftarrow> getId b 0; y \<leftarrow> getSymbol b 8; a \<leftarrow> getId b 12;
       Some (Inr (CancelOrder \<lparr>co_id = i, co_symbol = y, co_accountId = a\<rparr>)) })"

definition decode_replace :: "bytes \<Rightarrow> nat \<Rightarrow> (oe_error + oe_command) option" where
  "decode_replace b n =
    (if n < kBlockReplace then Some (Inl BlockTooShort)
     else do { i \<leftarrow> getId b 0; y \<leftarrow> getSymbol b 8; p \<leftarrow> getRaw b 12; q \<leftarrow> getRaw b 20; a \<leftarrow> getId b 28;
       Some (Inr (ReplaceOrder \<lparr>mo_id = i, mo_symbol = y, mo_newPrice = p, mo_newQty = q, mo_accountId = a\<rparr>)) })"

fun get_rungs :: "bytes \<Rightarrow> nat list \<Rightarrow> ladder_level list option" where
  "get_rungs b [] = Some []"
| "get_rungs b (i # is) =
     (let r = kLadderHead + i * kLadderRung
      in do { bp \<leftarrow> getRaw b (r + 0); bq \<leftarrow> getRaw b (r + 8); ap \<leftarrow> getRaw b (r + 16); aq \<leftarrow> getRaw b (r + 24);
              ls \<leftarrow> get_rungs b is;
              Some (\<lparr>ll_bidPrice = bp, ll_bidQty = bq, ll_askPrice = ap, ll_askQty = aq\<rparr> # ls) })"

definition decode_ladder :: "bytes \<Rightarrow> nat \<Rightarrow> (oe_error + oe_command) option" where
  "decode_ladder b n =
    (if n < kBlockQuoteLadder then Some (Inl BlockTooShort) else do {
       c53 \<leftarrow> getCode b 53; guarded (stp_of c53) BadStp (\<lambda>stp. do {
       c57 \<leftarrow> getCode b 57; guarded (tif_of c57) BadTif (\<lambda>tif. do {
         a \<leftarrow> getId b 0; cl \<leftarrow> getId b 8; e \<leftarrow> getRaw b 16; v \<leftarrow> getRaw b 24; bb \<leftarrow> getId b 32; ab \<leftarrow> getId b 40;
         y \<leftarrow> getSymbol b 48; k \<leftarrow> getCode b 52; ll \<leftarrow> getFlag b 54; po \<leftarrow> getFlag b 55; ro \<leftarrow> getFlag b 56;
         ls \<leftarrow> get_rungs b [0..<kQuoteLadderLevels];
         Some (Inr (LadderQuote \<lparr>ql_accountId = a, ql_clientOrderId = cl, ql_expiryNs = e, ql_visibleQuantity = v,
           ql_bidIdBase = bb, ql_askIdBase = ab, ql_symbol = y,
           ql_levels = (if k > kQuoteLadderLevels then kQuoteLadderLevels else k), ql_stp = stp, ql_lastLook = ll,
           ql_postOnly = po, ql_reduceOnly = ro, ql_tif = tif, ql_level = ls\<rparr>)) }) }) })"

definition decode_oe :: "bytes \<Rightarrow> (oe_error + oe_command) option" where
  "decode_oe p =
    (if length p < kHeaderSize then Some (Inl FrameTooShort)
     else do { h \<leftarrow> readHeader p;
       if sh_schemaId h \<noteq> kOeSchemaId then Some (Inl ForeignSchema)
       else if length p < kHeaderSize + unat (sh_blockLength h) then Some (Inl TruncatedBlock)
       else let b = drop kHeaderSize p; n = unat (sh_blockLength h); t = sh_templateId h
            in if t = 1 then decode_enter b n
               else if t = 2 then decode_cancel b n
               else if t = 3 then decode_replace b n
               else if t = 7 then decode_ladder b n
               else Some (Inl NotACommand) })"

subsection \<open>Fields\<close>

lemma oe_puts [put_simps]:
  "putRaw out v = out @ le_bytes 8 (word_of_int v :: 64 word)" "putId out n = out @ le_bytes 8 (of_nat n :: 64 word)"
  "putSymbol out n = out @ le_bytes 4 (of_nat n :: 32 word)" "putCode out n = out @ [of_nat n]" "putFlag out b = out @ [if b then 1 else 0]"
  by (simp_all add: putRaw_def putId_def putSymbol_def putCode_def putFlag_def puts_append)

lemma oe_skip [get_simps]:
  "length p \<le> at \<Longrightarrow> getRaw (p @ q) at = getRaw q (at - length p)" "length p \<le> at \<Longrightarrow> getId (p @ q) at = getId q (at - length p)"
  "length p \<le> at \<Longrightarrow> getSymbol (p @ q) at = getSymbol q (at - length p)" "length p \<le> at \<Longrightarrow> getCode (p @ q) at = getCode q (at - length p)"
  "length p \<le> at \<Longrightarrow> getFlag (p @ q) at = getFlag q (at - length p)"
  by (simp_all add: getRaw_def getId_def getSymbol_def getCode_def getFlag_def get_simps)

lemma oe_past [get_simps]:
  "0 < at \<Longrightarrow> getRaw (b # q) at = getRaw q (at - 1)" "0 < at \<Longrightarrow> getId (b # q) at = getId q (at - 1)"
  "0 < at \<Longrightarrow> getSymbol (b # q) at = getSymbol q (at - 1)" "0 < at \<Longrightarrow> getCode (b # q) at = getCode q (at - 1)"
  "0 < at \<Longrightarrow> getFlag (b # q) at = getFlag q (at - 1)"
  by (simp_all add: getRaw_def getId_def getSymbol_def getCode_def getFlag_def get_simps)

definition in_u64 :: "nat \<Rightarrow> bool" where "in_u64 n \<longleftrightarrow> n < 2 ^ 64"
definition in_u32 :: "nat \<Rightarrow> bool" where "in_u32 n \<longleftrightarrow> n < 2 ^ 32"

lemma sint_raw: "in_i64 v \<Longrightarrow> sint (word_of_int v :: 64 word) = v"
  by (simp add: sint_word_of_int_i64)

lemma oe_read [get_simps]:
  "in_i64 v \<Longrightarrow> getRaw (le_bytes 8 (word_of_int v :: 64 word) @ r) 0 = Some v"
  "in_u64 n \<Longrightarrow> getId (le_bytes 8 (of_nat n :: 64 word) @ r) 0 = Some n"
  "in_u32 n \<Longrightarrow> getSymbol (le_bytes 4 (of_nat n :: 32 word) @ r) 0 = Some n"
  "n < 256 \<Longrightarrow> getCode (of_nat n # r) 0 = Some n"
  "getFlag ((if b then 1 else 0) # r) 0 = Some b"
  by (simp_all add: getRaw_def getId_def getSymbol_def getCode_def getFlag_def get_simps sint_raw in_u64_def in_u32_def
      unat_of_nat take_bit_nat_eq_self byte_at_def)

lemma codes_back [simp]:
  "side_of (side_code sd) = Some sd" "order_type_of (order_type_code ty) = Some ty" "tif_of (tif_code tif) = Some tif"
  "stp_of (stp_code stp) = Some stp" "peg_of (peg_ref_code peg) = Some peg"
proof -
  show "side_of (side_code sd) = Some sd" by (cases sd) (simp_all add: side_of_def)
  show "order_type_of (order_type_code ty) = Some ty" by (cases ty) (simp_all add: order_type_of_def)
  show "tif_of (tif_code tif) = Some tif" by (cases tif) (simp_all add: tif_of_def)
  show "stp_of (stp_code stp) = Some stp" by (cases stp) (simp_all add: stp_of_def)
  show "peg_of (peg_ref_code peg) = Some peg" by (cases peg) (simp_all add: peg_of_def)
qed

lemma codes_fit [simp]:
  "side_code sd < 256" "order_type_code ty < 256" "tif_code tif < 256" "stp_code stp < 256" "peg_ref_code peg < 256"
proof -
  show "side_code sd < 256" by (cases sd) simp_all
  show "order_type_code ty < 256" by (cases ty) simp_all
  show "tif_code tif < 256" by (cases tif) simp_all
  show "stp_code stp < 256" by (cases stp) simp_all
  show "peg_ref_code peg < 256" by (cases peg) simp_all
qed

text \<open>A command whose fields fit their wire types; of a ladder, all rungs are present and the count is not past them.\<close>

definition rung_fits :: "ladder_level \<Rightarrow> bool" where
  "rung_fits r \<longleftrightarrow> in_i64 (ll_bidPrice r) \<and> in_i64 (ll_bidQty r) \<and> in_i64 (ll_askPrice r) \<and> in_i64 (ll_askQty r)"

fun oe_fits :: "oe_command \<Rightarrow> bool" where
  "oe_fits (EnterOrder n) \<longleftrightarrow> in_u64 (no_id n) \<and> in_u32 (no_symbol n) \<and> in_i64 (no_price n) \<and> in_i64 (no_quantity n)
     \<and> in_i64 (no_visibleQuantity n) \<and> in_i64 (no_triggerPrice n) \<and> in_i64 (no_trailingOffset n) \<and> in_u64 (no_accountId n)
     \<and> in_u64 (no_clientOrderId n) \<and> in_i64 (no_expiryNs n) \<and> in_u64 (no_ocoGroup n) \<and> in_i64 (no_pegOffsetRaw n)"
| "oe_fits (CancelOrder c) \<longleftrightarrow> in_u64 (co_id c) \<and> in_u32 (co_symbol c) \<and> in_u64 (co_accountId c)"
| "oe_fits (ReplaceOrder m) \<longleftrightarrow> in_u64 (mo_id m) \<and> in_u32 (mo_symbol m) \<and> in_i64 (mo_newPrice m) \<and> in_i64 (mo_newQty m) \<and> in_u64 (mo_accountId m)"
| "oe_fits (LadderQuote l) \<longleftrightarrow> in_u64 (ql_accountId l) \<and> in_u64 (ql_clientOrderId l) \<and> in_i64 (ql_expiryNs l) \<and> in_i64 (ql_visibleQuantity l)
     \<and> in_u64 (ql_bidIdBase l) \<and> in_u64 (ql_askIdBase l) \<and> in_u32 (ql_symbol l) \<and> ql_levels l \<le> kQuoteLadderLevels
     \<and> length (ql_level l) = kQuoteLadderLevels \<and> list_all rung_fits (ql_level l)"

subsection \<open>Reading back\<close>

definition oe_frame :: "16 word \<Rightarrow> bytes \<Rightarrow> bytes" where
  "oe_frame t block = oe_head (length block) t @ block"

lemma decode_oe_frame:
  assumes "length b < 65536"
  shows "decode_oe (oe_frame t b) = (if t = 1 then decode_enter b (length b) else if t = 2 then decode_cancel b (length b)
    else if t = 3 then decode_replace b (length b) else if t = 7 then decode_ladder b (length b) else Some (Inl NotACommand))"
proof -
  have u: "unat (of_nat (length b) :: 16 word) = length b" using assms by (simp add: unat_of_nat take_bit_nat_eq_self)
  have h: "readHeader (oe_frame t b) = Some \<lparr>sh_blockLength = of_nat (length b), sh_templateId = t, sh_schemaId = kOeSchemaId, sh_version = kOeVersion\<rparr>"
    by (simp add: oe_frame_def oe_head_def putHeader_append get_simps)
  have l: "length (oe_frame t b) = kHeaderSize + length b" "drop kHeaderSize (oe_frame t b) = b"
    by (simp_all add: oe_frame_def oe_head_def putHeader_append kHeaderSize_def)
  show ?thesis unfolding decode_oe_def by (simp add: h l u Let_def)
qed

definition enter_block :: "new_order \<Rightarrow> bytes" where
  "enter_block n = le_bytes 8 (of_nat (no_id n) :: 64 word) @ le_bytes 4 (of_nat (no_symbol n) :: 32 word) @
     [of_nat (side_code (no_side n))] @ [of_nat (order_type_code (no_type n))] @ [of_nat (tif_code (no_tif n))] @
     [if no_postOnly n then 1 else 0] @ [of_nat (stp_code (no_stp n))] @
     le_bytes 8 (word_of_int (no_price n) :: 64 word) @ le_bytes 8 (word_of_int (no_quantity n) :: 64 word) @
     le_bytes 8 (word_of_int (no_visibleQuantity n) :: 64 word) @ le_bytes 8 (word_of_int (no_triggerPrice n) :: 64 word) @
     le_bytes 8 (word_of_int (no_trailingOffset n) :: 64 word) @ le_bytes 8 (of_nat (no_accountId n) :: 64 word) @
     le_bytes 8 (of_nat (no_clientOrderId n) :: 64 word) @ [if no_reduceOnly n then 1 else 0] @ [if no_lastLook n then 1 else 0] @
     [of_nat (peg_ref_code (no_peg n))] @ le_bytes 8 (word_of_int (no_expiryNs n) :: 64 word) @
     le_bytes 8 (of_nat (no_ocoGroup n) :: 64 word) @ le_bytes 8 (word_of_int (no_pegOffsetRaw n) :: 64 word) @ []"

lemma encode_enter_frame: "encode_enter n = oe_frame 1 (enter_block n)"
  by (simp add: encode_enter_def oe_frame_def oe_head_def put_simps enter_block_def oe_blocks)

lemma decode_enter_written: "oe_fits (EnterOrder n) \<Longrightarrow> decode_enter (enter_block n) (length (enter_block n)) = Some (Inr (EnterOrder n))"
  unfolding enter_block_def decode_enter_def
  by (simp add: oe_blocks get_simps guarded_def del: append_Nil2)

definition cancel_block :: "cancel_order \<Rightarrow> bytes" where
  "cancel_block c = le_bytes 8 (of_nat (co_id c) :: 64 word) @ le_bytes 4 (of_nat (co_symbol c) :: 32 word) @
     le_bytes 8 (of_nat (co_accountId c) :: 64 word) @ []"

lemma encode_cancel_frame: "encode_cancel c = oe_frame 2 (cancel_block c)"
  by (simp add: encode_cancel_def oe_frame_def oe_head_def put_simps cancel_block_def oe_blocks)

lemma decode_cancel_written: "oe_fits (CancelOrder c) \<Longrightarrow> decode_cancel (cancel_block c) (length (cancel_block c)) = Some (Inr (CancelOrder c))"
  unfolding cancel_block_def decode_cancel_def by (simp add: oe_blocks get_simps del: append_Nil2)

definition replace_block :: "modify_order \<Rightarrow> bytes" where
  "replace_block m = le_bytes 8 (of_nat (mo_id m) :: 64 word) @ le_bytes 4 (of_nat (mo_symbol m) :: 32 word) @
     le_bytes 8 (word_of_int (mo_newPrice m) :: 64 word) @ le_bytes 8 (word_of_int (mo_newQty m) :: 64 word) @
     le_bytes 8 (of_nat (mo_accountId m) :: 64 word) @ []"

lemma encode_replace_frame: "encode_replace m = oe_frame 3 (replace_block m)"
  by (simp add: encode_replace_def oe_frame_def oe_head_def put_simps replace_block_def oe_blocks)

lemma decode_replace_written: "oe_fits (ReplaceOrder m) \<Longrightarrow> decode_replace (replace_block m) (length (replace_block m)) = Some (Inr (ReplaceOrder m))"
  unfolding replace_block_def decode_replace_def by (simp add: oe_blocks get_simps del: append_Nil2)

text \<open>The rungs are read one after another, each at its own offset past the ladder's head.\<close>

definition rung_bytes :: "ladder_level \<Rightarrow> bytes" where
  "rung_bytes r = le_bytes 8 (word_of_int (ll_bidPrice r) :: 64 word) @ le_bytes 8 (word_of_int (ll_bidQty r) :: 64 word) @
     le_bytes 8 (word_of_int (ll_askPrice r) :: 64 word) @ le_bytes 8 (word_of_int (ll_askQty r) :: 64 word)"

lemma length_rung_bytes [simp]: "length (rung_bytes r) = kLadderRung"
  by (simp add: rung_bytes_def kLadderRung_def)

lemma length_rungs [simp]: "length (concat (map rung_bytes rs)) = length rs * kLadderRung"
  by (induction rs) simp_all

lemma put_rungs: "foldl put_rung out rs = out @ concat (map rung_bytes rs)"
  by (induction rs arbitrary: out) (simp_all add: put_rung_def rung_bytes_def put_simps)

lemma rung_read:
  assumes "rung_fits r"
  shows "getRaw (h @ rung_bytes r @ t) (length h) = Some (ll_bidPrice r)"
    "getRaw (h @ rung_bytes r @ t) (length h + 8) = Some (ll_bidQty r)"
    "getRaw (h @ rung_bytes r @ t) (length h + 16) = Some (ll_askPrice r)"
    "getRaw (h @ rung_bytes r @ t) (length h + 24) = Some (ll_askQty r)"
  using assms by (simp_all add: oe_skip oe_read rung_fits_def rung_bytes_def)

lemma get_rungs_written:
  "length h = kLadderHead + k * kLadderRung \<Longrightarrow> list_all rung_fits rs \<Longrightarrow>
    get_rungs (h @ concat (map rung_bytes rs)) [k..<k + length rs] = Some rs"
proof (induction rs arbitrary: h k)
  case (Cons r rs)
  have tail: "get_rungs ((h @ rung_bytes r) @ concat (map rung_bytes rs)) [Suc k..<Suc k + length rs] = Some rs"
    by (rule Cons.IH) (use Cons.prems in simp_all)
  have "rung_fits r" using Cons.prems by simp
  from rung_read [OF this, of h "concat (map rung_bytes rs)"] tail show ?case
    unfolding Cons.prems(1) by (simp add: upt_conv_Cons Let_def del: upt_Suc)
qed simp

definition ladder_head :: "quote_ladder \<Rightarrow> bytes" where
  "ladder_head l = le_bytes 8 (of_nat (ql_accountId l) :: 64 word) @ le_bytes 8 (of_nat (ql_clientOrderId l) :: 64 word) @
     le_bytes 8 (word_of_int (ql_expiryNs l) :: 64 word) @ le_bytes 8 (word_of_int (ql_visibleQuantity l) :: 64 word) @
     le_bytes 8 (of_nat (ql_bidIdBase l) :: 64 word) @ le_bytes 8 (of_nat (ql_askIdBase l) :: 64 word) @
     le_bytes 4 (of_nat (ql_symbol l) :: 32 word) @ [of_nat (quoteLadderLiveLevels l)] @ [of_nat (stp_code (ql_stp l))] @
     [if ql_lastLook l then 1 else 0] @ [if ql_postOnly l then 1 else 0] @ [if ql_reduceOnly l then 1 else 0] @
     [of_nat (tif_code (ql_tif l))]"

definition ladder_block :: "quote_ladder \<Rightarrow> bytes" where
  "ladder_block l = ladder_head l @ concat (map rung_bytes (ql_level l))"

lemma length_ladder_head: "length (ladder_head l) = kLadderHead"
  by (simp add: ladder_head_def kLadderHead_def)

lemma encode_ladder_frame: "length (ql_level l) = kQuoteLadderLevels \<Longrightarrow> encode_ladder l = oe_frame 7 (ladder_block l)"
  by (simp add: encode_ladder_def oe_frame_def oe_head_def put_rungs put_simps ladder_block_def ladder_head_def kBlockQuoteLadder_def
      kLadderHead_def)

lemma live_levels [simp]: "ql_levels l \<le> kQuoteLadderLevels \<Longrightarrow> quoteLadderLiveLevels l = ql_levels l"
  by (simp add: quoteLadderLiveLevels_def)

lemma decode_ladder_written:
  assumes "oe_fits (LadderQuote l)"
  shows "decode_ladder (ladder_block l) (length (ladder_block l)) = Some (Inr (LadderQuote l))"
proof -
  have rungs: "get_rungs (ladder_block l) [0..<kQuoteLadderLevels] = Some (ql_level l)"
    using get_rungs_written [of "ladder_head l" 0 "ql_level l"] assms by (simp add: length_ladder_head ladder_block_def)
  have n: "length (ladder_block l) = kBlockQuoteLadder"
    using assms by (simp add: ladder_block_def length_ladder_head kBlockQuoteLadder_def)
  have "ql_levels l < 256" using assms by (simp add: kQuoteLadderLevels_def)
  then show ?thesis
    using assms rungs n unfolding decode_ladder_def
    by (simp add: ladder_block_def ladder_head_def get_simps guarded_def del: append_Nil2)
qed

lemma decode_encode_oe:
  assumes "oe_fits c"
  shows "decode_oe (encode_oe c) = Some (Inr c)"
proof (cases c)
  case (EnterOrder n)
  have "length (enter_block n) < 65536" by (simp add: enter_block_def)
  then show ?thesis using assms EnterOrder by (simp add: encode_oe_def encode_enter_frame decode_oe_frame decode_enter_written)
next
  case (CancelOrder x)
  have "length (cancel_block x) < 65536" by (simp add: cancel_block_def)
  then show ?thesis using assms CancelOrder by (simp add: encode_oe_def encode_cancel_frame decode_oe_frame decode_cancel_written)
next
  case (ReplaceOrder m)
  have "length (replace_block m) < 65536" by (simp add: replace_block_def)
  then show ?thesis using assms ReplaceOrder by (simp add: encode_oe_def encode_replace_frame decode_oe_frame decode_replace_written)
next
  case (LadderQuote l)
  have "length (ladder_block l) < 65536"
    using assms LadderQuote by (simp add: ladder_block_def length_ladder_head oe_blocks)
  then show ?thesis using assms LadderQuote by (simp add: encode_oe_def encode_ladder_frame decode_oe_frame decode_ladder_written)
qed

subsection \<open>What a decoder may answer\<close>

text \<open>\<open>answers P x\<close>: the decoder read inside its buffer, and a command it returned satisfies \<open>P\<close>.\<close>

definition answers :: "('c \<Rightarrow> bool) \<Rightarrow> (oe_error + 'c) option \<Rightarrow> bool" where
  "answers P x \<longleftrightarrow> (\<exists>r. x = Some r \<and> (\<forall>c. r = Inr c \<longrightarrow> P c))"

named_theorems answer_intros \<open>one step of a decoder\<close>

lemma answers_end [answer_intros]: "answers P (Some (Inl e))" "P c \<Longrightarrow> answers P (Some (Inr c))"
  by (simp_all add: answers_def)

lemma answers_if [answer_intros]: "(b \<Longrightarrow> answers P x) \<Longrightarrow> (\<not> b \<Longrightarrow> answers P y) \<Longrightarrow> answers P (if b then x else y)"
  by simp

lemma answers_guarded [answer_intros]: "(\<And>x. answers P (k x)) \<Longrightarrow> answers P (guarded v e k)"
  by (simp add: guarded_def answers_end split: option.split)

lemma answers_reads [answer_intros]:
  "at + 8 \<le> length p \<Longrightarrow> (\<And>v. in_i64 v \<Longrightarrow> answers P (f v)) \<Longrightarrow> answers P (Option.bind (getRaw p at) f)"
  "at + 8 \<le> length p \<Longrightarrow> (\<And>n. in_u64 n \<Longrightarrow> answers P (g n)) \<Longrightarrow> answers P (Option.bind (getId p at) g)"
  "at + 4 \<le> length p \<Longrightarrow> (\<And>n. in_u32 n \<Longrightarrow> answers P (g n)) \<Longrightarrow> answers P (Option.bind (getSymbol p at) g)"
  "at < length p \<Longrightarrow> (\<And>n. answers P (g n)) \<Longrightarrow> answers P (Option.bind (getCode p at) g)"
  "at < length p \<Longrightarrow> (\<And>b. answers P (h b)) \<Longrightarrow> answers P (Option.bind (getFlag p at) h)"
proof -
  show "answers P (Option.bind (getRaw p at) f)" if "at + 8 \<le> length p" "\<And>v. in_i64 v \<Longrightarrow> answers P (f v)" for f
    using get_bounds(4) [OF that(1)] that(2) by (auto simp: getRaw_def)
  show "answers P (Option.bind (getId p at) g)" if "at + 8 \<le> length p" "\<And>n. in_u64 n \<Longrightarrow> answers P (g n)" for g
  proof -
    have "in_u64 (unat w)" for w :: "64 word" using unsigned_less [of w, where ?'a = nat] by (simp add: in_u64_def)
    then show ?thesis using get_bounds(3) [OF that(1)] that(2) by (auto simp: getId_def)
  qed
  show "answers P (Option.bind (getSymbol p at) g)" if "at + 4 \<le> length p" "\<And>n. in_u32 n \<Longrightarrow> answers P (g n)" for g
  proof -
    have "in_u32 (unat w)" for w :: "32 word" using unsigned_less [of w, where ?'a = nat] by (simp add: in_u32_def)
    then show ?thesis using get_bounds(2) [OF that(1)] that(2) by (auto simp: getSymbol_def)
  qed
  show "answers P (Option.bind (getCode p at) g)" if "at < length p" "\<And>n. answers P (g n)" for g
    using that by (simp add: getCode_def byte_at_bound)
  show "answers P (Option.bind (getFlag p at) h)" if "at < length p" "\<And>b. answers P (h b)" for h
    using that by (simp add: getFlag_def byte_at_bound)
qed

lemma rung_fits_made [simp]:
  "rung_fits \<lparr>ll_bidPrice = a, ll_bidQty = b, ll_askPrice = c, ll_askQty = d\<rparr> \<longleftrightarrow> in_i64 a \<and> in_i64 b \<and> in_i64 c \<and> in_i64 d"
  by (simp add: rung_fits_def)

lemma get_rungs_total:
  "\<forall>i \<in> set is. kLadderHead + i * kLadderRung + kLadderRung \<le> length b \<Longrightarrow>
    \<exists>rs. get_rungs b is = Some rs \<and> length rs = length is \<and> list_all rung_fits rs"
proof (induction "is")
  case (Cons i js)
  then obtain rs where "get_rungs b js = Some rs" "length rs = length js" "list_all rung_fits rs" by auto
  moreover have "\<exists>w. getI64 b (kLadderHead + i * kLadderRung + k) = Some w" if "k + 8 \<le> kLadderRung" for k
    by (rule get_bounds(4)) (use Cons.prems that in simp)
  from this [of 0] this [of 8] this [of 16] this [of 24]
  have "\<exists>w. getI64 b (kLadderHead + i * kLadderRung) = Some w" "\<exists>w. getI64 b (kLadderHead + i * kLadderRung + 8) = Some w"
    "\<exists>w. getI64 b (kLadderHead + i * kLadderRung + 16) = Some w" "\<exists>w. getI64 b (kLadderHead + i * kLadderRung + 24) = Some w"
    by (simp_all add: kLadderRung_def)
  ultimately show ?case by (auto simp: Let_def getRaw_def)
qed simp

lemma answers_rungs [answer_intros]:
  assumes "kBlockQuoteLadder \<le> length b"
    and "\<And>rs. length rs = kQuoteLadderLevels \<Longrightarrow> list_all rung_fits rs \<Longrightarrow> answers P (f rs)"
  shows "answers P (Option.bind (get_rungs b [0..<kQuoteLadderLevels]) f)"
proof -
  have "\<exists>rs. get_rungs b [0..<kQuoteLadderLevels] = Some rs \<and> length rs = length [0..<kQuoteLadderLevels] \<and> list_all rung_fits rs"
    by (rule get_rungs_total) (use assms(1) in \<open>auto simp: oe_blocks\<close>)
  then show ?thesis using assms(2) by auto
qed

lemma answers_blocks:
  assumes "n \<le> length b"
  shows "answers oe_fits (decode_enter b n)" "answers oe_fits (decode_cancel b n)" "answers oe_fits (decode_replace b n)"
    "answers oe_fits (decode_ladder b n)"
proof -
  show "answers oe_fits (decode_enter b n)" unfolding decode_enter_def
    by (intro answer_intros) (use assms in \<open>simp_all add: oe_blocks\<close>)
  show "answers oe_fits (decode_cancel b n)" unfolding decode_cancel_def
    by (intro answer_intros) (use assms in \<open>simp_all add: oe_blocks\<close>)
  show "answers oe_fits (decode_replace b n)" unfolding decode_replace_def
    by (intro answer_intros) (use assms in \<open>simp_all add: oe_blocks\<close>)
  show "answers oe_fits (decode_ladder b n)" unfolding decode_ladder_def
    by (intro answer_intros) (use assms in \<open>simp_all add: oe_blocks\<close>)
qed

lemma answers_decode_oe: "answers oe_fits (decode_oe p)"
proof (cases "length p < kHeaderSize")
  case False
  then obtain h where h: "readHeader p = Some h" using readHeader_bound [of p] by auto
  have "answers oe_fits (decode_enter b n)" "answers oe_fits (decode_cancel b n)" "answers oe_fits (decode_replace b n)"
    "answers oe_fits (decode_ladder b n)" if "b = drop kHeaderSize p" "kHeaderSize + n \<le> length p" for b n
    by (rule answers_blocks; use that in simp)+
  then show ?thesis using False unfolding decode_oe_def by (simp add: h Let_def answers_end)
qed (simp add: decode_oe_def answers_end)

subsection \<open>The property\<close>

text \<open>
  C37. The order-entry decoder reads inside its buffer whatever bytes a client sends: it always
  answers, with a refusal or with a command all of whose fields are in the range of their wire
  types (a ladder carries exactly its eight rungs and a count not past them). Every command in
  that range survives the wire: encoding it and decoding the frame gives it back unchanged.
\<close>

theorem order_entry_wire_sound:
  "(\<exists>r. decode_oe p = Some r \<and> (\<forall>c. r = Inr c \<longrightarrow> oe_fits c)) \<and> (oe_fits c \<longrightarrow> decode_oe (encode_oe c) = Some (Inr c))"
  using answers_decode_oe [of p] decode_encode_oe [of c] by (simp add: answers_def)

definition sample_ladder :: quote_ladder where
  "sample_ladder = \<lparr>ql_accountId = 7, ql_clientOrderId = 99, ql_expiryNs = -1, ql_visibleQuantity = 0, ql_bidIdBase = 1000,
     ql_askIdBase = 2000, ql_symbol = 3, ql_levels = 2, ql_stp = CancelOldest, ql_lastLook = True, ql_postOnly = True,
     ql_reduceOnly = False, ql_tif = GTC,
     ql_level = replicate 8 \<lparr>ll_bidPrice = 99, ll_bidQty = 5, ll_askPrice = 101, ll_askQty = -5\<rparr>\<rparr>"

theorem order_entry_wire_sound_witness:
  "decode_oe (encode_oe (LadderQuote sample_ladder)) = Some (Inr (LadderQuote sample_ladder)) \<and> decode_oe [1, 2, 3] = Some (Inl FrameTooShort)"
proof -
  have "oe_fits (LadderQuote sample_ladder)"
    by (simp add: sample_ladder_def in_u64_def in_u32_def in_i64_def i64_min_def i64_max_def kQuoteLadderLevels_def list_all_iff)
  then show ?thesis
    using order_entry_wire_sound [of "[1, 2, 3]" "LadderQuote sample_ladder"] by (simp add: decode_oe_def kHeaderSize_def)
qed

end
