(* ===== verification/SbeReports.thy ===== *)
theory SbeReports
  imports SbeOrders
begin

section \<open>The order-entry wire codec: execution reports and session verbs\<close>

text \<open>
  The outbound half of \<^verbatim>\<open>SbeOrderEntryCodec\<close>: every event of the engine with an order-entry
  report, as the frame the client receives. The delivery layer stamps the per-session sequence
  number into the frame when it encodes it and the client recovers it with \<open>seqOf\<close>, which has
  to know how many bytes each template and each schema version puts after it. The session verbs
  (resend, snapshot, session configuration) travel in the same schema.
\<close>

subsection \<open>Encoding\<close>

definition kOeBlockResendRequest :: nat where "kOeBlockResendRequest = 8"
definition kBlockSnapshotRequest :: nat where "kBlockSnapshotRequest = 0"
definition kBlockSetSessionConfig :: nat where "kBlockSetSessionConfig = 1"
definition kBlockAccepted :: nat where "kBlockAccepted = 54"
definition kBlockExecuted :: nat where "kBlockExecuted = 62"
definition kBlockOeTrade :: nat where "kBlockOeTrade = 53"
definition kBlockCanceled :: nat where "kBlockCanceled = 45"
definition kBlockRejected :: nat where "kBlockRejected = 37"
definition kBlockReplaced :: nat where "kBlockReplaced = 53"
definition kOeBlockTriggered :: nat where "kOeBlockTriggered = 28"
definition kBlockFillHeld :: nat where "kBlockFillHeld = 77"
definition kBlockFillRejected :: nat where "kBlockFillRejected = 68"
definition kOeBlockSnapshotRequired :: nat where "kOeBlockSnapshotRequired = 8"
definition kBlockSnapshotEndV1 :: nat where "kBlockSnapshotEndV1 = 28"
definition kOeBlockSnapshotEnd :: nat where "kOeBlockSnapshotEnd = 36"
definition kBlockBalanceUpdate :: nat where "kBlockBalanceUpdate = 35"
definition kBlockCancelRejected :: nat where "kBlockCancelRejected = 22"
definition kBlockPositionAdjusted :: nat where "kBlockPositionAdjusted = 77"

lemmas report_blocks = kBlockAccepted_def kBlockExecuted_def kBlockOeTrade_def kBlockCanceled_def kBlockRejected_def
  kBlockReplaced_def kOeBlockTriggered_def kBlockFillHeld_def kBlockFillRejected_def kBlockBalanceUpdate_def
  kBlockCancelRejected_def kBlockPositionAdjusted_def

lemmas verb_blocks = kOeBlockResendRequest_def kBlockSnapshotRequest_def kBlockSetSessionConfig_def kOeBlockSnapshotRequired_def
  kBlockSnapshotEndV1_def kOeBlockSnapshotEnd_def

definition encode_accepted :: "order_accepted \<Rightarrow> nat \<Rightarrow> bytes" where
  "encode_accepted a seq =
    (let out = oe_head kBlockAccepted 10; out = putId out (oa_id a); out = putSymbol out (oa_symbol a);
         out = putCode out (side_code (oa_side a)); out = putRaw out (oa_price a); out = putRaw out (oa_leavesQty a);
         out = putFlag out (oa_restingOnBook a); out = putId out seq; out = putId out (oa_clientOrderId a)
     in putRaw out (oa_cumQty a))"

definition encode_executed :: "order_executed \<Rightarrow> nat \<Rightarrow> bytes" where
  "encode_executed x seq =
    (let out = oe_head kBlockExecuted 11; out = putId out (ex_id x); out = putSymbol out (ex_symbol x);
         out = putRaw out (ex_lastQty x); out = putRaw out (ex_lastPx x); out = putRaw out (ex_leavesQty x);
         out = putFlag out (ex_aggressor x); out = putFlag out (ex_complete x); out = putId out seq;
         out = putId out (ex_clientOrderId x)
     in putRaw out (ex_cumQty x))"

definition encode_oe_trade :: "trade \<Rightarrow> nat \<Rightarrow> bytes" where
  "encode_oe_trade t seq =
    (let out = oe_head kBlockOeTrade 12; out = putId out (tr_tradeId t); out = putSymbol out (tr_symbol t);
         out = putRaw out (tr_price t); out = putRaw out (tr_quantity t); out = putId out (tr_makerId t);
         out = putId out (tr_takerId t); out = putCode out (side_code (tr_takerSide t))
     in putId out seq)"

definition encode_cancel_rejected :: "cancel_rejected \<Rightarrow> nat \<Rightarrow> bytes" where
  "encode_cancel_rejected c seq =
    (let out = oe_head kBlockCancelRejected 22; out = putId out (cr_id c); out = putSymbol out (cr_symbol c);
         out = putCode out (reject_reason_code (cr_reason c)); out = putFlag out (cr_wasReplace c)
     in putId out seq)"

definition encode_position_adjusted :: "position_adjusted \<Rightarrow> nat \<Rightarrow> bytes" where
  "encode_position_adjusted p seq =
    (let out = oe_head kBlockPositionAdjusted 23; out = putId out (pa_account p); out = putSymbol out (pa_symbol p);
         out = putRaw out (pa_qtyDeltaRaw p); out = putRaw out (pa_qtyAfterRaw p); out = putRaw out (pa_entryAfterRaw p);
         out = putCode out (adjust_reason_code (pa_reason p)); out = putId out seq
     in foldl putU8 out (pa_note p))"

definition encode_canceled :: "order_canceled \<Rightarrow> nat \<Rightarrow> bytes" where
  "encode_canceled c seq =
    (let out = oe_head kBlockCanceled 13; out = putId out (cx_id c); out = putSymbol out (cx_symbol c);
         out = putCode out (cancel_reason_code (cx_reason c)); out = putId out seq; out = putId out (cx_clientOrderId c);
         out = putRaw out (cx_leavesQty c)
     in putRaw out (cx_cumQty c))"

definition encode_rejected :: "order_rejected \<Rightarrow> nat \<Rightarrow> bytes" where
  "encode_rejected j seq =
    (let out = oe_head kBlockRejected 14; out = putId out (rj_id j); out = putSymbol out (rj_symbol j);
         out = putCode out (reject_reason_code (rj_reason j)); out = putId out seq; out = putId out (rj_clientOrderId j)
     in putRaw out (rj_cumQty j))"

definition encode_replaced :: "order_modified \<Rightarrow> nat \<Rightarrow> bytes" where
  "encode_replaced m seq =
    (let out = oe_head kBlockReplaced 15; out = putId out (om_id m); out = putSymbol out (om_symbol m);
         out = putRaw out (om_price m); out = putRaw out (om_leavesQty m); out = putFlag out (om_priorityKept m);
         out = putId out seq; out = putId out (om_clientOrderId m)
     in putRaw out (om_cumQty m))"

definition encode_triggered :: "order_triggered \<Rightarrow> nat \<Rightarrow> bytes" where
  "encode_triggered g seq =
    (let out = oe_head kOeBlockTriggered 16; out = putId out (og_id g); out = putSymbol out (og_symbol g);
         out = putRaw out (og_refPrice g)
     in putId out seq)"

definition encode_fill_held :: "fill_held \<Rightarrow> nat \<Rightarrow> bytes" where
  "encode_fill_held f seq =
    (let out = oe_head kBlockFillHeld 17; out = putId out (fh_heldId f); out = putSymbol out (fh_symbol f);
         out = putId out (fh_makerId f); out = putId out (fh_takerId f); out = putRaw out (fh_price f);
         out = putRaw out (fh_qty f); out = putRaw out (fh_makerDisplayAfter f); out = putId out seq;
         out = putCode out (side_code (fh_takerSide f)); out = putId out (fh_clientOrderId f)
     in putRaw out (fh_cumQty f))"

definition encode_fill_rejected :: "fill_rejected \<Rightarrow> nat \<Rightarrow> bytes" where
  "encode_fill_rejected f seq =
    (let out = oe_head kBlockFillRejected 18; out = putId out (fr_heldId f); out = putSymbol out (fr_symbol f);
         out = putId out (fr_takerId f); out = putId out (fr_makerId f); out = putRaw out (fr_price f);
         out = putRaw out (fr_qty f); out = putId out seq; out = putId out (fr_clientOrderId f)
     in putRaw out (fr_cumQty f))"

definition encode_balance :: "balance_update \<Rightarrow> nat \<Rightarrow> bytes" where
  "encode_balance b seq =
    (let out = oe_head kBlockBalanceUpdate 21; out = putId out (bu_account b); out = putU16 out (of_nat (bu_asset b));
         out = putRaw out (bu_availableRaw b); out = putRaw out (bu_reservedRaw b);
         out = putCode out (balance_reason_code (bu_reason b))
     in putId out seq)"

text \<open>Events without an order-entry report produce no frame.\<close>

definition encode_report :: "outbound_event \<Rightarrow> nat \<Rightarrow> bytes" where
  "encode_report ev seq = (case ev of
     EvAccepted a \<Rightarrow> encode_accepted a seq | EvExecuted x \<Rightarrow> encode_executed x seq | EvTrade t \<Rightarrow> encode_oe_trade t seq
   | EvCancelRejected c \<Rightarrow> encode_cancel_rejected c seq | EvPositionAdjusted p \<Rightarrow> encode_position_adjusted p seq
   | EvCanceled c \<Rightarrow> encode_canceled c seq | EvRejected j \<Rightarrow> encode_rejected j seq | EvModified m \<Rightarrow> encode_replaced m seq
   | EvTriggered g \<Rightarrow> encode_triggered g seq | EvFillHeld f \<Rightarrow> encode_fill_held f seq
   | EvFillRejected f \<Rightarrow> encode_fill_rejected f seq | EvBalanceUpdate b \<Rightarrow> encode_balance b seq | _ \<Rightarrow> [])"

subsection \<open>The sequence number of a frame\<close>

definition seqOffsetIn :: "sbe_header \<Rightarrow> nat" where
  "seqOffsetIn h =
    (let t = sh_templateId h; v = sh_version h;
         isAccepted = t = 10; isExecuted = t = 11; isCanceled = t = 13; isRejected = t = 14; isReplaced = t = 15;
         hasClOrdIdAfterSeq = v \<ge> 4 \<and> (isAccepted \<or> isExecuted \<or> isCanceled \<or> isRejected \<or> isReplaced);
         isFillHeld = t = 17; isFillRejected = t = 18;
         trailing = (if hasClOrdIdAfterSeq \<or> isFillRejected \<and> v \<ge> 7 then 16
                     else if isFillHeld \<and> v \<ge> 7 then 17 else if isFillHeld \<and> v \<ge> 6 then 9 else 8);
         trailing = (if v \<ge> 9 then (if isCanceled then trailing + 16 else if isRejected then trailing + 8 else trailing)
                     else trailing);
         trailing = (if v \<ge> 10 \<and> (isAccepted \<or> isExecuted \<or> isReplaced \<or> isFillHeld \<or> isFillRejected)
                     then trailing + 8 else trailing);
         n = unat (sh_blockLength h)
     in if n \<ge> trailing then n - trailing else 0)"

definition seqOf :: "bytes \<Rightarrow> nat option" where
  "seqOf p =
    (if length p < kHeaderSize then Some 0
     else do { h \<leftarrow> readHeader p;
       if sh_schemaId h \<noteq> kOeSchemaId \<or> sh_version h < 1 \<or> sh_templateId h < 10 \<or> sh_blockLength h < 8
          \<or> length p < kHeaderSize + unat (sh_blockLength h)
       then Some 0
       else getId p (kHeaderSize + seqOffsetIn h) })"

subsection \<open>Where the sequence number is\<close>

lemmas oe_read_last = oe_read(2) [where r = "[]", simplified]

lemmas seq_position = oe_head_def report_blocks put_simps get_simps oe_read_last seqOf_def seqOffsetIn_def kHeaderSize_def
  kOeSchemaId_def kOeVersion_def

lemma seqOf_reports:
  assumes "in_u64 seq"
  shows "seqOf (encode_accepted a seq) = Some seq" "seqOf (encode_executed x seq) = Some seq"
    "seqOf (encode_oe_trade t seq) = Some seq" "seqOf (encode_cancel_rejected c seq) = Some seq"
    "seqOf (encode_canceled k seq) = Some seq" "seqOf (encode_rejected j seq) = Some seq"
    "seqOf (encode_replaced m seq) = Some seq" "seqOf (encode_triggered g seq) = Some seq"
    "seqOf (encode_fill_held h seq) = Some seq" "seqOf (encode_fill_rejected f seq) = Some seq"
    "seqOf (encode_balance b seq) = Some seq"
  using assms by (simp_all add: encode_accepted_def encode_executed_def encode_oe_trade_def encode_cancel_rejected_def
      encode_canceled_def encode_rejected_def encode_replaced_def encode_triggered_def encode_fill_held_def
      encode_fill_rejected_def encode_balance_def seq_position)

lemma put_note: "foldl putU8 out bs = out @ bs"
  by (induction bs arbitrary: out) (simp_all add: put_simps)

lemma seqOf_adjusted:
  assumes "length (pa_note p) = kAdjustNoteLen"
  shows "seqOf (encode_position_adjusted p seq) = getId (pa_note p) 24"
  using assms by (simp add: encode_position_adjusted_def put_note kAdjustNoteLen_def seq_position)

lemma seqOf_total: "\<exists>s. seqOf p = Some s \<and> in_u64 s"
proof (cases "length p < kHeaderSize")
  case False
  then obtain h where h: "readHeader p = Some h" using readHeader_bound [of p] by auto
  have id: "\<exists>s. getId p at = Some s \<and> in_u64 s" if "at + 8 \<le> length p" for at
    using get_bounds(3) [OF that] unsigned_less [where ?'a = nat and ?'b = 64] by (auto simp: getId_def in_u64_def)
  have "seqOffsetIn h + 8 \<le> unat (sh_blockLength h)" if "\<not> sh_blockLength h < 8"
    using that by (auto simp: seqOffsetIn_def Let_def word_less_nat_alt)
  then show ?thesis using False id [of "kHeaderSize + seqOffsetIn h"] by (auto simp: seqOf_def h in_u64_def)
qed (simp add: seqOf_def in_u64_def)

subsection \<open>Session verbs\<close>

definition oe_templateId :: "bytes \<Rightarrow> 16 word option" where
  "oe_templateId p =
    (if length p < kHeaderSize then Some 0
     else do { h \<leftarrow> readHeader p; Some (if sh_schemaId h = kOeSchemaId then sh_templateId h else 0) })"

text \<open>
  The four decoders below refuse alike: too short for a header, a foreign schema, another
  template, a block shorter than the message, a frame shorter than its block.
\<close>

definition with_block :: "16 word \<Rightarrow> nat \<Rightarrow> (sbe_header \<Rightarrow> bytes \<Rightarrow> 'm option) \<Rightarrow> bytes \<Rightarrow> 'm option option" where
  "with_block t least k p =
    (if length p < kHeaderSize then Some None
     else do { h \<leftarrow> readHeader p;
       if sh_schemaId h \<noteq> kOeSchemaId \<or> sh_templateId h \<noteq> t \<or> unat (sh_blockLength h) < least
          \<or> length p < kHeaderSize + unat (sh_blockLength h)
       then Some None
       else do { m \<leftarrow> k h (drop kHeaderSize p); Some (Some m) } })"

definition encodeResendRequest :: "nat \<Rightarrow> bytes" where
  "encodeResendRequest fromSeq = putId (oe_head kOeBlockResendRequest 4) fromSeq"

definition decodeResendRequest :: "bytes \<Rightarrow> nat option option" where
  "decodeResendRequest = with_block 4 kOeBlockResendRequest (\<lambda>h b. getId b 0)"

definition encodeSnapshotRequest :: bytes where
  "encodeSnapshotRequest = oe_head kBlockSnapshotRequest 5"

definition isSnapshotRequest :: "bytes \<Rightarrow> bool option" where
  "isSnapshotRequest p = map_option (\<lambda>t. t = 5) (oe_templateId p)"

definition encodeSetSessionConfig :: "bool \<Rightarrow> bytes" where
  "encodeSetSessionConfig cod = putFlag (oe_head kBlockSetSessionConfig 6) cod"

definition decodeSetSessionConfig :: "bytes \<Rightarrow> bool option option" where
  "decodeSetSessionConfig = with_block 6 kBlockSetSessionConfig (\<lambda>h b. getFlag b 0)"

definition encodeSnapshotRequired :: "nat \<Rightarrow> bytes" where
  "encodeSnapshotRequired lastSeq = putId (oe_head kOeBlockSnapshotRequired 19) lastSeq"

record snapshot_end =
  se_account :: nat
  se_positionQtyRaw :: int
  se_positionEntryRaw :: int
  se_openOrders :: nat
  se_lastSeq :: nat

definition encodeSnapshotEnd :: "snapshot_end \<Rightarrow> bytes" where
  "encodeSnapshotEnd se = putId (putSymbol (putRaw (putRaw (putId (oe_head kOeBlockSnapshotEnd 20) (se_account se))
     (se_positionQtyRaw se)) (se_positionEntryRaw se)) (se_openOrders se)) (se_lastSeq se)"

definition decodeSnapshotEnd :: "bytes \<Rightarrow> snapshot_end option option" where
  "decodeSnapshotEnd = with_block 20 kBlockSnapshotEndV1 (\<lambda>h b. do {
     a \<leftarrow> getId b 0; q \<leftarrow> getRaw b 8; e \<leftarrow> getRaw b 16; n \<leftarrow> getSymbol b 24;
     s \<leftarrow> (if unat (sh_blockLength h) \<ge> kOeBlockSnapshotEnd then getId b 28 else Some 0);
     Some \<lparr>se_account = a, se_positionQtyRaw = q, se_positionEntryRaw = e, se_openOrders = n, se_lastSeq = s\<rparr> })"

text \<open>The reason byte is cast without a range check, so the decoded value keeps it as its code.\<close>

definition decodeBalanceUpdate :: "bytes \<Rightarrow> (nat \<times> nat \<times> int \<times> int \<times> nat) option option" where
  "decodeBalanceUpdate = with_block 21 kBlockBalanceUpdate (\<lambda>h b. do {
     a \<leftarrow> getId b 0; s \<leftarrow> getU16 b 8; av \<leftarrow> getRaw b 10; rs \<leftarrow> getRaw b 18; r \<leftarrow> getCode b 26;
     Some (a, unat s, av, rs, r) })"

lemma with_block_frame:
  assumes "length b < 65536" "least \<le> length b"
  shows "with_block t least k (oe_frame t b) = map_option Some
    (k \<lparr>sh_blockLength = of_nat (length b), sh_templateId = t, sh_schemaId = kOeSchemaId, sh_version = kOeVersion\<rparr> b)"
proof -
  have "unat (of_nat (length b) :: 16 word) = length b" using assms(1) by (simp add: unat_of_nat take_bit_nat_eq_self)
  then show ?thesis
    using assms(2) by (simp add: with_block_def oe_frame_def oe_head_def put_simps get_simps kHeaderSize_def map_conv_bind_option comp_def)
qed

text \<open>An encoded verb is a frame around its block.\<close>

lemma oe_frameI: "length b = n \<Longrightarrow> oe_head n t @ b = oe_frame t b"
  by (simp add: oe_frame_def)

lemma oe_frame_nil: "oe_head 0 t = oe_frame t []"
  by (simp add: oe_frame_def)

lemmas verb_read = with_block_frame verb_blocks get_simps oe_read [where r = "[]", simplified]

lemma session_verbs_roundtrip:
  "in_u64 s \<Longrightarrow> decodeResendRequest (encodeResendRequest s) = Some (Some s)"
  "decodeSetSessionConfig (encodeSetSessionConfig cod) = Some (Some cod)"
  "isSnapshotRequest encodeSnapshotRequest = Some True"
  "in_u64 s \<Longrightarrow> oe_templateId (encodeSnapshotRequired s) = Some 19"
  by (simp_all add: decodeResendRequest_def encodeResendRequest_def decodeSetSessionConfig_def encodeSetSessionConfig_def
      encodeSnapshotRequest_def isSnapshotRequest_def oe_templateId_def encodeSnapshotRequired_def
      oe_puts oe_frameI oe_frame_nil verb_read) (simp_all add: oe_frame_def oe_head_def put_simps get_simps kHeaderSize_def readHeader_written [where r = "[]", simplified])

definition snapshot_end_fits :: "snapshot_end \<Rightarrow> bool" where
  "snapshot_end_fits se \<longleftrightarrow> in_u64 (se_account se) \<and> in_i64 (se_positionQtyRaw se) \<and> in_i64 (se_positionEntryRaw se)
     \<and> in_u32 (se_openOrders se) \<and> in_u64 (se_lastSeq se)"

lemma snapshot_end_roundtrip: "snapshot_end_fits se \<Longrightarrow> decodeSnapshotEnd (encodeSnapshotEnd se) = Some (Some se)"
  by (simp add: decodeSnapshotEnd_def encodeSnapshotEnd_def oe_puts oe_frameI verb_read snapshot_end_fits_def)

lemma balance_roundtrip:
  assumes "in_u64 (bu_account b)" "bu_asset b < 65536" "in_i64 (bu_availableRaw b)" "in_i64 (bu_reservedRaw b)"
  shows "decodeBalanceUpdate (encode_balance b seq) =
    Some (Some (bu_account b, bu_asset b, bu_availableRaw b, bu_reservedRaw b, balance_reason_code (bu_reason b)))"
proof -
  have "balance_reason_code (bu_reason b) < 256" by (cases "bu_reason b") simp_all
  moreover have "unat (of_nat (bu_asset b) :: 16 word) = bu_asset b"
    using assms(2) by (simp add: unat_of_nat take_bit_nat_eq_self)
  ultimately show ?thesis using assms
    by (simp add: decodeBalanceUpdate_def encode_balance_def put_simps oe_frameI with_block_frame get_simps kBlockBalanceUpdate_def)
qed

subsection \<open>The properties\<close>

lemma le_bytes_not_Nil [simp]: "0 < k \<Longrightarrow> le_bytes k v \<noteq> []"
  by (simp add: le_bytes_def)

lemma report_not_empty:
  "encode_accepted a seq \<noteq> []" "encode_executed x seq \<noteq> []" "encode_oe_trade t seq \<noteq> []" "encode_cancel_rejected c seq \<noteq> []"
  "encode_position_adjusted q seq \<noteq> []" "encode_canceled k seq \<noteq> []" "encode_rejected j seq \<noteq> []" "encode_replaced m seq \<noteq> []"
  "encode_triggered g seq \<noteq> []" "encode_fill_held h seq \<noteq> []" "encode_fill_rejected f seq \<noteq> []" "encode_balance b seq \<noteq> []"
  by (simp_all add: encode_accepted_def encode_executed_def encode_oe_trade_def encode_cancel_rejected_def
      encode_position_adjusted_def encode_canceled_def encode_rejected_def encode_replaced_def encode_triggered_def
      encode_fill_held_def encode_fill_rejected_def encode_balance_def put_simps put_note)

definition has_report :: "outbound_event \<Rightarrow> bool" where
  "has_report ev \<longleftrightarrow> (case ev of EvMmpTriggered _ \<Rightarrow> False | EvFeeCharged _ \<Rightarrow> False | EvLiquidation _ \<Rightarrow> False
     | EvTradingStatus _ \<Rightarrow> False | EvDerivatives _ \<Rightarrow> False | _ \<Rightarrow> True)"

text \<open>
  C38. The sequence number of an execution report can be read back from its frame: whatever bytes
  arrive, \<open>seqOf\<close> reads inside the buffer and answers, and on the frame of any reported event other
  than a position adjustment it answers exactly the number the frame was stamped with, past every
  field that later schema versions appended behind it. An event without a report gives no frame.
\<close>

theorem report_seq_read_back:
  "(\<exists>s. seqOf p = Some s \<and> in_u64 s) \<and> (in_u64 seq \<and> has_report ev \<and> (\<forall>pa. ev \<noteq> EvPositionAdjusted pa) \<longrightarrow>
     seqOf (encode_report ev seq) = Some seq) \<and> (encode_report ev seq = [] \<longleftrightarrow> \<not> has_report ev)"
proof (intro conjI impI)
  show "\<exists>s. seqOf p = Some s \<and> in_u64 s" by (rule seqOf_total)
next
  assume "in_u64 seq \<and> has_report ev \<and> (\<forall>pa. ev \<noteq> EvPositionAdjusted pa)"
  then show "seqOf (encode_report ev seq) = Some seq"
    by (cases ev) (simp_all add: encode_report_def has_report_def seqOf_reports)
next
  show "encode_report ev seq = [] \<longleftrightarrow> \<not> has_report ev"
    by (cases ev) (simp_all add: encode_report_def has_report_def report_not_empty)
qed

definition sample_held :: fill_held where
  "sample_held = \<lparr>fh_heldId = 1, fh_symbol = 2, fh_makerId = 3, fh_takerId = 4, fh_price = 100, fh_qty = 5,
     fh_makerDisplayAfter = 0, fh_makerAccount = 6, fh_takerAccount = 7, fh_takerSide = SELL, fh_clientOrderId = 8, fh_cumQty = 9\<rparr>"

theorem report_seq_read_back_witness: "seqOf (encode_report (EvFillHeld sample_held) 77) = Some 77"
  using report_seq_read_back [of "[]" 77 "EvFillHeld sample_held"] by (simp add: has_report_def in_u64_def)

text \<open>
  The exception is real: on a position adjustment the note follows the sequence number, no branch
  of \<open>seqOffsetIn\<close> counts its 32 bytes, and the client reads the last eight bytes of the note.
\<close>

theorem position_adjusted_seq_lost:
  "length (pa_note pa) = kAdjustNoteLen \<Longrightarrow> seqOf (encode_report (EvPositionAdjusted pa) seq) = getId (pa_note pa) 24"
  by (simp add: encode_report_def seqOf_adjusted)

end
