(* ===== verification/LastLook.thy ===== *)
theory LastLook
  imports StpTable OutboundEvents MatchingBook
begin

section \<open>Last look\<close>

text \<open>
  \<^verbatim>\<open>LastLook\<close> of \<^verbatim>\<open>venue/include/flox-venue/engine/last_look.h\<close>: fills taken out of the book but
  not yet printed, their decisions and their outcomes. The concept \<^verbatim>\<open>LastLookHost\<close>, through which
  the component reaches the venue around it, is the record \<open>last_look_host\<close> of operations on a host
  state \<open>'h\<close>; the two operations whose implementation asks the component which holds are open
  (\<^verbatim>\<open>publishTracked\<close> and \<^verbatim>\<open>cleanupOrderIfDone\<close>, see \<^verbatim>\<open>dispatch.inl\<close> and \<^verbatim>\<open>ledger_fees.inl\<close>) take the
  hold table as an argument. An operation maps the component and the host state to their
  successors. The hold counter and the statistics are \<open>nat\<close>; the move of the reference price and
  the deadline are formed in \<^verbatim>\<open>int64_t\<close> without a check and unbounded here. The lock around the
  statistics orders the accesses of other threads and has no counterpart.
\<close>

subsection \<open>State\<close>

record held =
  hd_id :: nat
  hd_taker :: nat
  hd_takerAccount :: nat
  hd_takerSide :: side
  hd_maker :: nat
  hd_makerAccount :: nat
  hd_price :: int
  hd_qty :: int
  hd_deadline :: int
  hd_refAtHoldRaw :: int
  hd_takerTif :: time_in_force
  hd_takerType :: order_type
  hd_takerPrice :: int
  hd_takerExpiryNs :: int
  hd_makerReduceOnly :: bool
  hd_takerReduceOnly :: bool
  hd_makerClientOrderId :: nat
  hd_takerClientOrderId :: nat
  hd_makerCumQtyAtHold :: int
  hd_takerCumQtyAtHold :: int

type_synonym holds = "(nat \<times> held) list"

record last_look_config =
  lc_symbol :: nat
  lc_window :: int
  lc_toleranceRaw :: int
  lc_acceptOnTimeout :: bool

record last_look_stats =
  st_held :: nat
  st_accepted :: nat
  st_rejected :: nat
  st_adverse :: nat
  st_rejectedAdverse :: nat
  st_favourable :: nat
  st_rejectedFavourable :: nat

definition no_stats :: last_look_stats where
  "no_stats = \<lparr>st_held = 0, st_accepted = 0, st_rejected = 0, st_adverse = 0, st_rejectedAdverse = 0,
     st_favourable = 0, st_rejectedFavourable = 0\<rparr>"

record 'h last_look_host =
  lh_findResting :: "'h \<Rightarrow> nat \<Rightarrow> resting_order option"
  lh_takeResting :: "nat \<Rightarrow> 'h \<Rightarrow> resting_order option \<times> 'h"
  lh_reinsertTail :: "side \<Rightarrow> resting_order \<Rightarrow> 'h \<Rightarrow> bool \<times> 'h"
  lh_publish :: "outbound_event \<Rightarrow> 'h \<Rightarrow> 'h"
  lh_publishTracked :: "holds \<Rightarrow> outbound_event \<Rightarrow> 'h \<Rightarrow> 'h"
  lh_lastLookConfig :: "'h \<Rightarrow> last_look_config"
  lh_referenceRaw :: "'h \<Rightarrow> int"
  lh_holdStillAllowed :: "'h \<Rightarrow> held \<Rightarrow> bool"
  lh_nextTradeSeq :: "'h \<Rightarrow> nat \<times> 'h"
  lh_releaseHeldLeg :: "nat \<Rightarrow> int \<Rightarrow> 'h \<Rightarrow> 'h"
  lh_cleanupOrderIfDone :: "holds \<Rightarrow> nat \<Rightarrow> 'h \<Rightarrow> 'h"
  lh_rememberStp :: "nat \<Rightarrow> stp_mode \<Rightarrow> 'h \<Rightarrow> 'h"
  lh_adoptRestingTaker :: "held \<Rightarrow> 'h \<Rightarrow> 'h"

record last_look =
  ll_held :: holds
  ll_seq :: nat
  ll_fresh :: "nat list"
  ll_stats :: "(nat \<times> last_look_stats) list"
  ll_riskRejected :: nat
  ll_toleranceRejected :: nat
  ll_open :: nat

definition last_look_init :: last_look where
  "last_look_init = \<lparr>ll_held = [], ll_seq = 0, ll_fresh = [], ll_stats = [], ll_riskRejected = 0,
     ll_toleranceRejected = 0, ll_open = 0\<rparr>"

definition set_holds :: "holds \<Rightarrow> last_look \<Rightarrow> last_look" where
  "set_holds t L = L\<lparr>ll_held := t, ll_open := length t\<rparr>"

subsection \<open>Questions\<close>

definition hold_names :: "nat \<Rightarrow> held \<Rightarrow> bool" where
  "hold_names i h \<longleftrightarrow> hd_maker h = i \<or> hd_taker h = i"

definition referencesOrder :: "holds \<Rightarrow> nat \<Rightarrow> bool" where
  "referencesOrder t i \<longleftrightarrow> list_ex (\<lambda>(hid, h). hold_names i h) t"

definition heldQtyFor :: "holds \<Rightarrow> nat \<Rightarrow> int" where
  "heldQtyFor t i = fold (\<lambda>(hid, h) total. if hold_names i h then dec_add total (hd_qty h) else total) t 0"

definition moveSinceHold :: "'h last_look_host \<Rightarrow> 'h \<Rightarrow> held \<Rightarrow> int" where
  "moveSinceHold H s h =
    (let nowRaw = lh_referenceRaw H s
     in if nowRaw = 0 \<or> hd_refAtHoldRaw h = 0 then 0
        else let delta = nowRaw - hd_refAtHoldRaw h in if hd_takerSide h = BUY then delta else - delta)"

subsection \<open>Opening a hold\<close>

definition new_hold :: "nat \<Rightarrow> resting_order \<Rightarrow> int \<Rightarrow> new_order \<Rightarrow> int \<Rightarrow> int \<Rightarrow> held" where
  "new_hold i maker fill taker deadline takerCumSoFar =
    \<lparr>hd_id = i, hd_taker = no_id taker, hd_takerAccount = no_accountId taker, hd_takerSide = no_side taker,
     hd_maker = ro_id maker, hd_makerAccount = ro_accountId maker, hd_price = ro_price maker, hd_qty = fill,
     hd_deadline = deadline, hd_refAtHoldRaw = 0, hd_takerTif = no_tif taker, hd_takerType = no_type taker,
     hd_takerPrice = no_price taker, hd_takerExpiryNs = no_expiryNs taker, hd_makerReduceOnly = ro_reduceOnly maker,
     hd_takerReduceOnly = no_reduceOnly taker, hd_makerClientOrderId = ro_clientOrderId maker,
     hd_takerClientOrderId = no_clientOrderId taker, hd_makerCumQtyAtHold = ro_cumQty maker,
     hd_takerCumQtyAtHold = takerCumSoFar\<rparr>"

definition ll_create :: "'h last_look_host \<Rightarrow> resting_order \<Rightarrow> int \<Rightarrow> new_order \<Rightarrow> int \<Rightarrow> int \<Rightarrow> last_look \<times> 'h \<Rightarrow> last_look \<times> 'h" where
  "ll_create H maker fill taker now takerCumSoFar = (\<lambda>(L, s).
    let cfg = lh_lastLookConfig H s;
        i = Suc (ll_seq L);
        h = new_hold i maker fill taker (now + lc_window cfg) takerCumSoFar;
        s = (if no_stp taker \<noteq> StpNone then lh_rememberStp H (no_id taker) (no_stp taker) s else s);
        L = set_holds (AList.update i h (ll_held L)) (L\<lparr>ll_seq := i, ll_fresh := ll_fresh L @ [i]\<rparr>);
        displayAfter = (if fill < ro_leaves maker then dec_sub (ro_leaves maker) fill
                        else if ro_peak maker < ro_hidden maker then ro_peak maker else ro_hidden maker)
    in (L, lh_publish H (EvFillHeld \<lparr>fh_heldId = i, fh_symbol = lc_symbol cfg, fh_makerId = ro_id maker,
             fh_takerId = no_id taker, fh_price = ro_price maker, fh_qty = fill, fh_makerDisplayAfter = displayAfter,
             fh_makerAccount = ro_accountId maker, fh_takerAccount = no_accountId taker,
             fh_takerSide = hd_takerSide h, fh_clientOrderId = no_clientOrderId taker,
             fh_cumQty = hd_takerCumQtyAtHold h\<rparr>) s))"

definition stamp :: "int \<Rightarrow> nat \<Rightarrow> holds \<Rightarrow> holds" where
  "stamp ref i t = (case map_of t i of None \<Rightarrow> t | Some h \<Rightarrow> AList.update i (h\<lparr>hd_refAtHoldRaw := ref\<rparr>) t)"

definition stampFresh :: "'h last_look_host \<Rightarrow> last_look \<times> 'h \<Rightarrow> last_look \<times> 'h" where
  "stampFresh H = (\<lambda>(L, s).
    if ll_fresh L = [] then (L, s)
    else let ref = lh_referenceRaw H s
         in (L\<lparr>ll_held := fold (stamp ref) (ll_fresh L) (ll_held L), ll_fresh := []\<rparr>, s))"

subsection \<open>Outcomes\<close>

definition bumped_stats :: "int \<Rightarrow> bool \<Rightarrow> last_look_stats \<Rightarrow> last_look_stats" where
  "bumped_stats moveRaw accepted st =
    (let st = st\<lparr>st_held := Suc (st_held st)\<rparr>;
         st = (if accepted then st\<lparr>st_accepted := Suc (st_accepted st)\<rparr> else st\<lparr>st_rejected := Suc (st_rejected st)\<rparr>)
     in if moveRaw > 0 then
          let st = st\<lparr>st_adverse := Suc (st_adverse st)\<rparr>
          in if \<not> accepted then st\<lparr>st_rejectedAdverse := Suc (st_rejectedAdverse st)\<rparr> else st
        else if moveRaw < 0 then
          let st = st\<lparr>st_favourable := Suc (st_favourable st)\<rparr>
          in if \<not> accepted then st\<lparr>st_rejectedFavourable := Suc (st_rejectedFavourable st)\<rparr> else st
        else st)"

definition record_outcome :: "held \<Rightarrow> int \<Rightarrow> bool \<Rightarrow> last_look \<Rightarrow> last_look" where
  "record_outcome h moveRaw accepted L =
    (let st = (case map_of (ll_stats L) (hd_makerAccount h) of None \<Rightarrow> no_stats | Some st \<Rightarrow> st)
     in L\<lparr>ll_stats := AList.update (hd_makerAccount h) (bumped_stats moveRaw accepted st) (ll_stats L)\<rparr>)"

definition rebuilt :: "nat \<Rightarrow> nat \<Rightarrow> int \<Rightarrow> int \<Rightarrow> side \<Rightarrow> resting_order" where
  "rebuilt i account price leaves sd = \<lparr>ro_id = i, ro_accountId = account, ro_price = price, ro_leaves = leaves,
     ro_side = sd, ro_hidden = 0, ro_peak = 0, ro_lastLook = False, ro_reduceOnly = False, ro_postOnly = False,
     ro_clientOrderId = 0, ro_cumQty = 0\<rparr>"

definition refused_event :: "nat \<Rightarrow> nat \<Rightarrow> cancel_reason \<Rightarrow> nat \<Rightarrow> nat \<Rightarrow> int \<Rightarrow> int \<Rightarrow> outbound_event" where
  "refused_event i symbol reason account clOrd leaves cum =
     EvCanceled \<lparr>cx_id = i, cx_symbol = symbol, cx_reason = reason, cx_account = account, cx_clientOrderId = clOrd,
       cx_leavesQty = leaves, cx_cumQty = cum\<rparr>"

definition requeued_event :: "nat \<Rightarrow> nat \<Rightarrow> int \<Rightarrow> int \<Rightarrow> nat \<Rightarrow> nat \<Rightarrow> int \<Rightarrow> outbound_event" where
  "requeued_event i symbol price leaves account clOrd cum =
     EvModified \<lparr>om_id = i, om_symbol = symbol, om_price = price, om_leavesQty = leaves, om_priorityKept = False,
       om_account = account, om_clientOrderId = clOrd, om_cumQty = cum\<rparr>"

definition rebuilt_maker :: "held \<Rightarrow> resting_order" where
  "rebuilt_maker h = (rebuilt (hd_maker h) (hd_makerAccount h) (hd_price h) (hd_qty h) (if hd_takerSide h = BUY then SELL else BUY))
     \<lparr>ro_clientOrderId := hd_makerClientOrderId h, ro_lastLook := True, ro_reduceOnly := hd_makerReduceOnly h,
      ro_cumQty := hd_makerCumQtyAtHold h\<rparr>"

definition restoreMaker :: "'h last_look_host \<Rightarrow> held \<Rightarrow> nat \<Rightarrow> 'h \<Rightarrow> 'h" where
  "restoreMaker H h symbol s =
    (let (taken, s) = lh_takeResting H (hd_maker h) s
     in case taken of
          Some ro \<Rightarrow>
            (let ro = ro\<lparr>ro_leaves := dec_add (ro_leaves ro) (hd_qty h), ro_cumQty := dec_sub (ro_cumQty ro) (hd_qty h)\<rparr>;
                 (back, s) = lh_reinsertTail H (ro_side ro) ro s
             in if \<not> back then
                  lh_publish H (refused_event (hd_maker h) symbol BookRefused (hd_makerAccount h) (ro_clientOrderId ro) (ro_leaves ro) (ro_cumQty ro))
                    (lh_releaseHeldLeg H (hd_maker h) (hd_qty h) s)
                else lh_publish H (requeued_event (hd_maker h) symbol (ro_price ro) (ro_leaves ro) (hd_makerAccount h) (ro_clientOrderId ro) (ro_cumQty ro)) s)
        | None \<Rightarrow>
            (let r = rebuilt_maker h;
                 (back, s) = lh_reinsertTail H (ro_side r) r s
             in if \<not> back then
                  lh_publish H (refused_event (hd_maker h) symbol BookRefused (hd_makerAccount h) (hd_makerClientOrderId h) (hd_qty h) (ro_cumQty r))
                    (lh_releaseHeldLeg H (hd_maker h) (hd_qty h) s)
                else lh_publish H (requeued_event (hd_maker h) symbol (hd_price h) (hd_qty h) (hd_makerAccount h) (hd_makerClientOrderId h) (ro_cumQty r)) s))"

definition taker_rests :: "held \<Rightarrow> bool" where
  "taker_rests h \<longleftrightarrow> hd_takerType h = LIMIT \<and> (hd_takerTif h = GTC \<or> hd_takerTif h = GTD)"

definition rebuilt_taker :: "held \<Rightarrow> resting_order" where
  "rebuilt_taker h = (rebuilt (hd_taker h) (hd_takerAccount h) (hd_takerPrice h) (hd_qty h) (hd_takerSide h))
     \<lparr>ro_clientOrderId := hd_takerClientOrderId h, ro_reduceOnly := hd_takerReduceOnly h, ro_cumQty := hd_takerCumQtyAtHold h\<rparr>"

definition residual_reason :: "held \<Rightarrow> cancel_reason" where
  "residual_reason h = (if hd_takerType h = MARKET then MarketResidual
     else if hd_takerTif h = FOK then FillOrKillResidual else ImmediateOrCancelResidual)"

definition restoreTaker :: "'h last_look_host \<Rightarrow> held \<Rightarrow> nat \<Rightarrow> 'h \<Rightarrow> 'h" where
  "restoreTaker H h symbol s =
    (if taker_rests h then
       (let (taken, s) = lh_takeResting H (hd_taker h) s
        in case taken of
             Some ro \<Rightarrow>
               (let ro = ro\<lparr>ro_leaves := dec_add (ro_leaves ro) (hd_qty h)\<rparr>;
                    (back, s) = lh_reinsertTail H (ro_side ro) ro s
                in if \<not> back then
                     lh_publish H (refused_event (hd_taker h) symbol BookRefused (hd_takerAccount h) (ro_clientOrderId ro) (ro_leaves ro) (ro_cumQty ro))
                       (lh_releaseHeldLeg H (hd_taker h) (hd_qty h) s)
                   else lh_publish H (requeued_event (hd_taker h) symbol (ro_price ro) (ro_leaves ro) (hd_takerAccount h) (ro_clientOrderId ro) (ro_cumQty ro)) s)
           | None \<Rightarrow>
               (let r = rebuilt_taker h;
                    (back, s) = lh_reinsertTail H (hd_takerSide h) r s
                in if \<not> back then
                     lh_publish H (refused_event (hd_taker h) symbol BookRefused (hd_takerAccount h) (hd_takerClientOrderId h) (hd_qty h) (ro_cumQty r))
                       (lh_releaseHeldLeg H (hd_taker h) (hd_qty h) s)
                   else lh_publish H (EvAccepted \<lparr>oa_id = hd_taker h, oa_symbol = symbol, oa_side = hd_takerSide h,
                          oa_price = hd_takerPrice h, oa_leavesQty = hd_qty h, oa_restingOnBook = True, oa_displayQty = hd_qty h,
                          oa_account = hd_takerAccount h, oa_clientOrderId = hd_takerClientOrderId h, oa_cumQty = ro_cumQty r\<rparr>)
                        (lh_adoptRestingTaker H h s)))
     else lh_publish H (refused_event (hd_taker h) symbol (residual_reason h) (hd_takerAccount h) (hd_takerClientOrderId h) (hd_qty h) (hd_takerCumQtyAtHold h))
            (lh_releaseHeldLeg H (hd_taker h) (hd_qty h) s))"

definition resting_raw :: "resting_order option \<Rightarrow> int" where
  "resting_raw r = (case r of None \<Rightarrow> 0 | Some o1 \<Rightarrow> ro_leaves o1 + ro_hidden o1)"

definition displayed_raw :: "resting_order option \<Rightarrow> int" where
  "displayed_raw r = (case r of None \<Rightarrow> 0 | Some o1 \<Rightarrow> ro_leaves o1)"

definition settle_hold :: "'h last_look_host \<Rightarrow> holds \<Rightarrow> held \<Rightarrow> nat \<Rightarrow> 'h \<Rightarrow> 'h" where
  "settle_hold H t h symbol s =
    (let (tradeId, s) = lh_nextTradeSeq H s;
         s = lh_publishTracked H t (EvTrade \<lparr>tr_tradeId = tradeId, tr_symbol = symbol, tr_price = hd_price h,
               tr_quantity = hd_qty h, tr_makerId = hd_maker h, tr_takerId = hd_taker h, tr_takerSide = hd_takerSide h,
               tr_makerAccount = hd_makerAccount h, tr_takerAccount = hd_takerAccount h\<rparr>) s;
         mk = lh_findResting H s (hd_maker h);
         makerLeaves = resting_raw mk;
         makerCumAfter = (case mk of Some o1 \<Rightarrow> ro_cumQty o1 | None \<Rightarrow> dec_add (hd_makerCumQtyAtHold h) (hd_qty h));
         s = lh_publishTracked H t (EvExecuted \<lparr>ex_id = hd_maker h, ex_symbol = symbol, ex_lastQty = hd_qty h,
               ex_leavesQty = makerLeaves, ex_aggressor = False, ex_complete = (makerLeaves = 0), ex_lastPx = hd_price h,
               ex_displayLeaves = displayed_raw mk, ex_account = hd_makerAccount h,
               ex_clientOrderId = hd_makerClientOrderId h, ex_cumQty = makerCumAfter\<rparr>) s;
         tk = lh_findResting H s (hd_taker h);
         takerLeaves = resting_raw tk + heldQtyFor t (hd_taker h);
         takerCumAfter = dec_add (dec_add (hd_takerCumQtyAtHold h) (hd_qty h)) (case tk of Some o1 \<Rightarrow> ro_cumQty o1 | None \<Rightarrow> 0)
     in lh_publishTracked H t (EvExecuted \<lparr>ex_id = hd_taker h, ex_symbol = symbol, ex_lastQty = hd_qty h,
               ex_leavesQty = takerLeaves, ex_aggressor = True, ex_complete = (takerLeaves = 0), ex_lastPx = hd_price h,
               ex_displayLeaves = displayed_raw tk, ex_account = hd_takerAccount h,
               ex_clientOrderId = hd_takerClientOrderId h, ex_cumQty = takerCumAfter\<rparr>) s)"

definition reject_hold :: "'h last_look_host \<Rightarrow> held \<Rightarrow> nat \<Rightarrow> 'h \<Rightarrow> 'h" where
  "reject_hold H h symbol s =
     lh_publish H (EvFillRejected \<lparr>fr_heldId = hd_id h, fr_symbol = symbol, fr_takerId = hd_taker h, fr_makerId = hd_maker h,
         fr_price = hd_price h, fr_qty = hd_qty h, fr_takerAccount = hd_takerAccount h, fr_makerAccount = hd_makerAccount h,
         fr_clientOrderId = hd_takerClientOrderId h, fr_cumQty = hd_takerCumQtyAtHold h\<rparr>)
       (restoreTaker H h symbol (restoreMaker H h symbol s))"

text \<open>The venue's verdict on an answer: what \<^verbatim>\<open>accept\<close> becomes, and which counter it moves.\<close>

definition verdict :: "'h last_look_host \<Rightarrow> 'h \<Rightarrow> held \<Rightarrow> bool \<Rightarrow> last_look \<Rightarrow> bool \<times> last_look" where
  "verdict H s h accept L =
    (let (accept, L) = (if accept \<and> \<not> lh_holdStillAllowed H s h
                        then (False, L\<lparr>ll_riskRejected := Suc (ll_riskRejected L)\<rparr>) else (accept, L));
         tol = lc_toleranceRaw (lh_lastLookConfig H s);
         moveRaw = moveSinceHold H s h;
         mag = (if moveRaw < 0 then - moveRaw else moveRaw)
     in if tol > 0 \<and> mag > tol then (False, L\<lparr>ll_toleranceRejected := Suc (ll_toleranceRejected L)\<rparr>) else (accept, L))"

definition resolve :: "'h last_look_host \<Rightarrow> nat \<Rightarrow> held \<Rightarrow> bool \<Rightarrow> last_look \<times> 'h \<Rightarrow> last_look \<times> 'h" where
  "resolve H i h accept = (\<lambda>(L, s).
    let symbol = lc_symbol (lh_lastLookConfig H s);
        L = set_holds (AList.delete i (ll_held L)) L;
        moveRaw = moveSinceHold H s h;
        (accept, L) = verdict H s h accept L;
        L = record_outcome h moveRaw accept L;
        s = (if accept then settle_hold H (ll_held L) h symbol s else reject_hold H h symbol s);
        s = lh_cleanupOrderIfDone H (ll_held L) (hd_taker h) s
    in (L, lh_cleanupOrderIfDone H (ll_held L) (hd_maker h) s))"

definition resolve_if_open :: "'h last_look_host \<Rightarrow> bool \<Rightarrow> nat \<Rightarrow> last_look \<times> 'h \<Rightarrow> last_look \<times> 'h" where
  "resolve_if_open H accept i = (\<lambda>(L, s). case map_of (ll_held L) i of None \<Rightarrow> (L, s) | Some h \<Rightarrow> resolve H i h accept (L, s))"

subsection \<open>Decisions and sweeps\<close>

record last_look_decision =
  ld_heldId :: nat
  ld_symbol :: nat
  ld_accept :: bool
  ld_accountId :: nat

definition decision_refused :: "last_look_decision \<Rightarrow> nat \<Rightarrow> reject_reason \<Rightarrow> outbound_event" where
  "decision_refused d symbol reason = EvRejected \<lparr>rj_id = ld_heldId d, rj_symbol = symbol, rj_reason = reason,
     rj_account = ld_accountId d, rj_clientOrderId = 0, rj_cumQty = 0\<rparr>"

definition onDecision :: "'h last_look_host \<Rightarrow> last_look_decision \<Rightarrow> last_look \<times> 'h \<Rightarrow> last_look \<times> 'h" where
  "onDecision H d = (\<lambda>(L, s).
    case map_of (ll_held L) (ld_heldId d) of
      None \<Rightarrow> (L, lh_publish H (decision_refused d (lc_symbol (lh_lastLookConfig H s)) UnknownOrder) s)
    | Some h \<Rightarrow>
        if ld_accountId d \<noteq> hd_makerAccount h
        then (L, lh_publish H (decision_refused d (lc_symbol (lh_lastLookConfig H s)) NotOrderOwner) s)
        else resolve H (ld_heldId d) h (ld_accept d) (L, s))"

definition due_holds :: "(held \<Rightarrow> bool) \<Rightarrow> holds \<Rightarrow> nat list" where
  "due_holds p t = map fst (filter (\<lambda>(hid, h). p h) t)"

definition resolve_all :: "'h last_look_host \<Rightarrow> bool \<Rightarrow> nat list \<Rightarrow> last_look \<times> 'h \<Rightarrow> last_look \<times> 'h" where
  "resolve_all H accept due Ls = fold (resolve_if_open H accept) (sort due) Ls"

definition ll_expire :: "'h last_look_host \<Rightarrow> int \<Rightarrow> last_look \<times> 'h \<Rightarrow> last_look \<times> 'h" where
  "ll_expire H now = (\<lambda>(L, s). if ll_held L = [] then (L, s)
     else resolve_all H (lc_acceptOnTimeout (lh_lastLookConfig H s)) (due_holds (\<lambda>h. now \<ge> hd_deadline h) (ll_held L)) (L, s))"

definition rejectAllOf :: "'h last_look_host \<Rightarrow> nat list \<Rightarrow> last_look \<times> 'h \<Rightarrow> last_look \<times> 'h" where
  "rejectAllOf H due Ls = resolve_all H False due Ls"

definition rejectFor :: "'h last_look_host \<Rightarrow> nat \<Rightarrow> last_look \<times> 'h \<Rightarrow> last_look \<times> 'h" where
  "rejectFor H i = (\<lambda>(L, s). if ll_held L = [] then (L, s) else rejectAllOf H (due_holds (hold_names i) (ll_held L)) (L, s))"

definition rejectForAccount :: "'h last_look_host \<Rightarrow> nat \<Rightarrow> last_look \<times> 'h \<Rightarrow> last_look \<times> 'h" where
  "rejectForAccount H a = (\<lambda>(L, s). if ll_held L = [] then (L, s)
     else rejectAllOf H (due_holds (\<lambda>h. hd_makerAccount h = a \<or> hd_takerAccount h = a) (ll_held L)) (L, s))"

definition rejectAll :: "'h last_look_host \<Rightarrow> last_look \<times> 'h \<Rightarrow> last_look \<times> 'h" where
  "rejectAll H = (\<lambda>(L, s). if ll_held L = [] then (L, s) else rejectAllOf H (due_holds (\<lambda>h. True) (ll_held L)) (L, s))"

subsection \<open>Checkpoint\<close>

definition mix_if :: "bool \<Rightarrow> 64 word \<Rightarrow> 64 word \<Rightarrow> 64 word" where
  "mix_if c v h = (if c then mix h v else h)"

definition hold_hash :: "(nat \<Rightarrow> bool) \<Rightarrow> nat \<Rightarrow> held \<Rightarrow> 64 word \<Rightarrow> 64 word" where
  "hold_hash tracked hid x h =
    (let h = mix h kHold;
         h = mix h (of_nat (hd_id x));
         h = mix h (of_nat (hd_taker x));
         h = mix h (of_nat (hd_takerAccount x));
         h = mix h (of_nat (side_code (hd_takerSide x)));
         h = mix h (of_nat (hd_maker x));
         h = mix h (of_nat (hd_makerAccount x));
         h = mix h (word_of_int (hd_price x));
         h = mix h (word_of_int (hd_qty x));
         h = mix h (word_of_int (hd_deadline x));
         h = mix h (of_nat (tif_code (hd_takerTif x)));
         h = mix h (of_nat (order_type_code (hd_takerType x)));
         h = mix h (word_of_int (hd_takerPrice x));
         h = mix h (word_of_int (hd_takerExpiryNs x));
         h = mix h (if hd_makerReduceOnly x then 1 else 0);
         h = mix h (if hd_takerReduceOnly x then 1 else 0);
         h = mix_if (hd_refAtHoldRaw x \<noteq> 0) (word_of_int (hd_refAtHoldRaw x)) h;
         h = mix_if (hd_makerClientOrderId x \<noteq> 0) (of_nat (hd_makerClientOrderId x)) h;
         h = mix_if (hd_takerClientOrderId x \<noteq> 0) (of_nat (hd_takerClientOrderId x)) h;
         h = mix_if (hd_makerCumQtyAtHold x \<noteq> 0) (word_of_int (hd_makerCumQtyAtHold x)) h;
         h = mix_if (hd_takerCumQtyAtHold x \<noteq> 0) (word_of_int (hd_takerCumQtyAtHold x)) h
     in mix h (if tracked (hd_maker x) then 1 else 0))"

definition holds_hashInto :: "(nat \<Rightarrow> bool) \<Rightarrow> holds \<Rightarrow> 64 word \<Rightarrow> 64 word" where
  "holds_hashInto tracked t h = digest_section (hold_hash tracked) t h"

record restore_held =
  rh_heldId :: nat
  rh_taker :: nat
  rh_takerAccount :: nat
  rh_takerSide :: side
  rh_maker :: nat
  rh_makerAccount :: nat
  rh_price :: int
  rh_qty :: int
  rh_deadline :: int
  rh_takerTif :: time_in_force
  rh_takerType :: order_type
  rh_takerPrice :: int
  rh_takerExpiryNs :: int
  rh_makerReduceOnly :: bool
  rh_takerReduceOnly :: bool
  rh_makerTracked :: bool
  rh_refAtHoldRaw :: int
  rh_makerClientOrderId :: nat
  rh_takerClientOrderId :: nat
  rh_makerCumQtyAtHold :: int
  rh_takerCumQtyAtHold :: int

definition hold_record :: "(nat \<Rightarrow> bool) \<Rightarrow> nat \<Rightarrow> held \<Rightarrow> restore_held" where
  "hold_record tracked hid x = \<lparr>rh_heldId = hd_id x, rh_taker = hd_taker x, rh_takerAccount = hd_takerAccount x,
     rh_takerSide = hd_takerSide x, rh_maker = hd_maker x, rh_makerAccount = hd_makerAccount x, rh_price = hd_price x,
     rh_qty = hd_qty x, rh_deadline = hd_deadline x, rh_takerTif = hd_takerTif x, rh_takerType = hd_takerType x,
     rh_takerPrice = hd_takerPrice x, rh_takerExpiryNs = hd_takerExpiryNs x, rh_makerReduceOnly = hd_makerReduceOnly x,
     rh_takerReduceOnly = hd_takerReduceOnly x, rh_makerTracked = tracked (hd_maker x), rh_refAtHoldRaw = hd_refAtHoldRaw x,
     rh_makerClientOrderId = hd_makerClientOrderId x, rh_takerClientOrderId = hd_takerClientOrderId x,
     rh_makerCumQtyAtHold = hd_makerCumQtyAtHold x, rh_takerCumQtyAtHold = hd_takerCumQtyAtHold x\<rparr>"

definition holds_writeSnapshot :: "(nat \<Rightarrow> bool) \<Rightarrow> holds \<Rightarrow> restore_held list" where
  "holds_writeSnapshot tracked t = write_section (\<lambda>hid x. [hold_record tracked hid x]) t"

definition insertRestored :: "held \<Rightarrow> holds \<Rightarrow> holds" where
  "insertRestored h t = AList.update (hd_id h) h t"

definition held_of_record :: "restore_held \<Rightarrow> held" where
  "held_of_record r = \<lparr>hd_id = rh_heldId r, hd_taker = rh_taker r, hd_takerAccount = rh_takerAccount r,
     hd_takerSide = rh_takerSide r, hd_maker = rh_maker r, hd_makerAccount = rh_makerAccount r, hd_price = rh_price r,
     hd_qty = rh_qty r, hd_deadline = rh_deadline r, hd_refAtHoldRaw = rh_refAtHoldRaw r, hd_takerTif = rh_takerTif r,
     hd_takerType = rh_takerType r, hd_takerPrice = rh_takerPrice r, hd_takerExpiryNs = rh_takerExpiryNs r,
     hd_makerReduceOnly = rh_makerReduceOnly r, hd_takerReduceOnly = rh_takerReduceOnly r,
     hd_makerClientOrderId = rh_makerClientOrderId r, hd_takerClientOrderId = rh_takerClientOrderId r,
     hd_makerCumQtyAtHold = rh_makerCumQtyAtHold r, hd_takerCumQtyAtHold = rh_takerCumQtyAtHold r\<rparr>"

definition applyRestoreHeld :: "restore_held \<Rightarrow> holds \<Rightarrow> holds" where
  "applyRestoreHeld r t = (if map_of t (rh_heldId r) \<noteq> None \<or> rh_qty r \<le> 0 then t else insertRestored (held_of_record r) t)"

definition copyHoldsFrom :: "last_look \<Rightarrow> last_look \<Rightarrow> last_look" where
  "copyHoldsFrom other L = set_holds (ll_held other) (L\<lparr>ll_seq := ll_seq other\<rparr>)"

end
