(* ===== verification/LastLookProps.thy ===== *)
theory LastLookProps
  imports LastLook
begin

section \<open>Last look: the life of a hold\<close>

text \<open>
  What holds of the hold table and of the conduct statistics whatever the venue around them does,
  and what a resolution does to the book and to the event stream when the host keeps the laws of
  the locale \<open>hold_host\<close>.
\<close>

subsection \<open>Tables\<close>

lemma length_delete_present:
  "distinct (map fst t) \<Longrightarrow> map_of t k = Some v \<Longrightarrow> Suc (length (AList.delete k t)) = length t"
proof -
  assume d: "distinct (map fst t)" and k: "map_of t k = Some v"
  have "k \<in> set (map fst t)" using k map_of_eq_None_iff [of t k] by auto
  moreover have "length (AList.delete k t) = length (remove1 k (map fst t))"
    using d delete_keys [of k t] by (metis distinct_remove1_removeAll length_map)
  ultimately show ?thesis using length_pos_if_in_set [of k "map fst t"] by (simp add: length_remove1)
qed

lemma length_update_new: "k \<notin> fst ` set t \<Longrightarrow> length (AList.update k v t) = Suc (length t)"
  using update_keys [of k v t] by (metis length_append_singleton length_map set_map)

lemma sum_update:
  fixes f :: "'v \<Rightarrow> nat"
  assumes "distinct (map fst t)"
  shows "sum_list (map (f \<circ> snd) (AList.update k v t)) + (case map_of t k of None \<Rightarrow> 0 | Some w \<Rightarrow> f w)
    = sum_list (map (f \<circ> snd) t) + f v"
  using assms by (induction t) (auto simp: map_of_eq_None_iff [THEN iffD2] split: option.split)

subsection \<open>What a resolution does to the component\<close>

lemma verdict_alt:
  "verdict H s h accept L = (let allowed = \<not> (accept \<and> \<not> lh_holdStillAllowed H s h);
      moved = lc_toleranceRaw (lh_lastLookConfig H s) > 0 \<and> \<bar>moveSinceHold H s h\<bar> > lc_toleranceRaw (lh_lastLookConfig H s)
    in (accept \<and> allowed \<and> \<not> moved,
        L\<lparr>ll_riskRejected := (if allowed then ll_riskRejected L else Suc (ll_riskRejected L)),
          ll_toleranceRejected := (if moved then Suc (ll_toleranceRejected L) else ll_toleranceRejected L)\<rparr>))"
  unfolding verdict_def Let_def abs_if by (auto simp: not_less)

definition settles :: "'h last_look_host \<Rightarrow> 'h \<Rightarrow> held \<Rightarrow> bool \<Rightarrow> bool" where
  "settles H s h accept \<longleftrightarrow> accept \<and> lh_holdStillAllowed H s h
     \<and> (lc_toleranceRaw (lh_lastLookConfig H s) > 0 \<longrightarrow> \<bar>moveSinceHold H s h\<bar> \<le> lc_toleranceRaw (lh_lastLookConfig H s))"

lemma fst_verdict: "fst (verdict H s h accept L) \<longleftrightarrow> settles H s h accept"
  by (auto simp: verdict_alt settles_def Let_def)

lemma verdict_keeps [simp]:
  "ll_held (snd (verdict H s h a L)) = ll_held L" "ll_seq (snd (verdict H s h a L)) = ll_seq L"
  "ll_fresh (snd (verdict H s h a L)) = ll_fresh L" "ll_stats (snd (verdict H s h a L)) = ll_stats L"
  "ll_open (snd (verdict H s h a L)) = ll_open L"
  by (simp_all add: verdict_alt Let_def)

lemma record_keeps [simp]:
  "ll_held (record_outcome h m a L) = ll_held L" "ll_seq (record_outcome h m a L) = ll_seq L"
  "ll_fresh (record_outcome h m a L) = ll_fresh L" "ll_open (record_outcome h m a L) = ll_open L"
  by (simp_all add: record_outcome_def Let_def)

lemma record_stats: "ll_stats (record_outcome h m a L) = AList.update (hd_makerAccount h)
    (bumped_stats m a (case map_of (ll_stats L) (hd_makerAccount h) of None \<Rightarrow> no_stats | Some st \<Rightarrow> st)) (ll_stats L)"
  by (simp add: record_outcome_def Let_def)

lemma resolve_component:
  "fst (resolve H i h accept (L, s)) = record_outcome h (moveSinceHold H s h) (settles H s h accept)
     (snd (verdict H s h accept (set_holds (AList.delete i (ll_held L)) L)))"
  by (simp add: resolve_def Let_def case_prod_unfold fst_verdict)

lemma resolve_effect [simp]:
  "ll_held (fst (resolve H i h a (L, s))) = AList.delete i (ll_held L)"
  "ll_open (fst (resolve H i h a (L, s))) = length (AList.delete i (ll_held L))"
  "ll_seq (fst (resolve H i h a (L, s))) = ll_seq L" "ll_fresh (fst (resolve H i h a (L, s))) = ll_fresh L"
  by (simp_all add: resolve_component set_holds_def)

lemma resolve_stats: "ll_stats (fst (resolve H i h a (L, s))) = AList.update (hd_makerAccount h)
    (bumped_stats (moveSinceHold H s h) (settles H s h a)
      (case map_of (ll_stats L) (hd_makerAccount h) of None \<Rightarrow> no_stats | Some st \<Rightarrow> st)) (ll_stats L)"
  by (simp add: resolve_component record_stats set_holds_def)

subsection \<open>The invariant\<close>

definition balanced :: "last_look_stats \<Rightarrow> bool" where
  "balanced st \<longleftrightarrow> st_held st = st_accepted st + st_rejected st \<and> st_adverse st + st_favourable st \<le> st_held st
     \<and> st_rejectedAdverse st \<le> st_adverse st \<and> st_rejectedFavourable st \<le> st_favourable st
     \<and> st_rejectedAdverse st + st_rejectedFavourable st \<le> st_rejected st"

lemma balanced_bumped: "balanced st \<Longrightarrow> balanced (bumped_stats m a st)"
  by (auto simp: balanced_def bumped_stats_def Let_def)

lemma balanced_none: "balanced no_stats"
  by (simp add: balanced_def no_stats_def)

lemma held_bumped [simp]: "st_held (bumped_stats m a st) = Suc (st_held st)"
  by (simp add: bumped_stats_def Let_def)

definition resolved_holds :: "last_look \<Rightarrow> nat" where
  "resolved_holds L = sum_list (map (st_held \<circ> snd) (ll_stats L))"

definition ll_inv :: "last_look \<Rightarrow> bool" where
  "ll_inv L \<longleftrightarrow> distinct (map fst (ll_held L)) \<and> (\<forall>k h. map_of (ll_held L) k = Some h \<longrightarrow> hd_id h = k \<and> k \<le> ll_seq L)
     \<and> ll_open L = length (ll_held L) \<and> distinct (map fst (ll_stats L))
     \<and> (\<forall>a st. map_of (ll_stats L) a = Some st \<longrightarrow> balanced st) \<and> ll_seq L = length (ll_held L) + resolved_holds L"

lemma ll_invD:
  assumes "ll_inv L"
  shows "distinct (map fst (ll_held L))" "\<forall>k h. map_of (ll_held L) k = Some h \<longrightarrow> hd_id h = k \<and> k \<le> ll_seq L"
  using assms unfolding ll_inv_def by blast+

lemma ll_inv_init: "ll_inv last_look_init"
  by (simp add: ll_inv_def last_look_init_def resolved_holds_def)

lemma ll_inv_resolve:
  assumes "ll_inv L" "map_of (ll_held L) i = Some h"
  shows "ll_inv (fst (resolve H i h a (L, s)))"
proof -
  let ?L = "fst (resolve H i h a (L, s))"
  let ?old = "case map_of (ll_stats L) (hd_makerAccount h) of None \<Rightarrow> no_stats | Some st \<Rightarrow> st"
  have len: "Suc (length (AList.delete i (ll_held L))) = length (ll_held L)"
    using assms by (intro length_delete_present) (simp_all add: ll_inv_def)
  have old: "balanced ?old" using assms(1) balanced_none by (auto simp: ll_inv_def split: option.split)
  have "resolved_holds ?L = Suc (resolved_holds L)"
    using sum_update [of "ll_stats L" st_held "hd_makerAccount h" "bumped_stats (moveSinceHold H s h) (settles H s h a) ?old"] assms(1)
    by (cases "map_of (ll_stats L) (hd_makerAccount h)")
      (simp_all add: ll_inv_def resolved_holds_def resolve_stats no_stats_def del: map_of_eq_Some_iff)
  moreover have "balanced st" if "map_of (ll_stats ?L) b = Some st" for b st
    using that assms(1) balanced_bumped [OF old] by (auto simp: ll_inv_def resolve_stats update_conv' split: if_splits)
  moreover have "hd_id h' = k \<and> k \<le> ll_seq ?L" if "map_of (ll_held ?L) k = Some h'" for k h'
    using that assms(1) by (auto simp: ll_inv_def delete_conv' split: if_splits)
  ultimately show ?thesis
    using assms(1) len unfolding ll_inv_def by (simp add: distinct_delete distinct_update resolve_stats)
qed

lemma ll_inv_resolve_if_open: "ll_inv L \<Longrightarrow> ll_inv (fst (resolve_if_open H a i (L, s)))"
  by (auto simp: resolve_if_open_def ll_inv_resolve split: option.split)

lemma fold_component:
  assumes "P L" "\<And>L s x. P L \<Longrightarrow> P (fst (f x (L, s)))"
  shows "P (fst (fold f xs (L, s)))"
  using assms(1)
proof (induction xs arbitrary: L s)
  case (Cons x xs)
  have "P (fst (f x (L, s)))" by (rule assms(2) [OF Cons.prems])
  then show ?case using Cons.IH [of "fst (f x (L, s))" "snd (f x (L, s))"] by simp
qed simp

lemma ll_inv_resolve_all: "ll_inv L \<Longrightarrow> ll_inv (fst (resolve_all H a due (L, s)))"
  unfolding resolve_all_def by (rule fold_component) (auto intro: ll_inv_resolve_if_open)

lemma ll_create_component:
  "fst (ll_create H maker fill taker now cum (L, s)) = set_holds (AList.update (Suc (ll_seq L))
      (new_hold (Suc (ll_seq L)) maker fill taker (now + lc_window (lh_lastLookConfig H s)) cum) (ll_held L))
      (L\<lparr>ll_seq := Suc (ll_seq L), ll_fresh := ll_fresh L @ [Suc (ll_seq L)]\<rparr>)"
  by (simp add: ll_create_def Let_def)

lemma ll_inv_create:
  assumes "ll_inv L"
  shows "ll_inv (fst (ll_create H maker fill taker now cum (L, s)))"
proof -
  let ?h = "new_hold (Suc (ll_seq L)) maker fill taker (now + lc_window (lh_lastLookConfig H s)) cum"
  have h: "hd_id ?h = Suc (ll_seq L)" by (simp add: new_hold_def)
  have known: "\<And>k h. map_of (ll_held L) k = Some h \<Longrightarrow> hd_id h = k \<and> k \<le> ll_seq L" using assms unfolding ll_inv_def by blast
  have "map_of (ll_held L) (Suc (ll_seq L)) = None"
    using known [of "Suc (ll_seq L)"] by (cases "map_of (ll_held L) (Suc (ll_seq L))") simp_all
  then have "length (AList.update (Suc (ll_seq L)) ?h (ll_held L)) = Suc (length (ll_held L))"
    by (simp add: length_update_new map_of_eq_None_iff)
  moreover have "hd_id h' = k \<and> k \<le> Suc (ll_seq L)"
    if "map_of (AList.update (Suc (ll_seq L)) ?h (ll_held L)) k = Some h'" for h' k
    using that known [of k] h by (cases "k = Suc (ll_seq L)") (simp_all add: update_conv' le_SucI del: map_of_eq_Some_iff)
  ultimately show ?thesis
    using assms unfolding ll_create_component ll_inv_def
    by (simp add: set_holds_def resolved_holds_def distinct_update del: map_of_eq_Some_iff)
qed

lemma ll_stamped:
  assumes "distinct (map fst t)" "\<forall>k h. map_of t k = Some h \<longrightarrow> hd_id h = k \<and> k \<le> n"
  shows "distinct (map fst (fold (stamp ref) is t)) \<and> length (fold (stamp ref) is t) = length t
    \<and> (\<forall>k h. map_of (fold (stamp ref) is t) k = Some h \<longrightarrow> hd_id h = k \<and> k \<le> n)"
  using assms
proof (induction "is" arbitrary: t)
  case (Cons i js)
  have "length (AList.update i w t) = length t" if "map_of t i \<noteq> None" for w
    using that update_keys [of i w t] map_of_eq_None_iff [of t i] by (metis length_map set_map)
  then have "distinct (map fst (stamp ref i t)) \<and> length (stamp ref i t) = length t
    \<and> (\<forall>k h. map_of (stamp ref i t) k = Some h \<longrightarrow> hd_id h = k \<and> k \<le> n)"
    using Cons.prems by (auto simp: stamp_def update_conv' distinct_update simp del: map_of_eq_Some_iff split: option.split if_splits)
  then show ?case using Cons.IH [of "stamp ref i t"] by simp
qed simp

lemma ll_inv_stampFresh:
  assumes "ll_inv L"
  shows "ll_inv (fst (stampFresh H (L, s)))"
proof (cases "ll_fresh L = []")
  case False
  let ?t = "fold (stamp (lh_referenceRaw H s)) (ll_fresh L) (ll_held L)"
  have "distinct (map fst ?t) \<and> length ?t = length (ll_held L) \<and> (\<forall>k h. map_of ?t k = Some h \<longrightarrow> hd_id h = k \<and> k \<le> ll_seq L)"
    by (rule ll_stamped [OF ll_invD [OF assms]])
  then show ?thesis using assms False unfolding ll_inv_def stampFresh_def resolved_holds_def Let_def by simp
qed (use assms in \<open>simp add: stampFresh_def\<close>)

lemma ll_inv_onDecision: "ll_inv L \<Longrightarrow> ll_inv (fst (onDecision H d (L, s)))"
  by (auto simp: onDecision_def ll_inv_resolve split: option.split)

lemma ll_inv_sweeps:
  assumes "ll_inv L"
  shows "ll_inv (fst (ll_expire H now (L, s)))" "ll_inv (fst (rejectFor H i (L, s)))"
    "ll_inv (fst (rejectForAccount H a (L, s)))" "ll_inv (fst (rejectAll H (L, s)))"
  using assms by (simp_all add: ll_expire_def rejectFor_def rejectForAccount_def rejectAll_def rejectAllOf_def ll_inv_resolve_all)

subsection \<open>Reachable components\<close>

text \<open>
  The engine calls the component with a host state it has itself changed in between, so a step may
  start from any host state.
\<close>

inductive ll_reach :: "'h last_look_host \<Rightarrow> last_look \<Rightarrow> bool" for H where
  reach_init: "ll_reach H last_look_init"
| reach_create: "ll_reach H L \<Longrightarrow> ll_reach H (fst (ll_create H maker fill taker now cum (L, s)))"
| reach_stamp: "ll_reach H L \<Longrightarrow> ll_reach H (fst (stampFresh H (L, s)))"
| reach_decision: "ll_reach H L \<Longrightarrow> ll_reach H (fst (onDecision H d (L, s)))"
| reach_expire: "ll_reach H L \<Longrightarrow> ll_reach H (fst (ll_expire H now (L, s)))"
| reach_rejectFor: "ll_reach H L \<Longrightarrow> ll_reach H (fst (rejectFor H i (L, s)))"
| reach_rejectForAccount: "ll_reach H L \<Longrightarrow> ll_reach H (fst (rejectForAccount H a (L, s)))"
| reach_rejectAll: "ll_reach H L \<Longrightarrow> ll_reach H (fst (rejectAll H (L, s)))"

lemma ll_reach_inv: "ll_reach H L \<Longrightarrow> ll_inv L"
  by (induction rule: ll_reach.induct)
    (simp_all add: ll_inv_init ll_inv_create ll_inv_stampFresh ll_inv_onDecision ll_inv_sweeps)

subsection \<open>Sweeps\<close>

lemma resolve_all_held:
  "ll_held (fst (fold (resolve_if_open H a) is (L, s))) = filter (\<lambda>(k, h). k \<notin> set is) (ll_held L)"
proof (induction "is" arbitrary: L s)
  case (Cons i js)
  let ?r = "resolve_if_open H a i (L, s)"
  have "ll_held (fst ?r) = filter (\<lambda>(k, h). k \<noteq> i) (ll_held L)"
  proof (cases "map_of (ll_held L) i")
    case None
    then have "i \<notin> fst ` set (ll_held L)" by (simp add: map_of_eq_None_iff)
    then have "filter (\<lambda>(k, h). k \<noteq> i) (ll_held L) = ll_held L" by (force simp: filter_id_conv)
    then show ?thesis using None by (simp add: resolve_if_open_def)
  next
    case (Some h)
    have "AList.delete i (ll_held L) = filter (\<lambda>(k, h). k \<noteq> i) (ll_held L)"
      unfolding AList.delete_eq by (rule filter_cong) auto
    then show ?thesis using Some by (simp add: resolve_if_open_def)
  qed
  then show ?case using Cons.IH [of "fst ?r" "snd ?r"] by (auto simp: case_prod_unfold intro!: filter_cong)
qed (simp add: case_prod_unfold)

lemma swept_holds:
  assumes "ll_inv L"
  shows "ll_held (fst (resolve_all H a (due_holds p (ll_held L)) (L, s))) = filter (\<lambda>(k, h). \<not> p h) (ll_held L)"
proof -
  have d: "distinct (map fst (ll_held L))" using assms by (simp add: ll_inv_def)
  have "k \<notin> set (due_holds p (ll_held L)) \<longleftrightarrow> \<not> p h" if "(k, h) \<in> set (ll_held L)" for k h
    using that d by (force simp: due_holds_def dest: eq_key_imp_eq_value)
  then show ?thesis unfolding resolve_all_def resolve_all_held by (auto intro!: filter_cong)
qed

lemma sweeps_held:
  assumes "ll_inv L"
  shows "ll_held (fst (ll_expire H now (L, s))) = filter (\<lambda>(k, h). now < hd_deadline h) (ll_held L)"
    "ll_held (fst (rejectFor H i (L, s))) = filter (\<lambda>(k, h). \<not> hold_names i h) (ll_held L)"
    "ll_held (fst (rejectForAccount H a (L, s))) = filter (\<lambda>(k, h). hd_makerAccount h \<noteq> a \<and> hd_takerAccount h \<noteq> a) (ll_held L)"
    "ll_held (fst (rejectAll H (L, s))) = []"
  using swept_holds [OF assms, of H]
  by (simp_all add: ll_expire_def rejectFor_def rejectForAccount_def rejectAll_def rejectAllOf_def not_le case_prod_unfold)

lemma not_referenced: "\<not> referencesOrder (filter (\<lambda>(k, h). \<not> hold_names i h) t) i"
  by (auto simp: referencesOrder_def list_ex_iff)

subsection \<open>The checkpoint section\<close>

lemma held_of_hold_record [simp]: "held_of_record (hold_record tracked k h) = h"
  by (simp add: held_of_record_def hold_record_def)

interpretation hld: snapshot_section "\<lambda>k h. [hold_record tracked k h]" applyRestoreHeld "hold_hash tracked"
  "\<lambda>k h. hd_id h = k \<and> 0 < hd_qty h" "\<lambda>_. True" for tracked
proof unfold_locales
  fix k :: nat and h :: held and t :: holds
  assume "hd_id h = k \<and> 0 < hd_qty h" "map_of t k = None"
  then show "map_of (fold applyRestoreHeld [hold_record tracked k h] t) = (map_of t)(k \<mapsto> h)"
    by (simp add: applyRestoreHeld_def insertRestored_def update_conv') (simp add: hold_record_def)
next
  fix t :: holds and r
  assume "distinct (map fst t)"
  then show "distinct (map fst (applyRestoreHeld r t))" by (simp add: applyRestoreHeld_def insertRestored_def distinct_update)
qed simp

subsection \<open>The properties\<close>

text \<open>
  C30. Every fill held under last look is decided exactly once. In every state the component can
  reach, from whatever venue calls it, the number of holds ever opened is the number still open
  plus the number the conduct statistics count as resolved; the gauge read by other threads is the
  size of the table; and each maker's row balances: accepted and rejected add up to held, the moves
  against and for the maker are among them, and the refusals of each kind among those.
\<close>

theorem holds_decided_once:
  assumes "ll_reach H L"
  shows "ll_seq L = length (ll_held L) + sum_list (map (st_held \<circ> snd) (ll_stats L)) \<and> ll_open L = length (ll_held L)
    \<and> distinct (map fst (ll_held L)) \<and> (\<forall>a st. map_of (ll_stats L) a = Some st \<longrightarrow>
      st_held st = st_accepted st + st_rejected st \<and> st_adverse st + st_favourable st \<le> st_held st
      \<and> st_rejectedAdverse st \<le> st_adverse st \<and> st_rejectedFavourable st \<le> st_favourable st
      \<and> st_rejectedAdverse st + st_rejectedFavourable st \<le> st_rejected st)"
  using ll_reach_inv [OF assms] unfolding ll_inv_def resolved_holds_def balanced_def by blast

definition quiet_host :: "unit last_look_host" where
  "quiet_host = \<lparr>lh_findResting = (\<lambda>_ _. None), lh_takeResting = (\<lambda>_ s. (None, s)), lh_reinsertTail = (\<lambda>_ _ s. (True, s)),
     lh_publish = (\<lambda>_ s. s), lh_publishTracked = (\<lambda>_ _ s. s),
     lh_lastLookConfig = (\<lambda>_. \<lparr>lc_symbol = 1, lc_window = 50, lc_toleranceRaw = 0, lc_acceptOnTimeout = True\<rparr>),
     lh_referenceRaw = (\<lambda>_. 0), lh_holdStillAllowed = (\<lambda>_ _. True), lh_nextTradeSeq = (\<lambda>s. (1, s)),
     lh_releaseHeldLeg = (\<lambda>_ _ s. s), lh_cleanupOrderIfDone = (\<lambda>_ _ s. s), lh_rememberStp = (\<lambda>_ _ s. s),
     lh_adoptRestingTaker = (\<lambda>_ s. s)\<rparr>"

definition quoted :: resting_order where
  "quoted = (rebuilt 1 7 100 10 SELL)\<lparr>ro_lastLook := True\<rparr>"

definition hitter :: new_order where
  "hitter = \<lparr>no_id = 2, no_symbol = 1, no_side = BUY, no_type = LIMIT, no_price = 100, no_quantity = 4, no_tif = IOC,
     no_postOnly = False, no_stp = StpNone, no_accountId = 8, no_clientOrderId = 0, no_visibleQuantity = 0, no_triggerPrice = 0,
     no_trailingOffset = 0, no_lastLook = False, no_reduceOnly = False, no_expiryNs = 0, no_ocoGroup = 0, no_peg = PegNone,
     no_pegOffsetRaw = 0\<rparr>"

definition one_open :: last_look where
  "one_open = fst (ll_create quiet_host quoted 4 hitter 10 0 (last_look_init, ()))"

lemma one_open_reach: "ll_reach quiet_host one_open"
  unfolding one_open_def by (rule reach_create [OF reach_init])

theorem holds_decided_once_witness:
  "ll_seq (fst (ll_expire quiet_host 60 (one_open, ()))) = 1 \<and> ll_open (fst (ll_expire quiet_host 60 (one_open, ()))) = 0"
proof -
  have "ll_reach quiet_host (fst (ll_expire quiet_host 60 (one_open, ())))" by (rule reach_expire [OF one_open_reach])
  moreover have "ll_held (fst (ll_expire quiet_host 60 (one_open, ()))) = []" by code_simp
  moreover have "sum_list (map (st_held \<circ> snd) (ll_stats (fst (ll_expire quiet_host 60 (one_open, ()))))) = 1" by code_simp
  ultimately show ?thesis using holds_decided_once [of quiet_host "fst (ll_expire quiet_host 60 (one_open, ()))"] by simp
qed

text \<open>
  C32. The sweeps resolve exactly the holds they are for, and leave the others as they were: a clock
  tick those whose deadline has come, a cancel those that name the order on either leg (after which
  no open hold refers to it, so its reservation can be dissolved), a mass cancel those of the
  account, and a shutdown all of them. In particular no hold outlives its window.
\<close>

theorem hold_sweeps_exact:
  assumes "ll_reach H L"
  shows "ll_held (fst (ll_expire H now (L, s))) = filter (\<lambda>(k, h). now < hd_deadline h) (ll_held L)
    \<and> ll_held (fst (rejectFor H i (L, s))) = filter (\<lambda>(k, h). \<not> hold_names i h) (ll_held L)
    \<and> \<not> referencesOrder (ll_held (fst (rejectFor H i (L, s)))) i
    \<and> ll_held (fst (rejectForAccount H a (L, s))) = filter (\<lambda>(k, h). hd_makerAccount h \<noteq> a \<and> hd_takerAccount h \<noteq> a) (ll_held L)
    \<and> ll_held (fst (rejectAll H (L, s))) = []"
  by (simp add: sweeps_held [OF ll_reach_inv [OF assms]] not_referenced)

theorem hold_sweeps_exact_witness:
  "ll_held (fst (ll_expire quiet_host 59 (one_open, ()))) = ll_held one_open \<and> ll_held (fst (ll_expire quiet_host 60 (one_open, ()))) = []"
  using hold_sweeps_exact [OF one_open_reach, of 59 "()" 0 0] hold_sweeps_exact [OF one_open_reach, of 60 "()" 0 0]
  by (simp add: one_open_def ll_create_component quiet_host_def last_look_init_def set_holds_def new_hold_def)

text \<open>
  The open holds survive a checkpoint: replaying the records the component writes, from an
  empty table, restores every hold with every field, and the restored table has the digest of the
  one that was written, whatever the layout of either.
\<close>

theorem holds_snapshot_restores:
  assumes "ll_reach H L" "\<forall>k h. map_of (ll_held L) k = Some h \<longrightarrow> 0 < hd_qty h"
  shows "map_of (fold applyRestoreHeld (holds_writeSnapshot tracked (ll_held L)) []) = map_of (ll_held L)
    \<and> holds_hashInto tracked (fold applyRestoreHeld (holds_writeSnapshot tracked (ll_held L)) []) = holds_hashInto tracked (ll_held L)"
proof -
  have "hld.legal_table (ll_held L)"
    using ll_invD [OF ll_reach_inv [OF assms(1)]] assms(2) by (simp add: hld.legal_table_def del: map_of_eq_Some_iff)
  then show ?thesis
    using hld.restored_exact [of "ll_held L" tracked] hld.restored_digest [of "ll_held L" tracked]
    by (simp add: holds_writeSnapshot_def holds_hashInto_def fun_eq_iff)
qed

theorem holds_snapshot_restores_witness:
  "map_of (fold applyRestoreHeld (holds_writeSnapshot (\<lambda>_. True) (ll_held one_open)) []) = map_of (ll_held one_open)"
  using holds_snapshot_restores [OF one_open_reach, of "\<lambda>_. True"]
  by (simp add: one_open_def ll_create_component last_look_init_def set_holds_def new_hold_def)

end
