(* ===== verification/LastLookBook.thy ===== *)
theory LastLookBook
  imports LastLookProps LadderProps
begin

section \<open>Last look: what a resolution does to the book\<close>

text \<open>
  The engine's side of the seam (\<^verbatim>\<open>engine/last_look.inl\<close>, \<^verbatim>\<open>restOnBook\<close> of \<^verbatim>\<open>engine/validate.inl\<close>,
  the \<^verbatim>\<open>emit_\<close> wrapper of \<^verbatim>\<open>engine/dispatch.inl\<close>) over any book, and the contract it keeps as the
  locale \<open>hold_host\<close>. What the engine does to its accounts (reservations, positions, tracking,
  settlement with its fees) is the argument \<open>A :: 'x account_ops\<close>: it acts on its own state \<open>'x\<close>.
\<close>

subsection \<open>The engine as a host\<close>

record 'x account_ops =
  ao_allowed :: "'x \<Rightarrow> held \<Rightarrow> bool"
  ao_observe :: "holds \<Rightarrow> outbound_event \<Rightarrow> 'x \<Rightarrow> fee_charged list \<times> 'x"
  ao_release :: "nat \<Rightarrow> int \<Rightarrow> 'x \<Rightarrow> 'x"
  ao_cleanup :: "bool \<Rightarrow> holds \<Rightarrow> nat \<Rightarrow> 'x \<Rightarrow> 'x"
  ao_rememberStp :: "nat \<Rightarrow> stp_mode \<Rightarrow> 'x \<Rightarrow> 'x"
  ao_adopt :: "held \<Rightarrow> 'x \<Rightarrow> 'x"

record ('b, 'x) venue =
  ve_book :: 'b
  ve_sent :: "outbound_event list"
  ve_last :: "int option"
  ve_tradeSeq :: nat
  ve_accounts :: 'x

definition restOnBook :: "'b book_ops \<Rightarrow> side \<Rightarrow> resting_order \<Rightarrow> 'b \<Rightarrow> reject_reason \<times> 'b" where
  "restOnBook B sd ro b =
    (if \<not> bk_canRest B b (ro_price ro) then (InvalidPrice, b)
     else if bk_full B b then (BookCapacityExceeded, b)
     else let (ans, b) = bk_addResting B b sd ro
          in (case ans of Accepted \<Rightarrow> RejNone | PriceOutOfBand \<Rightarrow> InvalidPrice | PoolExhausted \<Rightarrow> BookCapacityExceeded, b))"

definition referenceRaw :: "'b book_ops \<Rightarrow> ('b, 'x) venue \<Rightarrow> int" where
  "referenceRaw B s = (case (bk_bestBid B (ve_book s), bk_bestAsk B (ve_book s)) of
      (Some bb, Some ba) \<Rightarrow> (bb + ba) sdiv 2
    | _ \<Rightarrow> (case ve_last s of None \<Rightarrow> 0 | Some p \<Rightarrow> p))"

text \<open>\<^verbatim>\<open>emit_\<close>: a trade moves the last price; the event goes out, then what its settlement charges.\<close>

definition emit_wrapped :: "'x account_ops \<Rightarrow> holds \<Rightarrow> outbound_event \<Rightarrow> ('b, 'x) venue \<Rightarrow> ('b, 'x) venue" where
  "emit_wrapped A t ev s =
    (let (fees, x) = ao_observe A t ev (ve_accounts s)
     in s\<lparr>ve_last := (case ev of EvTrade tr \<Rightarrow> Some (tr_price tr) | _ \<Rightarrow> ve_last s),
          ve_sent := ve_sent s @ ev # map EvFeeCharged fees, ve_accounts := x\<rparr>)"

definition venue_host :: "'b book_ops \<Rightarrow> last_look_config \<Rightarrow> 'x account_ops \<Rightarrow> ('b, 'x) venue last_look_host" where
  "venue_host B cfg A = \<lparr>
     lh_findResting = (\<lambda>s i. bk_find B (ve_book s) i),
     lh_takeResting = (\<lambda>i s. let (r, b) = bk_cancel B (ve_book s) i in (r, s\<lparr>ve_book := b\<rparr>)),
     lh_reinsertTail = (\<lambda>sd r s. let (why, b) = restOnBook B sd r (ve_book s) in (why = RejNone, s\<lparr>ve_book := b\<rparr>)),
     lh_publish = (\<lambda>ev s. s\<lparr>ve_sent := ve_sent s @ [ev]\<rparr>),
     lh_publishTracked = emit_wrapped A,
     lh_lastLookConfig = (\<lambda>s. cfg),
     lh_referenceRaw = referenceRaw B,
     lh_holdStillAllowed = (\<lambda>s h. ao_allowed A (ve_accounts s) h),
     lh_nextTradeSeq = (\<lambda>s. (Suc (ve_tradeSeq s), s\<lparr>ve_tradeSeq := Suc (ve_tradeSeq s)\<rparr>)),
     lh_releaseHeldLeg = (\<lambda>i q s. s\<lparr>ve_accounts := ao_release A i q (ve_accounts s)\<rparr>),
     lh_cleanupOrderIfDone = (\<lambda>t i s. s\<lparr>ve_accounts := ao_cleanup A (bk_contains B (ve_book s) i) t i (ve_accounts s)\<rparr>),
     lh_rememberStp = (\<lambda>i m s. s\<lparr>ve_accounts := ao_rememberStp A i m (ve_accounts s)\<rparr>),
     lh_adoptRestingTaker = (\<lambda>h s. s\<lparr>ve_accounts := ao_adopt A h (ve_accounts s)\<rparr>)\<rparr>"

subsection \<open>The contract of a host\<close>

definition is_fee :: "outbound_event \<Rightarrow> bool" where
  "is_fee ev \<longleftrightarrow> (case ev of EvFeeCharged f \<Rightarrow> True | _ \<Rightarrow> False)"

definition resting_in :: "(side \<Rightarrow> resting_order list) \<Rightarrow> nat \<Rightarrow> resting_order option" where
  "resting_in ob i = spec_find i (ob BUY @ ob SELL)"

definition requeue :: "resting_order \<Rightarrow> (side \<Rightarrow> resting_order list) \<Rightarrow> side \<Rightarrow> resting_order list" where
  "requeue r ob sd = (if sd = ro_side r then spec_insert sd r (spec_remove (ro_id r) (ob sd)) else spec_remove (ro_id r) (ob sd))"

locale hold_host =
  fixes H :: "'h last_look_host"
    and ok :: "'h \<Rightarrow> bool"
    and book :: "'h \<Rightarrow> side \<Rightarrow> resting_order list"
    and sent :: "'h \<Rightarrow> outbound_event list"
    and grid :: "int \<Rightarrow> bool"
  assumes host_book: "ok s \<Longrightarrow> book_ok (book s)"
    and host_find: "ok s \<Longrightarrow> lh_findResting H s i = resting_in (book s) i"
    and host_take: "ok s \<Longrightarrow> lh_takeResting H i s = (ans, s') \<Longrightarrow>
      ok s' \<and> ans = resting_in (book s) i \<and> book s' = (\<lambda>sd. spec_remove i (book s sd)) \<and> sent s' = sent s"
    and host_reinsert: "ok s \<Longrightarrow> wf_order r \<Longrightarrow> grid (ro_price r) \<Longrightarrow> resting_in (book s) (ro_id r) = None \<Longrightarrow>
      lh_reinsertTail H (ro_side r) r s = (okay, s') \<Longrightarrow>
      ok s' \<and> book s' = (if okay then requeue r (book s) else book s) \<and> sent s' = sent s"
    and host_publish: "ok s \<Longrightarrow> ok (lh_publish H ev s) \<and> book (lh_publish H ev s) = book s \<and> sent (lh_publish H ev s) = sent s @ [ev]"
    and host_emit: "ok s \<Longrightarrow> ok (lh_publishTracked H t ev s) \<and> book (lh_publishTracked H t ev s) = book s
      \<and> (\<exists>fs. sent (lh_publishTracked H t ev s) = sent s @ ev # fs \<and> list_all is_fee fs)"
    and host_trade: "ok s \<Longrightarrow> lh_nextTradeSeq H s = (n, s') \<Longrightarrow> ok s' \<and> book s' = book s \<and> sent s' = sent s"
    and host_release: "ok s \<Longrightarrow> ok (lh_releaseHeldLeg H i q s) \<and> book (lh_releaseHeldLeg H i q s) = book s \<and> sent (lh_releaseHeldLeg H i q s) = sent s"
    and host_cleanup: "ok s \<Longrightarrow> ok (lh_cleanupOrderIfDone H t i s) \<and> book (lh_cleanupOrderIfDone H t i s) = book s
      \<and> sent (lh_cleanupOrderIfDone H t i s) = sent s"
    and host_adopt: "ok s \<Longrightarrow> ok (lh_adoptRestingTaker H h s) \<and> book (lh_adoptRestingTaker H h s) = book s \<and> sent (lh_adoptRestingTaker H h s) = sent s"

subsection \<open>The engine keeps it\<close>

lemma absent_remove:
  assumes "resting_in ob i = None"
  shows "spec_remove i (ob sd) = ob sd"
  using assms by (cases sd) (auto simp: resting_in_def spec_find_None intro!: spec_remove_absent)

sublocale resting_book \<subseteq> venue: hold_host "venue_host B cfg A" "\<lambda>s. inv (ve_book s)" "\<lambda>s. orders (ve_book s)" ve_sent grid
  for cfg :: last_look_config and A :: "'x account_ops"
proof
  fix s :: "('b, 'x) venue" and i
  assume ok: "inv (ve_book s)"
  show "book_ok (orders (ve_book s))" by (rule inv_ok [OF ok])
  show "lh_findResting (venue_host B cfg A) s i = resting_in (orders (ve_book s)) i"
    using found [OF ok] by (simp add: venue_host_def resting_in_def)
next
  fix s s' :: "('b, 'x) venue" and i r
  assume "inv (ve_book s)" "lh_takeResting (venue_host B cfg A) i s = (r, s')"
  then show "inv (ve_book s') \<and> r = resting_in (orders (ve_book s)) i
      \<and> orders (ve_book s') = (\<lambda>sd. spec_remove i (orders (ve_book s) sd)) \<and> ve_sent s' = ve_sent s"
    using canceled [of "ve_book s" i] by (auto simp: venue_host_def resting_in_def case_prod_unfold Let_def)
next
  fix s s' :: "('b, 'x) venue" and r okay
  assume ok: "inv (ve_book s)" and r: "wf_order r" "grid (ro_price r)"
    and new: "resting_in (orders (ve_book s)) (ro_id r) = None"
    and run: "lh_reinsertTail (venue_host B cfg A) (ro_side r) r s = (okay, s')"
  have c: "\<not> bk_contains B (ve_book s) (ro_id r)"
    using new contains [OF ok] by (auto simp: resting_in_def spec_find_None)
  obtain ans b where a: "bk_addResting B (ve_book s) (ro_side r) r = (ans, b)" by (cases "bk_addResting B (ve_book s) (ro_side r) r")
  have "inv b \<and> orders b = (if ans = Accepted then requeue r (orders (ve_book s)) else orders (ve_book s))"
    using added [OF ok r(1) _ r(2) c a] absent_remove [OF new]
    by (auto simp: requeue_def intro!: fun_by_sides [of _ "ro_side r"])
  then show "inv (ve_book s') \<and> orders (ve_book s') = (if okay then requeue r (orders (ve_book s)) else orders (ve_book s))
      \<and> ve_sent s' = ve_sent s"
    using run ok a by (auto simp: venue_host_def restOnBook_def Let_def split: if_splits book_add_result.splits)
qed (auto simp: venue_host_def emit_wrapped_def case_prod_unfold Let_def is_fee_def list_all_iff)

subsection \<open>Requeueing\<close>

lemma resting_in_iff:
  assumes "book_ok ob"
  shows "resting_in ob i = Some r \<longleftrightarrow> r \<in> set (ob BUY) \<union> set (ob SELL) \<and> ro_id r = i"
  using assms by (simp add: resting_in_def spec_find_Some book_ok_def)

lemma resting_in_id: "resting_in ob i = Some r \<Longrightarrow> ro_id r = i"
  by (auto simp: resting_in_def spec_find_def find_Some_iff)

lemma set_requeue: "set (requeue r ob BUY) \<union> set (requeue r ob SELL)
    = insert r {x \<in> set (ob BUY) \<union> set (ob SELL). ro_id x \<noteq> ro_id r}"
  by (cases "ro_side r") (auto simp: requeue_def)

lemma resting_in_requeue:
  assumes "book_ok ob" "book_ok (requeue r ob)"
  shows "resting_in (requeue r ob) i = (if i = ro_id r then Some r else resting_in ob i)"
proof (cases "i = ro_id r")
  case True
  then show ?thesis using resting_in_iff [OF assms(2), of i r] by (simp add: set_requeue)
next
  case False
  have "resting_in (requeue r ob) i = Some x \<longleftrightarrow> resting_in ob i = Some x" for x
    unfolding resting_in_iff [OF assms(1)] resting_in_iff [OF assms(2)] set_requeue using False by auto
  then show ?thesis using False by (metis not_None_eq)
qed

lemma requeue_after_remove: "requeue r (\<lambda>sd. spec_remove (ro_id r) (ob sd)) = requeue r ob"
  by (auto simp: requeue_def spec_remove_def fun_eq_iff)

lemma resting_in_remove: "resting_in (\<lambda>sd. spec_remove i (ob sd)) i = None"
  by (auto simp: resting_in_def spec_find_None)

subsection \<open>Outcomes on the book\<close>

definition maker_back :: "held \<Rightarrow> resting_order option \<Rightarrow> resting_order" where
  "maker_back h m = (case m of Some ro \<Rightarrow> ro\<lparr>ro_leaves := dec_add (ro_leaves ro) (hd_qty h), ro_cumQty := dec_sub (ro_cumQty ro) (hd_qty h)\<rparr>
     | None \<Rightarrow> rebuilt_maker h)"

definition taker_back :: "held \<Rightarrow> resting_order option \<Rightarrow> resting_order" where
  "taker_back h m = (case m of Some ro \<Rightarrow> ro\<lparr>ro_leaves := dec_add (ro_leaves ro) (hd_qty h)\<rparr> | None \<Rightarrow> rebuilt_taker h)"

definition maker_event :: "held \<Rightarrow> nat \<Rightarrow> bool \<Rightarrow> resting_order \<Rightarrow> outbound_event" where
  "maker_event h symbol okay r = (if okay
     then requeued_event (hd_maker h) symbol (ro_price r) (ro_leaves r) (hd_makerAccount h) (ro_clientOrderId r) (ro_cumQty r)
     else refused_event (hd_maker h) symbol BookRefused (hd_makerAccount h) (ro_clientOrderId r) (ro_leaves r) (ro_cumQty r))"

definition taker_event :: "held \<Rightarrow> nat \<Rightarrow> bool \<Rightarrow> bool \<Rightarrow> resting_order \<Rightarrow> outbound_event" where
  "taker_event h symbol okay rested r = (if \<not> okay
     then refused_event (hd_taker h) symbol BookRefused (hd_takerAccount h) (ro_clientOrderId r) (ro_leaves r) (ro_cumQty r)
     else if rested then requeued_event (hd_taker h) symbol (ro_price r) (ro_leaves r) (hd_takerAccount h) (ro_clientOrderId r) (ro_cumQty r)
     else EvAccepted \<lparr>oa_id = hd_taker h, oa_symbol = symbol, oa_side = ro_side r, oa_price = ro_price r,
       oa_leavesQty = ro_leaves r, oa_restingOnBook = True, oa_displayQty = ro_leaves r, oa_account = hd_takerAccount h,
       oa_clientOrderId = ro_clientOrderId r, oa_cumQty = ro_cumQty r\<rparr>)"

definition residual_event :: "held \<Rightarrow> nat \<Rightarrow> outbound_event" where
  "residual_event h symbol = refused_event (hd_taker h) symbol (residual_reason h) (hd_takerAccount h) (hd_takerClientOrderId h)
     (hd_qty h) (hd_takerCumQtyAtHold h)"

lemma rebuilt_fields [simp]:
  "ro_id (rebuilt_maker h) = hd_maker h" "ro_price (rebuilt_maker h) = hd_price h" "ro_leaves (rebuilt_maker h) = hd_qty h"
  "ro_clientOrderId (rebuilt_maker h) = hd_makerClientOrderId h" "ro_cumQty (rebuilt_maker h) = hd_makerCumQtyAtHold h"
  "ro_id (rebuilt_taker h) = hd_taker h" "ro_price (rebuilt_taker h) = hd_takerPrice h" "ro_leaves (rebuilt_taker h) = hd_qty h"
  "ro_side (rebuilt_taker h) = hd_takerSide h" "ro_clientOrderId (rebuilt_taker h) = hd_takerClientOrderId h"
  "ro_cumQty (rebuilt_taker h) = hd_takerCumQtyAtHold h" "ro_side (rebuilt_maker h) = opposite (hd_takerSide h)"
  by (cases "hd_takerSide h"; simp add: rebuilt_maker_def rebuilt_taker_def rebuilt_def)+

lemma back_id:
  "ro_id (maker_back h (resting_in ob (hd_maker h))) = hd_maker h" "ro_id (taker_back h (resting_in ob (hd_taker h))) = hd_taker h"
  by (auto simp: maker_back_def taker_back_def split: option.split dest: resting_in_id)

text \<open>The legs of a rejected hold, both of them taken back.\<close>

definition restored_book :: "held \<Rightarrow> (side \<Rightarrow> resting_order list) \<Rightarrow> side \<Rightarrow> resting_order list" where
  "restored_book h ob = (let ob1 = requeue (maker_back h (resting_in ob (hd_maker h))) ob
     in if taker_rests h then requeue (taker_back h (resting_in ob (hd_taker h))) ob1 else ob1)"

definition restored_events :: "held \<Rightarrow> nat \<Rightarrow> (side \<Rightarrow> resting_order list) \<Rightarrow> outbound_event list" where
  "restored_events h symbol ob =
    [maker_event h symbol True (maker_back h (resting_in ob (hd_maker h))),
     if taker_rests h then taker_event h symbol True (resting_in ob (hd_taker h) \<noteq> None) (taker_back h (resting_in ob (hd_taker h)))
     else residual_event h symbol,
     EvFillRejected \<lparr>fr_heldId = hd_id h, fr_symbol = symbol, fr_takerId = hd_taker h, fr_makerId = hd_maker h,
       fr_price = hd_price h, fr_qty = hd_qty h, fr_takerAccount = hd_takerAccount h, fr_makerAccount = hd_makerAccount h,
       fr_clientOrderId = hd_takerClientOrderId h, fr_cumQty = hd_takerCumQtyAtHold h\<rparr>]"

text \<open>The two legs can rest again: the restored orders are well-formed and at prices of the grid.\<close>

definition legs_restorable :: "(int \<Rightarrow> bool) \<Rightarrow> held \<Rightarrow> (side \<Rightarrow> resting_order list) \<Rightarrow> bool" where
  "legs_restorable grid h ob \<longleftrightarrow> hd_maker h \<noteq> hd_taker h
     \<and> wf_order (maker_back h (resting_in ob (hd_maker h))) \<and> grid (ro_price (maker_back h (resting_in ob (hd_maker h))))
     \<and> (taker_rests h \<longrightarrow> wf_order (taker_back h (resting_in ob (hd_taker h))) \<and> grid (ro_price (taker_back h (resting_in ob (hd_taker h)))))"

definition settled_events :: "held \<Rightarrow> nat \<Rightarrow> nat \<Rightarrow> holds \<Rightarrow> (side \<Rightarrow> resting_order list) \<Rightarrow> outbound_event list" where
  "settled_events h symbol tradeId t ob =
    (let mk = resting_in ob (hd_maker h); tk = resting_in ob (hd_taker h);
         takerLeaves = resting_raw tk + heldQtyFor t (hd_taker h)
     in [EvTrade \<lparr>tr_tradeId = tradeId, tr_symbol = symbol, tr_price = hd_price h, tr_quantity = hd_qty h, tr_makerId = hd_maker h,
           tr_takerId = hd_taker h, tr_takerSide = hd_takerSide h, tr_makerAccount = hd_makerAccount h, tr_takerAccount = hd_takerAccount h\<rparr>,
         EvExecuted \<lparr>ex_id = hd_maker h, ex_symbol = symbol, ex_lastQty = hd_qty h, ex_leavesQty = resting_raw mk, ex_aggressor = False,
           ex_complete = (resting_raw mk = 0), ex_lastPx = hd_price h, ex_displayLeaves = displayed_raw mk, ex_account = hd_makerAccount h,
           ex_clientOrderId = hd_makerClientOrderId h,
           ex_cumQty = (case mk of Some r \<Rightarrow> ro_cumQty r | None \<Rightarrow> dec_add (hd_makerCumQtyAtHold h) (hd_qty h))\<rparr>,
         EvExecuted \<lparr>ex_id = hd_taker h, ex_symbol = symbol, ex_lastQty = hd_qty h, ex_leavesQty = takerLeaves, ex_aggressor = True,
           ex_complete = (takerLeaves = 0), ex_lastPx = hd_price h, ex_displayLeaves = displayed_raw tk, ex_account = hd_takerAccount h,
           ex_clientOrderId = hd_takerClientOrderId h,
           ex_cumQty = dec_add (dec_add (hd_takerCumQtyAtHold h) (hd_qty h)) (case tk of Some r \<Rightarrow> ro_cumQty r | None \<Rightarrow> 0)\<rparr>])"

text \<open>A maker that still rests and whose running total counts the held quantity gets exactly it back.\<close>

lemma maker_back_resting:
  assumes "wf_order r" "0 < hd_qty h" "hd_qty h \<le> ro_cumQty r"
  shows "wf_order (maker_back h (Some r))" "total_qty (maker_back h (Some r)) = total_qty r + hd_qty h"
proof -
  have "dec_add (ro_leaves r) (hd_qty h) = ro_leaves r + hd_qty h" "dec_sub (ro_cumQty r) (hd_qty h) = ro_cumQty r - hd_qty h"
    using assms by (auto simp: wf_order_def intro!: dec_add_nonneg dec_sub_nonneg)
  then show *: "wf_order (maker_back h (Some r))" using assms by (auto simp: maker_back_def wf_order_def)
  show "total_qty (maker_back h (Some r)) = total_qty r + hd_qty h"
    unfolding total_qty_exact [OF *] total_qty_exact [OF assms(1)]
    using \<open>dec_add (ro_leaves r) (hd_qty h) = _\<close> by (simp add: maker_back_def)
qed

context hold_host
begin

lemma requeue_taken:
  assumes "ok s" "lh_takeResting H i s = (ans, s1)" "ro_id r = i" "wf_order r" "grid (ro_price r)"
    "lh_reinsertTail H (ro_side r) r s1 = (okay, s2)"
  shows "ok s2 \<and> sent s2 = sent s \<and> book s2 = (if okay then requeue r (book s) else (\<lambda>sd. spec_remove i (book s sd)))"
proof -
  have t: "ok s1" "book s1 = (\<lambda>sd. spec_remove i (book s sd))" "sent s1 = sent s" using host_take [OF assms(1,2)] by simp_all
  have "resting_in (book s1) (ro_id r) = None" using t(2) assms(3) by (simp add: resting_in_remove)
  from host_reinsert [OF t(1) assms(4,5) this assms(6)] show ?thesis
    using t requeue_after_remove [of r "book s"] assms(3) by simp
qed

lemma restoreMaker_effect:
  assumes "ok s" and r: "r = maker_back h (resting_in (book s) (hd_maker h))" "wf_order r" "grid (ro_price r)"
  shows "\<exists>okay s1. okay = fst (lh_reinsertTail H (ro_side r) r s1) \<and> ok (restoreMaker H h symbol s)
    \<and> sent (restoreMaker H h symbol s) = sent s @ [maker_event h symbol okay r]
    \<and> book (restoreMaker H h symbol s) = (if okay then requeue r (book s) else (\<lambda>sd. spec_remove (hd_maker h) (book s sd)))"
proof -
  obtain ans s1 where t: "lh_takeResting H (hd_maker h) s = (ans, s1)" by (cases "lh_takeResting H (hd_maker h) s")
  obtain okay s2 where p: "lh_reinsertTail H (ro_side r) r s1 = (okay, s2)" by (cases "lh_reinsertTail H (ro_side r) r s1")
  have ans: "ans = resting_in (book s) (hd_maker h)" using host_take [OF assms(1) t] by simp
  have i: "ro_id r = hd_maker h" using r(1) back_id by simp
  note s2 = requeue_taken [OF assms(1) t i r(2,3) p]
  then have rel: "ok (lh_releaseHeldLeg H j q s2)" "book (lh_releaseHeldLeg H j q s2) = book s2" "sent (lh_releaseHeldLeg H j q s2) = sent s" for j q
    using host_release by simp_all
  have "restoreMaker H h symbol s = lh_publish H (maker_event h symbol okay r)
      (if okay then s2 else lh_releaseHeldLeg H (hd_maker h) (hd_qty h) s2)"
    using p t unfolding restoreMaker_def r(1) ans by (cases "resting_in (book s) (hd_maker h)") (auto simp: maker_back_def maker_event_def Let_def)
  then show ?thesis using s2 rel host_publish p by (intro exI [of _ okay] exI [of _ s1]) auto
qed

lemma restoreTaker_effect:
  assumes "ok s" "taker_rests h" and r: "r = taker_back h (resting_in (book s) (hd_taker h))" "wf_order r" "grid (ro_price r)"
  shows "\<exists>okay s1. okay = fst (lh_reinsertTail H (ro_side r) r s1) \<and> ok (restoreTaker H h symbol s)
    \<and> sent (restoreTaker H h symbol s) = sent s @ [taker_event h symbol okay (resting_in (book s) (hd_taker h) \<noteq> None) r]
    \<and> book (restoreTaker H h symbol s) = (if okay then requeue r (book s) else (\<lambda>sd. spec_remove (hd_taker h) (book s sd)))"
proof -
  obtain ans s1 where t: "lh_takeResting H (hd_taker h) s = (ans, s1)" by (cases "lh_takeResting H (hd_taker h) s")
  obtain okay s2 where p: "lh_reinsertTail H (ro_side r) r s1 = (okay, s2)" by (cases "lh_reinsertTail H (ro_side r) r s1")
  have ans: "ans = resting_in (book s) (hd_taker h)" using host_take [OF assms(1) t] by simp
  have i: "ro_id r = hd_taker h" using r(1) back_id by simp
  note s2 = requeue_taken [OF assms(1) t i r(2,3) p]
  then have rel: "ok (lh_releaseHeldLeg H j q s2)" "book (lh_releaseHeldLeg H j q s2) = book s2" "sent (lh_releaseHeldLeg H j q s2) = sent s"
    "ok (lh_adoptRestingTaker H h s2)" "book (lh_adoptRestingTaker H h s2) = book s2" "sent (lh_adoptRestingTaker H h s2) = sent s" for j q
    using host_release host_adopt by simp_all
  let ?fresh = "resting_in (book s) (hd_taker h) = None"
  have "restoreTaker H h symbol s = lh_publish H (taker_event h symbol okay (\<not> ?fresh) r)
      (if \<not> okay then lh_releaseHeldLeg H (hd_taker h) (hd_qty h) s2 else if ?fresh then lh_adoptRestingTaker H h s2 else s2)"
    using p t assms(2) unfolding restoreTaker_def r(1) ans
    by (cases "resting_in (book s) (hd_taker h)") (auto simp: taker_back_def taker_event_def Let_def)
  then show ?thesis using s2 rel host_publish p by (intro exI [of _ okay] exI [of _ s1]) auto
qed

lemma restoreTaker_residual:
  assumes "ok s" "\<not> taker_rests h"
  shows "ok (restoreTaker H h symbol s) \<and> sent (restoreTaker H h symbol s) = sent s @ [residual_event h symbol]
    \<and> book (restoreTaker H h symbol s) = book s"
  using assms host_release [OF assms(1)] host_publish by (simp add: restoreTaker_def residual_event_def)

lemma reject_hold_effect:
  assumes "ok s" "legs_restorable grid h (book s)" and take_back: "\<And>r s. fst (lh_reinsertTail H (ro_side r) r s)"
  shows "ok (reject_hold H h symbol s) \<and> book (reject_hold H h symbol s) = restored_book h (book s)
    \<and> sent (reject_hold H h symbol s) = sent s @ restored_events h symbol (book s)"
proof -
  let ?m = "maker_back h (resting_in (book s) (hd_maker h))"
  let ?s1 = "restoreMaker H h symbol s"
  let ?s2 = "restoreTaker H h symbol ?s1"
  have m: "ok ?s1" "sent ?s1 = sent s @ [maker_event h symbol True ?m]" "book ?s1 = requeue ?m (book s)"
    using restoreMaker_effect [OF assms(1) refl, of h symbol] assms(2) take_back by (auto simp: legs_restorable_def)
  have same: "resting_in (book ?s1) (hd_taker h) = resting_in (book s) (hd_taker h)"
    using resting_in_requeue [OF host_book [OF assms(1)], of ?m "hd_taker h"] host_book [OF m(1)] m(3) assms(2)
    by (simp add: back_id legs_restorable_def)
  have "ok ?s2 \<and> book ?s2 = restored_book h (book s) \<and> sent ?s2 = sent s @ butlast (restored_events h symbol (book s))"
  proof (cases "taker_rests h")
    case True
    then show ?thesis
      using restoreTaker_effect [OF m(1) True refl, of symbol] assms(2) take_back m same
      by (auto simp: legs_restorable_def restored_book_def restored_events_def)
  next
    case False
    then show ?thesis
      using restoreTaker_residual [OF m(1) False, of symbol] m by (simp add: restored_book_def restored_events_def)
  qed
  then show ?thesis using host_publish [of ?s2] by (simp add: reject_hold_def restored_events_def)
qed

lemma settle_hold_effect:
  assumes "ok s"
  shows "ok (settle_hold H t h symbol s) \<and> book (settle_hold H t h symbol s) = book s
    \<and> (\<exists>es. sent (settle_hold H t h symbol s) = sent s @ es
      \<and> filter (\<lambda>e. \<not> is_fee e) es = settled_events h symbol (fst (lh_nextTradeSeq H s)) t (book s))"
proof -
  obtain n s1 where n: "lh_nextTradeSeq H s = (n, s1)" by (cases "lh_nextTradeSeq H s")
  have s1: "ok s1" "book s1 = book s" "sent s1 = sent s" using host_trade [OF assms n] by simp_all
  have quiet: "filter (\<lambda>e. \<not> is_fee e) fs = []" if "list_all is_fee fs" for fs using that by (simp add: list_all_iff filter_empty_conv)
  have step: "\<exists>fs. ok (lh_publishTracked H t ev u) \<and> book (lh_publishTracked H t ev u) = book s
      \<and> sent (lh_publishTracked H t ev u) = sent u @ ev # fs \<and> filter (\<lambda>e. \<not> is_fee e) fs = []"
    if "ok u" "book u = book s" for ev u
    using host_emit [OF that(1), of t ev] that(2) quiet by auto
  obtain ev1 ev2 ev3 where ev: "settled_events h symbol n t (book s) = [ev1, ev2, ev3]" by (simp add: settled_events_def Let_def)
  let ?u1 = "lh_publishTracked H t ev1 s1"
  let ?u2 = "lh_publishTracked H t ev2 ?u1"
  let ?u3 = "lh_publishTracked H t ev3 ?u2"
  from step [OF s1(1,2), of ev1] obtain f1 where u1: "ok ?u1" "book ?u1 = book s" "sent ?u1 = sent s1 @ ev1 # f1" "filter (\<lambda>e. \<not> is_fee e) f1 = []" by blast
  from step [OF u1(1,2), of ev2] obtain f2 where u2: "ok ?u2" "book ?u2 = book s" "sent ?u2 = sent ?u1 @ ev2 # f2" "filter (\<lambda>e. \<not> is_fee e) f2 = []" by blast
  from step [OF u2(1,2), of ev3] obtain f3 where u3: "ok ?u3" "book ?u3 = book s" "sent ?u3 = sent ?u2 @ ev3 # f3" "filter (\<lambda>e. \<not> is_fee e) f3 = []" by blast
  have run: "settle_hold H t h symbol s = ?u3"
    using ev u1(1,2) u2(1,2) host_find [OF u1(1)] host_find [OF u2(1)]
    by (auto simp: settle_hold_def n settled_events_def Let_def)
  have "\<not> is_fee ev1" "\<not> is_fee ev2" "\<not> is_fee ev3" using ev by (auto simp: settled_events_def Let_def is_fee_def)
  then show ?thesis unfolding run using u1(3,4) u2(3,4) u3 s1(3) ev n by (intro conjI exI [of _ "ev1 # f1 @ ev2 # f2 @ ev3 # f3"]) simp_all
qed

lemma resolve_on_book:
  assumes "ok s" "\<not> settles H s h accept \<Longrightarrow> legs_restorable grid h (book s)" "\<And>r s. fst (lh_reinsertTail H (ro_side r) r s)"
    and "resolve H i h accept (L, s) = (L', s')"
  shows "ok s' \<and> (if settles H s h accept
    then book s' = book s \<and> (\<exists>es. sent s' = sent s @ es \<and> filter (\<lambda>e. \<not> is_fee e) es =
      settled_events h (lc_symbol (lh_lastLookConfig H s)) (fst (lh_nextTradeSeq H s)) (ll_held L') (book s))
    else book s' = restored_book h (book s) \<and> sent s' = sent s @ restored_events h (lc_symbol (lh_lastLookConfig H s)) (book s))"
proof -
  let ?symbol = "lc_symbol (lh_lastLookConfig H s)"
  let ?s1 = "if settles H s h accept then settle_hold H (ll_held L') h ?symbol s else reject_hold H h ?symbol s"
  have held: "ll_held L' = AList.delete i (ll_held L)" using resolve_effect(1) [of H i h accept L s] assms(4) by simp
  have s': "s' = lh_cleanupOrderIfDone H (ll_held L') (hd_maker h) (lh_cleanupOrderIfDone H (ll_held L') (hd_taker h) ?s1)"
    using assms(4) held by (auto simp: resolve_def Let_def case_prod_unfold fst_verdict set_holds_def)
  have "ok ?s1" using settle_hold_effect [OF assms(1)] reject_hold_effect [OF assms(1,2,3)] by auto
  then have "ok s' \<and> book s' = book ?s1 \<and> sent s' = sent ?s1" unfolding s' using host_cleanup by simp
  then show ?thesis using settle_hold_effect [OF assms(1)] reject_hold_effect [OF assms(1,2,3)]
    by (cases "settles H s h accept") simp_all
qed

end

subsection \<open>A decision on the reference book\<close>

lemma mb_takes_back: "fst (lh_reinsertTail (venue_host mb_ops cfg A) sd r s)"
  by (simp add: venue_host_def restOnBook_def mb_ops_def mb_canRest_def mb_full_def mb_addResting_def Let_def)

lemma venue_config [simp]: "lh_lastLookConfig (venue_host B cfg A) s = cfg"
  by (simp add: venue_host_def)

lemma venue_trade [simp]: "fst (lh_nextTradeSeq (venue_host B cfg A) s) = Suc (ve_tradeSeq s)"
  by (simp add: venue_host_def)

lemma venue_publish: "lh_publish (venue_host B cfg A) ev s = s\<lparr>ve_sent := ve_sent s @ [ev]\<rparr>"
  by (simp add: venue_host_def)

text \<open>
  C31. What a decision on a held fill does over the reference book, which always takes an order back. A decision on a hold that is
  not open, or from an account that is not its maker's, changes nothing and is answered with the
  reason. Otherwise the hold leaves the table and exactly one of two things happens. If the maker
  accepted, the fill is still allowed and the reference has not moved past the tolerance in either
  direction, one trade is printed at the held price and quantity with one execution per leg, whose
  leaves are what really rests or is still held, and the book is untouched. In every other case
  nothing trades: the maker's quantity is back at the tail of its price level, the taker's rests
  again or is cancelled as its time in force says, both owners are told, and no other order moves. This
  last case assumes that the legs can rest again: they are different orders, and each one as it comes
  back is well-formed (positive quantity, non-negative running total, within the 64-bit range), which
  \<open>hold_reject_negative_cum\<close> shows is not always so.
\<close>

theorem decision_outcome:
  assumes "mb_inv (ve_book s)"
    and "\<forall>h. map_of (ll_held L) (ld_heldId d) = Some h \<and> \<not> settles (venue_host mb_ops cfg A) s h (ld_accept d)
      \<longrightarrow> legs_restorable (\<lambda>p. True) h (mb_orders (ve_book s))"
    and "onDecision (venue_host mb_ops cfg A) d (L, s) = (L', s')"
  shows "case map_of (ll_held L) (ld_heldId d) of
      None \<Rightarrow> L' = L \<and> ve_book s' = ve_book s \<and> ve_sent s' = ve_sent s @ [decision_refused d (lc_symbol cfg) UnknownOrder]
    | Some h \<Rightarrow>
        if ld_accountId d \<noteq> hd_makerAccount h
        then L' = L \<and> ve_book s' = ve_book s \<and> ve_sent s' = ve_sent s @ [decision_refused d (lc_symbol cfg) NotOrderOwner]
        else ll_held L' = AList.delete (ld_heldId d) (ll_held L) \<and> mb_inv (ve_book s') \<and>
          (if settles (venue_host mb_ops cfg A) s h (ld_accept d)
           then mb_orders (ve_book s') = mb_orders (ve_book s) \<and> (\<exists>es. ve_sent s' = ve_sent s @ es \<and>
             filter (\<lambda>e. \<not> is_fee e) es = settled_events h (lc_symbol cfg) (Suc (ve_tradeSeq s)) (ll_held L') (mb_orders (ve_book s)))
           else mb_orders (ve_book s') = restored_book h (mb_orders (ve_book s)) \<and>
             ve_sent s' = ve_sent s @ restored_events h (lc_symbol cfg) (mb_orders (ve_book s)))"
proof (cases "map_of (ll_held L) (ld_heldId d)")
  case None
  then show ?thesis using assms(3) by (auto simp: onDecision_def venue_publish)
next
  case (Some h)
  show ?thesis
  proof (cases "ld_accountId d = hd_makerAccount h")
    case False
    then show ?thesis using assms(3) Some by (auto simp: onDecision_def venue_publish)
  next
    case True
    then have r: "resolve (venue_host mb_ops cfg A) (ld_heldId d) h (ld_accept d) (L, s) = (L', s')"
      using assms(3) Some by (simp add: onDecision_def)
    have "ll_held L' = AList.delete (ld_heldId d) (ll_held L)"
      using resolve_effect(1) [of "venue_host mb_ops cfg A" "ld_heldId d" h "ld_accept d" L s] r by simp
    moreover have "\<not> settles (venue_host mb_ops cfg A) s h (ld_accept d) \<Longrightarrow> legs_restorable (\<lambda>p. True) h (mb_orders (ve_book s))"
      using assms(2) Some by simp
    ultimately show ?thesis using mbk.venue.resolve_on_book [OF assms(1) _ mb_takes_back r] Some True
      by (cases "settles (venue_host mb_ops cfg A) s h (ld_accept d)") simp_all
  qed
qed

text \<open>A venue with nothing but a book: one maker of ten, half of it held.\<close>

definition no_accounts :: "unit account_ops" where
  "no_accounts = \<lparr>ao_allowed = (\<lambda>_ _. True), ao_observe = (\<lambda>_ _ _. ([], ())), ao_release = (\<lambda>_ _ _. ()),
     ao_cleanup = (\<lambda>_ _ _ _. ()), ao_rememberStp = (\<lambda>_ _ _. ()), ao_adopt = (\<lambda>_ _. ())\<rparr>"

definition sample_maker :: resting_order where
  "sample_maker = (rebuilt 1 7 100 10 SELL)\<lparr>ro_lastLook := True, ro_postOnly := True\<rparr>"

definition sample_taker :: "nat \<Rightarrow> new_order" where
  "sample_taker i = \<lparr>no_id = i, no_symbol = 3, no_side = BUY, no_type = LIMIT, no_price = 100, no_quantity = 10, no_tif = IOC,
     no_postOnly = False, no_stp = StpNone, no_accountId = 8, no_clientOrderId = 0, no_visibleQuantity = 0, no_triggerPrice = 0,
     no_trailingOffset = 0, no_lastLook = False, no_reduceOnly = False, no_expiryNs = 0, no_ocoGroup = 0, no_peg = PegNone,
     no_pegOffsetRaw = 0\<rparr>"

definition sample_config :: last_look_config where
  "sample_config = \<lparr>lc_symbol = 3, lc_window = 50, lc_toleranceRaw = 0, lc_acceptOnTimeout = False\<rparr>"

abbreviation sample_host :: "(matching_book, unit) venue last_look_host" where
  "sample_host \<equiv> venue_host mb_ops sample_config no_accounts"

definition sample_venue :: "(matching_book, unit) venue" where
  "sample_venue = \<lparr>ve_book = snd (mb_addResting mb_empty_book SELL sample_maker), ve_sent = [], ve_last = None, ve_tradeSeq = 0, ve_accounts = ()\<rparr>"

text \<open>The matcher opens a hold and then takes the held quantity off the top of the book.\<close>

definition hold_fill :: "nat \<Rightarrow> int \<Rightarrow> last_look \<times> (matching_book, unit) venue \<Rightarrow> last_look \<times> (matching_book, unit) venue" where
  "hold_fill i q = (\<lambda>(L, s). case mb_peekBest (ve_book s) SELL of None \<Rightarrow> (L, s) | Some m \<Rightarrow>
     (let (L, s) = ll_create sample_host m q (sample_taker i) 0 0 (L, s) in (L, s\<lparr>ve_book := mb_fillBest (ve_book s) SELL q\<rparr>)))"

text \<open>A hold on the whole of it: the maker is off the book until the decision.\<close>

definition sample_state :: "last_look \<times> (matching_book, unit) venue" where
  "sample_state = ll_create sample_host sample_maker 10 (sample_taker 2) 0 0 (last_look_init, sample_venue\<lparr>ve_book := mb_empty_book\<rparr>)"

definition sample_refusal :: last_look_decision where
  "sample_refusal = \<lparr>ld_heldId = 1, ld_symbol = 3, ld_accept = False, ld_accountId = 7\<rparr>"

definition sample_hold :: held where
  "sample_hold = new_hold 1 sample_maker 10 (sample_taker 2) 50 0"

lemma sample_state_parts:
  "ll_held (fst sample_state) = [(1, sample_hold)]" "ve_book (snd sample_state) = mb_empty_book" "hd_makerAccount sample_hold = 7"
  by (simp_all add: sample_state_def ll_create_def Let_def last_look_init_def set_holds_def sample_hold_def sample_config_def
      venue_host_def sample_taker_def new_hold_def sample_maker_def rebuilt_def)

lemma sample_restorable: "legs_restorable (\<lambda>p. True) sample_hold (mb_orders mb_empty_book)"
  by (simp add: legs_restorable_def resting_in_def mb_orders_def mb_side_def flat_def mb_empty_book_def spec_find_def maker_back_def
      rebuilt_maker_def rebuilt_def wf_order_def sample_hold_def new_hold_def sample_maker_def sample_taker_def taker_rests_def i64_max_def)

theorem decision_outcome_witness:
  "\<exists>L' s'. onDecision sample_host sample_refusal sample_state = (L', s') \<and> ll_held L' = []
    \<and> mb_orders (ve_book s') = restored_book sample_hold (mb_orders mb_empty_book)
    \<and> ve_sent s' = ve_sent (snd sample_state) @ restored_events sample_hold 3 (mb_orders mb_empty_book)"
proof -
  obtain L' s' where run: "onDecision sample_host sample_refusal (fst sample_state, snd sample_state) = (L', s')"
    by (cases "onDecision sample_host sample_refusal (fst sample_state, snd sample_state)")
  have "mb_inv (ve_book (snd sample_state))" by (simp add: sample_state_parts mb_inv_empty)
  from decision_outcome [OF this _ run] show ?thesis
    using run by (simp add: sample_state_parts sample_refusal_def sample_restorable settles_def sample_config_def)
qed

subsection \<open>Two findings\<close>

text \<open>
  Two holds on one maker, the second of which takes the rest of it off the book: rejecting them in
  the order of their identifiers rebuilds the order from the first one alone and then takes the
  second quantity out of a running total it was never added to.
\<close>

theorem hold_reject_negative_cum:
  "map_option ro_cumQty (mb_find (ve_book (snd (rejectFor sample_host 1
     (hold_fill 3 6 (hold_fill 2 4 (last_look_init, sample_venue)))))) 1) = Some (- 6)"
  by code_simp

text \<open>An order rebuilt from its hold has forgotten that it is post-only.\<close>

theorem hold_reject_loses_post_only:
  "ro_postOnly sample_maker \<and> map_option ro_postOnly (mb_find (ve_book (snd (rejectFor sample_host 1
     (hold_fill 2 10 (last_look_init, sample_venue))))) 1) = Some False"
  by code_simp

end
