(* ===== verification/Fees.thy ===== *)
theory Fees
  imports Ledger OutboundEvents
begin

section \<open>Instrument configuration and fees\<close>

text \<open>
  \<^verbatim>\<open>SymbolConfig\<close> (\<^verbatim>\<open>venue/include/flox-venue/symbol_config.h\<close>) as a record, and \<^verbatim>\<open>engine::Fees\<close>
  (\<^verbatim>\<open>engine/fees.h\<close>): what a print costs its two sides. The fee schedule keeps its rates and its
  rolling volume in binary floating point; what it answers at the moment of a print, already
  rounded to raws by \<^verbatim>\<open>feeRateRawOf\<close>, is the argument \<open>rates\<close> (maker, taker), and \<open>None\<close> is the
  state before a schedule is installed. From there on the money is integer arithmetic.
\<close>

record symbol_config =
  sc_id :: nat
  sc_tickSize :: int
  sc_lotSize :: int
  sc_minQty :: int
  sc_minPrice :: int
  sc_maxPrice :: int
  sc_maxOrderQty :: int
  sc_maxOrderNotional :: int
  sc_halted :: bool
  sc_triggerRef :: trigger_ref
  sc_lastLookWindowNs :: int
  sc_clOrdIdWindowNs :: int
  sc_lastLookAcceptOnTimeout :: bool
  sc_lastLookToleranceRaw :: int
  sc_baseAsset :: nat
  sc_quoteAsset :: nat
  sc_luldBps :: int
  sc_luldHaltNs :: int
  sc_linearPerp :: bool
  sc_initialMarginBps :: int
  sc_maintenanceMarginBps :: int
  sc_externalLiquidation :: bool
  sc_autoDeleverage :: bool
  sc_maxPositionQty :: int
  sc_maxOpenOrders :: nat
  sc_matchPolicy :: match_policy
  sc_priceScale :: int
  sc_qtyScale :: int
  sc_fundingIntervalNs :: int

subsection \<open>Charging a print\<close>

definition kFeeRateScale :: int where "kFeeRateScale = kMoneyScale"

definition fee_notionalOf :: "trade \<Rightarrow> symbol_config \<Rightarrow> int" where
  "fee_notionalOf t cfg = notionalRaw (tr_price t) (tr_quantity t) (sc_priceScale cfg) (sc_qtyScale cfg)"

definition feeRawOf :: "int \<Rightarrow> int \<Rightarrow> int" where
  "feeRawOf notional rateRaw = sat64 (rateOnNotional notional rateRaw kFeeRateScale)"

definition fee_event :: "nat \<Rightarrow> symbol_config \<Rightarrow> int \<Rightarrow> bool \<Rightarrow> nat \<Rightarrow> outbound_event" where
  "fee_event i cfg fee maker acct = EvFeeCharged \<lparr>fc_id = i, fc_symbol = sc_id cfg, fc_fee = fee, fc_maker = maker, fc_account = acct\<rparr>"

definition fees_emit :: "(int \<times> int) option \<Rightarrow> symbol_config \<Rightarrow> trade \<Rightarrow> outbound_event list" where
  "fees_emit rates cfg t = (case rates of
      None \<Rightarrow> []
    | Some (makerRateRaw, takerRateRaw) \<Rightarrow>
        (let notional = fee_notionalOf t cfg
         in [fee_event (tr_makerId t) cfg (feeRawOf notional makerRateRaw) True (tr_makerAccount t),
             fee_event (tr_takerId t) cfg (feeRawOf notional takerRateRaw) False (tr_takerAccount t)]))"

definition fee_charge :: "nat \<Rightarrow> nat \<Rightarrow> int \<Rightarrow> bool \<Rightarrow> symbol_config \<Rightarrow> nat \<Rightarrow> ledger \<Rightarrow> ledger \<times> outbound_event list" where
  "fee_charge i acct feeRaw maker cfg venueAccount L =
    (credit (credit L acct (sc_quoteAsset cfg) (- feeRaw)) venueAccount (sc_quoteAsset cfg) feeRaw,
     [fee_event i cfg feeRaw maker acct])"

definition fees_settle :: "(int \<times> int) option \<Rightarrow> symbol_config \<Rightarrow> nat \<Rightarrow> trade \<Rightarrow> ledger \<Rightarrow> ledger \<times> outbound_event list" where
  "fees_settle rates cfg venueAccount t L = (case rates of
      None \<Rightarrow> (L, [])
    | Some (makerRateRaw, takerRateRaw) \<Rightarrow>
        (let notional = fee_notionalOf t cfg;
             (L, es) = fee_charge (tr_makerId t) (tr_makerAccount t) (feeRawOf notional makerRateRaw) True cfg venueAccount L;
             (L, es') = fee_charge (tr_takerId t) (tr_takerAccount t) (feeRawOf notional takerRateRaw) False cfg venueAccount L
         in (L, es @ es')))"

lemma fees_settle_total:
  assumes "asset_ok (sc_quoteAsset cfg)"
  shows "asset_total (fst (fees_settle rates cfg venue t L)) x = asset_total L x"
  using assms by (auto simp: fees_settle_def fee_charge_def Let_def ldg.tot_credit split: option.split)

text \<open>What is reported is what is charged: the two settlement paths and the path without a ledger agree on the events.\<close>

lemma fees_settle_reports: "snd (fees_settle rates cfg venue t L) = fees_emit rates cfg t"
  by (auto simp: fees_settle_def fees_emit_def fee_charge_def Let_def split: option.split)

lemma credit_reserved: "asset_ok a \<Longrightarrow> asset_ok a' \<Longrightarrow> account_ok c \<Longrightarrow> account_ok c' \<Longrightarrow> reserved (credit L c a q) c' a' = reserved L c' a'"
  by (auto simp: credit_def Let_def balance_views bal_of_put key_inject)

lemma fees_settle_reserved:
  assumes "asset_ok (sc_quoteAsset cfg)" "account_ok venue" "account_ok (tr_makerAccount t)" "account_ok (tr_takerAccount t)" "asset_ok a" "account_ok c"
  shows "reserved (fst (fees_settle rates cfg venue t L)) c a = reserved L c a"
  using assms by (auto simp: fees_settle_def fee_charge_def Let_def credit_reserved split: option.split)

end
