(* ===== verification/Credit.thy ===== *)
theory Credit
  imports Fees Matcher StateDigest PegBook
begin

section \<open>Entitlement, buying power and risk allowance\<close>

text \<open>
  \<^verbatim>\<open>engine::Credit\<close> of \<^verbatim>\<open>venue/include/flox-venue/engine/credit.h\<close> over the ledger: who may send an
  order, what is ring-fenced while it is live, what comes back when it stops being live, and how
  much of a fill the position limits allow. The ledger the engine may or may not hold is an
  \<open>option\<close>. Amounts, 128-bit in the source, are \<open>int\<close>.
  An order's type and time in force are datatypes, so the range tests of the admission gate hold
  by construction (the codec refuses other bytes).
\<close>

unbundle bit_operations_syntax

subsection \<open>Configuration and state\<close>

record credit_request =
  cq_order :: nat
  cq_account :: nat
  cq_symbol :: nat
  cq_side :: side
  cq_type :: order_type
  cq_price :: int
  cq_quantity :: int
  cq_reduceOnly :: bool

record credit_decision =
  cd_allowed :: bool
  cd_reason :: reject_reason

record admission_profile =
  ap_allowedTypes :: "32 word"
  ap_allowedTif :: "32 word"
  ap_deny :: "8 word"

definition DenyResting :: "8 word" where "DenyResting = push_bit 0 1"
definition DenyAmend :: "8 word" where "DenyAmend = push_bit 1 1"
definition DenyCancel :: "8 word" where "DenyCancel = push_bit 2 1"
definition DenyQuote :: "8 word" where "DenyQuote = push_bit 3 1"
definition DenyNewOrder :: "8 word" where "DenyNewOrder = push_bit 4 1"

record reservation =
  rv_account :: nat
  rv_asset :: nat
  rv_reservedRaw :: int
  rv_limitPriceRaw :: int
  rv_side :: side

record account_limits =
  al_maxOrderQty :: int
  al_maxOrderNotional :: int
  al_maxOpenOrders :: nat
  al_maxPositionQty :: int

record credit_state =
  cs_credit :: "(credit_request \<Rightarrow> credit_decision) option"
  cs_creditReason :: reject_reason
  cs_admission :: "(nat \<times> admission_profile) list"
  cs_accountLimits :: "(nat \<times> account_limits) list"
  cs_admissionRejects :: nat
  cs_reserve :: "(nat \<times> reservation) list"

definition credit_init :: credit_state where
  "credit_init = \<lparr>cs_credit = None, cs_creditReason = InsufficientFunds, cs_admission = [], cs_accountLimits = [],
     cs_admissionRejects = 0, cs_reserve = []\<rparr>"

definition setCreditCheck :: "(credit_request \<Rightarrow> credit_decision) \<Rightarrow> credit_state \<Rightarrow> credit_state" where
  "setCreditCheck ask C = C\<lparr>cs_credit := Some ask\<rparr>"

definition restoreReservations :: "(nat \<times> reservation) list \<Rightarrow> credit_state \<Rightarrow> credit_state" where
  "restoreReservations m C = C\<lparr>cs_reserve := m\<rparr>"

definition restoreAdmission :: "(nat \<times> admission_profile) list \<Rightarrow> credit_state \<Rightarrow> credit_state" where
  "restoreAdmission m C = C\<lparr>cs_admission := m\<rparr>"

definition restoreAccountLimits :: "(nat \<times> account_limits) list \<Rightarrow> credit_state \<Rightarrow> credit_state" where
  "restoreAccountLimits m C = C\<lparr>cs_accountLimits := m\<rparr>"

definition credit_copyStateFrom :: "credit_state \<Rightarrow> credit_state \<Rightarrow> credit_state" where
  "credit_copyStateFrom other C = C\<lparr>cs_admission := cs_admission other, cs_accountLimits := cs_accountLimits other, cs_reserve := cs_reserve other\<rparr>"

subsection \<open>Entitlement\<close>

definition setAdmissionProfile :: "nat \<Rightarrow> admission_profile \<Rightarrow> credit_state \<Rightarrow> credit_state" where
  "setAdmissionProfile account p C =
    (if ap_allowedTypes p = 0 \<and> ap_allowedTif p = 0 \<and> ap_deny p = 0
     then C\<lparr>cs_admission := AList.delete account (cs_admission C)\<rparr>
     else C\<lparr>cs_admission := AList.update account p (cs_admission C)\<rparr>)"

definition countAdmissionReject :: "credit_state \<Rightarrow> credit_state" where
  "countAdmissionReject C = C\<lparr>cs_admissionRejects := Suc (cs_admissionRejects C)\<rparr>"

definition admissionGate :: "new_order \<Rightarrow> bool \<Rightarrow> credit_state \<Rightarrow> reject_reason" where
  "admissionGate ord auctionMode C = (case map_of (cs_admission C) (no_accountId ord) of
      None \<Rightarrow> RejNone
    | Some p \<Rightarrow>
        if ap_allowedTypes p \<noteq> 0 \<and> ap_allowedTypes p AND push_bit (order_type_code (no_type ord)) 1 = 0
        then OrderTypeNotPermitted
        else if ap_deny p AND DenyResting \<noteq> 0 \<and> (auctionMode \<or> no_tif ord = GTC \<or> no_tif ord = GTD \<or> no_tif ord = POST_ONLY \<or> no_postOnly ord)
        then RestingNotPermitted
        else if ap_allowedTif p \<noteq> 0 \<and> ap_allowedTif p AND push_bit (tif_code (no_tif ord)) 1 = 0
        then TimeInForceNotPermitted
        else RejNone)"

definition admissionDenies :: "nat \<Rightarrow> 8 word \<Rightarrow> credit_state \<Rightarrow> bool" where
  "admissionDenies account b C = (case map_of (cs_admission C) account of None \<Rightarrow> False | Some p \<Rightarrow> ap_deny p AND b \<noteq> 0)"

definition validateConditional :: "new_order \<Rightarrow> symbol_config \<Rightarrow> reject_reason" where
  "validateConditional ord cfg =
    (let off_grid = (\<lambda>p. sc_tickSize cfg \<noteq> 0 \<and> p smod sc_tickSize cfg \<noteq> 0);
         below = (\<lambda>p. sc_minPrice cfg \<noteq> 0 \<and> p < sc_minPrice cfg);
         above = (\<lambda>p. sc_maxPrice cfg \<noteq> 0 \<and> p > sc_maxPrice cfg);
         trig = no_triggerPrice ord
     in if no_quantity ord \<le> 0 then InvalidQuantity
        else if sc_lotSize cfg \<noteq> 0 \<and> no_quantity ord smod sc_lotSize cfg \<noteq> 0 then InvalidQuantity
        else if trig > 0 \<and> (off_grid trig \<or> below trig \<or> above trig) then InvalidPrice
        else if (no_type ord = STOP_LIMIT \<or> no_type ord = TAKE_PROFIT_LIMIT)
             \<and> (off_grid (no_price ord) \<or> below (no_price ord) \<or> above (no_price ord)) then InvalidPrice
        else RejNone)"

subsection \<open>Buying power\<close>

definition amountOf :: "int \<Rightarrow> int" where "amountOf qtyRaw = qtyRaw"

definition imForRaw :: "int \<Rightarrow> int \<Rightarrow> symbol_config \<Rightarrow> int" where
  "imForRaw qtyRaw priceRaw cfg =
     (notionalRaw priceRaw qtyRaw (sc_priceScale cfg) (sc_qtyScale cfg) * sc_initialMarginBps cfg) sdiv 10000"

definition cr_put :: "nat \<Rightarrow> reservation \<Rightarrow> credit_state \<Rightarrow> credit_state" where
  "cr_put i r C = C\<lparr>cs_reserve := AList.update i r (cs_reserve C)\<rparr>"

definition cr_erase :: "nat \<Rightarrow> credit_state \<Rightarrow> credit_state" where
  "cr_erase i C = C\<lparr>cs_reserve := AList.delete i (cs_reserve C)\<rparr>"

definition credit_asked :: "new_order \<Rightarrow> symbol_config \<Rightarrow> credit_request" where
  "credit_asked ord cfg = \<lparr>cq_order = no_id ord, cq_account = no_accountId ord, cq_symbol = sc_id cfg, cq_side = no_side ord,
     cq_type = no_type ord, cq_price = no_price ord, cq_quantity = no_quantity ord, cq_reduceOnly = no_reduceOnly ord\<rparr>"

definition reserve_perp :: "new_order \<Rightarrow> symbol_config \<Rightarrow> ledger \<Rightarrow> credit_state \<Rightarrow> bool \<times> ledger \<times> credit_state" where
  "reserve_perp ord cfg L C =
    (let limitRaw = (if no_type ord = LIMIT then no_price ord else sc_maxPrice cfg)
     in if \<not> no_reduceOnly ord \<and> no_type ord \<noteq> LIMIT \<and> limitRaw \<le> 0 then (False, L, C)
        else let im = (if no_reduceOnly ord then 0 else imForRaw (no_quantity ord) limitRaw cfg);
                 (ok, L) = (if im > 0 then reserve L (no_accountId ord) (sc_quoteAsset cfg) im else (True, L))
             in if \<not> ok then (False, L, C)
                else (True, L, cr_put (no_id ord) \<lparr>rv_account = no_accountId ord, rv_asset = sc_quoteAsset cfg,
                       rv_reservedRaw = im, rv_limitPriceRaw = limitRaw, rv_side = no_side ord\<rparr> C))"

definition reserve_spot :: "new_order \<Rightarrow> symbol_config \<Rightarrow> ledger \<Rightarrow> credit_state \<Rightarrow> bool \<times> ledger \<times> credit_state" where
  "reserve_spot ord cfg L C =
    (let px = (if no_type ord = LIMIT \<or> sc_maxPrice cfg = 0 then no_price ord else sc_maxPrice cfg)
     in if no_side ord = BUY \<and> px \<le> 0 then (False, L, C)
        else let (asset, amt, limitRaw) = (if no_side ord = BUY
                   then (sc_quoteAsset cfg, notionalRaw px (no_quantity ord) (sc_priceScale cfg) (sc_qtyScale cfg), px)
                   else (sc_baseAsset cfg, amountOf (no_quantity ord), no_price ord));
                 (ok, L) = reserve L (no_accountId ord) asset amt
             in if \<not> ok then (False, L, C)
                else (True, L, cr_put (no_id ord) \<lparr>rv_account = no_accountId ord, rv_asset = asset, rv_reservedRaw = amt,
                       rv_limitPriceRaw = limitRaw, rv_side = no_side ord\<rparr> C))"

definition reserve_money :: "new_order \<Rightarrow> symbol_config \<Rightarrow> ledger option \<Rightarrow> credit_state \<Rightarrow> bool \<times> ledger option \<times> credit_state" where
  "reserve_money ord cfg ledger C = (case ledger of
      None \<Rightarrow> (True, None, C)
    | Some L \<Rightarrow> (let (ok, L, C) = (if sc_linearPerp cfg then reserve_perp ord cfg L C else reserve_spot ord cfg L C) in (ok, Some L, C)))"

definition reserveFunds :: "new_order \<Rightarrow> symbol_config \<Rightarrow> ledger option \<Rightarrow> credit_state \<Rightarrow> bool \<times> ledger option \<times> credit_state" where
  "reserveFunds ord cfg ledger C = (case cs_credit C of
      None \<Rightarrow> reserve_money ord cfg ledger C
    | Some ask \<Rightarrow>
        (let d = ask (credit_asked ord cfg)
         in if \<not> cd_allowed d then (False, ledger, C\<lparr>cs_creditReason := cd_reason d\<rparr>) else reserve_money ord cfg ledger C))"

definition resetCreditReason :: "credit_state \<Rightarrow> credit_state" where
  "resetCreditReason C = C\<lparr>cs_creditReason := InsufficientFunds\<rparr>"

text \<open>The operations below do nothing without a ledger; they are stated on the one there is.\<close>

definition releaseReservation :: "nat \<Rightarrow> ledger \<times> credit_state \<Rightarrow> ledger \<times> credit_state" where
  "releaseReservation i = (\<lambda>(L, C). case map_of (cs_reserve C) i of
      None \<Rightarrow> (L, C)
    | Some r \<Rightarrow> (if rv_reservedRaw r > 0 then release L (rv_account r) (rv_asset r) (rv_reservedRaw r) else L, cr_erase i C))"

definition backingFor :: "reservation \<Rightarrow> int \<Rightarrow> symbol_config \<Rightarrow> int" where
  "backingFor r qty cfg =
    (if sc_linearPerp cfg then imForRaw qty (rv_limitPriceRaw r) cfg
     else if rv_side r = BUY then notionalRaw (rv_limitPriceRaw r) qty (sc_priceScale cfg) (sc_qtyScale cfg)
     else amountOf qty)"

definition releaseReservationExceptHeld :: "nat \<Rightarrow> int \<Rightarrow> symbol_config \<Rightarrow> ledger \<times> credit_state \<Rightarrow> ledger \<times> credit_state" where
  "releaseReservationExceptHeld i heldQty cfg = (\<lambda>(L, C).
    if heldQty = 0 then releaseReservation i (L, C)
    else case map_of (cs_reserve C) i of
      None \<Rightarrow> (L, C)
    | Some r \<Rightarrow>
        (let keep = backingFor r heldQty cfg;
             keep = (if keep > rv_reservedRaw r then rv_reservedRaw r else keep);
             rel = rv_reservedRaw r - keep
         in if rel > 0 then (release L (rv_account r) (rv_asset r) rel, cr_put i (r\<lparr>rv_reservedRaw := keep\<rparr>) C) else (L, C)))"

definition releaseReservationPro :: "nat \<Rightarrow> int \<Rightarrow> int \<Rightarrow> ledger \<times> credit_state \<Rightarrow> ledger \<times> credit_state" where
  "releaseReservationPro i fromQtyRaw toQtyRaw = (\<lambda>(L, C).
    if fromQtyRaw \<le> 0 \<or> toQtyRaw \<ge> fromQtyRaw then (L, C)
    else case map_of (cs_reserve C) i of
      None \<Rightarrow> (L, C)
    | Some r \<Rightarrow>
        (let freed = (rv_reservedRaw r * (fromQtyRaw - toQtyRaw)) sdiv fromQtyRaw
         in if freed \<le> 0 then (L, C)
            else (release L (rv_account r) (rv_asset r) freed, cr_put i (r\<lparr>rv_reservedRaw := rv_reservedRaw r - freed\<rparr>) C)))"

text \<open>
  \<^verbatim>\<open>MatchingEngine::releaseHeldLeg\<close> (\<^verbatim>\<open>engine/last_look.inl\<close>); \<open>rests\<close> is whether the order is on the
  book. The dropped order's tracking maps are the engine's own.
\<close>

definition releaseHeldLeg :: "nat \<Rightarrow> int \<Rightarrow> symbol_config \<Rightarrow> bool \<Rightarrow> ledger \<times> credit_state \<Rightarrow> ledger \<times> credit_state" where
  "releaseHeldLeg i qty cfg rests = (\<lambda>(L, C). case map_of (cs_reserve C) i of
      None \<Rightarrow> (L, C)
    | Some r \<Rightarrow>
        (let rel = backingFor r qty cfg;
             rel = (if rel > rv_reservedRaw r then rv_reservedRaw r else rel);
             L = (if rel > 0 then release L (rv_account r) (rv_asset r) rel else L);
             r = r\<lparr>rv_reservedRaw := rv_reservedRaw r - rel\<rparr>
         in (L, if rv_reservedRaw r \<le> 0 \<and> \<not> rests then cr_erase i C else cr_put i r C)))"

subsection \<open>Account limits and the allowance of a fill\<close>

definition AccountRiskFatFinger :: "16 word" where "AccountRiskFatFinger = push_bit 0 1"
definition AccountRiskMaxOpenOrders :: "16 word" where "AccountRiskMaxOpenOrders = push_bit 1 1"
definition AccountRiskMaxPosition :: "16 word" where "AccountRiskMaxPosition = push_bit 2 1"

record set_account_risk_limits =
  sl_symbol :: nat
  sl_fields :: "16 word"
  sl_account :: nat
  sl_maxOrderQty :: int
  sl_maxOrderNotional :: int
  sl_maxOpenOrders :: nat
  sl_maxPositionQty :: int

definition no_limits :: account_limits where
  "no_limits = \<lparr>al_maxOrderQty = 0, al_maxOrderNotional = 0, al_maxOpenOrders = 0, al_maxPositionQty = 0\<rparr>"

definition setAccountLimits :: "set_account_risk_limits \<Rightarrow> (nat \<times> account_limits) list \<Rightarrow> (nat \<times> account_limits) list" where
  "setAccountLimits r t =
    (if sl_fields r = 0 then t
     else let l = (case map_of t (sl_account r) of None \<Rightarrow> no_limits | Some l \<Rightarrow> l);
              l = (if sl_fields r AND AccountRiskFatFinger \<noteq> 0
                   then l\<lparr>al_maxOrderQty := sl_maxOrderQty r, al_maxOrderNotional := sl_maxOrderNotional r\<rparr> else l);
              l = (if sl_fields r AND AccountRiskMaxOpenOrders \<noteq> 0 then l\<lparr>al_maxOpenOrders := sl_maxOpenOrders r\<rparr> else l);
              l = (if sl_fields r AND AccountRiskMaxPosition \<noteq> 0 then l\<lparr>al_maxPositionQty := sl_maxPositionQty r\<rparr> else l)
          in AList.update (sl_account r) l t)"

definition positionCapRaw :: "nat \<Rightarrow> symbol_config \<Rightarrow> credit_state \<Rightarrow> int" where
  "positionCapRaw account cfg C =
    (let sym = sc_maxPositionQty cfg;
         acct = (case map_of (cs_accountLimits C) account of None \<Rightarrow> 0 | Some l \<Rightarrow> al_maxPositionQty l)
     in if sym \<le> 0 then acct else if acct \<le> 0 then sym else if acct < sym then acct else sym)"

definition legFillLimit :: "int \<Rightarrow> side \<Rightarrow> bool \<Rightarrow> int \<Rightarrow> cancel_reason \<Rightarrow> int \<Rightarrow> int \<times> cancel_reason" where
  "legFillLimit posQtyRaw sd reduceOnly want reason capRaw =
    (let reducible = (if sd = BUY \<and> posQtyRaw < 0 then - posQtyRaw else if sd = SELL \<and> posQtyRaw > 0 then posQtyRaw else 0);
         (allowed, reason) = (if reduceOnly \<and> reducible < want then (reducible, ReduceOnlyNotReducing) else (want, reason));
         room = (if sd = BUY then capRaw - posQtyRaw else capRaw + posQtyRaw);
         (allowed, reason) = (if capRaw > 0 \<and> room < allowed then (room, CancelPositionLimitExceeded) else (allowed, reason))
     in (if allowed < 0 then 0 else allowed, reason))"

definition pairFillLimit :: "int \<Rightarrow> side \<Rightarrow> bool \<Rightarrow> int \<Rightarrow> side \<Rightarrow> bool \<Rightarrow> int \<Rightarrow> symbol_config \<Rightarrow> nat \<Rightarrow> nat \<Rightarrow> credit_state \<Rightarrow> fill_limit" where
  "pairFillLimit makerPos makerSide makerReduceOnly takerPos takerSide takerReduceOnly want cfg makerAccount takerAccount C =
    (let (makerAllowed, makerReason) = legFillLimit makerPos makerSide makerReduceOnly want ReduceOnlyNotReducing (positionCapRaw makerAccount cfg C);
         (takerAllowed, takerReason) = legFillLimit takerPos takerSide takerReduceOnly want ReduceOnlyNotReducing (positionCapRaw takerAccount cfg C)
     in if makerAllowed \<le> takerAllowed
        then \<lparr>fl_qty = makerAllowed, fl_makerQty = makerAllowed, fl_takerQty = takerAllowed,
              fl_makerBlocked = (makerAllowed \<le> 0), fl_takerBlocked = False, fl_reason = makerReason\<rparr>
        else \<lparr>fl_qty = takerAllowed, fl_makerQty = makerAllowed, fl_takerQty = takerAllowed,
              fl_makerBlocked = False, fl_takerBlocked = (takerAllowed \<le> 0), fl_reason = takerReason\<rparr>)"

subsection \<open>Settlement of a spot trade\<close>

text \<open>
  \<^verbatim>\<open>MatchingEngine::settleTrade\<close> (\<^verbatim>\<open>engine/ledger_fees.inl\<close>) for a spot instrument with a ledger. The
  answer says whether the trade settled (\<^verbatim>\<open>reportUnsettled\<close> counts the other case).
\<close>

definition buyer_pays :: "symbol_config \<Rightarrow> nat \<Rightarrow> nat \<Rightarrow> int \<Rightarrow> int \<Rightarrow> ledger \<times> credit_state \<Rightarrow> ledger \<times> credit_state" where
  "buyer_pays cfg buyerId buyerAcct notional qtyRaw = (\<lambda>(L, C). case map_of (cs_reserve C) buyerId of
      None \<Rightarrow> (L, C)
    | Some rb \<Rightarrow>
        (let limitNotional = notionalRaw (rv_limitPriceRaw rb) qtyRaw (sc_priceScale cfg) (sc_qtyScale cfg);
             L = spendReserved L buyerAcct (sc_quoteAsset cfg) notional;
             L = (if limitNotional > notional then release L buyerAcct (sc_quoteAsset cfg) (limitNotional - notional) else L)
         in (L, cr_put buyerId (rb\<lparr>rv_reservedRaw := rv_reservedRaw rb - limitNotional\<rparr>) C)))"

definition seller_delivers :: "symbol_config \<Rightarrow> nat \<Rightarrow> nat \<Rightarrow> int \<Rightarrow> ledger \<times> credit_state \<Rightarrow> ledger \<times> credit_state" where
  "seller_delivers cfg sellerId sellerAcct qtyRaw = (\<lambda>(L, C). case map_of (cs_reserve C) sellerId of
      None \<Rightarrow> (L, C)
    | Some rs \<Rightarrow> (spendReserved L sellerAcct (sc_baseAsset cfg) qtyRaw, cr_put sellerId (rs\<lparr>rv_reservedRaw := rv_reservedRaw rs - qtyRaw\<rparr>) C))"

definition settle_spot :: "(int \<times> int) option \<Rightarrow> symbol_config \<Rightarrow> nat \<Rightarrow> trade \<Rightarrow> ledger \<times> credit_state
    \<Rightarrow> bool \<times> (ledger \<times> credit_state) \<times> outbound_event list" where
  "settle_spot rates cfg venueAccount t = (\<lambda>(L, C).
    let notional = notionalRaw (tr_price t) (tr_quantity t) (sc_priceScale cfg) (sc_qtyScale cfg);
        qtyRaw = amountOf (tr_quantity t);
        takerBuys = (tr_takerSide t = BUY);
        buyerId = (if takerBuys then tr_takerId t else tr_makerId t);
        buyerAcct = (if takerBuys then tr_takerAccount t else tr_makerAccount t);
        sellerId = (if takerBuys then tr_makerId t else tr_takerId t);
        sellerAcct = (if takerBuys then tr_makerAccount t else tr_takerAccount t);
        buyerUnreserved = (map_of (cs_reserve C) buyerId = None);
        sellerUnreserved = (map_of (cs_reserve C) sellerId = None);
        (paid, L) = (if buyerUnreserved then debit L buyerAcct (sc_quoteAsset cfg) notional else (True, L))
    in if \<not> paid then (False, (L, C), [])
       else let (delivered, L) = (if sellerUnreserved then debit L sellerAcct (sc_baseAsset cfg) qtyRaw else (True, L))
            in if \<not> delivered then (False, (if buyerUnreserved then credit L buyerAcct (sc_quoteAsset cfg) notional else L, C), [])
               else let (L, C) = buyer_pays cfg buyerId buyerAcct notional (tr_quantity t) (L, C);
                        L = credit L buyerAcct (sc_baseAsset cfg) qtyRaw;
                        (L, C) = seller_delivers cfg sellerId sellerAcct qtyRaw (L, C);
                        L = credit L sellerAcct (sc_quoteAsset cfg) notional;
                        (L, es) = fees_settle rates cfg venueAccount t L
                    in (True, (L, C), es))"

subsection \<open>Checkpoint\<close>

definition mixAmount :: "64 word \<Rightarrow> int \<Rightarrow> 64 word" where
  "mixAmount h a = mix (mix h (word_of_int a)) (word_of_int (a div 2 ^ 64))"

definition admission_hash :: "nat \<Rightarrow> admission_profile \<Rightarrow> 64 word \<Rightarrow> 64 word" where
  "admission_hash acct p h = mix (mix (mix (mix (mix h kAdmissionProfile) (of_nat acct)) (ucast (ap_allowedTypes p)))
     (ucast (ap_allowedTif p))) (ucast (ap_deny p))"

definition hashAdmission :: "(nat \<times> admission_profile) list \<Rightarrow> 64 word \<Rightarrow> 64 word" where
  "hashAdmission t h = digest_section admission_hash t h"

definition reservation_hash :: "nat \<Rightarrow> reservation \<Rightarrow> 64 word \<Rightarrow> 64 word" where
  "reservation_hash i r h = mixAmount (mix (mix (mix (mix (mix (mix h kReservation) (of_nat i)) (of_nat (rv_account r)))
     (of_nat (rv_asset r))) (of_nat (side_code (rv_side r)))) (word_of_int (rv_limitPriceRaw r))) (rv_reservedRaw r)"

definition hashReservations :: "(nat \<times> reservation) list \<Rightarrow> 64 word \<Rightarrow> 64 word" where
  "hashReservations t h = digest_section reservation_hash t h"

definition limits_hash :: "nat \<Rightarrow> account_limits \<Rightarrow> 64 word \<Rightarrow> 64 word" where
  "limits_hash acct l h = mix (mix (mix (mix (mix (mix h kAccountRiskLimits) (of_nat acct)) (word_of_int (al_maxOrderQty l)))
     (word_of_int (al_maxOrderNotional l))) (of_nat (al_maxOpenOrders l))) (word_of_int (al_maxPositionQty l))"

definition hashAccountLimits :: "(nat \<times> account_limits) list \<Rightarrow> 64 word \<Rightarrow> 64 word" where
  "hashAccountLimits t h = digest_section limits_hash t h"

record set_admission_profile =
  sa_symbol :: nat
  sa_account :: nat
  sa_profile :: admission_profile

definition writeAdmission :: "nat \<Rightarrow> (nat \<times> admission_profile) list \<Rightarrow> set_admission_profile list" where
  "writeAdmission symbol t = write_section (\<lambda>acct p. [\<lparr>sa_symbol = symbol, sa_account = acct, sa_profile = p\<rparr>]) t"

definition apply_admission :: "set_admission_profile \<Rightarrow> (nat \<times> admission_profile) list \<Rightarrow> (nat \<times> admission_profile) list" where
  "apply_admission r t = cs_admission (setAdmissionProfile (sa_account r) (sa_profile r) (credit_init\<lparr>cs_admission := t\<rparr>))"

record restore_reservation =
  rr_id :: nat
  rr_account :: nat
  rr_asset :: nat
  rr_side :: side
  rr_limitPriceRaw :: int
  rr_reservedRaw :: int

definition reservation_record :: "nat \<Rightarrow> reservation \<Rightarrow> restore_reservation" where
  "reservation_record i r = \<lparr>rr_id = i, rr_account = rv_account r, rr_asset = rv_asset r, rr_side = rv_side r,
     rr_limitPriceRaw = rv_limitPriceRaw r, rr_reservedRaw = rv_reservedRaw r\<rparr>"

definition writeReservations :: "(nat \<times> reservation) list \<Rightarrow> restore_reservation list" where
  "writeReservations t = write_section (\<lambda>i r. [reservation_record i r]) t"

definition limits_record :: "nat \<Rightarrow> nat \<Rightarrow> account_limits \<Rightarrow> set_account_risk_limits" where
  "limits_record symbol acct l = \<lparr>sl_symbol = symbol,
     sl_fields = AccountRiskFatFinger OR AccountRiskMaxOpenOrders OR AccountRiskMaxPosition, sl_account = acct,
     sl_maxOrderQty = al_maxOrderQty l, sl_maxOrderNotional = al_maxOrderNotional l, sl_maxOpenOrders = al_maxOpenOrders l,
     sl_maxPositionQty = al_maxPositionQty l\<rparr>"

definition writeAccountLimits :: "nat \<Rightarrow> (nat \<times> account_limits) list \<Rightarrow> set_account_risk_limits list" where
  "writeAccountLimits symbol t = write_section (\<lambda>acct l. [limits_record symbol acct l]) t"

definition applyRestoreReservation :: "bool \<Rightarrow> restore_reservation \<Rightarrow> ledger option \<times> credit_state \<Rightarrow> bool \<times> ledger option \<times> credit_state" where
  "applyRestoreReservation exactBalances r = (\<lambda>(ledger, C).
    if map_of (cs_reserve C) (rr_id r) \<noteq> None then (False, ledger, C)
    else case ledger of
      None \<Rightarrow> (\<not> rr_reservedRaw r > 0, None, C)
    | Some L \<Rightarrow>
        (let (ok, L) = (if \<not> exactBalances \<and> rr_reservedRaw r > 0 then reserve L (rr_account r) (rr_asset r) (rr_reservedRaw r) else (True, L))
         in if \<not> ok then (False, Some L, C)
            else (True, Some L, cr_put (rr_id r) \<lparr>rv_account = rr_account r, rv_asset = rr_asset r, rv_reservedRaw = rr_reservedRaw r,
                   rv_limitPriceRaw = rr_limitPriceRaw r, rv_side = rr_side r\<rparr> C)))"

definition restore_reservation_entry :: "restore_reservation \<Rightarrow> (nat \<times> reservation) list \<Rightarrow> (nat \<times> reservation) list" where
  "restore_reservation_entry r t = cs_reserve (snd (snd (applyRestoreReservation True r (Some [], credit_init\<lparr>cs_reserve := t\<rparr>))))"

end
