(* ===== verification/CreditProps.thy ===== *)
theory CreditProps
  imports Credit
begin

section \<open>Buying power stays ring-fenced\<close>

text \<open>
  The reservation table and the reserved side of the ledger move together: for every account and
  asset, what the table claims is covered by what the ledger holds back, and each operation moves
  the two by the same amount. A ledger may be shared by several engines, so the statement is about
  the difference, not about equality.
\<close>

subsection \<open>What the table claims\<close>

definition claim_of :: "nat \<Rightarrow> nat \<Rightarrow> reservation \<Rightarrow> int" where
  "claim_of c a r = (if rv_account r = c \<and> rv_asset r = a then rv_reservedRaw r else 0)"

definition claimed :: "credit_state \<Rightarrow> nat \<Rightarrow> nat \<Rightarrow> int" where
  "claimed C c a = sum_list (map (claim_of c a \<circ> snd) (cs_reserve C))"

lemma isum_update:
  fixes f :: "'v \<Rightarrow> int"
  assumes "distinct (map fst t)"
  shows "sum_list (map (f \<circ> snd) (AList.update k v t)) = sum_list (map (f \<circ> snd) t) + f v - (case map_of t k of None \<Rightarrow> 0 | Some w \<Rightarrow> f w)"
  using assms by (induction t) (auto simp: map_of_eq_None_iff [THEN iffD2] split: option.split)

lemma isum_delete:
  fixes f :: "'v \<Rightarrow> int"
  assumes "distinct (map fst t)"
  shows "sum_list (map (f \<circ> snd) (AList.delete k t)) = sum_list (map (f \<circ> snd) t) - (case map_of t k of None \<Rightarrow> 0 | Some w \<Rightarrow> f w)"
  using assms by (induction t) (auto simp: map_of_eq_None_iff [THEN iffD2] split: option.split)

lemma isum_member:
  fixes f :: "'v \<Rightarrow> int"
  assumes "\<forall>k v. map_of t k = Some v \<longrightarrow> 0 \<le> f v" "distinct (map fst t)" "map_of t k = Some v"
  shows "f v \<le> sum_list (map (f \<circ> snd) t)"
proof -
  have "(k, v) \<in> set t" using assms(3) by (rule map_of_SomeD)
  moreover have "0 \<le> x" if "x \<in> set (map (f \<circ> snd) t)" for x using that assms(1,2) by auto
  ultimately show ?thesis by (intro member_le_sum_list) force+
qed

definition fenced :: "ledger \<Rightarrow> credit_state \<Rightarrow> bool" where
  "fenced L C \<longleftrightarrow> distinct (map fst (cs_reserve C))
     \<and> (\<forall>i r. map_of (cs_reserve C) i = Some r \<longrightarrow> 0 \<le> rv_reservedRaw r \<and> 0 \<le> rv_limitPriceRaw r \<and> account_ok (rv_account r) \<and> asset_ok (rv_asset r))
     \<and> (\<forall>c a. account_ok c \<longrightarrow> asset_ok a \<longrightarrow> claimed C c a \<le> reserved L c a)"

lemma fencedD:
  assumes "fenced L C"
  shows "distinct (map fst (cs_reserve C))"
    "map_of (cs_reserve C) i = Some r \<Longrightarrow> 0 \<le> rv_reservedRaw r \<and> 0 \<le> rv_limitPriceRaw r \<and> account_ok (rv_account r) \<and> asset_ok (rv_asset r)"
    "account_ok c \<Longrightarrow> asset_ok a \<Longrightarrow> claimed C c a \<le> reserved L c a"
  using assms unfolding fenced_def by blast+

lemma covered:
  assumes "fenced L C" "map_of (cs_reserve C) i = Some r"
  shows "rv_reservedRaw r \<le> reserved L (rv_account r) (rv_asset r)"
proof -
  have "claim_of (rv_account r) (rv_asset r) r \<le> claimed C (rv_account r) (rv_asset r)"
    unfolding claimed_def using fencedD(1,2) [OF assms(1)] assms(2)
    by (intro isum_member) (auto simp: claim_of_def simp del: map_of_eq_Some_iff)
  then show ?thesis using fencedD(2,3) [OF assms(1)] assms(2) by (fastforce simp: claim_of_def simp del: map_of_eq_Some_iff)
qed

lemma claimed_put:
  assumes "distinct (map fst (cs_reserve C))"
  shows "claimed (cr_put i r C) c a = claimed C c a + claim_of c a r - (case map_of (cs_reserve C) i of None \<Rightarrow> 0 | Some r0 \<Rightarrow> claim_of c a r0)"
  using isum_update [OF assms, of "claim_of c a"] by (simp add: claimed_def cr_put_def)

lemma claimed_erase:
  assumes "distinct (map fst (cs_reserve C))"
  shows "claimed (cr_erase i C) c a = claimed C c a - (case map_of (cs_reserve C) i of None \<Rightarrow> 0 | Some r0 \<Rightarrow> claim_of c a r0)"
  using isum_delete [OF assms, of "claim_of c a"] by (simp add: claimed_def cr_erase_def)

subsection \<open>Lockstep\<close>

text \<open>One step: the fence stands, no row changes its total, and every row's reserved side moves with its claims.\<close>

definition lockstep :: "ledger \<times> credit_state \<Rightarrow> ledger \<times> credit_state \<Rightarrow> bool" where
  "lockstep = (\<lambda>(L, C) (L', C'). fenced L' C' \<and> (\<forall>c a. account_ok c \<longrightarrow> asset_ok a \<longrightarrow>
     total L' c a = total L c a \<and> reserved L' c a - claimed C' c a = reserved L c a - claimed C c a))"

lemma lockstep_refl: "fenced L C \<Longrightarrow> lockstep (L, C) (L, C)"
  by (simp add: lockstep_def)

lemma lockstep_trans: "lockstep x y \<Longrightarrow> lockstep y z \<Longrightarrow> lockstep x z"
  by (auto simp: lockstep_def split: prod.splits)

lemma release_row:
  assumes "account_ok c0" "asset_ok a0" "account_ok c" "asset_ok a" "0 \<le> q" "q \<le> reserved L c0 a0"
  shows "reserved (release L c0 a0 q) c a = reserved L c a - (if c = c0 \<and> a = a0 then q else 0)"
    "total (release L c0 a0 q) c a = total L c a"
  using assms key_inject [of a0 a c0 c] by (auto simp: balance_views ledger_ops bal_of_put)

lemma lockstepI:
  assumes "fenced L C" "distinct (map fst (cs_reserve C'))"
    and "\<And>i r. map_of (cs_reserve C') i = Some r \<Longrightarrow> 0 \<le> rv_reservedRaw r \<and> 0 \<le> rv_limitPriceRaw r \<and> account_ok (rv_account r) \<and> asset_ok (rv_asset r)"
    and "\<And>c a. account_ok c \<Longrightarrow> asset_ok a \<Longrightarrow> total L' c a = total L c a \<and> reserved L' c a - claimed C' c a = reserved L c a - claimed C c a"
  shows "lockstep (L, C) (L', C')"
proof -
  have "claimed C' c a \<le> reserved L' c a" if "account_ok c" "asset_ok a" for c a
    using assms(4) [OF that] fencedD(3) [OF assms(1) that] by linarith
  then show ?thesis using assms(2,3,4) unfolding lockstep_def fenced_def by simp
qed

text \<open>Giving back part of one reservation.\<close>

lemma lockstep_give_back:
  assumes f: "fenced L C" and r: "map_of (cs_reserve C) i = Some r" and q: "0 \<le> q" "q \<le> rv_reservedRaw r"
  shows "lockstep (L, C) (release L (rv_account r) (rv_asset r) q, cr_put i (r\<lparr>rv_reservedRaw := rv_reservedRaw r - q\<rparr>) C)"
proof (rule lockstepI [OF f])
  note ok = fencedD(2) [OF f r]
  let ?C = "cr_put i (r\<lparr>rv_reservedRaw := rv_reservedRaw r - q\<rparr>) C"
  show "distinct (map fst (cs_reserve ?C))" using fencedD(1) [OF f] by (simp add: cr_put_def distinct_update)
  show "0 \<le> rv_reservedRaw s \<and> 0 \<le> rv_limitPriceRaw s \<and> account_ok (rv_account s) \<and> asset_ok (rv_asset s)" if "map_of (cs_reserve ?C) j = Some s" for j s
    using that ok q fencedD(2) [OF f, of j s] by (cases "j = i") (auto simp: cr_put_def update_conv' simp del: map_of_eq_Some_iff)
  show "total (release L (rv_account r) (rv_asset r) q) c a = total L c a \<and>
      reserved (release L (rv_account r) (rv_asset r) q) c a - claimed ?C c a = reserved L c a - claimed C c a"
    if "account_ok c" "asset_ok a" for c a
    using release_row [of "rv_account r" "rv_asset r" c a q L] ok that q covered [OF f r] r
    by (auto simp: claimed_put [OF fencedD(1) [OF f]] claim_of_def simp del: map_of_eq_Some_iff)
qed

lemma lockstep_erase:
  assumes f: "fenced L C" and r: "map_of (cs_reserve C) i = Some r"
  shows "lockstep (L, C) (release L (rv_account r) (rv_asset r) (rv_reservedRaw r), cr_erase i C)"
proof (rule lockstepI [OF f])
  note ok = fencedD(2) [OF f r]
  show "distinct (map fst (cs_reserve (cr_erase i C)))" using fencedD(1) [OF f] by (simp add: cr_erase_def distinct_delete)
  show "0 \<le> rv_reservedRaw s \<and> 0 \<le> rv_limitPriceRaw s \<and> account_ok (rv_account s) \<and> asset_ok (rv_asset s)" if "map_of (cs_reserve (cr_erase i C)) j = Some s" for j s
    using that fencedD(2) [OF f, of j s] by (auto simp: cr_erase_def delete_conv' simp del: map_of_eq_Some_iff split: if_splits)
  show "total (release L (rv_account r) (rv_asset r) (rv_reservedRaw r)) c a = total L c a \<and>
      reserved (release L (rv_account r) (rv_asset r) (rv_reservedRaw r)) c a - claimed (cr_erase i C) c a = reserved L c a - claimed C c a"
    if "account_ok c" "asset_ok a" for c a
    using release_row [of "rv_account r" "rv_asset r" c a "rv_reservedRaw r" L] ok that covered [OF f r] r
    by (auto simp: claimed_erase [OF fencedD(1) [OF f]] claim_of_def simp del: map_of_eq_Some_iff)
qed

text \<open>Rows that read alike are interchangeable: an operation that only creates an empty row moves nothing.\<close>

lemma lockstep_rows:
  assumes "lockstep x (L', C')" "\<And>c a. account_ok c \<Longrightarrow> asset_ok a \<Longrightarrow> reserved L c a = reserved L' c a \<and> total L c a = total L' c a"
  shows "lockstep x (L, C')"
  using assms by (cases x) (auto simp: lockstep_def fenced_def)

lemma release_zero_rows:
  assumes "account_ok c0" "asset_ok a0" "0 \<le> reserved L c0 a0" "account_ok c" "asset_ok a"
  shows "reserved L c a = reserved (release L c0 a0 0) c a \<and> total L c a = total (release L c0 a0 0) c a"
  using release_row [of c0 a0 c a 0 L] assms by auto

lemma lockstep_releaseReservation:
  assumes "fenced L C"
  shows "lockstep (L, C) (releaseReservation i (L, C))"
proof (cases "map_of (cs_reserve C) i")
  case None
  then show ?thesis using assms by (simp add: releaseReservation_def lockstep_refl)
next
  case (Some r)
  note ok = fencedD(2) [OF assms Some]
  show ?thesis
  proof (cases "rv_reservedRaw r = 0")
    case True
    then have "lockstep (L, C) (L, cr_erase i C)"
      using lockstep_rows [OF lockstep_erase [OF assms Some]] release_zero_rows [of "rv_account r" "rv_asset r" L] ok covered [OF assms Some] by simp
    then show ?thesis using Some True by (simp add: releaseReservation_def)
  next
    case False
    then show ?thesis using lockstep_erase [OF assms Some] Some ok by (simp add: releaseReservation_def)
  qed
qed

lemma notional_nonneg:
  assumes "scalesValid ps qs" "0 \<le> p" "0 \<le> q"
  shows "0 \<le> notionalRaw p q ps qs"
  using assms unfolding notionalRaw_def Let_def scalesValid_def kMoneyScale_def
  by (auto intro!: mult_nonneg_nonneg simp: sdiv_nonneg pos_imp_zdiv_nonneg_iff div_int_pos_iff split: if_splits)

definition config_sane :: "symbol_config \<Rightarrow> bool" where
  "config_sane cfg \<longleftrightarrow> scalesValid (sc_priceScale cfg) (sc_qtyScale cfg) \<and> 0 \<le> sc_initialMarginBps cfg \<and> 0 \<le> sc_maxPrice cfg
     \<and> asset_ok (sc_baseAsset cfg) \<and> asset_ok (sc_quoteAsset cfg)"

lemma im_nonneg: "config_sane cfg \<Longrightarrow> 0 \<le> p \<Longrightarrow> 0 \<le> q \<Longrightarrow> 0 \<le> imForRaw q p cfg"
  using notional_nonneg [of "sc_priceScale cfg" "sc_qtyScale cfg" p q]
  by (simp add: imForRaw_def config_sane_def sdiv_nonneg pos_imp_zdiv_nonneg_iff)

lemma backing_nonneg: "config_sane cfg \<Longrightarrow> 0 \<le> rv_limitPriceRaw r \<Longrightarrow> 0 \<le> q \<Longrightarrow> 0 \<le> backingFor r q cfg"
  using im_nonneg notional_nonneg by (simp add: backingFor_def amountOf_def config_sane_def)

lemma lockstep_exceptHeld:
  assumes "fenced L C" "config_sane cfg" "0 \<le> heldQty"
  shows "lockstep (L, C) (releaseReservationExceptHeld i heldQty cfg (L, C))"
proof (cases "map_of (cs_reserve C) i")
  case None
  then show ?thesis using assms lockstep_releaseReservation [OF assms(1), of i]
    by (simp add: releaseReservationExceptHeld_def lockstep_refl)
next
  case (Some r)
  note ok = fencedD(2) [OF assms(1) Some]
  let ?keep = "min (backingFor r heldQty cfg) (rv_reservedRaw r)"
  have k: "0 \<le> ?keep" using backing_nonneg [OF assms(2) _ assms(3)] ok by simp
  have "lockstep (L, C) (release L (rv_account r) (rv_asset r) (rv_reservedRaw r - ?keep), cr_put i (r\<lparr>rv_reservedRaw := ?keep\<rparr>) C)"
    using lockstep_give_back [OF assms(1) Some, of "rv_reservedRaw r - ?keep"] k by simp
  then show ?thesis using Some lockstep_releaseReservation [OF assms(1), of i] lockstep_refl [OF assms(1)]
    by (auto simp: releaseReservationExceptHeld_def Let_def min_def)
qed

lemma lockstep_pro:
  assumes "fenced L C" "0 \<le> toQty"
  shows "lockstep (L, C) (releaseReservationPro i fromQty toQty (L, C))"
proof (cases "map_of (cs_reserve C) i")
  case None
  then show ?thesis using assms by (simp add: releaseReservationPro_def lockstep_refl)
next
  case (Some r)
  note ok = fencedD(2) [OF assms(1) Some]
  let ?freed = "(rv_reservedRaw r * (fromQty - toQty)) sdiv fromQty"
  have "?freed \<le> rv_reservedRaw r" if "0 < fromQty" "toQty < fromQty"
  proof -
    have "rv_reservedRaw r * (fromQty - toQty) \<le> rv_reservedRaw r * fromQty" using ok assms(2) by (intro mult_left_mono) simp_all
    then have "?freed \<le> (rv_reservedRaw r * fromQty) sdiv fromQty" using that by (intro sdiv_le_pos) simp_all
    then show ?thesis using that ok by (simp add: sdiv_nonneg)
  qed
  then show ?thesis using Some lockstep_refl [OF assms(1)] lockstep_give_back [OF assms(1) Some, of ?freed]
    by (auto simp: releaseReservationPro_def Let_def)
qed

lemma lockstep_heldLeg:
  assumes "fenced L C" "config_sane cfg" "0 \<le> qty"
  shows "lockstep (L, C) (releaseHeldLeg i qty cfg rests (L, C))"
proof (cases "map_of (cs_reserve C) i")
  case None
  then show ?thesis using assms by (simp add: releaseHeldLeg_def lockstep_refl)
next
  case (Some r)
  note ok = fencedD(2) [OF assms(1) Some]
  let ?rel = "min (backingFor r qty cfg) (rv_reservedRaw r)"
  let ?L = "if ?rel > 0 then release L (rv_account r) (rv_asset r) ?rel else L"
  have rel: "0 \<le> ?rel" using backing_nonneg [OF assms(2) _ assms(3)] ok by simp
  have rows: "reserved ?L c a = reserved (release L (rv_account r) (rv_asset r) ?rel) c a
      \<and> total ?L c a = total (release L (rv_account r) (rv_asset r) ?rel) c a" if "account_ok c" "asset_ok a" for c a
    using release_zero_rows [of "rv_account r" "rv_asset r" L c a] ok that covered [OF assms(1) Some] rel by (cases "?rel = 0") auto
  have kept: "lockstep (L, C) (?L, cr_put i (r\<lparr>rv_reservedRaw := rv_reservedRaw r - ?rel\<rparr>) C)"
    using lockstep_rows [OF lockstep_give_back [OF assms(1) Some rel] rows] by simp
  have gone: "lockstep (L, C) (?L, cr_erase i C)" if "?rel = rv_reservedRaw r"
    using lockstep_rows [OF lockstep_erase [OF assms(1) Some], of ?L] rows that by auto
  have "releaseHeldLeg i qty cfg rests (L, C) = (?L, if rv_reservedRaw r - ?rel \<le> 0 \<and> \<not> rests then cr_erase i C
      else cr_put i (r\<lparr>rv_reservedRaw := rv_reservedRaw r - ?rel\<rparr>) C)"
    using Some by (auto simp: releaseHeldLeg_def Let_def min_def)
  then show ?thesis using kept gone by auto
qed

subsection \<open>Admission of an order\<close>

lemma reserve_row:
  assumes "account_ok c0" "asset_ok a0" "account_ok c" "asset_ok a"
  shows "reserved (snd (reserve L c0 a0 q)) c a = reserved L c a + (if fst (reserve L c0 a0 q) \<and> c = c0 \<and> a = a0 then q else 0)"
    "total (snd (reserve L c0 a0 q)) c a = total L c a"
  using assms key_inject [of a0 a c0 c] by (auto simp: balance_views ledger_ops bal_of_put)

lemma lockstep_refused:
  assumes "fenced L C" "account_ok c0" "asset_ok a0" "\<not> fst (reserve L c0 a0 q)"
  shows "lockstep (L, C) (snd (reserve L c0 a0 q), C)"
  by (rule lockstep_rows [OF lockstep_refl [OF assms(1)]]) (use assms reserve_row in simp)

lemma lockstep_claim:
  assumes f: "fenced L C" and new: "map_of (cs_reserve C) i = None" and ok: "account_ok (rv_account r)" "asset_ok (rv_asset r)"
    and q: "0 \<le> rv_reservedRaw r" "0 \<le> rv_limitPriceRaw r"
    and rows: "\<And>c a. account_ok c \<Longrightarrow> asset_ok a \<Longrightarrow> total L' c a = total L c a \<and> reserved L' c a = reserved L c a + claim_of c a r"
  shows "lockstep (L, C) (L', cr_put i r C)"
proof (rule lockstepI [OF f])
  show "distinct (map fst (cs_reserve (cr_put i r C)))" using fencedD(1) [OF f] by (simp add: cr_put_def distinct_update)
  show "0 \<le> rv_reservedRaw s \<and> 0 \<le> rv_limitPriceRaw s \<and> account_ok (rv_account s) \<and> asset_ok (rv_asset s)"
    if "map_of (cs_reserve (cr_put i r C)) j = Some s" for j s
    using that ok q fencedD(2) [OF f, of j s] by (cases "j = i") (auto simp: cr_put_def update_conv' simp del: map_of_eq_Some_iff)
  show "total L' c a = total L c a \<and> reserved L' c a - claimed (cr_put i r C) c a = reserved L c a - claimed C c a"
    if "account_ok c" "asset_ok a" for c a
    using rows [OF that] new by (simp add: claimed_put [OF fencedD(1) [OF f]])
qed

definition order_sane :: "new_order \<Rightarrow> bool" where
  "order_sane ord \<longleftrightarrow> 0 \<le> no_price ord \<and> 0 < no_quantity ord \<and> account_ok (no_accountId ord)"

lemma lockstep_perp:
  assumes "fenced L C" "map_of (cs_reserve C) (no_id ord) = None" "config_sane cfg" "order_sane ord"
  shows "lockstep (L, C) (snd (reserve_perp ord cfg L C))"
proof -
  define limit where "limit = (if no_type ord = LIMIT then no_price ord else sc_maxPrice cfg)"
  define im where "im = (if no_reduceOnly ord then 0 else imForRaw (no_quantity ord) limit cfg)"
  define r where "r = \<lparr>rv_account = no_accountId ord, rv_asset = sc_quoteAsset cfg, rv_reservedRaw = im, rv_limitPriceRaw = limit, rv_side = no_side ord\<rparr>"
  define run where "run = reserve L (no_accountId ord) (sc_quoteAsset cfg) im"
  have limit: "0 \<le> limit" using assms(3,4) by (simp add: order_sane_def config_sane_def limit_def)
  have im: "0 \<le> im" using im_nonneg [OF assms(3) limit] assms(4) by (simp add: order_sane_def im_def)
  have ok: "account_ok (no_accountId ord)" "asset_ok (sc_quoteAsset cfg)" using assms(3,4) by (simp_all add: order_sane_def config_sane_def)
  have claim: "lockstep (L, C) (L', cr_put (no_id ord) r C)"
    if "\<And>c a. account_ok c \<Longrightarrow> asset_ok a \<Longrightarrow> total L' c a = total L c a \<and> reserved L' c a = reserved L c a + claim_of c a r" for L'
    by (rule lockstep_claim [OF assms(1,2)]) (use ok im limit that in \<open>auto simp: r_def\<close>)
  have free: "lockstep (L, C) (L, cr_put (no_id ord) r C)" if "\<not> 0 < im"
    by (rule claim) (use that im in \<open>simp add: claim_of_def r_def\<close>)
  have some: "lockstep (L, C) (snd run, cr_put (no_id ord) r C)" if "fst run"
    by (rule claim) (use reserve_row [OF ok] that in \<open>auto simp: claim_of_def r_def run_def\<close>)
  have refused: "lockstep (L, C) (snd run, C)" if "\<not> fst run"
    unfolding run_def by (rule lockstep_refused [OF assms(1) ok]) (use that in \<open>simp add: run_def\<close>)
  have "reserve_perp ord cfg L C = (if \<not> no_reduceOnly ord \<and> no_type ord \<noteq> LIMIT \<and> limit \<le> 0 then (False, L, C)
      else if im > 0 then if fst run then (True, snd run, cr_put (no_id ord) r C) else (False, snd run, C)
      else (True, L, cr_put (no_id ord) r C))"
    unfolding reserve_perp_def Let_def case_prod_unfold limit_def [symmetric] im_def [symmetric] by (simp add: run_def r_def)
  then show ?thesis using free some refused lockstep_refl [OF assms(1)] by simp
qed

lemma lockstep_spot:
  assumes "fenced L C" "map_of (cs_reserve C) (no_id ord) = None" "config_sane cfg" "order_sane ord"
  shows "lockstep (L, C) (snd (reserve_spot ord cfg L C))"
proof -
  define px where "px = (if no_type ord = LIMIT \<or> sc_maxPrice cfg = 0 then no_price ord else sc_maxPrice cfg)"
  define asset where "asset = (if no_side ord = BUY then sc_quoteAsset cfg else sc_baseAsset cfg)"
  define amt where "amt = (if no_side ord = BUY then notionalRaw px (no_quantity ord) (sc_priceScale cfg) (sc_qtyScale cfg) else amountOf (no_quantity ord))"
  define limit where "limit = (if no_side ord = BUY then px else no_price ord)"
  define r where "r = \<lparr>rv_account = no_accountId ord, rv_asset = asset, rv_reservedRaw = amt, rv_limitPriceRaw = limit, rv_side = no_side ord\<rparr>"
  define run where "run = reserve L (no_accountId ord) asset amt"
  have px: "0 \<le> px" using assms(3,4) by (simp add: order_sane_def config_sane_def px_def)
  then have limit: "0 \<le> limit" using assms(4) by (simp add: order_sane_def limit_def)
  have amt: "0 \<le> amt" using notional_nonneg [OF _ px] assms(3,4) by (simp add: order_sane_def config_sane_def amountOf_def amt_def)
  have ok: "account_ok (no_accountId ord)" "asset_ok asset" using assms(3,4) by (simp_all add: order_sane_def config_sane_def asset_def)
  have some: "lockstep (L, C) (snd run, cr_put (no_id ord) r C)" if "fst run"
    by (rule lockstep_claim [OF assms(1,2)]) (use reserve_row [OF ok] that ok amt limit in \<open>auto simp: claim_of_def r_def run_def\<close>)
  have refused: "lockstep (L, C) (snd run, C)" if "\<not> fst run"
    unfolding run_def by (rule lockstep_refused [OF assms(1) ok]) (use that in \<open>simp add: run_def\<close>)
  have "reserve_spot ord cfg L C = (if no_side ord = BUY \<and> px \<le> 0 then (False, L, C)
      else if fst run then (True, snd run, cr_put (no_id ord) r C) else (False, snd run, C))"
    unfolding reserve_spot_def Let_def case_prod_unfold px_def [symmetric] by (simp add: run_def r_def asset_def amt_def limit_def)
  then show ?thesis using some refused lockstep_refl [OF assms(1)] by simp
qed

lemma lockstep_reserveFunds:
  assumes "fenced L C" "map_of (cs_reserve C) (no_id ord) = None" "config_sane cfg" "order_sane ord"
    "reserveFunds ord cfg (Some L) C = (ok, Some L', C')"
  shows "lockstep (L, C) (L', C')"
proof -
  have "lockstep (L, C) (L, C\<lparr>cs_creditReason := w\<rparr>)" for w
    using lockstep_refl [OF assms(1)] by (simp add: lockstep_def fenced_def claimed_def)
  then show ?thesis
    using assms(5) lockstep_perp [OF assms(1-4)] lockstep_spot [OF assms(1-4)]
    by (auto simp: reserveFunds_def reserve_money_def Let_def case_prod_unfold split: option.splits if_splits)
qed

subsection \<open>Settlement\<close>

lemma asset_total_ops:
  assumes "asset_ok a"
  shows "asset_total (spendReserved L c a q) x = asset_total L x - (if x = a then q else 0)"
    "asset_total (release L c a q) x = asset_total L x"
  using assms by (auto simp: ledger_ops asset_total_put balance_views)

lemma debit_total:
  assumes "asset_ok a"
  shows "asset_total (snd (debit L c a q)) x = asset_total L x - (if fst (debit L c a q) \<and> x = a then q else 0)"
  using ldg.tot_debit [of a L c q x] assms by (cases "debit L c a q") auto

lemma credit_total: "asset_ok a \<Longrightarrow> asset_total (credit L c a q) x = asset_total L x + (if x = a then q else 0)"
  using ldg.tot_credit [of a L c q x] by auto

lemma buyer_pays_total:
  assumes "asset_ok (sc_quoteAsset cfg)"
  shows "asset_total (fst (buyer_pays cfg i c notional q (L, C))) x =
    asset_total L x - (if x = sc_quoteAsset cfg \<and> map_of (cs_reserve C) i \<noteq> None then notional else 0)"
  using assms by (auto simp: buyer_pays_def Let_def asset_total_ops split: option.split)

lemma seller_delivers_total:
  assumes "asset_ok (sc_baseAsset cfg)"
  shows "asset_total (fst (seller_delivers cfg i c q (L, C))) x =
    asset_total L x - (if x = sc_baseAsset cfg \<and> map_of (cs_reserve C) i \<noteq> None then q else 0)"
  using assms by (auto simp: seller_delivers_def asset_total_ops split: option.split)

lemma buyer_pays_other:
  "map_of (cs_reserve (snd (buyer_pays cfg i c notional q (L, C)))) j = None \<longleftrightarrow> map_of (cs_reserve C) j = None"
  by (auto simp: buyer_pays_def Let_def cr_put_def update_conv' split: option.splits)

text \<open>The settlement as a whole, each unreserved side already debited.\<close>

lemma settle_legs_total:
  assumes "asset_ok (sc_baseAsset cfg)" "asset_ok (sc_quoteAsset cfg)"
    and "buyer_pays cfg b bc notional n (L0, C) = (L1, C1)"
    and "seller_delivers cfg s sc q (credit L1 bc (sc_baseAsset cfg) q, C1) = (L2, C2)"
  shows "asset_total (credit L2 sc (sc_quoteAsset cfg) notional) x = asset_total L0 x
    + (if x = sc_quoteAsset cfg \<and> map_of (cs_reserve C) b = None then notional else 0)
    + (if x = sc_baseAsset cfg \<and> map_of (cs_reserve C) s = None then q else 0)"
proof -
  have L1: "asset_total L1 x = asset_total L0 x - (if x = sc_quoteAsset cfg \<and> map_of (cs_reserve C) b \<noteq> None then notional else 0)"
    using buyer_pays_total [OF assms(2), of b bc notional n L0 C x] assms(3) by simp
  have "map_of (cs_reserve C1) s = None \<longleftrightarrow> map_of (cs_reserve C) s = None"
    using buyer_pays_other [of cfg b bc notional n L0 C s] assms(3) by simp
  then have "asset_total L2 x = asset_total (credit L1 bc (sc_baseAsset cfg) q) x
      - (if x = sc_baseAsset cfg \<and> map_of (cs_reserve C) s \<noteq> None then q else 0)"
    using seller_delivers_total [OF assms(1), of s sc q "credit L1 bc (sc_baseAsset cfg) q" C1 x] assms(4) by simp
  then show ?thesis using L1 assms(1,2)
    by (cases "map_of (cs_reserve C) b"; cases "map_of (cs_reserve C) s") (auto simp: credit_total simp del: map_of_eq_Some_iff)
qed

lemma settle_spot_total:
  assumes ok: "asset_ok (sc_baseAsset cfg)" "asset_ok (sc_quoteAsset cfg)"
  shows "asset_total (fst (fst (snd (settle_spot rates cfg venue t (L, C))))) x = asset_total L x"
proof -
  define notional where "notional = notionalRaw (tr_price t) (tr_quantity t) (sc_priceScale cfg) (sc_qtyScale cfg)"
  define q where "q = amountOf (tr_quantity t)"
  define b where "b = (if tr_takerSide t = BUY then tr_takerId t else tr_makerId t)"
  define bc where "bc = (if tr_takerSide t = BUY then tr_takerAccount t else tr_makerAccount t)"
  define s where "s = (if tr_takerSide t = BUY then tr_makerId t else tr_takerId t)"
  define sc where "sc = (if tr_takerSide t = BUY then tr_makerAccount t else tr_takerAccount t)"
  obtain paid La where a: "(if map_of (cs_reserve C) b = None then debit L bc (sc_quoteAsset cfg) notional else (True, L)) = (paid, La)"
    by (metis surj_pair)
  obtain dlv Lb where d: "(if map_of (cs_reserve C) s = None then debit La sc (sc_baseAsset cfg) q else (True, La)) = (dlv, Lb)"
    by (metis surj_pair)
  obtain L1 C1 where p: "buyer_pays cfg b bc notional (tr_quantity t) (Lb, C) = (L1, C1)" by (metis surj_pair)
  obtain L2 C2 where v: "seller_delivers cfg s sc q (credit L1 bc (sc_baseAsset cfg) q, C1) = (L2, C2)" by (metis surj_pair)
  have settle: "settle_spot rates cfg venue t (L, C) = (if \<not> paid then (False, (La, C), [])
      else if \<not> dlv then (False, (if map_of (cs_reserve C) b = None then credit Lb bc (sc_quoteAsset cfg) notional else Lb, C), [])
      else let (L3, es) = fees_settle rates cfg venue t (credit L2 sc (sc_quoteAsset cfg) notional) in (True, (L3, C2), es))"
    unfolding settle_spot_def Let_def notional_def [symmetric] q_def [symmetric]
      b_def [symmetric] bc_def [symmetric] s_def [symmetric] sc_def [symmetric] by (simp add: a d p v)
  have La: "asset_total La x = asset_total L x - (if x = sc_quoteAsset cfg \<and> paid \<and> map_of (cs_reserve C) b = None then notional else 0)"
    using a debit_total [OF ok(2), of L bc notional x] by (cases "map_of (cs_reserve C) b = None") auto
  have Lb: "asset_total Lb x = asset_total La x - (if x = sc_baseAsset cfg \<and> dlv \<and> map_of (cs_reserve C) s = None then q else 0)"
    using d debit_total [OF ok(1), of La sc q x] by (cases "map_of (cs_reserve C) s = None") auto
  show ?thesis
    using settle_legs_total [OF ok p v, of x] fees_settle_total [OF ok(2), of rates venue t "credit L2 sc (sc_quoteAsset cfg) notional" x]
    by (cases paid; cases dlv) (auto simp: settle case_prod_unfold Let_def La Lb credit_total [OF ok(2)])
qed

subsection \<open>A settled fill keeps the fence\<close>

lemma spend_row:
  assumes "account_ok c0" "asset_ok a0" "account_ok c" "asset_ok a"
  shows "reserved (spendReserved L c0 a0 q) c a = reserved L c a - (if c = c0 \<and> a = a0 then q else 0)"
  using assms key_inject [of a0 a c0 c] by (auto simp: balance_views ledger_ops bal_of_put)

text \<open>The buyer's reservation and the seller's, as a fill needs them: theirs, in the right asset, and large enough.\<close>

definition leg_backed :: "credit_state \<Rightarrow> nat \<Rightarrow> nat \<Rightarrow> nat \<Rightarrow> int \<Rightarrow> reservation \<Rightarrow> bool" where
  "leg_backed C i c a need r \<longleftrightarrow> map_of (cs_reserve C) i = Some r \<and> rv_account r = c \<and> rv_asset r = a \<and> need \<le> rv_reservedRaw r"

text \<open>Paying from one reservation: the row and the claim give up the same amount.\<close>

definition slack :: "ledger \<Rightarrow> credit_state \<Rightarrow> nat \<Rightarrow> nat \<Rightarrow> int" where
  "slack L C c a = reserved L c a - claimed C c a"

lemma fencedI:
  assumes "fenced L C" "distinct (map fst (cs_reserve C'))"
    and "\<And>i r. map_of (cs_reserve C') i = Some r \<Longrightarrow> 0 \<le> rv_reservedRaw r \<and> 0 \<le> rv_limitPriceRaw r \<and> account_ok (rv_account r) \<and> asset_ok (rv_asset r)"
    and "\<And>c a. account_ok c \<Longrightarrow> asset_ok a \<Longrightarrow> slack L' C' c a = slack L C c a"
  shows "fenced L' C'"
proof -
  have "claimed C' c a \<le> reserved L' c a" if "account_ok c" "asset_ok a" for c a
    using assms(4) [OF that] fencedD(3) [OF assms(1) that] by (simp add: slack_def)
  then show ?thesis using assms(2,3) unfolding fenced_def by simp
qed

lemma spend_claim:
  assumes f: "fenced L C" and b: "leg_backed C i c0 a0 need r" and q: "0 \<le> need"
    and rows: "\<And>c a. account_ok c \<Longrightarrow> asset_ok a \<Longrightarrow> reserved L' c a = reserved L c a - (if c = c0 \<and> a = a0 then need else 0)"
  shows "fenced L' (cr_put i (r\<lparr>rv_reservedRaw := rv_reservedRaw r - need\<rparr>) C)
    \<and> (\<forall>c a. account_ok c \<longrightarrow> asset_ok a \<longrightarrow> slack L' (cr_put i (r\<lparr>rv_reservedRaw := rv_reservedRaw r - need\<rparr>) C) c a = slack L C c a)"
proof -
  let ?C = "cr_put i (r\<lparr>rv_reservedRaw := rv_reservedRaw r - need\<rparr>) C"
  have r: "map_of (cs_reserve C) i = Some r" using b by (simp add: leg_backed_def)
  note ok = fencedD(2) [OF f r]
  have sl: "slack L' ?C c a = slack L C c a" if "account_ok c" "asset_ok a" for c a
    using rows [OF that] b r by (auto simp: slack_def claimed_put [OF fencedD(1) [OF f]] claim_of_def leg_backed_def simp del: map_of_eq_Some_iff)
  have "fenced L' ?C"
  proof (rule fencedI [OF f _ _ sl])
    show "distinct (map fst (cs_reserve ?C))" using fencedD(1) [OF f] by (simp add: cr_put_def distinct_update)
    show "0 \<le> rv_reservedRaw s \<and> 0 \<le> rv_limitPriceRaw s \<and> account_ok (rv_account s) \<and> asset_ok (rv_asset s)" if "map_of (cs_reserve ?C) j = Some s" for j s
      using that ok b fencedD(2) [OF f, of j s]
      by (cases "j = i") (auto simp: cr_put_def update_conv' leg_backed_def simp del: map_of_eq_Some_iff)
  qed
  then show ?thesis using sl by blast
qed

lemma buyer_pays_fenced:
  assumes f: "fenced L C" and "asset_ok (sc_quoteAsset cfg)"
    and b: "leg_backed C i c0 (sc_quoteAsset cfg) (notionalRaw (rv_limitPriceRaw r) q (sc_priceScale cfg) (sc_qtyScale cfg)) r"
    and n: "0 \<le> notional" "notional \<le> notionalRaw (rv_limitPriceRaw r) q (sc_priceScale cfg) (sc_qtyScale cfg)"
    and p: "buyer_pays cfg i c0 notional q (L, C) = (L', C')"
  shows "fenced L' C' \<and> (\<forall>c a. account_ok c \<longrightarrow> asset_ok a \<longrightarrow> slack L' C' c a = slack L C c a)"
proof -
  define lim where "lim = notionalRaw (rv_limitPriceRaw r) q (sc_priceScale cfg) (sc_qtyScale cfg)"
  have r: "map_of (cs_reserve C) i = Some r" and own: "rv_account r = c0" "rv_asset r = sc_quoteAsset cfg" and need: "lim \<le> rv_reservedRaw r"
    using b by (simp_all add: leg_backed_def lim_def)
  have c0: "account_ok c0" using fencedD(2) [OF f r] own by simp
  have L': "L' = (let L1 = spendReserved L c0 (sc_quoteAsset cfg) notional in if lim > notional then release L1 c0 (sc_quoteAsset cfg) (lim - notional) else L1)"
    and C': "C' = cr_put i (r\<lparr>rv_reservedRaw := rv_reservedRaw r - lim\<rparr>) C"
    using p r by (auto simp: buyer_pays_def Let_def lim_def)
  have res: "lim \<le> reserved L c0 (sc_quoteAsset cfg)" using covered [OF f r] own need by simp
  have "reserved L' c a = reserved L c a - (if c = c0 \<and> a = sc_quoteAsset cfg then lim else 0)" if ok: "account_ok c" "asset_ok a" for c a
  proof (cases "lim > notional")
    case True
    then show ?thesis
      using spend_row [OF c0 assms(2), of _ _ L notional] c0 assms(2) res ok n
        release_row [OF c0 assms(2) ok, of "lim - notional" "spendReserved L c0 (sc_quoteAsset cfg) notional"] by (simp add: L')
  next
    case False
    then have "lim = notional" using n by (simp add: lim_def)
    then show ?thesis using spend_row [OF c0 assms(2) ok] by (simp add: L')
  qed
  then show ?thesis unfolding C' by (intro spend_claim [OF f b [folded lim_def]]) (use n in \<open>simp_all add: lim_def\<close>)
qed

lemma seller_delivers_fenced:
  assumes "fenced L C" "asset_ok (sc_baseAsset cfg)" "leg_backed C i c0 (sc_baseAsset cfg) q r" "0 \<le> q"
    and "seller_delivers cfg i c0 q (L, C) = (L', C')"
  shows "fenced L' C' \<and> (\<forall>c a. account_ok c \<longrightarrow> asset_ok a \<longrightarrow> slack L' C' c a = slack L C c a)"
proof -
  have r: "map_of (cs_reserve C) i = Some r" using assms(3) by (simp add: leg_backed_def)
  have c0: "account_ok c0" using fencedD(2) [OF assms(1) r] assms(3) by (simp add: leg_backed_def)
  have "L' = spendReserved L c0 (sc_baseAsset cfg) q" "C' = cr_put i (r\<lparr>rv_reservedRaw := rv_reservedRaw r - q\<rparr>) C"
    using assms(5) r by (simp_all add: seller_delivers_def)
  then show ?thesis using spend_claim [OF assms(1,3,4)] spend_row [OF c0 assms(2)] by simp
qed

lemma fenced_rows:
  assumes "fenced L C" "\<And>c a. account_ok c \<Longrightarrow> asset_ok a \<Longrightarrow> reserved L' c a = reserved L c a"
  shows "fenced L' C \<and> (\<forall>c a. account_ok c \<longrightarrow> asset_ok a \<longrightarrow> slack L' C c a = slack L C c a)"
  using assms by (simp add: fenced_def slack_def)

definition trade_buyer :: "trade \<Rightarrow> nat \<times> nat" where
  "trade_buyer t = (if tr_takerSide t = BUY then (tr_takerId t, tr_takerAccount t) else (tr_makerId t, tr_makerAccount t))"

definition trade_seller :: "trade \<Rightarrow> nat \<times> nat" where
  "trade_seller t = (if tr_takerSide t = BUY then (tr_makerId t, tr_makerAccount t) else (tr_takerId t, tr_takerAccount t))"

definition fill_backed :: "symbol_config \<Rightarrow> trade \<Rightarrow> credit_state \<Rightarrow> bool" where
  "fill_backed cfg t C \<longleftrightarrow> fst (trade_buyer t) \<noteq> fst (trade_seller t) \<and> 0 \<le> tr_price t \<and> 0 \<le> tr_quantity t
    \<and> (case (map_of (cs_reserve C) (fst (trade_buyer t)), map_of (cs_reserve C) (fst (trade_seller t))) of
        (Some rb, Some rs) \<Rightarrow>
          (let limitNotional = notionalRaw (rv_limitPriceRaw rb) (tr_quantity t) (sc_priceScale cfg) (sc_qtyScale cfg)
           in fee_notionalOf t cfg \<le> limitNotional
              \<and> leg_backed C (fst (trade_buyer t)) (snd (trade_buyer t)) (sc_quoteAsset cfg) limitNotional rb
              \<and> leg_backed C (fst (trade_seller t)) (snd (trade_seller t)) (sc_baseAsset cfg) (tr_quantity t) rs)
      | _ \<Rightarrow> False)"

lemma fenced_trans:
  assumes "fenced L1 C1 \<and> (\<forall>c a. account_ok c \<longrightarrow> asset_ok a \<longrightarrow> slack L1 C1 c a = slack L C c a)"
    and "fenced L2 C2 \<and> (\<forall>c a. account_ok c \<longrightarrow> asset_ok a \<longrightarrow> slack L2 C2 c a = slack L1 C1 c a)"
  shows "fenced L2 C2 \<and> (\<forall>c a. account_ok c \<longrightarrow> asset_ok a \<longrightarrow> slack L2 C2 c a = slack L C c a)"
  using assms by simp

lemma settle_spot_fenced:
  assumes f: "fenced L C" and cfg: "config_sane cfg" and bkd: "fill_backed cfg t C" and venue: "account_ok venue"
    and s: "settle_spot rates cfg venue t (L, C) = (ok, (L', C'), es)"
  shows "ok" "fenced L' C' \<and> (\<forall>c a. account_ok c \<longrightarrow> asset_ok a \<longrightarrow> slack L' C' c a = slack L C c a)"
proof -
  obtain b bc where bb: "trade_buyer t = (b, bc)" by (metis surj_pair)
  obtain sl sc where ss: "trade_seller t = (sl, sc)" by (metis surj_pair)
  define q where "q = tr_quantity t"
  define n where "n = notionalRaw (tr_price t) q (sc_priceScale cfg) (sc_qtyScale cfg)"
  obtain rb rs where lim: "n \<le> notionalRaw (rv_limitPriceRaw rb) q (sc_priceScale cfg) (sc_qtyScale cfg)"
    and lb: "leg_backed C b bc (sc_quoteAsset cfg) (notionalRaw (rv_limitPriceRaw rb) q (sc_priceScale cfg) (sc_qtyScale cfg)) rb"
    and ls: "leg_backed C sl sc (sc_baseAsset cfg) q rs" and ne: "b \<noteq> sl" and pos: "0 \<le> tr_price t" "0 \<le> q"
    using bkd by (auto simp: fill_backed_def bb ss n_def q_def fee_notionalOf_def Let_def simp del: map_of_eq_Some_iff split: option.splits)
  have ok: "asset_ok (sc_baseAsset cfg)" "asset_ok (sc_quoteAsset cfg)" using cfg by (simp_all add: config_sane_def)
  have n0: "0 \<le> n" using notional_nonneg [OF _ pos] cfg by (simp add: n_def q_def config_sane_def)
  have rb: "map_of (cs_reserve C) b = Some rb" and rs: "map_of (cs_reserve C) sl = Some rs" using lb ls by (simp_all add: leg_backed_def)
  have acct: "account_ok bc" "account_ok sc" using fencedD(2) [OF f rb] fencedD(2) [OF f rs] lb ls by (simp_all add: leg_backed_def)
  obtain L1 C1 where p: "buyer_pays cfg b bc n q (L, C) = (L1, C1)" by (metis surj_pair)
  obtain L2 C2 where v: "seller_delivers cfg sl sc q (credit L1 bc (sc_baseAsset cfg) q, C1) = (L2, C2)" by (metis surj_pair)
  have sides: "(if tr_takerSide t = BUY then tr_takerId t else tr_makerId t) = b" "(if tr_takerSide t = BUY then tr_takerAccount t else tr_makerAccount t) = bc"
    "(if tr_takerSide t = BUY then tr_makerId t else tr_takerId t) = sl" "(if tr_takerSide t = BUY then tr_makerAccount t else tr_takerAccount t) = sc"
    using bb ss by (auto simp: trade_buyer_def trade_seller_def split: if_splits)
  have settle: "settle_spot rates cfg venue t (L, C) =
      (let (L3, es) = fees_settle rates cfg venue t (credit L2 sc (sc_quoteAsset cfg) n) in (True, (L3, C2), es))"
    unfolding settle_spot_def Let_def sides amountOf_def q_def [symmetric] n_def [symmetric] using rb rs
    by (simp add: p v del: map_of_eq_Some_iff)
  show "ok" using s settle by (auto simp: case_prod_unfold Let_def)
  have res: "C' = C2" "L' = fst (fees_settle rates cfg venue t (credit L2 sc (sc_quoteAsset cfg) n))"
    using s settle by (auto simp: case_prod_unfold Let_def)
  have 1: "fenced L1 C1 \<and> (\<forall>c a. account_ok c \<longrightarrow> asset_ok a \<longrightarrow> slack L1 C1 c a = slack L C c a)"
    by (rule buyer_pays_fenced [OF f ok(2) lb n0 lim p])
  have 2: "fenced (credit L1 bc (sc_baseAsset cfg) q) C1 \<and>
      (\<forall>c a. account_ok c \<longrightarrow> asset_ok a \<longrightarrow> slack (credit L1 bc (sc_baseAsset cfg) q) C1 c a = slack L1 C1 c a)"
    by (rule fenced_rows) (use 1 acct ok credit_reserved in auto)
  have ls': "leg_backed C1 sl sc (sc_baseAsset cfg) q rs"
    using ls ne p rb by (auto simp: leg_backed_def buyer_pays_def Let_def cr_put_def update_conv' simp del: map_of_eq_Some_iff)
  have 3: "fenced L2 C2 \<and> (\<forall>c a. account_ok c \<longrightarrow> asset_ok a \<longrightarrow> slack L2 C2 c a = slack (credit L1 bc (sc_baseAsset cfg) q) C1 c a)"
    by (rule seller_delivers_fenced [OF _ ok(1) ls' pos(2) v]) (use 2 in blast)
  have mt: "account_ok (tr_makerAccount t)" "account_ok (tr_takerAccount t)"
    using bb ss acct by (auto simp: trade_buyer_def trade_seller_def split: if_splits)
  have 4: "fenced L' C' \<and> (\<forall>c a. account_ok c \<longrightarrow> asset_ok a \<longrightarrow> slack L' C' c a = slack L2 C2 c a)"
    unfolding res by (rule fenced_rows) (use 3 acct ok venue mt in \<open>auto simp: fees_settle_reserved credit_reserved\<close>)
  show "fenced L' C' \<and> (\<forall>c a. account_ok c \<longrightarrow> asset_ok a \<longrightarrow> slack L' C' c a = slack L C c a)"
    using fenced_trans [OF fenced_trans [OF fenced_trans [OF 1 2] 3] 4] .
qed

subsection \<open>Life of the reservations\<close>

inductive credit_step :: "symbol_config \<Rightarrow> nat \<Rightarrow> ledger \<times> credit_state \<Rightarrow> ledger \<times> credit_state \<Rightarrow> bool" for cfg venue where
  step_admit: "map_of (cs_reserve C) (no_id ord) = None \<Longrightarrow> order_sane ord \<Longrightarrow> reserveFunds ord cfg (Some L) C = (ok, Some L', C') \<Longrightarrow>
    credit_step cfg venue (L, C) (L', C')"
| step_release: "credit_step cfg venue s (releaseReservation i s)"
| step_release_held: "0 \<le> heldQty \<Longrightarrow> credit_step cfg venue s (releaseReservationExceptHeld i heldQty cfg s)"
| step_reduce: "0 \<le> toQty \<Longrightarrow> credit_step cfg venue s (releaseReservationPro i fromQty toQty s)"
| step_refused_fill: "0 \<le> qty \<Longrightarrow> credit_step cfg venue s (releaseHeldLeg i qty cfg rests s)"
| step_settle: "fill_backed cfg t (snd s) \<Longrightarrow> settle_spot rates cfg venue t s = (ok, s', es) \<Longrightarrow> credit_step cfg venue s s'"

lemma lockstep_fenced:
  assumes "lockstep (L, C) (L', C')"
  shows "fenced L' C' \<and> (\<forall>c a. account_ok c \<longrightarrow> asset_ok a \<longrightarrow> slack L' C' c a = slack L C c a)"
  using assms by (simp add: lockstep_def slack_def)

lemma credit_step_fenced:
  assumes "credit_step cfg venue s s'" "config_sane cfg" "account_ok venue" "fenced (fst s) (snd s)"
  shows "fenced (fst s') (snd s') \<and> (\<forall>c a. account_ok c \<longrightarrow> asset_ok a \<longrightarrow> slack (fst s') (snd s') c a = slack (fst s) (snd s) c a)"
  using assms
proof (induction rule: credit_step.induct)
  case (step_admit C ord L ok L' C')
  then show ?case using lockstep_fenced [OF lockstep_reserveFunds] by simp
next
  case (step_release s i)
  then show ?case using lockstep_fenced lockstep_releaseReservation by (metis prod.collapse)
next
  case (step_release_held heldQty s i)
  then show ?case using lockstep_fenced lockstep_exceptHeld by (metis prod.collapse)
next
  case (step_reduce toQty s i fromQty)
  then show ?case using lockstep_fenced lockstep_pro by (metis prod.collapse)
next
  case (step_refused_fill qty s i rests)
  then show ?case using lockstep_fenced lockstep_heldLeg by (metis prod.collapse)
next
  case (step_settle t s rates ok s' es)
  then show ?case using settle_spot_fenced(2) by (metis prod.collapse)
qed

lemma reserve_total: "asset_ok a \<Longrightarrow> asset_total (snd (reserve L c a q)) x = asset_total L x"
  by (auto simp: ledger_ops asset_total_put balance_views)

lemma reserveFunds_total:
  assumes "config_sane cfg" "reserveFunds ord cfg (Some L) C = (ok, Some L', C')"
  shows "asset_total L' x = asset_total L x"
  using assms reserve_total [of "sc_quoteAsset cfg"] reserve_total [of "sc_baseAsset cfg"]
  by (auto simp: config_sane_def reserveFunds_def reserve_money_def reserve_perp_def reserve_spot_def Let_def case_prod_unfold split: option.splits if_splits)

lemma credit_step_total:
  assumes "credit_step cfg venue s s'" "config_sane cfg" "fenced (fst s) (snd s)"
  shows "asset_total (fst s') x = asset_total (fst s) x"
  using assms
proof (induction rule: credit_step.induct)
  case (step_admit C ord L ok L' C')
  then show ?case using reserveFunds_total by simp
next
  case (step_release s i)
  then show ?case using fencedD(2) [of "fst s" "snd s" i]
    by (auto simp: releaseReservation_def asset_total_ops case_prod_unfold simp del: map_of_eq_Some_iff split: option.split)
next
  case (step_release_held heldQty s i)
  then show ?case using fencedD(2) [of "fst s" "snd s" i]
    by (auto simp: releaseReservationExceptHeld_def releaseReservation_def asset_total_ops case_prod_unfold Let_def simp del: map_of_eq_Some_iff split: option.split)
next
  case (step_reduce toQty s i fromQty)
  then show ?case using fencedD(2) [of "fst s" "snd s" i]
    by (auto simp: releaseReservationPro_def asset_total_ops case_prod_unfold Let_def simp del: map_of_eq_Some_iff split: option.split)
next
  case (step_refused_fill qty s i rests)
  then show ?case using fencedD(2) [of "fst s" "snd s" i]
    by (auto simp: releaseHeldLeg_def asset_total_ops case_prod_unfold Let_def simp del: map_of_eq_Some_iff split: option.split)
next
  case (step_settle t s rates ok s' es)
  then show ?case using settle_spot_total [of cfg rates venue t "fst s" "snd s" x] by (simp add: config_sane_def)
qed

lemma credit_run_fenced:
  assumes "(credit_step cfg venue)\<^sup>*\<^sup>* s s'" "config_sane cfg" "account_ok venue" "fenced (fst s) (snd s)"
  shows "fenced (fst s') (snd s') \<and> (\<forall>c a. account_ok c \<longrightarrow> asset_ok a \<longrightarrow> slack (fst s') (snd s') c a = slack (fst s) (snd s) c a)
    \<and> (\<forall>x. asset_total (fst s') x = asset_total (fst s) x)"
  using assms(1)
proof (induction rule: rtranclp_induct)
  case base
  then show ?case using assms(4) by simp
next
  case (step y z)
  then show ?case using credit_step_fenced [OF step.hyps(2) assms(2,3)] credit_step_total [OF step.hyps(2) assms(2)] by simp
qed

end
