(* ===== verification/Clearing.thy ===== *)
theory Clearing
  imports CreditProps "HOL-Library.Product_Lexorder"
begin

section \<open>Perpetual clearing\<close>

text \<open>
  \<^verbatim>\<open>engine::Clearing\<close> (\<^verbatim>\<open>venue/include/flox-venue/engine/clearing.h\<close>): positions, funding,
  maintenance-margin liquidation and auto-deleveraging of a linear perpetual, with the engine's side of
  the seam (\<^verbatim>\<open>engine/clearing.inl\<close>): the order margin that moves into and out of a reservation, the
  perpetual settlement of a trade and the forced close. The position table, an \<^verbatim>\<open>unordered_map\<close>, is an
  association list; the order in which the source iterates over it is the order of the list.

  Of the three \<^verbatim>\<open>Hooks\<close> the two that move order margin are the engine's own functions; the third,
  which cancels every order of an account and needs the book, stays an argument \<open>cancelAll\<close>, a function
  on the ledger and the reservations that also answers with the events it emits. A funding rate arrives
  as the raw that \<^verbatim>\<open>fundingRateRawOf\<close> rounds the journaled double to. Raw quantities and prices are
  unbounded here; the source keeps them in 64 bits without a check.
\<close>

subsection \<open>State\<close>

record position =
  ps_qtyRaw :: int
  ps_entryRaw :: int
  ps_margin :: int

record clearing =
  cl_positions :: "(nat \<times> position) list"
  cl_fundingRateRaw :: int
  cl_fundingIntervalNs :: int
  cl_nextFundingNs :: int

type_synonym money = "ledger \<times> credit_state"

type_synonym cancel_hook = "nat \<Rightarrow> money \<Rightarrow> money \<times> outbound_event list"

definition no_position :: position where
  "no_position = \<lparr>ps_qtyRaw = 0, ps_entryRaw = 0, ps_margin = 0\<rparr>"

definition clearing_init :: clearing where
  "clearing_init = \<lparr>cl_positions = [], cl_fundingRateRaw = 0, cl_fundingIntervalNs = 0, cl_nextFundingNs = 0\<rparr>"

definition kFundingRateScale :: int where "kFundingRateScale = 100000000"

definition iabs64 :: "int \<Rightarrow> int" where "iabs64 v = (if v < 0 then - v else v)"

subsection \<open>Queries\<close>

definition positionQty :: "nat \<Rightarrow> clearing \<Rightarrow> int" where
  "positionQty account cl = (case map_of (cl_positions cl) account of None \<Rightarrow> 0 | Some p \<Rightarrow> ps_qtyRaw p)"

definition positionEntry :: "nat \<Rightarrow> clearing \<Rightarrow> int" where
  "positionEntry account cl = (case map_of (cl_positions cl) account of None \<Rightarrow> 0 | Some p \<Rightarrow> ps_entryRaw p)"

definition openInterest :: "clearing \<Rightarrow> int" where
  "openInterest cl = fold (\<lambda>(acct, p) oi. if ps_qtyRaw p > 0 then oi + ps_qtyRaw p else oi) (cl_positions cl) 0"

definition totalPositionMargin :: "clearing \<Rightarrow> int" where
  "totalPositionMargin cl = fold (\<lambda>(acct, p) t. t + ps_margin p) (cl_positions cl) 0"

definition cfgNotional :: "symbol_config \<Rightarrow> int \<Rightarrow> int \<Rightarrow> int" where
  "cfgNotional cfg priceRaw qtyRaw = notionalRaw priceRaw qtyRaw (sc_priceScale cfg) (sc_qtyScale cfg)"

definition unrealizedPnlRaw :: "symbol_config \<Rightarrow> nat \<Rightarrow> int \<Rightarrow> (nat \<times> position) list \<Rightarrow> int" where
  "unrealizedPnlRaw cfg account mark P = (case map_of P account of
      None \<Rightarrow> 0
    | Some p \<Rightarrow> (let sgn = (if ps_qtyRaw p > 0 then 1 else - 1) in cfgNotional cfg (mark - ps_entryRaw p) (iabs64 (ps_qtyRaw p)) * sgn))"

subsection \<open>The funding calendar\<close>

definition cl_intervalNs :: "symbol_config \<Rightarrow> clearing \<Rightarrow> int" where
  "cl_intervalNs cfg cl = (if cl_fundingIntervalNs cl > 0 then cl_fundingIntervalNs cl else sc_fundingIntervalNs cfg)"

definition nextFundingNs :: "symbol_config \<Rightarrow> int \<Rightarrow> clearing \<Rightarrow> int" where
  "nextFundingNs cfg now cl =
    (if cl_nextFundingNs cl \<noteq> 0 then cl_nextFundingNs cl
     else if sc_fundingIntervalNs cfg \<le> 0 then 0
     else (now sdiv sc_fundingIntervalNs cfg + 1) * sc_fundingIntervalNs cfg)"

definition setFundingSchedule :: "int \<Rightarrow> int \<Rightarrow> clearing \<Rightarrow> clearing" where
  "setFundingSchedule intervalNs nextNs cl = cl\<lparr>cl_fundingIntervalNs := (if intervalNs > 0 then intervalNs else 0),
     cl_nextFundingNs := (if nextNs > 0 then nextNs else 0)\<rparr>"

definition advanceFundingSchedule :: "int \<Rightarrow> clearing \<Rightarrow> clearing" where
  "advanceFundingSchedule now cl =
    (if cl_fundingIntervalNs cl \<le> 0 \<or> cl_nextFundingNs cl \<le> 0 then cl
     else let i = cl_fundingIntervalNs cl;
              n = cl_nextFundingNs cl + i;
              n = (if n \<le> now then let behind = now - n in n + (behind sdiv i + 1) * i else n)
          in cl\<lparr>cl_nextFundingNs := n\<rparr>)"

subsection \<open>Order margin\<close>

definition consumeOrderIM :: "symbol_config \<Rightarrow> nat \<Rightarrow> int \<Rightarrow> credit_state \<Rightarrow> int \<times> credit_state" where
  "consumeOrderIM cfg orderId qtyRaw C = (case map_of (cs_reserve C) orderId of
      None \<Rightarrow> (0, C)
    | Some r \<Rightarrow>
        (let im = imForRaw qtyRaw (rv_limitPriceRaw r) cfg;
             im = (if im > rv_reservedRaw r then rv_reservedRaw r else im)
         in (im, cr_put orderId (r\<lparr>rv_reservedRaw := rv_reservedRaw r - im\<rparr>) C)))"

definition releaseOrderIM :: "symbol_config \<Rightarrow> nat \<Rightarrow> int \<Rightarrow> nat \<Rightarrow> money \<Rightarrow> money" where
  "releaseOrderIM cfg orderId qtyRaw acct = (\<lambda>(L, C). case map_of (cs_reserve C) orderId of
      None \<Rightarrow> (L, C)
    | Some r \<Rightarrow>
        (let im = imForRaw qtyRaw (rv_limitPriceRaw r) cfg;
             im = (if im > rv_reservedRaw r then rv_reservedRaw r else im)
         in (if im > 0 then release L acct (sc_quoteAsset cfg) im else L, cr_put orderId (r\<lparr>rv_reservedRaw := rv_reservedRaw r - im\<rparr>) C)))"

subsection \<open>A fill\<close>

text \<open>
  \<^verbatim>\<open>updatePerpPosition\<close> in its three parts: the quantity that closes an opposite position, the quantity
  that opens or adds, and dropping a position that ended flat. Without a ledger only the exposure moves.
\<close>

definition posSign :: "position \<Rightarrow> int" where
  "posSign p = (if ps_qtyRaw p > 0 then 1 else if ps_qtyRaw p < 0 then - 1 else 0)"

definition reduce_leg :: "symbol_config \<Rightarrow> nat \<Rightarrow> nat \<Rightarrow> nat \<Rightarrow> int \<Rightarrow> int \<Rightarrow> int \<Rightarrow> (ledger option \<times> credit_state) \<times> position
    \<Rightarrow> (ledger option \<times> credit_state) \<times> position" where
  "reduce_leg cfg venueAccount acct orderId fillSign reduceQty priceRaw = (\<lambda>((ledger, C), p).
    let (ledger, C, relMargin) = (case ledger of
            None \<Rightarrow> (None, C, 0)
          | Some L \<Rightarrow>
              (let pnl = cfgNotional cfg (priceRaw - ps_entryRaw p) reduceQty * posSign p;
                   L = credit L acct (sc_quoteAsset cfg) pnl;
                   L = credit L venueAccount (sc_quoteAsset cfg) (- pnl);
                   relMargin = (ps_margin p * reduceQty) sdiv iabs64 (ps_qtyRaw p);
                   L = release L acct (sc_quoteAsset cfg) relMargin;
                   (L, C) = releaseOrderIM cfg orderId reduceQty acct (L, C)
               in (Some L, C, relMargin)));
        q = ps_qtyRaw p + fillSign * reduceQty
    in ((ledger, C), p\<lparr>ps_margin := ps_margin p - relMargin, ps_qtyRaw := q, ps_entryRaw := (if q = 0 then 0 else ps_entryRaw p)\<rparr>))"

definition open_leg :: "symbol_config \<Rightarrow> nat \<Rightarrow> int \<Rightarrow> int \<Rightarrow> int \<Rightarrow> (ledger option \<times> credit_state) \<times> position
    \<Rightarrow> (ledger option \<times> credit_state) \<times> position" where
  "open_leg cfg orderId fillSign remaining priceRaw = (\<lambda>((ledger, C), p).
    let (im, C) = (case ledger of None \<Rightarrow> (0, C) | Some L \<Rightarrow> consumeOrderIM cfg orderId remaining C);
        absOld = iabs64 (ps_qtyRaw p);
        num = absOld * ps_entryRaw p + remaining * priceRaw
    in ((ledger, C), p\<lparr>ps_entryRaw := num sdiv (absOld + remaining), ps_qtyRaw := ps_qtyRaw p + fillSign * remaining, ps_margin := ps_margin p + im\<rparr>))"

definition drop_flat :: "symbol_config \<Rightarrow> nat \<Rightarrow> (ledger option \<times> credit_state) \<times> position \<Rightarrow> (nat \<times> position) list
    \<Rightarrow> (ledger option \<times> credit_state) \<times> (nat \<times> position) list" where
  "drop_flat cfg acct = (\<lambda>((ledger, C), p) P.
    if ps_qtyRaw p = 0
    then (((case ledger of None \<Rightarrow> None | Some L \<Rightarrow> Some (if ps_margin p > 0 then release L acct (sc_quoteAsset cfg) (ps_margin p) else L)), C),
          AList.delete acct P)
    else ((ledger, C), AList.update acct p P))"

definition updatePerpPosition :: "symbol_config \<Rightarrow> nat \<Rightarrow> nat \<Rightarrow> nat \<Rightarrow> bool \<Rightarrow> int \<Rightarrow> int
    \<Rightarrow> (ledger option \<times> credit_state) \<times> (nat \<times> position) list \<Rightarrow> (ledger option \<times> credit_state) \<times> (nat \<times> position) list" where
  "updatePerpPosition cfg venueAccount acct orderId fillBuy qtyRaw priceRaw = (\<lambda>(m, P).
    let p = (case map_of P acct of None \<Rightarrow> no_position | Some p \<Rightarrow> p);
        fillSign = (if fillBuy then 1 else - 1);
        reduceQty = (if posSign p \<noteq> 0 \<and> posSign p \<noteq> fillSign then min qtyRaw (iabs64 (ps_qtyRaw p)) else 0);
        (m, p) = (if posSign p \<noteq> 0 \<and> posSign p \<noteq> fillSign then reduce_leg cfg venueAccount acct orderId fillSign reduceQty priceRaw (m, p) else (m, p));
        remaining = qtyRaw - reduceQty;
        (m, p) = (if remaining > 0 then open_leg cfg orderId fillSign remaining priceRaw (m, p) else (m, p))
    in drop_flat cfg acct (m, p) P)"

text \<open>Both legs of a print, the buyer first, and its fees.\<close>

definition settle_positions :: "symbol_config \<Rightarrow> nat \<Rightarrow> trade \<Rightarrow> (ledger option \<times> credit_state) \<times> (nat \<times> position) list
    \<Rightarrow> (ledger option \<times> credit_state) \<times> (nat \<times> position) list" where
  "settle_positions cfg venueAccount t s =
    (let takerBuys = (tr_takerSide t = BUY);
         buyerId = (if takerBuys then tr_takerId t else tr_makerId t);
         buyerAcct = (if takerBuys then tr_takerAccount t else tr_makerAccount t);
         sellerId = (if takerBuys then tr_makerId t else tr_takerId t);
         sellerAcct = (if takerBuys then tr_makerAccount t else tr_takerAccount t);
         s = updatePerpPosition cfg venueAccount buyerAcct buyerId True (tr_quantity t) (tr_price t) s
     in updatePerpPosition cfg venueAccount sellerAcct sellerId False (tr_quantity t) (tr_price t) s)"

definition settlePerp :: "(int \<times> int) option \<Rightarrow> symbol_config \<Rightarrow> nat \<Rightarrow> trade \<Rightarrow> (ledger option \<times> credit_state) \<times> (nat \<times> position) list
    \<Rightarrow> ((ledger option \<times> credit_state) \<times> (nat \<times> position) list) \<times> outbound_event list" where
  "settlePerp rates cfg venueAccount t s =
    (let ((ledger, C), P) = settle_positions cfg venueAccount t s
     in case ledger of
       None \<Rightarrow> (((None, C), P), fees_emit rates cfg t)
     | Some L \<Rightarrow> (let (L, es) = fees_settle rates cfg venueAccount t L in (((Some L, C), P), es)))"

subsection \<open>Liquidation and auto-deleveraging\<close>

record adl_cand =
  ac_acct :: nat
  ac_uPnl :: int

definition adl_candidates :: "symbol_config \<Rightarrow> int \<Rightarrow> int \<Rightarrow> (nat \<times> position) list \<Rightarrow> adl_cand list" where
  "adl_candidates cfg bankruptSign mark P = concat (map (\<lambda>(oa, pos).
    let s = posSign pos; up = cfgNotional cfg (mark - ps_entryRaw pos) (ps_qtyRaw pos)
    in if s = 0 \<or> s = bankruptSign then [] else if up > 0 then [\<lparr>ac_acct = oa, ac_uPnl = up\<rparr>] else []) P)"

definition adl_rank :: "adl_cand \<Rightarrow> int \<times> nat" where
  "adl_rank c = (- ac_uPnl c, ac_acct c)"

definition adl_close :: "symbol_config \<Rightarrow> nat \<Rightarrow> int \<Rightarrow> nat \<Rightarrow> position \<Rightarrow> int \<Rightarrow> ledger \<Rightarrow> int \<times> ledger" where
  "adl_close cfg venueAccount mark acct p remaining L =
    (let uPnl = cfgNotional cfg (mark - ps_entryRaw p) (ps_qtyRaw p);
         L = credit L acct (sc_quoteAsset cfg) uPnl;
         L = credit L venueAccount (sc_quoteAsset cfg) (- uPnl);
         L = (if ps_margin p > 0 then release L acct (sc_quoteAsset cfg) (ps_margin p) else L);
         haircut = (if remaining < uPnl then remaining else uPnl);
         a = available L acct (sc_quoteAsset cfg);
         taken = min haircut (if a > 0 then a else 0);
         L = (if taken > 0 then credit (snd (debit L acct (sc_quoteAsset cfg) taken)) venueAccount (sc_quoteAsset cfg) taken else L)
     in (taken, L))"

definition closed_event :: "symbol_config \<Rightarrow> nat \<Rightarrow> int \<Rightarrow> position \<Rightarrow> bool \<Rightarrow> bool \<Rightarrow> outbound_event" where
  "closed_event cfg acct mark p bankrupt adl = EvLiquidation \<lparr>lq_account = acct, lq_symbol = sc_id cfg, lq_qty = iabs64 (ps_qtyRaw p), lq_price = mark,
     lq_bankrupt = bankrupt, lq_adl = adl\<rparr>"

primrec adl_walk :: "symbol_config \<Rightarrow> nat \<Rightarrow> int \<Rightarrow> adl_cand list \<Rightarrow> int \<Rightarrow> ledger \<times> (nat \<times> position) list
    \<Rightarrow> (ledger \<times> (nat \<times> position) list) \<times> outbound_event list" where
  "adl_walk cfg venueAccount mark [] remaining s = (s, [])"
| "adl_walk cfg venueAccount mark (c # cs) remaining s =
    (if remaining \<le> 0 then (s, [])
     else case map_of (snd s) (ac_acct c) of
       None \<Rightarrow> adl_walk cfg venueAccount mark cs remaining s
     | Some p \<Rightarrow>
         (let (taken, L) = adl_close cfg venueAccount mark (ac_acct c) p remaining (fst s);
              (s, es) = adl_walk cfg venueAccount mark cs (remaining - taken) (L, AList.delete (ac_acct c) (snd s))
          in (s, closed_event cfg (ac_acct c) mark p False True # es)))"

definition autoDeleverage :: "symbol_config \<Rightarrow> nat \<Rightarrow> int \<Rightarrow> int \<Rightarrow> int \<Rightarrow> ledger \<times> (nat \<times> position) list
    \<Rightarrow> (ledger \<times> (nat \<times> position) list) \<times> outbound_event list" where
  "autoDeleverage cfg venueAccount bankruptSign deficit mark s =
    (if deficit \<le> 0 then (s, []) else adl_walk cfg venueAccount mark (sort_key adl_rank (adl_candidates cfg bankruptSign mark (snd s))) deficit s)"

definition close_account :: "symbol_config \<Rightarrow> nat \<Rightarrow> nat \<Rightarrow> int \<Rightarrow> position \<Rightarrow> ledger \<Rightarrow> ledger" where
  "close_account cfg venueAccount acct mark p L =
    (let sgn = (if ps_qtyRaw p > 0 then 1 else - 1);
         uPnl = cfgNotional cfg (mark - ps_entryRaw p) (iabs64 (ps_qtyRaw p)) * sgn;
         L = credit L acct (sc_quoteAsset cfg) uPnl;
         L = credit L venueAccount (sc_quoteAsset cfg) (- uPnl)
     in if ps_margin p > 0 then release L acct (sc_quoteAsset cfg) (ps_margin p) else L)"

definition forceClose :: "symbol_config \<Rightarrow> nat \<Rightarrow> cancel_hook \<Rightarrow> int \<Rightarrow> nat \<Rightarrow> money \<times> (nat \<times> position) list
    \<Rightarrow> (money \<times> (nat \<times> position) list) \<times> outbound_event list" where
  "forceClose cfg venueAccount cancelAll mark acct = (\<lambda>((L, C), P). case map_of P acct of
      None \<Rightarrow> (((L, C), P), [])
    | Some p \<Rightarrow>
        (let P = AList.delete acct P;
             ((L, C), es) = cancelAll acct (L, C);
             L = close_account cfg venueAccount acct mark p L;
             a = available L acct (sc_quoteAsset cfg);
             bankrupt = (a < 0);
             deficit = (if a < 0 then - a else 0);
             L = (if a < 0 then credit (credit L acct (sc_quoteAsset cfg) (- a)) venueAccount (sc_quoteAsset cfg) a else L);
             ev = closed_event cfg acct mark p bankrupt False;
             ((L, P), es') = (if bankrupt \<and> sc_autoDeleverage cfg
                then autoDeleverage cfg venueAccount (if ps_qtyRaw p > 0 then 1 else - 1) deficit mark (L, P) else ((L, P), []))
         in (((L, C), P), es @ ev # es')))"

definition breaches :: "symbol_config \<Rightarrow> int \<Rightarrow> ledger \<Rightarrow> (nat \<times> position) list \<Rightarrow> nat \<Rightarrow> position \<Rightarrow> bool" where
  "breaches cfg mark L P acct p \<longleftrightarrow>
    (let uPnl = unrealizedPnlRaw cfg acct mark P;
         mmReq = (cfgNotional cfg mark (iabs64 (ps_qtyRaw p)) * sc_maintenanceMarginBps cfg) sdiv 10000;
         wallet = available L acct (sc_quoteAsset cfg);
         walletDrag = (if wallet < 0 then wallet else 0)
     in ps_margin p + uPnl + walletDrag < mmReq)"

primrec close_all :: "symbol_config \<Rightarrow> nat \<Rightarrow> cancel_hook \<Rightarrow> int \<Rightarrow> nat list \<Rightarrow> money \<times> (nat \<times> position) list
    \<Rightarrow> (money \<times> (nat \<times> position) list) \<times> outbound_event list" where
  "close_all cfg venueAccount cancelAll mark [] s = (s, [])"
| "close_all cfg venueAccount cancelAll mark (a # as) s =
    (let (s, es) = forceClose cfg venueAccount cancelAll mark a s; (s, es') = close_all cfg venueAccount cancelAll mark as s in (s, es @ es'))"

definition checkLiquidations :: "symbol_config \<Rightarrow> nat \<Rightarrow> cancel_hook \<Rightarrow> int \<Rightarrow> money \<times> (nat \<times> position) list
    \<Rightarrow> (money \<times> (nat \<times> position) list) \<times> outbound_event list" where
  "checkLiquidations cfg venueAccount cancelAll mark = (\<lambda>((L, C), P).
    if sc_externalLiquidation cfg then (((L, C), P), [])
    else if \<not> sc_linearPerp cfg \<or> sc_maintenanceMarginBps cfg = 0 then (((L, C), P), [])
    else close_all cfg venueAccount cancelAll mark (sort (map fst (filter (\<lambda>(acct, p). breaches cfg mark L P acct p) P))) ((L, C), P))"

subsection \<open>Funding\<close>

definition funding_pay :: "symbol_config \<Rightarrow> nat \<Rightarrow> int \<Rightarrow> int \<Rightarrow> nat \<times> position \<Rightarrow> ledger \<Rightarrow> ledger" where
  "funding_pay cfg venueAccount rateRaw mark = (\<lambda>(acct, p) L.
    let notional = cfgNotional cfg mark (iabs64 (ps_qtyRaw p));
        mag = rateOnNotional notional rateRaw kFundingRateScale;
        signedPay = (if ps_qtyRaw p > 0 then - mag else mag);
        L = credit L acct (sc_quoteAsset cfg) signedPay
    in credit L venueAccount (sc_quoteAsset cfg) (- signedPay))"

definition applyFunding :: "symbol_config \<Rightarrow> nat \<Rightarrow> cancel_hook \<Rightarrow> int \<Rightarrow> int \<Rightarrow> int \<Rightarrow> (ledger option \<times> credit_state) \<times> clearing
    \<Rightarrow> ((ledger option \<times> credit_state) \<times> clearing) \<times> outbound_event list" where
  "applyFunding cfg venueAccount cancelAll rateRaw mark now = (\<lambda>((ledger, C), cl).
    let cl = advanceFundingSchedule now (cl\<lparr>cl_fundingRateRaw := rateRaw\<rparr>)
    in case ledger of
      None \<Rightarrow> (((None, C), cl), [])
    | Some L \<Rightarrow>
        (let L = fold (funding_pay cfg venueAccount rateRaw mark) (cl_positions cl) L;
             (((L, C), P), es) = checkLiquidations cfg venueAccount cancelAll mark ((L, C), cl_positions cl)
         in (((Some L, C), cl\<lparr>cl_positions := P\<rparr>), es)))"

subsection \<open>Corrections and forced closes\<close>

record adjust_position =
  aj_accountId :: nat
  aj_symbol :: nat
  aj_qtyDeltaRaw :: int
  aj_entryRaw :: int
  aj_reason :: adjust_reason
  aj_note :: "8 word list"

definition plain_reject :: "symbol_config \<Rightarrow> reject_reason \<Rightarrow> nat \<Rightarrow> outbound_event" where
  "plain_reject cfg why acct = EvRejected \<lparr>rj_id = 0, rj_symbol = sc_id cfg, rj_reason = why, rj_account = acct, rj_clientOrderId = 0, rj_cumQty = 0\<rparr>"

definition adjustPosition :: "symbol_config \<Rightarrow> adjust_position \<Rightarrow> (nat \<times> position) list \<Rightarrow> (nat \<times> position) list \<times> outbound_event list" where
  "adjustPosition cfg a P =
    (if aj_qtyDeltaRaw a = 0 \<and> aj_entryRaw a = 0 then (P, [plain_reject cfg AdjustmentEmpty (aj_accountId a)])
     else if map_of P (aj_accountId a) = None \<and> aj_entryRaw a = 0 then (P, [plain_reject cfg AdjustmentNeedsEntry (aj_accountId a)])
     else let p = (case map_of P (aj_accountId a) of None \<Rightarrow> no_position | Some p \<Rightarrow> p);
              p = p\<lparr>ps_qtyRaw := ps_qtyRaw p + aj_qtyDeltaRaw a\<rparr>;
              p = (if aj_entryRaw a \<noteq> 0 then p\<lparr>ps_entryRaw := aj_entryRaw a\<rparr> else p);
              p = (if ps_qtyRaw p = 0 then p\<lparr>ps_entryRaw := 0\<rparr> else p)
          in (AList.update (aj_accountId a) p P,
              [EvPositionAdjusted \<lparr>pa_account = aj_accountId a, pa_symbol = sc_id cfg, pa_qtyDeltaRaw = aj_qtyDeltaRaw a, pa_qtyAfterRaw = ps_qtyRaw p,
                 pa_entryAfterRaw = ps_entryRaw p, pa_reason = aj_reason a, pa_note = aj_note a\<rparr>]))"

record force_close_position =
  fp_accountId :: nat
  fp_symbol :: nat
  fp_qtyRaw :: int

definition onForceClose :: "symbol_config \<Rightarrow> nat \<Rightarrow> cancel_hook \<Rightarrow> int option \<Rightarrow> force_close_position \<Rightarrow> (ledger option \<times> credit_state) \<times> (nat \<times> position) list
    \<Rightarrow> ((ledger option \<times> credit_state) \<times> (nat \<times> position) list) \<times> outbound_event list" where
  "onForceClose cfg venueAccount cancelAll mark fc = (\<lambda>((ledger, C), P). case ledger of
      None \<Rightarrow> (((None, C), P), [plain_reject cfg NoLedgerBound (fp_accountId fc)])
    | Some L \<Rightarrow>
        (case mark of
           Some m \<Rightarrow> (if \<not> sc_linearPerp cfg then (((Some L, C), P), [plain_reject cfg UnknownOrder (fp_accountId fc)])
             else let (((L, C), P), es) = forceClose cfg venueAccount cancelAll m (fp_accountId fc) ((L, C), P) in (((Some L, C), P), es))
         | None \<Rightarrow> (((Some L, C), P), [plain_reject cfg UnknownOrder (fp_accountId fc)])))"

subsection \<open>Checkpoint\<close>

definition hashFunding :: "clearing \<Rightarrow> 64 word \<Rightarrow> 64 word" where
  "hashFunding cl h = (if cl_fundingRateRaw cl \<noteq> 0 \<or> cl_fundingIntervalNs cl \<noteq> 0 \<or> cl_nextFundingNs cl \<noteq> 0
     then mix (mix (mix (mix h kFunding) (word_of_int (cl_fundingRateRaw cl))) (word_of_int (cl_fundingIntervalNs cl))) (word_of_int (cl_nextFundingNs cl))
     else h)"

definition position_hash :: "nat \<Rightarrow> position \<Rightarrow> 64 word \<Rightarrow> 64 word" where
  "position_hash acct p h = mixAmount (mix (mix (mix (mix h kPosition) (of_nat acct)) (word_of_int (ps_qtyRaw p))) (word_of_int (ps_entryRaw p))) (ps_margin p)"

definition hashPositions :: "(nat \<times> position) list \<Rightarrow> 64 word \<Rightarrow> 64 word" where
  "hashPositions P h = digest_section position_hash P h"

record restore_funding =
  rg_fundingRateRaw :: int
  rg_nextFundingNs :: int
  rg_fundingIntervalNs :: int

record restore_position =
  rn_account :: nat
  rn_qtyRaw :: int
  rn_entryRaw :: int
  rn_marginRaw :: int

definition writeFunding :: "clearing \<Rightarrow> restore_funding list" where
  "writeFunding cl = (if cl_fundingRateRaw cl \<noteq> 0 \<or> cl_fundingIntervalNs cl \<noteq> 0 \<or> cl_nextFundingNs cl \<noteq> 0
     then [\<lparr>rg_fundingRateRaw = cl_fundingRateRaw cl, rg_nextFundingNs = cl_nextFundingNs cl, rg_fundingIntervalNs = cl_fundingIntervalNs cl\<rparr>] else [])"

definition position_record :: "nat \<Rightarrow> position \<Rightarrow> restore_position" where
  "position_record acct p = \<lparr>rn_account = acct, rn_qtyRaw = ps_qtyRaw p, rn_entryRaw = ps_entryRaw p, rn_marginRaw = ps_margin p\<rparr>"

definition writePositions :: "(nat \<times> position) list \<Rightarrow> restore_position list" where
  "writePositions P = write_section (\<lambda>acct p. [position_record acct p]) P"

definition restoreFunding :: "restore_funding \<Rightarrow> clearing \<Rightarrow> clearing" where
  "restoreFunding r cl = cl\<lparr>cl_fundingRateRaw := rg_fundingRateRaw r,
     cl_nextFundingNs := (if rg_nextFundingNs r > 0 then rg_nextFundingNs r else 0),
     cl_fundingIntervalNs := (if rg_fundingIntervalNs r > 0 then rg_fundingIntervalNs r else 0)\<rparr>"

definition restorePosition :: "symbol_config \<Rightarrow> bool \<Rightarrow> restore_position \<Rightarrow> ledger option \<times> (nat \<times> position) list
    \<Rightarrow> bool \<times> ledger option \<times> (nat \<times> position) list" where
  "restorePosition cfg exactBalances r = (\<lambda>(ledger, P).
    if map_of P (rn_account r) \<noteq> None then (False, ledger, P)
    else let (ok, ledger) = (case ledger of
               Some L \<Rightarrow> (if \<not> exactBalances \<and> rn_marginRaw r > 0
                  then let (ok, L) = reserve L (rn_account r) (sc_quoteAsset cfg) (rn_marginRaw r) in (ok, Some L) else (True, Some L))
             | None \<Rightarrow> (True, None))
         in if \<not> ok then (False, ledger, P)
            else (True, ledger, AList.update (rn_account r) \<lparr>ps_qtyRaw = rn_qtyRaw r, ps_entryRaw = rn_entryRaw r, ps_margin = rn_marginRaw r\<rparr> P))"

definition clearing_copyStateFrom :: "clearing \<Rightarrow> clearing \<Rightarrow> clearing" where
  "clearing_copyStateFrom other cl = cl\<lparr>cl_positions := cl_positions other, cl_fundingRateRaw := cl_fundingRateRaw other,
     cl_fundingIntervalNs := cl_fundingIntervalNs other, cl_nextFundingNs := cl_nextFundingNs other\<rparr>"

end
