(* ===== verification/ClearingProps.thy ===== *)
theory ClearingProps
  imports Clearing
begin

section \<open>Collateral of a perpetual venue\<close>

text \<open>
  Every reserved unit of quote backs a live order or an open position. The reservations claim part of
  an account's reserved balance, its position margin another part, and every operation of clearing moves
  the three together. As in the theory of the credit tables the statement is about the difference, since
  a ledger may be shared.
\<close>

subsection \<open>The invariant\<close>

definition margin_of :: "symbol_config \<Rightarrow> (nat \<times> position) list \<Rightarrow> nat \<Rightarrow> nat \<Rightarrow> int" where
  "margin_of cfg P c a = (if a = sc_quoteAsset cfg then (case map_of P c of None \<Rightarrow> 0 | Some p \<Rightarrow> ps_margin p) else 0)"

definition pslack :: "symbol_config \<Rightarrow> money \<times> (nat \<times> position) list \<Rightarrow> nat \<Rightarrow> nat \<Rightarrow> int" where
  "pslack cfg s c a = slack (fst (fst s)) (snd (fst s)) c a - margin_of cfg (snd s) c a"

definition res_ok :: "credit_state \<Rightarrow> bool" where
  "res_ok C \<longleftrightarrow> distinct (map fst (cs_reserve C)) \<and> (\<forall>i r. map_of (cs_reserve C) i = Some r \<longrightarrow>
     0 \<le> rv_reservedRaw r \<and> 0 \<le> rv_limitPriceRaw r \<and> account_ok (rv_account r) \<and> asset_ok (rv_asset r))"

definition pos_ok :: "(nat \<times> position) list \<Rightarrow> bool" where
  "pos_ok P \<longleftrightarrow> distinct (map fst P) \<and> (\<forall>c p. map_of P c = Some p \<longrightarrow> 0 \<le> ps_margin p \<and> account_ok c)"

definition collateral :: "symbol_config \<Rightarrow> money \<times> (nat \<times> position) list \<Rightarrow> bool" where
  "collateral cfg s \<longleftrightarrow> res_ok (snd (fst s)) \<and> pos_ok (snd s) \<and> (\<forall>c a. account_ok c \<longrightarrow> asset_ok a \<longrightarrow> 0 \<le> pslack cfg s c a)"

text \<open>One step: the invariant holds afterwards, no row's surplus moves and no asset's total moves.\<close>

definition kept :: "symbol_config \<Rightarrow> money \<times> (nat \<times> position) list \<Rightarrow> money \<times> (nat \<times> position) list \<Rightarrow> bool" where
  "kept cfg s s' \<longleftrightarrow> collateral cfg s' \<and> (\<forall>c a. account_ok c \<longrightarrow> asset_ok a \<longrightarrow> pslack cfg s' c a = pslack cfg s c a)
     \<and> (\<forall>x. asset_total (fst (fst s')) x = asset_total (fst (fst s)) x)"

lemma kept_refl: "collateral cfg s \<Longrightarrow> kept cfg s s"
  by (simp add: kept_def)

lemma kept_trans: "kept cfg s s' \<Longrightarrow> kept cfg s' s'' \<Longrightarrow> kept cfg s s''"
  by (simp add: kept_def)

lemma kept_collateral: "kept cfg s s' \<Longrightarrow> collateral cfg s'"
  by (simp add: kept_def)

lemma keptI:
  assumes "collateral cfg s" "res_ok (snd (fst s'))" "pos_ok (snd s')"
    and "\<And>c a. account_ok c \<Longrightarrow> asset_ok a \<Longrightarrow> pslack cfg s' c a = pslack cfg s c a"
    and "\<And>x. asset_total (fst (fst s')) x = asset_total (fst (fst s)) x"
  shows "kept cfg s s'"
  using assms by (simp add: kept_def collateral_def)

lemma res_okD:
  "res_ok C \<Longrightarrow> distinct (map fst (cs_reserve C))"
  "res_ok C \<Longrightarrow> map_of (cs_reserve C) i = Some r \<Longrightarrow> 0 \<le> rv_reservedRaw r \<and> 0 \<le> rv_limitPriceRaw r \<and> account_ok (rv_account r) \<and> asset_ok (rv_asset r)"
  unfolding res_ok_def by blast+

lemma pos_okD:
  "pos_ok P \<Longrightarrow> distinct (map fst P)"
  "pos_ok P \<Longrightarrow> map_of P c = Some p \<Longrightarrow> 0 \<le> ps_margin p \<and> account_ok c"
  unfolding pos_ok_def by blast+

lemma margin_nonneg: "pos_ok P \<Longrightarrow> 0 \<le> margin_of cfg P c a"
  using pos_okD(2) [of P c] by (auto simp: margin_of_def simp del: map_of_eq_Some_iff split: option.split)

lemma collateral_fenced:
  assumes "collateral cfg ((L, C), P)"
  shows "fenced L C"
proof -
  have "claimed C c a \<le> reserved L c a" if "account_ok c" "asset_ok a" for c a
  proof -
    have "0 \<le> pslack cfg ((L, C), P) c a" using assms that by (simp add: collateral_def)
    then show ?thesis using margin_nonneg [of P cfg c a] assms by (simp add: pslack_def slack_def collateral_def)
  qed
  then show ?thesis using assms unfolding collateral_def res_ok_def fenced_def by simp
qed

lemma margin_covered:
  assumes "collateral cfg ((L, C), P)" "account_ok c" "asset_ok (sc_quoteAsset cfg)"
  shows "claimed C c (sc_quoteAsset cfg) + margin_of cfg P c (sc_quoteAsset cfg) \<le> reserved L c (sc_quoteAsset cfg)"
proof -
  have "0 \<le> pslack cfg ((L, C), P) c (sc_quoteAsset cfg)" using assms by (simp add: collateral_def)
  then show ?thesis by (simp add: pslack_def slack_def)
qed

lemma claimed_nonneg: "res_ok C \<Longrightarrow> 0 \<le> claimed C c a"
  unfolding claimed_def using res_okD by (intro sum_list_nonneg) (fastforce simp: claim_of_def)

subsection \<open>Order margin\<close>

definition order_owned :: "symbol_config \<Rightarrow> nat \<Rightarrow> nat \<Rightarrow> credit_state \<Rightarrow> bool" where
  "order_owned cfg orderId acct C \<longleftrightarrow> (case map_of (cs_reserve C) orderId of None \<Rightarrow> True | Some r \<Rightarrow> rv_account r = acct \<and> rv_asset r = sc_quoteAsset cfg)"

lemma take_claim:
  assumes "res_ok C" "map_of (cs_reserve C) i = Some r" "0 \<le> q" "q \<le> rv_reservedRaw r"
  shows "res_ok (cr_put i (r\<lparr>rv_reservedRaw := rv_reservedRaw r - q\<rparr>) C)"
    "claimed (cr_put i (r\<lparr>rv_reservedRaw := rv_reservedRaw r - q\<rparr>) C) c a = claimed C c a - (if c = rv_account r \<and> a = rv_asset r then q else 0)"
proof -
  show "res_ok (cr_put i (r\<lparr>rv_reservedRaw := rv_reservedRaw r - q\<rparr>) C)"
    using assms res_okD [OF assms(1)]
    by (auto simp: res_ok_def cr_put_def update_conv' distinct_update simp del: map_of_eq_Some_iff)
  show "claimed (cr_put i (r\<lparr>rv_reservedRaw := rv_reservedRaw r - q\<rparr>) C) c a = claimed C c a - (if c = rv_account r \<and> a = rv_asset r then q else 0)"
    using assms(2) by (auto simp: claimed_put [OF res_okD(1) [OF assms(1)]] claim_of_def simp del: map_of_eq_Some_iff)
qed

lemma consume_effect:
  assumes "res_ok C" "order_owned cfg i acct C" "config_sane cfg" "0 \<le> q" "consumeOrderIM cfg i q C = (im, C')"
  shows "0 \<le> im" "res_ok C'" "claimed C' c a = claimed C c a - (if c = acct \<and> a = sc_quoteAsset cfg then im else 0)"
    "order_owned cfg j b C \<Longrightarrow> order_owned cfg j b C'"
proof -
  have *: "0 \<le> im \<and> res_ok C' \<and> claimed C' c a = claimed C c a - (if c = acct \<and> a = sc_quoteAsset cfg then im else 0)
      \<and> (order_owned cfg j b C \<longrightarrow> order_owned cfg j b C')"
  proof (cases "map_of (cs_reserve C) i")
    case None
    then show ?thesis using assms by (simp add: consumeOrderIM_def)
  next
    case (Some r)
    note ok = res_okD(2) [OF assms(1) Some]
    define m where "m = min (imForRaw q (rv_limitPriceRaw r) cfg) (rv_reservedRaw r)"
    have m: "0 \<le> m" "m \<le> rv_reservedRaw r" using im_nonneg [OF assms(3) _ assms(4)] ok by (simp_all add: m_def)
    have res: "im = m" "C' = cr_put i (r\<lparr>rv_reservedRaw := rv_reservedRaw r - m\<rparr>) C"
      using assms(5) Some by (auto simp: consumeOrderIM_def Let_def m_def min_def split: if_splits)
    have own: "rv_account r = acct" "rv_asset r = sc_quoteAsset cfg" using assms(2) Some by (simp_all add: order_owned_def)
    show ?thesis using take_claim [OF assms(1) Some m] m own Some
      by (auto simp: res order_owned_def cr_put_def update_conv' simp del: map_of_eq_Some_iff split: option.splits)
  qed
  show "0 \<le> im" "res_ok C'" "claimed C' c a = claimed C c a - (if c = acct \<and> a = sc_quoteAsset cfg then im else 0)"
    using * by blast+
  show "order_owned cfg j b C'" if "order_owned cfg j b C" using * that by blast
qed

text \<open>Releasing order margin is consuming it and giving the amount back to the account.\<close>

lemma releaseOrderIM_consume:
  "releaseOrderIM cfg i q acct (L, C) = (let (im, C') = consumeOrderIM cfg i q C in (if im > 0 then release L acct (sc_quoteAsset cfg) im else L, C'))"
  by (auto simp: releaseOrderIM_def consumeOrderIM_def Let_def split: option.split)

subsection \<open>Rows\<close>

lemma release_some_row:
  assumes "account_ok c0" "asset_ok a0" "account_ok c" "asset_ok a" "0 \<le> q" "q \<le> reserved L c0 a0"
  shows "reserved (if q > 0 then release L c0 a0 q else L) c a = reserved L c a - (if c = c0 \<and> a = a0 then q else 0)"
  using release_row(1) [OF assms(1-6)] assms(5) by auto

lemma release_some_total: "asset_ok a \<Longrightarrow> asset_total (if q > 0 then release L c a q else L) x = asset_total L x"
  by (simp add: asset_total_ops)

lemma credit_pair_total: "asset_ok a \<Longrightarrow> asset_total (credit (credit L c a q) v a (- q)) x = asset_total L x"
  by (simp add: credit_total)

lemma margin_update: "margin_of cfg (AList.update k p P) c a = (if c = k \<and> a = sc_quoteAsset cfg then ps_margin p else margin_of cfg P c a)"
  by (simp add: margin_of_def update_conv')

lemma margin_delete: "margin_of cfg (AList.delete k P) c a = (if c = k then 0 else margin_of cfg P c a)"
  by (simp add: margin_of_def delete_conv')

lemma pos_ok_update: "pos_ok P \<Longrightarrow> account_ok k \<Longrightarrow> 0 \<le> ps_margin p \<Longrightarrow> pos_ok (AList.update k p P)"
  unfolding pos_ok_def by (simp add: distinct_update update_conv' del: map_of_eq_Some_iff)

lemma pos_ok_delete: "pos_ok P \<Longrightarrow> pos_ok (AList.delete k P)"
  unfolding pos_ok_def by (simp add: distinct_delete delete_conv' del: map_of_eq_Some_iff)

text \<open>The position a fill works on is in the table, the empty one included.\<close>

definition held_position :: "(nat \<times> position) list \<Rightarrow> nat \<Rightarrow> position" where
  "held_position P acct = (case map_of P acct of None \<Rightarrow> no_position | Some p \<Rightarrow> p)"

lemma margin_held: "ps_margin (held_position P c) = margin_of cfg P c (sc_quoteAsset cfg)"
  by (simp add: held_position_def margin_of_def no_position_def split: option.split)

lemma kept_hold:
  assumes "collateral cfg ((L, C), P)" "account_ok acct"
  shows "kept cfg ((L, C), P) ((L, C), AList.update acct (held_position P acct) P)"
proof (rule keptI [OF assms(1)])
  have "pos_ok P" using assms by (simp add: collateral_def)
  then show "pos_ok (snd ((L, C), AList.update acct (held_position P acct) P))"
    using pos_ok_update [OF _ assms(2)] margin_nonneg [of P cfg acct "sc_quoteAsset cfg"] by (simp add: margin_held [of P acct cfg])
qed (use assms in \<open>auto simp: collateral_def pslack_def margin_update margin_held [of P acct cfg]\<close>)

subsection \<open>A fill\<close>

lemma reduce_kept:
  assumes col: "collateral cfg ((L, C), P)" and p: "map_of P acct = Some p" and own: "order_owned cfg i acct C"
    and cfg: "config_sane cfg" and venue: "account_ok venue" and q: "0 \<le> q" "q \<le> iabs64 (ps_qtyRaw p)" "ps_qtyRaw p \<noteq> 0"
  shows "\<exists>L' C' p'. reduce_leg cfg venue acct i s q px ((Some L, C), p) = ((Some L', C'), p')
    \<and> kept cfg ((L, C), P) ((L', C'), AList.update acct p' P) \<and> ps_qtyRaw p' = ps_qtyRaw p + s * q
    \<and> (\<forall>j b. order_owned cfg j b C \<longrightarrow> order_owned cfg j b C')"
proof -
  define a where "a = sc_quoteAsset cfg"
  define pnl where "pnl = cfgNotional cfg (px - ps_entryRaw p) q * posSign p"
  define L1 where "L1 = credit (credit L acct a pnl) venue a (- pnl)"
  define rel where "rel = (ps_margin p * q) sdiv iabs64 (ps_qtyRaw p)"
  obtain im C' where con: "consumeOrderIM cfg i q C = (im, C')" by (metis surj_pair)
  define L' where "L' = (if im > 0 then release (release L1 acct a rel) acct a im else release L1 acct a rel)"
  define p' where "p' = p\<lparr>ps_margin := ps_margin p - rel, ps_qtyRaw := ps_qtyRaw p + s * q, ps_entryRaw := (if ps_qtyRaw p + s * q = 0 then 0 else ps_entryRaw p)\<rparr>"
  have res: "res_ok C" and pos: "pos_ok P" using col by (simp_all add: collateral_def)
  have ok: "account_ok acct" "asset_ok a" and m0: "0 \<le> ps_margin p" using pos_okD(2) [OF pos p] cfg by (simp_all add: config_sane_def a_def)
  note c = consume_effect [OF res own cfg q(1) con]
  have aq: "0 < iabs64 (ps_qtyRaw p)" using q(3) by (simp add: iabs64_def)
  have rel: "0 \<le> rel" "rel \<le> ps_margin p"
  proof -
    show "0 \<le> rel" using m0 q(1) aq by (simp add: rel_def sdiv_nonneg pos_imp_zdiv_nonneg_iff)
    have "ps_margin p * q \<le> ps_margin p * iabs64 (ps_qtyRaw p)" using m0 q(2) by (rule mult_left_mono [rotated])
    then have "rel \<le> (ps_margin p * iabs64 (ps_qtyRaw p)) sdiv iabs64 (ps_qtyRaw p)" unfolding rel_def using aq by (intro sdiv_le_pos) simp_all
    then show "rel \<le> ps_margin p" using aq m0 by (simp add: sdiv_nonneg)
  qed
  have run: "reduce_leg cfg venue acct i s q px ((Some L, C), p) = ((Some L', C'), p')"
    by (simp add: reduce_leg_def releaseOrderIM_consume con Let_def L'_def L1_def pnl_def rel_def p'_def a_def)
  have L1: "reserved L1 b x = reserved L b x" if "account_ok b" "asset_ok x" for b x
    using that ok venue by (simp add: L1_def credit_reserved)
  have cover: "claimed C acct a + ps_margin p \<le> reserved L acct a"
    using margin_covered [OF col ok(1)] ok(2) p by (simp add: a_def margin_of_def)
  have im: "im \<le> claimed C acct a" using c(3) [of acct a] claimed_nonneg [OF c(2), of acct a] by (simp add: a_def)
  have two: "reserved (release L1 acct a rel) b x = reserved L b x - (if b = acct \<and> x = a then rel else 0)" if "account_ok b" "asset_ok x" for b x
    using release_row(1) [OF ok that, of rel L1] L1 ok rel cover claimed_nonneg [OF res, of acct a] that by auto
  have rows: "reserved L' b x = reserved L b x - (if b = acct \<and> x = a then rel + im else 0)" if "account_ok b" "asset_ok x" for b x
    using release_some_row [OF ok that c(1), of "release L1 acct a rel"] two [OF ok] two [OF that] rel im cover by (auto simp: L'_def)
  have tot: "asset_total L' x = asset_total L x" for x
    using ok(2) credit_pair_total [OF ok(2), of L acct pnl venue x] by (simp add: L'_def L1_def asset_total_ops)
  have "kept cfg ((L, C), P) ((L', C'), AList.update acct p' P)"
  proof (rule keptI [OF col])
    show "pos_ok (snd ((L', C'), AList.update acct p' P))" using pos_ok_update [OF pos ok(1)] rel by (simp add: p'_def)
    show "pslack cfg ((L', C'), AList.update acct p' P) b x = pslack cfg ((L, C), P) b x" if "account_ok b" "asset_ok x" for b x
      using rows [OF that] c(3) [of b x] p by (auto simp: pslack_def slack_def p'_def a_def margin_of_def update_conv')
  qed (use c(2) tot in simp_all)
  moreover have "ps_qtyRaw p' = ps_qtyRaw p + s * q" by (simp add: p'_def)
  ultimately show ?thesis using run c(4) by blast
qed

lemma open_kept:
  assumes col: "collateral cfg ((L, C), P)" and p: "map_of P acct = Some p" and own: "order_owned cfg i acct C"
    and cfg: "config_sane cfg" and q: "0 \<le> q"
  shows "\<exists>C' p'. open_leg cfg i s q px ((Some L, C), p) = ((Some L, C'), p')
    \<and> kept cfg ((L, C), P) ((L, C'), AList.update acct p' P) \<and> ps_qtyRaw p' = ps_qtyRaw p + s * q
    \<and> (\<forall>j b. order_owned cfg j b C \<longrightarrow> order_owned cfg j b C')"
proof -
  obtain im C' where con: "consumeOrderIM cfg i q C = (im, C')" by (metis surj_pair)
  have res: "res_ok C" and pos: "pos_ok P" using col by (simp_all add: collateral_def)
  note c = consume_effect [OF res own cfg q con]
  define p' where "p' = p\<lparr>ps_entryRaw := (iabs64 (ps_qtyRaw p) * ps_entryRaw p + q * px) sdiv (iabs64 (ps_qtyRaw p) + q),
    ps_qtyRaw := ps_qtyRaw p + s * q, ps_margin := ps_margin p + im\<rparr>"
  have run: "open_leg cfg i s q px ((Some L, C), p) = ((Some L, C'), p')"
    by (simp add: open_leg_def con Let_def p'_def)
  have m: "0 \<le> ps_margin p'" and ok: "account_ok acct" using pos_okD(2) [OF pos p] c(1) by (simp_all add: p'_def)
  have "kept cfg ((L, C), P) ((L, C'), AList.update acct p' P)"
  proof (rule keptI [OF col])
    show "pos_ok (snd ((L, C'), AList.update acct p' P))" using pos_ok_update [OF pos ok m] by simp
    show "pslack cfg ((L, C'), AList.update acct p' P) b x = pslack cfg ((L, C), P) b x" if "account_ok b" "asset_ok x" for b x
      using c(3) [of b x] p by (auto simp: pslack_def slack_def p'_def margin_of_def update_conv')
  qed (use c(2) in simp_all)
  moreover have "ps_qtyRaw p' = ps_qtyRaw p + s * q" by (simp add: p'_def)
  ultimately show ?thesis using run c(4) by blast
qed

text \<open>Two table updates of one account are the last one, as far as look-ups go.\<close>

lemma kept_same_positions:
  assumes "kept cfg s ((L, C), P)" "distinct (map fst P')" "map_of P' = map_of P"
  shows "kept cfg s ((L, C), P')"
proof -
  have "pslack cfg ((L, C), P') = pslack cfg ((L, C), P)" using assms(3) by (simp add: fun_eq_iff pslack_def margin_of_def)
  moreover have "pos_ok P \<Longrightarrow> pos_ok P'" using assms(2,3) unfolding pos_ok_def by simp
  ultimately show ?thesis using assms(1) unfolding kept_def collateral_def by auto
qed

lemma drop_flat_kept:
  assumes col: "collateral cfg ((L, C), AList.update acct p P)" and cfg: "config_sane cfg" and P: "distinct (map fst P)"
  shows "\<exists>L' P'. drop_flat cfg acct ((Some L, C), p) P = ((Some L', C), P') \<and> kept cfg ((L, C), AList.update acct p P) ((L', C), P')
    \<and> map_of P' = (if ps_qtyRaw p = 0 then (map_of P)(acct := None) else (map_of P)(acct \<mapsto> p))"
proof (cases "ps_qtyRaw p = 0")
  case False
  then show ?thesis using kept_refl [OF col] by (simp add: drop_flat_def update_conv')
next
  case True
  define L' where "L' = (if ps_margin p > 0 then release L acct (sc_quoteAsset cfg) (ps_margin p) else L)"
  have pos: "pos_ok (AList.update acct p P)" and res: "res_ok C" using col by (simp_all add: collateral_def)
  have m: "0 \<le> ps_margin p" "account_ok acct" using pos_okD(2) [OF pos, of acct p] by (simp_all add: update_conv')
  have a: "asset_ok (sc_quoteAsset cfg)" using cfg by (simp add: config_sane_def)
  have "ps_margin p \<le> reserved L acct (sc_quoteAsset cfg)"
    using margin_covered [OF col m(2) a] claimed_nonneg [OF res, of acct "sc_quoteAsset cfg"] by (simp add: margin_update)
  then have rows: "reserved L' b x = reserved L b x - (if b = acct \<and> x = sc_quoteAsset cfg then ps_margin p else 0)" if "account_ok b" "asset_ok x" for b x
    using release_some_row [OF m(2) a that m(1)] by (simp add: L'_def)
  have "kept cfg ((L, C), AList.update acct p P) ((L', C), AList.delete acct P)"
  proof (rule keptI [OF col])
    show "pos_ok (snd ((L', C), AList.delete acct P))"
    proof -
      have "map_of (AList.update acct p P) c = Some q" if "map_of (AList.delete acct P) c = Some q" for c q
        using that by (auto simp: delete_conv' update_conv' simp del: map_of_eq_Some_iff split: if_splits)
      then show ?thesis using pos_okD(2) [OF pos] P unfolding pos_ok_def by (auto simp: distinct_delete simp del: map_of_eq_Some_iff)
    qed
    show "pslack cfg ((L', C), AList.delete acct P) b x = pslack cfg ((L, C), AList.update acct p P) b x" if "account_ok b" "asset_ok x" for b x
      using rows [OF that] by (auto simp: pslack_def slack_def margin_of_def update_conv' delete_conv')
  qed (use res a in \<open>simp_all add: L'_def asset_total_ops\<close>)
  then show ?thesis using True by (simp add: drop_flat_def L'_def delete_conv')
qed

definition qty_of :: "(nat \<times> position) list \<Rightarrow> nat \<Rightarrow> int" where
  "qty_of P c = (case map_of P c of None \<Rightarrow> 0 | Some p \<Rightarrow> ps_qtyRaw p)"

lemma qty_held: "ps_qtyRaw (held_position P c) = qty_of P c"
  by (simp add: held_position_def qty_of_def no_position_def split: option.split)

lemma reduce_part_kept:
  assumes col: "collateral cfg ((L, C), P)" and p: "map_of P acct = Some p" and own: "order_owned cfg i acct C"
    and cfg: "config_sane cfg" and venue: "account_ok venue" and q: "0 \<le> q"
  shows "\<exists>L' C' p'. (if posSign p \<noteq> 0 \<and> posSign p \<noteq> s then reduce_leg cfg venue acct i s (min q (iabs64 (ps_qtyRaw p))) px ((Some L, C), p)
        else ((Some L, C), p)) = ((Some L', C'), p')
    \<and> kept cfg ((L, C), P) ((L', C'), AList.update acct p' P)
    \<and> ps_qtyRaw p' = ps_qtyRaw p + s * (if posSign p \<noteq> 0 \<and> posSign p \<noteq> s then min q (iabs64 (ps_qtyRaw p)) else 0)
    \<and> (\<forall>j b. order_owned cfg j b C \<longrightarrow> order_owned cfg j b C')"
proof (cases "posSign p \<noteq> 0 \<and> posSign p \<noteq> s")
  case True
  have "0 \<le> min q (iabs64 (ps_qtyRaw p))" using q by (simp add: iabs64_def)
  moreover have "ps_qtyRaw p \<noteq> 0" using True by (auto simp: posSign_def)
  ultimately show ?thesis using reduce_kept [OF col p own cfg venue _ min.cobounded2, of q s px] True by simp
next
  case False
  have "distinct (map fst P)" using col by (simp add: collateral_def pos_ok_def)
  then have "kept cfg ((L, C), P) ((L, C), AList.update acct p P)"
    using kept_same_positions [OF kept_refl [OF col], of "AList.update acct p P"] p by (simp add: distinct_update update_conv' fun_upd_idem)
  then show ?thesis using False by auto
qed

lemma update_perp_kept:
  assumes col: "collateral cfg ((L, C), P)" and own: "order_owned cfg i acct C"
    and cfg: "config_sane cfg" and ok: "account_ok venue" "account_ok acct" and q: "0 \<le> q"
  shows "\<exists>L' C' P'. updatePerpPosition cfg venue acct i fb q px ((Some L, C), P) = ((Some L', C'), P')
    \<and> kept cfg ((L, C), P) ((L', C'), P') \<and> (\<forall>j b. order_owned cfg j b C \<longrightarrow> order_owned cfg j b C')
    \<and> (\<forall>c. qty_of P' c = qty_of P c + (if c = acct then (if fb then q else - q) else 0))"
proof -
  define p where "p = held_position P acct"
  define s :: int where "s = (if fb then 1 else - 1)"
  define r where "r = (if posSign p \<noteq> 0 \<and> posSign p \<noteq> s then min q (iabs64 (ps_qtyRaw p)) else 0)"
  have dist: "distinct (map fst P)" using col by (simp add: collateral_def pos_ok_def)
  note k0 = kept_hold [OF col ok(2), folded p_def]
  have p0: "map_of (AList.update acct p P) acct = Some p" by (simp add: update_conv')
  obtain L1 C1 p1 where leg1: "(if posSign p \<noteq> 0 \<and> posSign p \<noteq> s then reduce_leg cfg venue acct i s (min q (iabs64 (ps_qtyRaw p))) px ((Some L, C), p)
        else ((Some L, C), p)) = ((Some L1, C1), p1)"
    and k1: "kept cfg ((L, C), AList.update acct p P) ((L1, C1), AList.update acct p1 (AList.update acct p P))"
    and q1: "ps_qtyRaw p1 = ps_qtyRaw p + s * r" and own1: "\<And>j b. order_owned cfg j b C \<longrightarrow> order_owned cfg j b C1"
    using reduce_part_kept [OF kept_collateral [OF k0] p0 own cfg ok(1) q, of s px, folded r_def] by blast
  have k1': "kept cfg ((L, C), P) ((L1, C1), AList.update acct p1 P)"
    using kept_same_positions [OF kept_trans [OF k0 k1], of "AList.update acct p1 P"] dist by (simp add: distinct_update update_conv')
  have p1: "map_of (AList.update acct p1 P) acct = Some p1" by (simp add: update_conv')
  have rq: "r \<le> q" "0 \<le> r" using q by (simp_all add: r_def iabs64_def)
  obtain C2 p2 where leg2: "(if q - r > 0 then open_leg cfg i s (q - r) px ((Some L1, C1), p1) else ((Some L1, C1), p1)) = ((Some L1, C2), p2)"
    and k2: "kept cfg ((L, C), P) ((L1, C2), AList.update acct p2 P)" and q2: "ps_qtyRaw p2 = ps_qtyRaw p1 + s * (q - r)"
    and own2: "\<forall>j b. order_owned cfg j b C \<longrightarrow> order_owned cfg j b C2"
  proof (cases "q - r > 0")
    case True
    then have "0 \<le> q - r" by simp
    then obtain C2 p2 where o: "open_leg cfg i s (q - r) px ((Some L1, C1), p1) = ((Some L1, C2), p2)"
      "kept cfg ((L1, C1), AList.update acct p1 P) ((L1, C2), AList.update acct p2 (AList.update acct p1 P))"
      "ps_qtyRaw p2 = ps_qtyRaw p1 + s * (q - r)" "\<forall>j b. order_owned cfg j b C1 \<longrightarrow> order_owned cfg j b C2"
      using open_kept [OF kept_collateral [OF k1'] p1 own1 [rule_format, OF own] cfg, of "q - r" s px] by blast
    have "kept cfg ((L, C), P) ((L1, C2), AList.update acct p2 P)"
      using kept_same_positions [OF kept_trans [OF k1' o(2)], of "AList.update acct p2 P"] dist by (simp add: distinct_update update_conv')
    then show ?thesis by (rule that [rotated]) (use o own1 True in auto)
  next
    case False
    then show ?thesis using that [of C1 p1] k1' own1 rq by simp
  qed
  obtain L3 P3 where leg3: "drop_flat cfg acct ((Some L1, C2), p2) P = ((Some L3, C2), P3)"
    and k3: "kept cfg ((L1, C2), AList.update acct p2 P) ((L3, C2), P3)"
    and m3: "map_of P3 = (if ps_qtyRaw p2 = 0 then (map_of P)(acct := None) else (map_of P)(acct \<mapsto> p2))"
    using drop_flat_kept [OF kept_collateral [OF k2] cfg dist] by blast
  have "updatePerpPosition cfg venue acct i fb q px ((Some L, C), P) = ((Some L3, C2), P3)"
  proof -
    have pd: "(case map_of P acct of None \<Rightarrow> no_position | Some p \<Rightarrow> p) = p" by (simp add: p_def held_position_def)
    have "(if posSign p \<noteq> 0 \<and> posSign p \<noteq> s then reduce_leg cfg venue acct i s r px ((Some L, C), p) else ((Some L, C), p)) = ((Some L1, C1), p1)"
      using leg1 by (auto simp: r_def)
    then show ?thesis
      by (simp only: updatePerpPosition_def Let_def prod.case pd s_def [symmetric] r_def [symmetric] leg2 leg3)
  qed
  moreover have "qty_of P3 c = qty_of P c + (if c = acct then (if fb then q else - q) else 0)" for c
  proof -
    have "ps_qtyRaw p2 = qty_of P acct + s * q" using q1 q2 by (simp add: p_def qty_held algebra_simps)
    then show ?thesis by (auto simp: qty_of_def m3 s_def)
  qed
  ultimately show ?thesis using kept_trans [OF k2 k3] own2 by blast
qed

lemma settle_positions_sides:
  "settle_positions cfg venue t s = updatePerpPosition cfg venue (snd (trade_seller t)) (fst (trade_seller t)) False (tr_quantity t) (tr_price t)
    (updatePerpPosition cfg venue (snd (trade_buyer t)) (fst (trade_buyer t)) True (tr_quantity t) (tr_price t) s)"
  by (simp add: settle_positions_def trade_buyer_def trade_seller_def Let_def)

definition trade_owned :: "symbol_config \<Rightarrow> trade \<Rightarrow> credit_state \<Rightarrow> bool" where
  "trade_owned cfg t C \<longleftrightarrow> order_owned cfg (fst (trade_buyer t)) (snd (trade_buyer t)) C \<and> order_owned cfg (fst (trade_seller t)) (snd (trade_seller t)) C
    \<and> account_ok (tr_makerAccount t) \<and> account_ok (tr_takerAccount t) \<and> 0 \<le> tr_quantity t"

lemma kept_credit:
  assumes "collateral cfg ((L, C), P)" "fenced L' C' \<and> (\<forall>c a. account_ok c \<longrightarrow> asset_ok a \<longrightarrow> slack L' C' c a = slack L C c a)"
    and "\<And>x. asset_total L' x = asset_total L x"
  shows "kept cfg ((L, C), P) ((L', C'), P)"
proof (rule keptI [OF assms(1)])
  show "res_ok (snd (fst ((L', C'), P)))" using assms(2) unfolding res_ok_def fenced_def by auto
  show "pos_ok (snd ((L', C'), P))" using assms(1) by (simp add: collateral_def)
qed (use assms(2,3) in \<open>simp_all add: pslack_def\<close>)

lemma settlePerp_kept:
  assumes col: "collateral cfg ((L, C), P)" and own: "trade_owned cfg t C" and cfg: "config_sane cfg" and venue: "account_ok venue"
  shows "\<exists>L' C' P'. fst (settlePerp rates cfg venue t ((Some L, C), P)) = ((Some L', C'), P') \<and> kept cfg ((L, C), P) ((L', C'), P')
    \<and> (\<forall>c. qty_of P' c = qty_of P c + (if c = snd (trade_buyer t) then tr_quantity t else 0) - (if c = snd (trade_seller t) then tr_quantity t else 0))"
proof -
  have acct: "account_ok (snd (trade_buyer t))" "account_ok (snd (trade_seller t))" and q: "0 \<le> tr_quantity t"
    using own by (simp_all add: trade_owned_def trade_buyer_def trade_seller_def)
  obtain L1 C1 P1 where 1: "updatePerpPosition cfg venue (snd (trade_buyer t)) (fst (trade_buyer t)) True (tr_quantity t) (tr_price t) ((Some L, C), P) = ((Some L1, C1), P1)"
    and k1: "kept cfg ((L, C), P) ((L1, C1), P1)" and o1: "\<forall>j b. order_owned cfg j b C \<longrightarrow> order_owned cfg j b C1"
    and q1: "\<forall>c. qty_of P1 c = qty_of P c + (if c = snd (trade_buyer t) then tr_quantity t else 0)"
    using update_perp_kept [OF col _ cfg venue acct(1) q, of "fst (trade_buyer t)" True "tr_price t"] own by (auto simp: trade_owned_def)
  obtain L2 C2 P2 where 2: "updatePerpPosition cfg venue (snd (trade_seller t)) (fst (trade_seller t)) False (tr_quantity t) (tr_price t) ((Some L1, C1), P1) = ((Some L2, C2), P2)"
    and k2: "kept cfg ((L1, C1), P1) ((L2, C2), P2)"
    and q2: "\<forall>c. qty_of P2 c = qty_of P1 c - (if c = snd (trade_seller t) then tr_quantity t else 0)"
    using update_perp_kept [OF kept_collateral [OF k1] _ cfg venue acct(2) q, of "fst (trade_seller t)" False "tr_price t"] own o1
    by (auto simp: trade_owned_def)
  define L3 where "L3 = fst (fees_settle rates cfg venue t L2)"
  have "kept cfg ((L2, C2), P2) ((L3, C2), P2)"
  proof (rule kept_credit [OF kept_collateral [OF k2]])
    show "fenced L3 C2 \<and> (\<forall>c a. account_ok c \<longrightarrow> asset_ok a \<longrightarrow> slack L3 C2 c a = slack L2 C2 c a)" unfolding L3_def
      by (rule fenced_rows [OF collateral_fenced [OF kept_collateral [OF k2]]])
        (use own cfg venue in \<open>simp add: fees_settle_reserved trade_owned_def config_sane_def\<close>)
    show "asset_total L3 x = asset_total L2 x" for x using fees_settle_total cfg by (simp add: L3_def config_sane_def)
  qed
  then have "kept cfg ((L, C), P) ((L3, C2), P2)" using kept_trans k1 k2 by blast
  moreover have "fst (settlePerp rates cfg venue t ((Some L, C), P)) = ((Some L3, C2), P2)"
    by (simp add: settlePerp_def settle_positions_sides 1 2 L3_def case_prod_unfold Let_def)
  ultimately show ?thesis using q1 q2 by auto
qed

subsection \<open>Liquidation\<close>

definition hook_safe :: "cancel_hook \<Rightarrow> bool" where
  "hook_safe cancelAll \<longleftrightarrow> (\<forall>acct L C L' C' es. fenced L C \<longrightarrow> cancelAll acct (L, C) = ((L', C'), es) \<longrightarrow>
     fenced L' C' \<and> (\<forall>c a. account_ok c \<longrightarrow> asset_ok a \<longrightarrow> slack L' C' c a = slack L C c a) \<and> (\<forall>x. asset_total L' x = asset_total L x))"

text \<open>A position leaves the table and its margin leaves the reserved balance; other moves are credits.\<close>

lemma close_kept:
  assumes col: "collateral cfg ((L, C), P)" and p: "map_of P acct = Some p" and cfg: "config_sane cfg"
    and rows: "\<And>c a. account_ok c \<Longrightarrow> asset_ok a \<Longrightarrow> reserved L' c a = reserved L c a - (if c = acct \<and> a = sc_quoteAsset cfg then ps_margin p else 0)"
    and tot: "\<And>x. asset_total L' x = asset_total L x"
  shows "kept cfg ((L, C), P) ((L', C), AList.delete acct P)"
proof (rule keptI [OF col])
  show "pos_ok (snd ((L', C), AList.delete acct P))" using col pos_ok_delete by (simp add: collateral_def)
  show "pslack cfg ((L', C), AList.delete acct P) b x = pslack cfg ((L, C), P) b x" if "account_ok b" "asset_ok x" for b x
    using rows [OF that] p by (auto simp: pslack_def slack_def margin_of_def delete_conv')
qed (use col tot in \<open>simp_all add: collateral_def\<close>)

lemma position_margin_covered:
  assumes "collateral cfg ((L, C), P)" "map_of P acct = Some p" "config_sane cfg"
  shows "0 \<le> ps_margin p" "ps_margin p \<le> reserved L acct (sc_quoteAsset cfg)" "account_ok acct"
proof -
  show m: "0 \<le> ps_margin p" "account_ok acct" using pos_okD(2) [OF _ assms(2)] assms(1) by (simp_all add: collateral_def)
  show "ps_margin p \<le> reserved L acct (sc_quoteAsset cfg)"
    using margin_covered [OF assms(1) m(2)] assms claimed_nonneg [of C acct "sc_quoteAsset cfg"]
    by (simp add: margin_of_def collateral_def config_sane_def)
qed

lemma debit_reserved:
  "asset_ok a \<Longrightarrow> asset_ok a' \<Longrightarrow> account_ok c \<Longrightarrow> account_ok c' \<Longrightarrow> reserved (snd (debit L c a q)) c' a' = reserved L c' a'"
  by (auto simp: debit_def Let_def balance_views bal_of_put key_inject)

lemma close_account_rows:
  assumes "asset_ok (sc_quoteAsset cfg)" "account_ok venue" "account_ok acct" "0 \<le> ps_margin p" "ps_margin p \<le> reserved L acct (sc_quoteAsset cfg)"
  shows "account_ok c \<Longrightarrow> asset_ok a \<Longrightarrow> reserved (close_account cfg venue acct mark p L) c a = reserved L c a - (if c = acct \<and> a = sc_quoteAsset cfg then ps_margin p else 0)"
    "asset_total (close_account cfg venue acct mark p L) x = asset_total L x"
proof -
  define L1 where "L1 = credit (credit L acct (sc_quoteAsset cfg) (cfgNotional cfg (mark - ps_entryRaw p) (iabs64 (ps_qtyRaw p)) * (if ps_qtyRaw p > 0 then 1 else - 1)))
    venue (sc_quoteAsset cfg) (- (cfgNotional cfg (mark - ps_entryRaw p) (iabs64 (ps_qtyRaw p)) * (if ps_qtyRaw p > 0 then 1 else - 1)))"
  have c: "close_account cfg venue acct mark p L = (if ps_margin p > 0 then release L1 acct (sc_quoteAsset cfg) (ps_margin p) else L1)"
    by (simp add: close_account_def Let_def L1_def)
  have L1: "reserved L1 c a = reserved L c a" if "account_ok c" "asset_ok a" for c a using that assms(1-3) by (simp add: L1_def credit_reserved)
  show "reserved (close_account cfg venue acct mark p L) c a = reserved L c a - (if c = acct \<and> a = sc_quoteAsset cfg then ps_margin p else 0)"
    if "account_ok c" "asset_ok a"
    using release_some_row [OF assms(3,1) that assms(4), of L1] assms(5) L1 [OF that] L1 [OF assms(3,1)] by (simp add: c)
  show "asset_total (close_account cfg venue acct mark p L) x = asset_total L x"
    using assms(1) by (simp only: c release_some_total [OF assms(1)]) (simp only: L1_def credit_pair_total [OF assms(1)])
qed

lemma adl_close_rows:
  assumes "asset_ok (sc_quoteAsset cfg)" "account_ok venue" "account_ok acct" "0 \<le> ps_margin p" "ps_margin p \<le> reserved L acct (sc_quoteAsset cfg)"
    and run: "adl_close cfg venue mark acct p remaining L = (taken, L')"
  shows "account_ok c \<Longrightarrow> asset_ok a \<Longrightarrow> reserved L' c a = reserved L c a - (if c = acct \<and> a = sc_quoteAsset cfg then ps_margin p else 0)"
    "asset_total L' x = asset_total L x"
proof -
  define u where "u = cfgNotional cfg (mark - ps_entryRaw p) (ps_qtyRaw p)"
  define L1 where "L1 = credit (credit L acct (sc_quoteAsset cfg) u) venue (sc_quoteAsset cfg) (- u)"
  define L2 where "L2 = (if ps_margin p > 0 then release L1 acct (sc_quoteAsset cfg) (ps_margin p) else L1)"
  have L': "L' = (if taken > 0 then credit (snd (debit L2 acct (sc_quoteAsset cfg) taken)) venue (sc_quoteAsset cfg) taken else L2)"
    and t: "taken \<le> (if available L2 acct (sc_quoteAsset cfg) > 0 then available L2 acct (sc_quoteAsset cfg) else 0)"
    using run unfolding adl_close_def Let_def u_def [symmetric] L1_def [symmetric] L2_def [symmetric] by auto
  have L1: "reserved L1 c a = reserved L c a" if "account_ok c" "asset_ok a" for c a using that assms(1-3) by (simp add: L1_def credit_reserved)
  have L2: "reserved L2 c a = reserved L c a - (if c = acct \<and> a = sc_quoteAsset cfg then ps_margin p else 0)" if "account_ok c" "asset_ok a" for c a
    using release_some_row [OF assms(3,1) that assms(4), of L1] assms(5) L1 [OF that] L1 [OF assms(3,1)] by (simp add: L2_def)
  show "reserved L' c a = reserved L c a - (if c = acct \<and> a = sc_quoteAsset cfg then ps_margin p else 0)" if "account_ok c" "asset_ok a"
    using L2 [OF that] that assms(1-3) by (auto simp: L' credit_reserved debit_reserved)
  have "asset_total L' x = asset_total L2 x"
    using ldg.covered_transfer [OF assms(1), of taken L2 acct venue x] t by (auto simp: L' split: if_splits)
  also have "\<dots> = asset_total L x" unfolding L2_def release_some_total [OF assms(1)] L1_def credit_pair_total [OF assms(1)] ..
  finally show "asset_total L' x = asset_total L x" .
qed

lemma adl_walk_kept:
  assumes "config_sane cfg" "account_ok venue"
  shows "collateral cfg ((L, C), P) \<Longrightarrow> adl_walk cfg venue mark cs remaining (L, P) = ((L', P'), es) \<Longrightarrow> kept cfg ((L, C), P) ((L', C), P')"
proof (induction cs arbitrary: remaining L P es)
  case Nil
  then show ?case by (simp add: kept_refl)
next
  case (Cons c cs)
  show ?case
  proof (cases "remaining \<le> 0")
    case True
    then show ?thesis using Cons.prems by (simp add: kept_refl)
  next
    case False
    show ?thesis
    proof (cases "map_of P (ac_acct c)")
      case None
      then show ?thesis using Cons False by simp
    next
      case (Some p)
      obtain taken L1 where a: "adl_close cfg venue mark (ac_acct c) p remaining L = (taken, L1)" by (metis surj_pair)
      obtain es1 where w: "adl_walk cfg venue mark cs (remaining - taken) (L1, AList.delete (ac_acct c) P) = ((L', P'), es1)"
        using Cons.prems(2) False Some a by (auto simp: case_prod_unfold Let_def prod_eq_iff)
      note m = position_margin_covered [OF Cons.prems(1) Some assms(1)]
      have aq: "asset_ok (sc_quoteAsset cfg)" using assms(1) by (simp add: config_sane_def)
      have "kept cfg ((L, C), P) ((L1, C), AList.delete (ac_acct c) P)"
        by (rule close_kept [OF Cons.prems(1) Some assms(1)]) (use adl_close_rows [OF aq assms(2) m(3,1,2) a] in simp_all)
      then show ?thesis using Cons.IH [OF kept_collateral w] kept_trans by blast
    qed
  qed
qed

lemma forceClose_unfold:
  assumes "map_of P acct = Some p" "cancelAll acct (L, C) = ((L1, C1), es0)"
  shows "forceClose cfg venue cancelAll mark acct ((L, C), P) =
    (let L2 = close_account cfg venue acct mark p L1; av = available L2 acct (sc_quoteAsset cfg);
         L3 = (if av < 0 then credit (credit L2 acct (sc_quoteAsset cfg) (- av)) venue (sc_quoteAsset cfg) av else L2);
         adl = (if av < 0 \<and> sc_autoDeleverage cfg
           then autoDeleverage cfg venue (if ps_qtyRaw p > 0 then 1 else - 1) (if av < 0 then - av else 0) mark (L3, AList.delete acct P)
           else ((L3, AList.delete acct P), []))
     in (((fst (fst adl), C1), snd (fst adl)), es0 @ closed_event cfg acct mark p (av < 0) False # snd adl))"
  by (simp add: forceClose_def assms Let_def case_prod_unfold)

lemma forceClose_kept:
  assumes col: "collateral cfg ((L, C), P)" and cfg: "config_sane cfg" and venue: "account_ok venue" and hook: "hook_safe cancelAll"
  shows "kept cfg ((L, C), P) (fst (forceClose cfg venue cancelAll mark acct ((L, C), P)))"
proof (cases "map_of P acct")
  case None
  then show ?thesis using col by (simp add: forceClose_def kept_refl)
next
  case (Some p)
  define a where "a = sc_quoteAsset cfg"
  obtain L1 C1 es where h: "cancelAll acct (L, C) = ((L1, C1), es)" by (metis surj_pair)
  have aq: "asset_ok (sc_quoteAsset cfg)" using cfg by (simp add: config_sane_def)
  have k1: "kept cfg ((L, C), P) ((L1, C1), P)"
    using kept_credit [OF col] hook [unfolded hook_safe_def, rule_format, OF collateral_fenced [OF col] h] by blast
  note m = position_margin_covered [OF kept_collateral [OF k1] Some cfg]
  define L2 where "L2 = close_account cfg venue acct mark p L1"
  have k2: "kept cfg ((L1, C1), P) ((L2, C1), AList.delete acct P)"
    unfolding L2_def by (rule close_kept [OF kept_collateral [OF k1] Some cfg]) (rule close_account_rows [OF aq venue m(3,1,2)]; assumption)+
  define av where "av = available L2 acct a"
  define L3 where "L3 = (if av < 0 then credit (credit L2 acct a (- av)) venue a av else L2)"
  have k3: "kept cfg ((L2, C1), AList.delete acct P) ((L3, C1), AList.delete acct P)"
  proof (rule kept_credit [OF kept_collateral [OF k2]])
    show "fenced L3 C1 \<and> (\<forall>c a. account_ok c \<longrightarrow> asset_ok a \<longrightarrow> slack L3 C1 c a = slack L2 C1 c a)"
      by (rule fenced_rows [OF collateral_fenced [OF kept_collateral [OF k2]]]) (use venue m(3) aq in \<open>simp add: L3_def a_def credit_reserved\<close>)
    show "asset_total L3 x = asset_total L2 x" for x using credit_pair_total [OF aq, of L2 acct "- av" venue x] by (simp add: L3_def a_def)
  qed
  define adl where "adl = (if av < 0 \<and> sc_autoDeleverage cfg
    then autoDeleverage cfg venue (if ps_qtyRaw p > 0 then 1 else - 1) (if av < 0 then - av else 0) mark (L3, AList.delete acct P) else ((L3, AList.delete acct P), []))"
  have k4: "kept cfg ((L3, C1), AList.delete acct P) ((fst (fst adl), C1), snd (fst adl))"
    using adl_walk_kept [OF cfg venue kept_collateral [OF k3]] kept_refl [OF kept_collateral [OF k3]]
    by (auto simp: adl_def autoDeleverage_def) (metis prod.collapse)+
  have "fst (forceClose cfg venue cancelAll mark acct ((L, C), P)) = ((fst (fst adl), C1), snd (fst adl))"
    unfolding forceClose_unfold [where mark = mark and venue = venue and cfg = cfg and cancelAll = cancelAll, OF Some h] Let_def a_def [symmetric] L2_def [symmetric] av_def [symmetric]
      L3_def [symmetric] adl_def [symmetric] by simp
  then show ?thesis using kept_trans [OF kept_trans [OF kept_trans [OF k1 k2] k3] k4] by simp
qed

lemma close_all_kept:
  assumes "config_sane cfg" "account_ok venue" "hook_safe cancelAll"
  shows "collateral cfg s \<Longrightarrow> kept cfg s (fst (close_all cfg venue cancelAll mark as s))"
proof (induction "as" arbitrary: s)
  case Nil
  then show ?case by (simp add: kept_refl)
next
  case (Cons a as)
  obtain s1 es where f: "forceClose cfg venue cancelAll mark a s = (s1, es)" by (metis surj_pair)
  have k: "kept cfg s s1" using forceClose_kept [OF _ assms, of "fst (fst s)" "snd (fst s)" "snd s" mark a] Cons.prems f by simp
  have "kept cfg s1 (fst (close_all cfg venue cancelAll mark as s1))" by (rule Cons.IH [OF kept_collateral [OF k]])
  with k show ?case using kept_trans by (simp add: f case_prod_unfold Let_def)
qed

lemma checkLiquidations_kept:
  assumes "config_sane cfg" "account_ok venue" "hook_safe cancelAll" "collateral cfg s"
  shows "kept cfg s (fst (checkLiquidations cfg venue cancelAll mark s))"
  using close_all_kept [OF assms] kept_refl [OF assms(4)] by (cases s) (auto simp: checkLiquidations_def)

lemma funding_pay_kept:
  assumes "config_sane cfg" "account_ok venue" "collateral cfg ((L, C), P)" "account_ok (fst ap)"
  shows "kept cfg ((L, C), P) ((funding_pay cfg venue rate mark ap L, C), P)"
proof (rule kept_credit [OF assms(3)])
  have aq: "asset_ok (sc_quoteAsset cfg)" using assms(1) by (simp add: config_sane_def)
  show "fenced (funding_pay cfg venue rate mark ap L) C \<and>
      (\<forall>c a. account_ok c \<longrightarrow> asset_ok a \<longrightarrow> slack (funding_pay cfg venue rate mark ap L) C c a = slack L C c a)"
    by (rule fenced_rows [OF collateral_fenced [OF assms(3)]]) (use assms(2,4) aq in \<open>simp add: funding_pay_def case_prod_unfold Let_def credit_reserved\<close>)
  show "asset_total (funding_pay cfg venue rate mark ap L) x = asset_total L x" for x
    unfolding funding_pay_def case_prod_unfold Let_def by (rule credit_pair_total [OF aq])
qed

lemma funding_fold_kept:
  assumes "config_sane cfg" "account_ok venue" "collateral cfg ((L, C), P)" "\<forall>ap \<in> set aps. account_ok (fst ap)"
  shows "kept cfg ((L, C), P) ((fold (funding_pay cfg venue rate mark) aps L, C), P)"
  using assms(3,4)
proof (induction aps arbitrary: L)
  case (Cons ap aps)
  have k: "kept cfg ((L, C), P) ((funding_pay cfg venue rate mark ap L, C), P)" using funding_pay_kept [OF assms(1,2)] Cons.prems by simp
  have "kept cfg ((funding_pay cfg venue rate mark ap L, C), P) ((fold (funding_pay cfg venue rate mark) aps (funding_pay cfg venue rate mark ap L), C), P)"
    by (rule Cons.IH) (use kept_collateral [OF k] Cons.prems in simp_all)
  with k show ?case using kept_trans by simp
qed (simp add: kept_refl)

lemma applyFunding_kept:
  assumes "config_sane cfg" "account_ok venue" "hook_safe cancelAll" "collateral cfg ((L, C), cl_positions cl)"
  shows "\<exists>L' C' cl'. fst (applyFunding cfg venue cancelAll rate mark now ((Some L, C), cl)) = ((Some L', C'), cl')
    \<and> kept cfg ((L, C), cl_positions cl) ((L', C'), cl_positions cl')"
proof -
  define cl1 where "cl1 = advanceFundingSchedule now (cl\<lparr>cl_fundingRateRaw := rate\<rparr>)"
  have P: "cl_positions cl1 = cl_positions cl" by (simp add: cl1_def advanceFundingSchedule_def Let_def)
  define L1 where "L1 = fold (funding_pay cfg venue rate mark) (cl_positions cl) L"
  have "pos_ok (cl_positions cl)" using assms(4) by (simp add: collateral_def)
  then have "\<forall>ap \<in> set (cl_positions cl). account_ok (fst ap)" using pos_okD by fastforce
  then have k1: "kept cfg ((L, C), cl_positions cl) ((L1, C), cl_positions cl)" unfolding L1_def by (rule funding_fold_kept [OF assms(1,2,4)])
  obtain L2 C2 P2 es where run: "checkLiquidations cfg venue cancelAll mark ((L1, C), cl_positions cl) = (((L2, C2), P2), es)" by (metis surj_pair)
  have "kept cfg ((L1, C), cl_positions cl) ((L2, C2), P2)" using checkLiquidations_kept [OF assms(1-3) kept_collateral [OF k1], of mark] run by simp
  then have "kept cfg ((L, C), cl_positions cl) ((L2, C2), P2)" using kept_trans k1 by blast
  moreover have "fst (applyFunding cfg venue cancelAll rate mark now ((Some L, C), cl)) = ((Some L2, C2), cl1\<lparr>cl_positions := P2\<rparr>)"
    by (simp add: applyFunding_def Let_def cl1_def [symmetric] P L1_def [symmetric] run)
  ultimately show ?thesis by auto
qed

lemma adjust_kept:
  assumes "collateral cfg ((L, C), P)" "account_ok (aj_accountId adj)"
  shows "kept cfg ((L, C), P) ((L, C), fst (adjustPosition cfg adj P))"
proof -
  define p where "p = held_position P (aj_accountId adj)"
  have pos: "pos_ok P" using assms by (simp add: collateral_def)
  have m: "ps_margin p = margin_of cfg P (aj_accountId adj) (sc_quoteAsset cfg)" by (simp add: p_def margin_held)
  have "kept cfg ((L, C), P) ((L, C), AList.update (aj_accountId adj) p' P)" if "ps_margin p' = ps_margin p" for p'
  proof (rule keptI [OF assms(1)])
    show "pos_ok (snd ((L, C), AList.update (aj_accountId adj) p' P))" using pos_ok_update [OF pos assms(2)] that m margin_nonneg [OF pos] by simp
    show "pslack cfg ((L, C), AList.update (aj_accountId adj) p' P) c a = pslack cfg ((L, C), P) c a" for c a
      using that m by (simp add: pslack_def margin_update)
  qed (use assms in \<open>simp_all add: collateral_def\<close>)
  moreover define p' where "p' = (let r = p\<lparr>ps_qtyRaw := ps_qtyRaw p + aj_qtyDeltaRaw adj\<rparr>;
      r = (if aj_entryRaw adj \<noteq> 0 then r\<lparr>ps_entryRaw := aj_entryRaw adj\<rparr> else r) in if ps_qtyRaw r = 0 then r\<lparr>ps_entryRaw := 0\<rparr> else r)"
  moreover have "ps_margin p' = ps_margin p" by (simp add: p'_def Let_def)
  moreover have "fst (adjustPosition cfg adj P) = P \<or> fst (adjustPosition cfg adj P) = AList.update (aj_accountId adj) p' P"
    unfolding adjustPosition_def p'_def p_def held_position_def Let_def by simp
  ultimately show ?thesis using kept_refl [OF assms(1)] by metis
qed

subsection \<open>Life of a perpetual\<close>

text \<open>
  The commands that touch money, reservations or positions: the credit steps (an admission, a release),
  the settlement of a trade whose orders belong to its accounts, an external forced close, the
  liquidation sweep at a mark, a funding payment and an operator's correction.
\<close>

type_synonym venue_state = "money \<times> clearing"

inductive perp_step :: "symbol_config \<Rightarrow> nat \<Rightarrow> cancel_hook \<Rightarrow> venue_state \<Rightarrow> venue_state \<Rightarrow> bool" for cfg venue cancelAll where
  step_credit: "credit_step cfg venue m m' \<Longrightarrow> perp_step cfg venue cancelAll (m, cl) (m', cl)"
| step_trade: "trade_owned cfg t C \<Longrightarrow> settlePerp rates cfg venue t ((Some L, C), cl_positions cl) = (((Some L', C'), P'), es) \<Longrightarrow>
    perp_step cfg venue cancelAll ((L, C), cl) ((L', C'), cl\<lparr>cl_positions := P'\<rparr>)"
| step_force_close: "onForceClose cfg venue cancelAll mark fc ((Some L, C), cl_positions cl) = (((Some L', C'), P'), es) \<Longrightarrow>
    perp_step cfg venue cancelAll ((L, C), cl) ((L', C'), cl\<lparr>cl_positions := P'\<rparr>)"
| step_mark: "checkLiquidations cfg venue cancelAll mark (m, cl_positions cl) = ((m', P'), es) \<Longrightarrow>
    perp_step cfg venue cancelAll (m, cl) (m', cl\<lparr>cl_positions := P'\<rparr>)"
| step_funding: "applyFunding cfg venue cancelAll rate mark now ((Some L, C), cl) = (((Some L', C'), cl'), es) \<Longrightarrow>
    perp_step cfg venue cancelAll ((L, C), cl) ((L', C'), cl')"
| step_adjust: "account_ok (aj_accountId adj) \<Longrightarrow> adjustPosition cfg adj (cl_positions cl) = (P', es) \<Longrightarrow>
    perp_step cfg venue cancelAll (m, cl) (m, cl\<lparr>cl_positions := P'\<rparr>)"

lemma perp_step_kept:
  assumes "perp_step cfg venue cancelAll s s'" "config_sane cfg" "account_ok venue" "hook_safe cancelAll" "collateral cfg (fst s, cl_positions (snd s))"
  shows "kept cfg (fst s, cl_positions (snd s)) (fst s', cl_positions (snd s'))"
  using assms
proof (induction rule: perp_step.induct)
  case (step_credit m m' cl)
  have f: "fenced (fst m) (snd m)" using collateral_fenced [of cfg "fst m" "snd m" "cl_positions cl"] step_credit by simp
  have "kept cfg ((fst m, snd m), cl_positions cl) ((fst m', snd m'), cl_positions cl)"
    by (rule kept_credit) (use step_credit credit_step_fenced [OF step_credit(1,2,3) f] credit_step_total [OF step_credit(1,2) f] in auto)
  then show ?case by simp
next
  case (step_trade t C rates L cl L' C' P' es)
  then show ?case using settlePerp_kept [of cfg L C "cl_positions cl" t venue rates] by auto
next
  case (step_force_close mark fc L C cl L' C' P' es)
  then show ?case
    using forceClose_kept [of cfg L C "cl_positions cl" venue cancelAll _ "fp_accountId fc"] kept_refl [of cfg "((L, C), cl_positions cl)"]
    by (auto simp: onForceClose_def case_prod_unfold Let_def split: option.splits if_splits)
next
  case (step_mark mark m cl m' P' es)
  then show ?case using checkLiquidations_kept [of cfg venue cancelAll "(m, cl_positions cl)" mark] by simp
next
  case (step_funding rate mark now L C cl L' C' cl' es)
  then show ?case using applyFunding_kept [of cfg venue cancelAll L C cl rate mark now] by auto
next
  case (step_adjust adj cl P' es m)
  then show ?case using adjust_kept [of cfg "fst m" "snd m" "cl_positions cl" adj] by simp
qed

lemma perp_run_kept:
  assumes "(perp_step cfg venue cancelAll)\<^sup>*\<^sup>* s s'" "config_sane cfg" "account_ok venue" "hook_safe cancelAll" "collateral cfg (fst s, cl_positions (snd s))"
  shows "kept cfg (fst s, cl_positions (snd s)) (fst s', cl_positions (snd s'))"
  using assms(1)
proof (induction rule: rtranclp_induct)
  case base
  then show ?case using kept_refl [OF assms(5)] by simp
next
  case (step y z)
  then show ?case using perp_step_kept [OF step.hyps(2) assms(2-4)] kept_collateral kept_trans by blast
qed

end
