(* ===== verification/CreditClaims.thy ===== *)
theory CreditClaims
  imports CreditProps
begin

section \<open>Credit: the checkpoint sections and the properties\<close>

unbundle bit_operations_syntax

subsection \<open>Checkpoint sections\<close>

lemma admission_eta: "\<lparr>ap_allowedTypes = ap_allowedTypes p, ap_allowedTif = ap_allowedTif p, ap_deny = ap_deny p\<rparr> = (p :: admission_profile)"
  by (cases p) simp

definition restricts :: "admission_profile \<Rightarrow> bool" where
  "restricts p \<longleftrightarrow> \<not> (ap_allowedTypes p = 0 \<and> ap_allowedTif p = 0 \<and> ap_deny p = 0)"

lemma apply_admission_eq:
  "apply_admission r t = (if restricts (sa_profile r) then AList.update (sa_account r) (sa_profile r) t else AList.delete (sa_account r) t)"
  by (auto simp: apply_admission_def setAdmissionProfile_def restricts_def)

interpretation adm: snapshot_section "\<lambda>acct p. [\<lparr>sa_symbol = symbol, sa_account = acct, sa_profile = p\<rparr>]" apply_admission admission_hash
  "\<lambda>_ p. restricts p" "\<lambda>_. True" for symbol
  by unfold_locales (simp_all add: apply_admission_eq update_conv' distinct_update distinct_delete)

lemma reservation_eta:
  "\<lparr>rv_account = rv_account r, rv_asset = rv_asset r, rv_reservedRaw = rv_reservedRaw r, rv_limitPriceRaw = rv_limitPriceRaw r, rv_side = rv_side r\<rparr>
    = (r :: reservation)"
  by (cases r) simp

lemma restore_reservation_eq:
  "restore_reservation_entry q t = (if map_of t (rr_id q) = None
     then AList.update (rr_id q) \<lparr>rv_account = rr_account q, rv_asset = rr_asset q, rv_reservedRaw = rr_reservedRaw q,
       rv_limitPriceRaw = rr_limitPriceRaw q, rv_side = rr_side q\<rparr> t else t)"
  by (simp add: restore_reservation_entry_def applyRestoreReservation_def cr_put_def Let_def)

interpretation rsv: snapshot_section "\<lambda>i r. [reservation_record i r]" restore_reservation_entry reservation_hash "\<lambda>_ _. True" "\<lambda>_. True"
proof unfold_locales
  fix k :: nat and v :: reservation and t :: "(nat \<times> reservation) list"
  assume "map_of t k = None"
  then show "map_of (fold restore_reservation_entry [reservation_record k v] t) = (map_of t)(k \<mapsto> v)"
    by (simp add: restore_reservation_eq update_conv' reservation_record_def reservation_eta)
next
  fix t :: "(nat \<times> reservation) list" and r
  assume "distinct (map fst t)"
  then show "distinct (map fst (restore_reservation_entry r t))" by (simp add: restore_reservation_eq distinct_update)
qed simp_all

lemma limits_eta: "\<lparr>al_maxOrderQty = al_maxOrderQty l, al_maxOrderNotional = al_maxOrderNotional l, al_maxOpenOrders = al_maxOpenOrders l,
    al_maxPositionQty = al_maxPositionQty l\<rparr> = (l :: account_limits)"
  by (cases l) simp

lemma setAccountLimits_record: "setAccountLimits (limits_record symbol acct l) t = AList.update acct l t"
proof -
  have bits: "AccountRiskFatFinger OR AccountRiskMaxOpenOrders OR AccountRiskMaxPosition = 7" "(7 :: 16 word) AND AccountRiskFatFinger \<noteq> 0"
    "(7 :: 16 word) AND AccountRiskMaxOpenOrders \<noteq> 0" "(7 :: 16 word) AND AccountRiskMaxPosition \<noteq> 0"
    by (simp_all add: AccountRiskFatFinger_def AccountRiskMaxOpenOrders_def AccountRiskMaxPosition_def)
  have upd: "m\<lparr>al_maxOrderQty := al_maxOrderQty l, al_maxOrderNotional := al_maxOrderNotional l, al_maxOpenOrders := al_maxOpenOrders l,
      al_maxPositionQty := al_maxPositionQty l\<rparr> = l" for m :: account_limits by (cases m; cases l) simp
  show ?thesis using bits by (simp add: setAccountLimits_def limits_record_def Let_def upd)
qed

lemma setAccountLimits_distinct: "distinct (map fst t) \<Longrightarrow> distinct (map fst (setAccountLimits r t))"
  by (simp add: setAccountLimits_def Let_def distinct_update)

interpretation lmt: snapshot_section "\<lambda>acct l. [limits_record symbol acct l]" setAccountLimits limits_hash "\<lambda>_ _. True" "\<lambda>_. True" for symbol
  by (rule section_single_record) (simp_all add: setAccountLimits_record setAccountLimits_distinct)

text \<open>
  The admission, reservation and account-limit sections of a snapshot restore their tables and
  their contributions to the determinism digest, for every table whose profiles restrict something
  (an unrestricting profile is never stored).
\<close>

theorem credit_sections_restore:
  assumes "distinct (map fst (cs_admission C))" "distinct (map fst (cs_reserve C))" "distinct (map fst (cs_accountLimits C))"
    and "\<forall>k p. map_of (cs_admission C) k = Some p \<longrightarrow> restricts p"
  shows "map_of (fold apply_admission (writeAdmission symbol (cs_admission C)) []) = map_of (cs_admission C)
    \<and> hashAdmission (fold apply_admission (writeAdmission symbol (cs_admission C)) []) = hashAdmission (cs_admission C)
    \<and> map_of (fold restore_reservation_entry (writeReservations (cs_reserve C)) []) = map_of (cs_reserve C)
    \<and> hashReservations (fold restore_reservation_entry (writeReservations (cs_reserve C)) []) = hashReservations (cs_reserve C)
    \<and> map_of (fold setAccountLimits (writeAccountLimits symbol (cs_accountLimits C)) []) = map_of (cs_accountLimits C)
    \<and> hashAccountLimits (fold setAccountLimits (writeAccountLimits symbol (cs_accountLimits C)) []) = hashAccountLimits (cs_accountLimits C)"
proof -
  have "adm.legal_table (cs_admission C)" unfolding adm.legal_table_def using assms(1,4) by blast
  note a = adm.restored_exact [OF this, of symbol] adm.restored_digest [OF this, of symbol]
  have "rsv.legal_table (cs_reserve C)" unfolding rsv.legal_table_def using assms(2) by blast
  note r = rsv.restored_exact [OF this] rsv.restored_digest [OF this]
  have "lmt.legal_table (cs_accountLimits C)" unfolding lmt.legal_table_def using assms(3) by blast
  note l = lmt.restored_exact [OF this, of symbol] lmt.restored_digest [OF this, of symbol]
  show ?thesis using a r l
    by (simp add: writeAdmission_def hashAdmission_def writeReservations_def hashReservations_def writeAccountLimits_def hashAccountLimits_def fun_eq_iff)
qed

subsection \<open>The allowance of a fill\<close>

text \<open>The account's position in the direction of the leg: a buy adds to it, a sell takes from its negation.\<close>

definition toward :: "side \<Rightarrow> int \<Rightarrow> int" where
  "toward sd pos = (if sd = BUY then pos else - pos)"

text \<open>
  A fill of \<open>q\<close> is within the limits of a leg: it moves nothing, or it leaves the position inside the
  instrument's cap and the account's cap (when set), and, for a reduce-only order, no further than flat.
\<close>

definition within_limits :: "nat \<Rightarrow> symbol_config \<Rightarrow> credit_state \<Rightarrow> int \<Rightarrow> side \<Rightarrow> bool \<Rightarrow> int \<Rightarrow> bool" where
  "within_limits account cfg C pos sd reduceOnly q \<longleftrightarrow> q = 0 \<or>
     (sc_maxPositionQty cfg > 0 \<longrightarrow> toward sd pos + q \<le> sc_maxPositionQty cfg)
     \<and> (case map_of (cs_accountLimits C) account of None \<Rightarrow> True
        | Some l \<Rightarrow> al_maxPositionQty l > 0 \<longrightarrow> toward sd pos + q \<le> al_maxPositionQty l)
     \<and> (reduceOnly \<longrightarrow> toward sd pos + q \<le> 0)"

lemma cap_is_strictest:
  "(positionCapRaw account cfg C > 0 \<longrightarrow> x \<le> positionCapRaw account cfg C) \<longleftrightarrow>
    (sc_maxPositionQty cfg > 0 \<longrightarrow> x \<le> sc_maxPositionQty cfg)
    \<and> (case map_of (cs_accountLimits C) account of None \<Rightarrow> True | Some l \<Rightarrow> al_maxPositionQty l > 0 \<longrightarrow> x \<le> al_maxPositionQty l)"
  by (auto simp: positionCapRaw_def Let_def split: option.split)

lemma within_limits_cap:
  "within_limits account cfg C pos sd ro q \<longleftrightarrow> q = 0 \<or>
    (positionCapRaw account cfg C > 0 \<longrightarrow> toward sd pos + q \<le> positionCapRaw account cfg C) \<and> (ro \<longrightarrow> toward sd pos + q \<le> 0)"
  unfolding within_limits_def cap_is_strictest by blast

lemma leg_limit:
  assumes "0 \<le> want" "legFillLimit pos sd ro want why (positionCapRaw account cfg C) = (allowed, why')"
  shows "0 \<le> allowed \<and> allowed \<le> want" "0 \<le> q \<Longrightarrow> q \<le> want \<Longrightarrow> within_limits account cfg C pos sd ro q \<longleftrightarrow> q \<le> allowed"
  unfolding within_limits_cap using assms
  by (cases sd; auto simp: legFillLimit_def toward_def Let_def split: if_splits)+

text \<open>
  C17. What the risk limits let a fill take: the allowance is between nothing and what was wanted; a
  quantity up to the wanted one respects both accounts' limits (instrument cap, account cap,
  reduce-only) exactly when it is at most the allowance, so the allowance is never too much and never
  less than it could be; and a side is named as the blocked one exactly when nothing may trade.
\<close>

theorem fill_limit_sound:
  assumes "0 < want"
    and "f = pairFillLimit makerPos makerSide makerRO takerPos takerSide takerRO want cfg makerAccount takerAccount C"
  shows "0 \<le> fl_qty f \<and> fl_qty f \<le> want
    \<and> (\<forall>q. 0 \<le> q \<and> q \<le> want \<longrightarrow>
        (within_limits makerAccount cfg C makerPos makerSide makerRO q \<and> within_limits takerAccount cfg C takerPos takerSide takerRO q)
          = (q \<le> fl_qty f))
    \<and> (fl_qty f = 0) = (fl_makerBlocked f \<or> fl_takerBlocked f)
    \<and> fl_qty f = min (fl_makerQty f) (fl_takerQty f)"
proof -
  obtain ma mw where m: "legFillLimit makerPos makerSide makerRO want ReduceOnlyNotReducing (positionCapRaw makerAccount cfg C) = (ma, mw)" by (metis surj_pair)
  obtain ta tw where t: "legFillLimit takerPos takerSide takerRO want ReduceOnlyNotReducing (positionCapRaw takerAccount cfg C) = (ta, tw)" by (metis surj_pair)
  have f: "fl_qty f = min ma ta \<and> fl_makerQty f = ma \<and> fl_takerQty f = ta \<and> fl_makerBlocked f = (ma \<le> ta \<and> ma \<le> 0) \<and> fl_takerBlocked f = (ta < ma \<and> ta \<le> 0)"
    unfolding assms(2) pairFillLimit_def m t by auto
  have "0 \<le> want" using assms(1) by simp
  note leg = leg_limit [OF this m] leg_limit [OF this t]
  show ?thesis using leg f by auto
qed

definition limits_cfg :: symbol_config where
  "limits_cfg = \<lparr>sc_id = 1, sc_tickSize = 0, sc_lotSize = 0, sc_minQty = 0, sc_minPrice = 0, sc_maxPrice = 0, sc_maxOrderQty = 0, sc_maxOrderNotional = 0,
    sc_halted = False, sc_triggerRef = TrigLast, sc_lastLookWindowNs = 0, sc_clOrdIdWindowNs = 0, sc_lastLookAcceptOnTimeout = False,
    sc_lastLookToleranceRaw = 0, sc_baseAsset = 1, sc_quoteAsset = 2, sc_luldBps = 0, sc_luldHaltNs = 0, sc_linearPerp = False, sc_initialMarginBps = 1000,
    sc_maintenanceMarginBps = 500, sc_externalLiquidation = False, sc_autoDeleverage = True, sc_maxPositionQty = 100, sc_maxOpenOrders = 0,
    sc_matchPolicy = PriceTimeFifo, sc_priceScale = 100000000, sc_qtyScale = 100000000, sc_fundingIntervalNs = 0\<rparr>"

theorem fill_limit_sound_witness:
  "fl_qty (pairFillLimit 0 SELL False 90 BUY False 30 limits_cfg 5 6 credit_init) = 10"
proof -
  have "(0::int) < 30" by simp
  note s = fill_limit_sound [OF this refl, of 0 SELL False 90 BUY False limits_cfg 5 6 credit_init]
  have "fl_makerQty (pairFillLimit 0 SELL False 90 BUY False 30 limits_cfg 5 6 credit_init) = 30
    \<and> fl_takerQty (pairFillLimit 0 SELL False 90 BUY False 30 limits_cfg 5 6 credit_init) = 10" by code_simp
  with s show ?thesis by simp
qed

subsection \<open>Buying power\<close>

text \<open>
  C15. Buying power stays ring-fenced. Through every sequence of admissions (refused ones included),
  full, partial, pro-rata and hold-aware releases, refused fills and settlements of backed spot fills (between
  two different orders that both hold a reservation covering the fill, at a notional within what the buyer
  reserved for the quantity; \<open>market_buy_underreserved\<close> shows what an unbacked one does), the reservation
  table never claims more than the ledger holds back; for every account and asset the difference between
  the two never moves, so nothing is released twice and nothing is left frozen when the last reservation
  goes; and no asset's total changes.
\<close>

theorem buying_power_fenced:
  assumes "config_sane cfg" "account_ok venue" "fenced L C" "(credit_step cfg venue)\<^sup>*\<^sup>* (L, C) (L', C')"
  shows "fenced L' C'
    \<and> (\<forall>c a. account_ok c \<longrightarrow> asset_ok a \<longrightarrow> reserved L' c a - claimed C' c a = reserved L c a - claimed C c a)
    \<and> (\<forall>x. asset_total L' x = asset_total L x)"
  using credit_run_fenced [OF assms(4,1,2)] assms(3) by (simp add: slack_def)

definition sample_buy :: new_order where
  "sample_buy = \<lparr>no_id = 10, no_symbol = 1, no_side = BUY, no_type = LIMIT, no_price = 100000000, no_quantity = 300000000, no_tif = GTC,
     no_postOnly = False, no_stp = StpNone, no_accountId = 7, no_clientOrderId = 0, no_visibleQuantity = 0, no_triggerPrice = 0, no_trailingOffset = 0,
     no_lastLook = False, no_reduceOnly = False, no_expiryNs = 0, no_ocoGroup = 0, no_peg = PegNone, no_pegOffsetRaw = 0\<rparr>"

definition sample_funds :: ledger where
  "sample_funds = credit [] 7 2 1000000000"

text \<open>Evaluation of the sample's balances: the packed keys and notionals as numerals.\<close>

lemma sample_keys: "key 7 2 = 458754" "key 7 (Suc 0) = 458753" "key 8 (Suc 0) = 524289" "key 8 2 = 524290" "key 99 2 = 6488066"
  by (simp_all add: key_def)

lemma sample_notionals:
  "notionalRaw 100000000 300000000 100000000 100000000 = 300000000" "notionalRaw 200000000 300000000 100000000 100000000 = 600000000"
  by (simp_all add: notionalRaw_def Let_def kMoneyScale_def kAmountMax_def kAmountMin_def sdiv_nonneg)

lemmas ledger_rows = ledger_ops bal_of_def find_bal_def zero_bal_def put_bal_def reserved_def sample_keys

lemma sample_funds_fenced: "fenced sample_funds credit_init"
  by (auto simp: fenced_def credit_init_def claimed_def sample_funds_def reserved_def credit_def Let_def bal_of_def find_bal_def put_bal_def zero_bal_def)

theorem buying_power_fenced_witness:
  "reserveFunds sample_buy limits_cfg (Some sample_funds) credit_init = (True, Some (snd (reserve sample_funds 7 2 300000000)),
      cr_put 10 \<lparr>rv_account = 7, rv_asset = 2, rv_reservedRaw = 300000000, rv_limitPriceRaw = 100000000, rv_side = BUY\<rparr> credit_init)
   \<and> fenced (snd (reserve sample_funds 7 2 300000000))
      (cr_put 10 \<lparr>rv_account = 7, rv_asset = 2, rv_reservedRaw = 300000000, rv_limitPriceRaw = 100000000, rv_side = BUY\<rparr> credit_init)"
proof -
  let ?C = "cr_put 10 \<lparr>rv_account = 7, rv_asset = 2, rv_reservedRaw = 300000000, rv_limitPriceRaw = 100000000, rv_side = BUY\<rparr> credit_init"
  have "reserveFunds sample_buy limits_cfg (Some sample_funds) C = (True, Some (snd (reserve sample_funds 7 2 300000000)),
      cr_put 10 \<lparr>rv_account = 7, rv_asset = 2, rv_reservedRaw = 300000000, rv_limitPriceRaw = 100000000, rv_side = BUY\<rparr> C)" if "cs_credit C = None" for C
  proof -
    have "fst (reserve sample_funds 7 2 300000000)" by (simp add: sample_funds_def ledger_rows)
    then show ?thesis using that by (simp add: reserveFunds_def reserve_money_def reserve_spot_def sample_buy_def limits_cfg_def case_prod_unfold Let_def sample_notionals)
  qed
  then have r: "reserveFunds sample_buy limits_cfg (Some sample_funds) credit_init = (True, Some (snd (reserve sample_funds 7 2 300000000)), ?C)"
    by (simp add: credit_init_def)
  have "credit_step limits_cfg 99 (sample_funds, credit_init) (snd (reserve sample_funds 7 2 300000000), ?C)"
    by (rule step_admit [OF _ _ r]) (simp_all add: credit_init_def order_sane_def sample_buy_def kMaxAccountId_def)
  then have "(credit_step limits_cfg 99)\<^sup>*\<^sup>* (sample_funds, credit_init) (snd (reserve sample_funds 7 2 300000000), ?C)" by simp
  moreover have "config_sane limits_cfg" by (simp add: config_sane_def limits_cfg_def scalesValid_def kMoneyScale_def)
  ultimately have "fenced (snd (reserve sample_funds 7 2 300000000)) ?C"
    using buying_power_fenced [of limits_cfg 99] sample_funds_fenced by (simp add: kMaxAccountId_def)
  with r show ?thesis by blast
qed

subsection \<open>Settlement of a spot trade\<close>

text \<open>
  C16. A spot settlement creates and destroys nothing: whatever the reservations and balances of the two
  sides, whether it settles or is abandoned as a unit, and whatever the fee rates, every asset's total over
  all accounts is what it was. When it is abandoned no claim on reserved balance changes either.
\<close>

theorem settlement_conserves:
  assumes "asset_ok (sc_baseAsset cfg)" "asset_ok (sc_quoteAsset cfg)"
    and "settle_spot rates cfg venue t (L, C) = (ok, (L', C'), es)"
  shows "asset_total L' x = asset_total L x \<and> (\<not> ok \<longrightarrow> C' = C \<and> es = [])
    \<and> (ok \<longrightarrow> es = fees_emit rates cfg t)"
proof -
  have "\<not> ok \<longrightarrow> C' = C \<and> es = []" "ok \<longrightarrow> es = fees_emit rates cfg t"
    using assms(3) fees_settle_reports
    by (auto simp: settle_spot_def Let_def split: prod.splits if_splits) (metis snd_conv)+
  then show ?thesis using settle_spot_total [OF assms(1,2), of rates venue t L C x] assms(3) by simp
qed

definition sample_trade :: trade where
  "sample_trade = \<lparr>tr_tradeId = 1, tr_symbol = 1, tr_price = 200000000, tr_quantity = 300000000, tr_makerId = 20, tr_takerId = 10,
     tr_takerSide = BUY, tr_makerAccount = 8, tr_takerAccount = 7\<rparr>"

theorem settlement_conserves_witness:
  "asset_total (fst (fst (snd (settle_spot (Some (1000, 2000)) limits_cfg 99 sample_trade (credit sample_funds 8 1 500000000, credit_init))))) 2
     = asset_total sample_funds 2"
proof -
  have ok: "asset_ok (sc_baseAsset limits_cfg)" "asset_ok (sc_quoteAsset limits_cfg)" by (simp_all add: limits_cfg_def)
  have "asset_total (credit sample_funds 8 1 500000000) 2 = asset_total sample_funds 2" by (simp add: credit_total)
  then show ?thesis
    using settlement_conserves [OF ok, of "Some (1000, 2000)" 99 sample_trade "credit sample_funds 8 1 500000000" credit_init]
    by (metis prod.collapse)
qed

text \<open>
  A market buy that carries a price, on an instrument without a price band, is admitted against that
  price although the sweep does not honour it: here it reserves for a price of one, trades at two, and
  the settlement drives the buyer's reserved balance below zero.
\<close>

lemma limits_cfg_sel:
  "sc_linearPerp limits_cfg = False" "sc_maxPrice limits_cfg = 0" "sc_baseAsset limits_cfg = 1" "sc_quoteAsset limits_cfg = 2"
  "sc_priceScale limits_cfg = 100000000" "sc_qtyScale limits_cfg = 100000000"
  by (simp_all add: limits_cfg_def)

theorem market_buy_underreserved:
  "\<exists>L C L' C'. reserveFunds (sample_buy\<lparr>no_type := MARKET\<rparr>) limits_cfg (Some sample_funds) credit_init = (True, Some L, C)
     \<and> settle_spot None limits_cfg 99 sample_trade (credit L 8 1 500000000, C) = (True, (L', C'), [])
     \<and> reserved L' 7 2 = - 300000000"
proof -
  let ?r = "\<lparr>rv_account = 7, rv_asset = 2, rv_reservedRaw = 300000000, rv_limitPriceRaw = 100000000, rv_side = BUY\<rparr>"
  let ?L = "[(458754, \<lparr>avail = 700000000, rsvd = 300000000\<rparr>)]"
  let ?C = "cr_put 10 ?r credit_init"
  have a: "reserveFunds (sample_buy\<lparr>no_type := MARKET\<rparr>) limits_cfg (Some sample_funds) credit_init = (True, Some ?L, ?C)"
    by (simp add: reserveFunds_def reserve_money_def reserve_spot_def limits_cfg_sel sample_notionals case_prod_unfold Let_def
        sample_buy_def sample_funds_def credit_init_def ledger_rows)
  have m: "map_of (cs_reserve ?C) 10 = Some ?r" "map_of (cs_reserve ?C) 20 = None" by (simp_all add: cr_put_def credit_init_def)
  define L where "L = credit ?L 8 1 500000000"
  have L: "L = [(458754, \<lparr>avail = 700000000, rsvd = 300000000\<rparr>), (524289, \<lparr>avail = 500000000, rsvd = 0\<rparr>)]" by (simp add: L_def ledger_rows)
  have d: "debit L 8 1 300000000 = (True, [(458754, \<lparr>avail = 700000000, rsvd = 300000000\<rparr>), (524289, \<lparr>avail = 200000000, rsvd = 0\<rparr>)])"
    by (simp add: L ledger_rows)
  have "\<exists>L' C'. settle_spot None limits_cfg 99 sample_trade (L, ?C) = (True, (L', C'), []) \<and> reserved L' 7 2 = - 300000000"
    using m d by (simp add: settle_spot_def sample_trade_def limits_cfg_sel sample_notionals amountOf_def Let_def fees_settle_def
        buyer_pays_def seller_delivers_def del: map_of_eq_Some_iff) (simp add: ledger_rows cr_put_def update_conv' credit_init_def)
  then show ?thesis using a unfolding L_def by blast
qed

end
