(* ===== verification/ClearingSweep.thy ===== *)
theory ClearingSweep
  imports ClearingProps CreditClaims
begin

section \<open>What a liquidation sweep leaves behind\<close>

text \<open>
  The other half of a liquidation: the collateral invariant says that no money is created, this theory says
  who is closed and in which state a closed account is left. The hook that cancels an account's orders may
  free balance, never take it.
\<close>

subsection \<open>Available balances\<close>

definition hook_frees :: "cancel_hook \<Rightarrow> bool" where
  "hook_frees cancelAll \<longleftrightarrow> (\<forall>acct L C L' C' es c a. fenced L C \<longrightarrow> cancelAll acct (L, C) = ((L', C'), es) \<longrightarrow> account_ok c \<longrightarrow> asset_ok a \<longrightarrow>
     available L c a \<le> available L' c a)"

lemma other_rows:
  assumes "account_ok c" "account_ok c0" "asset_ok a" "asset_ok a0" "c \<noteq> c0"
  shows "available (credit L c0 a0 q) c a = available L c a" "available (release L c0 a0 q) c a = available L c a"
    "available (snd (debit L c0 a0 q)) c a = available L c a"
  using assms by (auto simp: balance_views ledger_ops bal_of_put key_inject)

lemma own_credit: "account_ok c \<Longrightarrow> asset_ok a \<Longrightarrow> available (credit L c a q) c a = available L c a + q"
  by (simp add: balance_views ledger_ops bal_of_put)

subsection \<open>Auto-deleveraging\<close>

definition adl_closed :: "symbol_config \<Rightarrow> int \<Rightarrow> nat \<Rightarrow> outbound_event list \<Rightarrow> bool" where
  "adl_closed cfg mark c es \<longleftrightarrow> (\<exists>p. closed_event cfg c mark p False True \<in> set es)"

lemma adl_closed_append: "adl_closed cfg mark c (es @ es') \<longleftrightarrow> adl_closed cfg mark c es \<or> adl_closed cfg mark c es'"
  by (auto simp: adl_closed_def)

lemma adl_close_other:
  assumes "account_ok c" "account_ok acct" "account_ok venue" "asset_ok a" "asset_ok (sc_quoteAsset cfg)" "c \<noteq> acct" "c \<noteq> venue"
  shows "available (snd (adl_close cfg venue mark acct p remaining L)) c a = available L c a"
  using assms by (simp add: adl_close_def Let_def other_rows)

lemma adl_walk_others:
  assumes "account_ok venue" "account_ok c" "c \<noteq> venue" "asset_ok a" "asset_ok (sc_quoteAsset cfg)"
  shows "pos_ok P \<Longrightarrow> adl_walk cfg venue mark cs remaining (L, P) = ((L', P'), es) \<Longrightarrow>
    map_of P' c \<in> {None, map_of P c} \<and> (map_of P c = None \<longrightarrow> available L' c a = available L c a)
    \<and> (map_of P c \<noteq> None \<longrightarrow> map_of P' c = None \<longrightarrow> adl_closed cfg mark c es)"
proof (induction cs arbitrary: remaining L P es)
  case (Cons x xs)
  show ?case
  proof (cases "remaining \<le> 0 \<or> map_of P (ac_acct x) = None")
    case True
    then show ?thesis using Cons by (auto split: if_splits)
  next
    case False
    then obtain p where p: "map_of P (ac_acct x) = Some p" and r: "\<not> remaining \<le> 0" by auto
    obtain taken L1 where ac: "adl_close cfg venue mark (ac_acct x) p remaining L = (taken, L1)" by (metis surj_pair)
    obtain es1 where w: "adl_walk cfg venue mark xs (remaining - taken) (L1, AList.delete (ac_acct x) P) = ((L', P'), es1)"
      and es: "es = closed_event cfg (ac_acct x) mark p False True # es1"
      using Cons.prems(2) p r ac by (auto simp: case_prod_unfold Let_def prod_eq_iff)
    have ok: "account_ok (ac_acct x)" using pos_okD(2) [OF Cons.prems(1) p] by simp
    note IH = Cons.IH [OF pos_ok_delete [OF Cons.prems(1)] w]
    have "available L1 c a = available L c a" if "c \<noteq> ac_acct x"
      using adl_close_other [of c "ac_acct x" venue a cfg mark p remaining L] that assms ok ac by simp
    then show ?thesis using IH p es by (cases "c = ac_acct x") (auto simp: delete_conv' adl_closed_def)
  qed
qed auto

subsection \<open>One forced close\<close>

lemma close_account_other:
  assumes "account_ok c" "account_ok acct" "account_ok venue" "asset_ok a" "asset_ok (sc_quoteAsset cfg)" "c \<noteq> acct" "c \<noteq> venue"
  shows "available (close_account cfg venue acct mark p L) c a = available L c a"
  using assms by (simp add: close_account_def Let_def other_rows)

lemma forceClose_outcome:
  assumes col: "collateral cfg ((L, C), P)" and cfg: "config_sane cfg" and venue: "account_ok venue" and hook: "hook_frees cancelAll"
    and c: "account_ok c" "c \<noteq> venue" and run: "forceClose cfg venue cancelAll mark b ((L, C), P) = (((L', C'), P'), es)"
  shows "map_of P' c \<in> {None, map_of P c}
    \<and> (map_of P c = None \<longrightarrow> available L c (sc_quoteAsset cfg) \<le> available L' c (sc_quoteAsset cfg))
    \<and> (map_of P c \<noteq> None \<longrightarrow> map_of P' c = None \<longrightarrow> adl_closed cfg mark c es \<or> c = b \<and> 0 \<le> available L' c (sc_quoteAsset cfg))
    \<and> (c = b \<longrightarrow> map_of P' c = None)"
proof (cases "map_of P b")
  case None
  then show ?thesis using run by (auto simp: forceClose_def)
next
  case (Some p)
  define a where "a = sc_quoteAsset cfg"
  have aq: "asset_ok a" using cfg by (simp add: config_sane_def a_def)
  have pos: "pos_ok P" using col by (simp add: collateral_def)
  have bok: "account_ok b" using pos_okD(2) [OF pos Some] by simp
  obtain L1 C1 es0 where h: "cancelAll b (L, C) = ((L1, C1), es0)" by (metis surj_pair)
  have freed: "available L c a \<le> available L1 c a"
    using hook [unfolded hook_frees_def, rule_format, OF collateral_fenced [OF col] h c(1) aq] .
  define L2 where "L2 = close_account cfg venue b mark p L1"
  define av where "av = available L2 b a"
  define L3 where "L3 = (if av < 0 then credit (credit L2 b a (- av)) venue a av else L2)"
  define adl where "adl = (if av < 0 \<and> sc_autoDeleverage cfg
    then autoDeleverage cfg venue (if ps_qtyRaw p > 0 then 1 else - 1) (if av < 0 then - av else 0) mark (L3, AList.delete b P) else ((L3, AList.delete b P), []))"
  have res: "(L', P') = fst adl" "es = es0 @ closed_event cfg b mark p (av < 0) False # snd adl"
    using run [unfolded forceClose_unfold [where mark = mark and venue = venue and cfg = cfg and cancelAll = cancelAll, OF Some h] Let_def, folded a_def, folded L2_def, folded av_def,
        folded L3_def, folded adl_def] by auto
  have L3: "available L3 c a = available L1 c a" if "c \<noteq> b"
    using that c venue bok aq close_account_other [of c b venue a cfg mark p L1] by (simp add: L3_def L2_def a_def [symmetric] other_rows)
  have top: "0 \<le> available L3 b a" if "b \<noteq> venue"
    using that venue bok aq by (auto simp: L3_def av_def other_rows own_credit)
  have out: "map_of P' c \<in> {None, map_of (AList.delete b P) c} \<and> (map_of (AList.delete b P) c = None \<longrightarrow> available L' c a = available L3 c a)
      \<and> (map_of (AList.delete b P) c \<noteq> None \<longrightarrow> map_of P' c = None \<longrightarrow> adl_closed cfg mark c (snd adl))"
  proof (cases "av < 0 \<and> sc_autoDeleverage cfg")
    case True
    then have "adl_walk cfg venue mark (sort_key adl_rank (adl_candidates cfg (if ps_qtyRaw p > 0 then 1 else - 1) mark (AList.delete b P))) (- av) (L3, AList.delete b P)
        = ((L', P'), snd adl)" using res(1) by (simp add: adl_def autoDeleverage_def prod_eq_iff)
    then show ?thesis using adl_walk_others [OF venue c(1,2) aq aq [unfolded a_def] pos_ok_delete [OF pos]] by blast
  next
    case False
    then have "adl = ((L3, AList.delete b P), [])" by (simp only: adl_def if_False)
    then show ?thesis using res(1) by auto
  qed
  show ?thesis
  proof (cases "c = b")
    case True
    then show ?thesis using out top c(2) Some by (simp add: a_def delete_conv')
  next
    case False
    then show ?thesis using out freed L3 res(2) by (auto simp: a_def delete_conv' adl_closed_append) (auto simp: adl_closed_def)
  qed
qed

lemma close_all_outcome:
  assumes cfg: "config_sane cfg" and venue: "account_ok venue" and hook: "hook_safe cancelAll" "hook_frees cancelAll" and c: "account_ok c" "c \<noteq> venue"
  shows "collateral cfg ((L, C), P) \<Longrightarrow> close_all cfg venue cancelAll mark as ((L, C), P) = (((L', C'), P'), es) \<Longrightarrow>
    map_of P' c \<in> {None, map_of P c}
    \<and> (map_of P c = None \<longrightarrow> available L c (sc_quoteAsset cfg) \<le> available L' c (sc_quoteAsset cfg))
    \<and> (map_of P c \<noteq> None \<longrightarrow> map_of P' c = None \<longrightarrow> adl_closed cfg mark c es \<or> c \<in> set as \<and> 0 \<le> available L' c (sc_quoteAsset cfg))
    \<and> (c \<in> set as \<longrightarrow> map_of P' c = None)"
proof (induction "as" arbitrary: L C P es)
  case (Cons b bs)
  obtain L1 C1 P1 es1 where f: "forceClose cfg venue cancelAll mark b ((L, C), P) = (((L1, C1), P1), es1)" by (metis surj_pair)
  obtain es2 where r: "close_all cfg venue cancelAll mark bs ((L1, C1), P1) = (((L', C'), P'), es2)" and es: "es = es1 @ es2"
    using Cons.prems(2) by (auto simp: f case_prod_unfold Let_def prod_eq_iff)
  have "kept cfg ((L, C), P) ((L1, C1), P1)" using forceClose_kept [OF Cons.prems(1) cfg venue hook(1), of mark b] f by simp
  note IH = Cons.IH [OF kept_collateral [OF this] r]
  note step = forceClose_outcome [OF Cons.prems(1) cfg venue hook(2) c f]
  show ?case
  proof (cases "map_of P1 c = None")
    case True
    then have z: "map_of P' c = None" and av: "available L1 c (sc_quoteAsset cfg) \<le> available L' c (sc_quoteAsset cfg)" using IH by auto
    then show ?thesis using step True unfolding es adl_closed_append by (metis list.set_intros(1) insertI1 order_trans)
  next
    case False
    then have "map_of P1 c = map_of P c" "c \<noteq> b" using step by auto
    then show ?thesis using IH False unfolding es adl_closed_append by (metis set_ConsD list.set_intros(2))
  qed
qed auto

subsection \<open>The sweep\<close>

text \<open>
  C19. A liquidation sweep closes exactly the accounts below maintenance: of the accounts with a position
  (the venue's own apart), each one in breach at the mark loses its position, and is left with a non-negative
  available balance (the insurance fund covers the deficit) unless auto-deleveraging closed it first; each
  one not in breach keeps its position untouched unless auto-deleveraging chose it, which the events say.
\<close>

theorem liquidation_sweep_exact:
  assumes "config_sane cfg" "account_ok venue" "hook_safe cancelAll" "hook_frees cancelAll" "collateral cfg ((L, C), P)"
    and "sc_linearPerp cfg" "\<not> sc_externalLiquidation cfg" "sc_maintenanceMarginBps cfg \<noteq> 0"
    and "checkLiquidations cfg venue cancelAll mark ((L, C), P) = (((L', C'), P'), es)" "map_of P c = Some p" "c \<noteq> venue"
  shows "if breaches cfg mark L P c p then map_of P' c = None \<and> (adl_closed cfg mark c es \<or> 0 \<le> available L' c (sc_quoteAsset cfg))
    else map_of P' c = Some p \<or> map_of P' c = None \<and> adl_closed cfg mark c es"
proof -
  define as where "as = sort (map fst (filter (\<lambda>(acct, p). breaches cfg mark L P acct p) P))"
  have pos: "pos_ok P" using assms(5) by (simp add: collateral_def)
  have run: "close_all cfg venue cancelAll mark as ((L, C), P) = (((L', C'), P'), es)" using assms(6-9) by (simp add: checkLiquidations_def as_def)
  have "c \<in> set as \<longleftrightarrow> (\<exists>q. (c, q) \<in> set P \<and> breaches cfg mark L P c q)" by (force simp: as_def)
  then have mem: "c \<in> set as \<longleftrightarrow> breaches cfg mark L P c p"
    using assms(10) map_of_eq_Some_iff [OF pos_okD(1) [OF pos]] by (metis option.inject)
  show ?thesis
    using close_all_outcome [OF assms(1-4) _ assms(11,5) run] pos_okD(2) [OF pos assms(10)] assms(10) mem by auto
qed

subsection \<open>A concrete cancel hook and samples\<close>

text \<open>The hook that releases the reservations of a listed set of orders: what cancelling an account's resting orders does to money.\<close>

definition cancel_listed :: "(nat \<Rightarrow> nat list) \<Rightarrow> cancel_hook" where
  "cancel_listed ids acct m = (fold releaseReservation (ids acct) m, [])"

lemma release_avail:
  assumes "account_ok c" "account_ok c0" "asset_ok a" "asset_ok a0" "0 \<le> reserved L c0 a0" "0 \<le> q"
  shows "available L c a \<le> available (release L c0 a0 q) c a"
  using assms by (auto simp: balance_views ledger_ops bal_of_put key_inject)

lemma releaseReservation_frees:
  assumes "fenced L C" "releaseReservation i (L, C) = (L', C')" "account_ok c" "asset_ok a"
  shows "available L c a \<le> available L' c a"
proof (cases "map_of (cs_reserve C) i")
  case None
  then show ?thesis using assms(2) by (simp add: releaseReservation_def)
next
  case (Some r)
  note ok = fencedD(2) [OF assms(1) Some] covered [OF assms(1) Some]
  have "available L c a \<le> available (release L (rv_account r) (rv_asset r) (rv_reservedRaw r)) c a"
    by (rule release_avail) (use ok assms(3,4) in auto)
  then show ?thesis using assms(2) Some by (auto simp: releaseReservation_def split: if_splits)
qed

lemma releases_safe:
  assumes "fenced (fst m) (snd m)"
  shows "fenced (fst (fold releaseReservation is m)) (snd (fold releaseReservation is m))
    \<and> (\<forall>c a. account_ok c \<longrightarrow> asset_ok a \<longrightarrow> slack (fst (fold releaseReservation is m)) (snd (fold releaseReservation is m)) c a = slack (fst m) (snd m) c a
        \<and> available (fst m) c a \<le> available (fst (fold releaseReservation is m)) c a)
    \<and> (\<forall>x. asset_total (fst (fold releaseReservation is m)) x = asset_total (fst m) x)"
  using assms
proof (induction "is" arbitrary: m)
  case (Cons i "is")
  obtain L C where m: "m = (L, C)" by (cases m)
  obtain L1 C1 where r: "releaseReservation i (L, C) = (L1, C1)" by (metis surj_pair)
  have f: "fenced L C" using Cons.prems m by simp
  have 1: "fenced L1 C1 \<and> (\<forall>c a. account_ok c \<longrightarrow> asset_ok a \<longrightarrow> slack L1 C1 c a = slack L C c a)"
    using lockstep_fenced lockstep_releaseReservation [OF f, of i] r by simp
  have 2: "asset_total L1 x = asset_total L x" for x
    using r fencedD(2) [OF f, of i] by (auto simp: releaseReservation_def asset_total_ops simp del: map_of_eq_Some_iff split: option.splits if_splits)
  have 3: "available L c a \<le> available L1 c a" if "account_ok c" "asset_ok a" for c a using releaseReservation_frees [OF f r that] .
  show ?case using Cons.IH [of "(L1, C1)"] 1 2 3 by (fastforce simp: m r)
qed simp

lemma cancel_listed_safe: "hook_safe (cancel_listed ids)" "hook_frees (cancel_listed ids)"
proof -
  have *: "fenced L' C' \<and> (\<forall>c a. account_ok c \<longrightarrow> asset_ok a \<longrightarrow> slack L' C' c a = slack L C c a \<and> available L c a \<le> available L' c a)
      \<and> (\<forall>x. asset_total L' x = asset_total L x)" if "fenced L C" "cancel_listed ids acct (L, C) = ((L', C'), es)" for acct L C L' C' es
    using releases_safe [of "(L, C)" "ids acct"] that by (simp add: cancel_listed_def)
  show "hook_safe (cancel_listed ids)" unfolding hook_safe_def using * by blast
  show "hook_frees (cancel_listed ids)" unfolding hook_frees_def using * by blast
qed

definition perp_cfg :: symbol_config where
  "perp_cfg = limits_cfg\<lparr>sc_linearPerp := True, sc_priceScale := 1\<rparr>"

lemma perp_cfg_sel:
  "sc_linearPerp perp_cfg" "sc_quoteAsset perp_cfg = 2" "sc_baseAsset perp_cfg = 1" "sc_priceScale perp_cfg = 1" "sc_qtyScale perp_cfg = 100000000" "sc_maxPrice perp_cfg = 0"
  "\<not> sc_externalLiquidation perp_cfg" "sc_autoDeleverage perp_cfg" "sc_maintenanceMarginBps perp_cfg = 500" "sc_initialMarginBps perp_cfg = 1000" "sc_id perp_cfg = 1"
  by (simp_all add: perp_cfg_def limits_cfg_def)

lemma perp_cfg_sane: "config_sane perp_cfg"
  by (simp add: config_sane_def perp_cfg_sel scalesValid_def kMoneyScale_def)

lemma perp_notional: "cfgNotional perp_cfg p q = p * q"
proof -
  have "x sdiv 1 = x" for x :: int by (simp add: signed_divide_int_def sgn_if)
  then show ?thesis by (simp add: cfgNotional_def notionalRaw_def perp_cfg_sel kMoneyScale_def kAmountMax_def kAmountMin_def Let_def)
qed

definition losing_long :: "(nat \<times> position) list" where
  "losing_long = [(7, \<lparr>ps_qtyRaw = 10, ps_entryRaw = 100, ps_margin = 0\<rparr>)]"

lemma losing_long_collateral: "collateral perp_cfg ((sample_funds, credit_init), losing_long)"
proof -
  have "0 \<le> pslack perp_cfg ((sample_funds, credit_init), losing_long) c a" if "account_ok c" "asset_ok a" for c a
    using fencedD(3) [OF sample_funds_fenced that] by (auto simp: pslack_def slack_def margin_of_def losing_long_def)
  then show ?thesis using sample_funds_fenced
    by (simp add: collateral_def res_ok_def pos_ok_def losing_long_def credit_init_def kMaxAccountId_def)
qed

theorem liquidation_sweep_exact_witness:
  "map_of (snd (fst (checkLiquidations perp_cfg 99 (cancel_listed (\<lambda>_. [10])) 50 ((sample_funds, credit_init), losing_long)))) 7 = None"
proof -
  obtain L' C' P' es where run: "checkLiquidations perp_cfg 99 (cancel_listed (\<lambda>_. [10])) 50 ((sample_funds, credit_init), losing_long) = (((L', C'), P'), es)"
    by (metis surj_pair)
  have w: "available sample_funds 7 2 = 1000000000" by (simp add: sample_funds_def available_def ledger_rows)
  have "breaches perp_cfg 50 sample_funds losing_long 7 \<lparr>ps_qtyRaw = 10, ps_entryRaw = 100, ps_margin = 0\<rparr>"
    by (simp add: breaches_def unrealizedPnlRaw_def perp_notional iabs64_def perp_cfg_sel w losing_long_def sdiv_nonneg)
  moreover have "map_of losing_long 7 = Some \<lparr>ps_qtyRaw = 10, ps_entryRaw = 100, ps_margin = 0\<rparr>" by (simp add: losing_long_def)
  ultimately show ?thesis
    using liquidation_sweep_exact [OF perp_cfg_sane _ cancel_listed_safe losing_long_collateral _ _ _ run, of 7]
    by (simp add: perp_cfg_sel kMaxAccountId_def run)
qed

text \<open>
  Where auto-deleveraging closes an account of the same sweep first, the insurance fund does not cover it: a
  winning short with a negative wallet is in breach and is deleveraged, its forced close then finds no position,
  and the account is left with a negative balance that no event reports.
\<close>

definition bad_wallets :: ledger where
  "bad_wallets = credit (credit [] 3 2 0) 5 2 (- 1000)"

definition two_sides :: "(nat \<times> position) list" where
  "two_sides = [(3, \<lparr>ps_qtyRaw = 10, ps_entryRaw = 100, ps_margin = 0\<rparr>), (5, \<lparr>ps_qtyRaw = - 10, ps_entryRaw = 60, ps_margin = 0\<rparr>)]"

lemma wallet_keys: "key 3 2 = 196610" "key 5 2 = 327682" "key 9 2 = 589826"
  by (simp_all add: key_def)

theorem deleveraged_bankrupt_uncovered:
  "breaches perp_cfg 50 bad_wallets two_sides 5 \<lparr>ps_qtyRaw = - 10, ps_entryRaw = 60, ps_margin = 0\<rparr>
   \<and> available (fst (fst (fst (checkLiquidations perp_cfg 9 (cancel_listed (\<lambda>_. [])) 50 ((bad_wallets, credit_init), two_sides))))) 5 2 = - 900
   \<and> map_of (snd (fst (checkLiquidations perp_cfg 9 (cancel_listed (\<lambda>_. [])) 50 ((bad_wallets, credit_init), two_sides)))) 5 = None"
proof -
  let ?p3 = "\<lparr>ps_qtyRaw = 10, ps_entryRaw = 100, ps_margin = 0\<rparr>" and ?p5 = "\<lparr>ps_qtyRaw = - 10, ps_entryRaw = 60, ps_margin = 0\<rparr>"
  have w: "bad_wallets = [(196610, \<lparr>avail = 0, rsvd = 0\<rparr>), (327682, \<lparr>avail = - 1000, rsvd = 0\<rparr>)]"
    by (simp add: bad_wallets_def wallet_keys ledger_rows)
  have b: "breaches perp_cfg 50 bad_wallets two_sides 3 ?p3" "breaches perp_cfg 50 bad_wallets two_sides 5 ?p5"
    by (simp_all add: breaches_def unrealizedPnlRaw_def perp_notional iabs64_def perp_cfg_sel w two_sides_def sdiv_nonneg available_def ledger_rows wallet_keys)
  have "forceClose perp_cfg 9 (cancel_listed (\<lambda>_. [])) 50 3 ((bad_wallets, credit_init), two_sides)
    = ((([(196610, \<lparr>avail = 0, rsvd = 0\<rparr>), (327682, \<lparr>avail = - 900, rsvd = 0\<rparr>), (589826, \<lparr>avail = - 100, rsvd = 0\<rparr>)], credit_init), []),
        [closed_event perp_cfg 3 50 ?p3 True False, closed_event perp_cfg 5 50 ?p5 False True])"
    by (simp add: forceClose_def cancel_listed_def two_sides_def close_account_def perp_notional perp_cfg_sel w ledger_rows wallet_keys available_def iabs64_def
        autoDeleverage_def adl_candidates_def posSign_def adl_close_def Let_def)
  moreover have "sort (map fst (filter (\<lambda>(acct, p). breaches perp_cfg 50 bad_wallets two_sides acct p) two_sides)) = [3, 5]"
    using b by (simp add: two_sides_def)
  ultimately show ?thesis using b
    by (simp add: checkLiquidations_def perp_cfg_sel) (simp add: forceClose_def available_def ledger_rows wallet_keys)
qed

subsection \<open>A forced close of part of a position\<close>

text \<open>The size a forced close names is not read: asked to close 2 of 10, the engine closes all of it.\<close>

theorem force_close_ignores_size:
  "onForceClose cfg venue cancelAll mark (fc\<lparr>fp_qtyRaw := q\<rparr>) s = onForceClose cfg venue cancelAll mark fc s
   \<and> map_of (snd (fst (onForceClose perp_cfg 99 (cancel_listed (\<lambda>_. [])) (Some 50) \<lparr>fp_accountId = 7, fp_symbol = 1, fp_qtyRaw = 2\<rparr>
        ((Some sample_funds, credit_init), losing_long)))) 7 = None"
proof -
  have "map_of losing_long 7 = Some \<lparr>ps_qtyRaw = 10, ps_entryRaw = 100, ps_margin = 0\<rparr>" by (simp add: losing_long_def)
  then have "map_of (snd (fst (forceClose perp_cfg 99 (cancel_listed (\<lambda>_. [])) 50 7 ((sample_funds, credit_init), losing_long)))) 7 = None"
    using forceClose_outcome [OF losing_long_collateral perp_cfg_sane _ cancel_listed_safe(2), of 99 7 "\<lambda>_. []" 50 7] by (simp add: kMaxAccountId_def) (metis prod.collapse)
  moreover have "onForceClose cfg venue cancelAll mark (fc\<lparr>fp_qtyRaw := q\<rparr>) s = onForceClose cfg venue cancelAll mark fc s"
    by (cases "fst (fst s)"; cases mark) (simp_all add: onForceClose_def case_prod_unfold)
  ultimately show ?thesis by (simp add: onForceClose_def [of perp_cfg] perp_cfg_sel case_prod_unfold Let_def)
qed

end
