(* ===== verification/ClearingClaims.thy ===== *)
theory ClearingClaims
  imports ClearingSweep
begin

section \<open>Clearing: the properties\<close>

subsection \<open>What a fill does to a position\<close>

lemma reduce_leg_position:
  "ps_qtyRaw (snd (reduce_leg cfg venue acct i s q px (m, p))) = ps_qtyRaw p + s * q"
  "ps_entryRaw (snd (reduce_leg cfg venue acct i s q px (m, p))) = (if ps_qtyRaw p + s * q = 0 then 0 else ps_entryRaw p)"
  by (cases m, simp add: reduce_leg_def Let_def case_prod_unfold)+

lemma open_leg_position:
  "ps_qtyRaw (snd (open_leg cfg i s q px (m, p))) = ps_qtyRaw p + s * q"
  "ps_entryRaw (snd (open_leg cfg i s q px (m, p))) = (iabs64 (ps_qtyRaw p) * ps_entryRaw p + q * px) sdiv (iabs64 (ps_qtyRaw p) + q)"
  by (cases m, simp add: open_leg_def Let_def case_prod_unfold)+

lemma drop_flat_positions:
  "snd (drop_flat cfg acct mp P) = (if ps_qtyRaw (snd mp) = 0 then AList.delete acct P else AList.update acct (snd mp) P)"
  by (simp add: drop_flat_def case_prod_unfold)

text \<open>The specification: signed quantity and average entry, the exposure side of a fill.\<close>

definition fill_spec :: "int \<times> int \<Rightarrow> bool \<Rightarrow> int \<Rightarrow> int \<Rightarrow> int \<times> int" where
  "fill_spec pe fillBuy q px = (let (pos, entry) = pe; d = (if fillBuy then q else - q); pos' = pos + d in
     (pos', if pos' = 0 then 0
            else if pos = 0 \<or> (pos < 0) = (d < 0) then (\<bar>pos\<bar> * entry + q * px) sdiv (\<bar>pos\<bar> + q)
            else if (pos' < 0) = (pos < 0) then entry else px))"

definition exposure :: "(nat \<times> position) list \<Rightarrow> nat \<Rightarrow> int \<times> int" where
  "exposure P c = (case map_of P c of None \<Rightarrow> (0, 0) | Some p \<Rightarrow> (ps_qtyRaw p, ps_entryRaw p))"

lemma sdiv_cancel: "0 < r \<Longrightarrow> (r * x) sdiv r = x" for r x :: int
  using nonzero_mult_div_cancel_left [of r "- x"] by (cases "0 \<le> x") (simp_all add: sdiv_nonneg sdiv_neg mult_pos_neg)

lemma update_exposure:
  assumes "0 < q"
  shows "exposure (snd (updatePerpPosition cfg venue acct i fb q px (m, P))) c = (if c = acct then fill_spec (exposure P acct) fb q px else exposure P c)"
proof -
  define p where "p = held_position P acct"
  define s :: int where "s = (if fb then 1 else - 1)"
  define r where "r = (if posSign p \<noteq> 0 \<and> posSign p \<noteq> s then min q (iabs64 (ps_qtyRaw p)) else 0)"
  define mp1 where "mp1 = (if posSign p \<noteq> 0 \<and> posSign p \<noteq> s then reduce_leg cfg venue acct i s r px (m, p) else (m, p))"
  define mp2 where "mp2 = (if q - r > 0 then open_leg cfg i s (q - r) px (fst mp1, snd mp1) else (fst mp1, snd mp1))"
  have pd: "(case map_of P acct of None \<Rightarrow> no_position | Some p \<Rightarrow> p) = p" by (simp add: p_def held_position_def)
  have run: "updatePerpPosition cfg venue acct i fb q px (m, P) = drop_flat cfg acct (fst mp2, snd mp2) P"
    by (simp only: updatePerpPosition_def Let_def prod.case pd s_def [symmetric] r_def [symmetric] mp1_def [symmetric] mp2_def [symmetric] case_prod_unfold fst_conv snd_conv)
  have e: "exposure P acct = (ps_qtyRaw p, ps_entryRaw p)"
    by (simp add: exposure_def p_def held_position_def no_position_def split: option.split)
  have p2: "(ps_qtyRaw (snd mp2), if ps_qtyRaw (snd mp2) = 0 then 0 else ps_entryRaw (snd mp2)) = fill_spec (ps_qtyRaw p, ps_entryRaw p) fb q px"
  proof (cases "posSign p \<noteq> 0 \<and> posSign p \<noteq> s")
    case False
    then have r: "r = 0" and 1: "mp1 = (m, p)" unfolding r_def mp1_def by (simp_all only: if_False)
    have 2: "ps_qtyRaw (snd mp2) = ps_qtyRaw p + s * q"
      "ps_entryRaw (snd mp2) = (iabs64 (ps_qtyRaw p) * ps_entryRaw p + q * px) sdiv (iabs64 (ps_qtyRaw p) + q)"
      using assms by (simp_all add: mp2_def r 1 open_leg_position)
    show ?thesis using False assms by (auto simp: 2 fill_spec_def Let_def posSign_def s_def iabs64_def abs_if split: if_splits)
  next
    case True
    have 1: "ps_qtyRaw (snd mp1) = ps_qtyRaw p + s * r" "ps_entryRaw (snd mp1) = (if ps_qtyRaw p + s * r = 0 then 0 else ps_entryRaw p)"
      using True by (simp_all add: mp1_def reduce_leg_position)
    have 2: "ps_qtyRaw (snd mp2) = ps_qtyRaw p + s * q" if "q - r > 0"
      using that 1 open_leg_position(1) [of cfg i s "q - r" px "fst mp1" "snd mp1"] by (simp add: mp2_def algebra_simps)
    have 3: "ps_entryRaw (snd mp2) = px" if "q - r > 0"
    proof -
      have "ps_qtyRaw (snd mp1) = 0" "ps_entryRaw (snd mp1) = 0" using that 1 True by (auto simp: r_def posSign_def s_def iabs64_def split: if_splits)
      then show ?thesis using that sdiv_cancel [OF that, of px] open_leg_position(2) [of cfg i s "q - r" px "fst mp1" "snd mp1"] by (simp add: mp2_def iabs64_def)
    qed
    have 4: "mp2 = mp1" if "\<not> q - r > 0" using that by (simp add: mp2_def)
    show ?thesis
    proof (cases "q - r > 0")
      case True2: True
      then show ?thesis using True by (auto simp: 2 3 r_def fill_spec_def Let_def posSign_def s_def iabs64_def split: if_splits)
    next
      case False
      then show ?thesis using True 1 4 assms by (auto simp: r_def fill_spec_def Let_def posSign_def s_def iabs64_def split: if_splits)
    qed
  qed
  show ?thesis by (auto simp: run drop_flat_positions exposure_def [of "AList.update _ _ _"] exposure_def [of "AList.delete _ _"] update_conv' delete_conv' e p2 [symmetric])
      (simp_all add: exposure_def)
qed

lemma average_between:
  fixes a b e x :: int
  assumes "0 \<le> a" "0 < b"
  shows "min e x \<le> (a * e + b * x) sdiv (a + b) \<and> (a * e + b * x) sdiv (a + b) \<le> max e x"
proof
  have ab: "0 < a + b" using assms by simp
  have "(a + b) * min e x \<le> a * e + b * x"
    unfolding distrib_right using assms by (intro add_mono mult_left_mono) simp_all
  then show "min e x \<le> (a * e + b * x) sdiv (a + b)" using sdiv_le_pos [OF _ ab] sdiv_cancel [OF ab, of "min e x"] by metis
  have "a * e + b * x \<le> (a + b) * max e x"
    unfolding distrib_right using assms by (intro add_mono mult_left_mono) simp_all
  then show "(a * e + b * x) sdiv (a + b) \<le> max e x" using sdiv_le_pos [OF _ ab] sdiv_cancel [OF ab, of "max e x"] by metis
qed

text \<open>
  C20. Position accounting: a fill, with or without a ledger behind it, moves the account's signed quantity by
  exactly its size and no other account's position; adding keeps the entry price at the truncated weighted
  average, which lies between the old entry and the fill price; reducing keeps the entry; going through flat
  opens the rest at the fill price; a flat account has no position left.
\<close>

theorem perp_fill_accounting:
  assumes "0 < q"
  shows "exposure (snd (updatePerpPosition cfg venue acct i fb q px (m, P))) = (exposure P)(acct := fill_spec (exposure P acct) fb q px)
    \<and> (fst (exposure P acct) = 0 \<or> (fst (exposure P acct) > 0) = fb \<longrightarrow>
        (let e = snd (fill_spec (exposure P acct) fb q px) in
          (if fst (exposure P acct) = 0 then e = px else min (snd (exposure P acct)) px \<le> e \<and> e \<le> max (snd (exposure P acct)) px)))
    \<and> (fst (fill_spec (exposure P acct) fb q px) = 0 \<longrightarrow> map_of (snd (updatePerpPosition cfg venue acct i fb q px (m, P))) acct = None)"
proof -
  obtain n e where pe: "exposure P acct = (n, e)" by (metis surj_pair)
  have 1: "exposure (snd (updatePerpPosition cfg venue acct i fb q px (m, P))) = (exposure P)(acct := fill_spec (exposure P acct) fb q px)"
    unfolding fun_eq_iff update_exposure [OF assms] by simp
  have 2: "(let x = snd (fill_spec (n, e) fb q px) in if n = 0 then x = px else min e px \<le> x \<and> x \<le> max e px)" if "n = 0 \<or> (n > 0) = fb"
    using that average_between [of "\<bar>n\<bar>" q e px] assms sdiv_cancel [OF assms, of px] by (auto simp: fill_spec_def Let_def split: if_splits)
  have "map_of (snd (updatePerpPosition cfg venue acct i fb q px (m, P))) acct = None
      \<or> ps_qtyRaw (the (map_of (snd (updatePerpPosition cfg venue acct i fb q px (m, P))) acct)) \<noteq> 0"
    unfolding updatePerpPosition_def Let_def by (auto simp: case_prod_unfold drop_flat_def update_conv' delete_conv')
  then have 3: "map_of (snd (updatePerpPosition cfg venue acct i fb q px (m, P))) acct = None" if "fst (fill_spec (n, e) fb q px) = 0"
    using that fun_cong [OF 1, of acct] by (auto simp: pe exposure_def [of "snd _"] split: option.splits) (metis fst_conv)
  show ?thesis unfolding pe fst_conv snd_conv using 1 [unfolded pe] 2 3 by blast
qed

theorem perp_fill_accounting_witness:
  "exposure (snd (updatePerpPosition limits_cfg 99 7 10 True 30 200 ((None, credit_init), [(7, \<lparr>ps_qtyRaw = - 10, ps_entryRaw = 100, ps_margin = 0\<rparr>)]))) 7 = (20, 200)"
  using perp_fill_accounting [of 30 limits_cfg 99 7 10 True 200 "(None, credit_init)" "[(7, \<lparr>ps_qtyRaw = - 10, ps_entryRaw = 100, ps_margin = 0\<rparr>)]"]
  by (simp add: exposure_def [of "[_]"] fill_spec_def)

subsection \<open>Every contract has two sides\<close>

definition net :: "(nat \<times> position) list \<Rightarrow> int" where
  "net P = sum_list (map (\<lambda>(c, p). ps_qtyRaw p) P)"

definition shorts :: "(nat \<times> position) list \<Rightarrow> int" where
  "shorts P = sum_list (map (\<lambda>(c, p). max 0 (- ps_qtyRaw p)) P)"

lemma openInterest_sum: "openInterest cl = sum_list (map (\<lambda>(c, p). max 0 (ps_qtyRaw p)) (cl_positions cl))"
proof -
  have "fold (\<lambda>(acct, p) oi. if ps_qtyRaw p > 0 then oi + ps_qtyRaw p else oi) P n = n + sum_list (map (\<lambda>(c, p). max 0 (ps_qtyRaw p)) P)" for P :: "(nat \<times> position) list" and n
    by (induction P arbitrary: n) (auto simp: max_def)
  then show ?thesis by (simp add: openInterest_def)
qed

lemma longs_minus_shorts: "sum_list (map (\<lambda>(c, p). max 0 (ps_qtyRaw p)) P) = net P + shorts P"
  by (induction P) (auto simp: net_def shorts_def)

lemma net_update: "distinct (map fst P) \<Longrightarrow> net (AList.update k p P) = net P + ps_qtyRaw p - fst (exposure P k)"
  using isum_update [of P "ps_qtyRaw" k p] by (simp add: net_def comp_def case_prod_unfold exposure_def split: option.splits)

lemma net_delete: "distinct (map fst P) \<Longrightarrow> net (AList.delete k P) = net P - fst (exposure P k)"
  using isum_delete [of P "ps_qtyRaw" k] by (simp add: net_def comp_def case_prod_unfold exposure_def split: option.splits)

lemma update_positions_shape:
  "\<exists>p. snd (updatePerpPosition cfg venue acct i fb q px (m, P)) = (if ps_qtyRaw p = 0 then AList.delete acct P else AList.update acct p P)"
  unfolding updatePerpPosition_def Let_def by (simp add: case_prod_unfold drop_flat_def) blast

lemma net_fill:
  assumes "distinct (map fst P)" "0 < q"
  shows "net (snd (updatePerpPosition cfg venue acct i fb q px (m, P))) = net P + (if fb then q else - q)"
    "distinct (map fst (snd (updatePerpPosition cfg venue acct i fb q px (m, P))))"
proof -
  obtain p where s: "snd (updatePerpPosition cfg venue acct i fb q px (m, P)) = (if ps_qtyRaw p = 0 then AList.delete acct P else AList.update acct p P)"
    using update_positions_shape by blast
  have "fst (exposure (snd (updatePerpPosition cfg venue acct i fb q px (m, P))) acct) = fst (exposure P acct) + (if fb then q else - q)"
    unfolding update_exposure [OF assms(2)] by (simp add: fill_spec_def case_prod_unfold Let_def)
  then have "(if ps_qtyRaw p = 0 then 0 else ps_qtyRaw p) = fst (exposure P acct) + (if fb then q else - q)"
    unfolding s by (simp add: exposure_def [of "AList.update _ _ _"] exposure_def [of "AList.delete _ _"] update_conv' delete_conv' split: if_splits)
  then show "net (snd (updatePerpPosition cfg venue acct i fb q px (m, P))) = net P + (if fb then q else - q)"
    unfolding s using assms(1) by (auto simp: net_update net_delete)
  show "distinct (map fst (snd (updatePerpPosition cfg venue acct i fb q px (m, P))))" unfolding s using assms(1) by (simp add: distinct_update distinct_delete)
qed

text \<open>
  C21. Every contract has two sides: settling a trade, with or without a ledger, leaves the signed sum of all
  positions unchanged, so as long as the book of positions is balanced the published open interest, which sums
  the long side only, equals the short side.
\<close>

theorem open_interest_two_sided:
  assumes "distinct (map fst P)" "0 < tr_quantity t"
  shows "net (snd (settle_positions cfg venue t (m, P))) = net P
    \<and> (net P = 0 \<longrightarrow> openInterest (clearing_init\<lparr>cl_positions := snd (settle_positions cfg venue t (m, P))\<rparr>) = shorts (snd (settle_positions cfg venue t (m, P))))"
proof -
  define s1 where "s1 = updatePerpPosition cfg venue (snd (trade_buyer t)) (fst (trade_buyer t)) True (tr_quantity t) (tr_price t) (m, P)"
  have s: "settle_positions cfg venue t (m, P) = updatePerpPosition cfg venue (snd (trade_seller t)) (fst (trade_seller t)) False (tr_quantity t) (tr_price t) (fst s1, snd s1)"
    by (simp add: settle_positions_sides s1_def)
  note 1 = net_fill [OF assms, of cfg venue "snd (trade_buyer t)" "fst (trade_buyer t)" True "tr_price t" m, folded s1_def]
  have "net (snd (settle_positions cfg venue t (m, P))) = net P" unfolding s net_fill(1) [OF 1(2) assms(2)] 1(1) by simp
  then show ?thesis by (simp add: openInterest_sum longs_minus_shorts)
qed

theorem open_interest_two_sided_witness:
  "net (snd (settle_positions limits_cfg 99 sample_trade ((None, credit_init), []))) = 0"
  using open_interest_two_sided [of "[]" sample_trade limits_cfg 99 "(None, credit_init)"] by (simp add: sample_trade_def net_def)

subsection \<open>Collateral\<close>

text \<open>
  C18. Every reserved unit backs an order or a position. Through every sequence of admissions, releases,
  settled trades, forced closes, liquidation sweeps with auto-deleveraging, funding payments and operator
  corrections, reservations and position margins together never exceed what the ledger holds back for the
  account; what is held back beyond them never changes, so no margin is lost and none is released twice; and
  no asset's total over all accounts moves, profits, losses, fees, funding and haircuts included.
\<close>

theorem perp_collateral_backed:
  assumes "config_sane cfg" "account_ok venue" "hook_safe cancelAll" "collateral cfg ((L, C), cl_positions cl)"
    and "(perp_step cfg venue cancelAll)\<^sup>*\<^sup>* ((L, C), cl) ((L', C'), cl')"
  shows "collateral cfg ((L', C'), cl_positions cl')
    \<and> (\<forall>c a. account_ok c \<longrightarrow> asset_ok a \<longrightarrow>
        reserved L' c a - claimed C' c a - margin_of cfg (cl_positions cl') c a = reserved L c a - claimed C c a - margin_of cfg (cl_positions cl) c a)
    \<and> (\<forall>x. asset_total L' x = asset_total L x)"
  using perp_run_kept [OF assms(5,1,2,3)] assms(4) by (simp add: kept_def pslack_def slack_def)

theorem perp_collateral_backed_witness:
  "\<exists>L' C' P' es. settlePerp (Some (1000, 2000)) perp_cfg 99 sample_trade ((Some sample_funds, credit_init), []) = (((Some L', C'), P'), es)
    \<and> collateral perp_cfg ((L', C'), P') \<and> asset_total L' 2 = asset_total sample_funds 2"
proof -
  have col: "collateral perp_cfg ((sample_funds, credit_init), [])"
    using losing_long_collateral by (auto simp: collateral_def pos_ok_def pslack_def margin_of_def losing_long_def split: if_splits)
  have own: "trade_owned perp_cfg sample_trade credit_init"
    by (simp add: trade_owned_def order_owned_def credit_init_def sample_trade_def kMaxAccountId_def)
  obtain L' C' P' where run: "fst (settlePerp (Some (1000, 2000)) perp_cfg 99 sample_trade ((Some sample_funds, credit_init), [])) = ((Some L', C'), P')"
    using settlePerp_kept [OF col own perp_cfg_sane, of 99 "Some (1000, 2000)"] by (auto simp: kMaxAccountId_def)
  then obtain es where run: "settlePerp (Some (1000, 2000)) perp_cfg 99 sample_trade ((Some sample_funds, credit_init), []) = (((Some L', C'), P'), es)"
    by (metis prod.collapse)
  have "perp_step perp_cfg 99 (cancel_listed (\<lambda>_. [])) ((sample_funds, credit_init), clearing_init) ((L', C'), clearing_init\<lparr>cl_positions := P'\<rparr>)"
    by (rule step_trade [OF own]) (use run in \<open>simp add: clearing_init_def\<close>)
  then have steps: "(perp_step perp_cfg 99 (cancel_listed (\<lambda>_. [])))\<^sup>*\<^sup>* ((sample_funds, credit_init), clearing_init) ((L', C'), clearing_init\<lparr>cl_positions := P'\<rparr>)"
    by simp
  have "account_ok 99" "collateral perp_cfg ((sample_funds, credit_init), cl_positions clearing_init)"
    using col by (simp_all add: clearing_init_def kMaxAccountId_def)
  then have "collateral perp_cfg ((L', C'), P') \<and> asset_total L' 2 = asset_total sample_funds 2"
    using perp_collateral_backed [OF perp_cfg_sane _ cancel_listed_safe(1) _ steps] by simp
  then show ?thesis using run by blast
qed

subsection \<open>Checkpoint and calendar\<close>

lemma position_eta: "\<lparr>ps_qtyRaw = ps_qtyRaw p, ps_entryRaw = ps_entryRaw p, ps_margin = ps_margin p\<rparr> = (p :: position)"
  by (cases p) simp

definition restore_position_entry :: "restore_position \<Rightarrow> (nat \<times> position) list \<Rightarrow> (nat \<times> position) list" where
  "restore_position_entry r P = snd (snd (restorePosition limits_cfg True r (None, P)))"

lemma restore_position_entry_eq:
  "restore_position_entry r P = (if map_of P (rn_account r) = None
     then AList.update (rn_account r) \<lparr>ps_qtyRaw = rn_qtyRaw r, ps_entryRaw = rn_entryRaw r, ps_margin = rn_marginRaw r\<rparr> P else P)"
  by (simp add: restore_position_entry_def restorePosition_def)

text \<open>With exact balances the ledger is not read, so a position record has the same effect with and without one.\<close>

lemma restore_position_exact:
  "snd (snd (restorePosition cfg True r (ledger, P))) = restore_position_entry r P \<and> fst (snd (restorePosition cfg True r (ledger, P))) = ledger"
  by (auto simp: restore_position_entry_eq restorePosition_def split: option.split)

interpretation psn: snapshot_section "\<lambda>acct p. [position_record acct p]" restore_position_entry position_hash "\<lambda>_ _. True" "\<lambda>_. True"
proof unfold_locales
  fix k :: nat and v :: position and t :: "(nat \<times> position) list"
  assume "map_of t k = None"
  then show "map_of (fold restore_position_entry [position_record k v] t) = (map_of t)(k \<mapsto> v)"
    by (simp add: restore_position_entry_eq update_conv' position_record_def position_eta)
next
  fix t :: "(nat \<times> position) list" and r
  assume "distinct (map fst t)"
  then show "distinct (map fst (restore_position_entry r t))" by (simp add: restore_position_entry_eq distinct_update)
qed simp_all

text \<open>The position and funding sections restore what was written, the digest included; a flattened position is written and restored too.\<close>

theorem clearing_sections_restore:
  assumes "distinct (map fst (cl_positions cl))" "0 \<le> cl_fundingIntervalNs cl" "0 \<le> cl_nextFundingNs cl"
  shows "map_of (fold restore_position_entry (writePositions (cl_positions cl)) []) = map_of (cl_positions cl)
    \<and> hashPositions (fold restore_position_entry (writePositions (cl_positions cl)) []) = hashPositions (cl_positions cl)
    \<and> fold restoreFunding (writeFunding cl) (clearing_init\<lparr>cl_positions := cl_positions cl\<rparr>) = cl"
proof -
  have "psn.legal_table (cl_positions cl)" unfolding psn.legal_table_def using assms(1) by blast
  note p = psn.restored_exact [OF this] psn.restored_digest [OF this]
  have "fold restoreFunding (writeFunding cl) (clearing_init\<lparr>cl_positions := cl_positions cl\<rparr>) = cl"
    using assms(2,3) by (cases cl) (simp add: writeFunding_def restoreFunding_def clearing_init_def)
  then show ?thesis using p by (simp add: writePositions_def hashPositions_def fun_eq_iff)
qed

text \<open>
  The funding calendar catches up: after a settlement the next boundary is in the future, a whole number of
  intervals past the one that was settled, and the earliest such.
\<close>

theorem funding_calendar_catches_up:
  assumes "0 < cl_fundingIntervalNs cl" "0 < cl_nextFundingNs cl"
  shows "now < cl_nextFundingNs (advanceFundingSchedule now cl)
    \<and> cl_fundingIntervalNs cl dvd cl_nextFundingNs (advanceFundingSchedule now cl) - cl_nextFundingNs cl
    \<and> cl_nextFundingNs cl < cl_nextFundingNs (advanceFundingSchedule now cl)
    \<and> cl_nextFundingNs (advanceFundingSchedule now cl) - cl_fundingIntervalNs cl \<le> max now (cl_nextFundingNs cl)"
proof -
  define i where "i = cl_fundingIntervalNs cl"
  define n where "n = cl_nextFundingNs cl + i"
  define b where "b = now - n"
  have i: "0 < i" using assms by (simp add: i_def)
  have adv: "cl_nextFundingNs (advanceFundingSchedule now cl) = (if n \<le> now then n + (b sdiv i + 1) * i else n)"
    using assms by (simp add: advanceFundingSchedule_def Let_def n_def i_def b_def)
  show ?thesis
  proof (cases "n \<le> now")
    case True
    define d where "d = b div i"
    have "b sdiv i = d" using True i by (simp add: sdiv_nonneg b_def d_def)
    moreover have "b = d * i + b mod i" by (simp add: d_def)
    ultimately have next_eq: "cl_nextFundingNs (advanceFundingSchedule now cl) = now - b mod i + i" "cl_nextFundingNs (advanceFundingSchedule now cl) = n + (d + 1) * i"
      using True by (simp_all add: adv b_def algebra_simps)
    have r: "0 \<le> b mod i" "b mod i < i" using i by simp_all
    then have "now < now - b mod i + i" "cl_nextFundingNs cl < now - b mod i + i" using True i n_def by linarith+
    moreover have "i dvd cl_nextFundingNs (advanceFundingSchedule now cl) - cl_nextFundingNs cl" unfolding next_eq(2) by (simp add: n_def)
    ultimately show ?thesis using r(1) unfolding i_def [symmetric] next_eq(1) by simp
  next
    case False
    then show ?thesis using i by (simp add: adv i_def [symmetric]) (simp add: n_def)
  qed
qed

end
