(* ===== verification/ClearingOrder.thy ===== *)
theory ClearingOrder
  imports ClearingSweep "HOL-Library.Multiset"
begin

section \<open>The iteration order of the position table is not observable\<close>

text \<open>
  The source iterates over an \<^verbatim>\<open>unordered_map\<close> whose order depends on the standard library it was built
  against, and claims at every such loop that the order does not matter. Two tables with the same entries in
  any order, over ledgers with the same balances, give the same events, the same reservations, the same
  balances, the same entries and the same digest.
\<close>

subsection \<open>Ledgers with the same balances\<close>

definition same_balances :: "ledger \<Rightarrow> ledger \<Rightarrow> bool" where
  "same_balances L1 L2 \<longleftrightarrow> (\<forall>c a. bal_of L1 c a = bal_of L2 c a)"

lemma same_balancesD: "same_balances L1 L2 \<Longrightarrow> bal_of L1 c a = bal_of L2 c a"
  by (simp add: same_balances_def)

lemma same_queries:
  assumes "same_balances L1 L2"
  shows "available L1 c a = available L2 c a" "reserved L1 c a = reserved L2 c a" "fst (debit L1 c a q) = fst (debit L2 c a q)"
  using same_balancesD [OF assms] by (simp_all add: balance_views debit_def Let_def)

lemma same_put: "same_balances L1 L2 \<Longrightarrow> same_balances (put_bal L1 c a b) (put_bal L2 c a b)"
  by (simp add: same_balances_def bal_of_put)

lemma same_ops:
  assumes "same_balances L1 L2"
  shows "same_balances (credit L1 c a q) (credit L2 c a q)" "same_balances (release L1 c a q) (release L2 c a q)"
    "same_balances (snd (debit L1 c a q)) (snd (debit L2 c a q))"
  using assms same_balancesD [OF assms] by (simp_all add: ledger_ops same_put)

lemma same_balances_refl: "same_balances L L"
  by (simp add: same_balances_def)

subsection \<open>Tables with the same entries\<close>

lemma entries_map_of:
  assumes "mset P1 = mset P2" "distinct (map fst P1)"
  shows "map_of P1 = map_of P2" "distinct (map fst P2)"
proof -
  have "mset (map fst P1) = mset (map fst P2)" using assms(1) by simp
  then show "distinct (map fst P2)" using assms(2) by (metis mset_eq_imp_distinct_iff)
  then show "map_of P1 = map_of P2" using assms map_of_inject_set mset_eq_setD by metis
qed

lemma entries_delete: "mset P1 = mset P2 \<Longrightarrow> mset (AList.delete k P1) = mset (AList.delete k P2)"
  by (simp add: AList.delete_eq)

lemma entries_digest:
  assumes "mset P1 = mset P2" "distinct (map fst P1)"
  shows "hashPositions P1 = hashPositions P2"
proof -
  have "sortedKeysOf P1 = sortedKeysOf P2" unfolding sortedKeysOf_def using assms(1) by (intro properties_for_sort) simp_all
  then show ?thesis using entries_map_of [OF assms] by (simp add: fun_eq_iff hashPositions_def digest_section_def)
qed

subsection \<open>Funding\<close>

definition funding_move :: "symbol_config \<Rightarrow> nat \<Rightarrow> int \<Rightarrow> int \<Rightarrow> nat \<Rightarrow> nat \<Rightarrow> nat \<times> position \<Rightarrow> int" where
  "funding_move cfg venue rate mark c a = (\<lambda>(acct, p).
    let mag = rateOnNotional (cfgNotional cfg mark (iabs64 (ps_qtyRaw p))) rate kFundingRateScale; pay = (if ps_qtyRaw p > 0 then - mag else mag)
    in (if key acct (sc_quoteAsset cfg) = key c a then pay else 0) - (if key venue (sc_quoteAsset cfg) = key c a then pay else 0))"

lemma credit_row: "bal_of (credit L x y q) c a = (bal_of L c a)\<lparr>avail := avail (bal_of L c a) + (if key x y = key c a then q else 0)\<rparr>"
proof (cases "key x y = key c a")
  case True
  then have "bal_of L x y = bal_of L c a" by (simp add: bal_of_def find_bal_def)
  then show ?thesis using True by (simp add: credit_def Let_def bal_of_put)
next
  case False
  then show ?thesis by (simp add: credit_def Let_def bal_of_put)
qed

lemma funding_pay_row:
  "bal_of (funding_pay cfg venue rate mark ap L) c a = (bal_of L c a)\<lparr>avail := avail (bal_of L c a) + funding_move cfg venue rate mark c a ap\<rparr>"
  by (simp add: funding_pay_def funding_move_def case_prod_unfold Let_def credit_row)

lemma funding_fold_row:
  "bal_of (fold (funding_pay cfg venue rate mark) aps L) c a
    = (bal_of L c a)\<lparr>avail := avail (bal_of L c a) + sum_list (map (funding_move cfg venue rate mark c a) aps)\<rparr>"
  by (induction aps arbitrary: L) (simp_all add: funding_pay_row)

lemma funding_fold_same:
  assumes "same_balances L1 L2" "mset P1 = mset P2"
  shows "same_balances (fold (funding_pay cfg venue rate mark) P1 L1) (fold (funding_pay cfg venue rate mark) P2 L2)"
proof -
  have "sum_list (map f P1) = sum_list (map f P2)" for f :: "nat \<times> position \<Rightarrow> int" using assms(2) by (metis mset_map sum_mset_sum_list)
  then show ?thesis using same_balancesD [OF assms(1)] by (simp add: same_balances_def funding_fold_row)
qed

subsection \<open>Liquidation\<close>

definition same_money :: "money \<times> (nat \<times> position) list \<Rightarrow> money \<times> (nat \<times> position) list \<Rightarrow> bool" where
  "same_money s1 s2 \<longleftrightarrow> same_balances (fst (fst s1)) (fst (fst s2)) \<and> snd (fst s1) = snd (fst s2) \<and> mset (snd s1) = mset (snd s2) \<and> distinct (map fst (snd s1))"

definition hook_extensional :: "cancel_hook \<Rightarrow> bool" where
  "hook_extensional cancelAll \<longleftrightarrow> (\<forall>acct L1 L2 C. same_balances L1 L2 \<longrightarrow>
     same_balances (fst (fst (cancelAll acct (L1, C)))) (fst (fst (cancelAll acct (L2, C))))
     \<and> snd (fst (cancelAll acct (L1, C))) = snd (fst (cancelAll acct (L2, C))) \<and> snd (cancelAll acct (L1, C)) = snd (cancelAll acct (L2, C)))"

lemma candidates_filter:
  "adl_candidates cfg sg mark P = map (\<lambda>(oa, pos). \<lparr>ac_acct = oa, ac_uPnl = cfgNotional cfg (mark - ps_entryRaw pos) (ps_qtyRaw pos)\<rparr>)
     (filter (\<lambda>(oa, pos). posSign pos \<noteq> 0 \<and> posSign pos \<noteq> sg \<and> cfgNotional cfg (mark - ps_entryRaw pos) (ps_qtyRaw pos) > 0) P)"
  by (induction P) (auto simp: adl_candidates_def Let_def split: if_splits)

lemma adl_rank_inj: "inj_on adl_rank S"
  by (rule inj_onI) (simp add: adl_rank_def)

lemma ranked_same:
  assumes "mset P1 = mset P2"
  shows "sort_key adl_rank (adl_candidates cfg sg mark P1) = sort_key adl_rank (adl_candidates cfg sg mark P2)"
proof (rule sort_key_inj_key_eq [OF _ adl_rank_inj])
  show "mset (adl_candidates cfg sg mark P1) = mset (sort_key adl_rank (adl_candidates cfg sg mark P2))"
    using assms by (simp add: candidates_filter)
qed simp

lemma adl_close_same:
  assumes "same_balances L1 L2"
  shows "fst (adl_close cfg venue mark acct p r L1) = fst (adl_close cfg venue mark acct p r L2)"
    "same_balances (snd (adl_close cfg venue mark acct p r L1)) (snd (adl_close cfg venue mark acct p r L2))"
proof -
  define u where "u = cfgNotional cfg (mark - ps_entryRaw p) (ps_qtyRaw p)"
  define M where "M L = (let K = credit (credit L acct (sc_quoteAsset cfg) u) venue (sc_quoteAsset cfg) (- u)
    in if ps_margin p > 0 then release K acct (sc_quoteAsset cfg) (ps_margin p) else K)" for L
  define av where "av L = available (M L) acct (sc_quoteAsset cfg)" for L
  define taken where "taken L = min (if r < u then r else u) (if av L > 0 then av L else 0)" for L
  have run: "adl_close cfg venue mark acct p r L =
      (taken L, if taken L > 0 then credit (snd (debit (M L) acct (sc_quoteAsset cfg) (taken L))) venue (sc_quoteAsset cfg) (taken L) else M L)" for L
    unfolding adl_close_def Let_def u_def [symmetric] taken_def av_def M_def by simp
  have M: "same_balances (M L1) (M L2)" using assms by (simp add: M_def Let_def same_ops)
  then have t: "taken L1 = taken L2" by (simp add: taken_def av_def same_queries(1) [OF M])
  then show "fst (adl_close cfg venue mark acct p r L1) = fst (adl_close cfg venue mark acct p r L2)" by (simp add: run)
  show "same_balances (snd (adl_close cfg venue mark acct p r L1)) (snd (adl_close cfg venue mark acct p r L2))"
    using M t by (simp add: run same_ops)
qed

lemma adl_walk_same:
  assumes "same_balances L1 L2" "mset P1 = mset P2" "distinct (map fst P1)"
  shows "snd (adl_walk cfg venue mark cs r (L1, P1)) = snd (adl_walk cfg venue mark cs r (L2, P2))
    \<and> same_balances (fst (fst (adl_walk cfg venue mark cs r (L1, P1)))) (fst (fst (adl_walk cfg venue mark cs r (L2, P2))))
    \<and> mset (snd (fst (adl_walk cfg venue mark cs r (L1, P1)))) = mset (snd (fst (adl_walk cfg venue mark cs r (L2, P2))))
    \<and> distinct (map fst (snd (fst (adl_walk cfg venue mark cs r (L1, P1)))))"
  using assms
proof (induction cs arbitrary: r L1 L2 P1 P2)
  case (Cons x xs)
  show ?case
  proof (cases "r \<le> 0 \<or> map_of P1 (ac_acct x) = None")
    case True
    then show ?thesis using Cons entries_map_of(1) [OF Cons.prems(2,3)] by auto
  next
    case False
    then obtain p where p: "map_of P1 (ac_acct x) = Some p" "map_of P2 (ac_acct x) = Some p" and r: "\<not> r \<le> 0"
      using entries_map_of(1) [OF Cons.prems(2,3)] by auto
    note c = adl_close_same [OF Cons.prems(1), of cfg venue mark "ac_acct x" p r]
    note IH = Cons.IH [OF c(2) entries_delete [OF Cons.prems(2), of "ac_acct x"] distinct_delete [OF Cons.prems(3)], of "r - fst (adl_close cfg venue mark (ac_acct x) p r L1)"]
    show ?thesis using IH by (simp add: p r c(1) case_prod_unfold Let_def)
  qed
qed simp

lemma close_account_same: "same_balances L1 L2 \<Longrightarrow> same_balances (close_account cfg venue acct mark p L1) (close_account cfg venue acct mark p L2)"
  by (simp add: close_account_def Let_def same_ops)

lemma forceClose_same:
  assumes s: "same_money s1 s2" and hook: "hook_extensional cancelAll"
  shows "snd (forceClose cfg venue cancelAll mark b s1) = snd (forceClose cfg venue cancelAll mark b s2)
    \<and> same_money (fst (forceClose cfg venue cancelAll mark b s1)) (fst (forceClose cfg venue cancelAll mark b s2))"
proof -
  obtain L1 C P1 where s1: "s1 = ((L1, C), P1)" by (metis surj_pair)
  obtain L2 P2 where s2: "s2 = ((L2, C), P2)" using s s1 by (cases s2) (auto simp: same_money_def)
  have bal: "same_balances L1 L2" and ent: "mset P1 = mset P2" "distinct (map fst P1)" using s by (simp_all add: same_money_def s1 s2)
  note m = entries_map_of(1) [OF ent]
  show ?thesis
  proof (cases "map_of P1 b")
    case None
    then show ?thesis using s m by (simp add: forceClose_def s1 s2)
  next
    case (Some p)
    then have p2: "map_of P2 b = Some p" using m by simp
    obtain M1 D es where h1: "cancelAll b (L1, C) = ((M1, D), es)" by (metis surj_pair)
    obtain M2 where h2: "cancelAll b (L2, C) = ((M2, D), es)" and M: "same_balances M1 M2"
      using hook [unfolded hook_extensional_def, rule_format, OF bal, of b C] h1 by (cases "cancelAll b (L2, C)") auto
    define K1 where "K1 = close_account cfg venue b mark p M1"
    define K2 where "K2 = close_account cfg venue b mark p M2"
    define av where "av = available K2 b (sc_quoteAsset cfg)"
    have K: "same_balances K1 K2" unfolding K1_def K2_def by (rule close_account_same [OF M])
    have av1: "available K1 b (sc_quoteAsset cfg) = av" using same_queries(1) [OF K] by (simp add: av_def)
    define T where "T K = (if av < 0 then credit (credit K b (sc_quoteAsset cfg) (- av)) venue (sc_quoteAsset cfg) av else K)" for K
    have T: "same_balances (T K1) (T K2)" using K by (simp add: T_def same_ops)
    define adl where "adl K P = (if av < 0 \<and> sc_autoDeleverage cfg
      then autoDeleverage cfg venue (if ps_qtyRaw p > 0 then 1 else - 1) (if av < 0 then - av else 0) mark (T K, AList.delete b P)
      else ((T K, AList.delete b P), []))" for K P
    have f1: "forceClose cfg venue cancelAll mark b s1 = (((fst (fst (adl K1 P1)), D), snd (fst (adl K1 P1))), es @ closed_event cfg b mark p (av < 0) False # snd (adl K1 P1))"
      unfolding s1 forceClose_unfold [where mark = mark and venue = venue and cfg = cfg and cancelAll = cancelAll, OF Some h1] Let_def K1_def [symmetric] av1
        T_def [symmetric] adl_def [symmetric] ..
    have f2: "forceClose cfg venue cancelAll mark b s2 = (((fst (fst (adl K2 P2)), D), snd (fst (adl K2 P2))), es @ closed_event cfg b mark p (av < 0) False # snd (adl K2 P2))"
      unfolding s2 forceClose_unfold [where mark = mark and venue = venue and cfg = cfg and cancelAll = cancelAll, OF p2 h2] Let_def K2_def [symmetric] av_def [symmetric]
        T_def [symmetric] adl_def [symmetric] ..
    have "snd (adl K1 P1) = snd (adl K2 P2) \<and> same_balances (fst (fst (adl K1 P1))) (fst (fst (adl K2 P2)))
        \<and> mset (snd (fst (adl K1 P1))) = mset (snd (fst (adl K2 P2))) \<and> distinct (map fst (snd (fst (adl K1 P1))))"
      using adl_walk_same [OF T entries_delete [OF ent(1), of b] distinct_delete [OF ent(2)]] T entries_delete [OF ent(1), of b] distinct_delete [OF ent(2)]
        ranked_same [OF entries_delete [OF ent(1), of b], of cfg _ mark] unfolding adl_def autoDeleverage_def by simp
    then show ?thesis unfolding f1 f2 same_money_def by simp
  qed
qed

lemma close_all_same:
  assumes "hook_extensional cancelAll"
  shows "same_money s1 s2 \<Longrightarrow> snd (close_all cfg venue cancelAll mark as s1) = snd (close_all cfg venue cancelAll mark as s2)
    \<and> same_money (fst (close_all cfg venue cancelAll mark as s1)) (fst (close_all cfg venue cancelAll mark as s2))"
proof (induction "as" arbitrary: s1 s2)
  case (Cons b bs)
  note f = forceClose_same [OF Cons.prems assms, of cfg venue mark b]
  show ?case using f Cons.IH [OF conjunct2 [OF f]] by (simp add: case_prod_unfold Let_def)
qed simp

lemma checkLiquidations_same:
  assumes hook: "hook_extensional cancelAll" and s: "same_money s1 s2"
  shows "snd (checkLiquidations cfg venue cancelAll mark s1) = snd (checkLiquidations cfg venue cancelAll mark s2)
    \<and> same_money (fst (checkLiquidations cfg venue cancelAll mark s1)) (fst (checkLiquidations cfg venue cancelAll mark s2))"
proof -
  obtain L1 C P1 where s1: "s1 = ((L1, C), P1)" by (metis surj_pair)
  obtain L2 P2 where s2: "s2 = ((L2, C), P2)" using s s1 by (cases s2) (auto simp: same_money_def)
  have bal: "same_balances L1 L2" and ent: "mset P1 = mset P2" "distinct (map fst P1)" using s by (simp_all add: same_money_def s1 s2)
  have b: "breaches cfg mark L1 P1 = breaches cfg mark L2 P2"
    using entries_map_of(1) [OF ent] same_queries(1) [OF bal] by (simp add: fun_eq_iff breaches_def unrealizedPnlRaw_def Let_def)
  have "sort (map fst (filter (\<lambda>(acct, p). breaches cfg mark L1 P1 acct p) P1)) = sort (map fst (filter (\<lambda>(acct, p). breaches cfg mark L2 P2 acct p) P2))"
    unfolding b using ent(1) by (intro properties_for_sort) simp_all
  then show ?thesis using close_all_same [OF hook s, of cfg venue mark] s by (simp add: checkLiquidations_def s1 s2)
qed

text \<open>
  C22. The position table's iteration order is not observable: for any two orders of the same entries over
  ledgers with the same balances, a funding payment and the liquidations it causes emit the same events in the
  same order and leave the same balances, the same reservations, the same positions and the same digest.
\<close>

theorem clearing_order_unobservable:
  assumes "mset P1 = mset P2" "distinct (map fst P1)" "same_balances L1 L2" "hook_extensional cancelAll"
    and "applyFunding cfg venue cancelAll rate mark now ((Some L1, C), cl\<lparr>cl_positions := P1\<rparr>) = (((Some L1', C1'), cl1'), es1)"
    and "applyFunding cfg venue cancelAll rate mark now ((Some L2, C), cl\<lparr>cl_positions := P2\<rparr>) = (((Some L2', C2'), cl2'), es2)"
  shows "es1 = es2 \<and> C1' = C2' \<and> same_balances L1' L2' \<and> mset (cl_positions cl1') = mset (cl_positions cl2')
    \<and> hashPositions (cl_positions cl1') = hashPositions (cl_positions cl2') \<and> cl_nextFundingNs cl1' = cl_nextFundingNs cl2'"
proof -
  define adv where "adv P = advanceFundingSchedule now (cl\<lparr>cl_positions := P, cl_fundingRateRaw := rate\<rparr>)" for P
  have adv: "cl_positions (adv P) = P" "cl_nextFundingNs (adv P) = cl_nextFundingNs (adv Q)" for P Q
    by (simp_all add: adv_def advanceFundingSchedule_def Let_def)
  define F where "F P L = fold (funding_pay cfg venue rate mark) P L" for P L
  define R where "R P L = checkLiquidations cfg venue cancelAll mark ((F P L, C), P)" for P L
  have run: "applyFunding cfg venue cancelAll rate mark now ((Some L, C), cl\<lparr>cl_positions := P\<rparr>)
      = (((Some (fst (fst (fst (R P L)))), snd (fst (fst (R P L)))), (adv P)\<lparr>cl_positions := snd (fst (R P L))\<rparr>), snd (R P L))" for P L
    by (simp add: applyFunding_def Let_def adv_def [symmetric] adv(1) F_def [symmetric] R_def [symmetric] case_prod_unfold)
  have "same_money ((F P1 L1, C), P1) ((F P2 L2, C), P2)"
    using funding_fold_same [OF assms(3,1)] assms(1,2) by (simp add: same_money_def F_def)
  note res = checkLiquidations_same [OF assms(4) this, of cfg venue mark, folded R_def]
  have "hashPositions (snd (fst (R P1 L1))) = hashPositions (snd (fst (R P2 L2)))" using res entries_digest by (simp add: same_money_def)
  then show ?thesis using assms(5,6) res adv(2) [of P1 P2] unfolding run same_money_def by auto
qed

lemma releases_same:
  "same_balances L1 L2 \<Longrightarrow> same_balances (fst (fold releaseReservation is (L1, C))) (fst (fold releaseReservation is (L2, C)))
    \<and> snd (fold releaseReservation is (L1, C)) = snd (fold releaseReservation is (L2, C))"
proof (induction "is" arbitrary: L1 L2 C)
  case (Cons i "is")
  define D where "D = snd (releaseReservation i (L1, C))"
  obtain M1 where 1: "releaseReservation i (L1, C) = (M1, D)" by (cases "releaseReservation i (L1, C)") (simp add: D_def)
  obtain M2 where 2: "releaseReservation i (L2, C) = (M2, D)" and M: "same_balances M1 M2"
    using 1 Cons.prems by (auto simp: releaseReservation_def same_ops split: option.splits if_splits)
  show ?case using Cons.IH [OF M] by (simp add: 1 2)
qed simp

lemma cancel_listed_extensional: "hook_extensional (cancel_listed ids)"
  using releases_same by (simp add: hook_extensional_def cancel_listed_def)

lemma applyFunding_ledger:
  "\<exists>L' C' cl' es. applyFunding cfg venue cancelAll rate mark now ((Some L, C), cl) = (((Some L', C'), cl'), es)"
  by (simp add: applyFunding_def Let_def case_prod_unfold)

theorem clearing_order_unobservable_witness:
  "snd (applyFunding perp_cfg 9 (cancel_listed (\<lambda>_. [])) 100 50 1 ((Some bad_wallets, credit_init), clearing_init\<lparr>cl_positions := two_sides\<rparr>))
    = snd (applyFunding perp_cfg 9 (cancel_listed (\<lambda>_. [])) 100 50 1 ((Some bad_wallets, credit_init), clearing_init\<lparr>cl_positions := rev two_sides\<rparr>))"
proof -
  have m: "mset two_sides = mset (rev two_sides)" "distinct (map fst two_sides)" by (simp_all add: two_sides_def)
  obtain L1 C1 cl1 es1 where 1: "applyFunding perp_cfg 9 (cancel_listed (\<lambda>_. [])) 100 50 1 ((Some bad_wallets, credit_init), clearing_init\<lparr>cl_positions := two_sides\<rparr>)
      = (((Some L1, C1), cl1), es1)" using applyFunding_ledger by blast
  obtain L2 C2 cl2 es2 where 2: "applyFunding perp_cfg 9 (cancel_listed (\<lambda>_. [])) 100 50 1 ((Some bad_wallets, credit_init), clearing_init\<lparr>cl_positions := rev two_sides\<rparr>)
      = (((Some L2, C2), cl2), es2)" using applyFunding_ledger by blast
  show ?thesis using clearing_order_unobservable [OF m same_balances_refl cancel_listed_extensional 1 2] by (simp only: 1 2 snd_conv)
qed

end
