(* ===== verification/GapDetector.thy ===== *)
theory GapDetector
  imports Prelude
begin

section \<open>The market-data gap detector\<close>

text \<open>
  \<^verbatim>\<open>GapDetector\<close> of \<^verbatim>\<open>venue/include/flox-venue/resend_buffer.h\<close>: the client-side sequencer of
  the multicast feed. It reads the symbol, epoch and sequence number of a message; the rest of
  \<^verbatim>\<open>MdMessage\<close> is the body it passes on. The callbacks \<^verbatim>\<open>deliver\<close>, \<^verbatim>\<open>onGap\<close> and
  \<^verbatim>\<open>onEpoch\<close> are the events of an output list, in the order they are called. \<^verbatim>\<open>std::map\<close> is an
  association list in key order; sequence numbers are \<open>nat\<close>, and the increment of the next number
  wraps at \<open>2 ^ 64\<close> as \<^verbatim>\<open>uint64_t\<close> does.
\<close>

subsection \<open>The code\<close>

record gap_config =
  gc_reraiseAfter :: nat
  gc_maxHeld :: nat

record 'b gap_msg =
  gm_symbol :: nat
  gm_epoch :: nat
  gm_seq :: nat
  gm_body :: 'b

datatype 'b gap_event = Deliver "'b gap_msg" | OnGap nat nat nat | OnEpoch nat nat nat

record 'b gap_stream =
  gs_epoch :: nat
  gs_epochSet :: bool
  gs_next :: nat
  gs_held :: "(nat \<times> 'b gap_msg) list"
  gs_gapOpen :: bool
  gs_sinceReport :: nat

definition new_stream :: "'b gap_stream" where
  "new_stream = \<lparr>gs_epoch = 0, gs_epochSet = False, gs_next = 1, gs_held = [], gs_gapOpen = False, gs_sinceReport = 0\<rparr>"

fun held_emplace :: "nat \<Rightarrow> 'm \<Rightarrow> (nat \<times> 'm) list \<Rightarrow> bool \<times> (nat \<times> 'm) list" where
  "held_emplace k m [] = (True, [(k, m)])"
| "held_emplace k m ((j, x) # h) =
     (if k < j then (True, (k, m) # (j, x) # h)
      else if k = j then (False, (j, x) # h)
      else let (ok, h1) = held_emplace k m h in (ok, (j, x) # h1))"

definition bump :: "nat \<Rightarrow> nat" where
  "bump n = Suc n mod 2 ^ 64"

fun drain_held :: "nat \<Rightarrow> (nat \<times> 'm) list \<Rightarrow> 'm list \<times> nat \<times> (nat \<times> 'm) list" where
  "drain_held n [] = ([], n, [])"
| "drain_held n ((k, m) # h) =
     (if k = n then let (d, n1, h1) = drain_held (bump n) h in (m # d, n1, h1) else ([], n, (k, m) # h))"

lemma drain_held_shrinks: "length (snd (snd (drain_held n h))) \<le> length h"
  by (induction n h rule: drain_held.induct) (auto simp: case_prod_unfold Let_def)

function abandon_gap :: "nat \<Rightarrow> (nat \<times> 'm) list \<Rightarrow> 'm list \<times> nat" where
  "abandon_gap n [] = ([], n)"
| "abandon_gap n ((k, m) # h) =
     (let r = drain_held k ((k, m) # h); r2 = abandon_gap (fst (snd r)) (snd (snd r)) in (fst r @ fst r2, snd r2))"
  by pat_completeness auto

termination
proof (relation "measure (\<lambda>(n, h). length h)")
  fix n k :: nat and m :: 'm and h r
  assume "r = drain_held k ((k, m) # h)"
  then show "((fst (snd r), snd (snd r)), n, (k, m) # h) \<in> measure (\<lambda>(n, h). length h)"
    using drain_held_shrinks [of "bump k" h] by (auto simp: case_prod_unfold Let_def less_Suc_eq_le)
qed simp

definition stream_epoch :: "'b gap_msg \<Rightarrow> 'b gap_stream \<Rightarrow> 'b gap_event list \<times> 'b gap_stream" where
  "stream_epoch m s =
     (if \<not> gs_epochSet s then ([], s\<lparr>gs_epoch := gm_epoch m, gs_epochSet := True\<rparr>)
      else if gm_epoch m \<noteq> gs_epoch s
      then ([OnEpoch (gm_symbol m) (gs_epoch s) (gm_epoch m)], new_stream\<lparr>gs_epoch := gm_epoch m, gs_epochSet := True\<rparr>)
      else ([], s))"

definition stream_accept :: "gap_config \<Rightarrow> 'b gap_msg \<Rightarrow> 'b gap_stream \<Rightarrow> bool \<times> 'b gap_event list \<times> 'b gap_stream" where
  "stream_accept cfg m s =
     (if gm_seq m = gs_next s
      then let (d, n, h) = drain_held (bump (gs_next s)) (gs_held s)
           in (False, map Deliver (m # d), s\<lparr>gs_next := n, gs_held := h\<rparr>)
      else if gm_seq m > gs_next s
      then let (held, h) = held_emplace (gm_seq m) m (gs_held s);
               fresh = (held \<and> \<not> gs_gapOpen s);
               s = s\<lparr>gs_held := h\<rparr>;
               s = (if fresh then s\<lparr>gs_gapOpen := True, gs_sinceReport := 0\<rparr> else s);
               report = (if fresh then [OnGap (gm_symbol m) (gs_epoch s) (gs_next s)] else [])
           in if length h > gc_maxHeld cfg
              then let (d, n) = abandon_gap (gs_next s) h
                   in (fresh, report @ map Deliver d, s\<lparr>gs_next := n, gs_held := []\<rparr>)
              else (fresh, report, s)
      else (False, [], s))"

definition stream_report :: "gap_config \<Rightarrow> nat \<Rightarrow> bool \<Rightarrow> 'b gap_stream \<Rightarrow> 'b gap_event list \<times> 'b gap_stream" where
  "stream_report cfg symbol fresh s =
     (let s = s\<lparr>gs_gapOpen := gs_held s \<noteq> []\<rparr>
      in if gs_gapOpen s \<and> \<not> fresh
         then let s = s\<lparr>gs_sinceReport := Suc (gs_sinceReport s)\<rparr>
              in if gs_sinceReport s \<ge> gc_reraiseAfter cfg
                 then ([OnGap symbol (gs_epoch s) (gs_next s)], s\<lparr>gs_sinceReport := 0\<rparr>)
                 else ([], s)
         else ([], s))"

definition stream_observe :: "gap_config \<Rightarrow> 'b gap_msg \<Rightarrow> 'b gap_stream \<Rightarrow> 'b gap_event list \<times> 'b gap_stream" where
  "stream_observe cfg m s =
     (let (o1, s1) = stream_epoch m s;
          (fresh, o2, s2) = stream_accept cfg m s1;
          (o3, s3) = stream_report cfg (gm_symbol m) fresh s2
      in (o1 @ o2 @ o3, s3))"

type_synonym 'b gap_table = "(nat \<times> 'b gap_stream) list"

definition stream_at :: "'b gap_table \<Rightarrow> nat \<Rightarrow> 'b gap_stream" where
  "stream_at t symbol = (case map_of t symbol of None \<Rightarrow> new_stream | Some s \<Rightarrow> s)"

definition gap_observe :: "gap_config \<Rightarrow> 'b gap_msg \<Rightarrow> 'b gap_table \<Rightarrow> 'b gap_event list \<times> 'b gap_table" where
  "gap_observe cfg m t =
     (let (out, s) = stream_observe cfg m (stream_at t (gm_symbol m)) in (out, AList.update (gm_symbol m) s t))"

definition gap_reset :: "nat \<Rightarrow> nat \<Rightarrow> nat \<Rightarrow> bool \<Rightarrow> 'b gap_table \<Rightarrow> 'b gap_event list \<times> 'b gap_table" where
  "gap_reset symbol epoch nextSeq withDeliver t =
     (let s = stream_at t symbol;
          h = filter (\<lambda>(k, m). \<not> k < nextSeq) (gs_held s);
          (d, n, h) = (if withDeliver then drain_held nextSeq h else ([], nextSeq, h))
      in (map Deliver d, AList.update symbol (s\<lparr>gs_epoch := epoch, gs_epochSet := True, gs_next := n, gs_held := h,
            gs_gapOpen := h \<noteq> [], gs_sinceReport := 0\<rparr>) t))"

definition gap_expected :: "nat \<Rightarrow> 'b gap_table \<Rightarrow> nat" where
  "gap_expected symbol t = (case map_of t symbol of None \<Rightarrow> 1 | Some s \<Rightarrow> gs_next s)"

fun gap_run :: "gap_config \<Rightarrow> 'b gap_msg list \<Rightarrow> 'b gap_table \<Rightarrow> 'b gap_event list \<times> 'b gap_table" where
  "gap_run cfg [] t = ([], t)"
| "gap_run cfg (m # ms) t = (let r = gap_observe cfg m t; q = gap_run cfg ms (snd r) in (fst r @ fst q, snd q))"

subsection \<open>The held map\<close>

text \<open>Below the largest 64-bit number the increment is the successor.\<close>

definition seq_max :: nat where
  "seq_max = 2 ^ 64 - 1"

lemma bump_Suc [simp]: "n < seq_max \<Longrightarrow> bump n = Suc n"
  by (simp add: bump_def seq_max_def)

definition held_ok :: "nat \<Rightarrow> nat \<Rightarrow> nat \<Rightarrow> (nat \<times> 'b gap_msg) list \<Rightarrow> bool" where
  "held_ok a e n h \<longleftrightarrow> sorted_wrt (<) (map fst h)
     \<and> (\<forall>(k, m) \<in> set h. n < k \<and> k < seq_max \<and> gm_seq m = k \<and> gm_symbol m = a \<and> gm_epoch m = e)"

lemma emplace_keys: "fst ` set (snd (held_emplace k m h)) = insert k (fst ` set h)"
  by (induction k m h rule: held_emplace.induct) (auto simp: case_prod_unfold Let_def)

lemma emplace_set: "set (snd (held_emplace k m h)) \<subseteq> insert (k, m) (set h)"
  by (induction k m h rule: held_emplace.induct) (auto simp: case_prod_unfold Let_def)

lemma emplace_sorted: "sorted_wrt (<) (map fst h) \<Longrightarrow> sorted_wrt (<) (map fst (snd (held_emplace k m h)))"
proof (induction k m h rule: held_emplace.induct)
  case (2 k m j x h)
  then show ?case using emplace_keys [of k m h] by (auto simp: case_prod_unfold Let_def)
qed simp

lemma held_ok_emplace:
  "held_ok a e n h \<Longrightarrow> n < gm_seq m \<Longrightarrow> gm_seq m < seq_max \<Longrightarrow> gm_symbol m = a \<Longrightarrow> gm_epoch m = e \<Longrightarrow> held_ok a e n (snd (held_emplace (gm_seq m) m h))"
  using emplace_set [of "gm_seq m" m h] emplace_sorted [of h "gm_seq m" m] by (force simp: held_ok_def)

lemma held_ok_mono: "held_ok a e n h \<Longrightarrow> k \<le> n \<Longrightarrow> held_ok a e k h"
  by (fastforce simp: held_ok_def)

lemma held_ok_Cons: "held_ok a e n ((k, m) # h) \<Longrightarrow> held_ok a e k h \<and> n < k \<and> k < seq_max \<and> gm_seq m = k \<and> gm_symbol m = a \<and> gm_epoch m = e"
  by (auto simp: held_ok_def)

text \<open>Draining hands out the consecutive run at the front, and what stays is beyond the next number.\<close>

lemma drain_spec:
  assumes "held_ok a e n h" "drain_held (Suc n) h = (d, j, r)"
  shows "h = map (\<lambda>m. (gm_seq m, m)) d @ r \<and> map gm_seq d = [Suc n..<j] \<and> n < j \<and> held_ok a e j r"
  using assms
proof (induction h arbitrary: n d)
  case (Cons x h)
  obtain k m where x: "x = (k, m)" by (cases x)
  note k = held_ok_Cons [OF Cons.prems(1) [unfolded x]]
  show ?case
  proof (cases "k = Suc n")
    case True
    obtain d1 where d: "drain_held (Suc k) h = (d1, j, r)" "d = m # d1"
      using Cons.prems(2) True k unfolding x by (cases "drain_held (Suc k) h") auto
    have h: "held_ok a e k h" using k by simp
    note Cons.IH [OF h d(1)]
    then show ?thesis using True k d(2) x by (auto simp: upt_conv_Cons)
  next
    case False
    then have "d = []" "j = Suc n" "r = (k, m) # h" using Cons.prems(2) unfolding x by simp_all
    moreover have "held_ok a e (Suc n) ((k, m) # h)" using Cons.prems(1) False unfolding x by (fastforce simp: held_ok_def)
    ultimately show ?thesis by (simp add: x)
  qed
qed (auto simp: held_ok_def)

lemma drain_keeps: "map snd h = fst (drain_held n h) @ map snd (snd (snd (drain_held n h)))"
  by (induction n h rule: drain_held.induct) (auto simp: case_prod_unfold Let_def)

lemma abandon_all: "fst (abandon_gap n h) = map snd h"
proof (induction n h rule: abandon_gap.induct)
  case (2 n k m h)
  then show ?case using drain_keeps [of "(k, m) # h" k] by (simp only: abandon_gap.simps Let_def fst_conv)
qed simp

lemma abandon_next:
  assumes "held_ok a e n h"
  shows "snd (abandon_gap j h) = (if h = [] then j else Suc (fst (last h)))"
  using assms
proof (induction j h arbitrary: n rule: abandon_gap.induct)
  case (2 j k m h)
  obtain d i r where d: "drain_held (Suc k) h = (d, i, r)" by (cases "drain_held (Suc k) h")
  have h: "held_ok a e k h" using held_ok_Cons [OF "2.prems"] by simp
  note sp = drain_spec [OF h d]
  have r: "drain_held k ((k, m) # h) = (m # d, i, r)" using d held_ok_Cons [OF "2.prems"] by simp
  have "snd (abandon_gap i r) = (if r = [] then i else Suc (fst (last r)))"
    using "2.IH" [OF refl] sp unfolding r by auto
  then have "snd (abandon_gap j ((k, m) # h)) = (if r = [] then i else Suc (fst (last r)))" using r by simp
  moreover have "Suc (fst (last ((k, m) # h))) = i" if "r = []"
  proof (cases "d = []")
    case True
    then have "length [Suc k..<i] = 0" using sp by (metis list.map_disc_iff list.size(3))
    then have "i \<le> Suc k" by simp
    then show ?thesis using True sp that by simp
  next
    case False
    then have "gm_seq (last d) = last [Suc k..<i]" using sp by (metis last_map)
    moreover have "Suc k < i" using False sp by (metis map_is_Nil_conv upt_rec)
    ultimately show ?thesis using False sp that by (auto simp: last_map)
  qed
  moreover have "last ((k, m) # h) = last r" if "r \<noteq> []" using sp that by simp
  ultimately show ?case by auto
qed simp

subsection \<open>Streams\<close>

definition stream_ok :: "nat \<Rightarrow> 'b gap_stream \<Rightarrow> bool" where
  "stream_ok a s \<longleftrightarrow> held_ok a (gs_epoch s) (gs_next s) (gs_held s) \<and> (\<not> gs_epochSet s \<longrightarrow> gs_held s = [] \<and> gs_next s = 1)"

lemma stream_ok_new: "stream_ok a new_stream"
  by (simp add: stream_ok_def new_stream_def held_ok_def)

text \<open>
  The order a consumer sees: a delivery is not below the number \<open>n\<close> that is due, and moves it
  past itself; a change of epoch starts again at 1. The result is the number due at the end.
\<close>

fun follows :: "nat \<Rightarrow> 'b gap_event list \<Rightarrow> nat option" where
  "follows n [] = Some n"
| "follows n (Deliver m # es) = (if n \<le> gm_seq m then follows (Suc (gm_seq m)) es else None)"
| "follows n (OnGap _ _ _ # es) = follows n es"
| "follows n (OnEpoch _ _ _ # es) = follows 1 es"

lemma follows_append: "follows n (xs @ ys) = Option.bind (follows n xs) (\<lambda>k. follows k ys)"
  by (induction n xs rule: follows.induct) auto

lemma follows_run: "map gm_seq d = [n..<j] \<Longrightarrow> n \<le> j \<Longrightarrow> follows n (map Deliver d) = Some j"
proof (induction d arbitrary: n)
  case Nil
  then have "[n..<j] = []" by (metis list.simps(8))
  then show ?case using Nil.prems(2) by auto
next
  case (Cons m d)
  then have "n < j" by (metis list.discI list.map_disc_iff upt_rec)
  then have "gm_seq m = n" "map gm_seq d = [Suc n..<j]" using Cons.prems(1) by (simp_all add: upt_conv_Cons)
  then show ?case using Cons.IH \<open>n < j\<close> by simp
qed

lemma follows_held:
  assumes "held_ok a e n h"
  shows "follows n (map Deliver (map snd h)) = Some (if h = [] then n else Suc (fst (last h)))"
  using assms
proof (induction h arbitrary: n)
  case (Cons x h)
  obtain k m where x: "x = (k, m)" by (cases x)
  note k = held_ok_Cons [OF Cons.prems [unfolded x]]
  then have "held_ok a e k h" by simp
  then have "follows (Suc k) (map Deliver (map snd h)) = Some (if h = [] then Suc k else Suc (fst (last h)))"
  proof (cases h)
    case (Cons y h2)
    obtain j m2 where y: "y = (j, m2)" by (cases y)
    have "Suc k \<le> j" "gm_seq m2 = j" using held_ok_Cons [of a e k j m2 h2] \<open>held_ok a e k h\<close> Cons y by auto
    then show ?thesis using Cons.IH [OF \<open>held_ok a e k h\<close>] Cons y by simp
  qed simp
  then show ?case using k x by simp
qed simp

lemma stream_epoch_ok:
  assumes "stream_ok a s" "gm_symbol m = a" "stream_epoch m s = (es, s1)"
  shows "stream_ok a s1 \<and> gs_epochSet s1 \<and> gs_epoch s1 = gm_epoch m \<and> follows (gs_next s) es = Some (gs_next s1)"
  using assms by (auto simp: stream_epoch_def stream_ok_def new_stream_def held_ok_def split: if_splits)

lemma stream_accept_ok:
  assumes "stream_ok a s" "gs_epochSet s" "gs_epoch s = gm_epoch m" "gm_symbol m = a" "gm_seq m < seq_max" "stream_accept cfg m s = (fresh, es, s1)"
  shows "stream_ok a s1 \<and> follows (gs_next s) es = Some (gs_next s1) \<and> gs_epochSet s1 \<and> gs_epoch s1 = gs_epoch s"
proof -
  have h: "held_ok a (gs_epoch s) (gs_next s) (gs_held s)" using assms(1) by (simp add: stream_ok_def)
  consider "gm_seq m = gs_next s" | "gm_seq m > gs_next s" | "gm_seq m < gs_next s" by linarith
  then show ?thesis
  proof cases
    case 1
    obtain d j r where d: "drain_held (Suc (gs_next s)) (gs_held s) = (d, j, r)" by (cases "drain_held (Suc (gs_next s)) (gs_held s)")
    note sp = drain_spec [OF h d]
    then have "follows (Suc (gs_next s)) (map Deliver d) = Some j" by (intro follows_run) auto
    then show ?thesis using assms 1 d sp by (auto simp: stream_accept_def stream_ok_def)
  next
    case 2
    define h1 where "h1 = snd (held_emplace (gm_seq m) m (gs_held s))"
    have h1: "held_ok a (gs_epoch s) (gs_next s) h1" unfolding h1_def using held_ok_emplace [OF h 2 assms(5)] assms(3,4) by simp
    have ne: "h1 \<noteq> []" using emplace_keys [of "gm_seq m" m "gs_held s"] unfolding h1_def by auto
    have "follows (gs_next s) (map Deliver (map snd h1)) = Some (Suc (fst (last h1)))" using follows_held [OF h1] ne by simp
    moreover have "abandon_gap (gs_next s) h1 = (map snd h1, Suc (fst (last h1)))"
      using abandon_all [of "gs_next s" h1] abandon_next [OF h1, of "gs_next s"] ne by (simp add: prod_eq_iff)
    moreover obtain held where "held_emplace (gm_seq m) m (gs_held s) = (held, h1)" unfolding h1_def by (cases "held_emplace (gm_seq m) m (gs_held s)") simp
    ultimately show ?thesis using assms 2 h1
      by (auto simp: stream_accept_def Let_def stream_ok_def held_ok_def simp del: map_map split: if_splits)
  next
    case 3
    then show ?thesis using assms by (auto simp: stream_accept_def)
  qed
qed

lemma stream_report_ok:
  assumes "stream_ok a s" "stream_report cfg y fresh s = (es, s1)"
  shows "stream_ok a s1 \<and> follows n es = Some n \<and> gs_next s1 = gs_next s \<and> gs_held s1 = gs_held s \<and> gs_epoch s1 = gs_epoch s
    \<and> gs_epochSet s1 = gs_epochSet s"
  using assms by (auto simp: stream_report_def Let_def stream_ok_def split: if_splits)

lemma stream_observe_ok:
  assumes "stream_ok a s" "gm_symbol m = a" "gm_seq m < seq_max"
  shows "stream_ok a (snd (stream_observe cfg m s))
    \<and> follows (gs_next s) (fst (stream_observe cfg m s)) = Some (gs_next (snd (stream_observe cfg m s)))"
proof -
  obtain e1 s1 where 1: "stream_epoch m s = (e1, s1)" by (cases "stream_epoch m s")
  obtain f e2 s2 where 2: "stream_accept cfg m s1 = (f, e2, s2)" by (cases "stream_accept cfg m s1")
  obtain e3 s3 where 3: "stream_report cfg (gm_symbol m) f s2 = (e3, s3)" by (cases "stream_report cfg (gm_symbol m) f s2")
  note a = stream_epoch_ok [OF assms(1,2) 1]
  then have b: "stream_ok a s2 \<and> follows (gs_next s1) e2 = Some (gs_next s2)" using stream_accept_ok [OF _ _ _ assms(2,3) 2] by simp
  then have "stream_ok a s3 \<and> follows (gs_next s2) e3 = Some (gs_next s2) \<and> gs_next s3 = gs_next s2"
    using stream_report_ok [OF _ 3, of a "gs_next s2"] by simp
  then show ?thesis using a b 1 2 3 by (simp add: stream_observe_def follows_append)
qed

subsection \<open>Demultiplexing\<close>

fun event_symbol :: "'b gap_event \<Rightarrow> nat" where
  "event_symbol (Deliver m) = gm_symbol m"
| "event_symbol (OnGap a e n) = a"
| "event_symbol (OnEpoch a e f) = a"

fun stream_run :: "gap_config \<Rightarrow> 'b gap_msg list \<Rightarrow> 'b gap_stream \<Rightarrow> 'b gap_event list \<times> 'b gap_stream" where
  "stream_run cfg [] s = ([], s)"
| "stream_run cfg (m # ms) s = (let r = stream_observe cfg m s; q = stream_run cfg ms (snd r) in (fst r @ fst q, snd q))"

lemma drain_subset: "set (fst (drain_held n h)) \<subseteq> snd ` set h" "set (snd (snd (drain_held n h))) \<subseteq> set h"
  by (induction n h rule: drain_held.induct) (auto simp: case_prod_unfold Let_def)

lemma accept_events:
  assumes "stream_accept cfg m s = (f, es, s1)"
  shows "set es \<subseteq> Deliver ` insert m (snd ` set (gs_held s)) \<union> {OnGap (gm_symbol m) (gs_epoch s) (gs_next s)}
    \<and> snd ` set (gs_held s1) \<subseteq> insert m (snd ` set (gs_held s))"
proof (cases "gs_next s < gm_seq m")
  case True
  obtain b h where h: "held_emplace (gm_seq m) m (gs_held s) = (b, h)" by (cases "held_emplace (gm_seq m) m (gs_held s)")
  have s: "snd ` set h \<subseteq> insert m (snd ` set (gs_held s))" using emplace_set [of "gm_seq m" m "gs_held s"] h by auto
  obtain n where "abandon_gap (gs_next s) h = (map snd h, n)" using abandon_all [of "gs_next s" h] by (cases "abandon_gap (gs_next s) h") simp
  then have e: "set es \<subseteq> Deliver ` snd ` set h \<union> {OnGap (gm_symbol m) (gs_epoch s) (gs_next s)}" "gs_held s1 \<in> {h, []}"
    using assms True h by (auto simp: stream_accept_def Let_def image_image split: if_splits)
  have "Deliver ` snd ` set h \<subseteq> Deliver ` insert m (snd ` set (gs_held s))" using s by (rule image_mono)
  with e(1) have "set es \<subseteq> Deliver ` insert m (snd ` set (gs_held s)) \<union> {OnGap (gm_symbol m) (gs_epoch s) (gs_next s)}" by blast
  then show ?thesis using s e(2) by auto
next
  case False
  obtain d n h where d: "drain_held (bump (gs_next s)) (gs_held s) = (d, n, h)" by (cases "drain_held (bump (gs_next s)) (gs_held s)")
  then have "set d \<subseteq> snd ` set (gs_held s)" "set h \<subseteq> set (gs_held s)" using drain_subset [of "bump (gs_next s)" "gs_held s"] by simp_all
  then show ?thesis using assms False d by (force simp: stream_accept_def split: if_splits)
qed

text \<open>Whatever the numbers, a stream holds only messages of its symbol and reports only about it.\<close>

definition holds_only :: "nat \<Rightarrow> 'b gap_stream \<Rightarrow> bool" where
  "holds_only a s \<longleftrightarrow> (\<forall>x \<in> snd ` set (gs_held s). gm_symbol x = a)"

lemma stream_events_symbol:
  assumes "holds_only a s" "gm_symbol m = a"
  shows "holds_only a (snd (stream_observe cfg m s)) \<and> (\<forall>e \<in> set (fst (stream_observe cfg m s)). event_symbol e = a)"
proof -
  obtain e1 s1 where 1: "stream_epoch m s = (e1, s1)" by (cases "stream_epoch m s")
  obtain f e2 s2 where 2: "stream_accept cfg m s1 = (f, e2, s2)" by (cases "stream_accept cfg m s1")
  obtain e3 s3 where 3: "stream_report cfg (gm_symbol m) f s2 = (e3, s3)" by (cases "stream_report cfg (gm_symbol m) f s2")
  have sy: "\<forall>x \<in> snd ` set (gs_held s1). gm_symbol x = a"
    using 1 assms(1) by (auto simp: stream_epoch_def new_stream_def holds_only_def split: if_splits)
  have "\<forall>e \<in> set e1. event_symbol e = a" using 1 assms(2) by (auto simp: stream_epoch_def split: if_splits)
  moreover have "\<forall>e \<in> set e2. event_symbol e = a" using accept_events [OF 2] sy assms(2) by fastforce
  moreover have "\<forall>e \<in> set e3. event_symbol e = a" "gs_held s3 = gs_held s2"
    using 3 assms(2) by (auto simp: stream_report_def Let_def split: if_splits)
  moreover have "\<forall>x \<in> snd ` set (gs_held s2). gm_symbol x = a" using accept_events [OF 2] sy assms(2) by blast
  ultimately show ?thesis using 1 2 3 by (auto simp: stream_observe_def holds_only_def)
qed

lemma stream_at_observe:
  "stream_at (snd (gap_observe cfg m t)) a = (if gm_symbol m = a then snd (stream_observe cfg m (stream_at t a)) else stream_at t a)"
  by (simp add: gap_observe_def case_prod_unfold Let_def stream_at_def update_conv')

lemma fst_observe: "fst (gap_observe cfg m t) = fst (stream_observe cfg m (stream_at t (gm_symbol m)))"
  by (simp add: gap_observe_def case_prod_unfold Let_def)

lemma demultiplex:
  assumes "\<forall>a. holds_only a (stream_at t a)"
  shows "filter (\<lambda>e. event_symbol e = a) (fst (gap_run cfg ms t)) = fst (stream_run cfg (filter (\<lambda>m. gm_symbol m = a) ms) (stream_at t a))
    \<and> stream_at (snd (gap_run cfg ms t)) a = snd (stream_run cfg (filter (\<lambda>m. gm_symbol m = a) ms) (stream_at t a))"
  using assms
proof (induction ms arbitrary: t)
  case (Cons m ms)
  let ?t = "snd (gap_observe cfg m t)"
  have ok: "\<forall>b. holds_only b (stream_at ?t b)" 
    unfolding stream_at_observe using Cons.prems stream_events_symbol by (simp split: if_splits) blast
  note IH = Cons.IH [OF ok]
  have "\<forall>e \<in> set (fst (gap_observe cfg m t)). event_symbol e = gm_symbol m"
    unfolding fst_observe using Cons.prems stream_events_symbol by blast
  then have "filter (\<lambda>e. event_symbol e = a) (fst (gap_observe cfg m t)) =
      (if gm_symbol m = a then fst (stream_observe cfg m (stream_at t a)) else [])"
    unfolding fst_observe by (auto simp: filter_id_conv filter_empty_conv)
  then show ?case using IH by (simp add: Let_def stream_at_observe)
qed simp

lemma stream_at_Nil: "stream_at [] a = new_stream"
  by (simp add: stream_at_def)

lemma holds_only_start: "\<forall>a. holds_only a (stream_at [] a)"
  by (simp add: stream_at_Nil holds_only_def new_stream_def)

lemma expected_at: "gap_expected a t = gs_next (stream_at t a)"
  by (simp add: gap_expected_def stream_at_def new_stream_def split: option.split)

lemma stream_run_ok:
  "stream_ok a s \<Longrightarrow> \<forall>m \<in> set ms. gm_symbol m = a \<and> gm_seq m < seq_max \<Longrightarrow>
   stream_ok a (snd (stream_run cfg ms s)) \<and> follows (gs_next s) (fst (stream_run cfg ms s)) = Some (gs_next (snd (stream_run cfg ms s)))"
proof (induction ms arbitrary: s)
  case (Cons m ms)
  have "gm_symbol m = a" "gm_seq m < seq_max" using Cons.prems by simp_all
  note o = stream_observe_ok [OF Cons.prems(1) this, of cfg]
  have "\<forall>m \<in> set ms. gm_symbol m = a \<and> gm_seq m < seq_max" using Cons.prems by simp
  with Cons.IH o have "stream_ok a (snd (stream_run cfg ms (snd (stream_observe cfg m s))))
    \<and> follows (gs_next (snd (stream_observe cfg m s))) (fst (stream_run cfg ms (snd (stream_observe cfg m s))))
      = Some (gs_next (snd (stream_run cfg ms (snd (stream_observe cfg m s)))))" by blast
  then show ?case using o by (simp add: Let_def follows_append)
qed simp

text \<open>
  C34. The feed a consumer sees is in order: whatever datagrams arrive, of any symbols, reordered,
  duplicated, gapped or from restarted publishers, as long as those of a symbol carry sequence numbers
  below the largest 64-bit number, the deliveries of the symbol have strictly increasing sequence numbers
  from 1 within every epoch, no number twice, and the number the detector says it expects is the one
  after the last delivery. (The next number wraps past the largest one: \<open>gap_top_number_wraps\<close>.)
\<close>

theorem gap_delivers_in_order:
  assumes "\<forall>m \<in> set ms. gm_symbol m = a \<longrightarrow> gm_seq m < 2 ^ 64 - 1"
  shows "follows 1 (filter (\<lambda>e. event_symbol e = a) (fst (gap_run cfg ms []))) = Some (gap_expected a (snd (gap_run cfg ms [])))"
proof -
  let ?ms = "filter (\<lambda>m. gm_symbol m = a) ms"
  have "\<forall>m \<in> set ?ms. gm_symbol m = a \<and> gm_seq m < seq_max" using assms by (simp add: seq_max_def)
  note r = stream_run_ok [OF stream_ok_new this, of cfg]
  then have "follows (gs_next (new_stream :: 'a gap_stream)) (fst (stream_run cfg ?ms new_stream)) = Some (gs_next (snd (stream_run cfg ?ms new_stream)))" by blast
  moreover have "gs_next (new_stream :: 'a gap_stream) = 1" by (simp add: new_stream_def)
  ultimately show ?thesis using demultiplex [OF holds_only_start, of a cfg ms] unfolding stream_at_Nil expected_at by simp
qed

definition md_demo :: "nat \<Rightarrow> nat \<Rightarrow> nat gap_msg" where
  "md_demo a k = \<lparr>gm_symbol = a, gm_epoch = 5, gm_seq = k, gm_body = 10 * k\<rparr>"

theorem gap_delivers_in_order_witness:
  "follows 1 (filter (\<lambda>e. event_symbol e = 1) (fst (gap_run \<lparr>gc_reraiseAfter = 2, gc_maxHeld = 1\<rparr> [md_demo 1 3, md_demo 2 1, md_demo 1 5, md_demo 1 2] [])))
    = Some (gap_expected 1 (snd (gap_run \<lparr>gc_reraiseAfter = 2, gc_maxHeld = 1\<rparr> [md_demo 1 3, md_demo 2 1, md_demo 1 5, md_demo 1 2] [])))"
  by (rule gap_delivers_in_order) (simp add: md_demo_def)

text \<open>Streams of symbol 1 in the demonstration epoch, and one command on a table that holds only that symbol.\<close>

definition demo_stream :: "nat \<Rightarrow> (nat \<times> nat gap_msg) list \<Rightarrow> bool \<Rightarrow> nat gap_stream" where
  "demo_stream n h g = \<lparr>gs_epoch = 5, gs_epochSet = True, gs_next = n, gs_held = h, gs_gapOpen = g, gs_sinceReport = 0\<rparr>"

lemmas demo_step_defs = stream_observe_def stream_epoch_def stream_accept_def stream_report_def md_demo_def demo_stream_def new_stream_def

lemma demo_observe_first:
  "stream_observe cfg (md_demo 1 1) new_stream = ([Deliver (md_demo 1 1)], demo_stream 2 [] False)"
  by (simp add: demo_step_defs bump_def del: bump_Suc)

lemma demo_observe_ahead:
  "2 < k \<Longrightarrow> 0 < gc_maxHeld cfg \<Longrightarrow> stream_observe cfg (md_demo 1 k) (demo_stream 2 [] False) = ([OnGap 1 5 2], demo_stream 2 [(k, md_demo 1 k)] True)"
  by (simp add: demo_step_defs)

lemma demo_run:
  "gap_run cfg [] t = ([], t)"
  "stream_observe cfg (md_demo 1 k) new_stream = (out, s) \<Longrightarrow> gap_run cfg (md_demo 1 k # ms) [] = (out @ fst (gap_run cfg ms [(1, s)]), snd (gap_run cfg ms [(1, s)]))"
  "stream_observe cfg (md_demo 1 k) s0 = (out, s) \<Longrightarrow> gap_run cfg (md_demo 1 k # ms) [(1, s0)] = (out @ fst (gap_run cfg ms [(1, s)]), snd (gap_run cfg ms [(1, s)]))"
  by (simp_all add: gap_observe_def stream_at_def Let_def) (simp_all add: md_demo_def)

text \<open>
  Where the condition fails the order does: a held message with the largest number, given out when the
  capacity is exceeded, makes the next number wrap to 0, and the numbers of the same epoch are delivered again.
\<close>

theorem gap_top_number_wraps:
  "fst (gap_run \<lparr>gc_reraiseAfter = 16, gc_maxHeld = 1\<rparr> [md_demo 1 1, md_demo 1 7, md_demo 1 (2 ^ 64 - 1), md_demo 1 0, md_demo 1 1] [])
    = [Deliver (md_demo 1 1), OnGap 1 5 2, Deliver (md_demo 1 7), Deliver (md_demo 1 (2 ^ 64 - 1)), Deliver (md_demo 1 0), Deliver (md_demo 1 1)]"
proof -
  define cfg where "cfg = \<lparr>gc_reraiseAfter = 16, gc_maxHeld = 1\<rparr>"
  have 2: "stream_observe cfg (md_demo 1 7) (demo_stream 2 [] False) = ([OnGap 1 5 2], demo_stream 2 [(7, md_demo 1 7)] True)"
    by (rule demo_observe_ahead) (simp_all add: cfg_def)
  have a: "abandon_gap 2 [(7, md_demo 1 7), (2 ^ 64 - 1, md_demo 1 (2 ^ 64 - 1))] = ([md_demo 1 7, md_demo 1 (2 ^ 64 - 1)], 0)"
    by (simp add: bump_def del: bump_Suc)
  have 3: "stream_observe cfg (md_demo 1 (2 ^ 64 - 1)) (demo_stream 2 [(7, md_demo 1 7)] True) = ([Deliver (md_demo 1 7), Deliver (md_demo 1 (2 ^ 64 - 1))], demo_stream 0 [] False)"
    using a by (simp add: demo_step_defs cfg_def del: abandon_gap.simps)
  have 4: "stream_observe cfg (md_demo 1 0) (demo_stream 0 [] False) = ([Deliver (md_demo 1 0)], demo_stream 1 [] False)"
    "stream_observe cfg (md_demo 1 1) (demo_stream 1 [] False) = ([Deliver (md_demo 1 1)], demo_stream 2 [] False)"
    by (simp_all add: demo_step_defs bump_def del: bump_Suc)
  show ?thesis unfolding cfg_def [symmetric]
    demo_run(2) [OF demo_observe_first] demo_run(3) [OF 2] demo_run(3) [OF 3] demo_run(3) [OF 4(1)] demo_run(3) [OF 4(2)] demo_run(1) by simp
qed

subsection \<open>Recovery of a gap\<close>

fun deliveries :: "'b gap_event list \<Rightarrow> 'b gap_msg list" where
  "deliveries [] = []"
| "deliveries (Deliver m # es) = m # deliveries es"
| "deliveries (OnGap _ _ _ # es) = deliveries es"
| "deliveries (OnEpoch _ _ _ # es) = deliveries es"

lemma deliveries_append [simp]: "deliveries (xs @ ys) = deliveries xs @ deliveries ys"
  by (induction xs rule: deliveries.induct) simp_all

lemma deliveries_map [simp]: "deliveries (map Deliver d) = d"
  by (induction d) simp_all

lemma report_silent: "deliveries (fst (stream_report cfg y f s)) = []"
  by (simp add: stream_report_def Let_def)

text \<open>
  A stream that has seen the numbers \<open>R\<close> of one epoch: everything below the next number has been
  delivered, and what it holds is exactly what it has seen beyond it.
\<close>

definition caught :: "nat \<Rightarrow> nat \<Rightarrow> nat set \<Rightarrow> 'b gap_stream \<Rightarrow> bool" where
  "caught a e R s \<longleftrightarrow> stream_ok a s \<and> (gs_epochSet s \<longrightarrow> gs_epoch s = e) \<and> 1 \<le> gs_next s \<and> {1..<gs_next s} \<subseteq> R \<and> gs_next s \<notin> R
     \<and> fst ` set (gs_held s) = {k \<in> R. gs_next s < k}"

lemma caught_new: "caught a e {} new_stream"
  by (simp add: caught_def stream_ok_new) (simp add: new_stream_def)

lemma caught_report:
  assumes "caught a e R s"
  shows "caught a e R (snd (stream_report cfg y f s)) \<and> gs_next (snd (stream_report cfg y f s)) = gs_next s"
proof -
  obtain es s1 where r: "stream_report cfg y f s = (es, s1)" by (cases "stream_report cfg y f s")
  have "stream_ok a s" using assms by (simp add: caught_def)
  from stream_report_ok [OF this r, of 0] show ?thesis using assms by (simp add: r caught_def)
qed

lemma caught_epoch:
  assumes "caught a e R s" "gm_symbol m = a" "gm_epoch m = e"
  shows "fst (stream_epoch m s) = [] \<and> caught a e R (snd (stream_epoch m s)) \<and> gs_epochSet (snd (stream_epoch m s))
    \<and> gs_next (snd (stream_epoch m s)) = gs_next s"
  using assms by (auto simp: stream_epoch_def caught_def stream_ok_def held_ok_def)

lemma run_absorbed:
  fixes n :: nat
  assumes "{k \<in> R. n < k} = {n<..<j} \<union> K" "\<forall>k \<in> K. j < k" "{1..<n} \<subseteq> R" "n \<notin> R" "n < j"
  shows "{1..<j} \<subseteq> insert n R" "j \<notin> insert n R" "K = {k \<in> insert n R. j < k}"
proof -
  have *: "x \<in> R \<longleftrightarrow> (x < j \<or> x \<in> K)" if "n < x" for x
    using eqset_imp_iff [OF assms(1), of x] that by simp
  show "j \<notin> insert n R" using * [of j] assms(2,5) by auto
  show "{1..<j} \<subseteq> insert n R"
  proof
    fix x
    assume x: "x \<in> {1..<j}"
    consider "x < n" | "x = n" | "n < x" by linarith
    then show "x \<in> insert n R"
    proof cases
      case 1
      then have "x \<in> {1..<n}" using x by simp
      then show ?thesis using assms(3) by blast
    qed (use x * in auto)
  qed
  show "K = {k \<in> insert n R. j < k}"
  proof (intro equalityI subsetI)
    fix k
    assume "k \<in> K"
    then have "j < k" using assms(2) by blast
    then show "k \<in> {k \<in> insert n R. j < k}" using * [of k] \<open>k \<in> K\<close> assms(5) by simp
  next
    fix k
    assume "k \<in> {k \<in> insert n R. j < k}"
    then have "j < k" "k \<in> R" using assms(5) by auto
    then show "k \<in> K" using * [of k] assms(5) by simp
  qed
qed

lemma caught_accept:
  assumes "caught a e R s" "gs_epochSet s" "gm_symbol m = a" "gm_epoch m = e" "1 \<le> gm_seq m" "gm_seq m \<le> N" "R \<subseteq> {1..N}" "N \<le> gc_maxHeld cfg" "N < seq_max"
    and "stream_accept cfg m s = (f, es, s1)"
  shows "caught a e (insert (gm_seq m) R) s1 \<and> map gm_seq (deliveries es) = [gs_next s..<gs_next s1] \<and> gs_next s \<le> gs_next s1"
proof -
  have c: "stream_ok a s" "gs_epoch s = e" "{1..<gs_next s} \<subseteq> R" "gs_next s \<notin> R" "fst ` set (gs_held s) = {k \<in> R. gs_next s < k}" "1 \<le> gs_next s"
    using assms(1,2) by (auto simp: caught_def)
  have h: "held_ok a e (gs_next s) (gs_held s)" using c(1,2) by (auto simp: stream_ok_def)
  have top: "gm_seq m < seq_max" using assms(6,9) by simp
  have ok: "stream_ok a s1" "gs_epochSet s1" "gs_epoch s1 = e" using stream_accept_ok [OF c(1) assms(2) _ assms(3) top assms(10)] c(2) assms(4) by auto
  consider "gm_seq m = gs_next s" | "gm_seq m > gs_next s" | "gm_seq m < gs_next s" by linarith
  then show ?thesis
  proof cases
    case 1
    obtain d j r where d: "drain_held (Suc (gs_next s)) (gs_held s) = (d, j, r)" by (cases "drain_held (Suc (gs_next s)) (gs_held s)")
    note sp = drain_spec [OF h d]
    have e: "es = map Deliver (m # d)" "s1 = s\<lparr>gs_next := j, gs_held := r\<rparr>" using assms(10) 1 d top by (auto simp: stream_accept_def)
    have "{k \<in> R. gs_next s < k} = gm_seq ` set d \<union> fst ` set r" using c(5) sp by (simp add: image_Un image_image)
    moreover have "gm_seq ` set d = {gs_next s <..< j}" using sp by (metis atLeastSucLessThan_greaterThanLessThan set_map set_upt)
    moreover have "\<forall>k \<in> fst ` set r. j < k" using sp by (auto simp: held_ok_def)
    ultimately have a: "{k \<in> R. gs_next s < k} = {gs_next s <..< j} \<union> fst ` set r" "\<forall>k \<in> fst ` set r. j < k" by simp_all
    have "gs_next s < j" using sp by simp
    note run_absorbed [OF a c(3,4) this]
    then show ?thesis using ok sp 1 c(6) e by (auto simp: caught_def upt_conv_Cons simp del: upt_Suc)
  next
    case 2
    obtain b h1 where h1: "held_emplace (gm_seq m) m (gs_held s) = (b, h1)" by (cases "held_emplace (gm_seq m) m (gs_held s)")
    have k: "fst ` set h1 = insert (gm_seq m) {k \<in> R. gs_next s < k}" using emplace_keys [of "gm_seq m" m "gs_held s"] h1 c(5) by simp
    have "distinct (map fst h1)" using held_ok_emplace [OF h 2 top assms(3,4)] h1 by (auto simp: held_ok_def strict_sorted_iff)
    then have "length h1 = card (fst ` set h1)" by (metis distinct_card length_map set_map)
    also have "\<dots> \<le> card {1..N}" by (rule card_mono) (use k assms(5-7) in auto)
    finally have "\<not> length h1 > gc_maxHeld cfg" using assms(8) by simp
    then have "deliveries es = []" "gs_next s1 = gs_next s" "gs_held s1 = h1"
      using assms(10) 2 h1 by (auto simp: stream_accept_def Let_def split: if_splits)
    then show ?thesis using ok c k 2 by (auto simp: caught_def)
  next
    case 3
    then have "gm_seq m \<in> R" using c(3) assms(5) by auto
    then show ?thesis using assms(1,10) 3 by (auto simp: stream_accept_def insert_absorb)
  qed
qed

lemma caught_observe:
  assumes "caught a e R s" "gm_symbol m = a" "gm_epoch m = e" "1 \<le> gm_seq m" "gm_seq m \<le> N" "R \<subseteq> {1..N}" "N \<le> gc_maxHeld cfg" "N < seq_max"
  shows "caught a e (insert (gm_seq m) R) (snd (stream_observe cfg m s))
    \<and> map gm_seq (deliveries (fst (stream_observe cfg m s))) = [gs_next s..<gs_next (snd (stream_observe cfg m s))]
    \<and> gs_next s \<le> gs_next (snd (stream_observe cfg m s))"
proof -
  obtain e1 s1 where 1: "stream_epoch m s = (e1, s1)" by (cases "stream_epoch m s")
  obtain f e2 s2 where 2: "stream_accept cfg m s1 = (f, e2, s2)" by (cases "stream_accept cfg m s1")
  have a: "e1 = []" "caught a e R s1" "gs_epochSet s1" "gs_next s1 = gs_next s" using caught_epoch [OF assms(1-3)] 1 by simp_all
  note b = caught_accept [OF a(2,3) assms(2-8) 2]
  then have "caught a e (insert (gm_seq m) R) s2" by simp
  note r = caught_report [OF this, of cfg "gm_symbol m" f]
  show ?thesis using a b r report_silent [of cfg "gm_symbol m" f s2] 1 2
    by (simp add: stream_observe_def case_prod_unfold Let_def)
qed

lemma upt_join: "i \<le> j \<Longrightarrow> j \<le> k \<Longrightarrow> [i..<j] @ [j..<k] = [i..<k]"
  by (metis le_add_diff_inverse upt_add_eq_append)

lemma caught_run:
  assumes "caught a e R s" "R \<subseteq> {1..N}" "N \<le> gc_maxHeld cfg" "N < seq_max"
    and "\<forall>m \<in> set ms. gm_symbol m = a \<and> gm_epoch m = e \<and> gm_seq m \<in> {1..N}"
  shows "caught a e (gm_seq ` set ms \<union> R) (snd (stream_run cfg ms s))
    \<and> map gm_seq (deliveries (fst (stream_run cfg ms s))) = [gs_next s..<gs_next (snd (stream_run cfg ms s))]
    \<and> gs_next s \<le> gs_next (snd (stream_run cfg ms s))"
  using assms(1,2,5)
proof (induction ms arbitrary: R s)
  case (Cons m ms)
  let ?s = "snd (stream_observe cfg m s)" and ?R = "insert (gm_seq m) R"
  have m: "gm_symbol m = a" "gm_epoch m = e" "1 \<le> gm_seq m" "gm_seq m \<le> N" using Cons.prems(3) by auto
  note o = caught_observe [OF Cons.prems(1) m Cons.prems(2) assms(3,4)]
  have r: "?R \<subseteq> {1..N}" using Cons.prems(2) m by auto
  have "caught a e (gm_seq ` set ms \<union> ?R) (snd (stream_run cfg ms ?s))
    \<and> map gm_seq (deliveries (fst (stream_run cfg ms ?s))) = [gs_next ?s..<gs_next (snd (stream_run cfg ms ?s))]
    \<and> gs_next ?s \<le> gs_next (snd (stream_run cfg ms ?s))"
    by (rule Cons.IH [OF _ r]) (use o Cons.prems(3) in auto)
  then show ?case using o by (auto simp: Let_def upt_join)
qed simp

lemma stream_run_received:
  "set (deliveries (fst (stream_run cfg ms s))) \<subseteq> set ms \<union> snd ` set (gs_held s)"
proof (induction ms arbitrary: s)
  case (Cons m ms)
  obtain e1 s1 where 1: "stream_epoch m s = (e1, s1)" by (cases "stream_epoch m s")
  obtain f e2 s2 where 2: "stream_accept cfg m s1 = (f, e2, s2)" by (cases "stream_accept cfg m s1")
  have d: "x \<in> set (deliveries es) \<longleftrightarrow> Deliver x \<in> set es" for x and es :: "'a gap_event list"
    by (induction es rule: deliveries.induct) auto
  have h1: "snd ` set (gs_held s1) \<subseteq> snd ` set (gs_held s)" "set (deliveries e1) = {}"
    using 1 by (auto simp: stream_epoch_def new_stream_def split: if_splits)
  have h2: "set (deliveries e2) \<subseteq> insert m (snd ` set (gs_held s1))" "snd ` set (gs_held s2) \<subseteq> insert m (snd ` set (gs_held s1))"
    using accept_events [OF 2] by (auto simp: d)
  have "gs_held (snd (stream_observe cfg m s)) = gs_held s2" "deliveries (fst (stream_observe cfg m s)) = deliveries e1 @ deliveries e2"
    using 1 2 report_silent [of cfg "gm_symbol m" f s2] by (simp_all add: stream_observe_def case_prod_unfold stream_report_def Let_def)
  moreover have "set (deliveries (fst (stream_run cfg ms (snd (stream_observe cfg m s))))) \<subseteq> set ms \<union> snd ` set (gs_held (snd (stream_observe cfg m s)))"
    by (rule Cons.IH)
  moreover have "A \<subseteq> insert m H \<Longrightarrow> B \<subseteq> insert m H \<Longrightarrow> C \<subseteq> M \<union> B \<Longrightarrow> A \<union> C \<subseteq> insert m (M \<union> H)" for A B C M H by blast
  note this [OF order_trans [OF h2(1) insert_mono [OF h1(1)]] order_trans [OF h2(2) insert_mono [OF h1(1)]]]
  ultimately show ?case using h1(2) by (simp add: Let_def)
qed simp

lemma deliveries_filter: "deliveries (filter (\<lambda>e. event_symbol e = a) es) = filter (\<lambda>m. gm_symbol m = a) (deliveries es)"
  by (induction es rule: deliveries.induct) auto

text \<open>
  C33. No gap is for ever: when every number \<open>1..n\<close> of a symbol's epoch arrives at least once, in
  whatever order, with duplicates and interleaved with any traffic of other symbols, and \<open>n\<close> does
  not exceed the holding capacity (nor reach the largest 64-bit number), the consumer is given exactly the messages \<open>1..n\<close>, in order and
  each once, all of them received ones, and the detector expects \<open>n + 1\<close>.
\<close>

theorem gap_recovers:
  assumes "\<forall>m \<in> set ms. gm_symbol m = a \<longrightarrow> gm_epoch m = e \<and> gm_seq m \<in> {1..n}"
    and "\<forall>k \<in> {1..n}. \<exists>m \<in> set ms. gm_symbol m = a \<and> gm_seq m = k" and "n \<le> gc_maxHeld cfg" "n < 2 ^ 64 - 1"
  defines "out \<equiv> filter (\<lambda>m. gm_symbol m = a) (deliveries (fst (gap_run cfg ms [])))"
  shows "map gm_seq out = [1..<Suc n] \<and> set out \<subseteq> set ms \<and> gap_expected a (snd (gap_run cfg ms [])) = Suc n"
proof -
  let ?ms = "filter (\<lambda>m. gm_symbol m = a) ms" and ?new = "new_stream :: 'a gap_stream"
  note dm = demultiplex [OF holds_only_start, of a cfg ms, unfolded stream_at_Nil]
  let ?s = "snd (stream_run cfg ?ms ?new)"
  have o: "out = deliveries (fst (stream_run cfg ?ms ?new))" unfolding out_def using dm by (metis deliveries_filter)
  have "\<forall>m \<in> set ?ms. gm_symbol m = a \<and> gm_epoch m = e \<and> gm_seq m \<in> {1..n}" using assms(1) by auto
  note c = caught_run [OF caught_new _ assms(3) _ this]
  have "gm_seq ` set ?ms = {1..n}" using assms(1,2) by fastforce
  with c assms(4) have r: "caught a e {1..n} ?s" "map gm_seq out = [1..<gs_next ?s]" by (simp_all add: o new_stream_def seq_max_def)
  then have "1 \<le> gs_next ?s" "{1..<gs_next ?s} \<subseteq> {1..n}" "gs_next ?s \<notin> {1..n}" by (simp_all add: caught_def)
  moreover have "Suc n \<notin> {1..<gs_next ?s}" using calculation(2) by (metis atLeastAtMost_iff not_less_eq_eq order_refl subsetD)
  then have "gs_next ?s \<le> Suc n" by simp
  ultimately have "gs_next ?s = Suc n" by auto
  moreover have "set out \<subseteq> set ms" using stream_run_received [of cfg ?ms ?new] by (auto simp: o new_stream_def)
  ultimately show ?thesis using r(2) dm by (simp add: expected_at)
qed

theorem gap_recovers_witness:
  "map gm_seq (filter (\<lambda>m. gm_symbol m = 1) (deliveries (fst (gap_run \<lparr>gc_reraiseAfter = 2, gc_maxHeld = 8\<rparr>
     [md_demo 1 3, md_demo 2 1, md_demo 1 2, md_demo 1 3, md_demo 1 1, md_demo 2 5] [])))) = [1, 2, 3]"
proof -
  let ?ms = "[md_demo 1 3, md_demo 2 1, md_demo 1 2, md_demo 1 3, md_demo 1 1, md_demo 2 5]"
  have a: "\<forall>m \<in> set ?ms. gm_symbol m = 1 \<longrightarrow> gm_epoch m = 5 \<and> gm_seq m \<in> {1..3}" by (simp add: md_demo_def)
  have b: "\<forall>k \<in> {1..3}. \<exists>m \<in> set ?ms. gm_symbol m = 1 \<and> gm_seq m = k"
    by (simp add: md_demo_def) (simp add: Ball_def, presburger)
  have "[1..<Suc 3] = [1, 2, 3]" by (simp add: upt_rec)
  then show ?thesis using conjunct1 [OF gap_recovers [OF a b, of "\<lparr>gc_reraiseAfter = 2, gc_maxHeld = 8\<rparr>"]] by (simp del: gap_run.simps deliveries.simps filter.simps)
qed

text \<open>
  A reset to a snapshot of a new epoch keeps what was held of the old one: a stream that holds
  message 6 of epoch 5 and is reset to a snapshot of epoch 6 that covers up to 5 delivers the
  old epoch's message 6 as the first increment of the new book.
\<close>

theorem gap_reset_delivers_old_epoch:
  "fst (gap_reset 1 6 6 True (snd (gap_run \<lparr>gc_reraiseAfter = 16, gc_maxHeld = 1024\<rparr> [md_demo 1 1, md_demo 1 6] []))) = [Deliver (md_demo 1 6)]
    \<and> gm_epoch (md_demo 1 6) = 5"
proof -
  define cfg where "cfg = \<lparr>gc_reraiseAfter = 16, gc_maxHeld = 1024\<rparr>"
  have "stream_observe cfg (md_demo 1 6) (demo_stream 2 [] False) = ([OnGap 1 5 2], demo_stream 2 [(6, md_demo 1 6)] True)"
    by (rule demo_observe_ahead) (simp_all add: cfg_def)
  then have "snd (gap_run cfg [md_demo 1 1, md_demo 1 6] []) = [(1, demo_stream 2 [(6, md_demo 1 6)] True)]"
    unfolding demo_run(2) [OF demo_observe_first] by (simp only: demo_run snd_conv)
  then show ?thesis unfolding cfg_def [symmetric] by (simp add: gap_reset_def stream_at_def demo_stream_def bump_def md_demo_def del: bump_Suc)
qed

end
