(* ===== verification/DecimalText.thy ===== *)
theory DecimalText
  imports Prelude
begin

section \<open>Decimal text of fixed-point values\<close>

text \<open>
  \<^verbatim>\<open>include/flox/util/decimal_wire.h\<close> (parsing and minimal printing at the shared scale, used by
  every text protocol) and \<^verbatim>\<open>venue/include/flox-venue/fixed_point_text.h\<close> (full-width printing
  for the operator surfaces). A \<^verbatim>\<open>std::string\<close> is a \<open>string\<close>, a raw an \<open>int\<close>. The unsigned
  accumulators of the parser are natural numbers: its range check bounds the integral part by
  \<open>(2 ^ 63 - 1) div 10 ^ 8\<close> before the next digit and the fraction has at most eight digits, so
  no intermediate value reaches \<open>2 ^ 64\<close>.
\<close>

unbundle bit_operations_syntax

subsection \<open>The code\<close>

definition kScale :: nat where
  "kScale = 100000000"

fun decimalsOfScale :: "nat \<Rightarrow> nat" where
  "decimalsOfScale s = (if s > 1 then Suc (decimalsOfScale (s div 10)) else 0)"

declare decimalsOfScale.simps [simp del]

definition kFracDigits :: nat where
  "kFracDigits = decimalsOfScale kScale"

definition is_dec :: "char \<Rightarrow> bool" where
  "is_dec c \<longleftrightarrow> (48 :: nat) \<le> of_char c \<and> of_char c \<le> (57 :: nat)"

definition dec_of :: "char \<Rightarrow> nat" where
  "dec_of c = of_char c - 48"

definition dec_char :: "nat \<Rightarrow> char" where
  "dec_char d = char_of (48 + d)"

fun parse_int :: "string \<Rightarrow> nat \<Rightarrow> nat \<Rightarrow> (nat \<times> nat \<times> string) option" where
  "parse_int [] ip n = Some (ip, n, [])"
| "parse_int (c # t) ip n =
     (if is_dec c
      then let ip = ip * 10 + dec_of c
           in if ip > nat i64_max div kScale then None else parse_int t ip (Suc n)
      else Some (ip, n, c # t))"

fun parse_frac :: "string \<Rightarrow> nat \<Rightarrow> nat \<Rightarrow> (nat \<times> nat \<times> string) option" where
  "parse_frac [] frac n = Some (frac, n, [])"
| "parse_frac (c # t) frac n =
     (if is_dec c
      then if n = kFracDigits then None else parse_frac t (frac * 10 + dec_of c) (Suc n)
      else Some (frac, n, c # t))"

primrec pad_frac :: "nat \<Rightarrow> nat \<Rightarrow> nat" where
  "pad_frac 0 frac = frac"
| "pad_frac (Suc k) frac = pad_frac k (frac * 10)"

definition parse_fraction :: "string \<Rightarrow> (nat \<times> nat \<times> string) option" where
  "parse_fraction t =
     (case t of
        [] \<Rightarrow> Some (0, 0, [])
      | c # r \<Rightarrow>
          if c = CHR ''.''
          then (case parse_frac r 0 0 of None \<Rightarrow> None | Some (f, k, q) \<Rightarrow> if k = 0 then None else Some (f, k, q))
          else Some (0, 0, t))"

definition decwire_parse :: "string \<Rightarrow> int option" where
  "decwire_parse t =
     (case parse_int t 0 0 of
        None \<Rightarrow> None
      | Some (ip, intDigits, r) \<Rightarrow>
          if intDigits = 0 then None
          else (case parse_fraction r of
                  None \<Rightarrow> None
                | Some (frac, fracDigits, q) \<Rightarrow>
                    if q \<noteq> [] then None
                    else let frac = pad_frac (kFracDigits - fracDigits) frac;
                             scaled = ip * kScale
                         in if scaled > nat i64_max - frac then None else Some (int (scaled + frac))))"

fun u64_chars :: "nat \<Rightarrow> string" where
  "u64_chars v = (if v < 10 then [dec_char v] else u64_chars (v div 10) @ [dec_char (v mod 10)])"

declare u64_chars.simps [simp del]

definition appendU64 :: "string \<Rightarrow> nat \<Rightarrow> string" where
  "appendU64 out v = out @ u64_chars v"

primrec frac_chars :: "nat \<Rightarrow> nat \<Rightarrow> string" where
  "frac_chars 0 frac = []"
| "frac_chars (Suc d) frac = frac_chars d (frac div 10) @ [dec_char (frac mod 10)]"

definition trim_zeros :: "string \<Rightarrow> string" where
  "trim_zeros ds = rev (dropWhile (\<lambda>c. c = CHR ''0'') (rev ds))"

definition magnitude :: "int \<Rightarrow> nat" where
  "magnitude raw = unat (if raw < 0 then NOT (word_of_int raw :: 64 word) + 1 else word_of_int raw)"

definition decwire_append :: "string \<Rightarrow> int \<Rightarrow> string" where
  "decwire_append out raw =
     (let out = (if raw < 0 then out @ ''-'' else out);
          u = magnitude raw;
          out = appendU64 out (u div kScale);
          frac = u mod kScale
      in if frac \<noteq> 0 then (out @ ''.'') @ trim_zeros (frac_chars kFracDigits frac) else out)"

definition fixedPointToStr :: "int \<Rightarrow> nat \<Rightarrow> string" where
  "fixedPointToStr raw scale =
     (let mag = magnitude raw;
          divisor = (if scale > 1 then scale else 1);
          digits = decimalsOfScale scale;
          p = frac_chars digits (mag mod divisor);
          p = (if digits > 0 then ''.'' @ p else p);
          p = u64_chars (mag div divisor) @ p
      in if raw < 0 then ''-'' @ p else p)"

subsection \<open>Digits\<close>

lemma kFracDigits_8: "kFracDigits = 8"
  by (simp add: kFracDigits_def kScale_def decimalsOfScale.simps)

lemma dec_char_simps [simp]: "d < 10 \<Longrightarrow> is_dec (dec_char d)" "d < 10 \<Longrightarrow> dec_of (dec_char d) = d"
  by (simp_all add: is_dec_def dec_of_def dec_char_def)

lemma dec_of_less: "is_dec c \<Longrightarrow> dec_of c < 10"
  unfolding is_dec_def dec_of_def by linarith

lemma not_dec [simp]: "\<not> is_dec CHR ''.''" "\<not> is_dec CHR ''-''"
  by (simp_all add: is_dec_def)

definition dec_val :: "nat \<Rightarrow> string \<Rightarrow> nat" where
  "dec_val v ds = foldl (\<lambda>v c. v * 10 + dec_of c) v ds"

lemma dec_val_simps [simp]:
  "dec_val v [] = v" "dec_val v (c # ds) = dec_val (v * 10 + dec_of c) ds" "dec_val v (xs @ ys) = dec_val (dec_val v xs) ys"
  by (simp_all add: dec_val_def)

lemma dec_val_ge: "v \<le> dec_val v ds"
proof (induction ds arbitrary: v)
  case (Cons c ds)
  show ?case using Cons [of "v * 10 + dec_of c"] by simp
qed simp

lemma dec_val_linear: "dec_val v ds = v * 10 ^ length ds + dec_val 0 ds"
proof (induction ds arbitrary: v)
  case (Cons c ds)
  show ?case using Cons [of "v * 10 + dec_of c"] Cons [of "dec_of c"] by (simp add: algebra_simps)
qed simp

lemma u64_chars_dec: "list_all is_dec (u64_chars v) \<and> u64_chars v \<noteq> [] \<and> dec_val 0 (u64_chars v) = v"
proof (induction v rule: u64_chars.induct)
  case (1 v)
  then show ?case by (cases "v < 10") (simp_all add: u64_chars.simps [of v])
qed

lemma frac_chars_dec: "list_all is_dec (frac_chars k f) \<and> length (frac_chars k f) = k \<and> (f < 10 ^ k \<longrightarrow> dec_val 0 (frac_chars k f) = f)"
  by (induction k arbitrary: f) (auto simp: less_mult_imp_div_less)

subsection \<open>The parser\<close>

lemma parse_int_dec:
  assumes "list_all is_dec ds" "dec_val v ds \<le> nat i64_max div kScale" "r = [] \<or> \<not> is_dec (hd r)"
  shows "parse_int (ds @ r) v n = Some (dec_val v ds, n + length ds, r)"
  using assms(1,2)
proof (induction ds arbitrary: v n)
  case Nil
  then show ?case using assms(3) by (cases r) auto
next
  case (Cons c ds)
  have "v * 10 + dec_of c \<le> nat i64_max div kScale" using Cons.prems(2) dec_val_ge [of "v * 10 + dec_of c" ds] by simp
  then show ?case using Cons by (simp add: not_less)
qed

lemma parse_int_sound:
  "parse_int t v n = Some (w, k, r) \<Longrightarrow>
   \<exists>ds. t = ds @ r \<and> list_all is_dec ds \<and> (r = [] \<or> \<not> is_dec (hd r)) \<and> w = dec_val v ds \<and> k = n + length ds
     \<and> (ds = [] \<or> w \<le> nat i64_max div kScale)"
proof (induction t v n rule: parse_int.induct)
  case (2 c t v n)
  show ?case
  proof (cases "is_dec c")
    case True
    let ?v = "v * 10 + dec_of c"
    have le: "\<not> ?v > nat i64_max div kScale" and p: "parse_int t ?v (Suc n) = Some (w, k, r)"
      using "2.prems" True by (auto simp: Let_def split: if_splits)
    then obtain ds where "t = ds @ r" "list_all is_dec ds" "r = [] \<or> \<not> is_dec (hd r)" "w = dec_val ?v ds" "k = Suc n + length ds"
      "ds = [] \<or> w \<le> nat i64_max div kScale"
      using "2.IH" [OF True refl] by blast
    then show ?thesis using True le by (intro exI [of _ "c # ds"]) auto
  qed (use "2.prems" in auto)
qed simp

lemma parse_frac_dec:
  assumes "list_all is_dec ds" "n + length ds \<le> kFracDigits" "r = [] \<or> \<not> is_dec (hd r)"
  shows "parse_frac (ds @ r) v n = Some (dec_val v ds, n + length ds, r)"
  using assms(1,2)
proof (induction ds arbitrary: v n)
  case Nil
  then show ?case using assms(3) by (cases r) auto
qed auto

lemma parse_frac_sound:
  "parse_frac t v n = Some (w, k, r) \<Longrightarrow> n \<le> kFracDigits \<Longrightarrow>
   \<exists>ds. t = ds @ r \<and> list_all is_dec ds \<and> w = dec_val v ds \<and> k = n + length ds \<and> k \<le> kFracDigits"
proof (induction t v n rule: parse_frac.induct)
  case (2 c t v n)
  show ?case
  proof (cases "is_dec c")
    case True
    have n: "n \<noteq> kFracDigits" and p: "parse_frac t (v * 10 + dec_of c) (Suc n) = Some (w, k, r)"
      using "2.prems" True by (auto split: if_splits)
    then obtain ds where "t = ds @ r" "list_all is_dec ds" "w = dec_val (v * 10 + dec_of c) ds" "k = Suc n + length ds" "k \<le> kFracDigits"
      using "2.IH" [OF True n p] "2.prems"(2) by auto
    then show ?thesis using True by (intro exI [of _ "c # ds"]) auto
  qed (use "2.prems" in auto)
qed simp

lemma pad_frac_eq: "pad_frac k f = f * 10 ^ k"
  by (induction k arbitrary: f) simp_all

text \<open>The grammar the parser accepts and the value it denotes, at the scale \<open>10 ^ 8\<close>.\<close>

definition dec_text :: "string \<Rightarrow> string \<Rightarrow> string" where
  "dec_text ds fs = ds @ (if fs = [] then [] else CHR ''.'' # fs)"

definition dec_digits :: "string \<Rightarrow> string \<Rightarrow> bool" where
  "dec_digits ds fs \<longleftrightarrow> list_all is_dec ds \<and> ds \<noteq> [] \<and> list_all is_dec fs \<and> length fs \<le> kFracDigits"

definition dec_raw :: "string \<Rightarrow> string \<Rightarrow> nat" where
  "dec_raw ds fs = dec_val 0 ds * kScale + dec_val 0 fs * 10 ^ (kFracDigits - length fs)"

lemma dec_val_bound: "list_all is_dec ds \<Longrightarrow> dec_val 0 ds < 10 ^ length ds"
proof (induction ds)
  case (Cons c ds)
  have "dec_of c \<le> 9" using dec_of_less [of c] Cons.prems by simp
  then have "dec_of c * 10 ^ length ds + dec_val 0 ds < 9 * 10 ^ length ds + 10 ^ length ds"
    using Cons by (intro add_le_less_mono mult_right_mono) simp_all
  then show ?case using dec_val_linear [of "dec_of c" ds] by simp
qed simp

lemma frac_below_scale:
  assumes "list_all is_dec fs" "length fs \<le> kFracDigits"
  shows "dec_val 0 fs * 10 ^ (kFracDigits - length fs) < kScale"
proof -
  have "dec_val 0 fs * 10 ^ (8 - length fs) < 10 ^ length fs * 10 ^ (8 - length fs)" using dec_val_bound [OF assms(1)] by simp
  also have "\<dots> = 10 ^ 8" using assms(2) by (simp add: kFracDigits_8 flip: power_add)
  finally show ?thesis by (simp add: kScale_def kFracDigits_8)
qed

lemma parse_fraction_text:
  assumes "list_all is_dec fs" "length fs \<le> kFracDigits"
  shows "parse_fraction (if fs = [] then [] else CHR ''.'' # fs) = Some (dec_val 0 fs, length fs, [])"
  using parse_frac_dec [OF assms(1), of 0 "[]" 0] assms(2) by (simp add: parse_fraction_def)

lemma parse_text:
  assumes "dec_digits ds fs" "int (dec_raw ds fs) \<le> i64_max"
  shows "decwire_parse (dec_text ds fs) = Some (int (dec_raw ds fs))"
proof -
  let ?r = "if fs = [] then [] else CHR ''.'' # fs" and ?f = "dec_val 0 fs * 10 ^ (kFracDigits - length fs)"
  have "dec_raw ds fs \<le> nat i64_max" using nat_mono [OF assms(2)] by (simp only: nat_int)
  then have le: "dec_val 0 ds * kScale + ?f \<le> nat i64_max" by (simp only: dec_raw_def)
  then have "dec_val 0 ds * kScale \<le> nat i64_max" by simp
  then have "dec_val 0 ds \<le> nat i64_max div kScale" by (simp add: less_eq_div_iff_mult_less_eq kScale_def)
  then have "parse_int (ds @ ?r) 0 0 = Some (dec_val 0 ds, length ds, ?r)"
    using parse_int_dec [of ds 0 ?r 0] assms(1) by (auto simp: dec_digits_def)
  then show ?thesis using le parse_fraction_text [of fs] assms(1)
    by (auto simp: decwire_parse_def dec_text_def dec_digits_def dec_raw_def pad_frac_eq Let_def)
qed

lemma parse_fraction_sound:
  assumes "parse_fraction r = Some (f, k, [])" "r = [] \<or> \<not> is_dec (hd r)"
  shows "\<exists>fs. r = (if fs = [] then [] else CHR ''.'' # fs) \<and> list_all is_dec fs \<and> length fs = k \<and> k \<le> kFracDigits \<and> f = dec_val 0 fs"
proof (cases r)
  case Nil
  then show ?thesis using assms(1) by (intro exI [of _ "[]"]) (simp add: parse_fraction_def)
next
  case (Cons c q)
  then have c: "c = CHR ''.''" using assms(1) by (auto simp: parse_fraction_def split: if_splits)
  then have "parse_frac q 0 0 = Some (f, k, [])" "k \<noteq> 0"
    using assms(1) Cons by (auto simp: parse_fraction_def split: if_splits option.splits)
  then obtain ds where "q = ds" "list_all is_dec ds" "f = dec_val 0 ds" "k = length ds" "k \<le> kFracDigits" using parse_frac_sound by fastforce
  then show ?thesis using Cons c \<open>k \<noteq> 0\<close> by (intro exI [of _ ds]) auto
qed

text \<open>
  C39. The decimal parser accepts exactly the unsigned decimals of the scale and computes them
  exactly: a text parses to \<open>r\<close> if and only if it is one or more digits, optionally a point and one
  to eight digits, whose value times \<open>10 ^ 8\<close> is \<open>r\<close> and fits an \<^verbatim>\<open>int64_t\<close>. Signs, exponents,
  excess precision, empty parts, trailing characters and overflow are all refused.
\<close>

theorem decwire_parse_exact:
  "decwire_parse t = Some r \<longleftrightarrow>
     (\<exists>ds fs. t = dec_text ds fs \<and> dec_digits ds fs \<and> r = int (dec_raw ds fs) \<and> int (dec_raw ds fs) \<le> i64_max)"
proof
  assume p: "decwire_parse t = Some r"
  then obtain ip n q where a: "parse_int t 0 0 = Some (ip, n, q)" "n \<noteq> 0"
    by (auto simp: decwire_parse_def split: option.splits prod.splits if_splits)
  then obtain f k where b: "parse_fraction q = Some (f, k, [])"
    using p by (auto simp: decwire_parse_def split: option.splits prod.splits if_splits)
  obtain ds where d: "t = ds @ q" "list_all is_dec ds" "q = [] \<or> \<not> is_dec (hd q)" "ip = dec_val 0 ds" "n = length ds"
    using parse_int_sound [OF a(1)] by auto
  obtain fs where f: "q = (if fs = [] then [] else CHR ''.'' # fs)" "list_all is_dec fs" "length fs = k" "k \<le> kFracDigits" "f = dec_val 0 fs"
    using parse_fraction_sound [OF b d(3)] by blast
  have x: "dec_digits ds fs" using d f a(2) by (auto simp: dec_digits_def)
  let ?f = "pad_frac (kFracDigits - k) f"
  have lt: "?f < kScale" using frac_below_scale [of fs] f by (simp add: pad_frac_eq)
  have "\<not> ip * kScale > nat i64_max - ?f" "r = int (ip * kScale + ?f)"
    using p a b by (auto simp: decwire_parse_def Let_def split: if_splits)
  moreover have "ip * kScale + ?f = dec_raw ds fs" using d f by (simp add: dec_raw_def pad_frac_eq)
  moreover have "kScale \<le> nat i64_max" by (simp add: kScale_def i64_max_def)
  ultimately have "r = int (dec_raw ds fs)" "dec_raw ds fs \<le> nat i64_max" using lt by simp_all
  then show "\<exists>ds fs. t = dec_text ds fs \<and> dec_digits ds fs \<and> r = int (dec_raw ds fs) \<and> int (dec_raw ds fs) \<le> i64_max"
    using d f x by (intro exI [of _ ds] exI [of _ fs]) (auto simp: dec_text_def i64_max_def)
qed (use parse_text in blast)

subsection \<open>Printing and reading back\<close>

lemma magnitude_nonneg: "0 \<le> raw \<Longrightarrow> raw \<le> i64_max \<Longrightarrow> magnitude raw = nat raw"
  by (simp add: magnitude_def unat_eq_nat_uint uint_word_of_int i64_max_def)

lemma magnitude_neg: "raw < 0 \<Longrightarrow> i64_min \<le> raw \<Longrightarrow> magnitude raw = nat (- raw)"
proof -
  assume r: "raw < 0" "i64_min \<le> raw"
  have "NOT (word_of_int raw :: 64 word) + 1 = word_of_int (- raw)" by (simp add: not_eq_complement)
  then have "magnitude raw = nat (uint (word_of_int (- raw) :: 64 word))" using r(1) by (simp only: magnitude_def if_True unat_eq_nat_uint)
  also have "uint (word_of_int (- raw) :: 64 word) = - raw mod 2 ^ 64" by (simp only: uint_word_of_int) simp
  also have "\<dots> = - raw" using r by (intro mod_pos_pos_trivial) (simp_all add: i64_min_def)
  finally show ?thesis .
qed

lemma dec_val_zeros: "dec_val v (replicate k CHR ''0'') = v * 10 ^ k"
  by (induction k arbitrary: v) (simp_all add: dec_of_def)

lemma trim_zeros_split: "\<exists>k. ds = trim_zeros ds @ replicate k CHR ''0''"
proof -
  let ?z = "takeWhile (\<lambda>c. c = CHR ''0'') (rev ds)"
  have "rev ds = ?z @ rev (trim_zeros ds)" by (simp add: trim_zeros_def)
  then have "ds = trim_zeros ds @ rev ?z" by (metis rev_append rev_rev_ident)
  moreover have "?z = replicate (length ?z) CHR ''0''" by (rule replicate_eqI [OF refl]) (blast dest: set_takeWhileD)
  then have "rev ?z = replicate (length ?z) CHR ''0''" by (metis rev_replicate)
  ultimately have "ds = trim_zeros ds @ replicate (length ?z) CHR ''0''" by simp
  then show ?thesis by blast
qed

lemma trimmed_value:
  assumes "length ds = kFracDigits" "list_all is_dec ds"
  shows "list_all is_dec (trim_zeros ds) \<and> length (trim_zeros ds) \<le> kFracDigits
    \<and> dec_val 0 (trim_zeros ds) * 10 ^ (kFracDigits - length (trim_zeros ds)) = dec_val 0 ds \<and> (dec_val 0 ds \<noteq> 0 \<longrightarrow> trim_zeros ds \<noteq> [])"
proof -
  obtain k where k: "ds = trim_zeros ds @ replicate k CHR ''0''" using trim_zeros_split by blast
  have l: "length (trim_zeros ds) + k = kFracDigits" using arg_cong [OF k, of length] assms(1) by simp
  have "dec_val 0 ds = dec_val 0 (trim_zeros ds) * 10 ^ k" using arg_cong [OF k, of "dec_val 0"] by (simp add: dec_val_zeros)
  moreover have "list_all is_dec (trim_zeros ds)" using assms(2) k by (metis list_all_append)
  ultimately show ?thesis using l by auto
qed

lemma print_minimal:
  assumes "0 \<le> raw" "raw \<le> i64_max"
  shows "\<exists>ds fs. decwire_append [] raw = dec_text ds fs \<and> dec_digits ds fs \<and> int (dec_raw ds fs) = raw"
proof -
  let ?u = "nat raw" and ?ds = "u64_chars (nat raw div kScale)" and ?x = "frac_chars kFracDigits (nat raw mod kScale)"
  have u: "list_all is_dec ?ds" "?ds \<noteq> []" "dec_val 0 ?ds = ?u div kScale" using u64_chars_dec by auto
  have "?u mod kScale < 10 ^ kFracDigits" by (simp add: kScale_def kFracDigits_8)
  then have x: "list_all is_dec ?x" "length ?x = kFracDigits" "dec_val 0 ?x = ?u mod kScale" using frac_chars_dec by auto
  note t = trimmed_value [OF x(2,1)]
  have e: "?u div kScale * kScale + ?u mod kScale = ?u" by simp
  show ?thesis
  proof (cases "?u mod kScale = 0")
    case True
    then have "decwire_append [] raw = dec_text ?ds []" using magnitude_nonneg [OF assms] assms(1) by (simp add: decwire_append_def appendU64_def dec_text_def Let_def)
    moreover have "int (dec_raw ?ds []) = raw" using True e assms(1) u(3) by (simp add: dec_raw_def)
    ultimately show ?thesis using u by (intro exI [of _ ?ds] exI [of _ "[]"]) (simp add: dec_digits_def)
  next
    case False
    then have "decwire_append [] raw = dec_text ?ds (trim_zeros ?x)"
      using magnitude_nonneg [OF assms] assms(1) t x(3) by (simp add: decwire_append_def appendU64_def dec_text_def Let_def)
    moreover have "int (dec_raw ?ds (trim_zeros ?x)) = raw" using t x(3) u(3) e assms(1) unfolding dec_raw_def by (metis nat_0_le)
    ultimately show ?thesis using u t by (intro exI [of _ ?ds] exI [of _ "trim_zeros ?x"]) (simp add: dec_digits_def)
  qed
qed

lemma print_full:
  assumes "0 \<le> raw" "raw \<le> i64_max"
  shows "\<exists>ds fs. fixedPointToStr raw kScale = dec_text ds fs \<and> dec_digits ds fs \<and> int (dec_raw ds fs) = raw"
proof -
  let ?u = "nat raw" and ?ds = "u64_chars (nat raw div kScale)" and ?x = "frac_chars kFracDigits (nat raw mod kScale)"
  have u: "list_all is_dec ?ds" "?ds \<noteq> []" "dec_val 0 ?ds = ?u div kScale" using u64_chars_dec by auto
  have "?u mod kScale < 10 ^ kFracDigits" by (simp add: kScale_def kFracDigits_8)
  then have x: "list_all is_dec ?x" "length ?x = kFracDigits" "dec_val 0 ?x = ?u mod kScale" using frac_chars_dec by auto
  then have "?x \<noteq> []" by (auto simp: kFracDigits_8)
  then have "fixedPointToStr raw kScale = dec_text ?ds ?x"
    using magnitude_nonneg [OF assms] assms(1) kFracDigits_8
    by (simp add: fixedPointToStr_def dec_text_def Let_def flip: kFracDigits_def) (simp add: kScale_def)
  moreover have "int (dec_raw ?ds ?x) = raw" using x u(3) assms(1) by (simp add: dec_raw_def)
  ultimately show ?thesis using u x by (intro exI [of _ ?ds] exI [of _ ?x]) (simp add: dec_digits_def)
qed

text \<open>
  C40. Text is exact in both directions: every non-negative raw that is printed, minimally for the
  protocols or at full width for the operator surfaces, parses back to the same raw.
\<close>

theorem decimal_text_roundtrip:
  assumes "0 \<le> raw" "raw \<le> i64_max"
  shows "decwire_parse (decwire_append [] raw) = Some raw \<and> decwire_parse (fixedPointToStr raw kScale) = Some raw"
proof -
  obtain ds fs where "decwire_append [] raw = dec_text ds fs" "dec_digits ds fs" "int (dec_raw ds fs) = raw" using print_minimal [OF assms] by blast
  moreover obtain es gs where "fixedPointToStr raw kScale = dec_text es gs" "dec_digits es gs" "int (dec_raw es gs) = raw" using print_full [OF assms] by blast
  ultimately show ?thesis using parse_text assms(2) by metis
qed

theorem decimal_text_roundtrip_witness:
  "decwire_parse (decwire_append [] 30000) = Some 30000 \<and> decwire_parse (fixedPointToStr 30000 kScale) = Some 30000"
  using decimal_text_roundtrip [of 30000] by (simp add: i64_max_def)

end
