(* ===== verification/Session.thy ===== *)
theory Session
  imports StateDigest OutboundEvents
begin

section \<open>The trading-status machine\<close>

text \<open>
  \<^verbatim>\<open>engine/session.h\<close>: the instrument's session automaton as one table of twelve rows, the five
  flags it moves, the memo of the last published status, the digest contribution and the admin
  records of a checkpoint. From \<^verbatim>\<open>engine/session.inl\<close>, \<^verbatim>\<open>dispatch.inl\<close> and
  \<^verbatim>\<open>checkpoint_restore.inl\<close>: the engine's side, which publishes a transition, carries out its
  effect on the book and dispatches operator actions. Pulling the book, running the uncross and
  the sweeps before a command are operations of the host, as the code keeps them outside the class.

  The halt flag lives on the instrument's configuration and is passed beside the session, as in
  the code. Times are \<open>int\<close>; \<open>SeqNanos{}\<close> is 0 and converts to false.
\<close>

subsection \<open>The table\<close>

datatype session_event = SeHalt | SeResume | SeHaltAndCancelAll | SeBeginPreOpen | SeOpenContinuous | SeResumeAuction
  | SeCloseSession | SeOpenSession | SeDelist | SeRelist | SeLuldBreach | SeLuldPauseElapsed

definition kSessionEventCount :: nat where
  "kSessionEventCount = 12"

datatype flag_op = Leave | FlagSet | Clear

datatype session_guard = GuardAlways | NotAlreadyDelisted | PauseDeadlinePassed

datatype session_effect = NoEffect | CancelBookAfter | UncrossBefore

record session_transition =
  sx_event :: session_event
  sx_name :: string
  sx_guard :: session_guard
  sx_halted :: flag_op
  sx_deadline :: flag_op
  sx_auction :: flag_op
  sx_closed :: flag_op
  sx_delisted :: flag_op
  sx_reason :: trading_status_reason
  sx_effect :: session_effect

fun session_row :: "session_event \<times> string \<times> session_guard \<times> flag_op \<times> flag_op \<times> flag_op \<times> flag_op \<times> flag_op \<times> trading_status_reason \<times> session_effect
    \<Rightarrow> session_transition" where
  "session_row (e, n, g, h, d, a, c, x, r, f) =
    \<lparr>sx_event = e, sx_name = n, sx_guard = g, sx_halted = h, sx_deadline = d, sx_auction = a, sx_closed = c, sx_delisted = x,
     sx_reason = r, sx_effect = f\<rparr>"

definition kSessionTransitions :: "session_transition list" where
  "kSessionTransitions = map session_row
    [(SeHalt, ''Halt'', GuardAlways, FlagSet, Leave, Leave, Leave, Leave, TsAdministrative, NoEffect),
     (SeResume, ''Resume'', GuardAlways, Clear, Clear, Leave, Leave, Leave, TsAdministrative, NoEffect),
     (SeHaltAndCancelAll, ''HaltAndCancelAll'', GuardAlways, FlagSet, Clear, Leave, Leave, Leave, TsAdministrative, CancelBookAfter),
     (SeBeginPreOpen, ''BeginPreOpen'', GuardAlways, Leave, Leave, FlagSet, Leave, Leave, TsAuction, NoEffect),
     (SeOpenContinuous, ''OpenContinuous'', GuardAlways, Leave, Leave, Clear, Leave, Leave, TsAuction, UncrossBefore),
     (SeResumeAuction, ''ResumeAuction'', GuardAlways, Clear, Clear, FlagSet, Leave, Leave, TsAuction, NoEffect),
     (SeCloseSession, ''CloseSession'', GuardAlways, Leave, Leave, Leave, FlagSet, Leave, TsSession, NoEffect),
     (SeOpenSession, ''OpenSession'', GuardAlways, Leave, Leave, Leave, Clear, Leave, TsSession, NoEffect),
     (SeDelist, ''Delist'', NotAlreadyDelisted, Leave, Leave, Leave, Leave, FlagSet, TsAdministrative, CancelBookAfter),
     (SeRelist, ''Relist'', GuardAlways, Leave, Leave, Leave, Leave, Clear, TsAdministrative, NoEffect),
     (SeLuldBreach, ''LuldBreach'', GuardAlways, FlagSet, FlagSet, Leave, Leave, Leave, TsLuldBreach, NoEffect),
     (SeLuldPauseElapsed, ''LuldPauseElapsed'', PauseDeadlinePassed, Clear, Clear, Leave, Leave, Leave, TsLuldPauseElapsed, NoEffect)]"

text \<open>The enumerator's value, the index of its row.\<close>

fun event_index :: "session_event \<Rightarrow> nat" where
  "event_index SeHalt = 0" | "event_index SeResume = 1" | "event_index SeHaltAndCancelAll = 2" | "event_index SeBeginPreOpen = 3"
| "event_index SeOpenContinuous = 4" | "event_index SeResumeAuction = 5" | "event_index SeCloseSession = 6"
| "event_index SeOpenSession = 7" | "event_index SeDelist = 8" | "event_index SeRelist = 9" | "event_index SeLuldBreach = 10"
| "event_index SeLuldPauseElapsed = 11"

definition transitionFor :: "session_event \<Rightarrow> session_transition" where
  "transitionFor e = kSessionTransitions ! event_index e"

record session_outcome =
  so_fired :: bool
  so_reason :: trading_status_reason
  so_effect :: session_effect

subsection \<open>The class\<close>

record session =
  se_auction :: bool
  se_haltUntil :: int
  se_closed :: bool
  se_delisted :: bool
  se_lastStatus :: trading_status
  se_lastStatusUntil :: int
  se_published :: bool

definition session_init :: session where
  "session_init = \<lparr>se_auction = False, se_haltUntil = 0, se_closed = False, se_delisted = False, se_lastStatus = StTrading,
     se_lastStatusUntil = 0, se_published = False\<rparr>"

definition session_status :: "bool \<Rightarrow> session \<Rightarrow> trading_status" where
  "session_status halted s =
    (if se_delisted s then StDelisted
     else if se_closed s then StClosed
     else if se_auction s then StAuctionPreOpen
     else if halted then (if se_haltUntil s \<noteq> 0 then StLuldPause else StHalted)
     else StTrading)"

definition pauseElapsed :: "bool \<Rightarrow> int \<Rightarrow> session \<Rightarrow> bool" where
  "pauseElapsed halted now s \<longleftrightarrow> halted \<and> se_haltUntil s \<noteq> 0 \<and> now \<ge> se_haltUntil s"

fun session_move :: "flag_op \<Rightarrow> bool \<Rightarrow> bool" where
  "session_move FlagSet flag = True"
| "session_move Clear flag = False"
| "session_move Leave flag = flag"

fun session_allowed :: "session_guard \<Rightarrow> bool \<Rightarrow> int \<Rightarrow> session \<Rightarrow> bool" where
  "session_allowed GuardAlways halted now s = True"
| "session_allowed NotAlreadyDelisted halted now s = (\<not> se_delisted s)"
| "session_allowed PauseDeadlinePassed halted now s = pauseElapsed halted now s"

definition session_apply :: "session_event \<Rightarrow> int \<Rightarrow> int \<Rightarrow> session \<times> bool \<Rightarrow> session_outcome \<times> session \<times> bool" where
  "session_apply e now deadline = (\<lambda>(s, halted).
    let t = transitionFor e
    in if \<not> session_allowed (sx_guard t) halted now s then (\<lparr>so_fired = False, so_reason = TsNone, so_effect = NoEffect\<rparr>, s, halted)
    else
      (let halted = session_move (sx_halted t) halted;
           s = (if sx_deadline t = FlagSet then s\<lparr>se_haltUntil := deadline\<rparr>
                else if sx_deadline t = Clear then s\<lparr>se_haltUntil := 0\<rparr> else s);
           s = s\<lparr>se_auction := session_move (sx_auction t) (se_auction s)\<rparr>;
           s = s\<lparr>se_closed := session_move (sx_closed t) (se_closed s)\<rparr>;
           s = s\<lparr>se_delisted := session_move (sx_delisted t) (se_delisted s)\<rparr>
       in (\<lparr>so_fired = True, so_reason = sx_reason t, so_effect = sx_effect t\<rparr>, s, halted)))"

definition publishes :: "trading_status \<Rightarrow> int \<Rightarrow> session \<Rightarrow> bool \<times> session" where
  "publishes status untilNs s =
    (if se_published s \<and> status = se_lastStatus s \<and> untilNs = se_lastStatusUntil s then (False, s)
     else (True, s\<lparr>se_published := True, se_lastStatus := status, se_lastStatusUntil := untilNs\<rparr>))"

definition publishedUntil :: "trading_status \<Rightarrow> session \<Rightarrow> int" where
  "publishedUntil status s = (if status = StLuldPause then se_haltUntil s else 0)"

definition memoRestored :: "trading_status \<Rightarrow> session \<Rightarrow> session" where
  "memoRestored status s = s\<lparr>se_lastStatus := status, se_lastStatusUntil := publishedUntil status s, se_published := True\<rparr>"

definition mixState :: "64 word \<Rightarrow> session \<Rightarrow> 64 word" where
  "mixState h s =
    (let h = mix h (if se_auction s then 1 else 0);
         h = (if se_delisted s then mix h kSessionDelisted else h);
         h = mix h (word_of_int (se_haltUntil s))
     in if se_closed s then mix (mix h kSessionClosed) 1 else h)"

datatype admin_action = AdBeginPreOpen | AdOpenContinuous | AdResumeAuction | AdHaltAndCancelAll | AdHalt | AdResume
  | AdCloseSession | AdOpenSession | AdDelist | AdRelist

definition snapshotActions :: "bool \<Rightarrow> session \<Rightarrow> admin_action list" where
  "snapshotActions halted s = (if halted then AdHalt else AdResume) # (if se_auction s then [AdBeginPreOpen] else [])
     @ (if se_closed s then [AdCloseSession] else []) @ (if se_delisted s then [AdDelist] else [])"

definition restoreHaltUntil :: "int \<Rightarrow> session \<Rightarrow> session" where
  "restoreHaltUntil v s = s\<lparr>se_haltUntil := v\<rparr>"

definition copyForSnapshotClone :: "session \<Rightarrow> session \<Rightarrow> session" where
  "copyForSnapshotClone src s = s\<lparr>se_auction := se_auction src, se_haltUntil := se_haltUntil src, se_closed := se_closed src,
     se_delisted := se_delisted src, se_lastStatus := se_lastStatus src, se_lastStatusUntil := se_lastStatusUntil src,
     se_published := se_published src\<rparr>"

subsection \<open>The engine around it\<close>

text \<open>
  The parts of the engine a command meets before and during a session transition: the rest of the
  engine is a type variable, and what the code does to it is an operation of the host that returns
  the events it emits.
\<close>

record 'e status_engine =
  sg_session :: session
  sg_halted :: bool
  sg_now :: int
  sg_rest :: 'e

record 'e status_host =
  sh_symbol :: nat
  sh_luldHaltNs :: int
  sh_cancelEntireBook :: "cancel_reason \<Rightarrow> 'e \<Rightarrow> 'e \<times> outbound_event list"
  sh_runAuction :: "'e \<Rightarrow> 'e \<times> outbound_event list"
  sh_expire :: "int \<Rightarrow> 'e \<Rightarrow> 'e \<times> outbound_event list"

definition tradingStatus :: "('e, 'x) status_engine_scheme \<Rightarrow> trading_status" where
  "tradingStatus E = session_status (sg_halted E) (sg_session E)"

definition emitStatus :: "('e, 'y) status_host_scheme \<Rightarrow> trading_status \<Rightarrow> trading_status_reason \<Rightarrow> int \<Rightarrow> 'e status_engine
    \<Rightarrow> 'e status_engine \<times> outbound_event list" where
  "emitStatus H status reason untilNs E =
    (let (out, s) = publishes status untilNs (sg_session E);
         E = E\<lparr>sg_session := s\<rparr>
     in if \<not> out then (E, [])
        else (E, [EvTradingStatus \<lparr>ts_symbol = sh_symbol H, ts_status = status, ts_reason = reason, ts_untilNs = untilNs\<rparr>]))"

definition publishStatus :: "('e, 'y) status_host_scheme \<Rightarrow> trading_status_reason \<Rightarrow> 'e status_engine \<Rightarrow> 'e status_engine \<times> outbound_event list" where
  "publishStatus H reason E = (let s = tradingStatus E in emitStatus H s reason (publishedUntil s (sg_session E)) E)"

definition applySession :: "('e, 'y) status_host_scheme \<Rightarrow> session_event \<Rightarrow> int \<Rightarrow> 'e status_engine \<Rightarrow> 'e status_engine \<times> outbound_event list" where
  "applySession H e deadline E =
    (let (out, s, halted) = session_apply e (sg_now E) deadline (sg_session E, sg_halted E);
         E = E\<lparr>sg_session := s, sg_halted := halted\<rparr>
     in if \<not> so_fired out then (E, [])
     else
       (let (E, es) = publishStatus H (so_reason out) E
        in if so_effect out = CancelBookAfter
           then (let (r, cs) = sh_cancelEntireBook H VenueHalt (sg_rest E) in (E\<lparr>sg_rest := r\<rparr>, es @ cs))
           else (E, es)))"

definition openContinuous :: "('e, 'y) status_host_scheme \<Rightarrow> 'e status_engine \<Rightarrow> 'e status_engine \<times> outbound_event list" where
  "openContinuous H E =
    (let (E, es) = emitStatus H StAuctionUncross TsAuction 0 E;
         (r, fs) = sh_runAuction H (sg_rest E);
         E = E\<lparr>sg_rest := r\<rparr>;
         (E, gs) = applySession H SeOpenContinuous 0 E
     in (E, es @ fs @ gs))"

fun onAdmin :: "('e, 'y) status_host_scheme \<Rightarrow> admin_action \<Rightarrow> 'e status_engine \<Rightarrow> 'e status_engine \<times> outbound_event list" where
  "onAdmin H AdBeginPreOpen E = applySession H SeBeginPreOpen 0 E"
| "onAdmin H AdOpenContinuous E = openContinuous H E"
| "onAdmin H AdResumeAuction E = applySession H SeResumeAuction 0 E"
| "onAdmin H AdHaltAndCancelAll E = applySession H SeHaltAndCancelAll 0 E"
| "onAdmin H AdHalt E = applySession H SeHalt 0 E"
| "onAdmin H AdResume E = applySession H SeResume 0 E"
| "onAdmin H AdCloseSession E = applySession H SeCloseSession 0 E"
| "onAdmin H AdOpenSession E = applySession H SeOpenSession 0 E"
| "onAdmin H AdDelist E = applySession H SeDelist 0 E"
| "onAdmin H AdRelist E = applySession H SeRelist 0 E"

definition tripLuldHalt :: "('e, 'y) status_host_scheme \<Rightarrow> 'e status_engine \<Rightarrow> 'e status_engine \<times> outbound_event list" where
  "tripLuldHalt H E = applySession H SeLuldBreach (sg_now E + sh_luldHaltNs H) E"

text \<open>What every command passes before its handler: the clock, the end of a timed pause, the two sweeps.\<close>

definition submit_prologue :: "('e, 'y) status_host_scheme \<Rightarrow> int \<Rightarrow> 'e status_engine \<Rightarrow> 'e status_engine \<times> outbound_event list" where
  "submit_prologue H tsNs E =
    (let E = E\<lparr>sg_now := tsNs\<rparr>;
         (E, es) = (if pauseElapsed (sg_halted E) (sg_now E) (sg_session E) then applySession H SeLuldPauseElapsed 0 E else (E, []));
         (r, xs) = sh_expire H (sg_now E) (sg_rest E)
     in (E\<lparr>sg_rest := r\<rparr>, es @ xs))"

definition submit_admin :: "('e, 'y) status_host_scheme \<Rightarrow> int \<Rightarrow> admin_action \<Rightarrow> 'e status_engine \<Rightarrow> 'e status_engine \<times> outbound_event list" where
  "submit_admin H tsNs a E = (let (E, es) = submit_prologue H tsNs E; (E, fs) = onAdmin H a E in (E, es @ fs))"

text \<open>The session's part of a checkpoint: its records replayed through the live path, and the deadline and the memo of the end record.\<close>

definition replay_actions :: "('e, 'y) status_host_scheme \<Rightarrow> int \<Rightarrow> admin_action list \<Rightarrow> 'e status_engine \<Rightarrow> 'e status_engine" where
  "replay_actions H tsNs = fold (\<lambda>a E. fst (submit_admin H tsNs a E))"

definition session_snapshot_end :: "int \<Rightarrow> int \<Rightarrow> 'e status_engine \<Rightarrow> 'e status_engine" where
  "session_snapshot_end nowNs haltUntilNs E =
    (let E = E\<lparr>sg_now := nowNs\<rparr>;
         E = E\<lparr>sg_session := restoreHaltUntil haltUntilNs (sg_session E)\<rparr>
     in E\<lparr>sg_session := memoRestored (tradingStatus E) (sg_session E)\<rparr>)"

end
