(* ===== verification/SessionProps.thy ===== *)
theory SessionProps
  imports Session
begin

section \<open>What the trading-status machine promises\<close>

text \<open>
  The table is in enumerator order; a transition moves only the five flags; outer states cover what
  is underneath without touching it; the feed carries transitions and only transitions; a checkpoint
  restores the flags, the digest and the memo.
\<close>

subsection \<open>The table\<close>

lemma transitionFor_event: "sx_event (transitionFor e) = e"
  by (cases e) (simp_all add: transitionFor_def kSessionTransitions_def numeral_eq_Suc)

lemma session_table_length: "length kSessionTransitions = kSessionEventCount"
  by (simp add: kSessionTransitions_def kSessionEventCount_def)

lemma apply_by_cases:
  "session_apply SeHalt n d (s, h) = (\<lparr>so_fired = True, so_reason = TsAdministrative, so_effect = NoEffect\<rparr>, s, True)"
  "session_apply SeResume n d (s, h) = (\<lparr>so_fired = True, so_reason = TsAdministrative, so_effect = NoEffect\<rparr>, s\<lparr>se_haltUntil := 0\<rparr>, False)"
  "session_apply SeHaltAndCancelAll n d (s, h) = (\<lparr>so_fired = True, so_reason = TsAdministrative, so_effect = CancelBookAfter\<rparr>, s\<lparr>se_haltUntil := 0\<rparr>, True)"
  "session_apply SeBeginPreOpen n d (s, h) = (\<lparr>so_fired = True, so_reason = TsAuction, so_effect = NoEffect\<rparr>, s\<lparr>se_auction := True\<rparr>, h)"
  "session_apply SeOpenContinuous n d (s, h) = (\<lparr>so_fired = True, so_reason = TsAuction, so_effect = UncrossBefore\<rparr>, s\<lparr>se_auction := False\<rparr>, h)"
  "session_apply SeResumeAuction n d (s, h) = (\<lparr>so_fired = True, so_reason = TsAuction, so_effect = NoEffect\<rparr>, s\<lparr>se_haltUntil := 0, se_auction := True\<rparr>, False)"
  "session_apply SeCloseSession n d (s, h) = (\<lparr>so_fired = True, so_reason = TsSession, so_effect = NoEffect\<rparr>, s\<lparr>se_closed := True\<rparr>, h)"
  "session_apply SeOpenSession n d (s, h) = (\<lparr>so_fired = True, so_reason = TsSession, so_effect = NoEffect\<rparr>, s\<lparr>se_closed := False\<rparr>, h)"
  "session_apply SeDelist n d (s, h) = (if se_delisted s then (\<lparr>so_fired = False, so_reason = TsNone, so_effect = NoEffect\<rparr>, s, h)
     else (\<lparr>so_fired = True, so_reason = TsAdministrative, so_effect = CancelBookAfter\<rparr>, s\<lparr>se_delisted := True\<rparr>, h))"
  "session_apply SeRelist n d (s, h) = (\<lparr>so_fired = True, so_reason = TsAdministrative, so_effect = NoEffect\<rparr>, s\<lparr>se_delisted := False\<rparr>, h)"
  "session_apply SeLuldBreach n d (s, h) = (\<lparr>so_fired = True, so_reason = TsLuldBreach, so_effect = NoEffect\<rparr>, s\<lparr>se_haltUntil := d\<rparr>, True)"
  "session_apply SeLuldPauseElapsed n d (s, h) = (if pauseElapsed h n s
     then (\<lparr>so_fired = True, so_reason = TsLuldPauseElapsed, so_effect = NoEffect\<rparr>, s\<lparr>se_haltUntil := 0\<rparr>, False)
     else (\<lparr>so_fired = False, so_reason = TsNone, so_effect = NoEffect\<rparr>, s, h))"
  by (simp_all add: session_apply_def transitionFor_def kSessionTransitions_def numeral_eq_Suc Let_def)

lemma apply_keeps_memo:
  "session_apply e n d (s, h) = (out, s', h') \<Longrightarrow>
    se_lastStatus s' = se_lastStatus s \<and> se_lastStatusUntil s' = se_lastStatusUntil s \<and> se_published s' = se_published s"
  by (cases e) (auto simp: apply_by_cases split: if_splits)

lemma refused_changes_nothing: "session_apply e n d (s, h) = (out, s', h') \<Longrightarrow> \<not> so_fired out \<Longrightarrow> s' = s \<and> h' = h"
  by (cases e) (auto simp: apply_by_cases split: if_splits)

subsection \<open>Flags of the engine\<close>

text \<open>The five flags, and the memo as what the feed last carried.\<close>

definition flags :: "'e status_engine \<Rightarrow> bool \<times> int \<times> bool \<times> bool \<times> bool" where
  "flags E = (sg_halted E, se_haltUntil (sg_session E), se_auction (sg_session E), se_closed (sg_session E), se_delisted (sg_session E))"

definition memo :: "session \<Rightarrow> (trading_status \<times> int) option" where
  "memo s = (if se_published s then Some (se_lastStatus s, se_lastStatusUntil s) else None)"

definition current :: "'e status_engine \<Rightarrow> trading_status \<times> int" where
  "current E = (tradingStatus E, publishedUntil (tradingStatus E) (sg_session E))"

lemma status_of_flags: "flags E = flags F \<Longrightarrow> tradingStatus E = tradingStatus F \<and> current E = current F"
  by (auto simp: flags_def tradingStatus_def current_def session_status_def publishedUntil_def)

lemma emitStatus_flags: "flags (fst (emitStatus H st r u E)) = flags E \<and> sg_now (fst (emitStatus H st r u E)) = sg_now E \<and> sg_rest (fst (emitStatus H st r u E)) = sg_rest E"
  by (simp add: emitStatus_def publishes_def flags_def Let_def)

lemma applySession_flags:
  assumes "session_apply e (sg_now E) d (sg_session E, sg_halted E) = (out, s, h)"
  shows "flags (fst (applySession H e d E)) = (h, se_haltUntil s, se_auction s, se_closed s, se_delisted s)"
    and "sg_now (fst (applySession H e d E)) = sg_now E"
  using emitStatus_flags [of H _ _ _ "E\<lparr>sg_session := s, sg_halted := h\<rparr>"]
  by (simp_all add: applySession_def assms publishStatus_def Let_def case_prod_unfold) (simp_all add: flags_def)

text \<open>The flags an operator action produces from given flags.\<close>

fun admin_flags :: "admin_action \<Rightarrow> bool \<times> int \<times> bool \<times> bool \<times> bool \<Rightarrow> bool \<times> int \<times> bool \<times> bool \<times> bool" where
  "admin_flags AdBeginPreOpen (h, d, a, c, x) = (h, d, True, c, x)"
| "admin_flags AdOpenContinuous (h, d, a, c, x) = (h, d, False, c, x)"
| "admin_flags AdResumeAuction (h, d, a, c, x) = (False, 0, True, c, x)"
| "admin_flags AdHaltAndCancelAll (h, d, a, c, x) = (True, 0, a, c, x)"
| "admin_flags AdHalt (h, d, a, c, x) = (True, d, a, c, x)"
| "admin_flags AdResume (h, d, a, c, x) = (False, 0, a, c, x)"
| "admin_flags AdCloseSession (h, d, a, c, x) = (h, d, a, True, x)"
| "admin_flags AdOpenSession (h, d, a, c, x) = (h, d, a, False, x)"
| "admin_flags AdDelist (h, d, a, c, x) = (h, d, a, c, True)"
| "admin_flags AdRelist (h, d, a, c, x) = (h, d, a, c, False)"

definition elapse_flags :: "int \<Rightarrow> bool \<times> int \<times> bool \<times> bool \<times> bool \<Rightarrow> bool \<times> int \<times> bool \<times> bool \<times> bool" where
  "elapse_flags now = (\<lambda>(h, d, a, c, x). if h \<and> d \<noteq> 0 \<and> now \<ge> d then (False, 0, a, c, x) else (h, d, a, c, x))"

lemma onAdmin_flags: "flags (fst (onAdmin H act E)) = admin_flags act (flags E)"
proof -
  have *: "flags (fst (applySession H e d E)) = (case session_apply e (sg_now E) d (sg_session E, sg_halted E) of
      (out, s, h) \<Rightarrow> (h, se_haltUntil s, se_auction s, se_closed s, se_delisted s))" for e d and E :: "'a status_engine"
    using applySession_flags(1) by (cases "session_apply e (sg_now E) d (sg_session E, sg_halted E)") fastforce
  show ?thesis
  proof (cases "act = AdOpenContinuous")
    case True
    define E1 where "E1 = fst (emitStatus H StAuctionUncross TsAuction 0 E)"
    define r where "r = fst (sh_runAuction H (sg_rest E1))"
    have "flags (fst (onAdmin H act E)) = flags (fst (applySession H SeOpenContinuous 0 (E1\<lparr>sg_rest := r\<rparr>)))"
      by (simp add: True openContinuous_def Let_def case_prod_unfold E1_def r_def)
    also have "\<dots> = admin_flags AdOpenContinuous (flags E1)" unfolding * apply_by_cases by (simp add: flags_def)
    finally show ?thesis using emitStatus_flags [of H StAuctionUncross TsAuction 0 E] True by (simp add: E1_def)
  next
    case False
    then show ?thesis by (cases act) (simp_all only: onAdmin.simps * apply_by_cases, simp_all add: flags_def)
  qed
qed

lemma submit_prologue_flags: "flags (fst (submit_prologue H ts E)) = elapse_flags ts (flags E)"
proof (cases "pauseElapsed (sg_halted E) ts (sg_session E)")
  case True
  then have e: "session_apply SeLuldPauseElapsed ts 0 (sg_session E, sg_halted E)
      = (\<lparr>so_fired = True, so_reason = TsLuldPauseElapsed, so_effect = NoEffect\<rparr>, (sg_session E)\<lparr>se_haltUntil := 0\<rparr>, False)"
    by (simp add: apply_by_cases)
  have "flags (E'\<lparr>sg_rest := r\<rparr>) = flags E'" for E' :: "'a status_engine" and r by (simp add: flags_def)
  then show ?thesis
    using True applySession_flags(1) [of SeLuldPauseElapsed "E\<lparr>sg_now := ts\<rparr>" 0, simplified, OF e, of H]
    by (simp add: submit_prologue_def Let_def case_prod_unfold) (simp add: pauseElapsed_def elapse_flags_def flags_def)
next
  case False
  then show ?thesis by (auto simp: submit_prologue_def Let_def case_prod_unfold pauseElapsed_def elapse_flags_def flags_def)
qed

lemma submit_admin_flags: "flags (fst (submit_admin H ts act E)) = admin_flags act (elapse_flags ts (flags E))"
  by (simp add: submit_admin_def Let_def case_prod_unfold onAdmin_flags submit_prologue_flags)

subsection \<open>Checkpoint\<close>

lemma replay_flags: "flags (replay_actions H ts as E) = fold (\<lambda>a f. admin_flags a (elapse_flags ts f)) as (flags E)"
  by (induction as arbitrary: E) (simp_all add: replay_actions_def submit_admin_flags)

lemma snapshot_flags:
  assumes "flags F = (h0, 0, False, False, False)"
  shows "flags (replay_actions H ts (snapshotActions (sg_halted E) (sg_session E)) F)
    = (sg_halted E, 0, se_auction (sg_session E), se_closed (sg_session E), se_delisted (sg_session E))"
  unfolding replay_flags assms by (simp add: snapshotActions_def elapse_flags_def split: if_splits)

text \<open>
  A session checkpoint restores exactly: whatever flags an instrument has, the admin records written for
  it, replayed through the live command path into a fresh engine with any halt flag of its own, and the end
  record's deadline give back the same flags, the same ranked status and the same digest contribution,
  and the memo stands at the restored state, so that recovery publishes nothing.
\<close>

theorem session_snapshot_restores:
  "let F = \<lparr>sg_session = session_init, sg_halted = h0, sg_now = n0, sg_rest = r0\<rparr>;
       R = session_snapshot_end (sg_now E) (se_haltUntil (sg_session E)) (replay_actions H ts (snapshotActions (sg_halted E) (sg_session E)) F)
   in flags R = flags E \<and> tradingStatus R = tradingStatus E \<and> mixState h (sg_session R) = mixState h (sg_session E)
    \<and> sg_now R = sg_now E \<and> memo (sg_session R) = Some (current E)"
proof -
  define F where "F = \<lparr>sg_session = session_init, sg_halted = h0, sg_now = n0, sg_rest = r0\<rparr>"
  define G where "G = replay_actions H ts (snapshotActions (sg_halted E) (sg_session E)) F"
  define R where "R = session_snapshot_end (sg_now E) (se_haltUntil (sg_session E)) G"
  have "flags G = (sg_halted E, 0, se_auction (sg_session E), se_closed (sg_session E), se_delisted (sg_session E))"
    unfolding G_def by (rule snapshot_flags [where ?h0.0 = h0]) (simp add: flags_def F_def session_init_def)
  then have fl: "flags R = flags E" and "sg_now R = sg_now E" and "memo (sg_session R) = Some (current R)"
    by (simp_all add: R_def session_snapshot_end_def Let_def restoreHaltUntil_def memoRestored_def flags_def memo_def current_def
        tradingStatus_def session_status_def publishedUntil_def)
  then show ?thesis using status_of_flags [OF fl]
    unfolding F_def [symmetric] G_def [symmetric] Let_def R_def [symmetric] by (simp add: flags_def mixState_def Let_def)
qed

subsection \<open>Outer states cover inner ones\<close>

definition session_run :: "(session_event \<times> int \<times> int) list \<Rightarrow> session \<times> bool \<Rightarrow> session \<times> bool" where
  "session_run = fold (\<lambda>(e, now, deadline) s. snd (session_apply e now deadline s))"

lemma session_run_simps [simp]:
  "session_run [] s = s"
  "session_run ((e, n, d) # es) s = session_run es (snd (session_apply e n d s))"
  "session_run (es @ fs) s = session_run fs (session_run es s)"
  by (simp_all add: session_run_def)

definition avoids :: "session_event set \<Rightarrow> (session_event \<times> int \<times> int) list \<Rightarrow> bool" where
  "avoids X es \<longleftrightarrow> (\<forall>x \<in> set es. fst x \<notin> X)"

lemma run_under_close:
  "avoids {SeCloseSession, SeOpenSession} es \<Longrightarrow> session_run es (s\<lparr>se_closed := c\<rparr>, h) = (\<lambda>(s', h'). (s'\<lparr>se_closed := c\<rparr>, h')) (session_run es (s, h))
    \<and> se_closed (fst (session_run es (s, h))) = se_closed s"
proof (induction es arbitrary: s h)
  case (Cons x es)
  obtain e n d where x: "x = (e, n, d)" by (metis prod.exhaust)
  obtain out s1 h1 where a: "session_apply e n d (s, h) = (out, s1, h1)" by (metis prod.exhaust)
  have e: "e \<notin> {SeCloseSession, SeOpenSession}" "avoids {SeCloseSession, SeOpenSession} es" using Cons.prems by (auto simp: avoids_def x)
  then have "snd (session_apply e n d (s\<lparr>se_closed := c\<rparr>, h)) = (s1\<lparr>se_closed := c\<rparr>, h1)" "se_closed s1 = se_closed s"
    using a by (cases e; auto simp: apply_by_cases pauseElapsed_def split: if_splits)+
  then show ?case using Cons.IH [OF e(2), of s1 h1] by (simp add: x a)
qed simp

lemma run_under_delist:
  "avoids {SeDelist, SeRelist} es \<Longrightarrow> session_run es (s\<lparr>se_delisted := c\<rparr>, h) = (\<lambda>(s', h'). (s'\<lparr>se_delisted := c\<rparr>, h')) (session_run es (s, h))
    \<and> se_delisted (fst (session_run es (s, h))) = se_delisted s"
proof (induction es arbitrary: s h)
  case (Cons x es)
  obtain e n d where x: "x = (e, n, d)" by (metis prod.exhaust)
  obtain out s1 h1 where a: "session_apply e n d (s, h) = (out, s1, h1)" by (metis prod.exhaust)
  have e: "e \<notin> {SeDelist, SeRelist}" "avoids {SeDelist, SeRelist} es" using Cons.prems by (auto simp: avoids_def x)
  then have "snd (session_apply e n d (s\<lparr>se_delisted := c\<rparr>, h)) = (s1\<lparr>se_delisted := c\<rparr>, h1)" "se_delisted s1 = se_delisted s"
    using a by (cases e; auto simp: apply_by_cases pauseElapsed_def split: if_splits)+
  then show ?case using Cons.IH [OF e(2), of s1 h1] by (simp add: x a)
qed simp

lemma close_covers:
  assumes "\<not> se_closed s" "avoids {SeCloseSession, SeOpenSession} es"
  shows "session_run ((SeCloseSession, n, d) # es @ [(SeOpenSession, n', d')]) (s, h) = session_run es (s, h)"
    and "session_run ((SeCloseSession, n, d) # take k es) (s, h) = (s', h') \<Longrightarrow> session_status h' s' = (if se_delisted s' then StDelisted else StClosed)"
proof -
  show "session_run ((SeCloseSession, n, d) # es @ [(SeOpenSession, n', d')]) (s, h) = session_run es (s, h)"
    using run_under_close [OF assms(2), of True s h] run_under_close [OF assms(2), of False s h] assms(1)
    by (cases "session_run es (s, h)") (simp add: apply_by_cases)
  have "avoids {SeCloseSession, SeOpenSession} (take k es)" using assms(2) by (auto simp: avoids_def dest: in_set_takeD)
  then show "session_run ((SeCloseSession, n, d) # take k es) (s, h) = (s', h') \<Longrightarrow> session_status h' s' = (if se_delisted s' then StDelisted else StClosed)"
    using run_under_close [of "take k es" True s h] by (auto simp: apply_by_cases session_status_def split: prod.splits)
qed

lemma delist_covers:
  assumes "\<not> se_delisted s" "avoids {SeDelist, SeRelist} es"
  shows "session_run ((SeDelist, n, d) # es @ [(SeRelist, n', d')]) (s, h) = session_run es (s, h)"
    and "session_run ((SeDelist, n, d) # take k es) (s, h) = (s', h') \<Longrightarrow> session_status h' s' = StDelisted"
proof -
  show "session_run ((SeDelist, n, d) # es @ [(SeRelist, n', d')]) (s, h) = session_run es (s, h)"
    using run_under_delist [OF assms(2), of True s h] run_under_delist [OF assms(2), of False s h] assms(1)
    by (cases "session_run es (s, h)") (simp add: apply_by_cases)
  have "avoids {SeDelist, SeRelist} (take k es)" using assms(2) by (auto simp: avoids_def dest: in_set_takeD)
  then show "session_run ((SeDelist, n, d) # take k es) (s, h) = (s', h') \<Longrightarrow> session_status h' s' = StDelisted"
    using run_under_delist [of "take k es" True s h] assms(1) by (auto simp: apply_by_cases session_status_def split: prod.splits)
qed

text \<open>
  Outer states cover inner ones and give them back: between closing and reopening the session any
  transitions may happen underneath (halts, pauses and their expiry, auction phases, delisting); throughout
  the instrument shows closed, or delisted, and reopening leaves exactly the state those transitions would
  have reached had the session never closed. The same holds between delisting and relisting, where the
  instrument shows delisted throughout.
\<close>

theorem outer_states_cover:
  "(\<not> se_closed s \<and> avoids {SeCloseSession, SeOpenSession} es \<longrightarrow>
      session_run ((SeCloseSession, n, d) # es @ [(SeOpenSession, n', d')]) (s, h) = session_run es (s, h)
      \<and> (\<forall>k s' h'. session_run ((SeCloseSession, n, d) # take k es) (s, h) = (s', h')
           \<longrightarrow> session_status h' s' = (if se_delisted s' then StDelisted else StClosed)))
   \<and> (\<not> se_delisted s \<and> avoids {SeDelist, SeRelist} es \<longrightarrow>
      session_run ((SeDelist, n, d) # es @ [(SeRelist, n', d')]) (s, h) = session_run es (s, h)
      \<and> (\<forall>k s' h'. session_run ((SeDelist, n, d) # take k es) (s, h) = (s', h') \<longrightarrow> session_status h' s' = StDelisted))"
  by (intro conjI impI allI; elim conjE; (rule close_covers(1) | rule delist_covers(1) | rule close_covers(2) | rule delist_covers(2)); assumption)

theorem outer_states_cover_witness:
  "session_run [(SeCloseSession, 5, 0), (SeLuldPauseElapsed, 9, 0), (SeBeginPreOpen, 10, 0), (SeOpenSession, 11, 0)] (session_init\<lparr>se_haltUntil := 8\<rparr>, True)
    = (session_init\<lparr>se_auction := True\<rparr>, False)"
  using outer_states_cover [of "session_init\<lparr>se_haltUntil := 8\<rparr>" "[(SeLuldPauseElapsed, 9, 0), (SeBeginPreOpen, 10, 0)]" 5 0 11 0 True]
  by (simp add: avoids_def apply_by_cases session_init_def pauseElapsed_def)

subsection \<open>The feed\<close>

fun status_of_event :: "outbound_event \<Rightarrow> trading_status_changed list" where
  "status_of_event (EvTradingStatus t) = [t]"
| "status_of_event _ = []"

definition statuses :: "outbound_event list \<Rightarrow> trading_status_changed list" where
  "statuses es = concat (map status_of_event es)"

lemma statuses_simps [simp]: "statuses [] = []" "statuses (EvTradingStatus t # es) = t # statuses es" "statuses (es @ fs) = statuses es @ statuses fs"
  by (simp_all add: statuses_def)

definition key_of :: "trading_status_changed \<Rightarrow> trading_status \<times> int" where
  "key_of t = (ts_status t, ts_untilNs t)"

text \<open>The host's other operations never publish a status themselves.\<close>

definition host_quiet :: "('e, 'y) status_host_scheme \<Rightarrow> bool" where
  "host_quiet H \<longleftrightarrow> (\<forall>r x. statuses (snd (sh_cancelEntireBook H r x)) = []) \<and> (\<forall>x. statuses (snd (sh_runAuction H x)) = [])
    \<and> (\<forall>n x. statuses (snd (sh_expire H n x)) = [])"

text \<open>What the feed has carried after some events, from what it had carried before: no key twice in a row.\<close>

definition carries :: "(trading_status \<times> int) option \<Rightarrow> outbound_event list \<Rightarrow> (trading_status \<times> int) option \<Rightarrow> bool" where
  "carries m es m' \<longleftrightarrow> (let ks = map key_of (statuses es) in
     distinct_adj ks \<and> (ks = [] \<longrightarrow> m' = m) \<and> (ks \<noteq> [] \<longrightarrow> m' = Some (last ks) \<and> m \<noteq> Some (hd ks))
     \<and> (\<forall>t \<in> set (statuses es). ts_untilNs t \<noteq> 0 \<longrightarrow> ts_status t = StLuldPause))"

lemma carries_quiet [simp]: "statuses es = [] \<Longrightarrow> carries m es m' \<longleftrightarrow> m' = m"
  by (simp add: carries_def)

lemma carries_trans:
  assumes "carries m es m1" "carries m1 fs m2"
  shows "carries m (es @ fs) m2"
proof -
  define xs where "xs = map key_of (statuses es)"
  define ys where "ys = map key_of (statuses fs)"
  have "map key_of (statuses (es @ fs)) = xs @ ys" by (simp add: xs_def ys_def)
  then show ?thesis using assms unfolding carries_def Let_def xs_def [symmetric] ys_def [symmetric]
    by (cases "xs = []"; cases "ys = []") (auto simp: distinct_adj_append_iff)
qed

lemma emitStatus_carries:
  assumes "u \<noteq> 0 \<longrightarrow> st = StLuldPause"
  shows "carries (memo (sg_session E)) (snd (emitStatus H st r u E)) (memo (sg_session (fst (emitStatus H st r u E))))
    \<and> memo (sg_session (fst (emitStatus H st r u E))) = Some (st, u)"
  using assms by (auto simp: emitStatus_def publishes_def Let_def memo_def carries_def key_of_def)

lemma until_pause: "publishedUntil st s \<noteq> 0 \<longrightarrow> st = StLuldPause"
  by (simp add: publishedUntil_def split: if_splits)

lemma applySession_carries:
  assumes "host_quiet H" "memo (sg_session E) = None \<or> memo (sg_session E) = Some (current E) \<or> e = SeOpenContinuous"
    and "applySession H e d E = (E', es)"
  shows "carries (memo (sg_session E)) es (memo (sg_session E'))"
    and "memo (sg_session E') = None \<or> memo (sg_session E') = Some (current E')"
    and "e = SeOpenContinuous \<Longrightarrow> memo (sg_session E') = Some (current E')"
proof -
  obtain out s h where a: "session_apply e (sg_now E) d (sg_session E, sg_halted E) = (out, s, h)" by (metis prod.exhaust)
  define E1 where "E1 = E\<lparr>sg_session := s, sg_halted := h\<rparr>"
  define E2 where "E2 = fst (publishStatus H (so_reason out) E1)"
  define es2 where "es2 = snd (publishStatus H (so_reason out) E1)"
  have m1: "memo (sg_session E1) = memo (sg_session E)" using apply_keeps_memo [OF a] by (simp add: memo_def E1_def)
  from emitStatus_carries [where E = E1 and H = H and r = "so_reason out", OF until_pause [of "tradingStatus E1" "sg_session E1"]]
  have pub: "carries (memo (sg_session E1)) es2 (memo (sg_session E2))" "memo (sg_session E2) = Some (current E1)"
    unfolding E2_def es2_def publishStatus_def Let_def current_def by (rule conjunct1, rule conjunct2)
  have cur: "current E2 = current E1"
    using status_of_flags [of E2 E1] emitStatus_flags [of H _ _ _ E1] by (simp add: E2_def publishStatus_def Let_def)
  show "carries (memo (sg_session E)) es (memo (sg_session E'))" "memo (sg_session E') = None \<or> memo (sg_session E') = Some (current E')"
    "e = SeOpenContinuous \<Longrightarrow> memo (sg_session E') = Some (current E')"
  proof -
    consider (no) "\<not> so_fired out" | (pull) "so_fired out" "so_effect out = CancelBookAfter" | (plain) "so_fired out" "so_effect out \<noteq> CancelBookAfter"
      by blast
    then have "carries (memo (sg_session E)) es (memo (sg_session E')) \<and> (memo (sg_session E') = None \<or> memo (sg_session E') = Some (current E'))
        \<and> (e = SeOpenContinuous \<longrightarrow> memo (sg_session E') = Some (current E'))"
    proof cases
      case no
      then have "E' = E" "es = []" using assms(3) refused_changes_nothing [OF a] by (simp_all add: applySession_def a Let_def)
      moreover have "e \<noteq> SeOpenContinuous" using no a by (auto simp: apply_by_cases)
      ultimately show ?thesis using assms(2) by simp
    next
      case pull
      then have E': "E' = E2\<lparr>sg_rest := fst (sh_cancelEntireBook H VenueHalt (sg_rest E2))\<rparr>"
        and es: "es = es2 @ snd (sh_cancelEntireBook H VenueHalt (sg_rest E2))"
        using assms(3) by (simp_all add: applySession_def a Let_def case_prod_unfold E1_def [symmetric] E2_def [symmetric] es2_def [symmetric])
      have "current E' = current E2" by (simp add: E' current_def tradingStatus_def)
      moreover have "carries (memo (sg_session E)) es (memo (sg_session E2))"
        unfolding es using carries_trans [OF pub(1) [unfolded m1]] assms(1) by (simp add: host_quiet_def)
      ultimately show ?thesis using pub(2) cur by (simp add: E')
    next
      case plain
      then have "E' = E2" "es = es2"
        using assms(3) by (simp_all add: applySession_def a Let_def case_prod_unfold E1_def [symmetric] E2_def es2_def)
      then show ?thesis using pub cur m1 by simp
    qed
    then show "carries (memo (sg_session E)) es (memo (sg_session E'))" "memo (sg_session E') = None \<or> memo (sg_session E') = Some (current E')"
      "e = SeOpenContinuous \<Longrightarrow> memo (sg_session E') = Some (current E')" by blast+
  qed
qed

text \<open>The memo is the state whenever something was published; a whole operator action keeps it so.\<close>

definition memo_ok :: "'e status_engine \<Rightarrow> bool" where
  "memo_ok E \<longleftrightarrow> memo (sg_session E) = None \<or> memo (sg_session E) = Some (current E)"

lemma memo_ok_rest [simp]: "memo_ok (E\<lparr>sg_rest := r\<rparr>) = memo_ok E" "memo_ok (E\<lparr>sg_now := n\<rparr>) = memo_ok E"
  by (simp_all add: memo_ok_def current_def tradingStatus_def)

lemma onAdmin_carries:
  assumes "host_quiet H" "memo_ok E" "onAdmin H act E = (E', es)"
  shows "carries (memo (sg_session E)) es (memo (sg_session E')) \<and> memo_ok E'"
proof (cases "act = AdOpenContinuous")
  case True
  define E1 where "E1 = fst (emitStatus H StAuctionUncross TsAuction 0 E)"
  define E2 where "E2 = E1\<lparr>sg_rest := fst (sh_runAuction H (sg_rest E1))\<rparr>"
  obtain E3 gs where g: "applySession H SeOpenContinuous 0 E2 = (E3, gs)" by (cases "applySession H SeOpenContinuous 0 E2")
  have es: "E' = E3" "es = snd (emitStatus H StAuctionUncross TsAuction 0 E) @ snd (sh_runAuction H (sg_rest E1)) @ gs"
    using assms(3) g by (simp_all add: True openContinuous_def Let_def case_prod_unfold E1_def E2_def)
  have 1: "carries (memo (sg_session E)) (snd (emitStatus H StAuctionUncross TsAuction 0 E)) (memo (sg_session E1))"
    unfolding E1_def by (rule conjunct1 [OF emitStatus_carries]) simp
  have 2: "carries (memo (sg_session E1)) (snd (sh_runAuction H (sg_rest E1))) (memo (sg_session E2))"
    using assms(1) by (simp add: host_quiet_def E2_def)
  show ?thesis using carries_trans [OF 1 carries_trans [OF 2 applySession_carries(1) [OF assms(1) _ g]]] applySession_carries(3) [OF assms(1) _ g]
    by (simp add: es memo_ok_def)
next
  case False
  then obtain e where e: "onAdmin H act E = applySession H e 0 E" by (cases act) auto
  then show ?thesis using applySession_carries(1,2) [OF assms(1), of E e 0 E' es] assms(2,3) by (auto simp: memo_ok_def)
qed

lemma submit_prologue_carries:
  assumes "host_quiet H" "memo_ok E" "submit_prologue H ts E = (E', es)"
  shows "carries (memo (sg_session E)) es (memo (sg_session E')) \<and> memo_ok E'"
proof -
  define E0 where "E0 = E\<lparr>sg_now := ts\<rparr>"
  obtain E1 fs where f: "(if pauseElapsed (sg_halted E0) (sg_now E0) (sg_session E0) then applySession H SeLuldPauseElapsed 0 E0 else (E0, [])) = (E1, fs)"
    by (metis prod.exhaust)
  have m: "memo_ok E0" "memo (sg_session E0) = memo (sg_session E)" using assms(2) by (simp_all add: E0_def)
  then have 1: "carries (memo (sg_session E)) fs (memo (sg_session E1)) \<and> memo_ok E1"
    using f applySession_carries(1,2) [OF assms(1), of E0 SeLuldPauseElapsed 0 E1 fs] by (auto simp: memo_ok_def split: if_splits)
  have es: "E' = E1\<lparr>sg_rest := fst (sh_expire H (sg_now E1) (sg_rest E1))\<rparr>" "es = fs @ snd (sh_expire H (sg_now E1) (sg_rest E1))"
    using assms(3) f by (simp_all add: submit_prologue_def Let_def E0_def [symmetric] case_prod_unfold)
  have "carries (memo (sg_session E)) es (memo (sg_session E1))"
    unfolding es using carries_trans [OF conjunct1 [OF 1]] assms(1) by (simp add: host_quiet_def)
  then show ?thesis using 1 by (simp add: es)
qed

text \<open>
  A history of the instrument: operator actions, volatility pauses tripped by an order, and any other command,
  which passes the prologue and may do anything to the rest of the engine short of publishing a status.
\<close>

inductive status_step :: "('e, 'y) status_host_scheme \<Rightarrow> 'e status_engine \<Rightarrow> outbound_event list \<Rightarrow> 'e status_engine \<Rightarrow> bool" for H where
  step_admin: "submit_admin H ts act E = (E', es) \<Longrightarrow> status_step H E es E'"
| step_trip: "tripLuldHalt H E = (E', es) \<Longrightarrow> status_step H E es E'"
| step_other: "submit_prologue H ts E = (E', es) \<Longrightarrow> statuses fs = [] \<Longrightarrow> status_step H E (es @ fs) (E'\<lparr>sg_rest := r\<rparr>)"

inductive status_run :: "('e, 'y) status_host_scheme \<Rightarrow> 'e status_engine \<Rightarrow> outbound_event list \<Rightarrow> 'e status_engine \<Rightarrow> bool" for H where
  run_nil: "status_run H E [] E"
| run_step: "status_run H E es E1 \<Longrightarrow> status_step H E1 fs E2 \<Longrightarrow> status_run H E (es @ fs) E2"

lemma status_step_carries:
  assumes "status_step H E es E'" "host_quiet H" "memo_ok E"
  shows "carries (memo (sg_session E)) es (memo (sg_session E')) \<and> memo_ok E'"
  using assms
proof cases
  case (step_admin ts act)
  obtain E1 es1 where 1: "submit_prologue H ts E = (E1, es1)" by (cases "submit_prologue H ts E")
  obtain es2 where 2: "onAdmin H act E1 = (E', es2)" "es = es1 @ es2"
    using step_admin 1 by (auto simp: submit_admin_def split: prod.splits)
  note a = submit_prologue_carries [OF assms(2,3) 1]
  with onAdmin_carries [OF assms(2) _ 2(1)] show ?thesis using carries_trans unfolding 2(2) by blast
next
  case step_trip
  then show ?thesis using applySession_carries(1,2) [OF assms(2), of E SeLuldBreach _ E' es] assms(3) by (auto simp: tripLuldHalt_def memo_ok_def)
next
  case (step_other ts E1 es1 fs r)
  note a = submit_prologue_carries [OF assms(2,3) step_other(3)]
  then show ?thesis using carries_trans [OF conjunct1 [OF a], of fs] step_other by simp
qed

lemma status_run_carries:
  assumes "status_run H E es E'" "host_quiet H" "memo_ok E"
  shows "carries (memo (sg_session E)) es (memo (sg_session E')) \<and> memo_ok E'"
  using assms
proof (induction rule: status_run.induct)
  case (run_step E es E1 fs E2)
  then show ?case using status_step_carries carries_trans by blast
qed simp

text \<open>
  The feed carries transitions and only transitions: over any history of a fresh instrument no status is
  published twice in a row, the last one published is the state the instrument is in, and an expiry is
  published with the timed pause and with nothing else.
\<close>

theorem status_feed_exact:
  assumes "status_run H E es E'" "sg_session E = session_init" "host_quiet H"
  shows "distinct_adj (map key_of (statuses es)) \<and> (statuses es \<noteq> [] \<longrightarrow> key_of (last (statuses es)) = current E')
    \<and> (\<forall>t \<in> set (statuses es). ts_untilNs t \<noteq> 0 \<longrightarrow> ts_status t = StLuldPause)"
proof -
  have "memo_ok E" "memo (sg_session E) = None" using assms(2) by (simp_all add: memo_ok_def memo_def session_init_def)
  with status_run_carries [OF assms(1,3)] show ?thesis by (auto simp: carries_def Let_def memo_ok_def last_map)
qed

subsection \<open>The timed pause\<close>

text \<open>
  A pending deadline implies the halt, so a volatility pause always ends by itself: the first command at or
  after its deadline lifts the halt, whatever it is, and an earlier one does not. An operator's halt on top of
  a live pause shares that deadline.
\<close>

definition pause_ok :: "'e status_engine \<Rightarrow> bool" where
  "pause_ok E \<longleftrightarrow> (se_haltUntil (sg_session E) \<noteq> 0 \<longrightarrow> sg_halted E)"

lemma admin_pause: "pause_ok E \<Longrightarrow> pause_ok (fst (submit_admin H ts act E))"
proof -
  assume "pause_ok E"
  moreover have "fst (snd f) \<noteq> 0 \<longrightarrow> fst f \<Longrightarrow> fst (snd (admin_flags act (elapse_flags ts f))) \<noteq> 0 \<longrightarrow> fst (admin_flags act (elapse_flags ts f))" for f
    by (cases f; cases act) (auto simp: elapse_flags_def split: if_splits)
  ultimately show ?thesis using submit_admin_flags [of H ts act E] unfolding pause_ok_def by (metis flags_def fst_conv snd_conv)
qed

theorem pause_ends_at_deadline:
  assumes "pause_ok E" "se_haltUntil (sg_session E) \<noteq> 0"
  shows "flags (fst (submit_prologue H ts E)) = (if ts \<ge> se_haltUntil (sg_session E)
    then (False, 0, se_auction (sg_session E), se_closed (sg_session E), se_delisted (sg_session E)) else flags E)"
  using assms unfolding submit_prologue_flags by (auto simp: pause_ok_def elapse_flags_def flags_def)

text \<open>
  Ten of the twelve rows have an operator's action behind them: all but the breach of the band and the
  end of the pause it caused.
\<close>

fun admin_event :: "admin_action \<Rightarrow> session_event" where
  "admin_event AdBeginPreOpen = SeBeginPreOpen" | "admin_event AdOpenContinuous = SeOpenContinuous" | "admin_event AdResumeAuction = SeResumeAuction"
| "admin_event AdHaltAndCancelAll = SeHaltAndCancelAll" | "admin_event AdHalt = SeHalt" | "admin_event AdResume = SeResume"
| "admin_event AdCloseSession = SeCloseSession" | "admin_event AdOpenSession = SeOpenSession" | "admin_event AdDelist = SeDelist"
| "admin_event AdRelist = SeRelist"

lemma onAdmin_event: "act \<noteq> AdOpenContinuous \<Longrightarrow> onAdmin H act E = applySession H (admin_event act) 0 E"
  by (cases act) simp_all

theorem session_rows_by_operator:
  "set (map sx_event kSessionTransitions) - range admin_event = {SeLuldBreach, SeLuldPauseElapsed} \<and> inj admin_event"
proof -
  have "e \<in> range admin_event" if "e \<noteq> SeLuldBreach" "e \<noteq> SeLuldPauseElapsed" for e
    using that by (cases e) (auto intro: range_eqI [of _ admin_event] admin_event.simps [symmetric])
  moreover have "admin_event act \<notin> {SeLuldBreach, SeLuldPauseElapsed}" for act by (cases act) simp_all
  moreover have "{SeLuldBreach, SeLuldPauseElapsed} \<subseteq> set (map sx_event kSessionTransitions)" by (simp add: kSessionTransitions_def)
  ultimately have "set (map sx_event kSessionTransitions) - range admin_event = {SeLuldBreach, SeLuldPauseElapsed}" by blast
  moreover have "inj admin_event"
  proof (rule injI)
    fix a b
    assume "admin_event a = admin_event b"
    then show "a = b" by (cases a; cases b) simp_all
  qed
  ultimately show ?thesis by blast
qed

end
