(* ===== verification/Spec2Isabelle.thy ===== *)
theory Spec2Isabelle
  imports Agreement StopProps OcoBook ClOrdIdWindow ExpiryBook StpTable MmpState SbeMd SbeReports LastLookBook ClearingClaims ClearingOrder GapDetector DecimalText SessionProps
begin

text \<open>
  This development verifies the core of the venue: the arithmetic, the ledger, the two order
  books, the matcher, the conditional and conduct components around it, credit, settlement, clearing
  and the trading-status machine, and the wire formats of its market-data and order-entry sides. The sources are the C++ headers under \<^verbatim>\<open>include/flox\<close> and
  \<^verbatim>\<open>venue/include/flox-venue\<close>.

  \<^bold>\<open>The program.\<close> Client commands are sequenced into an engine per symbol. The engine validates
  an order, reserves funds in the ledger, crosses it through the matcher against a resting book
  and publishes the events; conditional orders wait in the stop book, one-cancels-other groups,
  pegs, deadlines, market-maker protection, self-trade prevention and the client-order-identifier
  window are small components the engine consults, each with its own snapshot section and its
  share of the determinism digest. Market data leaves as SBE messages on a multicast feed, which
  a consumer puts back in order with a gap detector.

  \<^bold>\<open>Theories and sources.\<close>
  \<^item> \<open>Prelude\<close>: integer ranges, truncating division, the conventions of the model.
  \<^item> \<open>FixedPoint\<close>: \<^verbatim>\<open>scale_check.h\<close>, \<^verbatim>\<open>decimal.h\<close>. The checked and 128-bit routines on
    \<open>64 word\<close>, the \<^verbatim>\<open>Decimal\<close> operators on their raw \<open>int\<close>; saturation, and the software
    division equal to the native one.
  \<^item> \<open>Ledger\<close>: \<^verbatim>\<open>ledger.h\<close>. Balances by packed key; conservation, reserve and release, isolation.
  \<^item> \<open>Messages\<close>: \<^verbatim>\<open>messages.h\<close>, \<^verbatim>\<open>resting_order.h\<close>, \<^verbatim>\<open>common.h\<close>, \<^verbatim>\<open>reject_reason.h\<close>.
  \<^item> \<open>BookSpec\<close>: the abstract book, a price-time priority list per side, and the locale
    \<open>resting_book\<close> that states what a book promises the matcher.
  \<^item> \<open>MatchingBook\<close>: \<^verbatim>\<open>matching_book.h\<close>, the reference book of maps and an index, interpreted
    in that locale.
  \<^item> \<open>Matcher\<close>, \<open>MatcherSteps\<close>, \<open>Fifo\<close>, \<open>FillOrKill\<close>, \<open>MatchProps\<close>, \<open>ProRata\<close>: \<^verbatim>\<open>matcher.h\<close> over the
    book interface, with the engine's hooks as parameters; the guarantees of a price-time and of
    a pro-rata cross.
  \<^item> \<open>LadderBits\<close>, \<open>LadderIndex\<close>, \<open>LadderBook\<close>, \<open>LadderGrid\<close>, \<open>LadderLinks\<close>, \<open>LadderInv\<close>, \<open>LadderOps\<close>,
    \<open>LadderPool\<close>, \<open>LadderProps\<close>, \<open>LadderClaims\<close>: \<^verbatim>\<open>ladder_book.h\<close>, the production book: occupancy
    bitmaps, the open-addressing identifier table with back-shift deletion, doubly linked levels
    in a node pool; its representation relation to the abstract list and its interpretation in the
    same locale.
  \<^item> \<open>Conform\<close>, \<open>Agreement\<close>: any two books that refine the list cross alike, so a cross over the
    ladder and over the reference book agree event for event.
  \<^item> \<open>StopBook\<close>, \<open>StopProps\<close>: \<^verbatim>\<open>stop_book.h\<close>, with the locale \<open>ranked_queue\<close>.
  \<^item> \<open>OcoBook\<close>: \<^verbatim>\<open>engine/oco.h\<close>.
  \<^item> \<open>StateDigest\<close>: \<^verbatim>\<open>sorted_keys.h\<close>, \<^verbatim>\<open>state_hash_tags.h\<close>, \<^verbatim>\<open>mix\<close>; the locale
    \<open>snapshot_section\<close>, the contract under which a component's snapshot restores exactly, which
    the next theories interpret.
  \<^item> \<open>ClOrdIdWindow\<close>: \<^verbatim>\<open>engine/clordid_window.h\<close>; \<open>PegBook\<close>: \<^verbatim>\<open>engine/pegs.h\<close>; \<open>ExpiryBook\<close>:
    \<^verbatim>\<open>engine/expiry.h\<close>; \<open>StpTable\<close>: \<^verbatim>\<open>engine/stp.h\<close>; \<open>MmpState\<close>: \<^verbatim>\<open>engine/mmp.h\<close>.
  \<^item> \<open>OutboundEvents\<close>: the event variant of \<^verbatim>\<open>messages.h\<close>.
  \<^item> \<open>LastLook\<close>, \<open>LastLookProps\<close>, \<open>LastLookBook\<close>: \<^verbatim>\<open>engine/last_look.h\<close> and the engine's side of its
    seam (\<^verbatim>\<open>engine/last_look.inl\<close>, \<^verbatim>\<open>restOnBook\<close>, the event wrapper). The host concept is a record of
    operations; the locale \<open>hold_host\<close> states its contract, and a sublocale shows that an engine
    over any book of \<open>resting_book\<close> keeps it.
  \<^item> \<open>Fees\<close>: \<^verbatim>\<open>engine/fees.h\<close>, charging a print at given rates.
  \<^item> \<open>Credit\<close>, \<open>CreditProps\<close>, \<open>CreditClaims\<close>: \<^verbatim>\<open>engine/credit.h\<close>, \<^verbatim>\<open>engine/ledger_fees.inl\<close>,
    \<^verbatim>\<open>symbol_config.h\<close>. Admission profiles, buying-power reservations and their releases, the
    allowance of a fill, the settlement of a spot trade.
  \<^item> \<open>Clearing\<close>, \<open>ClearingProps\<close>, \<open>ClearingSweep\<close>, \<open>ClearingClaims\<close>, \<open>ClearingOrder\<close>: \<^verbatim>\<open>engine/clearing.h\<close>,
    \<^verbatim>\<open>engine/clearing.inl\<close>. Perp positions and their margin, funding, liquidation and
    auto-deleveraging, the operator's corrections; the cancellation of an account's orders is a callback.
  \<^item> \<open>Session\<close>, \<open>SessionProps\<close>: \<^verbatim>\<open>engine/session.h\<close> and the engine's side of it. The transition
    table, the published status, its checkpoint; outer states cover inner ones and give them back.
  \<^item> \<open>Sbe\<close>, \<open>SbeMd\<close>: \<^verbatim>\<open>sbe.h\<close>, \<^verbatim>\<open>sbe_md_codec.h\<close>. Readers that would leave the buffer answer
    \<open>None\<close>; the decoders never do, and read back what the encoders write.
  \<^item> \<open>SbeOrders\<close>, \<open>SbeReports\<close>: \<^verbatim>\<open>sbe_order_entry_codec.h\<close>. Client commands with their refusals,
    execution reports and the place of the sequence number in each, session verbs.
  \<^item> \<open>GapDetector\<close>: \<^verbatim>\<open>resend_buffer.h\<close>, order and recovery of the feed.
  \<^item> \<open>DecimalText\<close>: \<^verbatim>\<open>decimal_wire.h\<close>, \<^verbatim>\<open>fixed_point_text.h\<close>.

  \<^bold>\<open>How state and operations correspond.\<close> A class is a \<open>record\<close> of its members (or the type of its
  only member), a method a definition that takes and returns it; \<^verbatim>\<open>std::unordered_map\<close> is an
  association list with distinct keys, \<^verbatim>\<open>std::map\<close> one in key order, \<^verbatim>\<open>std::unordered_set\<close> a
  set. Callbacks are events of an output list, or hooks that are parameters with their contract
  as hypotheses. Prices and quantities are raw \<open>int\<close>s combined with the saturating operators the
  source uses; counters and identifiers are \<open>nat\<close>; wire fields keep their width as words.

  \<^bold>\<open>What is shown.\<close> The matcher: positive, in-limit, ordered trades, no self trade, exact
  quantities, greedy allocation, all-or-none, termination. The books: both refine one abstract
  book. The conditional and conduct components: exactly which orders fire, expire, lose or are
  pulled, in which order. Last look: every hold is decided
  once, and what each outcome does to the book. Money: reservations and position margins stay within
  what the ledger holds back through admissions, releases, backed fills, liquidations and funding; settlement
  conserves every asset; the sweep closes exactly the accounts in breach; the order of the unordered
  position table is not observable. Trading status: the feed carries transitions and only transitions. Snapshots: every modelled section restores its
  table and digest. The
  wire: memory safety on any buffer, round trips, forward compatibility, exact decimals. The
  feed: in order, and complete once every message has arrived.

  \<^bold>\<open>Fuel and bounds.\<close> The crossing loops are the library's \<open>while_option\<close>, and that they return is a
  theorem. Probing and scanning loops of the ladder carry the table size as fuel, which suffices
  because the table always has a free slot. The next sequence number of the feed wraps at \<open>2 ^ 64\<close>, and
  the theorems on it say where that matters. Frames of the codec theorems stay below the 16-bit
  block length. Sums the source forms in \<^verbatim>\<open>int64_t\<close> without a check (the running sum of the
  protection window, a touch plus an offset, position quantities and open interest) are unbounded in the model.

  \<^bold>\<open>Not modelled.\<close> The engine class that composes the components (its command handlers, order
  validation, the auction uncross, quotes); the journal and the sequencer around it; files, threads,
  sockets, TLS; the FIX and JSON text codecs; the services that compute on \<^verbatim>\<open>double\<close> (fee schedules,
  cross margin, the funding-rate source, collateral); the lock-free event bus, whose correctness is
  about the memory model; administration and metrics.
\<close>

end
